(* ===== verification/Ava_Prelude.thy ===== *)
theory Ava_Prelude
  imports Main "HOL-Library.Word" "HOL-Library.Monad_Syntax"
begin

section \<open>Prelude: machine types, C memory and shared automation\<close>

text \<open>
  What every component shares: the fixed-width integers of \<open>util/typedef.h\<close> (the
  64-bit host configuration, where \<open>usz\<close> is 64 bits wide), the error codes of
  \<open>util/errdef.h\<close>, bounds-checked copies between byte arrays, and the lemmas on words,
  lists and \<open>option\<close> that the component theories use.

  A C operation whose behaviour is undefined (a shift by the full width, a copy outside an
  object, a null dereference) is \<open>None\<close> in the model; every operation that can reach one
  returns an \<open>option\<close>, so that "the operation is defined" is part of what is proved.
\<close>

unbundle bit_operations_syntax

subsection \<open>Machine types (util/typedef.h) and error codes (util/errdef.h)\<close>

type_synonym u8 = "8 word"
type_synonym u16 = "16 word"
type_synonym u32 = "32 word"
type_synonym u64 = "64 word"
type_synonym usz = "64 word"

datatype errdef_e = MOK | MEINVAL | MEBUSY | MEACCES | METIMEOUT | MECREATE | MEALLOC

fun errcode :: "errdef_e \<Rightarrow> int" where
  "errcode MOK = 0"
| "errcode MEINVAL = 1"
| "errcode MEBUSY = 2"
| "errcode MEACCES = 3"
| "errcode METIMEOUT = 4"
| "errcode MECREATE = 5"
| "errcode MEALLOC = 6"

lemma errcode_inj: "errcode a = errcode b \<Longrightarrow> a = b"
  by (cases a; cases b) simp_all

subsection \<open>Collections of facts\<close>

named_theorems ring_simps \<open>index arithmetic of the ring buffers\<close>
named_theorems mem_simps \<open>bounds-checked copies that are in range\<close>

subsection \<open>Byte arrays and memcpy\<close>

text \<open>
  An object is the list of its bytes. \<open>mem_get\<close> reads \<open>n\<close> bytes at an offset and
  \<open>mem_put\<close> overwrites the bytes at an offset; a copy that leaves the object is undefined
  behaviour, also when it is only one byte too long.
\<close>

definition mem_get :: "u8 list \<Rightarrow> nat \<Rightarrow> nat \<Rightarrow> u8 list option" where
  "mem_get buf off n = (if off + n \<le> length buf then Some (take n (drop off buf)) else None)"

definition mem_put :: "u8 list \<Rightarrow> nat \<Rightarrow> u8 list \<Rightarrow> u8 list option" where
  "mem_put buf off xs =
     (if off + length xs \<le> length buf
      then Some (take off buf @ xs @ drop (off + length xs) buf) else None)"

lemma mem_get_Some [mem_simps]:
  "off + n \<le> length buf \<Longrightarrow> mem_get buf off n = Some (take n (drop off buf))"
  by (simp add: mem_get_def)

lemma mem_put_Some [mem_simps]:
  "off + length xs \<le> length buf \<Longrightarrow>
   mem_put buf off xs = Some (take off buf @ xs @ drop (off + length xs) buf)"
  by (simp add: mem_put_def)

lemma mem_put_length: "mem_put buf off xs = Some buf' \<Longrightarrow> length buf' = length buf"
  by (auto simp: mem_put_def split: if_splits)

lemma mem_put_nth:
  assumes "mem_put buf off xs = Some buf'" and "i < length buf"
  shows "buf' ! i = (if off \<le> i \<and> i < off + length xs then xs ! (i - off) else buf ! i)"
proof -
  have "off + length xs \<le> length buf" and
    b: "buf' = take off buf @ xs @ drop (off + length xs) buf"
    using assms(1) by (auto simp: mem_put_def split: if_splits)
  then show ?thesis using assms(2) by (auto simp: nth_append min_def)
qed

lemma mem_put_get:
  "mem_put buf off xs = Some buf' \<Longrightarrow> mem_get buf' off (length xs) = Some xs"
  by (auto simp: mem_put_def mem_get_def min_def split: if_splits)

lemma mem_get_length: "mem_get buf off n = Some xs \<Longrightarrow> length xs = n"
  by (auto simp: mem_get_def split: if_splits)

lemma mem_get_nth: "mem_get buf off n = Some xs \<Longrightarrow> i < n \<Longrightarrow> xs ! i = buf ! (off + i)"
  by (auto simp: mem_get_def split: if_splits)

subsection \<open>Words\<close>

lemma pow2_usz_exp:
  fixes c :: usz
  assumes "unat c = 2 ^ k"
  shows "k < 64"
proof (rule ccontr)
  assume "\<not> k < 64"
  then have "(2::nat) ^ 64 \<le> 2 ^ k" by (intro power_increasing) auto
  moreover have "unat c < 2 ^ 64" using unsigned_less [of c] by simp
  ultimately show False using assms by simp
qed

lemma unat_and_pow2_mask:
  fixes x c :: usz
  assumes c: "unat c = 2 ^ k"
  shows "unat (x AND (c - 1)) = unat x mod unat c"
proof -
  have k: "k < 64" using c by (rule pow2_usz_exp)
  then have "(2::nat) ^ k < 2 ^ 64" by (intro power_strict_increasing) auto
  then have "unat (2 ^ k :: usz) = 2 ^ k"
    using unat_of_nat [of "2 ^ k", where ?'a = 64] by simp
  then have "c = 2 ^ k"
    using c by (metis unsigned_word_eqI)
  then have "x AND (c - 1) = take_bit k x"
    by (simp only: take_bit_eq_mask mask_eq_decr_exp)
  then have "unat (x AND (c - 1)) = take_bit k (unat x)"
    by (simp only: unsigned_take_bit_eq)
  then show ?thesis
    using c by (simp only: take_bit_eq_mod)
qed

lemma pow2_dvd_usz:
  fixes c :: usz
  assumes "unat c = 2 ^ k"
  shows "unat c dvd 2 ^ 64"
  using pow2_usz_exp [OF assms] unfolding assms by (intro le_imp_power_dvd) simp

lemma unat_add_mod_dvd:
  fixes x y :: usz
  assumes "d dvd 2 ^ 64"
  shows "unat (x + y) mod d = (unat x + unat y) mod d"
  using assms by (simp add: unat_word_ariths mod_mod_cancel)

lemma unat_of_nat_usz: "n < 2 ^ 64 \<Longrightarrow> unat (of_nat n :: usz) = n"
  by (simp add: unsigned_of_nat take_bit_nat_eq_self)

lemma le_of_nat_usz: "\<lbrakk>a < 2 ^ 64; b < 2 ^ 64\<rbrakk> \<Longrightarrow> ((of_nat a :: usz) \<le> of_nat b) = (a \<le> b)"
  by (simp only: word_le_nat_alt unat_of_nat_usz)

subsection \<open>Numbers as bytes, least significant first\<close>

fun le_bytes :: "nat \<Rightarrow> nat \<Rightarrow> u8 list" where
  "le_bytes 0 x = []"
| "le_bytes (Suc n) x = of_nat (x mod 256) # le_bytes n (x div 256)"

fun le_val :: "u8 list \<Rightarrow> nat" where
  "le_val [] = 0"
| "le_val (b # bs) = unat b + 256 * le_val bs"

lemma length_le_bytes [simp]: "length (le_bytes n x) = n"
  by (induction n arbitrary: x) simp_all

lemma le_val_bytes: "le_val (le_bytes n x) = x mod 256 ^ n"
proof (induction n arbitrary: x)
  case (Suc n)
  have "unat (of_nat (x mod 256) :: u8) = x mod 256" by (simp add: unsigned_of_nat take_bit_eq_mod)
  then show ?case using Suc [of "x div 256"] by (simp add: mod_mult2_eq)
qed simp

lemma le_val_word: "of_nat (le_val (le_bytes 8 (unat (x :: 64 word)))) = x"
proof -
  have "unat x < 2 ^ LENGTH(64)" by (rule unsigned_less)
  then have "unat x < 256 ^ 8" by simp
  then show ?thesis by (simp only: le_val_bytes mod_less) simp
qed

end
