(* ===== verification/Bitops.thy ===== *)
theory Bitops
  imports Ava_Prelude
begin

section \<open>Bit operations (util/bitops.h)\<close>

text \<open>
  The header has three implementations of the same operations, chosen by the compiler: MSVC
  intrinsics, GCC/Clang builtins, and portable loops. The builtins are modelled by what the
  compiler documents (leading zeros, trailing zeros, number of ones, byte reversal), on the
  list of a word's bits, and undefined where the documentation says so; the loops are
  translated as they are written. The theorems say that the variants agree.
\<close>

subsection \<open>Bits as a list; shifts of C\<close>

definition word_bits :: "'a::len word \<Rightarrow> bool list" where
  "word_bits x = map (bit x) [0..<LENGTH('a)]"

text \<open>A C shift by the width of the type or more is undefined.\<close>

definition c_shl :: "'a::len word \<Rightarrow> u32 \<Rightarrow> 'a word option" where
  "c_shl x n = (if unat n < LENGTH('a) then Some (push_bit (unat n) x) else None)"

definition c_shr :: "'a::len word \<Rightarrow> u32 \<Rightarrow> 'a word option" where
  "c_shr x n = (if unat n < LENGTH('a) then Some (drop_bit (unat n) x) else None)"

subsection \<open>Compiler builtins, as documented\<close>

definition builtin_clz :: "'a::len word \<Rightarrow> u32 option" where
  "builtin_clz x = (if x = 0 then None else Some (of_nat (length (takeWhile Not (rev (word_bits x))))))"

definition builtin_ctz :: "'a::len word \<Rightarrow> u32 option" where
  "builtin_ctz x = (if x = 0 then None else Some (of_nat (length (takeWhile Not (word_bits x)))))"

definition builtin_popcount :: "'a::len word \<Rightarrow> u32" where
  "builtin_popcount x = of_nat (length (filter id (word_bits x)))"

text \<open>The bytes of a word, the least significant first; read back with the first one as the
  most significant.\<close>

definition word_le_bytes :: "'a::len word \<Rightarrow> u8 list" where
  "word_le_bytes x = map (\<lambda>i. ucast (drop_bit (8 * i) x)) [0..<LENGTH('a) div 8]"

definition builtin_bswap :: "'a::len word \<Rightarrow> 'a word" where
  "builtin_bswap x = word_rcat (word_le_bytes x)"

definition word_byte :: "'a::len word \<Rightarrow> nat \<Rightarrow> 'a word" where
  "word_byte x i = drop_bit (8 * i) x AND 0xFF"

subsection \<open>The GCC/Clang variants\<close>

definition clz64 :: "u64 \<Rightarrow> u32 option" where
  "clz64 x = (if x \<noteq> 0 then builtin_clz x else Some 64)"

definition ctz64 :: "u64 \<Rightarrow> u32 option" where
  "ctz64 x = (if x \<noteq> 0 then builtin_ctz x else Some 64)"

definition popcount64 :: "u64 \<Rightarrow> u32" where
  "popcount64 x = builtin_popcount x"

definition clz32 :: "u32 \<Rightarrow> u32 option" where
  "clz32 x = (if x \<noteq> 0 then builtin_clz x else Some 32)"

definition ctz32 :: "u32 \<Rightarrow> u32 option" where
  "ctz32 x = (if x \<noteq> 0 then builtin_ctz x else Some 32)"

definition popcount32 :: "u32 \<Rightarrow> u32" where
  "popcount32 x = builtin_popcount x"

definition bswap64 :: "u64 \<Rightarrow> u64" where
  "bswap64 x = builtin_bswap x"

definition bswap32 :: "u32 \<Rightarrow> u32" where
  "bswap32 x = builtin_bswap x"

definition rol64 :: "u64 \<Rightarrow> u32 \<Rightarrow> u64 option" where
  "rol64 x n = do { a \<leftarrow> c_shl x n; b \<leftarrow> c_shr x (64 - n); Some (a OR b) }"

definition ror64 :: "u64 \<Rightarrow> u32 \<Rightarrow> u64 option" where
  "ror64 x n = do { a \<leftarrow> c_shr x n; b \<leftarrow> c_shl x (64 - n); Some (a OR b) }"

definition rol32 :: "u32 \<Rightarrow> u32 \<Rightarrow> u32 option" where
  "rol32 x n = do { a \<leftarrow> c_shl x n; b \<leftarrow> c_shr x (32 - n); Some (a OR b) }"

definition ror32 :: "u32 \<Rightarrow> u32 \<Rightarrow> u32 option" where
  "ror32 x n = do { a \<leftarrow> c_shr x n; b \<leftarrow> c_shl x (32 - n); Some (a OR b) }"

subsection \<open>The portable loops\<close>

text \<open>\<open>for (i = w - 1; i >= 0; i--)\<close>: the first argument after the word counts the
  positions still to look at.\<close>

fun clz_loop :: "'a::len word \<Rightarrow> nat \<Rightarrow> u32 \<Rightarrow> u32" where
  "clz_loop x 0 n = n"
| "clz_loop x (Suc i) n = (if drop_bit i x AND 1 \<noteq> 0 then n else clz_loop x i (n + 1))"

text \<open>\<open>for (i = 0; i < w; i++)\<close>: \<open>k\<close> positions are left, the next one is \<open>i\<close>.\<close>

fun ctz_loop :: "'a::len word \<Rightarrow> nat \<Rightarrow> nat \<Rightarrow> u32 \<Rightarrow> u32" where
  "ctz_loop x 0 i n = n"
| "ctz_loop x (Suc k) i n = (if drop_bit i x AND 1 \<noteq> 0 then n else ctz_loop x k (Suc i) (n + 1))"

function popcount_loop :: "'a::len word \<Rightarrow> u32 \<Rightarrow> u32" where
  "popcount_loop x cnt =
     (if x \<noteq> 0 then popcount_loop (drop_bit 1 x) (cnt + ucast (x AND 1)) else cnt)"
  by pat_completeness auto
termination
proof (relation "measure (\<lambda>(x, cnt). unat x)")
  fix x :: "'a word" and cnt :: u32
  assume "x \<noteq> 0"
  then have "0 < unat x" by (simp add: unat_gt_0)
  moreover have "unat (drop_bit 1 x) = unat x div 2"
    using unat_drop_bit_eq [of 1 x] by (simp add: drop_bit_eq_div)
  ultimately show "((drop_bit 1 x, cnt + ucast (x AND 1)), (x, cnt)) \<in> measure (\<lambda>(x, cnt). unat x)"
    by simp
qed simp

declare popcount_loop.simps [simp del]

fun bswap_loop :: "nat \<Rightarrow> 'a::len word \<Rightarrow> nat \<Rightarrow> nat \<Rightarrow> 'a word \<Rightarrow> 'a word" where
  "bswap_loop w x 0 i y = y"
| "bswap_loop w x (Suc k) i y =
     bswap_loop w x k (Suc i) (y OR push_bit ((w - 1 - i) * 8) (drop_bit (i * 8) x AND 0xFF))"

definition clz64_fallback :: "u64 \<Rightarrow> u32" where
  "clz64_fallback x = (if x = 0 then 64 else clz_loop x 64 0)"

definition ctz64_fallback :: "u64 \<Rightarrow> u32" where
  "ctz64_fallback x = (if x = 0 then 64 else ctz_loop x 64 0 0)"

definition popcount64_fallback :: "u64 \<Rightarrow> u32" where
  "popcount64_fallback x = popcount_loop x 0"

definition bswap64_fallback :: "u64 \<Rightarrow> u64" where
  "bswap64_fallback x = bswap_loop 8 x 8 0 0"

definition clz32_fallback :: "u32 \<Rightarrow> u32" where
  "clz32_fallback x = (if x = 0 then 32 else clz_loop x 32 0)"

definition ctz32_fallback :: "u32 \<Rightarrow> u32" where
  "ctz32_fallback x = (if x = 0 then 32 else ctz_loop x 32 0 0)"

definition popcount32_fallback :: "u32 \<Rightarrow> u32" where
  "popcount32_fallback x = popcount_loop x 0"

definition bswap32_fallback :: "u32 \<Rightarrow> u32" where
  "bswap32_fallback x = bswap_loop 4 x 4 0 0"

subsection \<open>Derived operations and macros\<close>

definition lsb64 :: "u64 \<Rightarrow> u32 option" where
  "lsb64 x = ctz64 x"

definition msb64 :: "u64 \<Rightarrow> u32 option" where
  "msb64 x = map_option (\<lambda>c. 63 - c) (clz64 x)"

definition lsb32 :: "u32 \<Rightarrow> u32 option" where
  "lsb32 x = ctz32 x"

definition msb32 :: "u32 \<Rightarrow> u32 option" where
  "msb32 x = map_option (\<lambda>c. 31 - c) (clz32 x)"

text \<open>\<open>LF(n)\<close> and \<open>RF(n)\<close> of the header.\<close>

definition LF :: "u32 \<Rightarrow> u32 option" where
  "LF n = c_shl 1 n"

definition RF :: "u32 \<Rightarrow> u32 option" where
  "RF n = c_shr 1 n"

text \<open>\<open>BIT(n)\<close> is an \<open>unsigned long\<close>; the set, clear, toggle and check macros on a 64-bit \<open>v\<close>.\<close>

definition BIT :: "u32 \<Rightarrow> u64 option" where
  "BIT n = c_shl 1 n"

definition BIT_SET :: "u64 \<Rightarrow> u32 \<Rightarrow> u64 option" where
  "BIT_SET v n = map_option (\<lambda>b. v OR b) (BIT n)"

definition BIT_CLEAR :: "u64 \<Rightarrow> u32 \<Rightarrow> u64 option" where
  "BIT_CLEAR v n = map_option (\<lambda>b. v AND NOT b) (BIT n)"

definition BIT_TOGGLE :: "u64 \<Rightarrow> u32 \<Rightarrow> u64 option" where
  "BIT_TOGGLE v n = map_option (\<lambda>b. v XOR b) (BIT n)"

definition BIT_CHECK :: "u64 \<Rightarrow> u32 \<Rightarrow> u64 option" where
  "BIT_CHECK v n = map_option (\<lambda>s. s AND 1) (c_shr v n)"

text \<open>\<open>ROUNDUP_POW_OF_2(n)\<close> of \<open>util/mathdef.h\<close>, at a 64-bit and at a 32-bit argument: the
  macro computes \<open>sizeof(n) * 8 - clz64(n - 1)\<close> in \<open>size_t\<close>.\<close>

definition c_shl_usz :: "u64 \<Rightarrow> usz \<Rightarrow> u64 option" where
  "c_shl_usz x n = (if unat n < 64 then Some (push_bit (unat n) x) else None)"

definition ROUNDUP_POW_OF_2_u64 :: "u64 \<Rightarrow> u64 option" where
  "ROUNDUP_POW_OF_2_u64 n =
     (if n = 0 then Some 1
      else do { z \<leftarrow> clz64 (n - 1); c_shl_usz 1 (8 * 8 - ucast z) })"

definition ROUNDUP_POW_OF_2_u32 :: "u32 \<Rightarrow> u64 option" where
  "ROUNDUP_POW_OF_2_u32 n =
     (if n = 0 then Some 1
      else do { z \<leftarrow> clz64 (ucast (n - 1)); c_shl_usz 1 (4 * 8 - ucast z) })"

subsection \<open>The loops compute the builtins\<close>

lemma and_1_bit: "(drop_bit i (x :: 'a::len word) AND 1 \<noteq> 0) = bit x i"
  by (simp add: and_one_eq bit_iff_odd_drop_bit mod_2_eq_odd)

lemma length_word_bits [simp]: "length (word_bits (x :: 'a::len word)) = LENGTH('a)"
  by (simp add: word_bits_def)

lemma word_bits_nth [simp]: "i < LENGTH('a) \<Longrightarrow> word_bits (x :: 'a::len word) ! i = bit x i"
  by (simp add: word_bits_def)

lemma clz_loop_eq:
  "clz_loop x i n = n + of_nat (length (takeWhile Not (rev (map (bit x) [0..<i]))))"
  by (induction x i n rule: clz_loop.induct) (simp_all add: and_1_bit)

lemma ctz_loop_eq:
  "ctz_loop x k i n = n + of_nat (length (takeWhile Not (map (bit x) [i..<i + k])))"
  by (induction x k i n rule: ctz_loop.induct) (simp_all add: and_1_bit upt_conv_Cons del: upt_Suc)

lemma builtin_popcount_step:
  fixes x :: "'a::len word"
  shows "builtin_popcount x = builtin_popcount (drop_bit 1 x) + of_bool (bit x 0)"
proof -
  obtain l where l: "LENGTH('a) = Suc l" by (metis len_not_eq_0 not0_implies_Suc)
  have "word_bits x = bit x 0 # map (bit x) [1..<Suc l]"
    by (simp add: word_bits_def l upt_conv_Cons del: upt_Suc)
  moreover have "map (bit x) [1..<Suc l] = map (bit (drop_bit 1 x)) [0..<l]"
    by (rule nth_equalityI) (simp_all add: bit_drop_bit_eq del: upt_Suc)
  moreover have "word_bits (drop_bit 1 x) = map (bit (drop_bit 1 x)) [0..<l] @ [False]"
  proof -
    have "\<not> bit (drop_bit 1 x) l" using l bit_imp_le_length [of x "Suc l"] by (auto simp: bit_drop_bit_eq)
    then show ?thesis by (simp add: word_bits_def l)
  qed
  ultimately show ?thesis by (simp add: builtin_popcount_def id_def)
qed

lemma ucast_and_1: "(ucast ((x :: 'a::len word) AND 1) :: u32) = of_bool (bit x 0)"
  by (simp add: and_one_eq mod_2_eq_odd bit_0)

lemma popcount_loop_eq: "popcount_loop x cnt = cnt + builtin_popcount x"
proof (induction x cnt rule: popcount_loop.induct)
  case (1 x cnt)
  show ?case
  proof (cases "x = 0")
    case True
    then show ?thesis by (simp add: popcount_loop.simps builtin_popcount_def word_bits_def filter_empty_conv)
  next
    case False
    then show ?thesis using 1 [OF False] builtin_popcount_step [of x]
      by (simp only: popcount_loop.simps [of x] ucast_and_1) (simp add: algebra_simps)
  qed
qed

lemma byte_pos: "(q * 8 \<le> n \<and> n - q * 8 < 8) = (n div 8 = q)" "n div 8 = q \<Longrightarrow> n - q * 8 = n mod 8"
  for q n :: nat
  by (auto simp: minus_div_mult_eq_mod [symmetric])

lemma bit_bswap_loop:
  fixes x :: "'a::len word"
  assumes "i + k \<le> w" "8 * w = LENGTH('a)"
  shows "bit (bswap_loop w x k i y) n =
    (bit y n \<or> (n < LENGTH('a) \<and> i \<le> w - 1 - n div 8 \<and> w - 1 - n div 8 < i + k \<and> bit x (8 * (w - 1 - n div 8) + n mod 8)))"
  using assms
proof (induction w x k i y rule: bswap_loop.induct)
  case (1 w x i y)
  then show ?case by auto
next
  case (2 w x k i y)
  have b: "bit (push_bit ((w - 1 - i) * 8) (drop_bit (i * 8) x AND 0xFF)) n =
      (n < LENGTH('a) \<and> w - 1 - n div 8 = i \<and> bit x (8 * i + n mod 8))"
  proof -
    have m: "(0xFF :: 'a word) = mask 8" by (simp add: mask_eq_exp_minus_1)
    have "bit (push_bit ((w - 1 - i) * 8) (drop_bit (i * 8) x AND 0xFF)) n \<longleftrightarrow>
       n < LENGTH('a) \<and> (w - 1 - i) * 8 \<le> n \<and> n - (w - 1 - i) * 8 < 8 \<and> bit x (i * 8 + (n - (w - 1 - i) * 8))"
      unfolding m by (auto simp: bit_push_bit_iff bit_and_iff bit_drop_bit_eq bit_mask_iff possible_bit_def)
    also have "\<dots> \<longleftrightarrow> n < LENGTH('a) \<and> n div 8 = w - 1 - i \<and> bit x (8 * i + n mod 8)"
      by (metis byte_pos mult.commute)
    also have "\<dots> \<longleftrightarrow> n < LENGTH('a) \<and> w - 1 - n div 8 = i \<and> bit x (8 * i + n mod 8)"
    proof -
      have "n < LENGTH('a) \<Longrightarrow> n div 8 < w" using 2(3) by presburger
      then show ?thesis using 2(2) by auto
    qed
    finally show ?thesis .
  qed
  have IH: "bit (bswap_loop w x (Suc k) i y) n =
    (bit (y OR push_bit ((w - 1 - i) * 8) (drop_bit (i * 8) x AND 0xFF)) n \<or> (n < LENGTH('a) \<and> Suc i \<le> w - 1 - n div 8 \<and> w - 1 - n div 8 < Suc i + k \<and> bit x (8 * (w - 1 - n div 8) + n mod 8)))"
    using 2 by simp
  show ?case unfolding IH bit_or_iff b by (cases "w - 1 - n div 8 = i") auto
qed

lemma bit_builtin_bswap:
  fixes x :: "'a::len word"
  assumes "8 * w = LENGTH('a)"
  shows "bit (builtin_bswap x) n = (n < LENGTH('a) \<and> bit x (8 * (w - 1 - n div 8) + n mod 8))"
proof -
  have l: "length (word_le_bytes x) = w" using assms by (simp add: word_le_bytes_def flip: assms)
  have "bit (builtin_bswap x) n \<longleftrightarrow> n < LENGTH('a) \<and> n div 8 < w \<and> bit (rev (word_le_bytes x) ! (n div 8)) (n mod 8)"
    using l bit_horner_sum_uint_exp_iff [of "rev (word_le_bytes x)" n]
    by (simp add: builtin_bswap_def word_rcat_def bit_word_of_int_iff)
  also have "\<dots> \<longleftrightarrow> n < LENGTH('a) \<and> bit x (8 * (w - 1 - n div 8) + n mod 8)"
  proof (cases "n < LENGTH('a)")
    case True
    then have d: "n div 8 < w" using assms by presburger
    then have "rev (word_le_bytes x) ! (n div 8) = word_le_bytes x ! (w - 1 - n div 8)"
      using l by (simp add: rev_nth)
    also have "\<dots> = ucast (drop_bit (8 * (w - 1 - n div 8)) x)"
      using d by (simp add: word_le_bytes_def flip: assms)
    finally show ?thesis using d by (simp add: bit_unsigned_iff bit_drop_bit_eq)
  qed simp
  finally show ?thesis .
qed

lemma bswap_loop_builtin:
  assumes "8 * w = LENGTH('a)"
  shows "bswap_loop w (x :: 'a::len word) w 0 0 = builtin_bswap x"
proof (rule bit_word_eqI)
  fix n assume "n < LENGTH('a)"
  then show "bit (bswap_loop w x w 0 0) n = bit (builtin_bswap x) n"
    using assms by (auto simp: bit_bswap_loop bit_builtin_bswap)
qed

lemma builtin_bswap_twice:
  assumes "8 * w = LENGTH('a)"
  shows "builtin_bswap (builtin_bswap (x :: 'a::len word)) = x"
proof (rule bit_word_eqI)
  fix n assume n: "n < LENGTH('a)"
  have d: "n div 8 < w" using n assms by simp
  have "8 * (w - 1 - n div 8) + n mod 8 < LENGTH('a)" using d assms by simp
  moreover have "(8 * (w - 1 - n div 8) + n mod 8) div 8 = w - 1 - n div 8" by simp
  moreover have "(8 * (w - 1 - n div 8) + n mod 8) mod 8 = n mod 8" by simp
  moreover have "w - 1 - (w - 1 - n div 8) = n div 8" using d by simp
  ultimately show "bit (builtin_bswap (builtin_bswap x)) n = bit x n"
    by (simp add: bit_builtin_bswap [OF assms] n)
qed

subsection \<open>The highest set bit; powers of two\<close>

lemma builtin_clz_msb:
  fixes x :: "'a::len word"
  assumes "x \<noteq> 0"
  obtains c m where "builtin_clz x = Some (of_nat c)" "m + c + 1 = LENGTH('a)"
    "2 ^ m \<le> unat x" "unat x < 2 ^ (m + 1)"
proof -
  define bs where "bs = rev (word_bits x)"
  define c where "c = length (takeWhile Not bs)"
  have lbs: "length bs = LENGTH('a)" by (simp add: bs_def)
  have bn: "bs ! i = bit x (LENGTH('a) - 1 - i)" if "i < LENGTH('a)" for i
    using that by (simp add: bs_def rev_nth)
  obtain j where j: "j < LENGTH('a)" "bit x j"
    using assms bit_imp_le_length by (force simp: bit_eq_iff)
  have "bs ! (LENGTH('a) - 1 - j)" using bn [of "LENGTH('a) - 1 - j"] j by simp
  moreover have "LENGTH('a) - 1 - j < length bs" using lbs j by simp
  ultimately have "True \<in> set bs" by (metis nth_mem)
  then have "dropWhile Not bs \<noteq> []" by (auto simp: dropWhile_eq_Nil_conv)
  then have cl: "c < length bs"
    unfolding c_def using takeWhile_dropWhile_id [of Not bs]
    by (metis length_append length_greater_0_conv less_add_same_cancel1)
  then have top: "bit x (LENGTH('a) - 1 - c)"
    using nth_length_takeWhile [of Not bs] bn [of c] lbs by (simp add: c_def)
  have above: "\<not> bit x k" if "LENGTH('a) - 1 - c < k" for k
  proof (cases "k < LENGTH('a)")
    case True
    then have k: "LENGTH('a) - 1 - k < c" using that cl lbs by simp
    then have "\<not> bs ! (LENGTH('a) - 1 - k)"
      unfolding c_def using takeWhile_nth [of "LENGTH('a) - 1 - k" Not bs]
        set_takeWhileD [of "takeWhile Not bs ! (LENGTH('a) - 1 - k)" Not bs] nth_mem [of "LENGTH('a) - 1 - k" "takeWhile Not bs"]
      by simp
    then show ?thesis using bn [of "LENGTH('a) - 1 - k"] True by simp
  qed (use bit_imp_le_length in force)
  define m where "m = LENGTH('a) - 1 - c"
  have "take_bit (m + 1) x = x"
    by (rule bit_eqI) (use above in \<open>auto simp: bit_take_bit_iff m_def not_le [symmetric] simp del: Suc_diff_Suc\<close>)
  then have "unat x < 2 ^ (m + 1)" using take_bit_nat_less_exp [of "m + 1" "unat x"] by (simp add: unsigned_take_bit_eq [symmetric] del: power_Suc)
  moreover have "2 ^ m \<le> unat x"
  proof -
    have "bit (unat x) m" using top m_def by (simp add: bit_unsigned_iff)
    then have "odd (unat x div 2 ^ m)" unfolding bit_iff_odd .
    then have "unat x div 2 ^ m \<noteq> 0" by (metis even_zero)
    then show ?thesis by (metis div_less not_le)
  qed
  moreover have "builtin_clz x = Some (of_nat c)" using assms by (simp add: builtin_clz_def c_def bs_def)
  moreover have "m + c + 1 = LENGTH('a)" using cl lbs m_def by simp
  ultimately show ?thesis using that by blast
qed

lemma clz64_msb:
  assumes "x \<noteq> 0"
  obtains m where "clz64 x = Some (of_nat (63 - m))" "m < 64" "2 ^ m \<le> unat x" "unat x < 2 ^ (m + 1)"
proof -
  obtain c m where "builtin_clz x = Some (of_nat c)" "m + c + 1 = LENGTH(64)"
    "2 ^ m \<le> unat x" "unat x < 2 ^ (m + 1)" by (rule builtin_clz_msb [OF assms])
  moreover from this have "c = 63 - m" "m < 64" by simp_all
  ultimately show ?thesis using that [of m] assms by (simp only: clz64_def if_True not_False_eq_True simp_thms)
qed

lemma msb64_range_lemma:
  assumes "x \<noteq> 0"
  shows "\<exists>m < 64. msb64 x = Some (of_nat m) \<and> 2 ^ m \<le> unat x \<and> unat x < 2 ^ (m + 1)"
proof -
  obtain m where m: "clz64 x = Some (of_nat (63 - m))" "m < 64" "2 ^ m \<le> unat x" "unat x < 2 ^ (m + 1)"
    by (rule clz64_msb [OF assms])
  have "(63 :: u32) - of_nat (63 - m) = of_nat m" using m(2) by (simp add: of_nat_diff)
  then show ?thesis using m by (auto simp: msb64_def)
qed

lemma roundup_u64_least:
  assumes "0 < unat n" "unat n \<le> 2 ^ 63"
  shows "\<exists>p k. ROUNDUP_POW_OF_2_u64 n = Some p \<and> unat p = 2 ^ k \<and> unat n \<le> 2 ^ k \<and>
    (\<forall>j. unat n \<le> 2 ^ j \<longrightarrow> k \<le> j)"
proof (cases "n = 1")
  case True
  then show ?thesis by (auto simp: ROUNDUP_POW_OF_2_u64_def clz64_def c_shl_usz_def intro!: exI [of _ 0])
next
  case False
  have n0: "n \<noteq> 0" using assms by auto
  have u: "unat (n - 1) = unat n - 1" using n0 by (simp add: unat_minus_one)
  have "n - 1 \<noteq> 0" using False by simp
  then obtain m where m: "clz64 (n - 1) = Some (of_nat (63 - m))" "m < 64" "2 ^ m \<le> unat (n - 1)" "unat (n - 1) < 2 ^ (m + 1)"
    by (rule clz64_msb)
  have "(2::nat) ^ m < 2 ^ 63" using m(3) u assms by simp
  then have m63: "m < 63" by (rule power_less_imp_less_exp [rotated]) simp
  define z :: u32 where "z = of_nat (63 - m)"
  have s: "unat ((64 :: usz) - ucast z) = m + 1"
  proof -
    have "(ucast z :: usz) = of_nat (63 - m)"
      by (simp add: z_def word_unat_eq_iff unsigned_ucast_eq unsigned_of_nat take_bit_nat_eq_self)
    then have "(64 :: usz) - ucast z = of_nat (m + 1)" using m63 by (simp add: of_nat_diff)
    then show ?thesis using m63 by (simp add: unat_of_nat del: of_nat_Suc)
  qed
  have "ROUNDUP_POW_OF_2_u64 n = Some (push_bit (m + 1) 1)"
    using n0 m63 by (simp add: ROUNDUP_POW_OF_2_u64_def m(1) z_def [symmetric] c_shl_usz_def s)
  moreover have "unat (push_bit (m + 1) 1 :: u64) = 2 ^ (m + 1)"
  proof -
    have "(2::nat) ^ (m + 1) < 2 ^ 64" using m63 by (intro power_strict_increasing) simp_all
    then show ?thesis
      by (simp only: unsigned_push_bit_eq) (simp add: push_bit_eq_mult take_bit_nat_eq_self_iff)
  qed
  moreover have "unat n \<le> 2 ^ (m + 1)" using m(4) u by linarith
  moreover have "m + 1 \<le> j" if "unat n \<le> 2 ^ j" for j
  proof -
    have "(2::nat) ^ m < 2 ^ j" using m(3) u that assms by linarith
    then have "m < j" by (rule power_less_imp_less_exp [rotated]) simp
    then show ?thesis by simp
  qed
  ultimately show ?thesis by blast
qed


subsection \<open>Rotations\<close>

lemma rotl_shifts:
  fixes x :: "'a::len word"
  assumes "0 < k" "k < LENGTH('a)"
  shows "push_bit k x OR drop_bit (LENGTH('a) - k) x = word_rotl k x"
proof (rule bit_word_eqI)
  fix n assume n: "n < LENGTH('a)"
  have s: "bit (push_bit k x OR drop_bit (LENGTH('a) - k) x) n =
      (k \<le> n \<and> bit x (n - k) \<or> bit x (LENGTH('a) - k + n))"
    using n by (simp add: bit_or_iff bit_push_bit_iff bit_drop_bit_eq)
  show "bit (push_bit k x OR drop_bit (LENGTH('a) - k) x) n = bit (word_rotl k x) n"
  proof (cases "k \<le> n")
    case True
    then have "\<not> bit x (LENGTH('a) - k + n)" using bit_imp_le_length assms by fastforce
    moreover have "(n + (LENGTH('a) - k)) mod LENGTH('a) = n - k"
    proof -
      have "n + (LENGTH('a) - k) = (n - k) + LENGTH('a)" using True assms by simp
      then show ?thesis using n by (simp only: mod_add_self2) simp
    qed
    ultimately show ?thesis unfolding s using True n assms by (simp add: bit_word_rotl_iff)
  next
    case False
    then have "n + (LENGTH('a) - k) < LENGTH('a)" using assms by simp
    then show ?thesis unfolding s using False n assms by (simp add: bit_word_rotl_iff algebra_simps)
  qed
qed

lemma rotr_shifts:
  fixes x :: "'a::len word"
  assumes "0 < k" "k < LENGTH('a)"
  shows "drop_bit k x OR push_bit (LENGTH('a) - k) x = word_rotr k x"
proof -
  have "word_rotr k x = word_rotl (LENGTH('a) - k) x"
    using assms by (simp add: word_rotl_eq_word_rotr)
  then show ?thesis using rotl_shifts [of "LENGTH('a) - k" x] assms by (simp add: or.commute)
qed

lemma unat_minus_width:
  fixes n :: u32
  assumes "unat n \<le> w" "w < 2 ^ 32"
  shows "unat (of_nat w - n) = w - unat n"
proof -
  have "n \<le> of_nat w" using assms by (simp add: word_le_nat_alt unat_of_nat)
  then show ?thesis using assms by (simp add: unat_sub unat_of_nat)
qed

lemma rotations:
  assumes "0 < unat n"
  shows "unat n < 64 \<Longrightarrow> rol64 x n = Some (word_rotl (unat n) x)"
    and "unat n < 64 \<Longrightarrow> ror64 x n = Some (word_rotr (unat n) x)"
    and "unat n < 32 \<Longrightarrow> rol32 y n = Some (word_rotl (unat n) y)"
    and "unat n < 32 \<Longrightarrow> ror32 y n = Some (word_rotr (unat n) y)"
  using assms unat_minus_width [of n 64] unat_minus_width [of n 32]
    rotl_shifts [of "unat n" x] rotr_shifts [of "unat n" x] rotl_shifts [of "unat n" y] rotr_shifts [of "unat n" y]
  by (simp_all add: rol64_def ror64_def rol32_def ror32_def c_shl_def c_shr_def)

subsection \<open>Properties\<close>

text \<open>C32: The portable loops for leading zeros, trailing zeros, population count and byte swap
  return, at both widths and for every argument, zero included, what the GCC/Clang variants
  return.\<close>

theorem fallback_agrees:
  "Some (clz64_fallback x) = clz64 x \<and> Some (ctz64_fallback x) = ctz64 x \<and>
   popcount64_fallback x = popcount64 x \<and> bswap64_fallback x = bswap64 x \<and>
   Some (clz32_fallback y) = clz32 y \<and> Some (ctz32_fallback y) = ctz32 y \<and>
   popcount32_fallback y = popcount32 y \<and> bswap32_fallback y = bswap32 y"
proof (intro conjI)
  show "bswap64_fallback x = bswap64 x" "bswap32_fallback y = bswap32 y"
    by (simp_all add: bswap64_fallback_def bswap32_fallback_def bswap64_def bswap32_def bswap_loop_builtin)
qed (simp_all add: clz64_fallback_def clz64_def clz32_fallback_def clz32_def builtin_clz_def
       ctz64_fallback_def ctz64_def ctz32_fallback_def ctz32_def builtin_ctz_def word_bits_def
       clz_loop_eq ctz_loop_eq popcount64_fallback_def popcount64_def popcount32_fallback_def
       popcount32_def popcount_loop_eq)



text \<open>C40: For every rotation count strictly between 0 and the width, 64 or 32, \<open>rol64\<close> and \<open>ror64\<close>
  (\<open>rol32\<close> and \<open>ror32\<close>) are defined and are the rotations of a word, and each undoes the other, in
  both orders.\<close>

theorem rotate_ok:
  "(0 < unat n \<and> unat n < 64 \<longrightarrow>
      rol64 x n = Some (word_rotl (unat n) x) \<and> ror64 x n = Some (word_rotr (unat n) x) \<and>
      (rol64 x n \<bind> (\<lambda>z. ror64 z n)) = Some x \<and> (ror64 x n \<bind> (\<lambda>z. rol64 z n)) = Some x) \<and>
   (0 < unat n \<and> unat n < 32 \<longrightarrow>
      rol32 y n = Some (word_rotl (unat n) y) \<and> ror32 y n = Some (word_rotr (unat n) y) \<and>
      (rol32 y n \<bind> (\<lambda>z. ror32 z n)) = Some y \<and> (ror32 y n \<bind> (\<lambda>z. rol32 z n)) = Some y)"
  using rotations [of n] by simp

theorem rotate_ok_witness:
  "ror32 0x11223344 8 = Some 0x44112233 \<and> ror32 0x11223344 8 = Some (word_rotr 8 0x11223344) \<and>
   rol64 0x8000000000000001 40 = Some 0x18000000000 \<and> rol64 0x8000000000000001 40 = Some (word_rotl 40 0x8000000000000001) \<and>
   (ror64 0x8000000000000001 40 \<bind> (\<lambda>z. rol64 z 40)) = Some 0x8000000000000001"
proof (intro conjI)
  show "ror32 0x11223344 8 = Some 0x44112233" "rol64 0x8000000000000001 40 = Some 0x18000000000" by code_simp+
  show "ror32 0x11223344 8 = Some (word_rotr 8 0x11223344)"
    using rotate_ok [of 8 0 "0x11223344"] by simp
  have u: "unat (40 :: u32) = 40" by simp
  have "0 < (40 :: nat) \<and> (40 :: nat) < 64" by simp
  then show "rol64 0x8000000000000001 40 = Some (word_rotl 40 0x8000000000000001)"
    "(ror64 0x8000000000000001 40 \<bind> (\<lambda>z. rol64 z 40)) = Some 0x8000000000000001"
    using rotate_ok [of 40 "0x8000000000000001" 0, unfolded u] by blast+
qed

text \<open>A rotation by zero places shifts a 64-bit (32-bit) word by 64 (32) places, which C leaves
  undefined: the count zero, which a caller computing it modulo the width passes, has no
  defined result.\<close>

theorem rotate_zero_undefined:
  "rol64 x 0 = None \<and> ror64 x 0 = None \<and> rol32 y 0 = None \<and> ror32 y 0 = None"
  by (simp add: rol64_def ror64_def rol32_def ror32_def c_shl_def c_shr_def split: bind_splits)

text \<open>For a non-zero argument \<open>msb64\<close> is the position of the highest set bit: the argument
  lies between that power of two and the next.\<close>

theorem msb64_range:
  assumes "x \<noteq> 0"
  shows "\<exists>m < 64. msb64 x = Some (of_nat m) \<and> 2 ^ m \<le> unat x \<and> unat x < 2 ^ (m + 1)"
  by (rule msb64_range_lemma [OF assms])

theorem msb64_range_witness:
  "(0x8001 :: u64) \<noteq> 0 \<and> msb64 0x8001 = Some 15 \<and>
   (\<exists>m < 64. msb64 0x8001 = Some (of_nat m) \<and> 2 ^ m \<le> unat (0x8001 :: u64) \<and> unat (0x8001 :: u64) < 2 ^ (m + 1))"
proof (intro conjI)
  show "msb64 0x8001 = Some 15" by code_simp
  show "\<exists>m < 64. msb64 0x8001 = Some (of_nat m) \<and> 2 ^ m \<le> unat (0x8001 :: u64) \<and> unat (0x8001 :: u64) < 2 ^ (m + 1)"
    by (rule msb64_range) simp
qed simp

text \<open>\<open>ROUNDUP_POW_OF_2\<close> of a 64-bit argument between 1 and \<open>2 ^ 63\<close> is the least power of two
  that is not below it.\<close>

theorem roundup_pow2_least:
  assumes "0 < unat n" "unat n \<le> 2 ^ 63"
  shows "\<exists>p k. ROUNDUP_POW_OF_2_u64 n = Some p \<and> unat p = 2 ^ k \<and> unat n \<le> 2 ^ k \<and>
    (\<forall>j. unat n \<le> 2 ^ j \<longrightarrow> k \<le> j)"
  by (rule roundup_u64_least [OF assms])

theorem roundup_pow2_least_witness:
  "ROUNDUP_POW_OF_2_u64 100 = Some 128 \<and>
   (\<exists>p k. ROUNDUP_POW_OF_2_u64 100 = Some p \<and> unat p = 2 ^ k \<and> unat (100 :: u64) \<le> 2 ^ k \<and>
    (\<forall>j. unat (100 :: u64) \<le> 2 ^ j \<longrightarrow> k \<le> j))"
proof (intro conjI)
  show "ROUNDUP_POW_OF_2_u64 100 = Some 128" by code_simp
  show "\<exists>p k. ROUNDUP_POW_OF_2_u64 100 = Some p \<and> unat p = 2 ^ k \<and> unat (100 :: u64) \<le> 2 ^ k \<and>
    (\<forall>j. unat (100 :: u64) \<le> 2 ^ j \<longrightarrow> k \<le> j)"
    by (rule roundup_pow2_least) simp_all
qed

text \<open>At a 32-bit argument the macro subtracts a count of leading zeros taken at 64 bits from 32:
  for every argument from 2 to \<open>2 ^ 31\<close> the difference is negative, and the shift by it is
  undefined.\<close>

theorem roundup_pow2_u32_undefined:
  assumes "1 < unat n" "unat n \<le> 2 ^ 31"
  shows "ROUNDUP_POW_OF_2_u32 n = None"

proof -
  have n: "n \<noteq> 0" "n \<noteq> 1" using assms by auto
  have u: "unat (n - 1) = unat n - 1" using n by (simp add: unat_minus_one)
  define y :: u64 where "y = ucast (n - 1)"
  have uy: "unat y = unat n - 1" using assms(2) by (simp add: y_def unsigned_ucast_eq u take_bit_nat_eq_self_iff)
  have "y \<noteq> 0" using uy assms by auto
  then obtain m where m: "clz64 y = Some (of_nat (63 - m))" "m < 64" "2 ^ m \<le> unat y"
    by (rule clz64_msb)
  have "(2 :: nat) ^ m < 2 ^ 31" using m(3) uy assms by linarith
  then have m31: "m < 31" by (rule power_less_imp_less_exp [rotated]) simp
  define z :: u32 where "z = of_nat (63 - m)"
  have z: "unat (ucast z :: usz) = 63 - m"
    by (simp add: z_def unsigned_ucast_eq unsigned_of_nat take_bit_nat_eq_self)
  have "unat ((32 :: usz) - ucast z) = 32 + 2 ^ 64 - (63 - m)"
    using m31 z by (simp add: unat_sub_if_size word_size)
  then have "\<not> unat ((32 :: usz) - ucast z) < 64" by simp
  then show ?thesis using n by (simp add: ROUNDUP_POW_OF_2_u32_def y_def [symmetric] m(1) z_def [symmetric] c_shl_usz_def)
qed

theorem roundup_pow2_u32_undefined_witness:
  "1 < unat (100 :: u32) \<and> unat (100 :: u32) \<le> 2 ^ 31 \<and> ROUNDUP_POW_OF_2_u32 100 = None"
proof (intro conjI)
  show "ROUNDUP_POW_OF_2_u32 100 = None" by (rule roundup_pow2_u32_undefined) simp_all
qed simp_all

end
