(* ===== verification/Bitops_Variants.thy ===== *)
theory Bitops_Variants
  imports Bitops
begin

section \<open>Bit operations: the MSVC and BMI variants (util/bitops.h)\<close>

text \<open>
  What the header has for the Microsoft compiler, and for processors with the BMI instructions. The
  intrinsics are modelled by what their makers document: a scan gives the position of a set bit and
  whether there is one, a rotation takes its count modulo the width, \<open>tzcnt\<close> of 0 is the width.
\<close>

subsection \<open>Intrinsics\<close>

definition bit_scan_reverse :: "'a::len word \<Rightarrow> u32 option" where
  "bit_scan_reverse x = (if x = 0 then None else Some (of_nat (LENGTH('a) - 1 - length (takeWhile Not (rev (word_bits x))))))"

definition bit_scan_forward :: "'a::len word \<Rightarrow> u32 option" where
  "bit_scan_forward x = (if x = 0 then None else Some (of_nat (length (takeWhile Not (word_bits x)))))"

definition tzcnt :: "'a::len word \<Rightarrow> u32" where
  "tzcnt x = of_nat (length (takeWhile Not (word_bits x)))"

definition intr_rotl :: "'a::len word \<Rightarrow> u32 \<Rightarrow> 'a word" where
  "intr_rotl x n = word_rotl (unat n mod LENGTH('a)) x"

definition intr_rotr :: "'a::len word \<Rightarrow> u32 \<Rightarrow> 'a word" where
  "intr_rotr x n = word_rotr (unat n mod LENGTH('a)) x"

definition intr_blsr :: "'a::len word \<Rightarrow> 'a word" where
  "intr_blsr x = x AND (x - 1)"

definition intr_blsi :: "'a::len word \<Rightarrow> 'a word" where
  "intr_blsi x = x AND - x"

subsection \<open>The MSVC variants\<close>

definition clz64_msvc :: "u64 \<Rightarrow> u32" where
  "clz64_msvc x = (case bit_scan_reverse x of Some index \<Rightarrow> 63 - index | None \<Rightarrow> 64)"

definition ctz64_msvc :: "u64 \<Rightarrow> u32" where
  "ctz64_msvc x = (case bit_scan_forward x of Some index \<Rightarrow> index | None \<Rightarrow> 64)"

definition popcount64_msvc :: "u64 \<Rightarrow> u32" where
  "popcount64_msvc x = builtin_popcount x"

definition bswap64_msvc :: "u64 \<Rightarrow> u64" where
  "bswap64_msvc x = builtin_bswap x"

definition rol64_msvc :: "u64 \<Rightarrow> u32 \<Rightarrow> u64" where
  "rol64_msvc x n = intr_rotl x n"

definition ror64_msvc :: "u64 \<Rightarrow> u32 \<Rightarrow> u64" where
  "ror64_msvc x n = intr_rotr x n"

definition clz32_msvc :: "u32 \<Rightarrow> u32" where
  "clz32_msvc x = (case bit_scan_reverse x of Some index \<Rightarrow> 31 - index | None \<Rightarrow> 32)"

definition ctz32_msvc :: "u32 \<Rightarrow> u32" where
  "ctz32_msvc x = (case bit_scan_forward x of Some index \<Rightarrow> index | None \<Rightarrow> 32)"

definition popcount32_msvc :: "u32 \<Rightarrow> u32" where
  "popcount32_msvc x = builtin_popcount x"

definition bswap32_msvc :: "u32 \<Rightarrow> u32" where
  "bswap32_msvc x = builtin_bswap x"

definition rol32_msvc :: "u32 \<Rightarrow> u32 \<Rightarrow> u32" where
  "rol32_msvc x n = intr_rotl x n"

definition ror32_msvc :: "u32 \<Rightarrow> u32 \<Rightarrow> u32" where
  "ror32_msvc x n = intr_rotr x n"

subsection \<open>The BMI variants\<close>

definition ctz64_bmi :: "u64 \<Rightarrow> u32" where
  "ctz64_bmi x = tzcnt x"

definition ctz32_bmi :: "u32 \<Rightarrow> u32" where
  "ctz32_bmi x = tzcnt x"

definition blsr64 :: "u64 \<Rightarrow> u64" where
  "blsr64 x = intr_blsr x"

definition blsi64 :: "u64 \<Rightarrow> u64" where
  "blsi64 x = intr_blsi x"

text \<open>The rotations of the portable implementation, the same shifts as with GCC.\<close>

definition rol64_fallback :: "u64 \<Rightarrow> u32 \<Rightarrow> u64 option" where
  "rol64_fallback x n = do { a \<leftarrow> c_shl x n; b \<leftarrow> c_shr x (64 - n); Some (a OR b) }"

definition ror64_fallback :: "u64 \<Rightarrow> u32 \<Rightarrow> u64 option" where
  "ror64_fallback x n = do { a \<leftarrow> c_shr x n; b \<leftarrow> c_shl x (64 - n); Some (a OR b) }"

definition rol32_fallback :: "u32 \<Rightarrow> u32 \<Rightarrow> u32 option" where
  "rol32_fallback x n = do { a \<leftarrow> c_shl x n; b \<leftarrow> c_shr x (32 - n); Some (a OR b) }"

definition ror32_fallback :: "u32 \<Rightarrow> u32 \<Rightarrow> u32 option" where
  "ror32_fallback x n = do { a \<leftarrow> c_shr x n; b \<leftarrow> c_shl x (32 - n); Some (a OR b) }"

subsection \<open>They agree, up to the rotations C leaves undefined\<close>

lemma takeWhile_bits: "x \<noteq> 0 \<Longrightarrow> length (takeWhile Not (rev (word_bits (x :: 'a::len word)))) < LENGTH('a)"
proof -
  assume "x \<noteq> 0"
  then obtain n where n: "bit x n" by (metis bit_word_eqI bit_0_eq bot_apply bot_bool_def)
  then have "n < LENGTH('a)" by (rule bit_imp_le_length)
  with n have "True \<in> set (word_bits x)" by (auto simp: word_bits_def image_iff intro: bexI [of _ n])
  then have "\<exists>b \<in> set (rev (word_bits x)). \<not> Not b" by auto
  then have "length (takeWhile Not (rev (word_bits x))) < length (rev (word_bits x))"
    by (metis length_takeWhile_le nat_less_le takeWhile_eq_all_conv takeWhile_eq_take take_all_iff order_refl)
  then show ?thesis by simp
qed

lemma tz_zero: "length (takeWhile Not (word_bits (0 :: 'a::len word))) = LENGTH('a)"
  by (simp add: word_bits_def takeWhile_eq_all_conv [THEN iffD2])

lemma width_sub: "k < w \<Longrightarrow> w < 2 ^ 32 \<Longrightarrow> of_nat (w - 1) - of_nat (w - 1 - k) = (of_nat k :: u32)"
  by (simp flip: of_nat_diff)

lemma rotation_none:
  assumes "\<not> (0 < unat n \<and> unat n < 64)"
  shows "rol64 x n = None" "ror64 x n = None"
proof -
  have "unat (64 - n) \<ge> 64 \<or> unat n \<ge> 64" using assms by (cases "unat n = 0") (auto simp: unsigned_eq_0_iff)
  then show "rol64 x n = None" "ror64 x n = None" by (auto simp: rol64_def ror64_def c_shl_def c_shr_def)
qed

lemma rotation_none':
  assumes "\<not> (0 < unat n \<and> unat n < 32)"
  shows "rol32 x n = None" "ror32 x n = None"
proof -
  have "unat (32 - n) \<ge> 32 \<or> unat n \<ge> 32" using assms by (cases "unat n = 0") (auto simp: unsigned_eq_0_iff)
  then show "rol32 x n = None" "ror32 x n = None" by (auto simp: rol32_def ror32_def c_shl_def c_shr_def)
qed

text \<open>C33: the MSVC variants give what the GCC variants give, and so does \<open>tzcnt\<close>; a rotation agrees for counts
  between 0 and the width, and is undefined with GCC for all others, 0 included, where MSVC rotates by the
  count modulo the width. Clearing the lowest set bit and extracting it split the word.\<close>

theorem variants_agree:
  "clz64 x = Some (clz64_msvc x) \<and> ctz64 x = Some (ctz64_msvc x) \<and> ctz64 x = Some (ctz64_bmi x) \<and>
   popcount64 x = popcount64_msvc x \<and> bswap64 x = bswap64_msvc x \<and>
   rol64 x n = (if 0 < unat n \<and> unat n < 64 then Some (rol64_msvc x n) else None) \<and>
   ror64 x n = (if 0 < unat n \<and> unat n < 64 then Some (ror64_msvc x n) else None) \<and>
   clz32 y = Some (clz32_msvc y) \<and> ctz32 y = Some (ctz32_msvc y) \<and> ctz32 y = Some (ctz32_bmi y) \<and>
   popcount32 y = popcount32_msvc y \<and> bswap32 y = bswap32_msvc y \<and>
   rol32 y n = (if 0 < unat n \<and> unat n < 32 then Some (rol32_msvc y n) else None) \<and>
   ror32 y n = (if 0 < unat n \<and> unat n < 32 then Some (ror32_msvc y n) else None) \<and>
   rol64_fallback x n = rol64 x n \<and> ror64_fallback x n = ror64 x n \<and> rol32_fallback y n = rol32 y n \<and> ror32_fallback y n = ror32 y n \<and>
   blsr64 x OR blsi64 x = x \<and> blsr64 x AND blsi64 x = 0"
proof (intro conjI)
  show "clz64 x = Some (clz64_msvc x)"
    using takeWhile_bits [of x] width_sub [of "length (takeWhile Not (rev (word_bits x)))" 64]
    by (cases "x = 0") (simp_all add: clz64_def clz64_msvc_def bit_scan_reverse_def builtin_clz_def)
  show "clz32 y = Some (clz32_msvc y)"
    using takeWhile_bits [of y] width_sub [of "length (takeWhile Not (rev (word_bits y)))" 32]
    by (cases "y = 0") (simp_all add: clz32_def clz32_msvc_def bit_scan_reverse_def builtin_clz_def)
  show "rol64 x n = (if 0 < unat n \<and> unat n < 64 then Some (rol64_msvc x n) else None)"
    "ror64 x n = (if 0 < unat n \<and> unat n < 64 then Some (ror64_msvc x n) else None)"
    using rotations(1,2) [of n x] rotation_none by (auto simp: rol64_msvc_def ror64_msvc_def intr_rotl_def intr_rotr_def)
  show "rol32 y n = (if 0 < unat n \<and> unat n < 32 then Some (rol32_msvc y n) else None)"
    "ror32 y n = (if 0 < unat n \<and> unat n < 32 then Some (ror32_msvc y n) else None)"
    using rotations(3,4) [of n y] rotation_none' by (auto simp: rol32_msvc_def ror32_msvc_def intr_rotl_def intr_rotr_def)
  have neg: "- x = NOT (x - 1)" by (simp add: not_eq_complement)
  show "blsr64 x OR blsi64 x = x" "blsr64 x AND blsi64 x = 0"
    unfolding blsr64_def blsi64_def intr_blsr_def intr_blsi_def neg
    by (auto simp: bit_eq_iff bit_or_iff bit_and_iff bit_not_iff)
qed (simp_all add: ctz64_def ctz64_msvc_def ctz64_bmi_def ctz32_def ctz32_msvc_def ctz32_bmi_def bit_scan_forward_def tzcnt_def tz_zero
     builtin_ctz_def popcount64_def popcount64_msvc_def popcount32_def popcount32_msvc_def bswap64_def bswap64_msvc_def bswap32_def bswap32_msvc_def
     rol64_fallback_def rol64_def ror64_fallback_def ror64_def rol32_fallback_def rol32_def ror32_fallback_def ror32_def)

end
