(* ===== verification/Crc.thy ===== *)
theory Crc
  imports Ava_Prelude
begin

section \<open>CRC-32 (crypto/crc.h)\<close>

text \<open>
  The table and the table-driven loop as they are written. The reference is the shift register
  that consumes one message bit at a time, least significant bit of each byte first. The
  theorems: the table entries are the register's action on eight bits, the loop computes what
  the register computes, and no change of the message that is confined to 32 consecutive bits
  keeps the checksum.
\<close>

subsection \<open>The code\<close>

definition CRC32_TABLE :: "u32 list" where
  "CRC32_TABLE = [
    0x00000000, 0x77073096, 0xEE0E612C, 0x990951BA, 0x076DC419, 0x706AF48F, 0xE963A535, 0x9E6495A3,
    0x0EDB8832, 0x79DCB8A4, 0xE0D5E91E, 0x97D2D988, 0x09B64C2B, 0x7EB17CBD, 0xE7B82D07, 0x90BF1D91,
    0x1DB71064, 0x6AB020F2, 0xF3B97148, 0x84BE41DE, 0x1ADAD47D, 0x6DDDE4EB, 0xF4D4B551, 0x83D385C7,
    0x136C9856, 0x646BA8C0, 0xFD62F97A, 0x8A65C9EC, 0x14015C4F, 0x63066CD9, 0xFA0F3D63, 0x8D080DF5,
    0x3B6E20C8, 0x4C69105E, 0xD56041E4, 0xA2677172, 0x3C03E4D1, 0x4B04D447, 0xD20D85FD, 0xA50AB56B,
    0x35B5A8FA, 0x42B2986C, 0xDBBBC9D6, 0xACBCF940, 0x32D86CE3, 0x45DF5C75, 0xDCD60DCF, 0xABD13D59,
    0x26D930AC, 0x51DE003A, 0xC8D75180, 0xBFD06116, 0x21B4F4B5, 0x56B3C423, 0xCFBA9599, 0xB8BDA50F,
    0x2802B89E, 0x5F058808, 0xC60CD9B2, 0xB10BE924, 0x2F6F7C87, 0x58684C11, 0xC1611DAB, 0xB6662D3D,
    0x76DC4190, 0x01DB7106, 0x98D220BC, 0xEFD5102A, 0x71B18589, 0x06B6B51F, 0x9FBFE4A5, 0xE8B8D433,
    0x7807C9A2, 0x0F00F934, 0x9609A88E, 0xE10E9818, 0x7F6A0DBB, 0x086D3D2D, 0x91646C97, 0xE6635C01,
    0x6B6B51F4, 0x1C6C6162, 0x856530D8, 0xF262004E, 0x6C0695ED, 0x1B01A57B, 0x8208F4C1, 0xF50FC457,
    0x65B0D9C6, 0x12B7E950, 0x8BBEB8EA, 0xFCB9887C, 0x62DD1DDF, 0x15DA2D49, 0x8CD37CF3, 0xFBD44C65,
    0x4DB26158, 0x3AB551CE, 0xA3BC0074, 0xD4BB30E2, 0x4ADFA541, 0x3DD895D7, 0xA4D1C46D, 0xD3D6F4FB,
    0x4369E96A, 0x346ED9FC, 0xAD678846, 0xDA60B8D0, 0x44042D73, 0x33031DE5, 0xAA0A4C5F, 0xDD0D7CC9,
    0x5005713C, 0x270241AA, 0xBE0B1010, 0xC90C2086, 0x5768B525, 0x206F85B3, 0xB966D409, 0xCE61E49F,
    0x5EDEF90E, 0x29D9C998, 0xB0D09822, 0xC7D7A8B4, 0x59B33D17, 0x2EB40D81, 0xB7BD5C3B, 0xC0BA6CAD,
    0xEDB88320, 0x9ABFB3B6, 0x03B6E20C, 0x74B1D29A, 0xEAD54739, 0x9DD277AF, 0x04DB2615, 0x73DC1683,
    0xE3630B12, 0x94643B84, 0x0D6D6A3E, 0x7A6A5AA8, 0xE40ECF0B, 0x9309FF9D, 0x0A00AE27, 0x7D079EB1,
    0xF00F9344, 0x8708A3D2, 0x1E01F268, 0x6906C2FE, 0xF762575D, 0x806567CB, 0x196C3671, 0x6E6B06E7,
    0xFED41B76, 0x89D32BE0, 0x10DA7A5A, 0x67DD4ACC, 0xF9B9DF6F, 0x8EBEEFF9, 0x17B7BE43, 0x60B08ED5,
    0xD6D6A3E8, 0xA1D1937E, 0x38D8C2C4, 0x4FDFF252, 0xD1BB67F1, 0xA6BC5767, 0x3FB506DD, 0x48B2364B,
    0xD80D2BDA, 0xAF0A1B4C, 0x36034AF6, 0x41047A60, 0xDF60EFC3, 0xA867DF55, 0x316E8EEF, 0x4669BE79,
    0xCB61B38C, 0xBC66831A, 0x256FD2A0, 0x5268E236, 0xCC0C7795, 0xBB0B4703, 0x220216B9, 0x5505262F,
    0xC5BA3BBE, 0xB2BD0B28, 0x2BB45A92, 0x5CB36A04, 0xC2D7FFA7, 0xB5D0CF31, 0x2CD99E8B, 0x5BDEAE1D,
    0x9B64C2B0, 0xEC63F226, 0x756AA39C, 0x026D930A, 0x9C0906A9, 0xEB0E363F, 0x72076785, 0x05005713,
    0x95BF4A82, 0xE2B87A14, 0x7BB12BAE, 0x0CB61B38, 0x92D28E9B, 0xE5D5BE0D, 0x7CDCEFB7, 0x0BDBDF21,
    0x86D3D2D4, 0xF1D4E242, 0x68DDB3F8, 0x1FDA836E, 0x81BE16CD, 0xF6B9265B, 0x6FB077E1, 0x18B74777,
    0x88085AE6, 0xFF0F6A70, 0x66063BCA, 0x11010B5C, 0x8F659EFF, 0xF862AE69, 0x616BFFD3, 0x166CCF45,
    0xA00AE278, 0xD70DD2EE, 0x4E048354, 0x3903B3C2, 0xA7672661, 0xD06016F7, 0x4969474D, 0x3E6E77DB,
    0xAED16A4A, 0xD9D65ADC, 0x40DF0B66, 0x37D83BF0, 0xA9BCAE53, 0xDEBB9EC5, 0x47B2CF7F, 0x30B5FFE9,
    0xBDBDF21C, 0xCABAC28A, 0x53B39330, 0x24B4A3A6, 0xBAD03605, 0xCDD70693, 0x54DE5729, 0x23D967BF,
    0xB3667A2E, 0xC4614AB8, 0x5D681B02, 0x2A6F2B94, 0xB40BBE37, 0xC30C8EA1, 0x5A05DF1B, 0x2D02EF8D]"

text \<open>The loop body at byte \<open>d\<close>, and the loop with \<open>k\<close> rounds left at index \<open>i\<close>; a read behind
  the caller's array is undefined.\<close>

definition crc32_step :: "u32 \<Rightarrow> u8 \<Rightarrow> u32" where
  "crc32_step crc d = drop_bit 8 crc XOR CRC32_TABLE ! unat ((crc XOR ucast d) AND 0xFF)"

fun crc32_loop :: "u8 list \<Rightarrow> nat \<Rightarrow> nat \<Rightarrow> u32 \<Rightarrow> u32 option" where
  "crc32_loop data 0 i crc = Some crc"
| "crc32_loop data (Suc k) i crc =
     (if i < length data then crc32_loop data k (Suc i) (crc32_step crc (data ! i)) else None)"

definition crc32 :: "u8 list \<Rightarrow> usz \<Rightarrow> u32 option" where
  "crc32 data sz = map_option (\<lambda>crc. crc XOR 0xFFFFFFFF) (crc32_loop data (unat sz) 0 0xFFFFFFFF)"

subsection \<open>The reference shift register\<close>

definition crc_shift :: "u32 \<Rightarrow> u32" where
  "crc_shift r = drop_bit 1 r XOR (if bit r 0 then 0xEDB88320 else 0)"

definition crc_feed :: "u32 \<Rightarrow> bool list \<Rightarrow> u32" where
  "crc_feed r bs = foldl (\<lambda>r b. crc_shift (r XOR of_bool b)) r bs"

definition byte_bits :: "u8 \<Rightarrow> bool list" where
  "byte_bits d = map (bit d) [0..<8]"

definition msg_bits :: "u8 list \<Rightarrow> bool list" where
  "msg_bits ds = concat (map byte_bits ds)"

definition crc_ref :: "u8 list \<Rightarrow> u32" where
  "crc_ref ds = crc_feed 0xFFFFFFFF (msg_bits ds) XOR 0xFFFFFFFF"

subsection \<open>The register is linear, and its low bits run through it\<close>

lemma crc_shift_xor: "crc_shift (a XOR b) = crc_shift a XOR crc_shift b"
  by (rule bit_word_eqI) (auto simp: crc_shift_def bit_xor_iff bit_drop_bit_eq)

lemma crc_shift_funpow_xor: "(crc_shift ^^ k) (a XOR b) = (crc_shift ^^ k) a XOR (crc_shift ^^ k) b"
  by (induction k) (simp_all add: crc_shift_xor)

lemma crc_shift_low_zero:
  assumes "\<And>i. i < k \<Longrightarrow> \<not> bit a i"
  shows "(crc_shift ^^ k) a = drop_bit k a"
  using assms
proof (induction k)
  case (Suc k)
  then have "(crc_shift ^^ Suc k) a = crc_shift (drop_bit k a)" by simp
  also have "\<dots> = drop_bit 1 (drop_bit k a)"
    using Suc.prems [of k] by (simp add: crc_shift_def bit_drop_bit_eq)
  finally show ?case by simp
qed simp

lemma crc_shift_bit: "bit (crc_shift a) n = (bit a (Suc n) \<noteq> (bit a 0 \<and> bit (0xEDB88320 :: u32) n))"
  by (simp add: crc_shift_def bit_xor_iff bit_drop_bit_eq)

lemma crc_poly_top: "bit (0xEDB88320 :: u32) 31"
  by code_simp

lemma crc_shift_inj:
  assumes z: "crc_shift a = 0"
  shows "a = 0"
proof -
  have "\<not> bit a 32" using bit_imp_le_length [of a 32] by auto
  then have a0: "\<not> bit a 0"
    using crc_shift_bit [of a 31] crc_poly_top by (simp add: z)
  have "\<not> bit a n" for n
    using crc_shift_bit [of a "n - 1"] a0 by (cases n) (simp_all add: z)
  then show ?thesis by (simp add: bit_eq_iff)
qed

lemma crc_shift_funpow_zero: "(crc_shift ^^ k) a = 0 \<Longrightarrow> a = 0"
  by (induction k) (auto dest: crc_shift_inj)

lemma crc_shift_zero [simp]: "crc_shift 0 = 0"
  by (simp add: crc_shift_def)

subsection \<open>Feeding up to 32 bits\<close>

definition bits_word :: "bool list \<Rightarrow> u32" where
  "bits_word bs = horner_sum of_bool 2 bs"

lemma bit_bits_word: "bit (bits_word bs) n = (n < 32 \<and> n < length bs \<and> bs ! n)"
  by (simp add: bits_word_def bit_horner_sum_bit_word_iff)

lemma bits_word_snoc:
  "length bs < 32 \<Longrightarrow> bits_word (bs @ [b]) = bits_word bs XOR push_bit (length bs) (of_bool b)"
  by (rule bit_word_eqI)
    (auto simp: bit_bits_word bit_xor_iff bit_push_bit_iff nth_append bit_1_iff less_Suc_eq)

lemma crc_feed_append: "crc_feed r (a @ b) = crc_feed (crc_feed r a) b"
  by (simp add: crc_feed_def)

lemma crc_feed_block:
  "length bs \<le> 32 \<Longrightarrow> crc_feed r bs = (crc_shift ^^ length bs) (r XOR bits_word bs)"
proof (induction bs rule: rev_induct)
  case Nil
  then show ?case by (simp add: crc_feed_def bits_word_def)
next
  case (snoc b bs)
  let ?k = "length bs"
  have "(crc_shift ^^ ?k) (push_bit ?k (of_bool b)) = drop_bit ?k (push_bit ?k (of_bool b) :: u32)"
    by (rule crc_shift_low_zero) (simp add: bit_push_bit_iff)
  also have "\<dots> = of_bool b"
    using snoc.prems by (intro bit_word_eqI) (auto simp: bit_drop_bit_eq bit_push_bit_iff bit_1_iff)
  finally have b: "(crc_shift ^^ ?k) (push_bit ?k (of_bool b)) = of_bool b" .
  have "crc_feed r (bs @ [b]) = crc_shift ((crc_shift ^^ ?k) (r XOR bits_word bs) XOR of_bool b)"
    using snoc by (simp add: crc_feed_def)
  also have "\<dots> = crc_shift ((crc_shift ^^ ?k) ((r XOR bits_word bs) XOR push_bit ?k (of_bool b)))"
    by (simp only: crc_shift_funpow_xor [of _ "r XOR bits_word bs"] b)
  also have "(r XOR bits_word bs) XOR push_bit ?k (of_bool b) = r XOR bits_word (bs @ [b])"
    using snoc.prems by (simp add: bits_word_snoc xor.assoc)
  finally show ?case by simp
qed

subsection \<open>The table and the loop\<close>

text \<open>The entries for numbers below a power of two give those below the next one.\<close>

lemma of_nat_add_pow2:
  assumes "i < 2 ^ k"
  shows "(of_nat (2 ^ k + i) :: u32) = of_nat i XOR 2 ^ k"
proof -
  have t: "take_bit k i = i" using assms by (rule take_bit_nat_eq_self)
  have b: "bit i j \<Longrightarrow> j < k" for j using bit_take_bit_iff [of k i j] by (simp add: t)
  have "(of_nat i :: u32) AND 2 ^ k = 0"
  proof (rule bit_word_eqI)
    fix n show "bit ((of_nat i :: u32) AND 2 ^ k) n = bit 0 n"
      using b [of n] by (simp add: bit_and_iff bit_exp_iff bit_of_nat_iff del: of_nat_eq_0_iff) blast
  qed
  then have "(of_nat i :: u32) + 2 ^ k = of_nat i XOR 2 ^ k" by (rule disjunctive_add_eq_xor)
  then show ?thesis by (simp add: add.commute)
qed

lemma upt_double: "[0..<2 ^ Suc k] = [0..<2 ^ k] @ map ((+) (2 ^ k)) [0..<2 ^ k]" for k :: nat
proof -
  have "[0..<2 ^ k + 2 ^ k] = [0..<2 ^ k] @ [2 ^ k..<2 ^ k + 2 ^ k]" by (rule upt_add_eq_append) simp
  moreover have "map ((+) (2 ^ k)) [0..<2 ^ k] = [2 ^ k..<2 ^ k + 2 ^ k]"
    by (rule nth_equalityI) simp_all
  ultimately show ?thesis by (simp add: mult_2)
qed

lemma crc_entries_double:
  "map (\<lambda>i. (crc_shift ^^ n) (of_nat i)) [0..<2 ^ Suc k] =
    map (\<lambda>i. (crc_shift ^^ n) (of_nat i)) [0..<2 ^ k] @
    map (\<lambda>x. x XOR (crc_shift ^^ n) (2 ^ k)) (map (\<lambda>i. (crc_shift ^^ n) (of_nat i)) [0..<2 ^ k])"
proof -
  have "map (\<lambda>i. (crc_shift ^^ n) (of_nat i)) (map ((+) (2 ^ k)) [0..<2 ^ k]) =
      map (\<lambda>x. x XOR (crc_shift ^^ n) (2 ^ k)) (map (\<lambda>i. (crc_shift ^^ n) (of_nat i)) [0..<2 ^ k])"
  proof (simp only: map_map, rule map_cong [OF refl])
    fix i assume "i \<in> set [0..<(2::nat) ^ k]"
    then have "i < 2 ^ k" by simp
    from of_nat_add_pow2 [OF this]
    show "((\<lambda>i. (crc_shift ^^ n) (of_nat i)) \<circ> (+) (2 ^ k)) i =
      ((\<lambda>x. x XOR (crc_shift ^^ n) (2 ^ k)) \<circ> (\<lambda>i. (crc_shift ^^ n) (of_nat i))) i"
      by (simp only: o_apply crc_shift_funpow_xor)
  qed
  then show ?thesis by (simp only: upt_double map_append)
qed

definition crc_entries :: "nat \<Rightarrow> u32 list" where
  "crc_entries k = map (\<lambda>i. (crc_shift ^^ 8) (of_nat i)) [0..<2 ^ k]"

lemma crc_entries_fold:
  "crc_entries k = foldl (\<lambda>l c. l @ map (\<lambda>x. x XOR c) l) [0] (map (\<lambda>j. (crc_shift ^^ 8) (2 ^ j)) [0..<k])"
proof (induction k)
  case 0
  have "(crc_shift ^^ n) 0 = 0" for n by (induction n) simp_all
  then show ?case by (simp only: crc_entries_def) simp
next
  case (Suc k)
  then show ?case using crc_entries_double [of 8 k] by (simp only: crc_entries_def [symmetric]) simp
qed

lemma crc_basis_list:
  "map (\<lambda>j. (crc_shift ^^ 8) (2 ^ j)) [0..<8] =
    [0x77073096, 0xEE0E612C, 0x076DC419, 0x0EDB8832, 0x1DB71064, 0x3B6E20C8, 0x76DC4190, 0xEDB88320]"
  by code_simp

lemma crc_table_ok: "CRC32_TABLE = map (\<lambda>i. (crc_shift ^^ 8) (of_nat i)) [0..<256]"
proof -
  have "CRC32_TABLE = crc_entries 8"
    by (simp only: crc_entries_fold crc_basis_list) (simp add: CRC32_TABLE_def)
  then show ?thesis by (simp add: crc_entries_def)
qed

lemma crc_table_nth: "i < 256 \<Longrightarrow> CRC32_TABLE ! i = (crc_shift ^^ 8) (of_nat i)"
  by (simp only: crc_table_ok) (simp del: funpow.simps upt_Suc)

lemma low_byte_index: "unat (x AND 0xFF :: u32) < 256"
proof -
  have "x AND 0xFF \<le> 0xFF" by (rule word_and_le1)
  then show ?thesis by (simp add: word_le_nat_alt)
qed

lemma bit_low_byte: "bit (x AND 0xFF :: u32) n = (bit x n \<and> n < 8)"
proof -
  have m: "(0xFF :: u32) = mask 8" by (simp add: mask_eq_exp_minus_1)
  show ?thesis unfolding m using bit_imp_le_length [of x n]
    by (auto simp: bit_and_iff bit_mask_iff possible_bit_def)
qed

lemma split_by_mask: "v = (v AND NOT f) XOR (v AND f)" for v f :: u32
  by (rule bit_word_eqI) (auto simp: bit_xor_iff bit_and_iff bit_not_iff)

lemma crc32_step_shift: "crc32_step crc d = (crc_shift ^^ 8) (crc XOR ucast d)"
proof -
  let ?v = "crc XOR ucast d :: u32" and ?f = "0xFF :: u32"
  have "(crc_shift ^^ 8) ?v = (crc_shift ^^ 8) (?v AND NOT ?f) XOR (crc_shift ^^ 8) (?v AND ?f)"
    by (subst split_by_mask [of ?v ?f]) (rule crc_shift_funpow_xor)
  also have "(crc_shift ^^ 8) (?v AND NOT ?f) = drop_bit 8 (?v AND NOT ?f)"
  proof (rule crc_shift_low_zero)
    fix i :: nat assume "i < 8"
    then show "\<not> bit (?v AND NOT ?f) i"
      using bit_low_byte [of ?v i] by (simp only: bit_and_iff bit_not_iff simp_thms) blast
  qed
  also have "drop_bit 8 (?v AND NOT ?f) = drop_bit 8 crc"
  proof (rule bit_word_eqI)
    fix n :: nat assume "n < LENGTH(32)"
    have "\<not> bit (ucast d :: u32) (8 + n)" using bit_imp_le_length [of d "8 + n"] by (auto simp: bit_unsigned_iff)
    moreover have "\<not> (bit ?v (8 + n) \<and> bit ?f (8 + n))" using bit_low_byte [of ?v "8 + n"] by (simp add: bit_and_iff)
    moreover have "bit crc (8 + n) \<Longrightarrow> possible_bit TYPE(u32) (8 + n)" by (metis impossible_bit)
    ultimately show "bit (drop_bit 8 (?v AND NOT ?f)) n = bit (drop_bit 8 crc) n"
      by (simp only: bit_drop_bit_eq bit_and_iff bit_not_iff bit_xor_iff o_apply) blast
  qed
  also have "(crc_shift ^^ 8) (?v AND ?f) = CRC32_TABLE ! unat (?v AND ?f)"
    using crc_table_nth [OF low_byte_index [of ?v]] by simp
  finally show ?thesis by (simp add: crc32_step_def)
qed

lemma bits_word_byte: "bits_word (byte_bits d) = ucast d"
proof (rule bit_word_eqI)
  fix n :: nat assume "n < LENGTH(32)"
  then show "bit (bits_word (byte_bits d)) n = bit (ucast d :: u32) n"
    using bit_imp_le_length [of d n] by (auto simp: bit_bits_word byte_bits_def bit_unsigned_iff)
qed

lemma crc32_step_feed: "crc32_step crc d = crc_feed crc (byte_bits d)"
proof -
  have l: "length (byte_bits d) = 8" by (simp add: byte_bits_def)
  then show ?thesis by (simp add: crc32_step_shift crc_feed_block bits_word_byte)
qed

lemma crc32_loop_eq:
  "i + k \<le> length data \<Longrightarrow>
    crc32_loop data k i crc = Some (crc_feed crc (msg_bits (take k (drop i data))))"
proof (induction data k i crc rule: crc32_loop.induct)
  case (1 data i crc)
  then show ?case by (simp add: msg_bits_def crc_feed_def)
next
  case (2 data k i crc)
  then have "drop i data = data ! i # drop (Suc i) data" by (simp add: Cons_nth_drop_Suc)
  then show ?case using 2 by (simp add: msg_bits_def crc_feed_append crc32_step_feed)
qed

lemma crc32_eq_ref: "unat sz \<le> length data \<Longrightarrow> crc32 data sz = Some (crc_ref (take (unat sz) data))"
  by (simp add: crc32_def crc32_loop_eq crc_ref_def)

lemma xor_cancel:
  fixes a b c :: u32
  assumes "a XOR c = b XOR c"
  shows "a = b"
proof -
  have "(a XOR c) XOR c = (b XOR c) XOR c" by (simp only: assms)
  then show ?thesis by (simp only: xor.assoc xor_self_eq xor.right_neutral)
qed

lemma xor_eq_0D: "a XOR b = 0 \<Longrightarrow> a = b" for a b :: u32
  using xor_cancel [of a b b] by simp

lemma crc_feed_inj_state: "crc_feed r bs = crc_feed s bs \<Longrightarrow> r = s"
proof (induction bs arbitrary: r s rule: rev_induct)
  case (snoc b bs)
  have "crc_shift ((crc_feed r bs XOR of_bool b) XOR (crc_feed s bs XOR of_bool b)) = 0"
    using snoc.prems by (simp add: crc_feed_def crc_shift_xor)
  from xor_cancel [OF xor_eq_0D [OF crc_shift_inj [OF this]]] show ?case by (rule snoc.IH)
qed (simp add: crc_feed_def)

lemma crc_feed_burst:
  assumes "length v = length w" "length v \<le> 32" "crc_feed r (p @ v @ s) = crc_feed r (p @ w @ s)"
  shows "v = w"
proof -
  let ?q = "crc_feed r p"
  have "crc_feed ?q v = crc_feed ?q w"
    using assms(3) by (simp add: crc_feed_append) (rule crc_feed_inj_state)
  then have "(crc_shift ^^ length v) ((?q XOR bits_word v) XOR (?q XOR bits_word w)) = 0"
    using assms by (simp add: crc_feed_block crc_shift_funpow_xor)
  then have "(?q XOR bits_word v) XOR (?q XOR bits_word w) = 0" by (rule crc_shift_funpow_zero)
  from xor_eq_0D [OF this] have e: "bits_word v = bits_word w"
    by (simp only: xor.commute [of ?q]) (rule xor_cancel)
  show ?thesis
  proof (rule nth_equalityI)
    fix i assume "i < length v"
    then show "v ! i = w ! i"
      using assms arg_cong [OF e, of "\<lambda>x. bit x i"] by (simp add: bit_bits_word)
  qed (rule assms(1))
qed

subsection \<open>Properties\<close>

text \<open>C9: On every array of at least \<open>size\<close> bytes \<open>crc32\<close> returns what the reference shift register
  returns for the first \<open>size\<close> bytes; all 256 table entries are the register's action on the
  byte.\<close>

theorem crc32_is_register:
  assumes "unat sz \<le> length data"
  shows "crc32 data sz = Some (crc_ref (take (unat sz) data)) \<and>
    (\<forall>i < 256. CRC32_TABLE ! i = (crc_shift ^^ 8) (of_nat i))"
  using crc32_eq_ref [OF assms] crc_table_nth by blast

theorem crc32_is_register_witness:
  "crc32 [0x31, 0x32, 0x33, 0x34, 0x35, 0x36, 0x37, 0x38, 0x39] 9 = Some 0xCBF43926 \<and>
   crc_ref [0x31, 0x32, 0x33, 0x34, 0x35, 0x36, 0x37, 0x38, 0x39] = 0xCBF43926"
proof -
  have c: "crc32 [0x31, 0x32, 0x33, 0x34, 0x35, 0x36, 0x37, 0x38, 0x39] 9 = Some 0xCBF43926"
    by code_simp
  show ?thesis
    using c crc32_is_register [of 9 "[0x31, 0x32, 0x33, 0x34, 0x35, 0x36, 0x37, 0x38, 0x39]"] by simp
qed

text \<open>C17: Two messages of the same size whose bits, in the order of transmission, differ and differ
  only inside a window of at most 32 consecutive bits have different checksums: every error
  burst of up to 32 bits is detected, wherever it lies and whatever surrounds it.\<close>

theorem crc32_detects_bursts:
  assumes "length m1 < 2 ^ 64" "length m2 = length m1" "msg_bits m1 = p @ v @ s" "msg_bits m2 = p @ w @ s"
    and "length v = length w" "length v \<le> 32" "v \<noteq> w"
  shows "crc32 m1 (of_nat (length m1)) \<noteq> crc32 m2 (of_nat (length m2))"
proof
  assume e: "crc32 m1 (of_nat (length m1)) = crc32 m2 (of_nat (length m2))"
  have "crc_ref m1 = crc_ref m2"
    using e assms(1,2) crc32_eq_ref [of "of_nat (length m1)" m1] crc32_eq_ref [of "of_nat (length m2)" m2]
    by (simp add: unsigned_of_nat take_bit_nat_eq_self)
  then have "crc_feed 0xFFFFFFFF (p @ v @ s) = crc_feed 0xFFFFFFFF (p @ w @ s)"
    unfolding crc_ref_def assms(3,4) by (rule xor_cancel)
  then show False using crc_feed_burst [OF assms(5,6)] assms(7) by blast
qed

theorem crc32_detects_bursts_witness:
  "msg_bits [0x31, 0x32] = msg_bits [0x31] @ [False] @ tl (msg_bits [0x32]) \<and>
   crc32 [0x31, 0x32] 2 \<noteq> crc32 [0x31, 0x33] 2"
proof
  have m: "msg_bits [0x31, 0x32] = msg_bits [0x31] @ [False] @ tl (msg_bits [0x32])"
    "msg_bits [0x31, 0x33] = msg_bits [0x31] @ [True] @ tl (msg_bits [0x32])" by code_simp+
  show "msg_bits [0x31, 0x32] = msg_bits [0x31] @ [False] @ tl (msg_bits [0x32])" by (rule m(1))
  show "crc32 [0x31, 0x32] 2 \<noteq> crc32 [0x31, 0x33] 2"
    using crc32_detects_bursts [OF _ _ m] by simp
qed

end
