(* ===== verification/Ring_Copy.thy ===== *)
theory Ring_Copy
  imports Ava_Prelude
begin

section \<open>Copies that wrap around the end of a ring\<close>

text \<open>
  The ring buffers of \<open>ds/\<close> copy a record in two pieces, one up to the end of the buffer
  and one from its start. This theory holds the list view of such a ring, \<open>ring_slice\<close>, the
  two-piece store and fetch, and the facts that relate them; it knows nothing of the rings'
  control fields. A byte queue as the rings' clients see it is the locale \<open>byte_fifo\<close>.
\<close>

subsection \<open>The bytes of a ring, as a list\<close>

definition ring_slice :: "nat \<Rightarrow> 'a list \<Rightarrow> nat \<Rightarrow> nat \<Rightarrow> 'a list" where
  "ring_slice c buf start n = map (\<lambda>i. buf ! ((start + i) mod c)) [0..<n]"

lemma length_ring_slice [simp]: "length (ring_slice c buf start n) = n"
  by (simp add: ring_slice_def)

lemma nth_ring_slice [simp]:
  "i < n \<Longrightarrow> ring_slice c buf start n ! i = buf ! ((start + i) mod c)"
  by (simp add: ring_slice_def)

lemma ring_slice_0 [simp]: "ring_slice c buf start 0 = []"
  by (simp add: ring_slice_def)

lemma ring_slice_add:
  "ring_slice c buf start (m + n) = ring_slice c buf start m @ ring_slice c buf (start + m) n"
  by (rule nth_equalityI) (auto simp: nth_append add.assoc)

lemma take_ring_slice: "m \<le> n \<Longrightarrow> take m (ring_slice c buf start n) = ring_slice c buf start m"
  by (metis append_eq_conv_conj le_add_diff_inverse length_ring_slice ring_slice_add)

lemma drop_ring_slice:
  "m \<le> n \<Longrightarrow> drop m (ring_slice c buf start n) = ring_slice c buf (start + m) (n - m)"
  by (metis append_eq_conv_conj le_add_diff_inverse length_ring_slice ring_slice_add)

lemma ring_slice_mod: "ring_slice c buf (start mod c) n = ring_slice c buf start n"
  by (simp add: ring_slice_def mod_add_left_eq)

lemma ring_slice_cong_mod:
  "a mod c = b mod c \<Longrightarrow> ring_slice c buf a n = ring_slice c buf b n"
  by (metis ring_slice_mod)

lemma mod_off [ring_simps]:
  fixes off j c :: nat
  assumes "off < c" "j < c"
  shows "(off + j) mod c = (if off + j < c then off + j else off + j - c)"
  using assms by (simp add: mod_if)

lemma ring_pos_inj:
  fixes s a b c :: nat
  assumes "(s + a) mod c = (s + b) mod c" "a < b + c" "b < a + c"
  shows "a = b"
proof (rule ccontr)
  assume "a \<noteq> b"
  then consider "a < b" | "b < a" by linarith
  then show False
  proof cases
    case 1
    then have "c dvd (s + b) - (s + a)" using assms(1) by (metis mod_eq_dvd_iff_nat add_le_cancel_left less_imp_le)
    then have "c dvd b - a" by simp
    with 1 assms(3) show False by (auto dest: dvd_imp_le)
  next
    case 2
    then have "c dvd (s + a) - (s + b)" using assms(1) by (metis mod_eq_dvd_iff_nat add_le_cancel_left less_imp_le)
    then have "c dvd a - b" by simp
    with 2 assms(2) show False by (auto dest: dvd_imp_le)
  qed
qed

subsection \<open>The two-piece store\<close>

definition ring_store :: "nat \<Rightarrow> u8 list \<Rightarrow> nat \<Rightarrow> u8 list \<Rightarrow> u8 list option" where
  "ring_store c buf off xs =
     (let first = min (length xs) (c - off) in do {
        buf1 \<leftarrow> mem_put buf off (take first xs);
        mem_put buf1 0 (drop first xs)
      })"

lemma ring_store_defined:
  assumes "off < c" "length xs \<le> c" "c \<le> length buf"
  shows "\<exists>buf'. ring_store c buf off xs = Some buf' \<and> length buf' = length buf"
  using assms by (auto simp: ring_store_def mem_put_def Let_def)

lemma ring_store_nth:
  assumes st: "ring_store c buf off xs = Some buf'"
    and "off < c" "length xs \<le> c" "c \<le> length buf" "p < length buf"
  shows "buf' ! p =
    (if off \<le> p \<and> p < c \<and> p < off + length xs then xs ! (p - off)
     else if p + c < off + length xs then xs ! (p + c - off) else buf ! p)"
proof -
  let ?f = "min (length xs) (c - off)"
  obtain b1 where b1: "mem_put buf off (take ?f xs) = Some b1"
    and b2: "mem_put b1 0 (drop ?f xs) = Some buf'"
    using st by (auto simp: ring_store_def Let_def bind_eq_Some_conv)
  have l1: "length b1 = length buf" using b1 by (rule mem_put_length)
  have n1: "b1 ! p = (if off \<le> p \<and> p < off + ?f then xs ! (p - off) else buf ! p)"
  proof -
    have "off \<le> p \<Longrightarrow> p < off + ?f \<Longrightarrow> take ?f xs ! (p - off) = xs ! (p - off)"
      by (rule nth_take) linarith
    with mem_put_nth [OF b1 assms(5)] show ?thesis by auto
  qed
  have n2: "buf' ! p = (if p < length xs - ?f then xs ! (p + ?f) else b1 ! p)"
    using mem_put_nth [OF b2, of p] assms(5) l1 by (auto simp: add.commute)
  show ?thesis
  proof (cases "length xs \<le> c - off")
    case True
    then show ?thesis using n1 n2 assms by auto
  next
    case False
    then have f: "?f = c - off" by simp
    have "p + (c - off) = p + c - off" using assms by simp
    then show ?thesis using False n1 n2 assms unfolding f by auto
  qed
qed

text \<open>A stored record can be read back, and every other position of the ring is untouched.\<close>

lemma ring_store_slice:
  assumes st: "ring_store c buf (start mod c) xs = Some buf'"
    and "0 < c" "length xs \<le> c" "c \<le> length buf"
  shows "ring_slice c buf' start (length xs) = xs"
proof (rule nth_equalityI)
  show "length (ring_slice c buf' start (length xs)) = length xs" by simp
  fix i assume "i < length (ring_slice c buf' start (length xs))"
  then have i: "i < length xs" by simp
  let ?off = "start mod c"
  have off: "?off < c" using assms by simp
  have "(start + i) mod c = (?off + i) mod c" by (simp add: mod_add_left_eq)
  also have "\<dots> = (if ?off + i < c then ?off + i else ?off + i - c)"
    using off i assms by (intro mod_off) auto
  finally have p: "(start + i) mod c = (if ?off + i < c then ?off + i else ?off + i - c)" .
  have pl: "(start + i) mod c < length buf"
    using assms by (meson mod_less_divisor order_less_le_trans)
  have n: "buf' ! ((start + i) mod c) =
    (if ?off \<le> (start + i) mod c \<and> (start + i) mod c < c \<and> (start + i) mod c < ?off + length xs
     then xs ! ((start + i) mod c - ?off)
     else if (start + i) mod c + c < ?off + length xs then xs ! ((start + i) mod c + c - ?off)
     else buf ! ((start + i) mod c))"
    by (rule ring_store_nth [OF st off assms(3,4) pl])
  have "buf' ! ((start + i) mod c) = xs ! i"
    using n i off assms(3) unfolding p by (cases "?off + i < c") (simp_all, linarith?)
  then show "ring_slice c buf' start (length xs) ! i = xs ! i" using i by simp
qed

lemma ring_store_other:
  assumes st: "ring_store c buf (start mod c) xs = Some buf'"
    and "0 < c" "c \<le> length buf" "used + length xs \<le> c"
    and rp: "(rp + used) mod c = start mod c"
  shows "ring_slice c buf' rp used = ring_slice c buf rp used"
proof (rule nth_equalityI)
  show "length (ring_slice c buf' rp used) = length (ring_slice c buf rp used)" by simp
  fix i assume "i < length (ring_slice c buf' rp used)"
  then have i: "i < used" by simp
  let ?off = "start mod c" and ?p = "(rp + i) mod c"
  have off: "?off < c" and pc: "?p < c" using assms by simp_all
  have ne: "\<And>j. j < length xs \<Longrightarrow> ?p \<noteq> (?off + j) mod c"
  proof
    fix j assume j: "j < length xs" and eq: "?p = (?off + j) mod c"
    have "(?off + j) mod c = (rp + (used + j)) mod c"
      using rp by (metis mod_add_left_eq add.assoc)
    with eq have "i = used + j"
      using i j assms by (intro ring_pos_inj [of rp i c "used + j"]) auto
    with i show False by simp
  qed
  have n: "buf' ! ?p = (if ?off \<le> ?p \<and> ?p < c \<and> ?p < ?off + length xs then xs ! (?p - ?off)
     else if ?p + c < ?off + length xs then xs ! (?p + c - ?off) else buf ! ?p)"
    using assms pc by (intro ring_store_nth [OF st off]) auto
  have "\<not> (?off \<le> ?p \<and> ?p < ?off + length xs)"
    using ne [of "?p - ?off"] pc by (auto simp: less_diff_conv2)
  moreover have "\<not> ?p + c < ?off + length xs"
  proof
    assume a: "?p + c < ?off + length xs"
    have "(?off + (?p + c - ?off)) mod c = ?p" using off by simp
    moreover have "?p + c - ?off < length xs" using a off by linarith
    ultimately show False using ne [of "?p + c - ?off"] by simp
  qed
  ultimately have "buf' ! ?p = buf ! ?p" using n by auto
  then show "ring_slice c buf' rp used ! i = ring_slice c buf rp used ! i" using i by simp
qed

subsection \<open>The two-piece fetch\<close>

lemma ring_fetch:
  assumes "0 < c" "c \<le> length buf" "n \<le> c" "off = start mod c"
  shows "take (min n (c - off)) (drop off buf) @ take (n - min n (c - off)) buf
         = ring_slice c buf start n"
proof (rule nth_equalityI)
  have off: "off < c" using assms by simp
  let ?f = "min n (c - off)"
  show len: "length (take ?f (drop off buf) @ take (n - ?f) buf) = length (ring_slice c buf start n)"
  proof -
    have "?f \<le> length buf - off" "n - ?f \<le> length buf" using assms(2,3) off by auto
    then show ?thesis by (simp add: min_absorb2)
  qed
  fix i assume "i < length (take ?f (drop off buf) @ take (n - ?f) buf)"
  then have i: "i < n" using len by simp
  have "(start + i) mod c = (off + i) mod c" by (simp add: assms mod_add_left_eq)
  also have "\<dots> = (if off + i < c then off + i else off + i - c)"
    using off i assms by (intro mod_off) auto
  finally have p: "(start + i) mod c = (if off + i < c then off + i else off + i - c)" .
  show "(take ?f (drop off buf) @ take (n - ?f) buf) ! i = ring_slice c buf start n ! i"
  proof -
    have f: "?f \<le> length buf - off" using assms(2) off by auto
    have "(take ?f (drop off buf) @ take (n - ?f) buf) ! i
        = (if i < ?f then buf ! (off + i) else buf ! (i - ?f))"
      using i f by (simp add: nth_append min_absorb2)
    also have "\<dots> = buf ! ((start + i) mod c)"
      using i off unfolding p by (cases "off + i < c") (auto intro: arg_cong [where f = "nth buf"])
    finally show ?thesis using i by simp
  qed
qed

subsection \<open>The interface of a byte queue\<close>

text \<open>
  What the clients of a ring rely on: a state with a queue of bytes, a \<open>put\<close> that appends a
  prefix of its argument and says how long the prefix is, and a \<open>get\<close> that hands out a
  prefix of the queue. Both are total on well-formed states (\<open>None\<close> would be undefined
  behaviour). A run is a list of calls; \<open>fifo_run\<close> returns what went in and what came out.
\<close>

datatype fifo_op = Put "u8 list" | Get nat

fun fifo_run :: "('s \<Rightarrow> u8 list \<Rightarrow> ('s \<times> nat) option) \<Rightarrow> ('s \<Rightarrow> nat \<Rightarrow> ('s \<times> u8 list) option)
    \<Rightarrow> 's \<Rightarrow> fifo_op list \<Rightarrow> ('s \<times> u8 list \<times> u8 list) option" where
  "fifo_run put get s [] = Some (s, [], [])"
| "fifo_run put get s (Put xs # ops) = do {
     (s1, n) \<leftarrow> put s xs;
     (s2, ins, outs) \<leftarrow> fifo_run put get s1 ops;
     Some (s2, take n xs @ ins, outs)
   }"
| "fifo_run put get s (Get n # ops) = do {
     (s1, ys) \<leftarrow> get s n;
     (s2, ins, outs) \<leftarrow> fifo_run put get s1 ops;
     Some (s2, ins, ys @ outs)
   }"

definition fifo_ops_ok :: "(u8 list \<Rightarrow> bool) \<Rightarrow> (nat \<Rightarrow> bool) \<Rightarrow> fifo_op list \<Rightarrow> bool" where
  "fifo_ops_ok pok gok ops \<longleftrightarrow>
     list_all (\<lambda>x. case x of Put xs \<Rightarrow> pok xs | Get n \<Rightarrow> gok n) ops"

lemma fifo_ops_ok_simps [simp]:
  "fifo_ops_ok pok gok []"
  "fifo_ops_ok pok gok (Put xs # ops) \<longleftrightarrow> pok xs \<and> fifo_ops_ok pok gok ops"
  "fifo_ops_ok pok gok (Get n # ops) \<longleftrightarrow> gok n \<and> fifo_ops_ok pok gok ops"
  by (simp_all add: fifo_ops_ok_def)

locale byte_fifo =
  fixes ok :: "'s \<Rightarrow> bool"
    and queue :: "'s \<Rightarrow> u8 list"
    and put :: "'s \<Rightarrow> u8 list \<Rightarrow> ('s \<times> nat) option"
    and get :: "'s \<Rightarrow> nat \<Rightarrow> ('s \<times> u8 list) option"
    and pok :: "u8 list \<Rightarrow> bool"
    and gok :: "nat \<Rightarrow> bool"
  assumes put_law: "ok s \<Longrightarrow> pok xs \<Longrightarrow>
      \<exists>s' n. put s xs = Some (s', n) \<and> ok s' \<and> n \<le> length xs \<and> queue s' = queue s @ take n xs"
    and get_law: "ok s \<Longrightarrow> gok n \<Longrightarrow>
      \<exists>s' ys. get s n = Some (s', ys) \<and> ok s' \<and> length ys \<le> n \<and> queue s = ys @ queue s'"
begin

lemma run_fifo:
  "ok s \<Longrightarrow> fifo_ops_ok pok gok ops \<Longrightarrow>
   \<exists>s' ins outs. fifo_run put get s ops = Some (s', ins, outs) \<and> ok s' \<and>
     queue s @ ins = outs @ queue s'"
proof (induction ops arbitrary: s)
  case Nil
  then show ?case by simp
next
  case (Cons a ops)
  show ?case
  proof (cases a)
    case (Put xs)
    with Cons.prems obtain s1 n where 1: "put s xs = Some (s1, n)" "ok s1"
      "queue s1 = queue s @ take n xs" using put_law [of s xs] by auto
    from Put Cons.prems have "fifo_ops_ok pok gok ops" by simp
    from Cons.IH [OF 1(2) this] 1 Put show ?thesis by auto
  next
    case (Get n)
    with Cons.prems obtain s1 ys where 1: "get s n = Some (s1, ys)" "ok s1"
      "queue s = ys @ queue s1" using get_law [of s n] by auto
    from Get Cons.prems have "fifo_ops_ok pok gok ops" by simp
    from Cons.IH [OF 1(2) this] 1 Get show ?thesis by auto
  qed
qed

end

end
