(* ===== verification/Spsc_Ring.thy ===== *)
theory Spsc_Ring
  imports Ring_Copy "HOL-Library.Sublist"
begin

section \<open>The single-producer single-consumer ring (ds/spsc.h)\<close>

text \<open>
  \<open>spsc_t\<close> keeps two free-running 64-bit counters, \<open>wp\<close> and \<open>rp\<close>, over a buffer whose
  capacity is a power of two. Bytes written but not yet read are the \<open>wp - rp\<close> bytes from
  position \<open>rp mod cap\<close>. The operations below are the calls of \<open>spsc.h\<close> run to completion;
  their interleaving is the subject of \<open>Spsc_Conc\<close>. A destination or source buffer is the
  list of its bytes, and every \<open>memcpy\<close> is bounds-checked.
\<close>

subsection \<open>State\<close>

datatype spsc_policy_e = SPSC_POLICY_TRUNCATE | SPSC_POLICY_OVERWRITE | SPSC_POLICY_REJECT

record spsc_t =
  sp_policy :: spsc_policy_e
  sp_buf :: "u8 list"
  sp_cap :: usz
  sp_wp :: usz
  sp_rp :: usz

definition IS_POWER_OF_2 :: "usz \<Rightarrow> bool" where
  "IS_POWER_OF_2 n \<longleftrightarrow> n \<noteq> 0 \<and> n AND (n - 1) = 0"

subsection \<open>Operations\<close>

definition spsc_init_buf :: "spsc_t \<Rightarrow> usz \<Rightarrow> spsc_policy_e \<Rightarrow> spsc_t \<times> int" where
  "spsc_init_buf s cap policy =
     (if \<not> IS_POWER_OF_2 cap then (s, - 1)
      else (s\<lparr>sp_policy := policy, sp_cap := cap, sp_rp := 0, sp_wp := 0\<rparr>, 0))"

definition spsc_init :: "spsc_t \<Rightarrow> u8 list \<Rightarrow> usz \<Rightarrow> spsc_policy_e \<Rightarrow> spsc_t \<times> int" where
  "spsc_init s buf cap policy =
     (let (s1, ret) = spsc_init_buf s cap policy in
      if ret \<noteq> 0 then (s1, ret) else (s1\<lparr>sp_buf := buf\<rparr>, 0))"

definition spsc_reset :: "spsc_t \<Rightarrow> spsc_t" where
  "spsc_reset s = s\<lparr>sp_rp := 0, sp_wp := 0\<rparr>"

definition spsc_avail :: "spsc_t \<Rightarrow> usz" where
  "spsc_avail s = sp_wp s - sp_rp s"

definition spsc_free :: "spsc_t \<Rightarrow> usz" where
  "spsc_free s = sp_cap s - spsc_avail s"

definition spsc_empty :: "spsc_t \<Rightarrow> bool" where
  "spsc_empty s \<longleftrightarrow> spsc_avail s = 0"

definition spsc_full :: "spsc_t \<Rightarrow> bool" where
  "spsc_full s \<longleftrightarrow> spsc_free s = 0"

definition spsc_policy :: "spsc_t \<Rightarrow> usz \<Rightarrow> usz \<Rightarrow> usz \<Rightarrow> spsc_t \<times> usz" where
  "spsc_policy s wp rp sz =
     (let free = sp_cap s - (wp - rp) in
      if sz \<le> free then (s, sz)
      else (case sp_policy s of
              SPSC_POLICY_TRUNCATE \<Rightarrow> (s, free)
            | SPSC_POLICY_OVERWRITE \<Rightarrow> (s\<lparr>sp_rp := sp_rp s + (sz - free)\<rparr>, sz)
            | SPSC_POLICY_REJECT \<Rightarrow> (s, 0)))"

definition spsc_write_buf ::
    "spsc_t \<Rightarrow> u8 list \<Rightarrow> u8 list \<Rightarrow> usz \<Rightarrow> (spsc_t \<times> u8 list \<times> usz) option" where
  "spsc_write_buf s buf src sz0 =
     (let wp = sp_wp s; rp = sp_rp s; (s1, sz) = spsc_policy s wp rp sz0 in
      if sz = 0 then Some (s1, buf, 0)
      else let mask = sp_cap s - 1; off = wp AND mask; first = min sz (sp_cap s - off) in do {
        a \<leftarrow> mem_get src 0 (unat first);
        buf1 \<leftarrow> mem_put buf (unat off) a;
        b \<leftarrow> mem_get src (unat first) (unat (sz - first));
        buf2 \<leftarrow> mem_put buf1 0 b;
        Some (s1\<lparr>sp_wp := wp + sz\<rparr>, buf2, sz)
      })"

definition spsc_read_buf ::
    "spsc_t \<Rightarrow> u8 list \<Rightarrow> u8 list \<Rightarrow> usz \<Rightarrow> (spsc_t \<times> u8 list \<times> usz) option" where
  "spsc_read_buf s buf dst sz0 =
     (let rp = sp_rp s; wp = sp_wp s; avail = wp - rp;
          sz = (if avail < sz0 then avail else sz0) in
      if sz = 0 then Some (s, dst, 0)
      else let mask = sp_cap s - 1; off = rp AND mask; first = min sz (sp_cap s - off) in do {
        a \<leftarrow> mem_get buf (unat off) (unat first);
        dst1 \<leftarrow> mem_put dst 0 a;
        b \<leftarrow> mem_get buf 0 (unat (sz - first));
        dst2 \<leftarrow> mem_put dst1 (unat first) b;
        Some (s\<lparr>sp_rp := rp + sz\<rparr>, dst2, sz)
      })"

definition spsc_write :: "spsc_t \<Rightarrow> u8 list \<Rightarrow> usz \<Rightarrow> (spsc_t \<times> usz) option" where
  "spsc_write s src sz = do {
     (s1, buf, n) \<leftarrow> spsc_write_buf s (sp_buf s) src sz;
     Some (s1\<lparr>sp_buf := buf\<rparr>, n)
   }"

definition spsc_read :: "spsc_t \<Rightarrow> u8 list \<Rightarrow> usz \<Rightarrow> (spsc_t \<times> u8 list \<times> usz) option" where
  "spsc_read s dst sz = spsc_read_buf s (sp_buf s) dst sz"

subsection \<open>Well-formed rings and the queue they hold\<close>

definition spsc_ok :: "spsc_t \<Rightarrow> u8 list \<Rightarrow> bool" where
  "spsc_ok s buf \<longleftrightarrow>
     IS_POWER_OF_2 (sp_cap s) \<and> unat (sp_cap s) \<le> length buf \<and> spsc_avail s \<le> sp_cap s"

definition spsc_queue :: "spsc_t \<Rightarrow> u8 list \<Rightarrow> u8 list" where
  "spsc_queue s buf = ring_slice (unat (sp_cap s)) buf (unat (sp_rp s)) (unat (spsc_avail s))"

lemma and_pred_0_pow2_nat:
  fixes n :: nat
  assumes "n \<noteq> 0" and "and n (n - 1) = 0"
  shows "\<exists>k. n = 2 ^ k"
  using assms
proof (induction n rule: less_induct)
  case (less n)
  show ?case
  proof (cases "even n")
    case True
    then obtain m where m: "n = 2 * m" by blast
    with less.prems have "m \<noteq> 0" by simp
    then obtain j where j: "m = Suc j" by (cases m) auto
    have "and n (n - 1) = 2 * and m (m - 1)"
      using m j by (subst and_rec) simp
    then have "and m (m - 1) = 0" using less.prems by simp
    with less.IH [of m] m \<open>m \<noteq> 0\<close> obtain k where "m = 2 ^ k" by auto
    then have "n = 2 ^ Suc k" using m by simp
    then show ?thesis by blast
  next
    case False
    then obtain m where m: "n = 2 * m + 1" by (auto elim: oddE)
    have "and n (n - 1) = 2 * and m m" using m by (subst and_rec) simp
    then have "m = 0" using less.prems by simp
    then have "n = 2 ^ 0" using m by simp
    then show ?thesis by blast
  qed
qed

lemma IS_POWER_OF_2_iff: "IS_POWER_OF_2 n \<longleftrightarrow> (\<exists>k. unat n = 2 ^ k)"
proof
  assume a: "IS_POWER_OF_2 n"
  then have nz: "n \<noteq> 0" and z: "n AND (n - 1) = 0" by (simp_all add: IS_POWER_OF_2_def)
  have "unat (n - 1) = unat n - 1" using nz by (simp add: unat_minus_one)
  moreover have "unat (n AND (n - 1)) = and (unat n) (unat (n - 1))" by (rule unsigned_and_eq)
  ultimately have "and (unat n) (unat n - 1) = 0" using z by simp
  moreover have "unat n \<noteq> 0" using nz by (simp add: unat_eq_zero)
  ultimately show "\<exists>k. unat n = 2 ^ k" by (intro and_pred_0_pow2_nat)
next
  assume "\<exists>k. unat n = 2 ^ k"
  then obtain k where k: "unat n = 2 ^ k" by blast
  then have "n \<noteq> 0" by auto
  moreover have "n AND (n - 1) = 0"
    using unat_and_pow2_mask [OF k, of n] by (simp add: unat_eq_zero)
  ultimately show "IS_POWER_OF_2 n" by (simp add: IS_POWER_OF_2_def)
qed


lemma spsc_okE:
  assumes "spsc_ok s buf"
  obtains k where "unat (sp_cap s) = 2 ^ k" "unat (sp_cap s) dvd 2 ^ 64" "0 < unat (sp_cap s)"
    "unat (sp_cap s) \<le> length buf" "unat (spsc_avail s) \<le> unat (sp_cap s)"
    "\<And>x. unat (x AND (sp_cap s - 1)) = unat x mod unat (sp_cap s)"
    "unat (sp_wp s) mod unat (sp_cap s)
       = (unat (sp_rp s) + unat (spsc_avail s)) mod unat (sp_cap s)"
    "unat (spsc_free s) = unat (sp_cap s) - unat (spsc_avail s)"
proof -
  from assms obtain k where k: "unat (sp_cap s) = 2 ^ k"
    by (auto simp: spsc_ok_def IS_POWER_OF_2_iff)
  have d: "unat (sp_cap s) dvd 2 ^ 64" using k by (rule pow2_dvd_usz)
  have "sp_wp s = sp_rp s + spsc_avail s" by (simp add: spsc_avail_def)
  then have w: "unat (sp_wp s) mod unat (sp_cap s)
       = (unat (sp_rp s) + unat (spsc_avail s)) mod unat (sp_cap s)"
    by (metis d unat_add_mod_dvd)
  have le: "spsc_avail s \<le> sp_cap s" using assms by (simp add: spsc_ok_def)
  show thesis
    by (rule that [OF k d _ _ _ unat_and_pow2_mask [OF k] w])
      (use assms k le in \<open>auto simp: spsc_ok_def spsc_free_def word_le_nat_alt unat_sub\<close>)
qed

lemma spsc_ok_bounds:
  assumes "spsc_ok s buf"
  shows "unat (spsc_avail s) \<le> unat (sp_cap s)"
    and "unat (spsc_free s) = unat (sp_cap s) - unat (spsc_avail s)"
    and "unat (sp_cap s) \<le> length buf" and "0 < unat (sp_cap s)"
  by (rule spsc_okE [OF assms]; assumption)+

lemma spsc_copy_in:
  fixes wp cap sz :: usz
  assumes c: "unat cap = 2 ^ k" and n: "unat sz \<le> unat cap" "unat sz \<le> length src"
  shows "(let off = wp AND (cap - 1); first = min sz (cap - off) in do {
        a \<leftarrow> mem_get src 0 (unat first);
        buf1 \<leftarrow> mem_put buf (unat off) a;
        b \<leftarrow> mem_get src (unat first) (unat (sz - first));
        buf2 \<leftarrow> mem_put buf1 0 b;
        Some (f buf2)
      }) = map_option f (ring_store (unat cap) buf (unat wp mod unat cap) (take (unat sz) src))"
proof -
  let ?off = "wp AND (cap - 1)"
  have off: "unat ?off = unat wp mod unat cap" using c by (rule unat_and_pow2_mask)
  have lt: "unat ?off < unat cap" unfolding off using c by simp
  then have "?off \<le> cap" by (simp add: word_le_nat_alt)
  then have d: "unat (cap - ?off) = unat cap - unat ?off" by (rule unat_sub)
  then have f: "unat (min sz (cap - ?off)) = min (unat sz) (unat cap - unat ?off)"
    by (simp add: min_def word_le_nat_alt)
  then have r: "unat (sz - min sz (cap - ?off)) = unat sz - min (unat sz) (unat cap - unat ?off)"
    by (simp add: unat_sub)
  let ?n = "unat sz" and ?m = "min (unat sz) (unat cap - unat ?off)"
  have ga: "mem_get src 0 ?m = Some (take ?m (take ?n src))"
    using n by (simp add: mem_get_def min_def)
  have gb: "mem_get src ?m (?n - ?m) = Some (drop ?m (take ?n src))"
    using n by (auto simp: mem_get_def drop_take)
  have lm: "min (length (take ?n src)) (unat cap - unat ?off) = ?m" using n by simp
  show ?thesis
    unfolding ring_store_def Let_def f r off [symmetric] lm
    by (simp add: ga gb map_option_bind map_conv_bind_option comp_def)
qed


text \<open>Storing a record that fits in the free space: the core of every policy.\<close>

lemma spsc_store_fits:
  assumes ok: "spsc_ok s buf" and fit: "unat sz \<le> unat (spsc_free s)"
    and src: "unat sz \<le> length src"
  shows "\<exists>buf'. ring_store (unat (sp_cap s)) buf (unat (sp_wp s) mod unat (sp_cap s)) (take (unat sz) src)
           = Some buf' \<and> length buf' = length buf
    \<and> spsc_ok (s\<lparr>sp_wp := sp_wp s + sz\<rparr>) buf'
    \<and> spsc_queue (s\<lparr>sp_wp := sp_wp s + sz\<rparr>) buf' = spsc_queue s buf @ take (unat sz) src"
proof -
  let ?c = "unat (sp_cap s)" and ?s' = "s\<lparr>sp_wp := sp_wp s + sz\<rparr>" and ?xs = "take (unat sz) src"
  let ?a = "unat (spsc_avail s)" and ?rp = "unat (sp_rp s)" and ?wp = "unat (sp_wp s)"
  obtain k where c: "?c = 2 ^ k" "0 < ?c" "?c \<le> length buf" "?a \<le> ?c"
    "?wp mod ?c = (?rp + ?a) mod ?c" "unat (spsc_free s) = ?c - ?a"
    using spsc_okE [OF ok] by metis
  have lx: "length ?xs = unat sz" using src by simp
  have tot: "?a + unat sz \<le> ?c" using fit c by linarith
  obtain buf' where st: "ring_store ?c buf (?wp mod ?c) ?xs = Some buf'" and l: "length buf' = length buf"
    using ring_store_defined [of "?wp mod ?c" ?c ?xs buf] c tot lx by auto
  have av: "spsc_avail ?s' = spsc_avail s + sz" by (simp add: spsc_avail_def algebra_simps)
  have "?c < 2 ^ 64" using unsigned_less [of "sp_cap s"] by simp
  then have una: "unat (spsc_avail ?s') = ?a + unat sz"
    unfolding av using tot by (simp add: unat_word_ariths)
  then have ok': "spsc_ok ?s' buf'"
    using ok l tot by (simp add: spsc_ok_def word_le_nat_alt)
  have q1: "ring_slice ?c buf' ?rp ?a = ring_slice ?c buf ?rp ?a"
    using c tot lx by (intro ring_store_other [OF st]) auto
  have "ring_slice ?c buf' ?wp (length ?xs) = ?xs"
    using c tot lx by (intro ring_store_slice [OF st]) auto
  moreover have "ring_slice ?c buf' (?rp + ?a) (unat sz) = ring_slice ?c buf' ?wp (unat sz)"
    using c(5) by (intro ring_slice_cong_mod) simp
  ultimately have q2: "ring_slice ?c buf' (?rp + ?a) (unat sz) = ?xs" using lx by simp
  have "spsc_queue ?s' buf' = ring_slice ?c buf' ?rp (?a + unat sz)"
    by (simp add: spsc_queue_def una [simplified])
  then have "spsc_queue ?s' buf' = spsc_queue s buf @ ?xs"
    by (simp add: ring_slice_add q1 q2 spsc_queue_def)
  with st l ok' show ?thesis by blast
qed

text \<open>Moving \<open>rp\<close> forward by at most the used size drops the oldest bytes.\<close>

lemma spsc_drop:
  assumes ok: "spsc_ok s buf" and n: "unat n \<le> unat (spsc_avail s)"
  shows "spsc_ok (s\<lparr>sp_rp := sp_rp s + n\<rparr>) buf"
    and "spsc_queue (s\<lparr>sp_rp := sp_rp s + n\<rparr>) buf = drop (unat n) (spsc_queue s buf)"
    and "unat (spsc_avail (s\<lparr>sp_rp := sp_rp s + n\<rparr>)) = unat (spsc_avail s) - unat n"
proof -
  let ?s' = "s\<lparr>sp_rp := sp_rp s + n\<rparr>"
  have "spsc_avail ?s' = spsc_avail s - n" by (simp add: spsc_avail_def algebra_simps)
  then show una: "unat (spsc_avail ?s') = unat (spsc_avail s) - unat n"
    using n by (simp add: unat_sub word_le_nat_alt)
  then show "spsc_ok ?s' buf"
    using ok by (auto simp: spsc_ok_def word_le_nat_alt)
  obtain d: "unat (sp_cap s) dvd 2 ^ 64" using spsc_okE [OF ok] by metis
  have "unat (sp_rp s + n) mod unat (sp_cap s) = (unat (sp_rp s) + unat n) mod unat (sp_cap s)"
    using d by (rule unat_add_mod_dvd)
  then show "spsc_queue ?s' buf = drop (unat n) (spsc_queue s buf)"
    using n una unfolding spsc_queue_def
    by (simp add: drop_ring_slice) (rule ring_slice_cong_mod)
qed

subsection \<open>Refinement to a bounded byte queue\<close>

text \<open>
  The abstract specification of a write: with \<open>free\<close> bytes of room, a request for \<open>n\<close> bytes
  stores the first \<open>taken\<close> bytes after dropping the \<open>evicted\<close> oldest ones.
\<close>

fun spsc_accept :: "spsc_policy_e \<Rightarrow> nat \<Rightarrow> nat \<Rightarrow> nat \<times> nat" where
  "spsc_accept policy free n =
     (if n \<le> free then (n, 0)
      else case policy of
        SPSC_POLICY_TRUNCATE \<Rightarrow> (free, 0)
      | SPSC_POLICY_OVERWRITE \<Rightarrow> (n, n - free)
      | SPSC_POLICY_REJECT \<Rightarrow> (0, 0))"

lemma spsc_write_buf_eq:
  assumes ok: "spsc_ok s buf" and p: "spsc_policy s (sp_wp s) (sp_rp s) sz0 = (s1, sz)"
    and n: "unat sz \<le> unat (sp_cap s)" "unat sz \<le> length src"
  shows "spsc_write_buf s buf src sz0 =
    (if sz = 0 then Some (s1, buf, 0)
     else map_option (\<lambda>b. (s1\<lparr>sp_wp := sp_wp s + sz\<rparr>, b, sz))
       (ring_store (unat (sp_cap s)) buf (unat (sp_wp s) mod unat (sp_cap s)) (take (unat sz) src)))"
proof -
  obtain k where "unat (sp_cap s) = 2 ^ k" using spsc_okE [OF ok] by metis
  from spsc_copy_in [OF this n, of "sp_wp s" buf "\<lambda>b. (s1\<lparr>sp_wp := sp_wp s + sz\<rparr>, b, sz)"]
  show ?thesis by (simp add: spsc_write_buf_def p Let_def)
qed

lemma spsc_write_buf_refines:
  assumes ok: "spsc_ok s buf" and src: "unat sz \<le> length src"
    and big: "sp_policy s = SPSC_POLICY_OVERWRITE \<Longrightarrow> sz \<le> sp_cap s"
    and acc: "spsc_accept (sp_policy s) (unat (spsc_free s)) (unat sz) = (taken, evicted)"
  shows "\<exists>s' buf' n. spsc_write_buf s buf src sz = Some (s', buf', n) \<and> unat n = taken
    \<and> spsc_ok s' buf' \<and> length buf' = length buf
    \<and> sp_cap s' = sp_cap s \<and> sp_policy s' = sp_policy s \<and> sp_buf s' = sp_buf s
    \<and> spsc_queue s' buf' = drop evicted (spsc_queue s buf) @ take taken src"
proof -
  let ?pol = "spsc_policy s (sp_wp s) (sp_rp s) sz"
  have free: "sp_cap s - (sp_wp s - sp_rp s) = spsc_free s"
    by (simp add: spsc_free_def spsc_avail_def)
  note b = spsc_ok_bounds [OF ok]
  have cap: "unat (spsc_free s) \<le> unat (sp_cap s)" using b(2) by simp
  show ?thesis
  proof (cases "sz \<le> spsc_free s \<or> sp_policy s \<noteq> SPSC_POLICY_OVERWRITE")
    case True
    define m where "m = (if sz \<le> spsc_free s then sz
      else if sp_policy s = SPSC_POLICY_TRUNCATE then spsc_free s else 0)"
    have pol: "?pol = (s, m)" and ev: "evicted = 0" and tk: "taken = unat m"
      using True acc unfolding spsc_policy_def free m_def
      by (auto simp: word_le_nat_alt split: spsc_policy_e.splits if_splits)
    have m: "unat m \<le> unat (spsc_free s)" "unat m \<le> length src"
      using src by (auto simp: m_def word_le_nat_alt)
    obtain buf' where st: "ring_store (unat (sp_cap s)) buf (unat (sp_wp s) mod unat (sp_cap s))
        (take (unat m) src) = Some buf'" and f: "length buf' = length buf"
      "spsc_ok (s\<lparr>sp_wp := sp_wp s + m\<rparr>) buf'"
      "spsc_queue (s\<lparr>sp_wp := sp_wp s + m\<rparr>) buf' = spsc_queue s buf @ take (unat m) src"
      using spsc_store_fits [OF ok m] by blast
    have "spsc_write_buf s buf src sz =
      (if m = 0 then Some (s, buf, 0) else Some (s\<lparr>sp_wp := sp_wp s + m\<rparr>, buf', m))"
      using spsc_write_buf_eq [OF ok pol, of src] m cap st by simp
    then show ?thesis using ok f ev tk by (cases "m = 0") simp_all
  next
    case False
    then have ow: "sp_policy s = SPSC_POLICY_OVERWRITE" and gt: "spsc_free s < sz" by auto
    let ?e = "sz - spsc_free s"
    let ?s1 = "s\<lparr>sp_rp := sp_rp s + ?e\<rparr>"
    have szc: "unat sz \<le> unat (sp_cap s)" using big [OF ow] by (simp add: word_le_nat_alt)
    have e: "unat ?e = unat sz - unat (spsc_free s)" using gt by (simp add: unat_sub order_less_imp_le)
    have pol: "?pol = (?s1, sz)"
      using ow gt by (auto simp: spsc_policy_def free Let_def)
    have tk: "taken = unat sz" "evicted = unat ?e"
      using acc ow gt e by (auto simp: word_less_nat_alt)
    have le: "unat ?e \<le> unat (spsc_avail s)" using e b(1,2) szc by linarith
    note dr = spsc_drop [OF ok le]
    have fit: "unat sz \<le> unat (spsc_free ?s1)"
      using spsc_ok_bounds(2) [OF dr(1)] dr(3) e b(1,2) szc by simp
    obtain buf' where st: "ring_store (unat (sp_cap s)) buf (unat (sp_wp s) mod unat (sp_cap s))
        (take (unat sz) src) = Some buf'" and f: "length buf' = length buf"
      "spsc_ok (?s1\<lparr>sp_wp := sp_wp s + sz\<rparr>) buf'"
      "spsc_queue (?s1\<lparr>sp_wp := sp_wp s + sz\<rparr>) buf' = spsc_queue ?s1 buf @ take (unat sz) src"
      using spsc_store_fits [OF dr(1) fit src] by (simp, blast)
    have "sz \<noteq> 0" using gt by auto
    then have "spsc_write_buf s buf src sz = Some (?s1\<lparr>sp_wp := sp_wp s + sz\<rparr>, buf', sz)"
      using spsc_write_buf_eq [OF ok pol szc src] st by simp
    then show ?thesis using f tk dr(2) by simp
  qed
qed


lemma spsc_read_buf_refines:
  assumes ok: "spsc_ok s buf" and dst: "unat sz \<le> length dst"
  shows "\<exists>s' n. spsc_read_buf s buf dst sz
      = Some (s', take n (spsc_queue s buf) @ drop n dst, of_nat n)
    \<and> n = min (unat sz) (length (spsc_queue s buf))
    \<and> spsc_ok s' buf \<and> sp_cap s' = sp_cap s \<and> sp_policy s' = sp_policy s \<and> sp_buf s' = sp_buf s
    \<and> spsc_queue s' buf = drop n (spsc_queue s buf)"
proof -
  let ?m = "if spsc_avail s < sz then spsc_avail s else sz"
  let ?c = "unat (sp_cap s)" and ?off = "sp_rp s AND (sp_cap s - 1)"
  obtain k where c: "?c = 2 ^ k" "0 < ?c" "?c \<le> length buf" "unat (spsc_avail s) \<le> ?c"
    and off: "unat ?off = unat (sp_rp s) mod ?c"
    using spsc_okE [OF ok] by metis
  have len: "length (spsc_queue s buf) = unat (spsc_avail s)" by (simp add: spsc_queue_def)
  have um: "unat ?m = min (unat sz) (unat (spsc_avail s))" by (simp add: min_def word_less_nat_alt)
  have m: "unat ?m \<le> unat (spsc_avail s)" "unat ?m \<le> ?c" "unat ?m \<le> length dst"
    using um c dst by simp_all
  have lt: "unat ?off < ?c" using off c by simp
  then have "unat (sp_cap s - ?off) = ?c - unat ?off"
    by (intro unat_sub) (simp add: word_le_nat_alt)
  then have f: "unat (min ?m (sp_cap s - ?off)) = min (unat ?m) (?c - unat ?off)"
    by (simp add: min_def word_le_nat_alt)
  then have r: "unat (?m - min ?m (sp_cap s - ?off)) = unat ?m - min (unat ?m) (?c - unat ?off)"
    by (simp add: unat_sub)
  let ?f = "min (unat ?m) (?c - unat ?off)"
  have "take ?f (drop (unat ?off) buf) @ take (unat ?m - ?f) buf
      = ring_slice ?c buf (unat (sp_rp s)) (unat ?m)"
    using c m off by (intro ring_fetch) auto
  also have "\<dots> = take (unat ?m) (spsc_queue s buf)"
    using m(1) by (simp add: spsc_queue_def take_ring_slice)
  finally have q: "take ?f (drop (unat ?off) buf) @ take (unat ?m - ?f) buf
      = take (unat ?m) (spsc_queue s buf)" .
  have fl: "?f \<le> length buf - unat ?off" "unat ?m - ?f \<le> length buf" "?f \<le> unat ?m"
    using c lt m by auto
  have "spsc_read_buf s buf dst sz
      = Some (if ?m = 0 then s else s\<lparr>sp_rp := sp_rp s + ?m\<rparr>,
          take (unat ?m) (spsc_queue s buf) @ drop (unat ?m) dst, ?m)"
  proof (cases "?m = 0")
    case True
    then show ?thesis unfolding spsc_read_buf_def Let_def spsc_avail_def [symmetric] by simp
  next
    case False
    have g1: "mem_get buf (unat ?off) ?f = Some (take ?f (drop (unat ?off) buf))"
      and g2: "mem_get buf 0 (unat ?m - ?f) = Some (take (unat ?m - ?f) buf)"
      using fl lt c by (simp_all add: mem_get_def)
    have p1: "mem_put dst 0 (take ?f (drop (unat ?off) buf))
        = Some (take ?f (drop (unat ?off) buf) @ drop ?f dst)"
      using fl m by (simp add: mem_put_def)
    have p2: "mem_put (take ?f (drop (unat ?off) buf) @ drop ?f dst) ?f (take (unat ?m - ?f) buf)
        = Some (take ?f (drop (unat ?off) buf) @ take (unat ?m - ?f) buf @ drop (unat ?m) dst)"
      using fl m by (simp add: mem_put_def)
    show ?thesis
      using False unfolding spsc_read_buf_def Let_def spsc_avail_def [symmetric] f r
      by (simp add: g1 g2 p1 p2 q [symmetric] del: min_less_iff_conj)
  qed
  moreover define m where "m = ?m"
  ultimately have eq: "spsc_read_buf s buf dst sz = Some (if m = 0 then s else s\<lparr>sp_rp := sp_rp s + m\<rparr>,
          take (unat m) (spsc_queue s buf) @ drop (unat m) dst, m)" by simp
  have n: "unat m = min (unat sz) (length (spsc_queue s buf))"
    using um len unfolding m_def by simp
  have mn: "m = of_nat (min (unat sz) (length (spsc_queue s buf)))" by (simp flip: n)
  have m1: "unat m \<le> unat (spsc_avail s)" using m(1) unfolding m_def .
  show ?thesis
    using eq n mn ok spsc_drop [OF ok m1]
    by (intro exI [of _ "if m = 0 then s else s\<lparr>sp_rp := sp_rp s + m\<rparr>"] exI [of _ "unat m"])
      (cases "m = 0"; simp)
qed


text \<open>
  Where the refinement stops: under \<open>SPSC_POLICY_OVERWRITE\<close> a request longer than the
  buffer is not cut down, and the second copy leaves the buffer as soon as the request does
  not fit in what is left of this lap and one more.
\<close>

lemma spsc_write_overflow:
  assumes ok: "spsc_ok s buf" and ow: "sp_policy s = SPSC_POLICY_OVERWRITE"
    and len: "length buf = unat (sp_cap s)"
    and big: "2 * unat (sp_cap s) < unat sz + unat (sp_wp s) mod unat (sp_cap s)"
  shows "spsc_write_buf s buf src sz = None"
proof -
  let ?c = "unat (sp_cap s)" and ?off = "sp_wp s AND (sp_cap s - 1)"
  note b = spsc_ok_bounds [OF ok]
  obtain k where off: "unat ?off = unat (sp_wp s) mod ?c" using spsc_okE [OF ok] by metis
  have lt: "unat ?off < ?c" using off b by simp
  have "spsc_free s < sz" using big b lt off by (simp add: word_less_nat_alt)
  then have "\<exists>s1. spsc_policy s (sp_wp s) (sp_rp s) sz = (s1, sz)"
    using ow by (simp add: spsc_policy_def spsc_free_def spsc_avail_def Let_def linorder_not_le [symmetric])
  then obtain s1 where p: "spsc_policy s (sp_wp s) (sp_rp s) sz = (s1, sz)" by blast
  have d: "unat (sp_cap s - ?off) = ?c - unat ?off"
    using lt by (intro unat_sub) (simp add: word_le_nat_alt)
  then have "sp_cap s - ?off < sz" using big lt off by (simp add: word_less_nat_alt)
  then have f: "min sz (sp_cap s - ?off) = sp_cap s - ?off" by simp
  have r: "unat (sz - (sp_cap s - ?off)) = unat sz - (?c - unat ?off)"
    using d big off by (subst unat_sub) (auto simp: word_le_nat_alt)
  have "mem_put buf1 0 y = None" if "mem_put buf o1 x = Some buf1"
    "mem_get src o2 (unat (sz - (sp_cap s - ?off))) = Some y" for buf1 o1 o2 x y
    using mem_put_length [OF that(1)] mem_get_length [OF that(2)] len big lt off r
    by (auto simp: mem_put_def)
  moreover have "sz \<noteq> 0" using big lt off by auto
  ultimately show ?thesis
    by (auto simp: spsc_write_buf_def p Let_def f split: bind_splits)
qed

subsection \<open>The rings as byte queues\<close>

text \<open>
  A ring with its own buffer (\<open>spsc_write\<close>, \<open>spsc_read\<close>) that does not overwrite is a
  \<open>byte_fifo\<close>: the calls are wrapped so that lengths are lists' lengths.
\<close>

definition spsc_put :: "spsc_t \<Rightarrow> u8 list \<Rightarrow> (spsc_t \<times> nat) option" where
  "spsc_put s xs = do { (s1, n) \<leftarrow> spsc_write s xs (of_nat (length xs)); Some (s1, unat n) }"

definition spsc_get :: "spsc_t \<Rightarrow> nat \<Rightarrow> (spsc_t \<times> u8 list) option" where
  "spsc_get s n = do {
     (s1, dst, m) \<leftarrow> spsc_read s (replicate n 0) (of_nat n); Some (s1, take (unat m) dst) }"

definition spsc_ready :: "spsc_t \<Rightarrow> bool" where
  "spsc_ready s \<longleftrightarrow> spsc_ok s (sp_buf s) \<and> sp_policy s \<noteq> SPSC_POLICY_OVERWRITE"

definition spsc_bytes :: "spsc_t \<Rightarrow> u8 list" where
  "spsc_bytes s = spsc_queue s (sp_buf s)"

lemma spsc_queue_upd [simp]:
  "spsc_queue (s\<lparr>sp_buf := b\<rparr>) buf = spsc_queue s buf"
  "spsc_ok (s\<lparr>sp_buf := b\<rparr>) buf = spsc_ok s buf"
  by (simp_all add: spsc_queue_def spsc_ok_def spsc_avail_def)

lemma spsc_accept_bound:
  "spsc_accept p free n = (t, e) \<Longrightarrow> p \<noteq> SPSC_POLICY_OVERWRITE \<Longrightarrow> t \<le> n \<and> e = 0"
  by (cases p) (auto split: if_splits)

text \<open>One call of either kind is one step of the bounded queue, whatever the policy.\<close>

lemma spsc_put_step:
  assumes "spsc_ok s (sp_buf s)" "length xs < 2 ^ 64" "sp_policy s = SPSC_POLICY_OVERWRITE \<Longrightarrow> length xs \<le> unat (sp_cap s)"
    and "spsc_accept (sp_policy s) (unat (sp_cap s) - length (spsc_bytes s)) (length xs) = (t, e)"
  shows "\<exists>s'. spsc_put s xs = Some (s', t) \<and> spsc_ok s' (sp_buf s') \<and> sp_cap s' = sp_cap s \<and> sp_policy s' = sp_policy s
    \<and> spsc_bytes s' = drop e (spsc_bytes s) @ take t xs"
proof -
  have n: "unat (of_nat (length xs) :: usz) = length xs" using assms(2) by (rule unat_of_nat_usz)
  have "length (spsc_bytes s) = unat (spsc_avail s)" by (simp add: spsc_bytes_def spsc_queue_def)
  then have acc: "spsc_accept (sp_policy s) (unat (spsc_free s)) (unat (of_nat (length xs) :: usz)) = (t, e)"
    using assms(4) spsc_ok_bounds(2) [OF assms(1)] n by simp
  have ow: "sp_policy s = SPSC_POLICY_OVERWRITE \<Longrightarrow> of_nat (length xs) \<le> sp_cap s"
    using assms(3) n by (simp add: word_le_nat_alt)
  have le: "unat (of_nat (length xs) :: usz) \<le> length xs" using n by simp
  obtain s' buf' m where w: "spsc_write_buf s (sp_buf s) xs (of_nat (length xs)) = Some (s', buf', m)"
    and f: "unat m = t" "spsc_ok s' buf'" "sp_cap s' = sp_cap s" "sp_policy s' = sp_policy s"
      "spsc_queue s' buf' = drop e (spsc_queue s (sp_buf s)) @ take t xs"
    using spsc_write_buf_refines [OF assms(1) le ow acc] by blast
  then show ?thesis by (simp add: spsc_put_def spsc_write_def spsc_bytes_def)
qed

lemma spsc_put_law:
  assumes "spsc_ready s" and "length xs < 2 ^ 64"
  shows "\<exists>s' n. spsc_put s xs = Some (s', n) \<and> spsc_ready s' \<and> n \<le> length xs
    \<and> spsc_bytes s' = spsc_bytes s @ take n xs"
proof -
  have pol: "sp_policy s \<noteq> SPSC_POLICY_OVERWRITE" and ok: "spsc_ok s (sp_buf s)"
    using assms(1) by (simp_all add: spsc_ready_def)
  obtain t e where acc: "spsc_accept (sp_policy s) (unat (sp_cap s) - length (spsc_bytes s)) (length xs) = (t, e)"
    by fastforce
  have "t \<le> length xs" "e = 0" using spsc_accept_bound [OF acc pol] by simp_all
  then show ?thesis using spsc_put_step [OF ok assms(2) _ acc] pol by (auto simp: spsc_ready_def)
qed

lemma spsc_get_step:
  assumes ok: "spsc_ok s (sp_buf s)" and n: "n < 2 ^ 64"
  shows "\<exists>s'. spsc_get s n = Some (s', take n (spsc_bytes s)) \<and> spsc_ok s' (sp_buf s') \<and> sp_cap s' = sp_cap s
    \<and> sp_policy s' = sp_policy s \<and> spsc_bytes s' = drop n (spsc_bytes s)"
proof -
  let ?q = "spsc_bytes s" and ?k = "min n (length (spsc_bytes s))"
  have un: "unat (of_nat n :: usz) = n" using n by (rule unat_of_nat_usz)
  then have "unat (of_nat n :: usz) \<le> length (replicate n (0 :: u8))" by simp
  from spsc_read_buf_refines [OF ok this] un obtain s' where
    r: "spsc_read_buf s (sp_buf s) (replicate n 0) (of_nat n) = Some (s', take ?k ?q @ drop ?k (replicate n 0), of_nat ?k)"
    and f: "spsc_ok s' (sp_buf s)" "sp_cap s' = sp_cap s" "sp_policy s' = sp_policy s" "sp_buf s' = sp_buf s"
      "spsc_queue s' (sp_buf s) = drop ?k ?q"
    by (auto simp: spsc_bytes_def)
  have um: "unat (of_nat ?k :: usz) = ?k" using n by (intro unat_of_nat_usz) simp
  have "take ?k ?q = take n ?q" "drop ?k ?q = drop n ?q" by (cases "n \<le> length ?q"; simp)+
  then show ?thesis using r f um by (simp add: spsc_get_def spsc_read_def) (simp add: spsc_bytes_def)
qed

lemma spsc_get_law:
  assumes "spsc_ready s" and "n < 2 ^ 64"
  shows "\<exists>s' ys. spsc_get s n = Some (s', ys) \<and> spsc_ready s' \<and> length ys \<le> n
    \<and> spsc_bytes s = ys @ spsc_bytes s'"
  using spsc_get_step [of s n] assms by (auto simp: spsc_ready_def)

interpretation spsc_fifo: byte_fifo spsc_ready spsc_bytes spsc_put spsc_get
    "\<lambda>xs. length xs < 2 ^ 64" "\<lambda>n. n < 2 ^ 64"
  by unfold_locales (blast intro: spsc_put_law spsc_get_law)+

lemma spsc_init_ready:
  assumes "IS_POWER_OF_2 cap" "unat cap \<le> length buf" "policy \<noteq> SPSC_POLICY_OVERWRITE"
    and "spsc_init s buf cap policy = (s', ret)"
  shows "ret = 0" and "spsc_ready s'" and "spsc_bytes s' = []"
  using assms
  by (auto simp: spsc_init_def spsc_init_buf_def spsc_ready_def spsc_ok_def spsc_avail_def
      spsc_bytes_def spsc_queue_def)


subsection \<open>Runs of a ring under every policy\<close>

text \<open>
  The specification of a whole run: a queue of at most \<open>cap\<close> bytes on which a write drops
  and stores what \<open>spsc_accept\<close> says and a read takes the oldest bytes. The result is what is
  left, what was accepted and what was read.
\<close>

fun byte_queue_run :: "spsc_policy_e \<Rightarrow> nat \<Rightarrow> u8 list \<Rightarrow> fifo_op list \<Rightarrow> u8 list \<times> u8 list \<times> u8 list" where
  "byte_queue_run p cap q [] = (q, [], [])"
| "byte_queue_run p cap q (Put xs # ops) =
     (let (t, e) = spsc_accept p (cap - length q) (length xs);
          (q', ins, outs) = byte_queue_run p cap (drop e q @ take t xs) ops
      in (q', take t xs @ ins, outs))"
| "byte_queue_run p cap q (Get n # ops) =
     (let (q', ins, outs) = byte_queue_run p cap (drop n q) ops in (q', ins, take n q @ outs))"

text \<open>The calls a policy allows: the overwriting one must not be asked for more than the capacity.\<close>

definition spsc_ops_ok :: "spsc_policy_e \<Rightarrow> nat \<Rightarrow> fifo_op list \<Rightarrow> bool" where
  "spsc_ops_ok p cap ops \<longleftrightarrow>
     fifo_ops_ok (\<lambda>xs. length xs < 2 ^ 64 \<and> (p = SPSC_POLICY_OVERWRITE \<longrightarrow> length xs \<le> cap)) (\<lambda>n. n < 2 ^ 64) ops"

lemma spsc_run_refines:
  assumes "spsc_ok s (sp_buf s)" "spsc_ops_ok (sp_policy s) (unat (sp_cap s)) ops"
    and "byte_queue_run (sp_policy s) (unat (sp_cap s)) (spsc_bytes s) ops = (q, ins, outs)"
  shows "\<exists>s'. fifo_run spsc_put spsc_get s ops = Some (s', ins, outs) \<and> spsc_bytes s' = q"
  using assms
proof (induction ops arbitrary: s q ins outs)
  case Nil
  then show ?case by simp
next
  case (Cons a ops)
  show ?case
  proof (cases a)
    case (Put xs)
    obtain t e where acc: "spsc_accept (sp_policy s) (unat (sp_cap s) - length (spsc_bytes s)) (length xs) = (t, e)"
      by fastforce
    obtain s1 where s1: "spsc_put s xs = Some (s1, t)" "spsc_ok s1 (sp_buf s1)" "sp_cap s1 = sp_cap s"
        "sp_policy s1 = sp_policy s" "spsc_bytes s1 = drop e (spsc_bytes s) @ take t xs"
      using spsc_put_step [OF Cons.prems(1) _ _ acc] Cons.prems(2) Put by (auto simp: spsc_ops_ok_def)
    obtain ins' where "byte_queue_run (sp_policy s1) (unat (sp_cap s1)) (spsc_bytes s1) ops = (q, ins', outs)" "ins = take t xs @ ins'"
      using Cons.prems(3) acc Put s1 by (auto simp: Let_def split: prod.splits)
    then show ?thesis using Cons.IH [OF s1(2), of q ins' outs] Cons.prems(2) s1 Put by (auto simp: spsc_ops_ok_def)
  next
    case (Get n)
    obtain s1 where s1: "spsc_get s n = Some (s1, take n (spsc_bytes s))" "spsc_ok s1 (sp_buf s1)" "sp_cap s1 = sp_cap s"
        "sp_policy s1 = sp_policy s" "spsc_bytes s1 = drop n (spsc_bytes s)"
      using spsc_get_step [OF Cons.prems(1)] Cons.prems(2) Get by (auto simp: spsc_ops_ok_def)
    obtain outs' where "byte_queue_run (sp_policy s1) (unat (sp_cap s1)) (spsc_bytes s1) ops = (q, ins, outs')"
        "outs = take n (spsc_bytes s) @ outs'"
      using Cons.prems(3) Get s1 by (auto split: prod.splits)
    then show ?thesis using Cons.IH [OF s1(2), of q ins outs'] Cons.prems(2) s1 Get by (auto simp: spsc_ops_ok_def)
  qed
qed

text \<open>What a run of the specification delivers and keeps is, in order, part of what it held and accepted.\<close>

lemma byte_queue_run_subseq: "byte_queue_run p cap q ops = (q', ins, outs) \<Longrightarrow> subseq (outs @ q') (q @ ins)"
proof (induction p cap q ops arbitrary: q' ins outs rule: byte_queue_run.induct)
  case (2 p cap q xs ops)
  obtain t e where acc: "spsc_accept p (cap - length q) (length xs) = (t, e)" by fastforce
  obtain ins' where r: "byte_queue_run p cap (drop e q @ take t xs) ops = (q', ins', outs)" "ins = take t xs @ ins'"
    using 2(2) acc by (auto simp: Let_def split: prod.splits)
  have "subseq (outs @ q') ((drop e q @ take t xs) @ ins')" using 2(1) [OF acc [symmetric] refl r(1)] .
  moreover have "subseq (drop e q) q" by (rule suffix_imp_subseq [OF suffix_drop])
  then have "subseq (drop e q @ ins) (q @ ins)" by (simp add: list_emb_append_mono)
  ultimately show ?case using r(2) by (auto intro: subseq_order.trans)
next
  case (3 p cap q n ops)
  obtain outs' where r: "byte_queue_run p cap (drop n q) ops = (q', ins, outs')" "outs = take n q @ outs'"
    using 3(2) by (auto split: prod.splits)
  have "subseq (take n q @ (outs' @ q')) (take n q @ (drop n q @ ins))"
    by (rule list_emb_append_mono [OF subseq_order.order_refl 3(1) [OF r(1)]])
  then show ?case unfolding r(2) by (metis append.assoc append_take_drop_id)
qed simp

lemma spsc_init_ok:
  assumes "IS_POWER_OF_2 cap" "unat cap \<le> length buf" "spsc_init s buf cap policy = (s', ret)"
  shows "ret = 0" "spsc_ok s' (sp_buf s')" "sp_cap s' = cap" "sp_policy s' = policy" "spsc_bytes s' = []"
  using assms by (auto simp: spsc_init_def spsc_init_buf_def spsc_ok_def spsc_avail_def spsc_bytes_def spsc_queue_def)

subsection \<open>Properties\<close>

text \<open>\<open>spsc_write\<close> implements a bounded byte queue under each policy: it never leaves the
  buffer, stores the accepted prefix of the request behind what was there, drops exactly the
  oldest bytes the overwriting policy has to make room for, and returns the accepted size.\<close>

theorem spsc_write_refines:
  assumes "spsc_ok s (sp_buf s)" and "unat sz \<le> length src"
    and "sp_policy s = SPSC_POLICY_OVERWRITE \<Longrightarrow> sz \<le> sp_cap s"
    and "spsc_accept (sp_policy s) (unat (spsc_free s)) (unat sz) = (taken, evicted)"
  shows "\<exists>s' n. spsc_write s src sz = Some (s', n) \<and> unat n = taken \<and> spsc_ok s' (sp_buf s')
    \<and> spsc_bytes s' = drop evicted (spsc_bytes s) @ take taken src"
proof -
  obtain s' buf' n where "spsc_write_buf s (sp_buf s) src sz = Some (s', buf', n)" "unat n = taken"
    "spsc_ok s' buf'" "spsc_queue s' buf' = drop evicted (spsc_queue s (sp_buf s)) @ take taken src"
    using spsc_write_buf_refines [OF assms] by blast
  then show ?thesis by (simp add: spsc_write_def spsc_bytes_def)
qed

theorem spsc_write_refines_witness:
  "\<exists>s' n. spsc_write \<lparr>sp_policy = SPSC_POLICY_OVERWRITE, sp_buf = [1, 2, 3, 4], sp_cap = 4,
       sp_wp = 3, sp_rp = 0\<rparr> [7, 8, 9] 3 = Some (s', n) \<and> unat n = 3 \<and> spsc_bytes s' = [3, 7, 8, 9]"
proof -
  let ?s = "\<lparr>sp_policy = SPSC_POLICY_OVERWRITE, sp_buf = [1, 2, 3, 4], sp_cap = 4, sp_wp = 3, sp_rp = 0\<rparr> :: spsc_t"
  have ok: "spsc_ok ?s (sp_buf ?s)" by (simp add: spsc_ok_def IS_POWER_OF_2_def spsc_avail_def)
  have q: "spsc_bytes ?s = [1, 2, 3]"
    by code_simp
  show ?thesis
    using spsc_write_refines [of ?s 3 "[7, 8, 9]" 3 2, OF ok] q
    by (simp add: spsc_free_def spsc_avail_def) auto
qed

text \<open>\<open>spsc_read\<close> hands out the oldest bytes, as many as asked for and available, writes
  nothing else of the destination, and leaves the rest of the queue.\<close>

theorem spsc_read_refines:
  assumes "spsc_ok s (sp_buf s)" and "unat sz \<le> length dst"
  shows "\<exists>s' n. spsc_read s dst sz = Some (s', take n (spsc_bytes s) @ drop n dst, of_nat n)
    \<and> n = min (unat sz) (length (spsc_bytes s)) \<and> spsc_ok s' (sp_buf s')
    \<and> spsc_bytes s' = drop n (spsc_bytes s)"
proof -
  obtain s' n where "spsc_read_buf s (sp_buf s) dst sz
      = Some (s', take n (spsc_queue s (sp_buf s)) @ drop n dst, of_nat n)"
    "n = min (unat sz) (length (spsc_queue s (sp_buf s)))" "spsc_ok s' (sp_buf s)" "sp_buf s' = sp_buf s"
    "spsc_queue s' (sp_buf s) = drop n (spsc_queue s (sp_buf s))"
    using spsc_read_buf_refines [OF assms] by blast
  then show ?thesis unfolding spsc_read_def spsc_bytes_def
    by (intro exI [of _ s'] exI [of _ n]) simp
qed

theorem spsc_read_refines_witness:
  "\<exists>s'. spsc_read \<lparr>sp_policy = SPSC_POLICY_REJECT, sp_buf = [1, 2, 3, 4], sp_cap = 4,
       sp_wp = 6, sp_rp = 3\<rparr> [0, 0, 0] 2 = Some (s', [4, 1, 0], 2) \<and> spsc_bytes s' = [2]"
proof -
  let ?s = "\<lparr>sp_policy = SPSC_POLICY_REJECT, sp_buf = [1, 2, 3, 4], sp_cap = 4, sp_wp = 6, sp_rp = 3\<rparr> :: spsc_t"
  have ok: "spsc_ok ?s (sp_buf ?s)" by (simp add: spsc_ok_def IS_POWER_OF_2_def spsc_avail_def)
  have q: "spsc_bytes ?s = [4, 1, 2]"
    by code_simp
  show ?thesis
    using spsc_read_refines [of ?s 2 "[0, 0, 0]", OF ok] q by auto
qed

text \<open>C13: any sequence of writes and reads on a freshly initialised ring is defined and gives what a
  queue of \<open>cap\<close> bytes with the ring's policy gives: the bytes accepted, the bytes read and
  the bytes left. Truncating or rejecting, what was read followed by what is left is exactly
  what was accepted, in order; overwriting, it is part of it, in order. The one condition is that
  a request under the overwriting policy is no longer than the buffer; a longer one can leave it.\<close>

theorem spsc_run_in_order:
  assumes "IS_POWER_OF_2 cap" and "unat cap \<le> length buf"
    and "spsc_init s0 buf cap policy = (s, ret)" and "spsc_ops_ok policy (unat cap) ops"
  shows "\<exists>s' q ins outs. fifo_run spsc_put spsc_get s ops = Some (s', ins, outs)
    \<and> byte_queue_run policy (unat cap) [] ops = (q, ins, outs) \<and> spsc_bytes s' = q
    \<and> subseq (outs @ q) ins \<and> (policy \<noteq> SPSC_POLICY_OVERWRITE \<longrightarrow> ins = outs @ q)"
proof -
  note i = spsc_init_ok [OF assms(1-3)]
  obtain q ins outs where r: "byte_queue_run policy (unat cap) [] ops = (q, ins, outs)" by (metis prod_cases3)
  obtain s' where s': "fifo_run spsc_put spsc_get s ops = Some (s', ins, outs)" "spsc_bytes s' = q"
    using spsc_run_refines [of s ops q ins outs] i assms(4) r by auto
  have "ins = outs @ q" if p: "policy \<noteq> SPSC_POLICY_OVERWRITE"
  proof -
    have "spsc_ready s" using i p by (simp add: spsc_ready_def)
    moreover have "fifo_ops_ok (\<lambda>xs. length xs < 2 ^ 64) (\<lambda>n. n < 2 ^ 64) ops" using assms(4) p by (simp add: spsc_ops_ok_def)
    ultimately show ?thesis using spsc_fifo.run_fifo [of s ops] s' i(5) by auto
  qed
  then show ?thesis using s' r byte_queue_run_subseq [OF r] by auto
qed

theorem spsc_run_in_order_witness:
  "(\<exists>s'. fifo_run spsc_put spsc_get
       (fst (spsc_init \<lparr>sp_policy = SPSC_POLICY_REJECT, sp_buf = [], sp_cap = 0, sp_wp = 0, sp_rp = 0\<rparr>
         [0, 0] 2 SPSC_POLICY_TRUNCATE)) [Put [5, 6, 7], Get 1, Put [8]] = Some (s', [5, 6, 8], [5]) \<and> spsc_bytes s' = [6, 8]) \<and>
   (\<exists>s'. fifo_run spsc_put spsc_get
       (fst (spsc_init \<lparr>sp_policy = SPSC_POLICY_REJECT, sp_buf = [], sp_cap = 0, sp_wp = 0, sp_rp = 0\<rparr>
         [0, 0] 2 SPSC_POLICY_OVERWRITE)) [Put [5, 6], Put [7], Get 1] = Some (s', [5, 6, 7], [6]) \<and> spsc_bytes s' = [7])"
proof -
  let ?s = "\<lparr>sp_policy = SPSC_POLICY_REJECT, sp_buf = [], sp_cap = 0, sp_wp = 0, sp_rp = 0\<rparr> :: spsc_t"
  have c: "IS_POWER_OF_2 2" "unat (2 :: usz) \<le> length [0 :: u8, 0]" by (simp_all add: IS_POWER_OF_2_def)
  have k: "spsc_ops_ok SPSC_POLICY_TRUNCATE (unat (2 :: usz)) [Put [5, 6, 7], Get 1, Put [8]]"
    "spsc_ops_ok SPSC_POLICY_OVERWRITE (unat (2 :: usz)) [Put [5, 6], Put [7], Get 1]" by (simp_all add: spsc_ops_ok_def)
  have r: "byte_queue_run SPSC_POLICY_TRUNCATE (unat (2 :: usz)) [] [Put [5, 6, 7], Get 1, Put [8]] = ([6, 8], [5, 6, 8], [5])"
    "byte_queue_run SPSC_POLICY_OVERWRITE (unat (2 :: usz)) [] [Put [5, 6], Put [7], Get 1] = ([7], [5, 6, 7], [6])" by code_simp+
  show ?thesis
    using spsc_run_in_order [OF c, of ?s SPSC_POLICY_TRUNCATE, OF surjective_pairing k(1)]
      spsc_run_in_order [OF c, of ?s SPSC_POLICY_OVERWRITE, OF surjective_pairing k(2)] r by auto
qed

text \<open>the overwriting policy does not bound a request by the capacity: a write longer than
  what is left of this lap plus one more lap runs past the end of the buffer.\<close>

theorem spsc_overwrite_leaves_buffer:
  assumes "spsc_ok s (sp_buf s)" and "sp_policy s = SPSC_POLICY_OVERWRITE"
    and "length (sp_buf s) = unat (sp_cap s)"
    and "2 * unat (sp_cap s) < unat sz + unat (sp_wp s) mod unat (sp_cap s)"
  shows "spsc_write s src sz = None"
  using spsc_write_overflow [OF assms] by (simp add: spsc_write_def)

theorem spsc_overwrite_leaves_buffer_witness:
  "spsc_write \<lparr>sp_policy = SPSC_POLICY_OVERWRITE, sp_buf = [1, 2], sp_cap = 2, sp_wp = 1, sp_rp = 0\<rparr>
     [1, 2, 3, 4] 4 = None"
  by (rule spsc_overwrite_leaves_buffer)
    (simp_all add: spsc_ok_def IS_POWER_OF_2_def spsc_avail_def)

end
