(* ===== verification/Spsc_Conc.thy ===== *)
theory Spsc_Conc
  imports Spsc_Ring
begin

section \<open>Producer and consumer of the ring, interleaved (ds/spsc.h)\<close>

text \<open>
  One thread runs \<open>spsc_write_buf\<close>, one runs \<open>spsc_read_buf\<close>, on one ring. A step is one
  access to shared memory: a load of a counter, one byte of a \<open>memcpy\<close>, or the store that
  publishes a counter. The atomics of the code are acquire/release pairs on \<open>wp\<close> and \<open>rp\<close>;
  the model interleaves sequentially consistent steps.

  The ghost fields \<open>sent\<close> and \<open>rcvd\<close> record the bytes published by finished writes and
  handed over by finished reads; no step reads them.
\<close>

datatype wpc =
    WIdle
  | WLoad "u8 list" usz usz
  | WCopy "u8 list" usz usz nat

datatype rpc =
    RIdle
  | RLoad usz usz
  | RCopy usz usz nat "u8 list"

record conc =
  ring :: spsc_t
  mem :: "u8 list"
  wpc :: wpc
  rpc :: rpc
  sent :: "u8 list"
  rcvd :: "u8 list"

text \<open>The buffer position of byte \<open>i\<close> of a copy that starts at counter value \<open>w\<close>.\<close>

definition copy_pos :: "usz \<Rightarrow> usz \<Rightarrow> usz \<Rightarrow> nat \<Rightarrow> nat" where
  "copy_pos cap w n i =
     (let off = unat (w AND (cap - 1)); first = unat (min n (cap - (w AND (cap - 1))))
      in if i < first then off + i else i - first)"

inductive spsc_step :: "conc \<Rightarrow> conc \<Rightarrow> bool" where
  w_load_wp: "wpc c = WIdle \<Longrightarrow> unat n \<le> length src \<Longrightarrow>
     spsc_step c (c\<lparr>wpc := WLoad src n (sp_wp (ring c))\<rparr>)"
| w_load_rp: "wpc c = WLoad src n w \<Longrightarrow>
     spsc_policy (ring c) w (sp_rp (ring c)) n = (s', m) \<Longrightarrow>
     spsc_step c (c\<lparr>ring := s', wpc := (if m = 0 then WIdle else WCopy src w m 0)\<rparr>)"
| w_copy: "wpc c = WCopy src w m i \<Longrightarrow> i < unat m \<Longrightarrow>
     copy_pos (sp_cap (ring c)) w m i < length (mem c) \<Longrightarrow>
     spsc_step c (c\<lparr>mem := (mem c)[copy_pos (sp_cap (ring c)) w m i := src ! i],
                    wpc := WCopy src w m (Suc i)\<rparr>)"
| w_store: "wpc c = WCopy src w m i \<Longrightarrow> i = unat m \<Longrightarrow>
     spsc_step c (c\<lparr>ring := (ring c)\<lparr>sp_wp := w + m\<rparr>, wpc := WIdle,
                    sent := sent c @ take (unat m) src\<rparr>)"
| r_load_rp: "rpc c = RIdle \<Longrightarrow>
     spsc_step c (c\<lparr>rpc := RLoad n (sp_rp (ring c))\<rparr>)"
| r_load_wp: "rpc c = RLoad n r \<Longrightarrow> avail = sp_wp (ring c) - r \<Longrightarrow>
     m = (if avail < n then avail else n) \<Longrightarrow>
     spsc_step c (c\<lparr>rpc := (if m = 0 then RIdle else RCopy r m 0 [])\<rparr>)"
| r_copy: "rpc c = RCopy r m i acc \<Longrightarrow> i < unat m \<Longrightarrow>
     copy_pos (sp_cap (ring c)) r m i < length (mem c) \<Longrightarrow>
     spsc_step c (c\<lparr>rpc := RCopy r m (Suc i) (acc @ [mem c ! copy_pos (sp_cap (ring c)) r m i])\<rparr>)"
| r_store: "rpc c = RCopy r m i acc \<Longrightarrow> i = unat m \<Longrightarrow>
     spsc_step c (c\<lparr>ring := (ring c)\<lparr>sp_rp := r + m\<rparr>, rpc := RIdle, rcvd := rcvd c @ acc\<rparr>)"

definition conc_init :: "spsc_t \<Rightarrow> u8 list \<Rightarrow> conc" where
  "conc_init s buf = \<lparr>ring = s, mem = buf, wpc = WIdle, rpc = RIdle, sent = [], rcvd = []\<rparr>"

inductive spsc_reach :: "spsc_t \<Rightarrow> u8 list \<Rightarrow> conc \<Rightarrow> bool" for s buf where
  reach_init: "spsc_reach s buf (conc_init s buf)"
| reach_step: "spsc_reach s buf c \<Longrightarrow> spsc_step c c' \<Longrightarrow> spsc_reach s buf c'"

inductive_cases spsc_step_elim: "spsc_step c c'"

subsection \<open>The invariant\<close>

fun wpc_inv :: "nat \<Rightarrow> nat \<Rightarrow> nat \<Rightarrow> u8 list \<Rightarrow> wpc \<Rightarrow> bool" where
  "wpc_inv c W R m WIdle = True"
| "wpc_inv c W R m (WLoad src n w) = (w = of_nat W \<and> unat n \<le> length src)"
| "wpc_inv c W R m (WCopy src w n i) =
     (w = of_nat W \<and> unat n \<le> length src \<and> i \<le> unat n \<and> W + unat n \<le> R + c
      \<and> (\<forall>j<i. m ! ((W + j) mod c) = src ! j))"

fun rpc_inv :: "nat \<Rightarrow> nat \<Rightarrow> u8 list \<Rightarrow> rpc \<Rightarrow> bool" where
  "rpc_inv W R snt RIdle = True"
| "rpc_inv W R snt (RLoad n r) = (r = of_nat R)"
| "rpc_inv W R snt (RCopy r n i acc) =
     (r = of_nat R \<and> R + unat n \<le> W \<and> i \<le> unat n \<and> acc = take i (drop R snt))"

definition conc_inv :: "conc \<Rightarrow> bool" where
  "conc_inv c \<longleftrightarrow>
     (let s = ring c; cap = unat (sp_cap s); W = length (sent c); R = length (rcvd c) in
       IS_POWER_OF_2 (sp_cap s) \<and> cap \<le> length (mem c) \<and> sp_policy s \<noteq> SPSC_POLICY_OVERWRITE
       \<and> sp_wp s = of_nat W \<and> sp_rp s = of_nat R \<and> R \<le> W \<and> W \<le> R + cap
       \<and> rcvd c = take R (sent c)
       \<and> (\<forall>i. R \<le> i \<longrightarrow> i < W \<longrightarrow> mem c ! (i mod cap) = sent c ! i)
       \<and> wpc_inv cap W R (mem c) (wpc c) \<and> rpc_inv W R (sent c) (rpc c))"

lemma copy_pos_mod:
  assumes "IS_POWER_OF_2 cap" "unat n \<le> unat cap" "i < unat n"
  shows "copy_pos cap (of_nat W) n i = (W + i) mod unat cap"
    and "copy_pos cap (of_nat W) n i < unat cap"
proof -
  obtain k where k: "unat cap = 2 ^ k" using assms(1) by (auto simp: IS_POWER_OF_2_iff)
  let ?off = "of_nat W AND (cap - 1)"
  have "unat (of_nat W :: usz) mod unat cap = W mod unat cap"
    using pow2_dvd_usz [OF k] by (simp add: unat_of_nat mod_mod_cancel)
  then have off: "unat ?off = W mod unat cap" by (simp add: unat_and_pow2_mask [OF k])
  have lt: "unat ?off < unat cap" using off k by simp
  then have "unat (cap - ?off) = unat cap - unat ?off"
    by (intro unat_sub) (simp add: word_le_nat_alt)
  then have f: "unat (min n (cap - ?off)) = min (unat n) (unat cap - unat ?off)"
    by (simp add: min_def word_le_nat_alt)
  have "(W + i) mod unat cap = (unat ?off + i) mod unat cap"
    by (simp add: off mod_add_left_eq)
  also have "\<dots> = (if unat ?off + i < unat cap then unat ?off + i else unat ?off + i - unat cap)"
    using lt assms by (intro mod_off) auto
  finally show "copy_pos cap (of_nat W) n i = (W + i) mod unat cap"
    unfolding copy_pos_def Let_def f using assms lt by auto
  then show "copy_pos cap (of_nat W) n i < unat cap" using k by simp
qed

lemma conc_inv_init:
  assumes "spsc_init s0 buf cap policy = (s, 0)" "unat cap \<le> length buf"
    and "policy \<noteq> SPSC_POLICY_OVERWRITE"
  shows "conc_inv (conc_init s buf)"
  using assms
  by (auto simp: spsc_init_def spsc_init_buf_def conc_inv_def conc_init_def split: if_splits)


subsection \<open>Every step keeps the invariant\<close>

lemma conc_free:
  fixes W R :: nat
  assumes "R \<le> W" "W \<le> R + unat (cap :: usz)"
  shows "unat (of_nat W - of_nat R :: usz) = W - R"
    and "unat (cap - (of_nat W - of_nat R)) = unat cap - (W - R)"
proof -
  have "unat cap < 2 ^ 64" using unsigned_less [of cap] by simp
  then have "W - R < 2 ^ 64" using assms by linarith
  moreover have "of_nat W - of_nat R = (of_nat (W - R) :: usz)" using assms by simp
  ultimately show 1: "unat (of_nat W - of_nat R :: usz) = W - R" by (simp add: unat_of_nat)
  have "of_nat W - of_nat R \<le> cap" using assms unfolding word_le_nat_alt 1 by linarith
  then show "unat (cap - (of_nat W - of_nat R)) = unat cap - (W - R)"
    by (simp add: unat_sub 1)
qed

lemma ring_upd_keeps:
  fixes R W i c :: nat
  assumes "R \<le> i" "i < W" "R \<le> W" "W + j < R + c" "c \<le> length m"
  shows "m[(W + j) mod c := x] ! (i mod c) = m ! (i mod c)"
proof -
  have "(0 + i) mod c \<noteq> (0 + (W + j)) mod c"
  proof
    assume "(0 + i) mod c = (0 + (W + j)) mod c"
    then have "i = W + j" using assms by (rule_tac ring_pos_inj [of 0 i c]) auto
    then show False using assms by simp
  qed
  then show ?thesis by simp
qed

lemma wcopy_keeps:
  fixes W j i c :: nat
  assumes "j < i" "W + i < R + c" "R \<le> W" "c \<le> length m"
  shows "m[(W + i) mod c := x] ! ((W + j) mod c) = m ! ((W + j) mod c)"
proof -
  have "(W + j) mod c \<noteq> (W + i) mod c"
  proof
    assume "(W + j) mod c = (W + i) mod c"
    then have "j = i" using assms by (rule_tac ring_pos_inj [of W j c]) auto
    then show False using assms by simp
  qed
  then show ?thesis by simp
qed

lemma policy_keeps:
  assumes "spsc_policy s w r n = (s', m)" "sp_policy s \<noteq> SPSC_POLICY_OVERWRITE"
  shows "s' = s" and "m \<le> n" and "m \<le> sp_cap s - (w - r)"
  using assms
  by (auto simp: spsc_policy_def Let_def split: if_splits spsc_policy_e.splits)

lemma inv_w_load_rp:
  assumes inv: "conc_inv c" and pc: "wpc c = WLoad src n w"
    and pol: "spsc_policy (ring c) w (sp_rp (ring c)) n = (s', m)"
  shows "conc_inv (c\<lparr>ring := s', wpc := (if m = 0 then WIdle else WCopy src w m 0)\<rparr>)"
proof -
  let ?W = "length (sent c)" and ?R = "length (rcvd c)" and ?c = "sp_cap (ring c)"
  have i: "w = of_nat ?W" "sp_rp (ring c) = of_nat ?R" "?R \<le> ?W" "?W \<le> ?R + unat ?c"
    "sp_policy (ring c) \<noteq> SPSC_POLICY_OVERWRITE" "unat n \<le> length src"
    using inv pc by (auto simp: conc_inv_def Let_def)
  note k = policy_keeps [OF pol i(5)]
  have "m \<le> ?c - (of_nat ?W - of_nat ?R)" using k(3) i by simp
  then have "unat m \<le> unat ?c - (?W - ?R)" using conc_free(2) [OF i(3,4)] by (simp add: word_le_nat_alt)
  then have "?W + unat m \<le> ?R + unat ?c" using i by linarith
  moreover have "unat m \<le> length src" using k(2) i by (simp add: word_le_nat_alt)
  ultimately show ?thesis using inv i(1) unfolding k(1) by (simp add: conc_inv_def Let_def)
qed

lemma inv_w_copy:
  assumes inv: "conc_inv c" and pc: "wpc c = WCopy src w m i" and lt: "i < unat m"
  shows "conc_inv (c\<lparr>mem := (mem c)[copy_pos (sp_cap (ring c)) w m i := src ! i],
                     wpc := WCopy src w m (Suc i)\<rparr>)"
proof -
  let ?W = "length (sent c)" and ?R = "length (rcvd c)" and ?c = "unat (sp_cap (ring c))"
  have b: "w = of_nat ?W" "?R \<le> ?W" "?c \<le> length (mem c)" "IS_POWER_OF_2 (sp_cap (ring c))"
    "?W + unat m \<le> ?R + ?c" "unat m \<le> length src" "\<forall>j<i. mem c ! ((?W + j) mod ?c) = src ! j"
    "\<forall>i. ?R \<le> i \<longrightarrow> i < ?W \<longrightarrow> mem c ! (i mod ?c) = sent c ! i"
    using inv pc by (auto simp: conc_inv_def Let_def)
  have mc: "unat m \<le> ?c" using b(2,5) by linarith
  have pos: "copy_pos (sp_cap (ring c)) w m i = (?W + i) mod ?c" "(?W + i) mod ?c < length (mem c)"
    using copy_pos_mod [OF b(4) mc lt, of ?W] b(1,3) by auto
  have wi: "?W + i < ?R + ?c" using lt b(5) by linarith
  let ?m = "(mem c)[(?W + i) mod ?c := src ! i]"
  have 1: "\<forall>j. ?R \<le> j \<longrightarrow> j < ?W \<longrightarrow> ?m ! (j mod ?c) = sent c ! j"
    using ring_upd_keeps [OF _ _ b(2) wi b(3)] b(8) by simp
  have 2: "\<forall>j<Suc i. ?m ! ((?W + j) mod ?c) = src ! j"
    using wcopy_keeps [OF _ wi b(2,3)] b(7) pos(2) by (auto simp: less_Suc_eq)
  show ?thesis using inv pc lt 1 2 b unfolding pos(1) by (simp add: conc_inv_def Let_def)
qed

lemma inv_w_store:
  assumes inv: "conc_inv c" and pc: "wpc c = WCopy src w m (unat m)"
  shows "conc_inv (c\<lparr>ring := (ring c)\<lparr>sp_wp := w + m\<rparr>, wpc := WIdle,
                     sent := sent c @ take (unat m) src\<rparr>)"
proof -
  let ?W = "length (sent c)" and ?R = "length (rcvd c)" and ?c = "unat (sp_cap (ring c))"
  let ?snt = "sent c @ take (unat m) src"
  have b: "w = of_nat ?W" "?R \<le> ?W" "?W + unat m \<le> ?R + ?c" "unat m \<le> length src"
    "\<forall>j<unat m. mem c ! ((?W + j) mod ?c) = src ! j"
    "\<forall>i. ?R \<le> i \<longrightarrow> i < ?W \<longrightarrow> mem c ! (i mod ?c) = sent c ! i" "rcvd c = take ?R (sent c)"
    "rpc_inv ?W ?R (sent c) (rpc c)"
    using inv pc by (auto simp: conc_inv_def Let_def)
  have len: "length ?snt = ?W + unat m" using b(4) by simp
  have wp: "w + m = of_nat (length ?snt)" unfolding len using b(1) by simp
  have 1: "\<forall>i. ?R \<le> i \<longrightarrow> i < ?W + unat m \<longrightarrow> mem c ! (i mod ?c) = ?snt ! i"
  proof (intro allI impI)
    fix i assume i: "?R \<le> i" "i < ?W + unat m"
    show "mem c ! (i mod ?c) = ?snt ! i"
    proof (cases "i < ?W")
      case True
      then show ?thesis using b(6) i by (simp add: nth_append)
    next
      case False
      then have "i - ?W < unat m" and e: "?W + (i - ?W) = i" using i by linarith+
      then have "mem c ! ((?W + (i - ?W)) mod ?c) = src ! (i - ?W)" using b(5) by blast
      then have "mem c ! (i mod ?c) = src ! (i - ?W)" unfolding e .
      then show ?thesis using False i b(4) by (simp add: nth_append)
    qed
  qed
  have 2: "rpc_inv (?W + unat m) ?R ?snt (rpc c)" using b(8) by (cases "rpc c") auto
  have 3: "rcvd c = take ?R ?snt" using b(2,7) by simp
  show ?thesis
    using inv b(2,3) wp len 1 2 3 by (simp add: conc_inv_def Let_def del: length_append)
qed

lemma inv_r_load_wp:
  assumes inv: "conc_inv c" and pc: "rpc c = RLoad n r"
    and m: "m = (if sp_wp (ring c) - r < n then sp_wp (ring c) - r else n)"
  shows "conc_inv (c\<lparr>rpc := (if m = 0 then RIdle else RCopy r m 0 [])\<rparr>)"
proof -
  let ?W = "length (sent c)" and ?R = "length (rcvd c)" and ?c = "sp_cap (ring c)"
  have b: "r = of_nat ?R" "sp_wp (ring c) = of_nat ?W" "?R \<le> ?W" "?W \<le> ?R + unat ?c"
    using inv pc by (auto simp: conc_inv_def Let_def)
  have "m \<le> of_nat ?W - of_nat ?R" using m b by auto
  then have "unat m \<le> ?W - ?R" using conc_free(1) [OF b(3,4)] by (simp add: word_le_nat_alt)
  then have "?R + unat m \<le> ?W" using b by linarith
  then show ?thesis using inv b(1) by (simp add: conc_inv_def Let_def)
qed

lemma inv_r_copy:
  assumes inv: "conc_inv c" and pc: "rpc c = RCopy r m i acc" and lt: "i < unat m"
  shows "conc_inv (c\<lparr>rpc := RCopy r m (Suc i) (acc @ [mem c ! copy_pos (sp_cap (ring c)) r m i])\<rparr>)"
proof -
  let ?W = "length (sent c)" and ?R = "length (rcvd c)" and ?c = "unat (sp_cap (ring c))"
  have b: "r = of_nat ?R" "?R + unat m \<le> ?W" "?W \<le> ?R + ?c" "IS_POWER_OF_2 (sp_cap (ring c))"
    "acc = take i (drop ?R (sent c))"
    "\<forall>i. ?R \<le> i \<longrightarrow> i < ?W \<longrightarrow> mem c ! (i mod ?c) = sent c ! i"
    using inv pc by (auto simp: conc_inv_def Let_def)
  have mc: "unat m \<le> ?c" using b(2,3) by linarith
  have "copy_pos (sp_cap (ring c)) r m i = (?R + i) mod ?c"
    using copy_pos_mod(1) [OF b(4) mc lt, of ?R] b(1) by simp
  moreover have "mem c ! ((?R + i) mod ?c) = sent c ! (?R + i)" using b(2,6) lt by simp
  ultimately have "acc @ [mem c ! copy_pos (sp_cap (ring c)) r m i] = take (Suc i) (drop ?R (sent c))"
    using b(2,5) lt by (simp add: take_Suc_conv_app_nth)
  then show ?thesis using inv pc lt by (simp add: conc_inv_def Let_def)
qed

lemma inv_r_store:
  assumes inv: "conc_inv c" and pc: "rpc c = RCopy r m (unat m) acc"
  shows "conc_inv (c\<lparr>ring := (ring c)\<lparr>sp_rp := r + m\<rparr>, rpc := RIdle, rcvd := rcvd c @ acc\<rparr>)"
proof -
  let ?W = "length (sent c)" and ?R = "length (rcvd c)" and ?c = "unat (sp_cap (ring c))"
  have b: "r = of_nat ?R" "?R + unat m \<le> ?W" "?W \<le> ?R + ?c"
    "acc = take (unat m) (drop ?R (sent c))" "rcvd c = take ?R (sent c)"
    "wpc_inv ?c ?W ?R (mem c) (wpc c)"
    using inv pc by (auto simp: conc_inv_def Let_def)
  have len: "length (rcvd c @ acc) = ?R + unat m" using b(2,4) by simp
  have rp: "r + m = of_nat (length (rcvd c @ acc))" unfolding len using b(1) by simp
  have 1: "rcvd c @ acc = take (?R + unat m) (sent c)" using b(4,5) by (metis take_add)
  have 2: "wpc_inv ?c ?W (?R + unat m) (mem c) (wpc c)" using b(6) by (cases "wpc c") auto
  show ?thesis
    using inv b(2,3) rp len 1 2 by (simp add: conc_inv_def Let_def del: length_append)
qed

lemma conc_inv_step: "spsc_step c c' \<Longrightarrow> conc_inv c \<Longrightarrow> conc_inv c'"
proof (induction rule: spsc_step.induct)
  case (w_load_wp c n src)
  then show ?case by (auto simp: conc_inv_def Let_def)
next
  case (w_load_rp c src n w s' m)
  then show ?case by (blast intro: inv_w_load_rp)
next
  case (w_copy c src w m i)
  then show ?case by (blast intro: inv_w_copy)
next
  case (w_store c src w m i)
  then show ?case by (blast intro: inv_w_store)
next
  case (r_load_rp c n)
  then show ?case by (auto simp: conc_inv_def Let_def)
next
  case (r_load_wp c n r avail m)
  then show ?case by (blast intro: inv_r_load_wp)
next
  case (r_copy c r m i acc)
  then show ?case by (blast intro: inv_r_copy)
next
  case (r_store c r m i acc)
  then show ?case by (blast intro: inv_r_store)
qed

lemma conc_reach_inv:
  "spsc_reach s buf c \<Longrightarrow> conc_inv (conc_init s buf) \<Longrightarrow> conc_inv c"
  by (induction rule: spsc_reach.induct) (auto intro: conc_inv_step)


lemma spsc_step_cap: "spsc_step c c' \<Longrightarrow> sp_cap (ring c') = sp_cap (ring c)"
  by (cases rule: spsc_step.cases, assumption)
    (auto simp: spsc_policy_def Let_def split: if_splits spsc_policy_e.splits)

lemma spsc_reach_cap: "spsc_reach s buf c \<Longrightarrow> sp_cap (ring c) = sp_cap s"
  by (induction rule: spsc_reach.induct) (simp_all add: conc_init_def spsc_step_cap)

subsection \<open>Runs by hand\<close>

text \<open>
  A schedule: a thread starts a call or takes its next step. \<open>spsc_next\<close> computes the step,
  so that concrete interleavings can be evaluated.
\<close>

datatype spsc_move = StartWrite "u8 list" | StartRead usz | StepW | StepR

fun next_w :: "conc \<Rightarrow> wpc \<Rightarrow> conc option" where
  "next_w c WIdle = None"
| "next_w c (WLoad src n w) = (let (s', m) = spsc_policy (ring c) w (sp_rp (ring c)) n in
     Some (c\<lparr>ring := s', wpc := (if m = 0 then WIdle else WCopy src w m 0)\<rparr>))"
| "next_w c (WCopy src w m i) =
     (if i = unat m then Some (c\<lparr>ring := (ring c)\<lparr>sp_wp := w + m\<rparr>, wpc := WIdle, sent := sent c @ take (unat m) src\<rparr>)
      else if i < unat m \<and> copy_pos (sp_cap (ring c)) w m i < length (mem c)
      then Some (c\<lparr>mem := (mem c)[copy_pos (sp_cap (ring c)) w m i := src ! i], wpc := WCopy src w m (Suc i)\<rparr>)
      else None)"

fun next_r :: "conc \<Rightarrow> rpc \<Rightarrow> conc option" where
  "next_r c RIdle = None"
| "next_r c (RLoad n r) = (let avail = sp_wp (ring c) - r; m = (if avail < n then avail else n) in
     Some (c\<lparr>rpc := (if m = 0 then RIdle else RCopy r m 0 [])\<rparr>))"
| "next_r c (RCopy r m i acc) =
     (if i = unat m then Some (c\<lparr>ring := (ring c)\<lparr>sp_rp := r + m\<rparr>, rpc := RIdle, rcvd := rcvd c @ acc\<rparr>)
      else if i < unat m \<and> copy_pos (sp_cap (ring c)) r m i < length (mem c)
      then Some (c\<lparr>rpc := RCopy r m (Suc i) (acc @ [mem c ! copy_pos (sp_cap (ring c)) r m i])\<rparr>)
      else None)"

fun spsc_next :: "conc \<Rightarrow> spsc_move \<Rightarrow> conc option" where
  "spsc_next c (StartWrite src) =
     (if wpc c = WIdle then Some (c\<lparr>wpc := WLoad src (of_nat (length src)) (sp_wp (ring c))\<rparr>) else None)"
| "spsc_next c (StartRead n) = (if rpc c = RIdle then Some (c\<lparr>rpc := RLoad n (sp_rp (ring c))\<rparr>) else None)"
| "spsc_next c StepW = next_w c (wpc c)"
| "spsc_next c StepR = next_r c (rpc c)"

fun spsc_moves :: "conc \<Rightarrow> spsc_move list \<Rightarrow> conc option" where
  "spsc_moves c [] = Some c"
| "spsc_moves c (a # as) = do { c' \<leftarrow> spsc_next c a; spsc_moves c' as }"

lemma next_w_step:
  assumes "next_w c pc = Some c'" "wpc c = pc"
  shows "spsc_step c c'"
proof (cases pc)
  case (WLoad src n w)
  obtain s' m where p: "spsc_policy (ring c) w (sp_rp (ring c)) n = (s', m)" by fastforce
  then show ?thesis using w_load_rp [OF _ p, of src] assms WLoad by auto
qed (use assms in \<open>auto split: if_splits intro: w_copy w_store\<close>)

lemma next_r_step:
  assumes "next_r c pc = Some c'" "rpc c = pc"
  shows "spsc_step c c'"
proof (cases pc)
  case (RLoad n r)
  then show ?thesis using r_load_wp [OF _ refl refl, of c n r] assms by (simp add: Let_def)
qed (use assms in \<open>auto split: if_splits intro: r_copy r_store\<close>)

lemma unat_len_le: "unat (of_nat (length xs) :: usz) \<le> length xs"
  by (simp add: unsigned_of_nat take_bit_eq_mod)

lemma spsc_next_step: "spsc_next c a = Some c' \<Longrightarrow> spsc_step c c'"
  by (cases a) (auto simp: next_w_step next_r_step unat_len_le split: if_splits intro: w_load_wp r_load_rp)

lemma spsc_moves_reach: "spsc_moves c as = Some c' \<Longrightarrow> spsc_reach s buf c \<Longrightarrow> spsc_reach s buf c'"
  by (induction as arbitrary: c) (auto split: bind_split_asm dest: spsc_next_step intro: reach_step)

lemma spsc_run_reach: "spsc_moves (conc_init s buf) as = Some c \<Longrightarrow> spsc_reach s buf c"
  by (rule spsc_moves_reach [OF _ reach_init])

text \<open>A ring of two bytes under a policy, as \<open>spsc_init\<close> leaves it.\<close>

definition demo_conc :: "spsc_policy_e \<Rightarrow> spsc_t" where
  "demo_conc p = \<lparr>sp_policy = p, sp_buf = [0, 0], sp_cap = 2, sp_wp = 0, sp_rp = 0\<rparr>"

lemma demo_conc_init:
  "spsc_init \<lparr>sp_policy = SPSC_POLICY_REJECT, sp_buf = [], sp_cap = 0, sp_wp = 0, sp_rp = 0\<rparr> [0, 0] 2 p = (demo_conc p, 0)"
  by (simp add: spsc_init_def spsc_init_buf_def IS_POWER_OF_2_def demo_conc_def)

text \<open>A full ring whose reader has taken its first byte while the writer already waits to store into that place.\<close>

definition demo_moves :: "spsc_move list" where
  "demo_moves = [StartWrite [7, 8], StepW, StepW, StepW, StepW, StartRead 1, StepR, StartWrite [9], StepR, StepR,
     StepW, StepW, StartRead 2, StepR, StepW, StepR]"

subsection \<open>Properties\<close>

text \<open>C3: in every interleaving of one producer and one consumer, from a ring that
  \<open>spsc_init\<close> set up with the truncating or rejecting policy, the bytes handed to the
  consumer are, in order, the first bytes the producer published, and no more than the
  capacity are outstanding. The overwriting policy is excluded: there the producer moves the
  consumer's counter, and \<open>spsc_overwrite_reorders\<close> shows what comes of it.\<close>

theorem spsc_interleaved_fifo:
  assumes "spsc_init s0 buf cap policy = (s, 0)" and "unat cap \<le> length buf"
    and "policy \<noteq> SPSC_POLICY_OVERWRITE" and "spsc_reach s buf c"
  shows "\<exists>rest. sent c = rcvd c @ rest \<and> length rest \<le> unat cap"
proof -
  have "conc_inv c" using assms by (blast intro: conc_reach_inv conc_inv_init)
  then have r: "rcvd c = take (length (rcvd c)) (sent c)"
    and l: "length (sent c) \<le> length (rcvd c) + unat (sp_cap (ring c))"
    by (simp_all add: conc_inv_def Let_def)
  have "sp_cap (ring c) = cap"
    using spsc_reach_cap [OF assms(4)] assms(1)
    by (auto simp: spsc_init_def spsc_init_buf_def split: if_splits)
  moreover have "sent c = rcvd c @ drop (length (rcvd c)) (sent c)"
    using r by (metis append_take_drop_id)
  ultimately show ?thesis using l by (metis length_drop le_diff_conv add.commute)
qed

theorem spsc_interleaved_fifo_witness:
  "\<exists>c. spsc_reach (demo_conc SPSC_POLICY_REJECT) [0, 0] c \<and> wpc c = WIdle \<and> sent c = [7, 8, 9] \<and> rcvd c = [7] \<and>
     (\<exists>m acc. rpc c = RCopy 1 m 1 acc) \<and> (\<exists>rest. sent c = rcvd c @ rest \<and> length rest \<le> unat (2 :: usz))"
proof -
  let ?s = "demo_conc SPSC_POLICY_REJECT"
  obtain c where c: "spsc_moves (conc_init ?s [0, 0]) demo_moves = Some c" "wpc c = WIdle" "sent c = [7, 8, 9]" "rcvd c = [7]"
      "rpc c = RCopy 1 1 1 [8]"
  proof -
    have "(case spsc_moves (conc_init ?s [0, 0]) demo_moves of None \<Rightarrow> False
      | Some c \<Rightarrow> wpc c = WIdle \<and> sent c = [7, 8, 9] \<and> rcvd c = [7] \<and> rpc c = RCopy 1 1 1 [8])" by code_simp
    then show thesis using that by (auto split: option.splits)
  qed
  have r: "spsc_reach ?s [0, 0] c" using c(1) by (rule spsc_run_reach)
  have "\<exists>rest. sent c = rcvd c @ rest \<and> length rest \<le> unat (2 :: usz)"
    using spsc_interleaved_fifo [OF demo_conc_init _ _ r] by simp
  with c r show ?thesis by blast
qed

text \<open>Under the overwriting policy the producer moves the read position while the consumer may be
  reading, and the consumer then stores its own: on a full ring the two bytes a read hands over are
  the newest and the one before it, in the wrong order, and the oldest is lost.\<close>

theorem spsc_overwrite_reorders:
  "\<exists>c. spsc_reach (demo_conc SPSC_POLICY_OVERWRITE) [0, 0] c \<and> sent c = [7, 8, 9] \<and> rcvd c = [9, 8]"
proof -
  let ?as = "[StartWrite [7, 8], StepW, StepW, StepW, StepW, StartRead 2, StepR, StartWrite [9], StepW, StepW, StepW, StepR, StepR, StepR]"
  let ?c = "spsc_moves (conc_init (demo_conc SPSC_POLICY_OVERWRITE) [0, 0]) ?as"
  have "(case ?c of None \<Rightarrow> False | Some c \<Rightarrow> sent c = [7, 8, 9] \<and> rcvd c = [9, 8])" by code_simp
  then obtain c where c: "?c = Some c" "sent c = [7, 8, 9]" "rcvd c = [9, 8]" by (auto split: option.splits)
  then show ?thesis using spsc_run_reach [OF c(1)] by blast
qed

text \<open>in every reachable state a copy step of either thread is inside the buffer, and
  the byte the producer is about to store is never the byte the consumer is about to load.\<close>

theorem spsc_no_data_race:
  assumes "spsc_init s0 buf cap policy = (s, 0)" and "unat cap \<le> length buf"
    and "policy \<noteq> SPSC_POLICY_OVERWRITE" and "spsc_reach s buf c"
    and "wpc c = WCopy src w m i" "i < unat m" and "rpc c = RCopy r n j acc" "j < unat n"
  shows "copy_pos cap w m i < length (mem c) \<and> copy_pos cap r n j < length (mem c)
    \<and> copy_pos cap w m i \<noteq> copy_pos cap r n j"
proof (intro conjI)
  have inv: "conc_inv c" using assms by (blast intro: conc_reach_inv conc_inv_init)
  have cap: "sp_cap (ring c) = cap"
    using spsc_reach_cap [OF assms(4)] assms(1)
    by (auto simp: spsc_init_def spsc_init_buf_def split: if_splits)
  let ?W = "length (sent c)" and ?R = "length (rcvd c)"
  have b: "w = of_nat ?W" "r = of_nat ?R" "?R + unat n \<le> ?W" "?W + unat m \<le> ?R + unat cap"
    "?W \<le> ?R + unat cap" "IS_POWER_OF_2 cap" "unat cap \<le> length (mem c)"
    using inv assms(5,7) by (auto simp: conc_inv_def Let_def cap)
  have mc: "unat m \<le> unat cap" "unat n \<le> unat cap" using b(3-5) by linarith+
  note wp = copy_pos_mod [OF b(6) mc(1) assms(6), of ?W, folded b(1)]
  note rp = copy_pos_mod [OF b(6) mc(2) assms(8), of ?R, folded b(2)]
  show "copy_pos cap w m i < length (mem c)" and "copy_pos cap r n j < length (mem c)"
    using wp(2) rp(2) b(7) by linarith+
  show "copy_pos cap w m i \<noteq> copy_pos cap r n j"
  proof
    assume "copy_pos cap w m i = copy_pos cap r n j"
    then have "(0 + (?W + i)) mod unat cap = (0 + (?R + j)) mod unat cap" using wp(1) rp(1) by simp
    then have "?W + i = ?R + j" using b(3,4) assms(6,8) by (rule_tac ring_pos_inj [of 0 _ "unat cap"]) auto
    then show False using b(3) assms(8) by linarith
  qed
qed


theorem spsc_no_data_race_witness:
  "\<exists>c. spsc_reach (demo_conc SPSC_POLICY_REJECT) [0, 0] c \<and> wpc c = WCopy [8] 1 1 0 \<and> rpc c = RCopy 0 1 0 []
     \<and> copy_pos 2 1 1 0 \<noteq> copy_pos 2 0 1 0"
proof -
  let ?s = "demo_conc SPSC_POLICY_REJECT"
  let ?c = "spsc_moves (conc_init ?s [0, 0]) [StartWrite [7], StepW, StepW, StepW, StartWrite [8], StepW, StartRead 1, StepR]"
  have "(case ?c of None \<Rightarrow> False | Some c \<Rightarrow> wpc c = WCopy [8] 1 1 0 \<and> rpc c = RCopy 0 1 0 [])" by code_simp
  then obtain c where c: "?c = Some c" "wpc c = WCopy [8] 1 1 0" "rpc c = RCopy 0 1 0 []" by (auto split: option.splits)
  have r: "spsc_reach ?s [0, 0] c" using c(1) by (rule spsc_run_reach)
  have "copy_pos 2 1 1 0 \<noteq> copy_pos 2 0 1 0"
    using spsc_no_data_race [OF demo_conc_init _ _ r c(2) _ c(3)] by simp
  with r c show ?thesis by blast
qed

end
