(* ===== verification/Spin_Lock.thy ===== *)
theory Spin_Lock
  imports Ava_Prelude
begin

section \<open>The spin lock (util/macrodef.h)\<close>

text \<open>
  \<open>SPIN_LOCK\<close> and \<open>SPIN_UNLOCK\<close> run by any number of threads on one lock word. A thread that
  wants the lock repeats a weak compare-and-swap, which may fail spuriously, and backs off
  after each failure; the steps of the threads interleave freely. \<open>spin_lock\<close> and
  \<open>spin_unlock\<close> are the same macros for a caller that runs alone, as the sequential models of
  the containers use them.
\<close>

definition SPINLOCK_BACKOFF_MIN :: int where
  "SPINLOCK_BACKOFF_MIN = 4"

definition SPINLOCK_BACKOFF_MAX :: int where
  "SPINLOCK_BACKOFF_MAX = 128"

text \<open>\<open>SPINLOCK_BACKOFF(cnt)\<close> counts \<open>cnt\<close> down to 0 and doubles it below the maximum.\<close>

definition SPINLOCK_BACKOFF :: "int \<Rightarrow> int" where
  "SPINLOCK_BACKOFF cnt = (if cnt < SPINLOCK_BACKOFF_MAX then cnt + cnt else cnt)"

datatype lock_pc = Outside | Trying int | Holding

record lock_sys =
  ls_lock :: u32
  ls_pc :: "nat \<Rightarrow> lock_pc"

inductive lock_step :: "lock_sys \<Rightarrow> lock_sys \<Rightarrow> bool" where
  start: "ls_pc s t = Outside \<Longrightarrow>
    lock_step s (s\<lparr>ls_pc := (ls_pc s)(t := Trying SPINLOCK_BACKOFF_MIN)\<rparr>)"
| cas_ok: "\<lbrakk>ls_pc s t = Trying b; ls_lock s = 0\<rbrakk> \<Longrightarrow>
    lock_step s (s\<lparr>ls_lock := 1, ls_pc := (ls_pc s)(t := Holding)\<rparr>)"
| cas_fail: "\<lbrakk>ls_pc s t = Trying b\<rbrakk> \<Longrightarrow>
    lock_step s (s\<lparr>ls_pc := (ls_pc s)(t := Trying (SPINLOCK_BACKOFF b))\<rparr>)"
| unlock: "ls_pc s t = Holding \<Longrightarrow>
    lock_step s (s\<lparr>ls_lock := 0, ls_pc := (ls_pc s)(t := Outside)\<rparr>)"

inductive lock_reach :: "lock_sys \<Rightarrow> bool" where
  init: "lock_reach \<lparr>ls_lock = 0, ls_pc = (\<lambda>t. Outside)\<rparr>"
| step: "lock_reach s \<Longrightarrow> lock_step s s' \<Longrightarrow> lock_reach s'"

text \<open>The macros for one thread at a time: with the lock taken, the loop does not end.\<close>

definition spin_lock :: "u32 \<Rightarrow> u32 option" where
  "spin_lock l = (if l = 0 then Some 1 else None)"

definition spin_unlock :: "u32 \<Rightarrow> u32" where
  "spin_unlock l = 0"

definition lock_inv :: "lock_sys \<Rightarrow> bool" where
  "lock_inv s \<longleftrightarrow> (ls_lock s = 0) = (\<forall>t. ls_pc s t \<noteq> Holding) \<and>
     (\<forall>t u. ls_pc s t = Holding \<longrightarrow> ls_pc s u = Holding \<longrightarrow> t = u)"

definition backoff_ok :: "int \<Rightarrow> bool" where
  "backoff_ok b \<longleftrightarrow> b \<in> {4, 8, 16, 32, 64, 128}"

lemma backoff_step: "backoff_ok b \<Longrightarrow> backoff_ok (SPINLOCK_BACKOFF b)"
  by (auto simp: backoff_ok_def SPINLOCK_BACKOFF_def SPINLOCK_BACKOFF_MAX_def)

lemma lock_step_inv: "lock_step s s' \<Longrightarrow> lock_inv s \<Longrightarrow> lock_inv s'"
  by (induction rule: lock_step.induct) (auto simp: lock_inv_def; metis lock_pc.distinct)+

lemma lock_step_backoff:
  "lock_step s s' \<Longrightarrow> (\<And>t b. ls_pc s t = Trying b \<Longrightarrow> backoff_ok b) \<Longrightarrow> ls_pc s' t = Trying b \<Longrightarrow> backoff_ok b"
  by (induction arbitrary: t b rule: lock_step.induct)
    (auto simp: backoff_step SPINLOCK_BACKOFF_MIN_def backoff_ok_def [of 4] split: if_splits)

lemma lock_reach_inv: "lock_reach s \<Longrightarrow> lock_inv s"
  by (induction rule: lock_reach.induct) (auto simp: lock_inv_def [of "\<lparr>ls_lock = 0, ls_pc = _\<rparr>"] intro: lock_step_inv)

lemma lock_reach_backoff: "lock_reach s \<Longrightarrow> ls_pc s t = Trying b \<Longrightarrow> backoff_ok b"
proof (induction arbitrary: t b rule: lock_reach.induct)
  case (step s s')
  show ?case using step.prems
    by (rule lock_step_backoff [OF step.hyps(2), rotated]) (rule step.IH)
qed simp

text \<open>C25: In every interleaving of any number of threads at most one thread is between \<open>SPIN_LOCK\<close>
  and \<open>SPIN_UNLOCK\<close>, the lock word says whether one is, a waiting thread whose
  compare-and-swap runs when the word is 0 can enter, and the back-off count of a waiting
  thread never exceeds the maximum.\<close>

theorem spin_lock_mutex:
  assumes "lock_reach s"
  shows "(ls_pc s t = Holding \<longrightarrow> ls_pc s u = Holding \<longrightarrow> t = u) \<and>
    (ls_lock s = 0 \<longleftrightarrow> (\<forall>t. ls_pc s t \<noteq> Holding)) \<and>
    (ls_pc s t = Trying b \<longrightarrow> 0 < b \<and> b \<le> SPINLOCK_BACKOFF_MAX) \<and>
    (ls_pc s t = Trying b \<longrightarrow> ls_lock s = 0 \<longrightarrow>
       (\<exists>s'. lock_step s s' \<and> lock_reach s' \<and> ls_pc s' t = Holding))"
proof -
  have i: "lock_inv s" using lock_reach_inv [OF assms] .
  have "\<exists>s'. lock_step s s' \<and> lock_reach s' \<and> ls_pc s' t = Holding" if "ls_pc s t = Trying b" "ls_lock s = 0"
    using lock_step.cas_ok [OF that] lock_reach.step [OF assms] by fastforce
  then show ?thesis
    using i lock_reach_backoff [OF assms, of t b]
    by (auto simp: lock_inv_def backoff_ok_def SPINLOCK_BACKOFF_MAX_def)
qed

theorem spin_lock_mutex_witness:
  "\<exists>s. lock_reach s \<and> ls_lock s = 1 \<and> ls_pc s 0 = Holding \<and> ls_pc s 1 = Trying 8 \<and>
    (ls_lock s = 0 \<longleftrightarrow> (\<forall>t. ls_pc s t \<noteq> Holding))"
proof -
  let ?s0 = "\<lparr>ls_lock = 0, ls_pc = (\<lambda>t. Outside)\<rparr>"
  let ?s1 = "?s0\<lparr>ls_pc := (ls_pc ?s0)(0 := Trying SPINLOCK_BACKOFF_MIN)\<rparr>"
  let ?s2 = "?s1\<lparr>ls_lock := 1, ls_pc := (ls_pc ?s1)(0 := Holding)\<rparr>"
  let ?s3 = "?s2\<lparr>ls_pc := (ls_pc ?s2)(1 := Trying SPINLOCK_BACKOFF_MIN)\<rparr>"
  let ?s4 = "?s3\<lparr>ls_pc := (ls_pc ?s3)(1 := Trying (SPINLOCK_BACKOFF SPINLOCK_BACKOFF_MIN))\<rparr>"
  have "lock_step ?s0 ?s1" by (rule lock_step.start) simp
  moreover have "lock_step ?s1 ?s2" by (rule lock_step.cas_ok [where b = SPINLOCK_BACKOFF_MIN]) simp_all
  moreover have "lock_step ?s2 ?s3" by (rule lock_step.start) simp
  moreover have "lock_step ?s3 ?s4" by (rule lock_step.cas_fail) simp
  ultimately have r: "lock_reach ?s4" using lock_reach.init lock_reach.step by metis
  have "(ls_lock ?s4 = 0 \<longleftrightarrow> (\<forall>t. ls_pc ?s4 t \<noteq> Holding))" using spin_lock_mutex [OF r] by blast
  then show ?thesis
    by (intro exI [of _ ?s4] conjI) (use r in \<open>simp_all add: SPINLOCK_BACKOFF_def SPINLOCK_BACKOFF_MIN_def SPINLOCK_BACKOFF_MAX_def\<close>)
qed

end
