(* ===== verification/Mpsc.thy ===== *)
theory Mpsc
  imports Ring_Copy Spin_Lock
begin

section \<open>The multi-producer ring (ds/mpsc.h)\<close>

text \<open>
  Producers reserve contiguous regions of a byte buffer, fill them and push them; one consumer
  asks for the bytes that are complete and releases them. The write position carries a lap counter
  and a lock bit above the offset; a record that does not fit behind the offset goes to the start of
  the buffer and the place where the lap ended is kept. The model has the 64-bit masks. Each call is
  one step here, a weak compare-and-swap may fail any number of times; \<open>Mpsc_Atomic\<close> takes the calls apart.
\<close>

subsection \<open>State\<close>

definition MPSC_OFFSET_MASK :: usz where
  "MPSC_OFFSET_MASK = 0x00000000FFFFFFFF"

definition MPSC_WRAP_LOCK_BIT :: usz where
  "MPSC_WRAP_LOCK_BIT = 0x8000000000000000"

definition MPSC_OFFSET_MAX :: usz where
  "MPSC_OFFSET_MAX = 0xFFFFFFFFFFFFFFFF AND NOT MPSC_WRAP_LOCK_BIT"

definition MPSC_WRAP_COUNTER :: usz where
  "MPSC_WRAP_COUNTER = 0x7FFFFFFF00000000"

definition MPSC_WRAP_INCR :: "usz \<Rightarrow> usz" where
  "MPSC_WRAP_INCR x = (x + 0x100000000) AND MPSC_WRAP_COUNTER"

record mpsc_p_t =
  pr_reserve_pos :: usz
  pr_flag :: bool

record mpsc_t =
  mq_buf :: "u8 list"
  mq_cap :: usz
  mq_warp_end :: usz
  mq_wp :: usz
  mq_rp :: usz
  mq_producers :: "mpsc_p_t list"

text \<open>The array of producers is the list; \<open>nproducers\<close> is its length. A producer is its index.\<close>

definition mpsc_p :: "mpsc_t \<Rightarrow> nat \<Rightarrow> mpsc_p_t option" where
  "mpsc_p s i = (if i < length (mq_producers s) then Some (mq_producers s ! i) else None)"

definition mpsc_set_p :: "mpsc_t \<Rightarrow> nat \<Rightarrow> mpsc_p_t \<Rightarrow> mpsc_t option" where
  "mpsc_set_p s i p = (if i < length (mq_producers s) then Some (s\<lparr>mq_producers := (mq_producers s)[i := p]\<rparr>) else None)"

definition mpsc_set_reserve :: "mpsc_t \<Rightarrow> nat \<Rightarrow> usz \<Rightarrow> mpsc_t option" where
  "mpsc_set_reserve s i v = do { p \<leftarrow> mpsc_p s i; mpsc_set_p s i (p\<lparr>pr_reserve_pos := v\<rparr>) }"

subsection \<open>Initialisation and registration\<close>

text \<open>\<open>mpsc_init\<close> leaves the two positions as the memory has them.\<close>

definition mpsc_init :: "mpsc_t \<Rightarrow> u8 list \<Rightarrow> usz \<Rightarrow> mpsc_p_t list \<Rightarrow> mpsc_t" where
  "mpsc_init s buf cap producers =
     s\<lparr>mq_buf := buf, mq_cap := cap, mq_warp_end := MPSC_OFFSET_MAX, mq_producers := producers\<rparr>"

definition mpsc_reg :: "mpsc_t \<Rightarrow> nat \<Rightarrow> mpsc_t option" where
  "mpsc_reg s i = mpsc_set_p s i \<lparr>pr_reserve_pos = MPSC_OFFSET_MAX, pr_flag = True\<rparr>"

definition mpsc_unreg :: "mpsc_t \<Rightarrow> nat \<Rightarrow> mpsc_t option" where
  "mpsc_unreg s i = do { p \<leftarrow> mpsc_p s i; mpsc_set_p s i (p\<lparr>pr_flag := False\<rparr>) }"

text \<open>The two waits for the lock bit. \<open>None\<close> is a wait that the fuel does not see end.\<close>

fun mpsc_get_wp :: "nat \<Rightarrow> int \<Rightarrow> mpsc_t \<Rightarrow> usz option" where
  "mpsc_get_wp 0 cnt s = None"
| "mpsc_get_wp (Suc k) cnt s =
     (if mq_wp s AND MPSC_WRAP_LOCK_BIT \<noteq> 0 then mpsc_get_wp k (SPINLOCK_BACKOFF cnt) s else Some (mq_wp s))"

fun mpsc_get_reserve_pos :: "nat \<Rightarrow> int \<Rightarrow> mpsc_p_t \<Rightarrow> usz option" where
  "mpsc_get_reserve_pos 0 cnt p = None"
| "mpsc_get_reserve_pos (Suc k) cnt p =
     (if pr_reserve_pos p AND MPSC_WRAP_LOCK_BIT \<noteq> 0 then mpsc_get_reserve_pos k (SPINLOCK_BACKOFF cnt) p else Some (pr_reserve_pos p))"

subsection \<open>Producers\<close>

text \<open>One round of the \<open>do\<close> loop: the new state, the offset, and the target unless there is no room.\<close>

definition mpsc_acquire_round :: "mpsc_t \<Rightarrow> nat \<Rightarrow> usz \<Rightarrow> (mpsc_t \<times> usz \<times> usz \<times> usz option) option" where
  "mpsc_acquire_round s p sz = do {
     wp \<leftarrow> mpsc_get_wp 1 SPINLOCK_BACKOFF_MIN s;
     let off = wp AND MPSC_OFFSET_MASK;
     s \<leftarrow> mpsc_set_reserve s p (off OR MPSC_WRAP_LOCK_BIT);
     let target = off + sz;
     let rp = mq_rp s;
     if off < rp \<and> rp \<le> target then do { s \<leftarrow> mpsc_set_reserve s p MPSC_OFFSET_MAX; Some (s, wp, off, None) }
     else if mq_cap s \<le> target
     then (let target = (if mq_cap s < target then MPSC_WRAP_LOCK_BIT OR sz else 0) in
       if rp \<le> target AND MPSC_OFFSET_MASK
       then do { s \<leftarrow> mpsc_set_reserve s p MPSC_OFFSET_MAX; Some (s, wp, off, None) }
       else Some (s, wp, off, Some (target OR MPSC_WRAP_INCR (wp AND MPSC_WRAP_COUNTER))))
     else Some (s, wp, off, Some (target OR (wp AND MPSC_WRAP_COUNTER))) }"

text \<open>\<open>fails\<close> is the number of rounds whose compare-and-swap fails spuriously.\<close>

fun mpsc_acquire_loop :: "nat \<Rightarrow> mpsc_t \<Rightarrow> nat \<Rightarrow> usz \<Rightarrow> (mpsc_t \<times> usz \<times> usz option) option" where
  "mpsc_acquire_loop fails s p sz = do {
     (s, wp, off, target) \<leftarrow> mpsc_acquire_round s p sz;
     case target of None \<Rightarrow> Some (s, off, None)
     | Some t \<Rightarrow>
         (case fails of 0 \<Rightarrow> if mq_wp s = wp then Some (s\<lparr>mq_wp := t\<rparr>, off, Some t) else None
          | Suc n \<Rightarrow> mpsc_acquire_loop n s p sz) }"

definition mpsc_acquire :: "nat \<Rightarrow> mpsc_t \<Rightarrow> nat \<Rightarrow> usz \<Rightarrow> (mpsc_t \<times> int) option" where
  "mpsc_acquire fails s p sz = do {
     (s, off, target) \<leftarrow> mpsc_acquire_loop fails s p sz;
     case target of None \<Rightarrow> Some (s, - 1)
     | Some t \<Rightarrow> do {
         q \<leftarrow> mpsc_p s p;
         s \<leftarrow> mpsc_set_reserve s p (pr_reserve_pos q AND NOT MPSC_WRAP_LOCK_BIT);
         if t AND MPSC_WRAP_LOCK_BIT \<noteq> 0
         then Some (s\<lparr>mq_warp_end := off, mq_wp := t AND NOT MPSC_WRAP_LOCK_BIT\<rparr>, 0)
         else Some (s, uint off) } }"

definition mpsc_push :: "mpsc_t \<Rightarrow> nat \<Rightarrow> mpsc_t option" where
  "mpsc_push s p = mpsc_set_reserve s p MPSC_OFFSET_MAX"

definition mpsc_write :: "nat \<Rightarrow> mpsc_t \<Rightarrow> nat \<Rightarrow> u8 list \<Rightarrow> (mpsc_t \<times> int) option" where
  "mpsc_write fails s p src = do {
     let sz = of_nat (length src);
     (s, off) \<leftarrow> mpsc_acquire fails s p sz;
     if off < 0 then Some (s, - 1)
     else do {
       buf \<leftarrow> (if word_of_int off + sz \<le> mq_cap s
         then mem_put (mq_buf s) (nat off) src
         else do {
           let first = unat (mq_cap s - word_of_int off);
           b \<leftarrow> mem_put (mq_buf s) (nat off) (take first src);
           mem_put b 0 (drop first src) });
       s \<leftarrow> mpsc_push (s\<lparr>mq_buf := buf\<rparr>) p;
       Some (s, off) } }"

subsection \<open>The consumer\<close>

text \<open>The loop over the producers: the least position that is not yet written.\<close>

fun mpsc_ready :: "usz \<Rightarrow> mpsc_p_t list \<Rightarrow> usz \<Rightarrow> usz option" where
  "mpsc_ready rp [] ready = Some ready"
| "mpsc_ready rp (p # ps) ready =
     (if \<not> pr_flag p then mpsc_ready rp ps ready
      else do {
        reserve_pos \<leftarrow> mpsc_get_reserve_pos 1 SPINLOCK_BACKOFF_MIN p;
        mpsc_ready rp ps (if rp \<le> reserve_pos \<and> reserve_pos < ready then reserve_pos else ready) })"

fun mpsc_pop_loop :: "nat \<Rightarrow> mpsc_t \<Rightarrow> (mpsc_t \<times> usz \<times> usz) option" where
  "mpsc_pop_loop 0 s = None"
| "mpsc_pop_loop (Suc k) s = do {
     w \<leftarrow> mpsc_get_wp 1 SPINLOCK_BACKOFF_MIN s;
     let wp = w AND MPSC_OFFSET_MASK;
     let rp = mq_rp s;
     if rp = wp then Some (s, 0, rp)
     else do {
       ready \<leftarrow> mpsc_ready rp (mq_producers s) MPSC_OFFSET_MAX;
       if wp < rp
       then (let warp_end = (if mq_warp_end s = MPSC_OFFSET_MAX then mq_cap s else mq_warp_end s) in
         if ready = MPSC_OFFSET_MAX \<and> rp = warp_end
         then mpsc_pop_loop k (s\<lparr>mq_warp_end := MPSC_OFFSET_MAX, mq_rp := 0\<rparr>)
         else Some (s, (if ready < warp_end then ready else warp_end) - rp, rp))
       else Some (s, (if ready < wp then ready else wp) - rp, rp) } }"

text \<open>Two rounds are enough: after a jump to the start the offset is not behind the position.\<close>

definition mpsc_pop :: "mpsc_t \<Rightarrow> (mpsc_t \<times> usz \<times> usz) option" where
  "mpsc_pop s = mpsc_pop_loop 2 s"

definition mpsc_release :: "mpsc_t \<Rightarrow> usz \<Rightarrow> mpsc_t" where
  "mpsc_release s sz = (let write_nbytes = mq_rp s + sz in
     s\<lparr>mq_rp := (if write_nbytes = mq_cap s then 0 else write_nbytes)\<rparr>)"

definition mpsc_read :: "mpsc_t \<Rightarrow> usz \<Rightarrow> (mpsc_t \<times> u8 list) option" where
  "mpsc_read s sz = do {
     (s, avail_nbytes, off) \<leftarrow> mpsc_pop s;
     if avail_nbytes = 0 then Some (s, [])
     else do {
       let read_nbytes = (if avail_nbytes < sz then 0 else sz);
       dst \<leftarrow> (if off + read_nbytes \<le> mq_cap s
         then mem_get (mq_buf s) (unat off) (unat read_nbytes)
         else do {
           let first = mq_cap s - off;
           a \<leftarrow> mem_get (mq_buf s) (unat off) (unat first);
           b \<leftarrow> mem_get (mq_buf s) 0 (unat (read_nbytes - first));
           Some (a @ b) });
       Some (mpsc_release s read_nbytes, dst) } }"

subsection \<open>The fields of the write position\<close>

lemma mpsc_masks:
  "MPSC_OFFSET_MASK = mask 32" "MPSC_WRAP_LOCK_BIT = 2 ^ 63" "MPSC_WRAP_COUNTER = push_bit 32 (mask 31)"
  by (simp_all add: MPSC_OFFSET_MASK_def MPSC_WRAP_LOCK_BIT_def MPSC_WRAP_COUNTER_def mask_eq_exp_minus_1 push_bit_eq_mult)

lemma mpsc_bits:
  "bit MPSC_OFFSET_MASK n = (n < 32)" "bit MPSC_WRAP_LOCK_BIT n = (n = 63)" "bit MPSC_WRAP_COUNTER n = (32 \<le> n \<and> n < 63)"
  unfolding mpsc_masks bit_push_bit_iff bit_mask_iff bit_exp_iff by (auto simp: possible_bit_def)

definition off_ok :: "usz \<Rightarrow> bool" where
  "off_ok a \<longleftrightarrow> unat a < 2 ^ 32"

lemma off_ok_take: "off_ok a \<Longrightarrow> take_bit 32 a = a"
  by (simp add: word_unat_eq_iff unsigned_take_bit_eq take_bit_nat_eq_self off_ok_def)

lemma off_ok_bits: "off_ok a \<Longrightarrow> bit a n \<Longrightarrow> n < 32"
  using off_ok_take [of a] by (metis bit_take_bit_iff)

lemma wp_fields:
  assumes "off_ok a"
  shows "(a OR (x AND MPSC_WRAP_COUNTER)) AND MPSC_OFFSET_MASK = a" "(a OR (x AND MPSC_WRAP_COUNTER)) AND MPSC_WRAP_LOCK_BIT = 0"
    "((MPSC_WRAP_LOCK_BIT OR a) OR (x AND MPSC_WRAP_COUNTER)) AND NOT MPSC_WRAP_LOCK_BIT = a OR (x AND MPSC_WRAP_COUNTER)"
    "((MPSC_WRAP_LOCK_BIT OR a) OR (x AND MPSC_WRAP_COUNTER)) AND MPSC_WRAP_LOCK_BIT \<noteq> 0"
    "(MPSC_WRAP_LOCK_BIT OR a) AND MPSC_OFFSET_MASK = a" "(a OR MPSC_WRAP_LOCK_BIT) AND NOT MPSC_WRAP_LOCK_BIT = a" "a AND MPSC_WRAP_LOCK_BIT = 0"
proof -
  note b = off_ok_bits [OF assms]
  have c: "bit a n \<Longrightarrow> n \<noteq> 63 \<and> n < 32" for n using b [of n] by auto
  show "(a OR (x AND MPSC_WRAP_COUNTER)) AND MPSC_OFFSET_MASK = a" "(a OR (x AND MPSC_WRAP_COUNTER)) AND MPSC_WRAP_LOCK_BIT = 0"
    "((MPSC_WRAP_LOCK_BIT OR a) OR (x AND MPSC_WRAP_COUNTER)) AND NOT MPSC_WRAP_LOCK_BIT = a OR (x AND MPSC_WRAP_COUNTER)"
    "(MPSC_WRAP_LOCK_BIT OR a) AND MPSC_OFFSET_MASK = a" "(a OR MPSC_WRAP_LOCK_BIT) AND NOT MPSC_WRAP_LOCK_BIT = a" "a AND MPSC_WRAP_LOCK_BIT = 0"
    by (rule bit_word_eqI; use c in \<open>auto simp: bit_and_iff bit_or_iff bit_not_iff mpsc_bits possible_bit_def\<close>)+
  have "bit (((MPSC_WRAP_LOCK_BIT OR a) OR (x AND MPSC_WRAP_COUNTER)) AND MPSC_WRAP_LOCK_BIT) 63"
    by (simp add: bit_and_iff bit_or_iff mpsc_bits)
  then show "((MPSC_WRAP_LOCK_BIT OR a) OR (x AND MPSC_WRAP_COUNTER)) AND MPSC_WRAP_LOCK_BIT \<noteq> 0"
    by (metis bit_0_eq bot_apply bot_bool_def)
qed

lemma MPSC_WRAP_INCR_and: "MPSC_WRAP_INCR x = (x + 0x100000000) AND MPSC_WRAP_COUNTER"
  by (simp add: MPSC_WRAP_INCR_def)

lemma off_ok_mask: "off_ok (w AND MPSC_OFFSET_MASK)"
proof -
  have "w AND MPSC_OFFSET_MASK = take_bit 32 w" by (simp add: mpsc_masks take_bit_eq_mask)
  then show ?thesis using take_bit_nat_less_exp [of 32 "unat w"] by (simp add: off_ok_def unsigned_take_bit_eq)
qed

lemma unat_OFFSET_MAX: "unat MPSC_OFFSET_MAX = 2 ^ 63 - 1" "MPSC_OFFSET_MAX AND MPSC_WRAP_LOCK_BIT = 0"
  unfolding MPSC_OFFSET_MAX_def MPSC_WRAP_LOCK_BIT_def by simp_all

lemma off_ok_lt_max: "off_ok a \<Longrightarrow> a < MPSC_OFFSET_MAX"
  by (simp add: word_less_nat_alt unat_OFFSET_MAX off_ok_def)

end
