(* ===== verification/Mpsc_Inv.thy ===== *)
theory Mpsc_Inv
  imports Mpsc
begin

section \<open>Reservations, grants and order in the multi-producer ring\<close>

text \<open>
  The offsets as natural numbers; what one call does in each case; the invariant of all states that
  any number of producers and the consumer can reach by whole calls, with the regions that are
  reserved and the region that is granted; the byte queue that sequential writes and reads see.
\<close>

subsection \<open>Offsets\<close>

definition offn :: "mpsc_t \<Rightarrow> nat" where "offn s = unat (mq_wp s AND MPSC_OFFSET_MASK)"
definition rpn :: "mpsc_t \<Rightarrow> nat" where "rpn s = unat (mq_rp s)"
definition capn :: "mpsc_t \<Rightarrow> nat" where "capn s = unat (mq_cap s)"
definition endn :: "mpsc_t \<Rightarrow> nat" where
  "endn s = (if mq_warp_end s = MPSC_OFFSET_MAX then capn s else unat (mq_warp_end s))"

text \<open>The positions are in range; ahead of the reader the lap has an end, behind it there is none.\<close>

definition mpsc_pos_ok :: "mpsc_t \<Rightarrow> bool" where
  "mpsc_pos_ok s \<longleftrightarrow> capn s < 2 ^ 32 \<and> capn s \<le> length (mq_buf s) \<and> mq_wp s AND MPSC_WRAP_LOCK_BIT = 0 \<and>
     offn s < capn s \<and> (if rpn s \<le> offn s then mq_warp_end s = MPSC_OFFSET_MAX
       else rpn s \<le> endn s \<and> endn s \<le> capn s \<and> (mq_warp_end s \<noteq> MPSC_OFFSET_MAX \<longrightarrow> endn s < capn s))"

definition with_reserve :: "mpsc_t \<Rightarrow> nat \<Rightarrow> usz \<Rightarrow> mpsc_t" where
  "with_reserve s p v = s\<lparr>mq_producers := (mq_producers s)[p := (mq_producers s ! p)\<lparr>pr_reserve_pos := v\<rparr>]\<rparr>"

lemma set_reserve_Some: "p < length (mq_producers s) \<Longrightarrow> mpsc_set_reserve s p v = Some (with_reserve s p v)"
  by (simp add: mpsc_set_reserve_def mpsc_p_def mpsc_set_p_def with_reserve_def)

lemma with_reserve_simps [simp]:
  "mq_wp (with_reserve s p v) = mq_wp s" "mq_rp (with_reserve s p v) = mq_rp s" "mq_cap (with_reserve s p v) = mq_cap s"
  "mq_warp_end (with_reserve s p v) = mq_warp_end s" "mq_buf (with_reserve s p v) = mq_buf s"
  "length (mq_producers (with_reserve s p v)) = length (mq_producers s)"
  by (simp_all add: with_reserve_def)

lemma with_reserve_twice [simp]:
  "p < length (mq_producers s) \<Longrightarrow> with_reserve (with_reserve s p v) p w = with_reserve s p w"
  by (simp add: with_reserve_def)

lemma offs_with_reserve [simp]:
  "offn (with_reserve s p v) = offn s" "rpn (with_reserve s p v) = rpn s" "capn (with_reserve s p v) = capn s" "endn (with_reserve s p v) = endn s"
  by (simp_all add: offn_def rpn_def capn_def endn_def)

lemma get_wp_free: "mq_wp s AND MPSC_WRAP_LOCK_BIT = 0 \<Longrightarrow> mpsc_get_wp (Suc k) cnt s = Some (mq_wp s)"
  by simp

lemma off_ok_offn: "off_ok (mq_wp s AND MPSC_OFFSET_MASK)"
  by (rule off_ok_mask)

lemma pos_ok_bounds: "mpsc_pos_ok s \<Longrightarrow> off_ok (mq_cap s) \<and> off_ok (mq_rp s)"
  using off_ok_offn [of s] by (auto simp: mpsc_pos_ok_def off_ok_def capn_def rpn_def offn_def split: if_splits)

text \<open>Sums of two offsets do not wrap around.\<close>

lemma unat_off_add: "off_ok a \<Longrightarrow> off_ok b \<Longrightarrow> unat (a + b) = unat a + unat b"
  by (subst unat_add_lem [THEN iffD1]) (simp_all add: off_ok_def)

subsection \<open>Reserving\<close>

lemma acquire_loop_fails:
  assumes "p < length (mq_producers s)"
  shows "mpsc_acquire_loop fails (with_reserve s p v) p sz = mpsc_acquire_loop 0 s p sz"
proof -
  have r: "mpsc_acquire_round (with_reserve s p v) p sz = mpsc_acquire_round s p sz" for v
    using assms by (simp add: mpsc_acquire_round_def set_reserve_Some Let_def)
  have same: "\<exists>w. s' = with_reserve s p w" if "mpsc_acquire_round s p sz = Some (s', wp, off, t)" for s' wp off t
    using that assms by (auto simp: mpsc_acquire_round_def set_reserve_Some Let_def split: if_splits)
  show ?thesis
  proof (induction fails arbitrary: v)
    case 0
    show ?case by (simp add: r)
  next
    case (Suc n)
    show ?case
    proof (cases "mpsc_acquire_round s p sz")
      case None
      then show ?thesis by (simp add: r)
    next
      case (Some a)
      obtain s' wp off t where a: "a = (s', wp, off, t)" by (cases a)
      then obtain w where "s' = with_reserve s p w" using same Some by blast
      then show ?thesis using Suc.IH [of w] Some a by (cases t) (simp_all add: r)
    qed
  qed
qed

lemma with_reserve_self: "p < length (mq_producers s) \<Longrightarrow> with_reserve s p (pr_reserve_pos (mq_producers s ! p)) = s"
  by (simp add: with_reserve_def)

text \<open>The cases of a reservation: no room, the end of the lap hit exactly, a jump to the start, behind
  the last one.\<close>

definition no_room :: "mpsc_t \<Rightarrow> nat \<Rightarrow> bool" where
  "no_room s n \<longleftrightarrow> (offn s < rpn s \<and> rpn s \<le> offn s + n) \<or>
     (rpn s \<le> offn s \<and> capn s < offn s + n \<and> rpn s \<le> n) \<or> (rpn s \<le> offn s \<and> capn s = offn s + n \<and> rpn s = 0)"

definition off_word :: "nat \<Rightarrow> usz" where
  "off_word n = of_nat n"

lemma off_word_ok: "n < 2 ^ 32 \<Longrightarrow> off_ok (off_word n) \<and> unat (off_word n) = n"
  by (simp add: off_word_def off_ok_def unat_of_nat_usz)

lemma mpsc_acquire_cases:
  assumes ok: "mpsc_pos_ok s" and p: "p < length (mq_producers s)" and sz: "off_ok sz"
  shows "\<exists>s'. mpsc_acquire fails s p sz = Some (s', if no_room s (unat sz) then - 1 else if capn s < offn s + unat sz then 0 else int (offn s)) \<and>
    mq_buf s' = mq_buf s \<and> mq_rp s' = mq_rp s \<and> mq_cap s' = mq_cap s \<and>
    (if no_room s (unat sz) then s' = with_reserve s p MPSC_OFFSET_MAX
     else mq_producers s' = mq_producers (with_reserve s p (off_word (offn s))) \<and> mq_wp s' AND MPSC_WRAP_LOCK_BIT = 0 \<and>
       (if capn s < offn s + unat sz then offn s' = unat sz \<and> mq_warp_end s' = off_word (offn s)
        else if capn s = offn s + unat sz then offn s' = 0 \<and> mq_warp_end s' = mq_warp_end s
        else offn s' = offn s + unat sz \<and> mq_warp_end s' = mq_warp_end s))"
proof -
  define off where "off = mq_wp s AND MPSC_OFFSET_MASK"
  have lock: "mq_wp s AND MPSC_WRAP_LOCK_BIT = 0" using ok by (simp add: mpsc_pos_ok_def)
  have o: "off_ok off" "off_ok (mq_cap s)" "off_ok (mq_rp s)" using pos_ok_bounds [OF ok] off_ok_offn [of s] by (simp_all add: off_def)
  have u: "unat off = offn s" "unat (off + sz) = offn s + unat sz" using unat_off_add [OF o(1) sz] by (simp_all add: off_def offn_def)
  have ui: "uint off = int (offn s)" using u(1) by (simp add: uint_nat)
  have ow: "off_word (offn s) = off" using u(1) by (simp add: off_word_def flip: u(1))
  note f1 = wp_fields [OF o(1)] and f2 = wp_fields [OF sz]
  have off0: "off_ok 0" by (simp add: off_ok_def)
  note f0 = wp_fields [OF off0]
  have le: "rpn s \<le> capn s" using ok by (auto simp: mpsc_pos_ok_def split: if_splits)
  have cmp: "(off < mq_rp s \<and> mq_rp s \<le> off + sz) = (offn s < rpn s \<and> rpn s \<le> offn s + unat sz)"
    "(mq_cap s \<le> off + sz) = (capn s \<le> offn s + unat sz)" "(mq_cap s < off + sz) = (capn s < offn s + unat sz)"
    "(mq_rp s \<le> sz) = (rpn s \<le> unat sz)" "(mq_rp s = 0) = (rpn s = 0)"
    by (simp_all add: word_less_nat_alt word_le_nat_alt u rpn_def capn_def unat_eq_0)
  have loop: "mpsc_acquire_loop fails s p sz = mpsc_acquire_loop 0 s p sz"
    using acquire_loop_fails [OF p, of fails "pr_reserve_pos (mq_producers s ! p)"] by (simp only: with_reserve_self [OF p])
  have rnd: "mpsc_acquire_round s p sz = (if no_room s (unat sz) then Some (with_reserve s p MPSC_OFFSET_MAX, mq_wp s, off, None)
    else Some (with_reserve s p (off OR MPSC_WRAP_LOCK_BIT), mq_wp s, off, Some
      ((if capn s < offn s + unat sz then MPSC_WRAP_LOCK_BIT OR sz else if capn s = offn s + unat sz then 0 else off + sz) OR
        ((if capn s \<le> offn s + unat sz then (mq_wp s AND MPSC_WRAP_COUNTER) + 0x100000000 else mq_wp s) AND MPSC_WRAP_COUNTER))))"
    using p le lock f2(5) unfolding mpsc_acquire_round_def
    by (simp add: set_reserve_Some Let_def off_def [symmetric] cmp no_room_def MPSC_WRAP_INCR_and)
  define tgt where "tgt = (if capn s < offn s + unat sz then MPSC_WRAP_LOCK_BIT OR sz else if capn s = offn s + unat sz then 0 else off + sz) OR
        ((if capn s \<le> offn s + unat sz then (mq_wp s AND MPSC_WRAP_COUNTER) + 0x100000000 else mq_wp s) AND MPSC_WRAP_COUNTER)"
  have l0: "mpsc_acquire_loop fails s p sz = (if no_room s (unat sz) then Some (with_reserve s p MPSC_OFFSET_MAX, off, None)
    else Some ((with_reserve s p (off OR MPSC_WRAP_LOCK_BIT))\<lparr>mq_wp := tgt\<rparr>, off, Some tgt))"
    unfolding loop by (simp add: rnd [folded tgt_def])
  have acq: "mpsc_acquire fails s p sz = (if tgt AND MPSC_WRAP_LOCK_BIT \<noteq> 0
      then Some ((with_reserve s p off)\<lparr>mq_warp_end := off, mq_wp := tgt AND NOT MPSC_WRAP_LOCK_BIT\<rparr>, 0)
      else Some ((with_reserve s p off)\<lparr>mq_wp := tgt\<rparr>, uint off))" if "\<not> no_room s (unat sz)"
    using that p f1(6) by (simp add: mpsc_acquire_def l0 mpsc_p_def set_reserve_Some with_reserve_def del: mpsc_acquire_loop.simps)
  have ul: "off_ok (off + sz)" if "offn s + unat sz < capn s"
    using that ok u by (simp add: off_ok_def mpsc_pos_ok_def)
  show ?thesis
  proof (cases "no_room s (unat sz)")
    case True
    then have "mpsc_acquire fails s p sz = Some (with_reserve s p MPSC_OFFSET_MAX, - 1)"
      by (simp add: mpsc_acquire_def l0 del: mpsc_acquire_loop.simps)
    then show ?thesis using True by simp
  next
    case False
    consider (jump) "capn s < offn s + unat sz" | (hit) "capn s = offn s + unat sz" | (fit) "offn s + unat sz < capn s" by linarith
    then show ?thesis
    proof cases
      case jump
      let ?x = "(mq_wp s AND MPSC_WRAP_COUNTER) + 0x100000000"
      let ?s = "(with_reserve s p off)\<lparr>mq_warp_end := off, mq_wp := sz OR (?x AND MPSC_WRAP_COUNTER)\<rparr>"
      have "mpsc_acquire fails s p sz = Some (?s, 0)"
        using acq [OF False] jump f2(3,4) by (simp add: tgt_def)
      then show ?thesis using False jump f2(1,2) by (intro exI [of _ ?s]) (simp add: ow [unfolded offn_def] offn_def)
    next
      case hit
      let ?x = "(mq_wp s AND MPSC_WRAP_COUNTER) + 0x100000000"
      let ?s = "(with_reserve s p off)\<lparr>mq_wp := 0 OR (?x AND MPSC_WRAP_COUNTER)\<rparr>"
      have "mpsc_acquire fails s p sz = Some (?s, int (offn s))"
        using acq [OF False] hit f0(1,2) ui by (simp add: tgt_def del: or.left_neutral)
      then show ?thesis using False hit f0(1,2) by (intro exI [of _ ?s]) (simp add: ow [unfolded offn_def] offn_def del: or.left_neutral)
    next
      case fit
      let ?s = "(with_reserve s p off)\<lparr>mq_wp := (off + sz) OR (mq_wp s AND MPSC_WRAP_COUNTER)\<rparr>"
      note f3 = wp_fields [OF ul [OF fit]]
      have "mpsc_acquire fails s p sz = Some (?s, int (offn s))"
        using acq [OF False] fit f3(1,2) ui by (simp add: tgt_def)
      then show ?thesis using False fit f3(1,2) u(2) by (intro exI [of _ ?s]) (simp add: ow [unfolded offn_def] offn_def)
    qed
  qed
qed

subsection \<open>What is ready\<close>

definition resn :: "mpsc_t \<Rightarrow> nat \<Rightarrow> nat" where "resn s i = unat (pr_reserve_pos (mq_producers s ! i))"

text \<open>No reservation position carries the lock bit between calls.\<close>

definition mpsc_idle :: "mpsc_p_t list \<Rightarrow> bool" where
  "mpsc_idle ps \<longleftrightarrow> (\<forall>q \<in> set ps. pr_flag q \<longrightarrow> pr_reserve_pos q AND MPSC_WRAP_LOCK_BIT = 0)"

lemma mpsc_ready_spec:
  assumes "mpsc_idle ps"
  shows "\<exists>r. mpsc_ready rp ps ready = Some r \<and> r \<le> ready \<and>
    (r = ready \<or> (rp \<le> r \<and> (\<exists>q \<in> set ps. pr_flag q \<and> pr_reserve_pos q = r))) \<and>
    (\<forall>q \<in> set ps. pr_flag q \<longrightarrow> rp \<le> pr_reserve_pos q \<longrightarrow> r \<le> pr_reserve_pos q)"
  using assms
proof (induction ps arbitrary: ready)
  case (Cons q ps)
  have i: "mpsc_idle ps" using Cons.prems by (simp add: mpsc_idle_def)
  show ?case
  proof (cases "pr_flag q")
    case False
    then show ?thesis using Cons.IH [OF i, of ready] by auto
  next
    case True
    then have g: "mpsc_get_reserve_pos 1 SPINLOCK_BACKOFF_MIN q = Some (pr_reserve_pos q)"
      using Cons.prems by (simp add: mpsc_idle_def)
    let ?v = "if rp \<le> pr_reserve_pos q \<and> pr_reserve_pos q < ready then pr_reserve_pos q else ready"
    obtain r where r: "mpsc_ready rp ps ?v = Some r" "r \<le> ?v"
      "r = ?v \<or> (rp \<le> r \<and> (\<exists>q \<in> set ps. pr_flag q \<and> pr_reserve_pos q = r))"
      "\<forall>q \<in> set ps. pr_flag q \<longrightarrow> rp \<le> pr_reserve_pos q \<longrightarrow> r \<le> pr_reserve_pos q"
      using Cons.IH [OF i, of ?v] by blast
    have "mpsc_ready rp (q # ps) ready = Some r" using True g r(1) by simp
    moreover have "r \<le> ready" using r(2) by (auto split: if_splits)
    moreover have "r = ready \<or> (rp \<le> r \<and> (\<exists>q \<in> set (q # ps). pr_flag q \<and> pr_reserve_pos q = r))"
      using r(3) True by (auto split: if_splits)
    moreover have "\<forall>p \<in> set (q # ps). pr_flag p \<longrightarrow> rp \<le> pr_reserve_pos p \<longrightarrow> r \<le> pr_reserve_pos p"
      using r(2,4) by (auto split: if_splits)
    ultimately show ?thesis by blast
  qed
qed simp

text \<open>The result of \<open>mpsc_pop\<close>: the state (only a jump to the start of the buffer changes it), and a
  region from the read position on that ends at the first reservation not yet pushed.\<close>

definition pop_jumps :: "mpsc_t \<Rightarrow> bool" where
  "pop_jumps s \<longleftrightarrow> offn s < rpn s \<and> rpn s = endn s \<and> mpsc_ready (mq_rp s) (mq_producers s) MPSC_OFFSET_MAX = Some MPSC_OFFSET_MAX"

definition pop_state :: "mpsc_t \<Rightarrow> mpsc_t" where
  "pop_state s = (if pop_jumps s then s\<lparr>mq_warp_end := MPSC_OFFSET_MAX, mq_rp := 0\<rparr> else s)"

definition pop_limit :: "mpsc_t \<Rightarrow> nat" where
  "pop_limit s = (if rpn s \<le> offn s then offn s else endn s)"

lemma endn_word: "mpsc_pos_ok s \<Longrightarrow> offn s < rpn s \<Longrightarrow> unat (if mq_warp_end s = MPSC_OFFSET_MAX then mq_cap s else mq_warp_end s) = endn s"
  by (simp add: endn_def capn_def)

lemma pop_state_ok:
  assumes "mpsc_pos_ok s"
  shows "mpsc_pos_ok (pop_state s)" "pop_jumps s \<Longrightarrow> rpn (pop_state s) = 0" "offn (pop_state s) = offn s" "capn (pop_state s) = capn s"
    "mq_producers (pop_state s) = mq_producers s" "mq_buf (pop_state s) = mq_buf s" "mq_cap (pop_state s) = mq_cap s"
    "mq_wp (pop_state s) = mq_wp s"
  using assms by (auto simp: pop_state_def mpsc_pos_ok_def offn_def rpn_def capn_def endn_def)

lemma mpsc_pop_spec:
  assumes ok: "mpsc_pos_ok s" and idle: "mpsc_idle (mq_producers s)"
  shows "\<exists>n. mpsc_pop s = Some (pop_state s, n, mq_rp (pop_state s)) \<and>
    rpn (pop_state s) + unat n \<le> pop_limit (pop_state s) \<and>
    (\<forall>q \<in> set (mq_producers s). pr_flag q \<longrightarrow> rpn (pop_state s) \<le> unat (pr_reserve_pos q) \<longrightarrow> rpn (pop_state s) + unat n \<le> unat (pr_reserve_pos q)) \<and>
    ((\<forall>q \<in> set (mq_producers s). pr_flag q \<longrightarrow> pr_reserve_pos q = MPSC_OFFSET_MAX) \<longrightarrow> rpn (pop_state s) + unat n = pop_limit (pop_state s))"
proof -
  have lock: "mq_wp s AND MPSC_WRAP_LOCK_BIT = 0" using ok by (simp add: mpsc_pos_ok_def)
  have caplt: "capn s < 2 ^ 32" using ok by (simp add: mpsc_pos_ok_def)
  have main: "\<exists>n. mpsc_pop_loop (Suc k) s = Some (s, n, mq_rp s) \<and> rpn s + unat n \<le> pop_limit s \<and>
    (\<forall>q \<in> set (mq_producers s). pr_flag q \<longrightarrow> rpn s \<le> unat (pr_reserve_pos q) \<longrightarrow> rpn s + unat n \<le> unat (pr_reserve_pos q)) \<and>
    ((\<forall>q \<in> set (mq_producers s). pr_flag q \<longrightarrow> pr_reserve_pos q = MPSC_OFFSET_MAX) \<longrightarrow> rpn s + unat n = pop_limit s)"
    if ok: "mpsc_pos_ok s" and idle: "mpsc_idle (mq_producers s)" and nj: "\<not> pop_jumps s" for s k
  proof -
    have lock: "mq_wp s AND MPSC_WRAP_LOCK_BIT = 0" using ok by (simp add: mpsc_pos_ok_def)
    obtain r where r: "mpsc_ready (mq_rp s) (mq_producers s) MPSC_OFFSET_MAX = Some r" "r \<le> MPSC_OFFSET_MAX"
      "r = MPSC_OFFSET_MAX \<or> (mq_rp s \<le> r \<and> (\<exists>q \<in> set (mq_producers s). pr_flag q \<and> pr_reserve_pos q = r))"
      "\<forall>q \<in> set (mq_producers s). pr_flag q \<longrightarrow> mq_rp s \<le> pr_reserve_pos q \<longrightarrow> r \<le> pr_reserve_pos q"
      using mpsc_ready_spec [OF idle] by blast
    have rle: "rpn s \<le> capn s" "offn s < capn s" "capn s < 2 ^ 32" using ok by (auto simp: mpsc_pos_ok_def split: if_splits)
    have rr: "mq_rp s \<le> r" using r(3) rle unat_OFFSET_MAX(1) by (auto simp: word_le_nat_alt rpn_def)
    have all: "(\<forall>q \<in> set (mq_producers s). pr_flag q \<longrightarrow> pr_reserve_pos q = MPSC_OFFSET_MAX) \<longrightarrow> r = MPSC_OFFSET_MAX"
      using r(3) by auto
    define w where "w = (if offn s < rpn s then (if mq_warp_end s = MPSC_OFFSET_MAX then mq_cap s else mq_warp_end s)
      else mq_wp s AND MPSC_OFFSET_MASK)"
    have uw: "unat w = pop_limit s" using endn_word [OF ok] by (auto simp: w_def pop_limit_def offn_def not_le)
    have lim: "rpn s \<le> pop_limit s" "pop_limit s \<le> capn s" using ok rle by (auto simp: pop_limit_def mpsc_pos_ok_def split: if_splits)
    have wmax: "w < MPSC_OFFSET_MAX" using uw lim rle unat_OFFSET_MAX(1) by (simp add: word_less_nat_alt)
    let ?n = "if mq_rp s = mq_wp s AND MPSC_OFFSET_MASK then 0 else (if r < w then r else w) - mq_rp s"
    have cmp: "(mq_wp s AND MPSC_OFFSET_MASK < mq_rp s) = (offn s < rpn s)" by (simp add: word_less_nat_alt offn_def rpn_def)
    have eq: "mq_rp s = mq_wp s AND MPSC_OFFSET_MASK \<Longrightarrow> rpn s = offn s" by (simp add: offn_def rpn_def)
    have nj': "offn s < rpn s \<Longrightarrow> \<not> (r = MPSC_OFFSET_MAX \<and> mq_rp s = w)"
      using nj r(1) uw by (auto simp: pop_jumps_def pop_limit_def rpn_def)
    have wU: "\<not> offn s < rpn s \<Longrightarrow> w = mq_wp s AND MPSC_OFFSET_MASK" by (simp add: w_def)
    have wW: "offn s < rpn s \<Longrightarrow> (if mq_warp_end s = MPSC_OFFSET_MAX then mq_cap s else mq_warp_end s) = w" by (simp add: w_def)
    have res: "mpsc_pop_loop (Suc k) s = Some (s, ?n, mq_rp s)"
    proof (cases "offn s < rpn s")
      case True
      then show ?thesis using lock r(1) nj' [OF True] wW [OF True] by (auto simp: Let_def cmp simp del: mpsc_ready.simps)
    next
      case False
      then show ?thesis using lock r(1) wU [OF False] by (simp add: Let_def cmp)
    qed
    have un: "rpn s + unat ?n = (if mq_rp s = mq_wp s AND MPSC_OFFSET_MASK then rpn s else unat (if r < w then r else w))"
    proof -
      have "mq_rp s \<le> (if r < w then r else w)" using rr uw lim by (simp add: word_le_nat_alt rpn_def)
      then show ?thesis by (simp add: unat_sub word_le_nat_alt rpn_def)
    qed
    have min: "unat (if r < w then r else w) = min (unat r) (pop_limit s)" using uw by (auto simp: word_less_nat_alt)
    have a: "rpn s + unat ?n \<le> pop_limit s" using un min lim by auto
    have b: "\<forall>q \<in> set (mq_producers s). pr_flag q \<longrightarrow> rpn s \<le> unat (pr_reserve_pos q) \<longrightarrow> rpn s + unat ?n \<le> unat (pr_reserve_pos q)"
      using r(4) un min by (auto simp: word_le_nat_alt rpn_def)
    have c: "r = MPSC_OFFSET_MAX \<Longrightarrow> rpn s + unat ?n = pop_limit s"
      using un uw eq order_less_not_sym [OF wmax] by (cases "mq_rp s = mq_wp s AND MPSC_OFFSET_MASK") (simp_all add: pop_limit_def)
    show ?thesis using res a b c all by blast
  qed
  show ?thesis
  proof (cases "pop_jumps s")
    case False
    then show ?thesis using main [OF ok idle False, of 1] by (simp add: mpsc_pop_def pop_state_def numeral_2_eq_2)
  next
    case True
    let ?s = "pop_state s"
    have ns: "\<not> pop_jumps ?s" using pop_state_ok(2) [OF ok True] by (simp add: pop_jumps_def)
    have "mpsc_pop_loop 2 s = mpsc_pop_loop (Suc 0) ?s"
    proof -
      have j: "offn s < rpn s" "rpn s = endn s" "mpsc_ready (mq_rp s) (mq_producers s) MPSC_OFFSET_MAX = Some MPSC_OFFSET_MAX"
        using True by (auto simp: pop_jumps_def)
      have c: "mq_wp s AND MPSC_OFFSET_MASK < mq_rp s" "mq_rp s \<noteq> mq_wp s AND MPSC_OFFSET_MASK"
        using j(1) by (auto simp: word_less_nat_alt offn_def rpn_def)
      have e: "mq_rp s = (if mq_warp_end s = MPSC_OFFSET_MAX then mq_cap s else mq_warp_end s)"
        using j(2) endn_word [OF ok j(1)] by (simp add: word_unat_eq_iff rpn_def)
      have two: "(2 :: nat) = Suc (Suc 0)" by simp
      show ?thesis unfolding two using lock j(3) c e [symmetric]
        by (subst mpsc_pop_loop.simps(2)) (simp add: Let_def pop_state_def True del: mpsc_pop_loop.simps)
    qed
    moreover have "mpsc_idle (mq_producers ?s)" using idle pop_state_ok(5) [OF ok] by simp
    ultimately show ?thesis
      using main [OF pop_state_ok(1) [OF ok] _ ns, of 0] pop_state_ok(5) [OF ok] by (simp add: mpsc_pop_def)
  qed
qed

end
