(* ===== verification/Mpsc_Regions.thy ===== *)
theory Mpsc_Regions
  imports Mpsc_Inv
begin

section \<open>The multi-producer ring: no region has two owners\<close>

text \<open>
  A system is the ring, the region each producer has reserved and not yet pushed, and the number
  of bytes the consumer was granted. Its steps are the calls of the interface, and stores of a
  producer into its region.
\<close>

subsection \<open>Steps\<close>

type_synonym mpsc_sys = "mpsc_t \<times> (nat \<Rightarrow> (nat \<times> nat) option) \<times> nat"

inductive mpsc_step :: "mpsc_sys \<Rightarrow> mpsc_sys \<Rightarrow> bool" where
  reg: "\<lbrakk>pend i = None; mpsc_reg s i = Some s'\<rbrakk> \<Longrightarrow> mpsc_step (s, pend, g) (s', pend, g)"
| unreg: "\<lbrakk>pend i = None; mpsc_unreg s i = Some s'\<rbrakk> \<Longrightarrow> mpsc_step (s, pend, g) (s', pend, g)"
| acquire: "\<lbrakk>pend p = None; mpsc_p s p = Some q; pr_flag q; off_ok sz; mpsc_acquire fails s p sz = Some (s', off)\<rbrakk> \<Longrightarrow>
    mpsc_step (s, pend, g) (s', if off < 0 then pend else pend(p \<mapsto> (nat off, unat sz)), g)"
| fill: "\<lbrakk>pend p = Some (st, len); o1 + length xs \<le> len; mem_put (mq_buf s) (st + o1) xs = Some b\<rbrakk> \<Longrightarrow>
    mpsc_step (s, pend, g) (s\<lparr>mq_buf := b\<rparr>, pend, g)"
| push: "\<lbrakk>pend p = Some r; mpsc_push s p = Some s'\<rbrakk> \<Longrightarrow> mpsc_step (s, pend, g) (s', pend(p := None), g)"
| pop: "mpsc_pop s = Some (s', n, off) \<Longrightarrow> mpsc_step (s, pend, g) (s', pend, unat n)"
| release: "unat sz \<le> g \<Longrightarrow> mpsc_step (s, pend, g) (mpsc_release s sz, pend, g - unat sz)"

text \<open>A ring on cleared memory, its producers not yet registered.\<close>

definition mpsc_fresh :: "mpsc_t \<Rightarrow> bool" where
  "mpsc_fresh s \<longleftrightarrow> mq_wp s = 0 \<and> mq_rp s = 0 \<and> mq_warp_end s = MPSC_OFFSET_MAX \<and> 0 < capn s \<and> capn s < 2 ^ 32 \<and>
     capn s \<le> length (mq_buf s) \<and> (\<forall>q \<in> set (mq_producers s). \<not> pr_flag q)"

inductive mpsc_reach :: "mpsc_sys \<Rightarrow> bool" where
  init: "mpsc_fresh s \<Longrightarrow> mpsc_reach (s, \<lambda>i. None, 0)"
| step: "mpsc_reach x \<Longrightarrow> mpsc_step x y \<Longrightarrow> mpsc_reach y"

subsection \<open>The invariant\<close>

definition place_ok :: "mpsc_t \<Rightarrow> nat \<Rightarrow> nat \<Rightarrow> nat \<Rightarrow> bool" where
  "place_ok s r st len \<longleftrightarrow>
     (if rpn s \<le> offn s then r = st \<and> rpn s \<le> st \<and> st + len \<le> offn s
      else (r = st \<and> rpn s \<le> st \<and> st + len \<le> endn s \<and> st < capn s) \<or>
           (st + len \<le> offn s \<and> (r = st \<or> (r = endn s \<and> mq_warp_end s \<noteq> MPSC_OFFSET_MAX))))"

definition producers_ok :: "mpsc_t \<Rightarrow> (nat \<Rightarrow> (nat \<times> nat) option) \<Rightarrow> bool" where
  "producers_ok s pend \<longleftrightarrow>
     (\<forall>i < length (mq_producers s). pend i = None \<longrightarrow> pr_flag (mq_producers s ! i) \<longrightarrow> pr_reserve_pos (mq_producers s ! i) = MPSC_OFFSET_MAX) \<and>
     (\<forall>i st len. pend i = Some (st, len) \<longrightarrow> i < length (mq_producers s) \<and> pr_flag (mq_producers s ! i) \<and>
        place_ok s (resn s i) st len)"

definition apart :: "nat \<times> nat \<Rightarrow> nat \<times> nat \<Rightarrow> bool" where
  "apart a b \<longleftrightarrow> fst a + snd a \<le> fst b \<or> fst b + snd b \<le> fst a"

definition grant_ok :: "mpsc_t \<Rightarrow> (nat \<Rightarrow> (nat \<times> nat) option) \<Rightarrow> nat \<Rightarrow> bool" where
  "grant_ok s pend g \<longleftrightarrow> rpn s + g \<le> pop_limit s \<and> (\<forall>i st len. pend i = Some (st, len) \<longrightarrow> rpn s \<le> st \<longrightarrow> rpn s + g \<le> st)"

definition mpsc_inv :: "mpsc_sys \<Rightarrow> bool" where
  "mpsc_inv = (\<lambda>(s, pend, g). mpsc_pos_ok s \<and> producers_ok s pend \<and> grant_ok s pend g \<and>
     (\<forall>i j a b. pend i = Some a \<longrightarrow> pend j = Some b \<longrightarrow> i \<noteq> j \<longrightarrow> apart a b))"

lemma place_small: "mpsc_pos_ok s \<Longrightarrow> place_ok s r st len \<Longrightarrow> r \<le> capn s \<and> st + len \<le> capn s \<and> st < capn s"
  by (auto simp: place_ok_def mpsc_pos_ok_def split: if_splits)

lemma lock_free_small: "unat a < 2 ^ 32 \<Longrightarrow> a AND MPSC_WRAP_LOCK_BIT = 0"
  using wp_fields(7) [of a] by (simp add: off_ok_def)

lemma inv_idle:
  assumes "mpsc_pos_ok s" "producers_ok s pend"
  shows "mpsc_idle (mq_producers s)"
  unfolding mpsc_idle_def
proof (intro ballI impI)
  fix q assume q: "q \<in> set (mq_producers s)" "pr_flag q"
  obtain i where i: "i < length (mq_producers s)" "mq_producers s ! i = q" using q(1) by (metis in_set_conv_nth)
  have c: "capn s < 2 ^ 32" using assms(1) by (simp add: mpsc_pos_ok_def)
  show "pr_reserve_pos q AND MPSC_WRAP_LOCK_BIT = 0"
  proof (cases "pend i")
    case None
    then have "pr_reserve_pos q = MPSC_OFFSET_MAX" using assms(2) i q(2) by (auto simp: producers_ok_def)
    then show ?thesis by (simp add: unat_OFFSET_MAX)
  next
    case (Some a)
    obtain st len where a: "a = (st, len)" by (cases a)
    have "place_ok s (resn s i) st len" using assms(2) Some a by (simp add: producers_ok_def)
    then have "resn s i \<le> capn s" using place_small [OF assms(1)] by blast
    then show ?thesis using c i by (intro lock_free_small) (simp add: resn_def)
  qed
qed

lemma inv_reg:
  assumes "mpsc_inv (s, pend, g)" "pend i = None" "mpsc_reg s i = Some s'"
  shows "mpsc_inv (s', pend, g)"
proof -
  have s': "s' = s\<lparr>mq_producers := (mq_producers s)[i := \<lparr>pr_reserve_pos = MPSC_OFFSET_MAX, pr_flag = True\<rparr>]\<rparr>" "i < length (mq_producers s)"
    using assms(3) by (auto simp: mpsc_reg_def mpsc_set_p_def split: if_splits)
  have e: "offn s' = offn s" "rpn s' = rpn s" "capn s' = capn s" "endn s' = endn s" "pop_limit s' = pop_limit s" "mpsc_pos_ok s' = mpsc_pos_ok s"
    "\<And>r st len. place_ok s' r st len = place_ok s r st len"
    by (simp_all add: s' offn_def rpn_def capn_def endn_def pop_limit_def mpsc_pos_ok_def place_ok_def)
  have "\<And>j a. pend j = Some a \<Longrightarrow> j \<noteq> i" using assms(2) by auto
  then show ?thesis using assms(1,2) e s' by (auto simp: mpsc_inv_def producers_ok_def grant_ok_def resn_def nth_list_update)
qed

lemma inv_unreg:
  assumes "mpsc_inv (s, pend, g)" "pend i = None" "mpsc_unreg s i = Some s'"
  shows "mpsc_inv (s', pend, g)"
proof -
  have s': "s' = s\<lparr>mq_producers := (mq_producers s)[i := (mq_producers s ! i)\<lparr>pr_flag := False\<rparr>]\<rparr>" "i < length (mq_producers s)"
    using assms(3) by (auto simp: mpsc_unreg_def mpsc_p_def mpsc_set_p_def split: if_splits)
  have e: "offn s' = offn s" "rpn s' = rpn s" "capn s' = capn s" "endn s' = endn s" "pop_limit s' = pop_limit s" "mpsc_pos_ok s' = mpsc_pos_ok s"
    "\<And>r st len. place_ok s' r st len = place_ok s r st len"
    by (simp_all add: s' offn_def rpn_def capn_def endn_def pop_limit_def mpsc_pos_ok_def place_ok_def)
  have "\<And>j a. pend j = Some a \<Longrightarrow> j \<noteq> i" using assms(2) by auto
  then show ?thesis using assms(1,2) e s' by (auto simp: mpsc_inv_def producers_ok_def grant_ok_def resn_def nth_list_update)
qed

lemma inv_fill:
  assumes "mpsc_inv (s, pend, g)" "mem_put (mq_buf s) off xs = Some b"
  shows "mpsc_inv (s\<lparr>mq_buf := b\<rparr>, pend, g)"
proof -
  let ?s = "s\<lparr>mq_buf := b\<rparr>"
  have e: "rpn ?s = rpn s" "pop_limit ?s = pop_limit s" "mpsc_pos_ok ?s = mpsc_pos_ok s" "\<And>r st len. place_ok ?s r st len = place_ok s r st len"
    "resn ?s = resn s"
    using mem_put_length [OF assms(2)]
    by (simp_all add: offn_def rpn_def capn_def endn_def pop_limit_def mpsc_pos_ok_def place_ok_def resn_def fun_eq_iff)
  then show ?thesis using assms(1) by (simp add: mpsc_inv_def producers_ok_def grant_ok_def)
qed

lemma inv_push:
  assumes "mpsc_inv (s, pend, g)" "pend p = Some r" "mpsc_push s p = Some s'"
  shows "mpsc_inv (s', pend(p := None), g)"
proof -
  have p: "p < length (mq_producers s)" using assms(1,2) by (cases r) (auto simp: mpsc_inv_def producers_ok_def)
  then have s': "s' = with_reserve s p MPSC_OFFSET_MAX" using assms(3) by (simp add: mpsc_push_def set_reserve_Some)
  have e: "pop_limit s' = pop_limit s" "mpsc_pos_ok s' = mpsc_pos_ok s" "\<And>r st len. place_ok s' r st len = place_ok s r st len"
    by (simp_all add: s' pop_limit_def mpsc_pos_ok_def place_ok_def)
  have q: "mq_producers s' = (mq_producers s)[p := (mq_producers s ! p)\<lparr>pr_reserve_pos := MPSC_OFFSET_MAX\<rparr>]" by (simp add: s' with_reserve_def)
  show ?thesis using assms(1) e p q by (auto simp: mpsc_inv_def producers_ok_def grant_ok_def resn_def nth_list_update s')
qed

lemma inv_pop:
  assumes inv: "mpsc_inv (s, pend, g)" and pop: "mpsc_pop s = Some (s', n, off)"
  shows "mpsc_inv (s', pend, unat n)"
proof -
  have ok: "mpsc_pos_ok s" and po: "producers_ok s pend" using inv by (auto simp: mpsc_inv_def)
  note idle = inv_idle [OF ok po]
  have s': "s' = pop_state s" and n: "rpn s' + unat n \<le> pop_limit s'"
    "\<And>q. q \<in> set (mq_producers s) \<Longrightarrow> pr_flag q \<Longrightarrow> rpn s' \<le> unat (pr_reserve_pos q) \<Longrightarrow> rpn s' + unat n \<le> unat (pr_reserve_pos q)"
    using mpsc_pop_spec [OF ok idle] pop by auto
  note ps = pop_state_ok [OF ok, folded s']
  have caplt: "capn s < 2 ^ 32" using ok by (simp add: mpsc_pos_ok_def)
  have pl: "place_ok s' (resn s' i) st len" if pd: "pend i = Some (st, len)" for i st len
  proof -
    have pi: "place_ok s (resn s i) st len" "i < length (mq_producers s)" "pr_flag (mq_producers s ! i)" using po pd by (auto simp: producers_ok_def)
    have re: "resn s' i = resn s i" using ps(5) by (simp add: resn_def)
    show ?thesis
    proof (cases "pop_jumps s")
      case False
      then show ?thesis using pi(1) by (simp add: s' pop_state_def)
    next
      case True
      then have j: "offn s < rpn s" "rpn s = endn s" "mpsc_ready (mq_rp s) (mq_producers s) MPSC_OFFSET_MAX = Some MPSC_OFFSET_MAX"
        by (auto simp: pop_jumps_def)
      have "\<forall>q \<in> set (mq_producers s). pr_flag q \<longrightarrow> mq_rp s \<le> pr_reserve_pos q \<longrightarrow> MPSC_OFFSET_MAX \<le> pr_reserve_pos q"
        using mpsc_ready_spec [OF idle, of "mq_rp s" MPSC_OFFSET_MAX] j(3) by auto
      then have "rpn s \<le> resn s i \<Longrightarrow> 2 ^ 63 - 1 \<le> resn s i"
        using pi(2,3) unat_OFFSET_MAX(1) by (auto simp: rpn_def resn_def word_le_nat_alt)
      moreover have "resn s i < 2 ^ 32" using place_small [OF ok pi(1)] caplt by linarith
      ultimately have lt: "resn s i < rpn s" by (cases "rpn s \<le> resn s i") auto
      have "resn s i = st" "st + len \<le> offn s" using pi(1) j(1,2) lt by (auto simp: place_ok_def)
      then show ?thesis using ps(2) [OF True] ps(3) re by (simp add: place_ok_def)
    qed
  qed
  have a: "producers_ok s' pend" using po pl ps(5) by (auto simp: producers_ok_def)
  have "rpn s' + unat n \<le> st" if pd: "pend i = Some (st, len)" "rpn s' \<le> st" for i st len
  proof -
    have fl: "mq_producers s ! i \<in> set (mq_producers s)" "pr_flag (mq_producers s ! i)" using po pd(1) by (auto simp: producers_ok_def)
    have r: "resn s' i = st"
      using pl [OF pd(1)] pd(2) by (auto simp: place_ok_def split: if_splits)
    then show ?thesis using n(2) [OF fl] pd(2) ps(5) by (simp add: resn_def)
  qed
  then have "grant_ok s' pend (unat n)" using n(1) by (simp add: grant_ok_def)
  then show ?thesis using inv a ps(1) by (simp add: mpsc_inv_def)
qed

lemma release_rpn:
  assumes "mpsc_pos_ok s" "rpn s + unat sz \<le> capn s"
  shows "rpn (mpsc_release s sz) = (if rpn s + unat sz = capn s then 0 else rpn s + unat sz)"
    "offn (mpsc_release s sz) = offn s" "capn (mpsc_release s sz) = capn s" "endn (mpsc_release s sz) = endn s"
    "mq_producers (mpsc_release s sz) = mq_producers s" "mq_warp_end (mpsc_release s sz) = mq_warp_end s" "mq_buf (mpsc_release s sz) = mq_buf s"
    "mq_wp (mpsc_release s sz) = mq_wp s" "mq_cap (mpsc_release s sz) = mq_cap s"
proof -
  have c: "capn s < 2 ^ 32" using assms(1) by (simp add: mpsc_pos_ok_def)
  have u: "unat (mq_rp s + sz) = rpn s + unat sz"
    using assms(2) c by (subst unat_add_lem [THEN iffD1]) (simp_all add: rpn_def)
  have "(mq_rp s + sz = mq_cap s) = (rpn s + unat sz = capn s)" by (simp add: word_unat_eq_iff u capn_def)
  then show "rpn (mpsc_release s sz) = (if rpn s + unat sz = capn s then 0 else rpn s + unat sz)"
    using u by (auto simp: mpsc_release_def Let_def rpn_def)
qed (simp_all add: mpsc_release_def Let_def offn_def capn_def endn_def)

lemma inv_release:
  assumes inv: "mpsc_inv (s, pend, g)" and sz: "unat sz \<le> g"
  shows "mpsc_inv (mpsc_release s sz, pend, g - unat sz)"
proof -
  let ?s = "mpsc_release s sz"
  have ok: "mpsc_pos_ok s" and po: "producers_ok s pend" and gr: "grant_ok s pend g" using inv by (auto simp: mpsc_inv_def)
  have lim: "pop_limit s \<le> capn s" using ok by (auto simp: pop_limit_def mpsc_pos_ok_def split: if_splits)
  have rg: "rpn s + g \<le> pop_limit s" using gr by (simp add: grant_ok_def)
  then have le: "rpn s + unat sz \<le> capn s" using sz lim by linarith
  note r = release_rpn [OF ok le]
  have ok': "mpsc_pos_ok ?s" using ok rg sz r by (auto simp: mpsc_pos_ok_def pop_limit_def split: if_splits)
  have pl: "place_ok ?s (resn s i) st len" if pd: "pend i = Some (st, len)" for i st len
  proof -
    have p: "place_ok s (resn s i) st len" using po pd by (simp add: producers_ok_def)
    have "rpn s \<le> st \<Longrightarrow> rpn s + g \<le> st" using gr pd by (auto simp: grant_ok_def)
    then show ?thesis using p r sz rg lim ok by (auto simp: place_ok_def pop_limit_def mpsc_pos_ok_def split: if_splits)
  qed
  have gr': "grant_ok ?s pend (g - unat sz)"
  proof -
    have lim': "rpn ?s + (g - unat sz) \<le> pop_limit ?s" using rg sz r lim ok by (auto simp: pop_limit_def mpsc_pos_ok_def split: if_splits)
    have "rpn ?s + (g - unat sz) \<le> st" if pd: "pend i = Some (st, len)" "rpn ?s \<le> st" for i st len
    proof (cases "rpn s \<le> st")
      case True
      then have "rpn s + g \<le> st" using gr pd(1) by (auto simp: grant_ok_def)
      then show ?thesis using r(1) sz by (auto split: if_splits)
    next
      case False
      then have "rpn s + unat sz = capn s" using pd(2) r(1) by (auto split: if_splits)
      then show ?thesis using r(1) rg lim sz by auto
    qed
    then show ?thesis using lim' by (simp add: grant_ok_def)
  qed
  have "producers_ok ?s pend" using po pl r(5) by (auto simp: producers_ok_def resn_def)
  then show ?thesis using inv ok' gr' by (simp add: mpsc_inv_def)
qed

lemma inv_acquire:
  assumes inv: "mpsc_inv (s, pend, g)" and p: "pend p = None" "mpsc_p s p = Some q" "pr_flag q" and sz: "off_ok sz"
    and acq: "mpsc_acquire fails s p sz = Some (s', off)"
  shows "mpsc_inv (s', if off < 0 then pend else pend(p \<mapsto> (nat off, unat sz)), g)"
proof -
  have ok: "mpsc_pos_ok s" and po: "producers_ok s pend" and gr: "grant_ok s pend g" using inv by (auto simp: mpsc_inv_def)
  have lp: "p < length (mq_producers s)" "mq_producers s ! p = q" using p(2) by (auto simp: mpsc_p_def split: if_splits)
  have oc: "offn s < capn s" "capn s < 2 ^ 32" using ok by (auto simp: mpsc_pos_ok_def)
  have ow: "unat (off_word (offn s)) = offn s" using off_word_ok [of "offn s"] oc by simp
  have om: "off_word (offn s) \<noteq> MPSC_OFFSET_MAX" using ow oc unat_OFFSET_MAX(1) by auto
  note c = mpsc_acquire_cases [OF ok lp(1) sz, of fails]
  show ?thesis
  proof (cases "no_room s (unat sz)")
    case True
    then have s': "s' = with_reserve s p MPSC_OFFSET_MAX" "off = - 1" using c acq by auto
    have e: "rpn s' = rpn s" "pop_limit s' = pop_limit s" "mpsc_pos_ok s' = mpsc_pos_ok s" "\<And>r st len. place_ok s' r st len = place_ok s r st len"
      by (simp_all add: s' pop_limit_def mpsc_pos_ok_def place_ok_def)
    have q': "mq_producers s' = (mq_producers s)[p := q\<lparr>pr_reserve_pos := MPSC_OFFSET_MAX\<rparr>]" by (simp add: s' with_reserve_def lp)
    have "\<And>j a. pend j = Some a \<Longrightarrow> j \<noteq> p" using p(1) by auto
    then show ?thesis using inv e q' lp by (auto simp: mpsc_inv_def producers_ok_def grant_ok_def resn_def nth_list_update s'(2))
  next
    case False
    let ?st = "if capn s < offn s + unat sz then 0 else offn s"
    let ?pd = "pend(p \<mapsto> (?st, unat sz))"
    have s': "mq_buf s' = mq_buf s" "rpn s' = rpn s" "capn s' = capn s" "mq_wp s' AND MPSC_WRAP_LOCK_BIT = 0"
      "mq_producers s' = (mq_producers s)[p := q\<lparr>pr_reserve_pos := off_word (offn s)\<rparr>]" "off = int ?st"
      using False c acq by (auto simp: with_reserve_def rpn_def capn_def lp(2))
    have cases3: "if capn s < offn s + unat sz then offn s' = unat sz \<and> mq_warp_end s' = off_word (offn s)
        else if capn s = offn s + unat sz then offn s' = 0 \<and> mq_warp_end s' = mq_warp_end s
        else offn s' = offn s + unat sz \<and> mq_warp_end s' = mq_warp_end s"
      using False c acq by (auto split: if_splits)
    have e': "endn s' = (if mq_warp_end s' = MPSC_OFFSET_MAX then capn s else unat (mq_warp_end s'))" by (simp add: endn_def s'(3))
    have nr: "rpn s \<le> offn s \<or> offn s + unat sz < rpn s" "rpn s \<le> offn s \<Longrightarrow> capn s < offn s + unat sz \<Longrightarrow> unat sz < rpn s"
      "rpn s \<le> offn s \<Longrightarrow> capn s = offn s + unat sz \<Longrightarrow> 0 < rpn s"
      using False by (auto simp: no_room_def)
    have rc: "rpn s \<le> capn s" using ok by (auto simp: mpsc_pos_ok_def split: if_splits)
    have ok': "mpsc_pos_ok s'"
      using ok s' cases3 e' ow om nr rc by (auto simp: mpsc_pos_ok_def endn_def split: if_splits)
    have old: "place_ok s' r st len" if "place_ok s r st len" for r st len
      using that ok s' cases3 e' ow om nr rc by (auto simp: place_ok_def mpsc_pos_ok_def endn_def split: if_splits)
    have new: "place_ok s' (offn s) ?st (unat sz)"
      using ok s' cases3 e' ow om nr rc oc by (auto simp: place_ok_def mpsc_pos_ok_def endn_def split: if_splits)
    have res: "resn s' p = offn s" "\<And>i. i \<noteq> p \<Longrightarrow> resn s' i = resn s i" using s'(5) lp(1) ow by (auto simp: resn_def)
    have po': "producers_ok s' ?pd"
      using po old new res s'(5) lp p(3) by (auto simp: producers_ok_def nth_list_update)
    have lim: "rpn s + g \<le> pop_limit s'"
      using gr ok cases3 s' e' ow om nr rc by (auto simp: grant_ok_def pop_limit_def mpsc_pos_ok_def endn_def split: if_splits)
    have ng: "rpn s \<le> ?st \<Longrightarrow> rpn s + g \<le> ?st"
      using gr nr by (auto simp: grant_ok_def pop_limit_def split: if_splits)
    have gr': "grant_ok s' ?pd g" using gr lim ng s'(2) by (auto simp: grant_ok_def)
    have ap: "apart (?st, unat sz) b \<and> apart b (?st, unat sz)" if b: "pend i = Some b" for i b
    proof -
      obtain st len where bb: "b = (st, len)" by (cases b)
      then have "place_ok s (resn s i) st len" using po b by (simp add: producers_ok_def)
      then show ?thesis using nr rc unfolding bb by (auto simp: place_ok_def apart_def split: if_splits)
    qed
    have "\<forall>i j a b. ?pd i = Some a \<longrightarrow> ?pd j = Some b \<longrightarrow> i \<noteq> j \<longrightarrow> apart a b"
      using inv ap by (auto simp: mpsc_inv_def)
    then have "mpsc_inv (s', ?pd, g)" using ok' po' gr' by (simp add: mpsc_inv_def)
    then show ?thesis using s'(6) by simp
  qed
qed

lemma mpsc_inv_step: "mpsc_step x y \<Longrightarrow> mpsc_inv x \<Longrightarrow> mpsc_inv y"
  by (induction rule: mpsc_step.induct)
    (blast intro: inv_reg inv_unreg inv_acquire inv_fill inv_push inv_pop inv_release)+

lemma mpsc_fresh_inv: "mpsc_fresh s \<Longrightarrow> mpsc_inv (s, \<lambda>i. None, 0)"
  by (auto simp: mpsc_fresh_def mpsc_inv_def mpsc_pos_ok_def producers_ok_def grant_ok_def pop_limit_def offn_def rpn_def)

lemma mpsc_reach_inv: "mpsc_reach x \<Longrightarrow> mpsc_inv x"
  by (induction rule: mpsc_reach.induct) (auto intro: mpsc_fresh_inv mpsc_inv_step)

subsection \<open>Properties\<close>

definition demo_ring :: mpsc_t where
  "demo_ring = \<lparr>mq_buf = replicate 8 0, mq_cap = 8, mq_warp_end = MPSC_OFFSET_MAX, mq_wp = 0, mq_rp = 0,
     mq_producers = replicate 2 \<lparr>pr_reserve_pos = 0, pr_flag = False\<rparr>\<rparr>"

text \<open>What the invariant gives.\<close>

lemma inv_exclusive:
  assumes "mpsc_inv (s, pend, g)"
  shows "rpn s + g \<le> capn s \<and> capn s \<le> length (mq_buf s) \<and>
    (\<forall>i st len. pend i = Some (st, len) \<longrightarrow> st + len \<le> capn s \<and> (st + len \<le> rpn s \<or> rpn s + g \<le> st) \<and>
      (\<forall>j st' len'. pend j = Some (st', len') \<longrightarrow> i \<noteq> j \<longrightarrow> st + len \<le> st' \<or> st' + len' \<le> st))"
proof -
  have inv: "mpsc_pos_ok s" "producers_ok s pend" "grant_ok s pend g" "\<And>i j a b. pend i = Some a \<Longrightarrow> pend j = Some b \<Longrightarrow> i \<noteq> j \<Longrightarrow> apart a b"
    using assms by (auto simp: mpsc_inv_def)
  have lim: "rpn s + g \<le> capn s"
    using inv(1,3) by (auto simp: grant_ok_def pop_limit_def mpsc_pos_ok_def split: if_splits)
  have reg: "st + len \<le> capn s \<and> (st + len \<le> rpn s \<or> rpn s + g \<le> st)" if pd: "pend i = Some (st, len)" for i st len
  proof -
    have pl: "place_ok s (resn s i) st len" using inv(2) pd by (simp add: producers_ok_def)
    have "rpn s \<le> st \<Longrightarrow> rpn s + g \<le> st" using inv(3) pd by (auto simp: grant_ok_def)
    then show ?thesis using pl place_small [OF inv(1) pl] by (auto simp: place_ok_def split: if_splits)
  qed
  show ?thesis using lim reg inv(1,4) by (fastforce simp: mpsc_pos_ok_def apart_def)
qed

text \<open>However the calls of any number of producers and of the consumer are ordered, no two reserved
  regions overlap, each lies inside the buffer, and the bytes granted to the consumer lie inside the
  buffer and outside every region that is reserved and not yet pushed.\<close>

theorem mpsc_regions_exclusive:
  assumes "mpsc_reach (s, pend, g)"
  shows "rpn s + g \<le> capn s \<and> capn s \<le> length (mq_buf s) \<and>
    (\<forall>i st len. pend i = Some (st, len) \<longrightarrow> st + len \<le> capn s \<and> (st + len \<le> rpn s \<or> rpn s + g \<le> st) \<and>
      (\<forall>j st' len'. pend j = Some (st', len') \<longrightarrow> i \<noteq> j \<longrightarrow> st + len \<le> st' \<or> st' + len' \<le> st))"
  by (rule inv_exclusive [OF mpsc_reach_inv [OF assms]])

theorem mpsc_regions_exclusive_witness:
  "\<exists>s pend. mpsc_reach (s, pend, 0) \<and> pend 0 = Some (0, 3) \<and> pend 1 = Some (3, 4) \<and> capn s = 8"
proof -
  define s1 where "s1 = demo_ring\<lparr>mq_producers := (mq_producers demo_ring)[0 := \<lparr>pr_reserve_pos = MPSC_OFFSET_MAX, pr_flag = True\<rparr>]\<rparr>"
  define s2 where "s2 = s1\<lparr>mq_producers := (mq_producers s1)[1 := \<lparr>pr_reserve_pos = MPSC_OFFSET_MAX, pr_flag = True\<rparr>]\<rparr>"
  have "mpsc_fresh demo_ring" by (simp add: mpsc_fresh_def demo_ring_def capn_def)
  then have r0: "mpsc_reach (demo_ring, \<lambda>i. None, 0)" by (rule mpsc_reach.init)
  have "mpsc_step (demo_ring, \<lambda>i. None, 0) (s1, \<lambda>i. None, 0)"
    by (rule mpsc_step.reg [of _ 0]) (simp_all add: mpsc_reg_def mpsc_set_p_def s1_def demo_ring_def)
  note r1 = mpsc_reach.step [OF r0 this]
  have "mpsc_step (s1, \<lambda>i. None, 0) (s2, \<lambda>i. None, 0)"
    by (rule mpsc_step.reg [of _ 1]) (simp_all add: mpsc_reg_def mpsc_set_p_def s1_def s2_def demo_ring_def)
  note r2 = mpsc_reach.step [OF r1 this]
  have "case mpsc_acquire 0 s2 0 3 of None \<Rightarrow> False | Some (s3, o1) \<Rightarrow> o1 = 0 \<and>
    (case mpsc_acquire 0 s3 1 4 of None \<Rightarrow> False | Some (s4, o2) \<Rightarrow> o2 = 3 \<and> capn s4 = 8 \<and>
      (case mpsc_p s3 1 of None \<Rightarrow> False | Some q \<Rightarrow> pr_flag q))"
    unfolding s2_def s1_def demo_ring_def by code_simp
  then obtain s3 s4 q where a: "mpsc_acquire 0 s2 0 3 = Some (s3, 0)" "mpsc_acquire 0 s3 1 4 = Some (s4, 3)" "capn s4 = 8"
    "mpsc_p s3 1 = Some q" "pr_flag q" by (auto split: option.splits)
  have "mpsc_step (s2, \<lambda>i. None, 0) (s3, if (0 :: int) < 0 then \<lambda>i. None else (\<lambda>i. None)(0 \<mapsto> (nat 0, unat (3 :: usz))), 0)"
    by (rule mpsc_step.acquire [of _ _ _ "\<lparr>pr_reserve_pos = MPSC_OFFSET_MAX, pr_flag = True\<rparr>" _ 0])
      (simp_all add: a off_ok_def, simp add: mpsc_p_def s2_def s1_def demo_ring_def)
  note r3 = mpsc_reach.step [OF r2 this]
  have "mpsc_step (s3, [0 \<mapsto> (0, 3)], 0) (s4, if (3 :: int) < 0 then [0 \<mapsto> (0, 3)] else [0 \<mapsto> (0, 3)](1 \<mapsto> (nat 3, unat (4 :: usz))), 0)"
    by (rule mpsc_step.acquire [of _ 1 _ q _ 0]) (use a in \<open>simp_all add: off_ok_def\<close>)
  then have "mpsc_reach (s4, [0 \<mapsto> (0, 3), 1 \<mapsto> (3, 4)], 0)" using r3 mpsc_reach.step by fastforce
  with mpsc_regions_exclusive [OF this] a(3) show ?thesis by (intro exI [of _ s4]) auto
qed

end
