(* ===== verification/Mpsc_Atomic.thy ===== *)
theory Mpsc_Atomic
  imports Mpsc_Regions
begin

section \<open>The multi-producer ring, one atomic operation at a time (ds/mpsc.h)\<close>

text \<open>
  The calls of \<open>Mpsc\<close> taken apart: a step is one access to the shared memory by one producer or by the
  consumer, in the order of the code, and the steps of all of them interleave in any way. A spinning
  wait is the absence of a step. The plain accesses to the end of the lap that follow one another in the
  consumer are one step: nobody else touches it then (\<open>Mpsc_Atomic_Props\<close>). \<open>clap\<close> and \<open>cjump\<close> are ghosts: the laps so far (the code keeps 31 bits
  of their number above the offset), and the offset a jump under way started from.
\<close>

subsection \<open>Steps\<close>

text \<open>What a producer is about to do; a size, the write position it loaded and the lap it was loaded in,
  the read position it loaded, the target of its compare-and-swap.\<close>

datatype prod_pc =
    PIdle | PRegister
  | PLoad usz
  | PMark usz usz nat
  | PRead usz usz nat
  | PTry usz usz nat usz
  | PWon usz usz usz
  | PEnd usz usz usz
  | PUnlock usz usz usz
  | POwns nat nat

text \<open>The consumer holds granted bytes, or is in \<open>mpsc_pop\<close>: the offset of the write position it loaded,
  the next producer to look at, and \<open>ready\<close>. A jump remembers the end of the lap it has just cleared.\<close>

datatype cons_pc = CHolds nat | CPop | CScan usz nat usz | CLook usz nat usz | CJump usz

record mpsc_conc =
  cs :: mpsc_t
  cpc :: "nat \<Rightarrow> prod_pc"
  ccons :: cons_pc
  clap :: nat
  cjump :: "usz option"

definition locked :: "usz \<Rightarrow> bool" where
  "locked w \<longleftrightarrow> w AND MPSC_WRAP_LOCK_BIT \<noteq> 0"

text \<open>The body of the loop of \<open>mpsc_acquire\<close> as a function of what it loaded: no room, or the target.\<close>

definition mpsc_target :: "usz \<Rightarrow> usz \<Rightarrow> usz \<Rightarrow> usz \<Rightarrow> usz option" where
  "mpsc_target cap wp rp sz = (let off = wp AND MPSC_OFFSET_MASK; target = off + sz in
     if off < rp \<and> rp \<le> target then None
     else if cap \<le> target
     then (let target = (if cap < target then MPSC_WRAP_LOCK_BIT OR sz else 0) in
       if rp \<le> target AND MPSC_OFFSET_MASK then None
       else Some (target OR MPSC_WRAP_INCR (wp AND MPSC_WRAP_COUNTER)))
     else Some (target OR (wp AND MPSC_WRAP_COUNTER)))"

definition set_pc :: "mpsc_conc \<Rightarrow> nat \<Rightarrow> prod_pc \<Rightarrow> mpsc_conc" where
  "set_pc c i pc = c\<lparr>cpc := (cpc c)(i := pc)\<rparr>"

definition set_reserve :: "mpsc_conc \<Rightarrow> nat \<Rightarrow> usz \<Rightarrow> mpsc_conc" where
  "set_reserve c i v = c\<lparr>cs := with_reserve (cs c) i v\<rparr>"

definition lap_end :: "mpsc_t \<Rightarrow> usz" where
  "lap_end s = (if mq_warp_end s = MPSC_OFFSET_MAX then mq_cap s else mq_warp_end s)"

text \<open>Producers: registration, then the steps of \<open>mpsc_acquire\<close>, the writing, and \<open>mpsc_push\<close>. The
  compare-and-swap may fail at any time; it compares the word, so that a producer that sleeps for two to
  the 31 laps could take an old position for the present one: the step excludes that.\<close>

inductive prod_step :: "mpsc_conc \<Rightarrow> nat \<Rightarrow> mpsc_conc \<Rightarrow> bool" where
  reg_pos: "\<lbrakk>cpc c i = PIdle; i < length (mq_producers (cs c))\<rbrakk> \<Longrightarrow> prod_step c i (set_pc (set_reserve c i MPSC_OFFSET_MAX) i PRegister)"
| reg_flag: "\<lbrakk>cpc c i = PRegister; mpsc_p (cs c) i = Some q; mpsc_set_p (cs c) i (q\<lparr>pr_flag := True\<rparr>) = Some s'\<rbrakk> \<Longrightarrow>
    prod_step c i (set_pc (c\<lparr>cs := s'\<rparr>) i PIdle)"
| unreg: "\<lbrakk>cpc c i = PIdle; mpsc_unreg (cs c) i = Some s'\<rbrakk> \<Longrightarrow> prod_step c i (c\<lparr>cs := s'\<rparr>)"
| begin_acq: "\<lbrakk>cpc c i = PIdle; mpsc_p (cs c) i = Some q; pr_flag q; off_ok sz\<rbrakk> \<Longrightarrow> prod_step c i (set_pc c i (PLoad sz))"
| load_wp: "\<lbrakk>cpc c i = PLoad sz; \<not> locked (mq_wp (cs c))\<rbrakk> \<Longrightarrow> prod_step c i (set_pc c i (PMark sz (mq_wp (cs c)) (clap c)))"
| mark: "cpc c i = PMark sz wp l \<Longrightarrow>
    prod_step c i (set_pc (set_reserve c i ((wp AND MPSC_OFFSET_MASK) OR MPSC_WRAP_LOCK_BIT)) i (PRead sz wp l))"
| load_rp: "cpc c i = PRead sz wp l \<Longrightarrow> prod_step c i (set_pc c i (PTry sz wp l (mq_rp (cs c))))"
| no_room: "\<lbrakk>cpc c i = PTry sz wp l rp; mpsc_target (mq_cap (cs c)) wp rp sz = None\<rbrakk> \<Longrightarrow>
    prod_step c i (set_pc (set_reserve c i MPSC_OFFSET_MAX) i PIdle)"
| cas_fails: "\<lbrakk>cpc c i = PTry sz wp l rp; mpsc_target (mq_cap (cs c)) wp rp sz = Some t\<rbrakk> \<Longrightarrow> prod_step c i (set_pc c i (PLoad sz))"
| cas: "\<lbrakk>cpc c i = PTry sz wp l rp; mpsc_target (mq_cap (cs c)) wp rp sz = Some t; mq_wp (cs c) = wp; int (clap c) < int l + 2 ^ 31\<rbrakk> \<Longrightarrow>
    prod_step c i (set_pc (c\<lparr>cs := (cs c)\<lparr>mq_wp := t\<rparr>,
      clap := (if mq_cap (cs c) \<le> (wp AND MPSC_OFFSET_MASK) + sz then clap c + 1 else clap c),
      cjump := (if locked t then Some (wp AND MPSC_OFFSET_MASK) else cjump c)\<rparr>) i (PWon (wp AND MPSC_OFFSET_MASK) sz t))"
| clear: "\<lbrakk>cpc c i = PWon off sz t; mpsc_p (cs c) i = Some q\<rbrakk> \<Longrightarrow>
    prod_step c i (set_pc (set_reserve c i (pr_reserve_pos q AND NOT MPSC_WRAP_LOCK_BIT)) i
      (if locked t then PEnd off sz t else POwns (unat off) (unat sz)))"
| lap_ends: "cpc c i = PEnd off sz t \<Longrightarrow> prod_step c i (set_pc (c\<lparr>cs := (cs c)\<lparr>mq_warp_end := off\<rparr>\<rparr>) i (PUnlock off sz t))"
| unlock: "cpc c i = PUnlock off sz t \<Longrightarrow>
    prod_step c i (set_pc (c\<lparr>cs := (cs c)\<lparr>mq_wp := t AND NOT MPSC_WRAP_LOCK_BIT\<rparr>, cjump := None\<rparr>) i (POwns 0 (unat sz)))"
| fill: "\<lbrakk>cpc c i = POwns st len; o1 + length xs \<le> len; mem_put (mq_buf (cs c)) (st + o1) xs = Some b\<rbrakk> \<Longrightarrow>
    prod_step c i (c\<lparr>cs := (cs c)\<lparr>mq_buf := b\<rparr>\<rparr>)"
| push: "cpc c i = POwns st len \<Longrightarrow> prod_step c i (set_pc (set_reserve c i MPSC_OFFSET_MAX) i PIdle)"

text \<open>The consumer: \<open>mpsc_pop\<close>, then \<open>mpsc_release\<close> of what it was granted, in parts.\<close>

inductive cons_step :: "mpsc_conc \<Rightarrow> mpsc_conc \<Rightarrow> bool" where
  begin_pop: "ccons c = CHolds g \<Longrightarrow> cons_step c (c\<lparr>ccons := CPop\<rparr>)"
| pop_empty: "\<lbrakk>ccons c = CPop; \<not> locked (mq_wp (cs c)); mq_rp (cs c) = mq_wp (cs c) AND MPSC_OFFSET_MASK\<rbrakk> \<Longrightarrow>
    cons_step c (c\<lparr>ccons := CHolds 0\<rparr>)"
| pop_wp: "\<lbrakk>ccons c = CPop; \<not> locked (mq_wp (cs c)); mq_rp (cs c) \<noteq> mq_wp (cs c) AND MPSC_OFFSET_MASK\<rbrakk> \<Longrightarrow>
    cons_step c (c\<lparr>ccons := CScan (mq_wp (cs c) AND MPSC_OFFSET_MASK) 0 MPSC_OFFSET_MAX\<rparr>)"
| scan_flag: "\<lbrakk>ccons c = CScan wp i r; mpsc_p (cs c) i = Some q\<rbrakk> \<Longrightarrow>
    cons_step c (c\<lparr>ccons := (if pr_flag q then CLook wp i r else CScan wp (Suc i) r)\<rparr>)"
| scan_pos: "\<lbrakk>ccons c = CLook wp i r; mpsc_p (cs c) i = Some q; \<not> locked (pr_reserve_pos q)\<rbrakk> \<Longrightarrow>
    cons_step c (c\<lparr>ccons := CScan wp (Suc i) (if mq_rp (cs c) \<le> pr_reserve_pos q \<and> pr_reserve_pos q < r then pr_reserve_pos q else r)\<rparr>)"
| grant: "\<lbrakk>ccons c = CScan wp i r; i = length (mq_producers (cs c)); \<not> wp < mq_rp (cs c)\<rbrakk> \<Longrightarrow>
    cons_step c (c\<lparr>ccons := CHolds (unat ((if r < wp then r else wp) - mq_rp (cs c)))\<rparr>)"
| grant_lap: "\<lbrakk>ccons c = CScan wp i r; i = length (mq_producers (cs c)); wp < mq_rp (cs c); \<not> (r = MPSC_OFFSET_MAX \<and> mq_rp (cs c) = lap_end (cs c))\<rbrakk> \<Longrightarrow>
    cons_step c (c\<lparr>ccons := CHolds (unat ((if r < lap_end (cs c) then r else lap_end (cs c)) - mq_rp (cs c)))\<rparr>)"
| jump_end: "\<lbrakk>ccons c = CScan wp i r; i = length (mq_producers (cs c)); wp < mq_rp (cs c); r = MPSC_OFFSET_MAX; mq_rp (cs c) = lap_end (cs c)\<rbrakk> \<Longrightarrow>
    cons_step c (c\<lparr>cs := (cs c)\<lparr>mq_warp_end := MPSC_OFFSET_MAX\<rparr>, ccons := CJump (mq_warp_end (cs c))\<rparr>)"
| jump_rp: "ccons c = CJump e \<Longrightarrow> cons_step c (c\<lparr>cs := (cs c)\<lparr>mq_rp := 0\<rparr>, ccons := CPop\<rparr>)"
| release: "\<lbrakk>ccons c = CHolds g; unat sz \<le> g\<rbrakk> \<Longrightarrow> cons_step c (c\<lparr>cs := mpsc_release (cs c) sz, ccons := CHolds (g - unat sz)\<rparr>)"

inductive atomic_reach :: "mpsc_conc \<Rightarrow> bool" where
  init: "\<lbrakk>mpsc_fresh (cs c); \<forall>i. cpc c i = PIdle; ccons c = CHolds 0; clap c = 0; cjump c = None\<rbrakk> \<Longrightarrow> atomic_reach c"
| prod: "atomic_reach c \<Longrightarrow> prod_step c i c' \<Longrightarrow> atomic_reach c'"
| cons: "atomic_reach c \<Longrightarrow> cons_step c c' \<Longrightarrow> atomic_reach c'"

subsection \<open>The calls behind the steps\<close>

text \<open>
  The state in which a reservation takes effect at its compare-and-swap, and is nothing before it: the
  state of \<open>Mpsc_Regions\<close>, where calls are whole. A jump to the start sets the end of the lap at once.
\<close>

definition prod_abs :: "prod_pc \<Rightarrow> mpsc_p_t \<Rightarrow> mpsc_p_t" where
  "prod_abs pc q = (case pc of PLoad sz \<Rightarrow> q\<lparr>pr_reserve_pos := MPSC_OFFSET_MAX\<rparr> | PMark sz w l \<Rightarrow> q\<lparr>pr_reserve_pos := MPSC_OFFSET_MAX\<rparr>
     | PRead sz w l \<Rightarrow> q\<lparr>pr_reserve_pos := MPSC_OFFSET_MAX\<rparr> | PTry sz w l rp \<Rightarrow> q\<lparr>pr_reserve_pos := MPSC_OFFSET_MAX\<rparr>
     | PWon off sz t \<Rightarrow> q\<lparr>pr_reserve_pos := off\<rparr> | _ \<Rightarrow> q)"

definition prods_abs :: "(nat \<Rightarrow> prod_pc) \<Rightarrow> mpsc_p_t list \<Rightarrow> mpsc_p_t list" where
  "prods_abs pcs ps = map (\<lambda>i. prod_abs (pcs i) (ps ! i)) [0 ..< length ps]"

definition end_abs :: "usz option \<Rightarrow> cons_pc \<Rightarrow> usz \<Rightarrow> usz" where
  "end_abs j cc e = (case j of Some off \<Rightarrow> off | None \<Rightarrow> (case cc of CJump e' \<Rightarrow> e' | _ \<Rightarrow> e))"

lemma end_abs_simps [simp]:
  "end_abs j (CHolds g) e = end_abs j CPop e" "end_abs j (CScan wp i r) e = end_abs j CPop e" "end_abs j (CLook wp i r) e = end_abs j CPop e"
  "end_abs None CPop e = e" "end_abs (Some off) cc e = off" "end_abs None (CJump e') e = e'"
  by (simp_all add: end_abs_def split: option.splits)

definition atomic_abs :: "mpsc_conc \<Rightarrow> mpsc_t" where
  "atomic_abs c = (cs c)\<lparr>mq_wp := mq_wp (cs c) AND NOT MPSC_WRAP_LOCK_BIT,
     mq_warp_end := end_abs (cjump c) (ccons c) (mq_warp_end (cs c)), mq_producers := prods_abs (cpc c) (mq_producers (cs c))\<rparr>"

fun region :: "prod_pc \<Rightarrow> (nat \<times> nat) option" where
  "region (PWon off sz t) = Some (if locked t then 0 else unat off, unat sz)"
| "region (PEnd off sz t) = Some (0, unat sz)"
| "region (PUnlock off sz t) = Some (0, unat sz)"
| "region (POwns st len) = Some (st, len)"
| "region pc = None"

definition pend :: "mpsc_conc \<Rightarrow> nat \<Rightarrow> (nat \<times> nat) option" where
  "pend c i = region (cpc c i)"

fun granted :: "cons_pc \<Rightarrow> nat" where
  "granted (CHolds g) = g"
| "granted cc = 0"

subsection \<open>Words\<close>

lemma length_prods_abs [simp]: "length (prods_abs pcs ps) = length ps"
  by (simp add: prods_abs_def)

lemma nth_prods_abs [simp]: "i < length ps \<Longrightarrow> prods_abs pcs ps ! i = prod_abs (pcs i) (ps ! i)"
  by (simp add: prods_abs_def)

lemma prods_abs_upd: "i < length ps \<Longrightarrow> prods_abs (pcs(i := pc)) (ps[i := q]) = (prods_abs pcs ps)[i := prod_abs pc q]"
  by (rule nth_equalityI) (auto simp: nth_list_update)

lemma prods_abs_same:
  "(\<And>j. j < length ps \<Longrightarrow> prod_abs (pcs' j) (ps' ! j) = prod_abs (pcs j) (ps ! j)) \<Longrightarrow> length ps' = length ps \<Longrightarrow> prods_abs pcs' ps' = prods_abs pcs ps"
  by (rule nth_equalityI) auto

lemma flag_prod_abs [simp]: "pr_flag (prod_abs pc q) = pr_flag q"
  by (simp add: prod_abs_def split: prod_pc.splits)

lemma unlock_bits: "(w AND NOT MPSC_WRAP_LOCK_BIT) AND MPSC_OFFSET_MASK = w AND MPSC_OFFSET_MASK"
    "(w AND NOT MPSC_WRAP_LOCK_BIT) AND MPSC_WRAP_COUNTER = w AND MPSC_WRAP_COUNTER"
    "(w AND NOT MPSC_WRAP_LOCK_BIT) AND MPSC_WRAP_LOCK_BIT = 0"
  by (rule bit_word_eqI; auto simp: bit_and_iff bit_not_iff mpsc_bits)+

lemma unlocked_same: "\<not> locked w \<Longrightarrow> w AND NOT MPSC_WRAP_LOCK_BIT = w"
proof (rule bit_word_eqI)
  fix n assume l: "\<not> locked w" and "n < LENGTH(64)"
  have "\<not> bit w 63"
  proof
    assume "bit w 63"
    then have "bit (w AND MPSC_WRAP_LOCK_BIT) 63" by (simp add: bit_and_iff mpsc_bits)
    then show False using l by (simp add: locked_def)
  qed
  then show "bit (w AND NOT MPSC_WRAP_LOCK_BIT) n = bit w n" by (auto simp: bit_and_iff bit_not_iff mpsc_bits dest: bit_imp_le_length)
qed

lemma mark_bits: "off_ok off \<Longrightarrow> locked (off OR MPSC_WRAP_LOCK_BIT)" "off_ok off \<Longrightarrow> (off OR MPSC_WRAP_LOCK_BIT) AND NOT MPSC_WRAP_LOCK_BIT = off"
proof -
  assume o: "off_ok off"
  have "bit ((off OR MPSC_WRAP_LOCK_BIT) AND MPSC_WRAP_LOCK_BIT) 63" by (simp add: bit_and_iff bit_or_iff mpsc_bits)
  then show "locked (off OR MPSC_WRAP_LOCK_BIT)" by (auto simp: locked_def)
  show "(off OR MPSC_WRAP_LOCK_BIT) AND NOT MPSC_WRAP_LOCK_BIT = off" by (rule wp_fields(6) [OF o])
qed

text \<open>The number of laps in the word.\<close>

definition wp_lap :: "usz \<Rightarrow> nat" where
  "wp_lap w = unat (w AND MPSC_WRAP_COUNTER) div 2 ^ 32"

lemma counter_eq: "w AND MPSC_WRAP_COUNTER = push_bit 32 (take_bit 31 (drop_bit 32 w))" for w :: usz
  by (rule bit_word_eqI) (auto simp: bit_and_iff mpsc_bits bit_push_bit_iff bit_take_bit_iff bit_drop_bit_eq)

lemma unat_field: "unat (push_bit 32 (take_bit 31 x)) = 2 ^ 32 * unat (take_bit 31 x)" "unat (take_bit 31 x) < 2 ^ 31" for x :: usz
proof -
  show k: "unat (take_bit 31 x) < 2 ^ 31" unfolding unsigned_take_bit_eq by (rule take_bit_nat_less_exp)
  then show "unat (push_bit 32 (take_bit 31 x)) = 2 ^ 32 * unat (take_bit 31 x)"
    unfolding push_bit_eq_mult by (subst unat_mult_lem [THEN iffD1]) simp_all
qed

lemma counter_unat: "unat (w AND MPSC_WRAP_COUNTER) = 2 ^ 32 * wp_lap w" "wp_lap w < 2 ^ 31" for w :: usz
  unfolding wp_lap_def counter_eq unat_field(1) using unat_field(2) [of "drop_bit 32 w"] by simp_all

lemma wp_lap_fields:
  assumes "off_ok a"
  shows "wp_lap (a OR (w AND MPSC_WRAP_COUNTER)) = wp_lap w" "wp_lap ((MPSC_WRAP_LOCK_BIT OR a) OR (w AND MPSC_WRAP_COUNTER)) = wp_lap w"
    "wp_lap (a OR MPSC_WRAP_INCR (w AND MPSC_WRAP_COUNTER)) = (wp_lap w + 1) mod 2 ^ 31"
    "wp_lap ((MPSC_WRAP_LOCK_BIT OR a) OR MPSC_WRAP_INCR (w AND MPSC_WRAP_COUNTER)) = (wp_lap w + 1) mod 2 ^ 31"
    "wp_lap (w AND NOT MPSC_WRAP_LOCK_BIT) = wp_lap w"
proof -
  have f: "(a OR (x AND MPSC_WRAP_COUNTER)) AND MPSC_WRAP_COUNTER = x AND MPSC_WRAP_COUNTER"
    "((MPSC_WRAP_LOCK_BIT OR a) OR (x AND MPSC_WRAP_COUNTER)) AND MPSC_WRAP_COUNTER = x AND MPSC_WRAP_COUNTER" for x
    using off_ok_bits [OF assms] by (intro bit_word_eqI; force simp: bit_and_iff bit_or_iff mpsc_bits)+
  show "wp_lap (a OR (w AND MPSC_WRAP_COUNTER)) = wp_lap w" "wp_lap ((MPSC_WRAP_LOCK_BIT OR a) OR (w AND MPSC_WRAP_COUNTER)) = wp_lap w"
    by (simp_all add: wp_lap_def f)
  have i: "wp_lap (MPSC_WRAP_INCR (w AND MPSC_WRAP_COUNTER)) = (wp_lap w + 1) mod 2 ^ 31"
  proof -
    have "unat ((w AND MPSC_WRAP_COUNTER) + 0x100000000) = 2 ^ 32 * (wp_lap w + 1)"
      using counter_unat [of w] by (subst unat_add_lem [THEN iffD1]) simp_all
    then have e: "unat (drop_bit 32 ((w AND MPSC_WRAP_COUNTER) + 0x100000000)) = wp_lap w + 1"
      by (simp add: drop_bit_eq_div unat_div_distrib)
    then have d: "drop_bit 32 ((w AND MPSC_WRAP_COUNTER) + 0x100000000) = of_nat (wp_lap w + 1)"
      unfolding e [symmetric] by simp
    have "unat (MPSC_WRAP_INCR (w AND MPSC_WRAP_COUNTER)) = 2 ^ 32 * unat (take_bit 31 (of_nat (wp_lap w + 1) :: usz))"
      unfolding MPSC_WRAP_INCR_def counter_eq [of "_ + _"] d by (rule unat_field)
    also have "unat (take_bit 31 (of_nat (wp_lap w + 1) :: usz)) = (wp_lap w + 1) mod 2 ^ 31"
      unfolding unsigned_take_bit_eq unat_of_nat unfolding take_bit_eq_mod using counter_unat(2) [of w] by simp
    finally show ?thesis by (simp add: wp_lap_def f MPSC_WRAP_INCR_def)
  qed
  show "wp_lap (a OR MPSC_WRAP_INCR (w AND MPSC_WRAP_COUNTER)) = (wp_lap w + 1) mod 2 ^ 31"
    "wp_lap ((MPSC_WRAP_LOCK_BIT OR a) OR MPSC_WRAP_INCR (w AND MPSC_WRAP_COUNTER)) = (wp_lap w + 1) mod 2 ^ 31"
    using i by (simp_all add: wp_lap_def MPSC_WRAP_INCR_def f)
  show "wp_lap (w AND NOT MPSC_WRAP_LOCK_BIT) = wp_lap w" by (simp add: wp_lap_def unlock_bits)
qed

end
