(* ===== verification/Mpsc_Atomic_Inv.thy ===== *)
theory Mpsc_Atomic_Inv
  imports Mpsc_Atomic
begin

section \<open>The multi-producer ring between two atomic operations: the invariant\<close>

text \<open>
  The invariant of the interleaved steps: the state behind them (\<open>atomic_abs\<close>) is one the whole calls can reach,
  and what each producer and the consumer have loaded is still true in the sense their next step needs.
  Every step keeps it; a compare-and-swap that succeeds is a whole reservation of \<open>Mpsc_Inv\<close>, a push, a
  release and a fill are the calls, and the other steps change nothing the calls see.
\<close>

subsection \<open>The invariant\<close>

text \<open>What a producer loaded and marked is still true of the lap it was loaded in; the read position it
  loaded is one the reader has passed, in ring order, as long as the write position has not moved.\<close>

definition seen :: "mpsc_conc \<Rightarrow> usz \<Rightarrow> nat \<Rightarrow> bool" where
  "seen c wp l \<longleftrightarrow> \<not> locked wp \<and> l \<le> clap c \<and> wp_lap wp = l mod 2 ^ 31 \<and> (l = clap c \<longrightarrow> unat (wp AND MPSC_OFFSET_MASK) \<le> offn (cs c))"

definition reader_moved :: "nat \<Rightarrow> nat \<Rightarrow> nat \<Rightarrow> bool" where
  "reader_moved off r0 r \<longleftrightarrow> (if r0 \<le> off then r0 \<le> r \<and> r \<le> off else r0 \<le> r \<or> r \<le> off)"

fun pc_ok :: "mpsc_conc \<Rightarrow> mpsc_p_t \<Rightarrow> prod_pc \<Rightarrow> bool" where
  "pc_ok c q PIdle \<longleftrightarrow> True"
| "pc_ok c q PRegister \<longleftrightarrow> pr_reserve_pos q = MPSC_OFFSET_MAX"
| "pc_ok c q (PLoad sz) \<longleftrightarrow> pr_flag q \<and> off_ok sz"
| "pc_ok c q (PMark sz wp l) \<longleftrightarrow> pr_flag q \<and> off_ok sz \<and> seen c wp l"
| "pc_ok c q (PRead sz wp l) \<longleftrightarrow> pr_flag q \<and> off_ok sz \<and> seen c wp l \<and>
     pr_reserve_pos q = (wp AND MPSC_OFFSET_MASK) OR MPSC_WRAP_LOCK_BIT"
| "pc_ok c q (PTry sz wp l rp) \<longleftrightarrow> pr_flag q \<and> off_ok sz \<and> seen c wp l \<and>
     pr_reserve_pos q = (wp AND MPSC_OFFSET_MASK) OR MPSC_WRAP_LOCK_BIT \<and> unat rp \<le> capn (cs c) \<and>
     (l = clap c \<longrightarrow> unat (wp AND MPSC_OFFSET_MASK) = offn (cs c) \<longrightarrow> reader_moved (offn (cs c)) (unat rp) (rpn (cs c)))"
| "pc_ok c q (PWon off sz t) \<longleftrightarrow> off_ok off \<and> off_ok sz \<and> pr_reserve_pos q = off OR MPSC_WRAP_LOCK_BIT \<and>
     (locked t \<longrightarrow> mq_wp (cs c) = t \<and> cjump c = Some off)"
| "pc_ok c q (PEnd off sz t) \<longleftrightarrow> locked t \<and> mq_wp (cs c) = t \<and> cjump c = Some off"
| "pc_ok c q (PUnlock off sz t) \<longleftrightarrow> locked t \<and> mq_wp (cs c) = t \<and> cjump c = Some off \<and> mq_warp_end (cs c) = off"
| "pc_ok c q (POwns st len) \<longleftrightarrow> True"

definition prod_ok :: "mpsc_conc \<Rightarrow> nat \<Rightarrow> bool" where
  "prod_ok c i \<longleftrightarrow> cpc c i = PIdle \<or> (i < length (mq_producers (cs c)) \<and> pc_ok c (mq_producers (cs c) ! i) (cpc c i))"

text \<open>A producer between the compare-and-swap that set the lock bit and the store that clears it.\<close>

fun jumping :: "prod_pc \<Rightarrow> bool" where
  "jumping (PWon off sz t) = locked t"
| "jumping (PEnd off sz t) = True"
| "jumping (PUnlock off sz t) = True"
| "jumping pc = False"

text \<open>The consumer scans: the producers it has passed keep what they own behind the limit of the grant.\<close>

definition scan_lim :: "usz \<Rightarrow> usz \<Rightarrow> usz \<Rightarrow> usz" where
  "scan_lim rp wp r = (if wp < rp then r else if r < wp then r else wp)"

definition scan_ok :: "mpsc_t \<Rightarrow> (nat \<Rightarrow> (nat \<times> nat) option) \<Rightarrow> usz option \<Rightarrow> usz \<Rightarrow> nat \<Rightarrow> usz \<Rightarrow> bool" where
  "scan_ok s pd cj wp i r \<longleftrightarrow> mq_rp s \<le> r \<and>
     (if wp < mq_rp s then cj = None \<and> offn s < rpn s else unat wp \<le> pop_limit s) \<and>
     (\<forall>j < i. pd j \<noteq> None \<longrightarrow> rpn s \<le> resn s j \<longrightarrow> unat (scan_lim (mq_rp s) wp r) \<le> resn s j)"

fun cons_ok :: "mpsc_t \<Rightarrow> (nat \<Rightarrow> (nat \<times> nat) option) \<Rightarrow> usz option \<Rightarrow> usz \<Rightarrow> cons_pc \<Rightarrow> bool" where
  "cons_ok s pd cj e (CScan wp i r) = scan_ok s pd cj wp i r"
| "cons_ok s pd cj e (CLook wp i r) = scan_ok s pd cj wp i r"
| "cons_ok s pd cj e (CJump e') \<longleftrightarrow> cj = None \<and> e = MPSC_OFFSET_MAX \<and> offn s < rpn s \<and> rpn s = endn s \<and> (\<forall>j. pd j \<noteq> None \<longrightarrow> resn s j < rpn s)"
| "cons_ok s pd cj e cc = True"

definition atomic_inv :: "mpsc_conc \<Rightarrow> bool" where
  "atomic_inv c \<longleftrightarrow> mpsc_inv (atomic_abs c, pend c, granted (ccons c)) \<and> (locked (mq_wp (cs c)) \<longleftrightarrow> cjump c \<noteq> None) \<and>
     wp_lap (mq_wp (cs c)) = clap c mod 2 ^ 31 \<and> (\<forall>i. prod_ok c i) \<and>
     (\<forall>i j. jumping (cpc c i) \<longrightarrow> jumping (cpc c j) \<longrightarrow> i = j) \<and>
     cons_ok (atomic_abs c) (pend c) (cjump c) (mq_warp_end (cs c)) (ccons c)"

lemma atomic_abs_simps [simp]:
  "offn (atomic_abs c) = offn (cs c)" "rpn (atomic_abs c) = rpn (cs c)" "capn (atomic_abs c) = capn (cs c)" "mq_rp (atomic_abs c) = mq_rp (cs c)"
  "mq_cap (atomic_abs c) = mq_cap (cs c)" "mq_buf (atomic_abs c) = mq_buf (cs c)" "mq_wp (atomic_abs c) = mq_wp (cs c) AND NOT MPSC_WRAP_LOCK_BIT"
  "mq_warp_end (atomic_abs c) = end_abs (cjump c) (ccons c) (mq_warp_end (cs c))"
  "mq_producers (atomic_abs c) = prods_abs (cpc c) (mq_producers (cs c))"
  by (simp_all add: atomic_abs_def offn_def rpn_def capn_def unlock_bits)

text \<open>Steps that change nothing of what the calls see.\<close>

lemma pc_ok_cong:
  assumes "clap c' = clap c" "cjump c' = cjump c" "mq_wp (cs c') = mq_wp (cs c)" "mq_rp (cs c') = mq_rp (cs c)"
    "mq_cap (cs c') = mq_cap (cs c)" "mq_warp_end (cs c') = mq_warp_end (cs c)"
  shows "pc_ok c' q pc = pc_ok c q pc"
  using assms by (cases pc) (simp_all add: seen_def offn_def rpn_def capn_def)

definition upd_prod :: "mpsc_conc \<Rightarrow> nat \<Rightarrow> mpsc_p_t \<Rightarrow> prod_pc \<Rightarrow> mpsc_conc" where
  "upd_prod c i q pc = c\<lparr>cs := (cs c)\<lparr>mq_producers := (mq_producers (cs c))[i := q]\<rparr>, cpc := (cpc c)(i := pc)\<rparr>"

lemma set_pc_upd: "set_pc c i pc = upd_prod c i (mq_producers (cs c) ! i) pc"
  by (simp add: set_pc_def upd_prod_def)

lemma set_reserve_upd: "set_pc (set_reserve c i v) i pc = upd_prod c i ((mq_producers (cs c) ! i)\<lparr>pr_reserve_pos := v\<rparr>) pc"
  by (simp add: set_pc_def set_reserve_def with_reserve_def upd_prod_def)

lemma upd_prod_simps [simp]:
  "clap (upd_prod c i q pc) = clap c" "cjump (upd_prod c i q pc) = cjump c" "ccons (upd_prod c i q pc) = ccons c"
  "cpc (upd_prod c i q pc) = (cpc c)(i := pc)" "mq_wp (cs (upd_prod c i q pc)) = mq_wp (cs c)" "mq_rp (cs (upd_prod c i q pc)) = mq_rp (cs c)"
  "mq_cap (cs (upd_prod c i q pc)) = mq_cap (cs c)" "mq_warp_end (cs (upd_prod c i q pc)) = mq_warp_end (cs c)"
  "mq_buf (cs (upd_prod c i q pc)) = mq_buf (cs c)" "mq_producers (cs (upd_prod c i q pc)) = (mq_producers (cs c))[i := q]"
  by (simp_all add: upd_prod_def)

lemma abs_upd_prod:
  assumes "i < length (mq_producers (cs c))"
  shows "atomic_abs (upd_prod c i q pc) = (atomic_abs c)\<lparr>mq_producers := (mq_producers (atomic_abs c))[i := prod_abs pc q]\<rparr>"
  using assms by (simp add: atomic_abs_def prods_abs_upd)

lemma pend_upd_prod [simp]: "pend (upd_prod c i q pc) = (pend c)(i := region pc)"
  by (simp add: pend_def fun_eq_iff)

lemma upd_prod_ok:
  assumes "\<forall>i. prod_ok c i" "i < length (mq_producers (cs c))" "pc_ok c q pc"
  shows "prod_ok (upd_prod c i q pc) j"
  using assms(1) [rule_format, of j] assms(2,3) pc_ok_cong [of "upd_prod c i q pc" c]
  by (auto simp: prod_ok_def nth_list_update)

lemma atomic_invD:
  assumes "atomic_inv c"
  shows "mpsc_inv (atomic_abs c, pend c, granted (ccons c))" "locked (mq_wp (cs c)) \<longleftrightarrow> cjump c \<noteq> None"
    "wp_lap (mq_wp (cs c)) = clap c mod 2 ^ 31" "prod_ok c i" "jumping (cpc c i) \<Longrightarrow> jumping (cpc c j) \<Longrightarrow> i = j"
    "cons_ok (atomic_abs c) (pend c) (cjump c) (mq_warp_end (cs c)) (ccons c)"
  using assms unfolding atomic_inv_def by blast+

lemma atomic_invI:
  assumes "mpsc_inv (atomic_abs c, pend c, granted (ccons c))" "locked (mq_wp (cs c)) \<longleftrightarrow> cjump c \<noteq> None"
    "wp_lap (mq_wp (cs c)) = clap c mod 2 ^ 31" "\<And>i. prod_ok c i" "\<And>i j. jumping (cpc c i) \<Longrightarrow> jumping (cpc c j) \<Longrightarrow> i = j"
    "cons_ok (atomic_abs c) (pend c) (cjump c) (mq_warp_end (cs c)) (ccons c)"
  shows "atomic_inv c"
  using assms unfolding atomic_inv_def by blast

lemma jumping_upd:
  assumes "atomic_inv c" "jumping pc \<Longrightarrow> jumping (cpc c i)" "jumping (((cpc c)(i := pc)) k)" "jumping (((cpc c)(i := pc)) j)"
  shows "k = j"
  using assms atomic_invD(5) [OF assms(1)] by (metis fun_upd_apply)

lemma local_step:
  assumes inv: "atomic_inv c" and i: "i < length (mq_producers (cs c))" and same: "prod_abs pc q = prod_abs (cpc c i) (mq_producers (cs c) ! i)"
    "region pc = pend c i" and ok: "pc_ok c q pc" "jumping pc \<Longrightarrow> jumping (cpc c i)"
  shows "atomic_inv (upd_prod c i q pc)"
proof -
  let ?c = "upd_prod c i q pc"
  note d = atomic_invD [OF inv]
  have "(mq_producers (atomic_abs c))[i := prod_abs pc q] = mq_producers (atomic_abs c)"
    using i by (simp add: same(1) list_update_same_conv)
  then have a: "atomic_abs ?c = atomic_abs c" unfolding abs_upd_prod [OF i] by simp
  have p: "pend ?c = pend c" by (simp add: same(2))
  show ?thesis
  proof (rule atomic_invI)
    show "mpsc_inv (atomic_abs ?c, pend ?c, granted (ccons ?c))" unfolding a p using d(1) by simp
    show "locked (mq_wp (cs ?c)) \<longleftrightarrow> cjump ?c \<noteq> None" using d(2) by simp
    show "wp_lap (mq_wp (cs ?c)) = clap ?c mod 2 ^ 31" using d(3) by simp
    show "prod_ok ?c j" for j using inv unfolding atomic_inv_def by (intro upd_prod_ok i ok(1)) blast
    show "k = j" if "jumping (cpc ?c k)" "jumping (cpc ?c j)" for k j
      by (rule jumping_upd [OF inv ok(2)]) (use that in \<open>simp_all only: upd_prod_simps\<close>)
    show "cons_ok (atomic_abs ?c) (pend ?c) (cjump ?c) (mq_warp_end (cs ?c)) (ccons ?c)" unfolding a p using d(6) by simp
  qed
qed

text \<open>Steps that leave a producer without a region.\<close>

lemma cons_ok_frame:
  assumes "cons_ok s pd cj e cc" "mq_rp s' = mq_rp s" "offn s' = offn s" "endn s' = endn s"
    "\<And>j. pd' j \<noteq> None \<Longrightarrow> pd j \<noteq> None \<and> resn s' j = resn s j"
  shows "cons_ok s' pd' cj e cc"
proof -
  have e: "rpn s' = rpn s" "pop_limit s' = pop_limit s" using assms(2-4) by (simp_all add: rpn_def pop_limit_def)
  show ?thesis
  proof (cases cc)
    case (CScan wp i r)
    then show ?thesis using assms(1,2,3,5) e by (auto simp: scan_ok_def)
  next
    case (CLook wp i r)
    then show ?thesis using assms(1,2,3,5) e by (auto simp: scan_ok_def)
  next
    case (CJump x)
    then show ?thesis using assms(1,3,4,5) e by (auto simp del: split_paired_All)
  qed simp_all
qed

lemma resn_upd_prod:
  assumes "i < length (mq_producers (cs c))" "j \<noteq> i"
  shows "resn (atomic_abs (upd_prod c i q pc)) j = resn (atomic_abs c) j"
  unfolding resn_def abs_upd_prod [OF assms(1)] using assms(2) by simp

lemma endn_producers [simp]: "endn (s\<lparr>mq_producers := x\<rparr>) = endn s"
  by (simp add: endn_def capn_def)

lemma idle_step:
  assumes inv: "atomic_inv c" and i: "i < length (mq_producers (cs c))" and pc: "pc_ok c q pc" "\<not> jumping pc" "region pc = None"
    and abs: "mpsc_inv (atomic_abs (upd_prod c i q pc), (pend c)(i := None), granted (ccons c))"
  shows "atomic_inv (upd_prod c i q pc)"
proof -
  let ?c = "upd_prod c i q pc"
  note d = atomic_invD [OF inv]
  have p: "pend ?c = (pend c)(i := None)" by (simp add: pc(3))
  show ?thesis
  proof (rule atomic_invI)
    show "mpsc_inv (atomic_abs ?c, pend ?c, granted (ccons ?c))" unfolding p using abs by simp
    show "locked (mq_wp (cs ?c)) \<longleftrightarrow> cjump ?c \<noteq> None" using d(2) by simp
    show "wp_lap (mq_wp (cs ?c)) = clap ?c mod 2 ^ 31" using d(3) by simp
    show "prod_ok ?c j" for j using inv unfolding atomic_inv_def by (intro upd_prod_ok i pc(1)) blast
    show "k = j" if "jumping (cpc ?c k)" "jumping (cpc ?c j)" for k j
      by (rule jumping_upd [OF inv]) (use pc(2) that in \<open>simp_all only: upd_prod_simps not_True_eq_False\<close>)
    have r: "j \<noteq> i \<Longrightarrow> resn (atomic_abs ?c) j = resn (atomic_abs c) j" for j by (rule resn_upd_prod [OF i])
    show "cons_ok (atomic_abs ?c) (pend ?c) (cjump ?c) (mq_warp_end (cs ?c)) (ccons ?c)"
      unfolding p upd_prod_simps
    proof (rule cons_ok_frame [OF d(6)])
      show "mq_rp (atomic_abs ?c) = mq_rp (atomic_abs c)" by simp
      show "offn (atomic_abs ?c) = offn (atomic_abs c)" "endn (atomic_abs ?c) = endn (atomic_abs c)"
        unfolding abs_upd_prod [OF i] by (simp_all add: offn_def)
      show "pend c j \<noteq> None \<and> resn (atomic_abs ?c) j = resn (atomic_abs c) j" if "((pend c)(i := None)) j \<noteq> None" for j
        using that r [of j] by (cases "j = i") simp_all
    qed
  qed
qed

subsection \<open>The compare-and-swap\<close>

lemma target_stale:
  assumes t: "mpsc_target cap wp r0 sz = Some t" and r: "reader_moved (unat (wp AND MPSC_OFFSET_MASK)) (unat r0) (unat r)"
    and cap: "unat r0 \<le> unat cap" "off_ok sz"
  shows "mpsc_target cap wp r sz = Some t"
proof -
  define off where "off = wp AND MPSC_OFFSET_MASK"
  have o: "off_ok off" by (simp add: off_def off_ok_mask)
  have u: "unat (off + sz) = unat off + unat sz" by (rule unat_off_add [OF o cap(2)])
  note n = word_less_nat_alt word_le_nat_alt u
  have a: "\<not> (off < r0 \<and> r0 \<le> off + sz)" using t by (auto simp: mpsc_target_def Let_def off_def [symmetric])
  then have b: "\<not> (off < r \<and> r \<le> off + sz)" using r by (auto simp: n reader_moved_def off_def [symmetric] split: if_splits)
  have c: "r0 \<le> r" if "cap \<le> off + sz" for x
    using that a r cap(1) by (auto simp: n reader_moved_def off_def [symmetric] split: if_splits)
  show ?thesis using t b c unfolding mpsc_target_def Let_def off_def [symmetric] if_not_P [OF a] if_not_P [OF b]
    by (cases "cap \<le> off + sz"; cases "cap < off + sz") (auto split: if_splits dest: order_trans)
qed

lemma mpsc_target_word:
  assumes "mpsc_target cap wp rp sz = Some t"
  shows "t = (if cap < (wp AND MPSC_OFFSET_MASK) + sz then MPSC_WRAP_LOCK_BIT OR sz else if cap = (wp AND MPSC_OFFSET_MASK) + sz then 0
      else (wp AND MPSC_OFFSET_MASK) + sz) OR
    (if cap \<le> (wp AND MPSC_OFFSET_MASK) + sz then MPSC_WRAP_INCR (wp AND MPSC_WRAP_COUNTER) else wp AND MPSC_WRAP_COUNTER)"
  using assms by (auto simp: mpsc_target_def Let_def split: if_splits)

lemma target_lap:
  assumes t: "mpsc_target cap wp rp sz = Some t" and ok: "off_ok cap" "off_ok sz"
  shows "locked t \<longleftrightarrow> cap < (wp AND MPSC_OFFSET_MASK) + sz"
    "wp_lap t = (if cap \<le> (wp AND MPSC_OFFSET_MASK) + sz then (wp_lap wp + 1) mod 2 ^ 31 else wp_lap wp)"
proof -
  let ?o = "(wp AND MPSC_OFFSET_MASK) + sz"
  have z: "off_ok 0" by (simp add: off_ok_def)
  consider (j) "cap < ?o" | (h) "cap = ?o" | (f) "?o < cap" by (metis linorder_cases)
  then have "(locked t \<longleftrightarrow> cap < ?o) \<and> wp_lap t = (if cap \<le> ?o then (wp_lap wp + 1) mod 2 ^ 31 else wp_lap wp)"
  proof cases
    case j
    then have "t = (MPSC_WRAP_LOCK_BIT OR sz) OR MPSC_WRAP_INCR (wp AND MPSC_WRAP_COUNTER)" using mpsc_target_word [OF t] order_less_imp_le [OF j] by simp
    then show ?thesis using j order_less_imp_le [OF j] wp_lap_fields(4) [OF ok(2)] wp_fields(4) [OF ok(2)] by (simp add: locked_def MPSC_WRAP_INCR_and)
  next
    case h
    then have "t = 0 OR MPSC_WRAP_INCR (wp AND MPSC_WRAP_COUNTER)" using mpsc_target_word [OF t] by simp
    then show ?thesis using h wp_lap_fields(3) [OF z] wp_fields(2) [OF z] by (simp add: locked_def MPSC_WRAP_INCR_and)
  next
    case f
    then have t': "t = ?o OR (wp AND MPSC_WRAP_COUNTER)" using mpsc_target_word [OF t] by auto
    have "off_ok ?o" using f ok(1) by (simp add: off_ok_def word_less_nat_alt)
    then show ?thesis using f t' wp_lap_fields(1) wp_fields(2) by (auto simp: locked_def)
  qed
  then show "locked t \<longleftrightarrow> cap < ?o" "wp_lap t = (if cap \<le> ?o then (wp_lap wp + 1) mod 2 ^ 31 else wp_lap wp)" by simp_all
qed

lemma acquire_target:
  assumes "mq_wp s AND MPSC_WRAP_LOCK_BIT = 0" "p < length (mq_producers s)" "mpsc_target (mq_cap s) (mq_wp s) (mq_rp s) sz = Some t"
  defines "off \<equiv> mq_wp s AND MPSC_OFFSET_MASK"
  shows "mpsc_acquire 0 s p sz = Some (if locked t then ((with_reserve s p off)\<lparr>mq_warp_end := off, mq_wp := t AND NOT MPSC_WRAP_LOCK_BIT\<rparr>, 0)
    else ((with_reserve s p off)\<lparr>mq_wp := t\<rparr>, uint off))"
proof -
  have rnd: "mpsc_acquire_round s p sz = Some (with_reserve s p (off OR MPSC_WRAP_LOCK_BIT), mq_wp s, off, Some t)"
    using assms(1-3) unfolding mpsc_acquire_round_def mpsc_target_def off_def
    by (auto simp: set_reserve_Some Let_def split: if_splits)
  have "(off OR MPSC_WRAP_LOCK_BIT) AND NOT MPSC_WRAP_LOCK_BIT = off" unfolding off_def by (rule wp_fields(6) [OF off_ok_mask])
  then show ?thesis
    using assms(2) by (simp add: mpsc_acquire_def rnd mpsc_p_def set_reserve_Some with_reserve_def locked_def)
qed

text \<open>What a reservation leaves of the reader's side.\<close>

lemma acquire_cons_ok:
  assumes ok: "mpsc_pos_ok s" and p: "p < length (mq_producers s)" and sz: "off_ok sz"
    and acq: "mpsc_acquire 0 s p sz = Some (s', o')" "0 \<le> o'" and pd: "pd p = None"
    and c: "cons_ok s pd cj e cc"
  shows "cons_ok s' (pd(p \<mapsto> r)) (if capn s < offn s + unat sz then Some (off_word (offn s)) else cj) e cc"
proof -
  have nr: "\<not> no_room s (unat sz)" using mpsc_acquire_cases [OF ok p sz, of 0] acq by auto
  note cs = mpsc_acquire_cases [OF ok p sz, of 0, unfolded acq(1)]
  have s': "mq_rp s' = mq_rp s" "mq_cap s' = mq_cap s" "mq_producers s' = mq_producers (with_reserve s p (off_word (offn s)))"
    "if capn s < offn s + unat sz then offn s' = unat sz \<and> mq_warp_end s' = off_word (offn s)
        else if capn s = offn s + unat sz then offn s' = 0 \<and> mq_warp_end s' = mq_warp_end s
        else offn s' = offn s + unat sz \<and> mq_warp_end s' = mq_warp_end s"
    using nr cs by auto
  have b: "offn s < capn s" "capn s < 2 ^ 32" "rpn s \<le> capn s" "rpn s \<le> offn s \<Longrightarrow> mq_warp_end s = MPSC_OFFSET_MAX"
    using ok by (auto simp: mpsc_pos_ok_def split: if_splits)
  have rp: "rpn s' = rpn s" "capn s' = capn s" using s'(1,2) by (simp_all add: rpn_def capn_def)
  have ow: "unat (off_word (offn s)) = offn s" using off_word_ok [of "offn s"] b by simp
  have om: "off_word (offn s) \<noteq> MPSC_OFFSET_MAX" using ow b unat_OFFSET_MAX(1) by auto
  have res: "resn s' p = offn s" "\<And>j. j \<noteq> p \<Longrightarrow> resn s' j = resn s j" using s'(3) p ow by (auto simp: resn_def with_reserve_def)
  have behind: "offn s + unat sz < rpn s \<and> offn s' < rpn s \<and> endn s' = endn s \<and> \<not> capn s < offn s + unat sz" if "offn s < rpn s"
    using that nr b s'(4) rp by (auto simp: no_room_def endn_def split: if_splits)
  have lim: "pop_limit s \<le> pop_limit s'"
  proof (cases "rpn s \<le> offn s")
    case True
    then show ?thesis using nr b s'(4) rp ow om by (auto simp: pop_limit_def endn_def no_room_def split: if_splits)
  next
    case False
    then show ?thesis using behind rp by (simp add: pop_limit_def)
  qed
  have scan: "scan_ok s' (pd(p \<mapsto> r)) (if capn s < offn s + unat sz then Some (off_word (offn s)) else cj) wp i x" if h: "scan_ok s pd cj wp i x" for wp i x
  proof -
    have a: "mq_rp s' \<le> x" using h by (simp add: scan_ok_def s')
    have k: "unat (scan_lim (mq_rp s) wp x) \<le> resn s' j" if "j < i" "(pd(p \<mapsto> r)) j \<noteq> None" "rpn s \<le> resn s' j" for j
    proof (cases "j = p")
      case True
      then have "rpn s \<le> offn s" using that(3) res(1) by simp
      then have "\<not> wp < mq_rp s" "unat wp \<le> offn s" using h by (auto simp: scan_ok_def pop_limit_def split: if_splits)
      then show ?thesis using True res(1) by (auto simp: scan_lim_def word_less_nat_alt)
    next
      case False
      then show ?thesis using h that res(2) [OF False] by (auto simp: scan_ok_def)
    qed
    show ?thesis
    proof (cases "wp < mq_rp s")
      case True
      then show ?thesis using h a k behind rp s'(1) by (auto simp: scan_ok_def)
    next
      case False
      then have "unat wp \<le> pop_limit s'" using h lim by (auto simp: scan_ok_def)
      then show ?thesis using False h a k rp s'(1) by (simp add: scan_ok_def)
    qed
  qed
  show ?thesis
  proof (cases cc)
    case (CJump x)
    then have j: "cj = None" "e = MPSC_OFFSET_MAX" "offn s < rpn s" "rpn s = endn s" "\<And>j. pd j \<noteq> None \<Longrightarrow> resn s j < rpn s" using c by auto
    have "resn s' j < rpn s" if "(pd(p \<mapsto> r)) j \<noteq> None" for j
      using that res j(3) j(5) [of j] by (cases "j = p") auto
    then show ?thesis using j(1-4) behind [OF j(3)] rp CJump by simp
  qed (use c scan in simp_all)
qed

text \<open>Nobody else is between its swap and the end of its jump, and what the others have loaded stays true.\<close>

lemma pc_ok_cas:
  assumes ok: "pc_ok c q pc" and free: "\<not> locked (mq_wp (cs c))" and wp: "if lap then clap c' = clap c + 1 else clap c' = clap c \<and> offn (cs c) \<le> offn (cs c')"
    and eq: "mq_rp (cs c') = mq_rp (cs c)" "mq_cap (cs c') = mq_cap (cs c)"
  shows "pc_ok c' q pc"
proof -
  have s: "seen c wp l \<Longrightarrow> seen c' wp l" for wp l using wp by (auto simp: seen_def split: if_splits)
  have r: "rpn (cs c') = rpn (cs c)" "capn (cs c') = capn (cs c)" using eq by (simp_all add: rpn_def capn_def)
  show ?thesis
  proof (cases pc)
    case (PTry sz w l rp)
    have "reader_moved (offn (cs c')) (unat rp) (rpn (cs c'))" if "l = clap c'" "unat (w AND MPSC_OFFSET_MASK) = offn (cs c')"
    proof -
      have "seen c w l" using ok PTry by simp
      then have "l = clap c" "offn (cs c) = offn (cs c')" using wp that by (auto simp: seen_def split: if_splits)
      then show ?thesis using ok PTry that r by simp
    qed
    then show ?thesis using ok PTry s r by simp
  qed (use ok free s in auto)
qed

lemma cas_step:
  assumes inv: "atomic_inv c" and pc: "cpc c i = PTry sz wp l rp" and t: "mpsc_target (mq_cap (cs c)) wp rp sz = Some t"
    and wp: "mq_wp (cs c) = wp" and recent: "int (clap c) < int l + 2 ^ 31"
  defines "off \<equiv> wp AND MPSC_OFFSET_MASK"
  shows "atomic_inv (set_pc (c\<lparr>cs := (cs c)\<lparr>mq_wp := t\<rparr>, clap := (if mq_cap (cs c) \<le> off + sz then clap c + 1 else clap c),
      cjump := (if locked t then Some off else cjump c)\<rparr>) i (PWon off sz t))" (is "atomic_inv ?c")
proof -
  note d = atomic_invD [OF inv]
  let ?s = "atomic_abs c"
  have ok: "mpsc_pos_ok ?s" using d(1) by (simp add: mpsc_inv_def)
  have i: "i < length (mq_producers (cs c))" and po: "pc_ok c (mq_producers (cs c) ! i) (PTry sz wp l rp)"
    using d(4) [of i] pc by (auto simp: prod_ok_def)
  have pd: "pend c i = None" by (simp add: pend_def pc)
  have sz: "off_ok sz" and flag: "pr_flag (mq_producers (cs c) ! i)" and seen: "seen c wp l" using po by auto
  have free: "\<not> locked wp" "cjump c = None" using seen d(2) wp by (auto simp: seen_def)
  have "l mod 2 ^ 31 = clap c mod 2 ^ 31" "l \<le> clap c" using seen d(3) wp by (auto simp: seen_def)
  moreover have "clap c < l + 2 ^ 31" using recent by simp
  ultimately have l: "l = clap c" by (metis add.commute le_add_diff_inverse less_diff_conv2 mod_eq_dvd_iff_nat nat_dvd_not_less zero_less_diff le_neq_implies_less)
  have ou: "unat off = offn (cs c)" by (simp add: off_def offn_def wp)
  have oo: "off_ok off" by (simp add: off_def off_ok_mask)
  have wabs: "mq_wp ?s = wp" "mq_wp (cs c) AND NOT MPSC_WRAP_LOCK_BIT = wp" using unlocked_same [OF free(1)] by (simp_all add: wp)
  have bb: "off_ok (mq_cap (cs c))" "capn (cs c) < 2 ^ 32" using ok by (auto simp: off_ok_def capn_def mpsc_pos_ok_def)
  have ow: "off_word (offn (cs c)) = off" by (simp add: off_word_def flip: ou)
  have target: "mpsc_target (mq_cap ?s) (mq_wp ?s) (mq_rp ?s) sz = Some t"
    using target_stale [OF t _ _ sz, of "mq_rp (cs c)"] po l ou by (simp add: wabs off_def rpn_def capn_def)
  have free': "mq_wp ?s AND MPSC_WRAP_LOCK_BIT = 0" using ok by (simp add: mpsc_pos_ok_def)
  have i': "i < length (mq_producers ?s)" using i by simp
  note acq = acquire_target [OF free' i' target, unfolded wabs(1), folded off_def]
  let ?s' = "if locked t then (with_reserve ?s i off)\<lparr>mq_warp_end := off, mq_wp := t AND NOT MPSC_WRAP_LOCK_BIT\<rparr> else (with_reserve ?s i off)\<lparr>mq_wp := t\<rparr>"
  let ?o = "if locked t then 0 else uint off"
  have acq': "mpsc_acquire 0 ?s i sz = Some (?s', ?o)" by (simp only: acq if_distrib [of Pair] prod.case_distrib) simp
  have lap: "locked t \<longleftrightarrow> capn (cs c) < offn (cs c) + unat sz" "(mq_cap (cs c) \<le> off + sz) = (capn (cs c) \<le> offn (cs c) + unat sz)"
    "wp_lap t = (if mq_cap (cs c) \<le> off + sz then (wp_lap wp + 1) mod 2 ^ 31 else wp_lap wp)"
    using target_lap [OF t bb(1) sz] ou unat_off_add [OF oo sz] unfolding off_def [symmetric]
    by (simp_all add: word_less_nat_alt word_le_nat_alt capn_def)
  have abs: "atomic_abs ?c = ?s'"
  proof -
    have "prods_abs ((cpc c)(i := PWon off sz t)) (mq_producers (cs c)) = (prods_abs (cpc c) (mq_producers (cs c)))[i := (mq_producers (cs c) ! i)\<lparr>pr_reserve_pos := off\<rparr>]"
      using prods_abs_upd [OF i, of "cpc c" "PWon off sz t" "mq_producers (cs c) ! i"] by (simp add: prod_abs_def)
    moreover have "(prods_abs (cpc c) (mq_producers (cs c)) ! i)\<lparr>pr_reserve_pos := off\<rparr> = (mq_producers (cs c) ! i)\<lparr>pr_reserve_pos := off\<rparr>"
      using i pc by (simp add: prod_abs_def)
    ultimately show ?thesis
      using free(2) unlocked_same [of t] by (simp add: set_pc_def atomic_abs_def with_reserve_def end_abs_def)
  qed
  have pend: "pend ?c = (pend c)(i \<mapsto> (nat ?o, unat sz))"
    by (simp add: pend_def set_pc_def fun_eq_iff)
  have onn: "offn (cs ?c) = offn ?s'" by (simp add: set_pc_def offn_def unlock_bits)
  have nr: "\<not> no_room ?s (unat sz)"
  proof
    assume "no_room ?s (unat sz)"
    then have "?o = - 1" using mpsc_acquire_cases [OF ok i' sz, of 0] acq' by auto
    moreover have "0 \<le> ?o" by simp
    ultimately show False by linarith
  qed
  have mono: "if capn (cs c) \<le> offn (cs c) + unat sz then True else offn (cs c) \<le> offn ?s'"
    using mpsc_acquire_cases [OF ok i' sz, of 0] nr unfolding acq' by auto
  show ?thesis
  proof (rule atomic_invI)
    have q: "mpsc_p ?s i = Some (prod_abs (cpc c i) (mq_producers (cs c) ! i))" using i by (simp add: mpsc_p_def)
    have "mpsc_inv (?s', if ?o < 0 then pend c else (pend c)(i \<mapsto> (nat ?o, unat sz)), granted (ccons c))"
      by (rule inv_acquire [OF d(1) pd q _ sz acq']) (use flag in simp)
    then show "mpsc_inv (atomic_abs ?c, pend ?c, granted (ccons ?c))" unfolding abs pend by (cases "locked t") (simp_all add: set_pc_def)
    show "locked (mq_wp (cs ?c)) \<longleftrightarrow> cjump ?c \<noteq> None" using free by (simp add: set_pc_def)
    show "wp_lap (mq_wp (cs ?c)) = clap ?c mod 2 ^ 31"
      using lap(3) d(3) wp by (simp add: set_pc_def mod_Suc_eq)
    have oth: "pc_ok ?c q pc'" if "pc_ok c q pc'" for q pc'
    proof (rule pc_ok_cas [OF that])
      show "\<not> locked (mq_wp (cs c))" using free wp by simp
      show "if capn (cs c) \<le> offn (cs c) + unat sz then clap ?c = clap c + 1 else clap ?c = clap c \<and> offn (cs c) \<le> offn (cs ?c)"
        using mono lap(2) unfolding onn by (simp add: set_pc_def)
    qed (simp_all add: set_pc_def)
    show "prod_ok ?c j" for j
    proof (cases "j = i")
      case True
      then show ?thesis using i oo sz po by (simp add: prod_ok_def set_pc_def off_def [symmetric])
    next
      case False
      then show ?thesis using d(4) [of j] oth by (auto simp: prod_ok_def set_pc_def)
    qed
    have nj: "\<not> jumping (cpc c j)" for j
    proof
      assume "jumping (cpc c j)"
      then have "pc_ok c (mq_producers (cs c) ! j) (cpc c j)" using d(4) [of j] by (auto simp: prod_ok_def)
      then show False using \<open>jumping (cpc c j)\<close> free wp by (cases "cpc c j") auto
    qed
    show "k = j" if "jumping (cpc ?c k)" "jumping (cpc ?c j)" for k j
      using that nj by (auto simp: set_pc_def split: if_splits)
    show "cons_ok (atomic_abs ?c) (pend ?c) (cjump ?c) (mq_warp_end (cs ?c)) (ccons ?c)"
    proof -
      have "cons_ok ?s' ((pend c)(i \<mapsto> (nat ?o, unat sz))) (if capn ?s < offn ?s + unat sz then Some (off_word (offn ?s)) else cjump c)
        (mq_warp_end (cs c)) (ccons c)"
        by (rule acquire_cons_ok [OF ok i' sz acq' _ pd d(6)]) simp
      then show ?thesis unfolding abs pend using lap(1) ow by (cases "locked t") (simp_all add: set_pc_def)
    qed
  qed
qed

subsection \<open>The other steps of a producer\<close>

lemma inv_entry:
  assumes "mpsc_inv (s, pd, g)" "pd i = None" "i < length (mq_producers s)" "pr_flag q \<Longrightarrow> pr_reserve_pos q = MPSC_OFFSET_MAX"
  shows "mpsc_inv (s\<lparr>mq_producers := (mq_producers s)[i := q]\<rparr>, pd, g)"
proof -
  let ?s = "s\<lparr>mq_producers := (mq_producers s)[i := q]\<rparr>"
  have e: "offn ?s = offn s" "rpn ?s = rpn s" "capn ?s = capn s" "pop_limit ?s = pop_limit s" "mpsc_pos_ok ?s = mpsc_pos_ok s"
    "\<And>r st len. place_ok ?s r st len = place_ok s r st len"
    by (simp_all add: offn_def rpn_def capn_def pop_limit_def mpsc_pos_ok_def place_ok_def)
  have "\<And>j a. pd j = Some a \<Longrightarrow> j \<noteq> i" using assms(2) by auto
  then show ?thesis using assms e by (auto simp: mpsc_inv_def producers_ok_def grant_ok_def resn_def nth_list_update)
qed

lemma entry_step:
  assumes inv: "atomic_inv c" and i: "i < length (mq_producers (cs c))" and pd: "pend c i = None"
    and pc: "pc_ok c q pc" "\<not> jumping pc" "region pc = None" "prod_abs pc q = q" "pr_flag q \<Longrightarrow> pr_reserve_pos q = MPSC_OFFSET_MAX"
  shows "atomic_inv (upd_prod c i q pc)"
proof (rule idle_step [OF inv i pc(1-3)])
  have p: "(pend c)(i := None) = pend c" using pd by (simp add: fun_upd_idem)
  show "mpsc_inv (atomic_abs (upd_prod c i q pc), (pend c)(i := None), granted (ccons c))"
    unfolding abs_upd_prod [OF i] pc(4) p by (rule inv_entry [OF atomic_invD(1) [OF inv] pd]) (use i pc(5) in simp_all)
qed

lemma push_step:
  assumes inv: "atomic_inv c" and pc: "cpc c i = POwns st len"
  shows "atomic_inv (set_pc (set_reserve c i MPSC_OFFSET_MAX) i PIdle)"
proof -
  have i: "i < length (mq_producers (cs c))" using atomic_invD(4) [OF inv, of i] pc by (simp add: prod_ok_def)
  have pd: "pend c i = Some (st, len)" by (simp add: pend_def pc)
  show ?thesis unfolding set_reserve_upd
  proof (rule idle_step [OF inv i])
    let ?q = "(mq_producers (cs c) ! i)\<lparr>pr_reserve_pos := MPSC_OFFSET_MAX\<rparr>"
    have a: "atomic_abs (upd_prod c i ?q PIdle) = with_reserve (atomic_abs c) i MPSC_OFFSET_MAX"
      unfolding abs_upd_prod [OF i] using i pc by (simp add: with_reserve_def prod_abs_def)
    show "mpsc_inv (atomic_abs (upd_prod c i ?q PIdle), (pend c)(i := None), granted (ccons c))"
      unfolding a by (rule inv_push [OF atomic_invD(1) [OF inv] pd]) (use i in \<open>simp add: mpsc_push_def set_reserve_Some\<close>)
  qed simp_all
qed

lemma fill_step:
  assumes inv: "atomic_inv c" and b: "mem_put (mq_buf (cs c)) o1 xs = Some b"
  shows "atomic_inv (c\<lparr>cs := (cs c)\<lparr>mq_buf := b\<rparr>\<rparr>)" (is "atomic_inv ?c")
proof -
  note d = atomic_invD [OF inv]
  have a: "atomic_abs ?c = (atomic_abs c)\<lparr>mq_buf := b\<rparr>" by (simp add: atomic_abs_def)
  have p: "pend ?c = pend c" by (simp add: pend_def fun_eq_iff)
  have pc: "pc_ok ?c q pc = pc_ok c q pc" for q pc by (rule pc_ok_cong) simp_all
  show ?thesis
  proof (rule atomic_invI)
    show "mpsc_inv (atomic_abs ?c, pend ?c, granted (ccons ?c))"
      unfolding a p using inv_fill [OF d(1), of o1 xs b] b by simp
    show "prod_ok ?c j" for j using d(4) [of j] pc by (simp add: prod_ok_def)
    have "cons_ok (atomic_abs c) (pend c) (cjump ?c) (mq_warp_end (cs ?c)) (ccons ?c)" using d(6) by simp
    then show "cons_ok (atomic_abs ?c) (pend ?c) (cjump ?c) (mq_warp_end (cs ?c)) (ccons ?c)"
      unfolding p by (rule cons_ok_frame) (auto simp: a resn_def offn_def endn_def capn_def)
  qed (use d(2,3,5) in \<open>auto\<close>)
qed

text \<open>The end of a jump: the end of the lap is stored, then the lock bit is cleared.\<close>

lemma jumping_only:
  assumes inv: "atomic_inv c" and i: "jumping (cpc c i)" and j: "j \<noteq> i"
  shows "\<not> jumping (cpc c j)"
  using atomic_invD(5) [OF inv i] j by blast

lemma pc_ok_end:
  assumes "pc_ok c q pc" "\<not> jumping pc" "clap c' = clap c" "offn (cs c') = offn (cs c)" "mq_rp (cs c') = mq_rp (cs c)" "mq_cap (cs c') = mq_cap (cs c)"
  shows "pc_ok c' q pc"
  using assms by (cases pc) (simp_all add: seen_def rpn_def capn_def)

lemma prod_abs_end: "prod_abs (PEnd off sz t) q = q" "prod_abs (PUnlock off sz t) q = q" "prod_abs (POwns st len) q = q"
    "prod_abs PIdle q = q" "prod_abs PRegister q = q"
  by (simp_all add: prod_abs_def)

lemma lap_ends_step:
  assumes inv: "atomic_inv c" and pc: "cpc c i = PEnd off sz t"
  shows "atomic_inv (set_pc (c\<lparr>cs := (cs c)\<lparr>mq_warp_end := off\<rparr>\<rparr>) i (PUnlock off sz t))" (is "atomic_inv ?c")
proof -
  note d = atomic_invD [OF inv]
  have ok: "locked t" "mq_wp (cs c) = t" "cjump c = Some off" "i < length (mq_producers (cs c))" using d(4) [of i] pc by (simp_all add: prod_ok_def)
  have "prods_abs ((cpc c)(i := PUnlock off sz t)) (mq_producers (cs c)) = prods_abs (cpc c) (mq_producers (cs c))"
    by (rule prods_abs_same) (simp_all add: pc prod_abs_end)
  then have a: "atomic_abs ?c = atomic_abs c" using ok(3) by (simp add: atomic_abs_def set_pc_def end_abs_def)
  have p: "pend ?c = pend c" by (simp add: pend_def set_pc_def fun_eq_iff pc)
  show ?thesis
  proof (rule atomic_invI)
    show "mpsc_inv (atomic_abs ?c, pend ?c, granted (ccons ?c))" unfolding a p using d(1) by (simp add: set_pc_def)
    show "prod_ok ?c j" for j
    proof (cases "j = i")
      case False
      have nj: "\<not> jumping (cpc c j)" by (rule jumping_only [OF inv _ False]) (simp add: pc)
      have "pc_ok c q (cpc c j) \<Longrightarrow> pc_ok ?c q (cpc c j)" for q
        by (erule pc_ok_end [OF _ nj]) (simp_all add: set_pc_def offn_def)
      then show ?thesis using d(4) [of j] False by (auto simp: prod_ok_def set_pc_def)
    qed (use ok in \<open>simp add: prod_ok_def set_pc_def\<close>)
    have cp: "cpc ?c = (cpc c)(i := PUnlock off sz t)" by (simp add: set_pc_def)
    show "k = j" if "jumping (cpc ?c k)" "jumping (cpc ?c j)" for k j
      by (rule jumping_upd [OF inv _ that [unfolded cp]]) (simp add: pc)
    show "cons_ok (atomic_abs ?c) (pend ?c) (cjump ?c) (mq_warp_end (cs ?c)) (ccons ?c)"
      unfolding a p using d(6) ok(3) by (cases "ccons c") (simp_all add: set_pc_def)
  qed (use d(2,3) in \<open>simp_all add: set_pc_def\<close>)
qed

lemma unlock_step:
  assumes inv: "atomic_inv c" and pc: "cpc c i = PUnlock off sz t"
  shows "atomic_inv (set_pc (c\<lparr>cs := (cs c)\<lparr>mq_wp := t AND NOT MPSC_WRAP_LOCK_BIT\<rparr>, cjump := None\<rparr>) i (POwns 0 (unat sz)))" (is "atomic_inv ?c")
proof -
  note d = atomic_invD [OF inv]
  have ok: "locked t" "mq_wp (cs c) = t" "cjump c = Some off" "mq_warp_end (cs c) = off" "i < length (mq_producers (cs c))"
    using d(4) [of i] pc by (simp_all add: prod_ok_def)
  have nj: "ccons c \<noteq> CJump e" for e using d(6) ok(3) by auto
  have "prods_abs ((cpc c)(i := POwns 0 (unat sz))) (mq_producers (cs c)) = prods_abs (cpc c) (mq_producers (cs c))"
    by (rule prods_abs_same) (simp_all add: pc prod_abs_end)
  moreover have "end_abs None (ccons c) (mq_warp_end (cs c)) = end_abs (cjump c) (ccons c) (mq_warp_end (cs c))"
    using ok(3,4) nj by (auto simp: end_abs_def split: cons_pc.splits)
  ultimately have a: "atomic_abs ?c = atomic_abs c" using ok(2) by (simp add: atomic_abs_def set_pc_def unlock_bits)
  have p: "pend ?c = pend c" by (simp add: pend_def set_pc_def fun_eq_iff pc)
  show ?thesis
  proof (rule atomic_invI)
    show "mpsc_inv (atomic_abs ?c, pend ?c, granted (ccons ?c))" unfolding a p using d(1) by (simp add: set_pc_def)
    show "locked (mq_wp (cs ?c)) \<longleftrightarrow> cjump ?c \<noteq> None" by (simp add: set_pc_def locked_def unlock_bits)
    show "wp_lap (mq_wp (cs ?c)) = clap ?c mod 2 ^ 31" using d(3) ok(2) by (simp add: set_pc_def wp_lap_def unlock_bits)
    show "prod_ok ?c j" for j
    proof (cases "j = i")
      case False
      have nj: "\<not> jumping (cpc c j)" by (rule jumping_only [OF inv _ False]) (simp add: pc)
      have "pc_ok c q (cpc c j) \<Longrightarrow> pc_ok ?c q (cpc c j)" for q
        by (erule pc_ok_end [OF _ nj]) (simp_all add: set_pc_def offn_def unlock_bits ok(2))
      then show ?thesis using d(4) [of j] False by (auto simp: prod_ok_def set_pc_def)
    qed (use ok in \<open>simp add: prod_ok_def set_pc_def\<close>)
    have cp: "cpc ?c = (cpc c)(i := POwns 0 (unat sz))" by (simp add: set_pc_def)
    show "k = j" if "jumping (cpc ?c k)" "jumping (cpc ?c j)" for k j
      by (rule jumping_upd [OF inv _ that [unfolded cp]]) (simp add: pc)
    show "cons_ok (atomic_abs ?c) (pend ?c) (cjump ?c) (mq_warp_end (cs ?c)) (ccons ?c)"
      unfolding a p using d(6) ok(3) by (cases "ccons c") (auto simp: set_pc_def scan_ok_def)
  qed
qed

lemma prod_at: "atomic_inv c \<Longrightarrow> cpc c i \<noteq> PIdle \<Longrightarrow> i < length (mq_producers (cs c)) \<and> pc_ok c (mq_producers (cs c) ! i) (cpc c i)"
  using atomic_invD(4) [of c i] by (simp add: prod_ok_def)

lemma inv_pos: "atomic_inv c \<Longrightarrow> rpn (cs c) \<le> capn (cs c) \<and> capn (cs c) < 2 ^ 32 \<and> offn (cs c) < capn (cs c)"
  using atomic_invD(1) [of c] by (auto simp: mpsc_inv_def mpsc_pos_ok_def split: if_splits)

lemma idle_reserve:
  assumes "atomic_inv c" "cpc c i = PIdle" "i < length (mq_producers (cs c))" "pr_flag (mq_producers (cs c) ! i)"
  shows "pr_reserve_pos (mq_producers (cs c) ! i) = MPSC_OFFSET_MAX"
proof -
  have "producers_ok (atomic_abs c) (pend c)" using atomic_invD(1) [OF assms(1)] by (simp add: mpsc_inv_def)
  then have "pend c i = None \<longrightarrow> pr_flag (prod_abs (cpc c i) (mq_producers (cs c) ! i)) \<longrightarrow>
      pr_reserve_pos (prod_abs (cpc c i) (mq_producers (cs c) ! i)) = MPSC_OFFSET_MAX"
    using assms(3) unfolding producers_ok_def by simp
  then show ?thesis using assms(2,4) by (simp add: pend_def prod_abs_def)
qed

lemma load_rp_step:
  assumes inv: "atomic_inv c" and pc: "cpc c i = PRead sz wp l"
  shows "atomic_inv (set_pc c i (PTry sz wp l (mq_rp (cs c))))"
  unfolding set_pc_upd
proof (rule local_step [OF inv])
  show "pc_ok c (mq_producers (cs c) ! i) (PTry sz wp l (mq_rp (cs c)))"
    using prod_at [OF inv, of i] inv_pos [OF inv] pc by (simp add: reader_moved_def rpn_def)
qed (use prod_at [OF inv, of i] pc in \<open>simp_all add: prod_abs_def pend_def\<close>)

lemma clear_step:
  assumes inv: "atomic_inv c" and pc: "cpc c i = PWon off sz t"
  shows "atomic_inv (set_pc (set_reserve c i (pr_reserve_pos (mq_producers (cs c) ! i) AND NOT MPSC_WRAP_LOCK_BIT)) i
      (if locked t then PEnd off sz t else POwns (unat off) (unat sz)))"
proof -
  have ok: "i < length (mq_producers (cs c))" "off_ok off" "pr_reserve_pos (mq_producers (cs c) ! i) = off OR MPSC_WRAP_LOCK_BIT"
    "locked t \<longrightarrow> mq_wp (cs c) = t \<and> cjump c = Some off" using prod_at [OF inv, of i] pc by auto
  show ?thesis unfolding set_reserve_upd ok(3) mark_bits(2) [OF ok(2)]
    by (rule local_step [OF inv ok(1)]) (use ok(4) pc in \<open>simp_all add: prod_abs_def pend_def split: if_splits\<close>)
qed

lemma prod_inv_step:
  assumes "prod_step c i c'" "atomic_inv c"
  shows "atomic_inv c'"
  using assms(1)
proof cases
  case reg_pos
  then show ?thesis unfolding reg_pos(1) set_reserve_upd
    by (intro entry_step [OF assms(2)]) (simp_all add: pend_def prod_abs_end)
next
  case (reg_flag q s')
  have i: "i < length (mq_producers (cs c))" "q = mq_producers (cs c) ! i" using reg_flag(3) by (auto simp: mpsc_p_def split: if_splits)
  have "c' = upd_prod c i (q\<lparr>pr_flag := True\<rparr>) PIdle" using reg_flag i by (simp add: set_pc_def upd_prod_def mpsc_set_p_def)
  then show ?thesis using prod_at [OF assms(2), of i] reg_flag(2) i
    by (auto intro!: entry_step [OF assms(2)] simp: pend_def prod_abs_end)
next
  case (unreg s')
  have i: "i < length (mq_producers (cs c))" using unreg(3) by (auto simp: mpsc_unreg_def mpsc_p_def split: if_splits)
  have "c' = upd_prod c i ((mq_producers (cs c) ! i)\<lparr>pr_flag := False\<rparr>) PIdle"
    using unreg i by (auto simp: upd_prod_def mpsc_unreg_def mpsc_p_def mpsc_set_p_def fun_upd_idem)
  then show ?thesis using unreg(2) i by (auto intro!: entry_step [OF assms(2)] simp: pend_def prod_abs_end)
next
  case (begin_acq q sz)
  have i: "i < length (mq_producers (cs c))" "q = mq_producers (cs c) ! i" using begin_acq(3) by (auto simp: mpsc_p_def split: if_splits)
  show ?thesis unfolding begin_acq(1) set_pc_upd
    by (rule local_step [OF assms(2) i(1)])
      (use begin_acq i idle_reserve [OF assms(2) begin_acq(2) i(1)] in \<open>simp_all add: prod_abs_def pend_def\<close>)
next
  case (load_wp sz)
  have "seen c (mq_wp (cs c)) (clap c)" using load_wp(3) atomic_invD(3) [OF assms(2)] by (simp add: seen_def offn_def)
  then show ?thesis unfolding load_wp(1) set_pc_upd
    by (intro local_step [OF assms(2)]) (use prod_at [OF assms(2), of i] load_wp(2) in \<open>simp_all add: prod_abs_def pend_def\<close>)
next
  case (mark sz wp l)
  then show ?thesis unfolding mark(1) set_reserve_upd
    by (intro local_step [OF assms(2)]) (use prod_at [OF assms(2), of i] mark(2) in \<open>simp_all add: prod_abs_def pend_def\<close>)
next
  case (load_rp sz wp l)
  then show ?thesis using load_rp_step [OF assms(2)] by simp
next
  case (no_room sz wp l rp)
  then show ?thesis unfolding no_room(1) set_reserve_upd
    by (intro local_step [OF assms(2)]) (use prod_at [OF assms(2), of i] no_room(2) in \<open>simp_all add: prod_abs_def pend_def\<close>)
next
  case (cas_fails sz wp l rp t)
  then show ?thesis unfolding cas_fails(1) set_pc_upd
    by (intro local_step [OF assms(2)]) (use prod_at [OF assms(2), of i] cas_fails(2) in \<open>simp_all add: prod_abs_def pend_def\<close>)
next
  case (cas sz wp l rp t)
  show ?thesis unfolding cas(1) by (rule cas_step [OF assms(2) cas(2-5)])
next
  case (clear off sz t q)
  have "q = mq_producers (cs c) ! i" using clear(3) by (auto simp: mpsc_p_def split: if_splits)
  then show ?thesis unfolding clear(1) using clear_step [OF assms(2) clear(2)] by simp
next
  case (lap_ends off sz t)
  show ?thesis unfolding lap_ends(1) by (rule lap_ends_step [OF assms(2) lap_ends(2)])
next
  case (unlock off sz t)
  show ?thesis unfolding unlock(1) by (rule unlock_step [OF assms(2) unlock(2)])
next
  case (fill st len o1 xs b)
  show ?thesis unfolding fill(1) by (rule fill_step [OF assms(2) fill(4)])
next
  case (push st len)
  show ?thesis unfolding push(1) by (rule push_step [OF assms(2) push(2)])
qed

subsection \<open>The steps of the consumer\<close>

lemma cons_same:
  assumes inv: "atomic_inv c" and e: "end_abs (cjump c) cc (mq_warp_end (cs c)) = end_abs (cjump c) (ccons c) (mq_warp_end (cs c))"
    and ok: "mpsc_inv (atomic_abs c, pend c, granted cc)" "cons_ok (atomic_abs c) (pend c) (cjump c) (mq_warp_end (cs c)) cc"
  shows "atomic_inv (c\<lparr>ccons := cc\<rparr>)"
proof -
  note d = atomic_invD [OF inv]
  have a: "atomic_abs (c\<lparr>ccons := cc\<rparr>) = atomic_abs c" by (simp add: atomic_abs_def e)
  have p: "pend (c\<lparr>ccons := cc\<rparr>) = pend c" by (simp add: pend_def fun_eq_iff)
  have pc: "pc_ok (c\<lparr>ccons := cc\<rparr>) q pc = pc_ok c q pc" for q pc by (rule pc_ok_cong) simp_all
  show ?thesis
  proof (rule atomic_invI)
    show "prod_ok (c\<lparr>ccons := cc\<rparr>) j" for j using d(4) [of j] pc by (simp add: prod_ok_def)
  qed (use d(2,3,5) ok in \<open>simp_all add: a p\<close>)
qed

text \<open>A grant is what the bound of the scan allows.\<close>

lemma grant_inv:
  assumes "mpsc_inv (s, pd, g)" "rpn s + g' \<le> pop_limit s" "\<And>j st len. pd j = Some (st, len) \<Longrightarrow> rpn s \<le> st \<Longrightarrow> rpn s + g' \<le> st"
  shows "mpsc_inv (s, pd, g')"
  using assms by (auto simp: mpsc_inv_def grant_ok_def)

lemma grant_none: "mpsc_inv (s, pd, g) \<Longrightarrow> mpsc_inv (s, pd, 0)"
  using grant_inv [of s pd g 0] by (auto simp: mpsc_inv_def grant_ok_def)

lemma scan_grant:
  assumes inv: "mpsc_inv (s, pd, g)" and scan: "scan_ok s pd cj wp (length (mq_producers s)) r"
    and lim: "lim = (if wp < mq_rp s then (if r < e then r else e) else (if r < wp then r else wp))" "unat e = endn s" "\<not> wp < mq_rp s \<or> offn s < rpn s"
  shows "mpsc_inv (s, pd, unat (lim - mq_rp s))"
proof -
  have ok: "mpsc_pos_ok s" "producers_ok s pd" using inv by (simp_all add: mpsc_inv_def)
  have r: "mq_rp s \<le> r" using scan by (simp add: scan_ok_def)
  have le: "mq_rp s \<le> lim" "unat lim \<le> pop_limit s" "lim \<le> scan_lim (mq_rp s) wp r"
  proof -
    have "wp < mq_rp s \<Longrightarrow> mq_rp s \<le> e" using ok(1) lim(2,3) by (auto simp: mpsc_pos_ok_def word_le_nat_alt rpn_def split: if_splits)
    then show "mq_rp s \<le> lim" using r lim(1) by auto
    show "unat lim \<le> pop_limit s" using scan lim by (auto simp: scan_ok_def pop_limit_def word_less_nat_alt split: if_splits)
    show "lim \<le> scan_lim (mq_rp s) wp r" using lim(1) by (auto simp: scan_lim_def)
  qed
  have u: "rpn s + unat (lim - mq_rp s) = unat lim" using le(1) by (simp add: unat_sub word_le_nat_alt rpn_def)
  show ?thesis
  proof (rule grant_inv [OF inv])
    show "rpn s + unat (lim - mq_rp s) \<le> pop_limit s" using u le(2) by simp
    fix j st len assume j: "pd j = Some (st, len)" "rpn s \<le> st"
    have p: "j < length (mq_producers s)" "place_ok s (resn s j) st len" using ok(2) j(1) by (auto simp: producers_ok_def)
    have "resn s j = st" using p(2) j(2) by (auto simp: place_ok_def split: if_splits)
    then have "unat (scan_lim (mq_rp s) wp r) \<le> st" using scan p(1) j by (auto simp: scan_ok_def)
    then show "rpn s + unat (lim - mq_rp s) \<le> st" using u le(3) by (simp add: word_le_nat_alt)
  qed
qed

lemma no_jumper: "atomic_inv c \<Longrightarrow> cjump c = None \<Longrightarrow> \<not> jumping (cpc c j)"
proof
  assume h: "atomic_inv c" "cjump c = None" "jumping (cpc c j)"
  then have "pc_ok c (mq_producers (cs c) ! j) (cpc c j)" using prod_at [of c j] by (cases "cpc c j") auto
  then show False using h by (cases "cpc c j") auto
qed

lemma unat_lap_end: "unat (lap_end s) = endn s"
  by (simp add: lap_end_def endn_def capn_def)

text \<open>Steps that move the read position or end a lap.\<close>

lemma pc_ok_rp:
  assumes "pc_ok c q pc" "clap c' = clap c" "cjump c' = cjump c" "mq_wp (cs c') = mq_wp (cs c)" "mq_cap (cs c') = mq_cap (cs c)"
    "jumping pc \<Longrightarrow> mq_warp_end (cs c') = mq_warp_end (cs c)"
    "\<And>r0. reader_moved (offn (cs c)) r0 (rpn (cs c)) \<Longrightarrow> r0 \<le> capn (cs c) \<Longrightarrow> reader_moved (offn (cs c)) r0 (rpn (cs c'))"
  shows "pc_ok c' q pc"
  using assms by (cases pc) (simp_all add: seen_def offn_def capn_def)

lemma rp_step:
  assumes inv: "atomic_inv c" and same: "clap c' = clap c" "cjump c' = cjump c" "cpc c' = cpc c" "mq_wp (cs c') = mq_wp (cs c)" "mq_cap (cs c') = mq_cap (cs c)"
      "mq_producers (cs c') = mq_producers (cs c)"
    and e: "cjump c \<noteq> None \<Longrightarrow> mq_warp_end (cs c') = mq_warp_end (cs c)"
    and rp: "\<And>r0. reader_moved (offn (cs c)) r0 (rpn (cs c)) \<Longrightarrow> r0 \<le> capn (cs c) \<Longrightarrow> reader_moved (offn (cs c)) r0 (rpn (cs c'))"
    and ok: "mpsc_inv (atomic_abs c', pend c, granted (ccons c'))" "cons_ok (atomic_abs c') (pend c) (cjump c) (mq_warp_end (cs c')) (ccons c')"
  shows "atomic_inv c'"
proof -
  note d = atomic_invD [OF inv]
  have p: "pend c' = pend c" by (simp add: pend_def fun_eq_iff same(3))
  have j: "jumping (cpc c j) \<Longrightarrow> cjump c \<noteq> None" for j using no_jumper [OF inv] by blast
  show ?thesis
  proof (rule atomic_invI)
    show "prod_ok c' k" for k
    proof -
      have "pc_ok c q (cpc c k) \<Longrightarrow> pc_ok c' q (cpc c k)" for q
        by (erule pc_ok_rp) (use same e j rp in blast)+
      then show ?thesis using d(4) [of k] by (auto simp: prod_ok_def same)
    qed
    show "k = l" if "jumping (cpc c' k)" "jumping (cpc c' l)" for k l using that d(5) unfolding same(3) by blast
  qed (use d(2,3) ok in \<open>simp_all add: same p\<close>)
qed

lemma jump_inv:
  assumes inv: "mpsc_inv (s, pd, g)" and j: "offn s < rpn s" "rpn s = endn s" "\<And>j. pd j \<noteq> None \<Longrightarrow> resn s j < rpn s"
  shows "mpsc_inv (s\<lparr>mq_warp_end := MPSC_OFFSET_MAX, mq_rp := 0\<rparr>, pd, 0)"
proof -
  let ?s = "s\<lparr>mq_warp_end := MPSC_OFFSET_MAX, mq_rp := 0\<rparr>"
  have i: "mpsc_pos_ok s" "producers_ok s pd" using inv by (simp_all add: mpsc_inv_def)
  have e: "offn ?s = offn s" "rpn ?s = 0" "capn ?s = capn s" "\<And>j. resn ?s j = resn s j" "mq_producers ?s = mq_producers s"
    by (simp_all add: offn_def rpn_def capn_def resn_def)
  have ok: "mpsc_pos_ok ?s" using i(1) e by (simp add: mpsc_pos_ok_def)
  have "place_ok ?s (resn ?s i) st len" if "pd i = Some (st, len)" for i st len
  proof -
    have "place_ok s (resn s i) st len" "resn s i < rpn s" using i(2) that j(3) [of i] by (simp_all add: producers_ok_def)
    then show ?thesis using j(1,2) e by (auto simp: place_ok_def)
  qed
  then have "producers_ok ?s pd" using i(2) e(5) by (auto simp: producers_ok_def)
  moreover have "grant_ok ?s pd 0" using e by (simp add: grant_ok_def pop_limit_def)
  ultimately show ?thesis using inv ok by (simp add: mpsc_inv_def)
qed

lemma release_moved:
  assumes ok: "mpsc_pos_ok s" and g: "rpn s + unat sz \<le> pop_limit s" and m: "reader_moved (offn s) r0 (rpn s)" "r0 \<le> capn s"
  shows "reader_moved (offn s) r0 (rpn (mpsc_release s sz))"
proof -
  have "pop_limit s \<le> capn s" using ok by (auto simp: pop_limit_def mpsc_pos_ok_def split: if_splits)
  then have "rpn (mpsc_release s sz) = (if rpn s + unat sz = capn s then 0 else rpn s + unat sz)" using release_rpn(1) [OF ok] g by simp
  then show ?thesis using ok g m by (auto simp: reader_moved_def pop_limit_def mpsc_pos_ok_def split: if_splits)
qed

lemma release_step:
  assumes inv: "atomic_inv c" and cc: "ccons c = CHolds g" and sz: "unat sz \<le> g"
  shows "atomic_inv (c\<lparr>cs := mpsc_release (cs c) sz, ccons := CHolds (g - unat sz)\<rparr>)" (is "atomic_inv ?c")
proof -
  note d = atomic_invD [OF inv]
  have i: "mpsc_inv (atomic_abs c, pend c, g)" using d(1) cc by simp
  have a: "atomic_abs ?c = mpsc_release (atomic_abs c) sz"
    using cc by (simp add: atomic_abs_def mpsc_release_def Let_def end_abs_def split: option.splits)
  have s: "rpn (mpsc_release (atomic_abs c) sz) = rpn (mpsc_release (cs c) sz)" by (simp add: rpn_def mpsc_release_def Let_def)
  have ok: "mpsc_pos_ok (atomic_abs c)" "rpn (atomic_abs c) + unat sz \<le> pop_limit (atomic_abs c)"
    using i sz by (auto simp: mpsc_inv_def grant_ok_def)
  show ?thesis
  proof (rule rp_step [OF inv])
    fix r0 assume "reader_moved (offn (cs c)) r0 (rpn (cs c))" "r0 \<le> capn (cs c)"
    then show "reader_moved (offn (cs c)) r0 (rpn (cs ?c))" using release_moved [OF ok, of r0] s by simp
  next
    show "mpsc_inv (atomic_abs ?c, pend c, granted (ccons ?c))" unfolding a using inv_release [OF i sz] by simp
  qed (simp_all add: mpsc_release_def Let_def)
qed

lemma scan_cjump:
  assumes "atomic_inv c" "ccons c = CScan wp i r" "wp < mq_rp (cs c)"
  shows "cjump c = None" "offn (cs c) < rpn (cs c)" "lap_end (atomic_abs c) = lap_end (cs c)"
  using atomic_invD(6) [OF assms(1)] assms(2,3) by (simp_all add: scan_ok_def lap_end_def end_abs_def)

lemma jump_end_step:
  assumes inv: "atomic_inv c" and cc: "ccons c = CScan wp (length (mq_producers (cs c))) MPSC_OFFSET_MAX"
    and j: "wp < mq_rp (cs c)" "mq_rp (cs c) = lap_end (cs c)"
  shows "atomic_inv (c\<lparr>cs := (cs c)\<lparr>mq_warp_end := MPSC_OFFSET_MAX\<rparr>, ccons := CJump (mq_warp_end (cs c))\<rparr>)" (is "atomic_inv ?c")
proof -
  note d = atomic_invD [OF inv] and s = scan_cjump [OF inv cc j(1)]
  have a: "atomic_abs ?c = atomic_abs c" using s(1) cc by (simp add: atomic_abs_def end_abs_def)
  have ok: "mpsc_pos_ok (atomic_abs c)" "producers_ok (atomic_abs c) (pend c)" using d(1) by (simp_all add: mpsc_inv_def)
  have lt: "resn (atomic_abs c) j < rpn (cs c)" if pd: "pend c j \<noteq> None" for j
  proof (rule ccontr)
    assume "\<not> ?thesis"
    then have r: "rpn (cs c) \<le> resn (atomic_abs c) j" by simp
    obtain st len where "pend c j = Some (st, len)" using pd by auto
    then have p: "j < length (mq_producers (cs c))" "place_ok (atomic_abs c) (resn (atomic_abs c) j) st len"
      using ok(2) by (auto simp: producers_ok_def)
    then have "2 ^ 63 - 1 \<le> resn (atomic_abs c) j"
      using d(6) cc r pd j(1) unat_OFFSET_MAX(1) by (simp add: scan_ok_def scan_lim_def)
    then show False using place_small [OF ok(1) p(2)] inv_pos [OF inv] by simp
  qed
  show ?thesis
  proof (rule rp_step [OF inv])
    show "mpsc_inv (atomic_abs ?c, pend c, granted (ccons ?c))" unfolding a using d(1) cc by simp
    have "rpn (atomic_abs c) = endn (atomic_abs c)" using s(3) j(2) unat_lap_end [of "atomic_abs c"] by (simp add: rpn_def)
    then show "cons_ok (atomic_abs ?c) (pend c) (cjump c) (mq_warp_end (cs ?c)) (ccons ?c)" unfolding a using s lt by auto
  qed (use s(1) in \<open>simp_all add: rpn_def\<close>)
qed

lemma jump_rp_step:
  assumes inv: "atomic_inv c" and cc: "ccons c = CJump e"
  shows "atomic_inv (c\<lparr>cs := (cs c)\<lparr>mq_rp := 0\<rparr>, ccons := CPop\<rparr>)" (is "atomic_inv ?c")
proof -
  note d = atomic_invD [OF inv]
  have j: "cjump c = None" "mq_warp_end (cs c) = MPSC_OFFSET_MAX" "offn (cs c) < rpn (cs c)" "rpn (cs c) = endn (atomic_abs c)"
    "\<And>j. pend c j \<noteq> None \<Longrightarrow> resn (atomic_abs c) j < rpn (cs c)" using d(6) cc by auto
  have a: "atomic_abs ?c = (atomic_abs c)\<lparr>mq_warp_end := MPSC_OFFSET_MAX, mq_rp := 0\<rparr>" using j(1,2) by (simp add: atomic_abs_def end_abs_def)
  show ?thesis
  proof (rule rp_step [OF inv])
    show "mpsc_inv (atomic_abs ?c, pend c, granted (ccons ?c))"
      unfolding a using jump_inv [OF d(1)] j(3-5) by simp
    fix r0 assume "reader_moved (offn (cs c)) r0 (rpn (cs c))"
    then show "reader_moved (offn (cs c)) r0 (rpn (cs ?c))" using j(3) by (auto simp: reader_moved_def rpn_def split: if_splits)
  qed simp_all
qed

lemma pop_wp_step:
  assumes inv: "atomic_inv c" and cc: "ccons c = CPop" and free: "\<not> locked (mq_wp (cs c))"
  shows "atomic_inv (c\<lparr>ccons := CScan (mq_wp (cs c) AND MPSC_OFFSET_MASK) 0 MPSC_OFFSET_MAX\<rparr>)"
proof (rule cons_same [OF inv])
  note d = atomic_invD [OF inv]
  show "mpsc_inv (atomic_abs c, pend c, granted (CScan (mq_wp (cs c) AND MPSC_OFFSET_MASK) 0 MPSC_OFFSET_MAX))" using d(1) cc by simp
  have "mq_rp (cs c) \<le> MPSC_OFFSET_MAX" using inv_pos [OF inv] unat_OFFSET_MAX(1) by (simp add: word_le_nat_alt rpn_def)
  moreover have "cjump c = None" using d(2) free by simp
  ultimately show "cons_ok (atomic_abs c) (pend c) (cjump c) (mq_warp_end (cs c)) (CScan (mq_wp (cs c) AND MPSC_OFFSET_MASK) 0 MPSC_OFFSET_MAX)"
    by (auto simp: scan_ok_def word_less_nat_alt pop_limit_def offn_def rpn_def unlock_bits)
qed (simp add: cc)

lemma scan_step:
  assumes s: "scan_ok s pd cj wp i r" and r: "mq_rp s \<le> r'" "r' \<le> r" "pd i \<noteq> None \<Longrightarrow> rpn s \<le> resn s i \<Longrightarrow> unat r' \<le> resn s i"
  shows "scan_ok s pd cj wp (Suc i) r'"
proof -
  have l: "scan_lim (mq_rp s) wp r' \<le> scan_lim (mq_rp s) wp r" "scan_lim (mq_rp s) wp r' \<le> r'" using r(2) by (auto simp: scan_lim_def)
  have "unat (scan_lim (mq_rp s) wp r') \<le> resn s j" if "j < Suc i" "pd j \<noteq> None" "rpn s \<le> resn s j" for j
  proof (cases "j = i")
    case True
    then show ?thesis using that r(3) l(2) by (simp add: word_le_nat_alt)
  next
    case False
    then have "unat (scan_lim (mq_rp s) wp r) \<le> resn s j" using s that by (simp add: scan_ok_def)
    then show ?thesis using l(1) by (simp add: word_le_nat_alt)
  qed
  then show ?thesis using s r(1) by (simp add: scan_ok_def)
qed

lemma scan_flag_step:
  assumes inv: "atomic_inv c" and cc: "ccons c = CScan wp i r" and q: "mpsc_p (cs c) i = Some q"
  shows "atomic_inv (c\<lparr>ccons := (if pr_flag q then CLook wp i r else CScan wp (Suc i) r)\<rparr>)"
proof -
  note d = atomic_invD [OF inv]
  have i: "i < length (mq_producers (cs c))" "q = mq_producers (cs c) ! i" using q by (auto simp: mpsc_p_def split: if_splits)
  have "producers_ok (atomic_abs c) (pend c)" using d(1) by (simp add: mpsc_inv_def)
  then have "pend c i \<noteq> None \<Longrightarrow> pr_flag (prods_abs (cpc c) (mq_producers (cs c)) ! i)" by (auto simp: producers_ok_def)
  then have "pend c i \<noteq> None \<Longrightarrow> pr_flag q" using i by simp
  moreover have s: "scan_ok (atomic_abs c) (pend c) (cjump c) wp i r" using d(6) cc by simp
  moreover have "mq_rp (atomic_abs c) \<le> r" using s unfolding scan_ok_def by blast
  ultimately have "\<not> pr_flag q \<Longrightarrow> scan_ok (atomic_abs c) (pend c) (cjump c) wp (Suc i) r"
    by (intro scan_step [OF s]) auto
  then show ?thesis using s d(1) cc by (intro cons_same [OF inv]) simp_all
qed

text \<open>The position that is read without the lock bit is the one the call would see.\<close>

lemma scan_pos_step:
  assumes inv: "atomic_inv c" and cc: "ccons c = CLook wp i r" and q: "mpsc_p (cs c) i = Some q" and free: "\<not> locked (pr_reserve_pos q)"
  shows "atomic_inv (c\<lparr>ccons := CScan wp (Suc i) (if mq_rp (cs c) \<le> pr_reserve_pos q \<and> pr_reserve_pos q < r then pr_reserve_pos q else r)\<rparr>)"
    (is "atomic_inv (c\<lparr>ccons := CScan wp (Suc i) ?r\<rparr>)")
proof -
  note d = atomic_invD [OF inv]
  have i: "i < length (mq_producers (cs c))" "q = mq_producers (cs c) ! i" using q by (auto simp: mpsc_p_def split: if_splits)
  have "resn (atomic_abs c) i = unat (pr_reserve_pos q)" if "pend c i \<noteq> None"
  proof (cases "cpc c i")
    case (PWon off sz t)
    then have "locked (pr_reserve_pos q)" using prod_at [OF inv, of i] mark_bits(1) i by auto
    then show ?thesis using free by simp
  qed (use that i in \<open>simp_all add: pend_def resn_def prod_abs_def\<close>)
  then have lim: "unat ?r \<le> resn (atomic_abs c) i" if "pend c i \<noteq> None" "rpn (cs c) \<le> resn (atomic_abs c) i"
    using that by (auto simp: word_le_nat_alt word_less_nat_alt rpn_def)
  have s: "scan_ok (atomic_abs c) (pend c) (cjump c) wp i r" using d(6) cc by simp
  then have r: "mq_rp (atomic_abs c) \<le> r" unfolding scan_ok_def by blast
  have "scan_ok (atomic_abs c) (pend c) (cjump c) wp (Suc i) ?r"
    by (rule scan_step [OF s]) (use r lim in auto)
  then show ?thesis using d(1) cc by (intro cons_same [OF inv]) simp_all
qed

lemma grant_step:
  assumes inv: "atomic_inv c" and cc: "ccons c = CScan wp (length (mq_producers (cs c))) r"
    and g: "lim = (if wp < mq_rp (cs c) then (if r < lap_end (cs c) then r else lap_end (cs c)) else (if r < wp then r else wp))"
  shows "atomic_inv (c\<lparr>ccons := CHolds (unat (lim - mq_rp (cs c)))\<rparr>)"
proof -
  note d = atomic_invD [OF inv] and j = scan_cjump [OF inv cc]
  have s: "scan_ok (atomic_abs c) (pend c) (cjump c) wp (length (mq_producers (atomic_abs c))) r" using d(6) cc by simp
  have "mpsc_inv (atomic_abs c, pend c, unat (lim - mq_rp (atomic_abs c)))"
    by (rule scan_grant [OF d(1) s _ unat_lap_end]) (use g j in auto)
  then show ?thesis using cc by (intro cons_same [OF inv]) simp_all
qed

lemma cons_inv_step:
  assumes "cons_step c c'" "atomic_inv c"
  shows "atomic_inv c'"
  using assms(1)
proof cases
  case (begin_pop g)
  then show ?thesis unfolding begin_pop(1) using grant_none [OF atomic_invD(1) [OF assms(2)]]
    by (intro cons_same [OF assms(2)]) simp_all
next
  case pop_empty
  then show ?thesis unfolding pop_empty(1) using atomic_invD(1) [OF assms(2)]
    by (intro cons_same [OF assms(2)]) simp_all
next
  case pop_wp
  then show ?thesis using pop_wp_step [OF assms(2)] by simp
next
  case (scan_flag wp i r q)
  show ?thesis unfolding scan_flag(1) by (rule scan_flag_step [OF assms(2) scan_flag(2,3)])
next
  case (scan_pos wp i r q)
  show ?thesis unfolding scan_pos(1) by (rule scan_pos_step [OF assms(2) scan_pos(2-4)])
next
  case (grant wp i r)
  show ?thesis unfolding grant(1) by (rule grant_step [OF assms(2), of wp]) (use grant(2-4) in auto)
next
  case (grant_lap wp i r)
  show ?thesis unfolding grant_lap(1) by (rule grant_step [OF assms(2), of wp]) (use grant_lap(2-4) in auto)
next
  case (jump_end wp i r)
  then show ?thesis using jump_end_step [OF assms(2), of wp] by simp
next
  case (jump_rp e)
  show ?thesis unfolding jump_rp(1) by (rule jump_rp_step [OF assms(2) jump_rp(2)])
next
  case (release g sz)
  show ?thesis unfolding release(1) by (rule release_step [OF assms(2) release(2,3)])
qed

lemma atomic_start_inv:
  assumes "mpsc_fresh (cs c)" "\<forall>i. cpc c i = PIdle" "ccons c = CHolds 0" "clap c = 0" "cjump c = None"
  shows "atomic_inv c"
proof -
  have "prods_abs (cpc c) (mq_producers (cs c)) = mq_producers (cs c)"
    using assms(2) by (intro nth_equalityI) (simp_all add: prod_abs_def)
  then have a: "atomic_abs c = cs c" using assms by (simp add: atomic_abs_def end_abs_def mpsc_fresh_def)
  have p: "pend c = (\<lambda>i. None)" using assms(2) by (simp add: pend_def fun_eq_iff)
  show ?thesis
    by (rule atomic_invI) (use assms mpsc_fresh_inv [OF assms(1)] in \<open>simp_all add: a p prod_ok_def mpsc_fresh_def locked_def wp_lap_def\<close>)
qed

lemma atomic_reach_inv: "atomic_reach c \<Longrightarrow> atomic_inv c"
  by (induction rule: atomic_reach.induct) (blast intro: atomic_start_inv prod_inv_step cons_inv_step)+

end
