(* ===== verification/Mpsc_Atomic_Props.thy ===== *)
theory Mpsc_Atomic_Props
  imports Mpsc_Atomic_Inv
begin

section \<open>The multi-producer ring under any interleaving\<close>

text \<open>
  Exclusive regions, the end of the lap as a word with one user, waits that somebody can end; and a
  scheduler that runs the steps of a given sequence of turns, for the concrete states of the witnesses.
\<close>

subsection \<open>Nobody waits for nobody\<close>

fun acquiring :: "prod_pc \<Rightarrow> bool" where
  "acquiring PIdle = False"
| "acquiring PRegister = False"
| "acquiring (POwns st len) = False"
| "acquiring pc = True"

text \<open>The lock bit of the write position has an owner.\<close>

lemma jumper_step:
  assumes st: "prod_step c i c'" and inv: "atomic_inv c" and old: "locked (mq_wp (cs c)) \<Longrightarrow> \<exists>k. jumping (cpc c k)" and l: "locked (mq_wp (cs c'))"
  shows "\<exists>k. jumping (cpc c' k)"
proof -
  have keep: ?thesis if e: "mq_wp (cs c') = mq_wp (cs c)" "\<And>k. k \<noteq> i \<Longrightarrow> cpc c' k = cpc c k" "jumping (cpc c i) \<Longrightarrow> jumping (cpc c' i)"
  proof -
    obtain k where "jumping (cpc c k)" using old l e(1) by auto
    then have "jumping (cpc c' k)" using e(2,3) by (cases "k = i") simp_all
    then show ?thesis by blast
  qed
  note same = set_pc_def set_reserve_def
  show ?thesis using st
  proof cases
    case (reg_flag q s')
    then show ?thesis by (intro keep) (auto simp: same mpsc_set_p_def split: if_splits)
  next
    case (unreg s')
    then show ?thesis by (intro keep) (auto simp: mpsc_unreg_def mpsc_p_def mpsc_set_p_def split: if_splits)
  next
    case (cas sz wp lp rp t)
    then have "jumping (cpc c' i)" using l by (simp add: same)
    then show ?thesis by blast
  next
    case (unlock off sz t)
    then show ?thesis using l by (simp add: same locked_def unlock_bits)
  qed (intro keep; simp add: same)+
qed

lemma reach_jumper: "atomic_reach c \<Longrightarrow> locked (mq_wp (cs c)) \<Longrightarrow> \<exists>k. jumping (cpc c k)"
proof (induction rule: atomic_reach.induct)
  case (init c)
  then show ?case by (simp add: mpsc_fresh_def locked_def)
next
  case (prod c i c')
  then show ?case using jumper_step [OF prod.hyps(2) atomic_reach_inv [OF prod.hyps(1)]] by blast
next
  case (cons c c')
  then have "mq_wp (cs c') = mq_wp (cs c)" "cpc c' = cpc c"
    by (auto elim!: cons_step.cases simp: mpsc_release_def Let_def)
  then show ?case using cons by simp
qed

lemma step_exists:
  assumes inv: "atomic_inv c" and pc: "acquiring (cpc c i)" "\<And>sz. cpc c i = PLoad sz \<Longrightarrow> \<not> locked (mq_wp (cs c))"
  shows "\<exists>c'. prod_step c i c'"
proof (cases "cpc c i")
  case (PTry sz wp l rp)
  then show ?thesis by (cases "mpsc_target (mq_cap (cs c)) wp rp sz") (blast intro: prod_step.no_room prod_step.cas_fails)+
next
  case (PWon off sz t)
  then have "mpsc_p (cs c) i = Some (mq_producers (cs c) ! i)" using prod_at [OF inv, of i] by (simp add: mpsc_p_def)
  then show ?thesis using PWon by (blast intro: prod_step.clear)
qed (use pc in \<open>auto intro: prod_step.load_wp prod_step.mark prod_step.load_rp prod_step.lap_ends prod_step.unlock\<close>)

lemma jumping_acquiring: "jumping pc \<Longrightarrow> acquiring pc \<and> (\<forall>sz. pc \<noteq> PLoad sz)"
  by (cases pc) simp_all

text \<open>A position with the lock bit belongs to a producer that is reserving.\<close>

lemma locked_reserve:
  assumes inv: "atomic_inv c" and q: "mpsc_p (cs c) i = Some q" "pr_flag q" "locked (pr_reserve_pos q)"
  shows "acquiring (cpc c i)"
proof (rule ccontr)
  assume n: "\<not> acquiring (cpc c i)"
  have i: "i < length (mq_producers (cs c))" "q = mq_producers (cs c) ! i" using q(1) by (auto simp: mpsc_p_def split: if_splits)
  have "mpsc_pos_ok (atomic_abs c)" "producers_ok (atomic_abs c) (pend c)" using atomic_invD(1) [OF inv] by (simp_all add: mpsc_inv_def)
  then have "mpsc_idle (mq_producers (atomic_abs c))" by (rule inv_idle)
  moreover have "prod_abs (cpc c i) q \<in> set (mq_producers (atomic_abs c))" using i by (auto simp: prods_abs_def)
  ultimately have "\<not> locked (pr_reserve_pos (prod_abs (cpc c i) q))" using q(2) by (simp add: mpsc_idle_def locked_def)
  then show False using n q(3) by (cases "cpc c i") (simp_all add: prod_abs_def)
qed

subsection \<open>A scheduler\<close>

text \<open>Whose turn it is: a producer takes the next step of its call, and begins by reserving a size (an
  unregistered one by registering); the consumer, too, releasing a size when it holds bytes.\<close>

datatype turn = Producer nat usz | Consumer usz

fun prod_next :: "mpsc_conc \<Rightarrow> nat \<Rightarrow> mpsc_p_t \<Rightarrow> usz \<Rightarrow> prod_pc \<Rightarrow> mpsc_conc option" where
  "prod_next c i q n PIdle = (if pr_flag q then (if n \<le> MPSC_OFFSET_MASK then Some (set_pc c i (PLoad n)) else None)
     else Some (set_pc (set_reserve c i MPSC_OFFSET_MAX) i PRegister))"
| "prod_next c i q n PRegister = map_option (\<lambda>s. set_pc (c\<lparr>cs := s\<rparr>) i PIdle) (mpsc_set_p (cs c) i (q\<lparr>pr_flag := True\<rparr>))"
| "prod_next c i q n (PLoad sz) = (if locked (mq_wp (cs c)) then None else Some (set_pc c i (PMark sz (mq_wp (cs c)) (clap c))))"
| "prod_next c i q n (PMark sz wp l) = Some (set_pc (set_reserve c i ((wp AND MPSC_OFFSET_MASK) OR MPSC_WRAP_LOCK_BIT)) i (PRead sz wp l))"
| "prod_next c i q n (PRead sz wp l) = Some (set_pc c i (PTry sz wp l (mq_rp (cs c))))"
| "prod_next c i q n (PTry sz wp l rp) =
     (case mpsc_target (mq_cap (cs c)) wp rp sz of None \<Rightarrow> Some (set_pc (set_reserve c i MPSC_OFFSET_MAX) i PIdle)
      | Some t \<Rightarrow> if mq_wp (cs c) = wp \<and> int (clap c) < int l + 2 ^ 31
        then Some (set_pc (c\<lparr>cs := (cs c)\<lparr>mq_wp := t\<rparr>,
          clap := (if mq_cap (cs c) \<le> (wp AND MPSC_OFFSET_MASK) + sz then clap c + 1 else clap c),
          cjump := (if locked t then Some (wp AND MPSC_OFFSET_MASK) else cjump c)\<rparr>) i (PWon (wp AND MPSC_OFFSET_MASK) sz t))
        else Some (set_pc c i (PLoad sz)))"
| "prod_next c i q n (PWon off sz t) = Some (set_pc (set_reserve c i (pr_reserve_pos q AND NOT MPSC_WRAP_LOCK_BIT)) i
     (if locked t then PEnd off sz t else POwns (unat off) (unat sz)))"
| "prod_next c i q n (PEnd off sz t) = Some (set_pc (c\<lparr>cs := (cs c)\<lparr>mq_warp_end := off\<rparr>\<rparr>) i (PUnlock off sz t))"
| "prod_next c i q n (PUnlock off sz t) =
     Some (set_pc (c\<lparr>cs := (cs c)\<lparr>mq_wp := t AND NOT MPSC_WRAP_LOCK_BIT\<rparr>, cjump := None\<rparr>) i (POwns 0 (unat sz)))"
| "prod_next c i q n (POwns st len) = Some (set_pc (set_reserve c i MPSC_OFFSET_MAX) i PIdle)"

fun cons_next :: "mpsc_conc \<Rightarrow> usz \<Rightarrow> cons_pc \<Rightarrow> mpsc_conc option" where
  "cons_next c n (CHolds g) = (if g = 0 then Some (c\<lparr>ccons := CPop\<rparr>)
     else if unat n \<le> g then Some (c\<lparr>cs := mpsc_release (cs c) n, ccons := CHolds (g - unat n)\<rparr>) else None)"
| "cons_next c n CPop = (if locked (mq_wp (cs c)) then None
     else if mq_rp (cs c) = mq_wp (cs c) AND MPSC_OFFSET_MASK then Some (c\<lparr>ccons := CHolds 0\<rparr>)
     else Some (c\<lparr>ccons := CScan (mq_wp (cs c) AND MPSC_OFFSET_MASK) 0 MPSC_OFFSET_MAX\<rparr>))"
| "cons_next c n (CScan wp i r) = (case mpsc_p (cs c) i of
     Some q \<Rightarrow> Some (c\<lparr>ccons := (if pr_flag q then CLook wp i r else CScan wp (Suc i) r)\<rparr>)
   | None \<Rightarrow> if i \<noteq> length (mq_producers (cs c)) then None
     else if wp < mq_rp (cs c)
     then (if r = MPSC_OFFSET_MAX \<and> mq_rp (cs c) = lap_end (cs c)
       then Some (c\<lparr>cs := (cs c)\<lparr>mq_warp_end := MPSC_OFFSET_MAX\<rparr>, ccons := CJump (mq_warp_end (cs c))\<rparr>)
       else Some (c\<lparr>ccons := CHolds (unat ((if r < lap_end (cs c) then r else lap_end (cs c)) - mq_rp (cs c)))\<rparr>))
     else Some (c\<lparr>ccons := CHolds (unat ((if r < wp then r else wp) - mq_rp (cs c)))\<rparr>))"
| "cons_next c n (CLook wp i r) = (case mpsc_p (cs c) i of None \<Rightarrow> None
   | Some q \<Rightarrow> if locked (pr_reserve_pos q) then None
     else Some (c\<lparr>ccons := CScan wp (Suc i) (if mq_rp (cs c) \<le> pr_reserve_pos q \<and> pr_reserve_pos q < r then pr_reserve_pos q else r)\<rparr>))"
| "cons_next c n (CJump e) = Some (c\<lparr>cs := (cs c)\<lparr>mq_rp := 0\<rparr>, ccons := CPop\<rparr>)"

fun atomic_run :: "turn list \<Rightarrow> mpsc_conc \<Rightarrow> mpsc_conc option" where
  "atomic_run [] c = Some c"
| "atomic_run (Producer i n # ts) c = (case mpsc_p (cs c) i of None \<Rightarrow> None
     | Some q \<Rightarrow> (case prod_next c i q n (cpc c i) of None \<Rightarrow> None | Some c' \<Rightarrow> atomic_run ts c'))"
| "atomic_run (Consumer n # ts) c = (case cons_next c n (ccons c) of None \<Rightarrow> None | Some c' \<Rightarrow> atomic_run ts c')"

lemma mask_off_ok: "n \<le> MPSC_OFFSET_MASK \<Longrightarrow> off_ok n"
  by (simp add: off_ok_def MPSC_OFFSET_MASK_def word_le_nat_alt)

lemma prod_next_step:
  assumes q: "mpsc_p (cs c) i = Some q" and n: "prod_next c i q n (cpc c i) = Some c'"
  shows "prod_step c i c'"
proof -
  have i: "i < length (mq_producers (cs c))" using q by (auto simp: mpsc_p_def split: if_splits)
  show ?thesis
  proof (cases "cpc c i")
    case PIdle
    then show ?thesis using n i q by (auto intro: prod_step.reg_pos prod_step.begin_acq dest: mask_off_ok split: if_splits)
  next
    case PRegister
    then show ?thesis using n q by (auto intro: prod_step.reg_flag)
  next
    case (PTry sz wp l rp)
    show ?thesis
    proof (cases "mpsc_target (mq_cap (cs c)) wp rp sz")
      case None
      then show ?thesis using n PTry by (auto intro: prod_step.no_room)
    next
      case (Some t)
      show ?thesis
      proof (cases "mq_wp (cs c) = wp \<and> int (clap c) < int l + 2 ^ 31")
        case True
        then show ?thesis using n PTry Some prod_step.cas [OF PTry Some] by simp
      next
        case False
        then have "c' = set_pc c i (PLoad sz)" using n PTry Some by auto
        then show ?thesis using prod_step.cas_fails [OF PTry Some] by simp
      qed
    qed
  next
    case (PWon off sz t)
    then show ?thesis using n prod_step.clear [OF PWon q] by simp
  qed (use n in \<open>auto intro: prod_step.load_wp prod_step.mark prod_step.load_rp prod_step.lap_ends prod_step.unlock prod_step.push split: if_splits\<close>)
qed

lemma cons_next_step:
  assumes "cons_next c n (ccons c) = Some c'"
  shows "cons_step c c'"
proof (cases "ccons c")
  case (CScan wp i r)
  show ?thesis
  proof (cases "mpsc_p (cs c) i")
    case None
    then have i: "i = length (mq_producers (cs c))" using assms CScan by (simp split: if_splits)
    note st = cons_step.grant [OF CScan i] cons_step.grant_lap [OF CScan i] cons_step.jump_end [OF CScan i]
    show ?thesis
    proof (cases "wp < mq_rp (cs c)")
      case False
      then show ?thesis using assms CScan None i st(1) by simp
    next
      case True
      show ?thesis
      proof (cases "r = MPSC_OFFSET_MAX \<and> mq_rp (cs c) = lap_end (cs c)")
        case e: True
        then show ?thesis using assms CScan None i st(3) True by simp
      next
        case False
        then have "cons_next c n (CScan wp i r) = Some (c\<lparr>ccons := CHolds (unat ((if r < lap_end (cs c) then r else lap_end (cs c)) - mq_rp (cs c)))\<rparr>)"
          using None True i by (simp add: if_not_P [OF False])
        then show ?thesis using assms CScan st(2) [OF True False] by simp
      qed
    qed
  next
    case (Some q)
    then show ?thesis using assms CScan cons_step.scan_flag [OF CScan Some] by simp
  qed
next
  case (CLook wp i r)
  show ?thesis
  proof (cases "mpsc_p (cs c) i")
    case (Some q)
    then show ?thesis using assms CLook cons_step.scan_pos [OF CLook Some] by (cases "locked (pr_reserve_pos q)") simp_all
  qed (use assms CLook in simp)
qed (use assms in \<open>auto intro: cons_step.begin_pop cons_step.pop_empty cons_step.pop_wp cons_step.jump_rp cons_step.release split: if_splits\<close>)

lemma atomic_run_reach: "atomic_run ts c = Some c' \<Longrightarrow> atomic_reach c \<Longrightarrow> atomic_reach c'"
  by (induction ts c rule: atomic_run.induct)
    (auto split: option.splits intro: atomic_reach.prod [OF _ prod_next_step] atomic_reach.cons [OF _ cons_next_step])

definition demo_conc :: mpsc_conc where
  "demo_conc = \<lparr>cs = demo_ring, cpc = (\<lambda>i. PIdle), ccons = CHolds 0, clap = 0, cjump = None\<rparr>"

text \<open>Producer 0 passes a record of six bytes to the consumer and reserves four, which do not fit behind it.\<close>

definition demo_jump :: "turn list" where
  "demo_jump = replicate 9 (Producer 0 6) @ replicate 7 (Consumer 6) @ replicate 6 (Producer 0 4)"

lemma demo_conc_reached: "atomic_reach demo_conc"
  by (rule atomic_reach.init) (simp_all add: demo_conc_def demo_ring_def mpsc_fresh_def capn_def)

subsection \<open>Properties\<close>



text \<open>C12: Whenever a producer or the consumer waits for a lock bit, of the write position or of a producer's
  position, some producer that is inside a reservation can take its next step.\<close>

theorem mpsc_waits_end:
  assumes "atomic_reach c" "locked (mq_wp (cs c)) \<or> (\<exists>i q. mpsc_p (cs c) i = Some q \<and> pr_flag q \<and> locked (pr_reserve_pos q))"
  shows "\<exists>i c'. acquiring (cpc c i) \<and> prod_step c i c'"
proof -
  note inv = atomic_reach_inv [OF assms(1)]
  show ?thesis
  proof (cases "locked (mq_wp (cs c))")
    case True
    then obtain i where "jumping (cpc c i)" using reach_jumper [OF assms(1)] by blast
    then show ?thesis using step_exists [OF inv, of i] jumping_acquiring by blast
  next
    case False
    then obtain i q where "mpsc_p (cs c) i = Some q" "pr_flag q" "locked (pr_reserve_pos q)" using assms(2) by blast
    then show ?thesis using step_exists [OF inv, of i] locked_reserve [OF inv] False by blast
  qed
qed

text \<open>Three states of the demonstration: after the jump of producer 0 producer 1 reserves a byte behind it; producer 0
  is about to store the end of the lap; producer 0 has marked its position.\<close>

lemma demo_runs:
  "map_option (\<lambda>c. (cpc c 0, cpc c 1, ccons c, mq_rp (cs c))) (atomic_run (demo_jump @ replicate 2 (Producer 0 0) @ replicate 8 (Producer 1 1)) demo_conc)
     = Some (POwns 0 4, POwns 4 1, CHolds 0, 6)"
  "map_option (\<lambda>c. cpc c 0) (atomic_run demo_jump demo_conc) = Some (PEnd 6 4 0x8000000100000004)"
  "map_option (\<lambda>c. map_option (\<lambda>q. (pr_flag q, pr_reserve_pos q AND MPSC_WRAP_LOCK_BIT)) (mpsc_p (cs c) 0)) (atomic_run (replicate 6 (Producer 0 6)) demo_conc)
     = Some (Some (True, 0x8000000000000000))"
  by code_simp+



theorem mpsc_waits_end_witness:
  "\<exists>c q i c'. atomic_reach c \<and> mpsc_p (cs c) 0 = Some q \<and> locked (pr_reserve_pos q) \<and> acquiring (cpc c i) \<and> prod_step c i c'"
proof -
  obtain c q where c: "atomic_run (replicate 6 (Producer 0 6)) demo_conc = Some c" "mpsc_p (cs c) 0 = Some q" "pr_flag q"
    "pr_reserve_pos q AND MPSC_WRAP_LOCK_BIT = 0x8000000000000000" using demo_runs(3) by auto
  note r = atomic_run_reach [OF c(1) demo_conc_reached]
  have l: "locked (pr_reserve_pos q)" using c(4) by (simp add: locked_def)
  then show ?thesis using mpsc_waits_end [OF r] c(2,3) r by blast
qed

end
