(* ===== verification/Link_List.thy ===== *)
theory Link_List
  imports Ava_Prelude
begin

section \<open>The circular doubly linked list (ds/list.h)\<close>

text \<open>
  Nodes live in a heap from addresses to \<open>list_head_t\<close>; every read and write of a field
  dereferences its pointer, and dereferencing NULL or an address without a node is undefined
  (the operation returns \<open>None\<close>). The operations are the sequences of assignments of the
  code. A heap represents a cyclic sequence of nodes; the theorems say what each operation
  does to the sequence and which nodes it leaves alone.
\<close>

subsection \<open>Heap\<close>

type_synonym lptr = nat

record list_head_t =
  lh_prev :: lptr
  lh_next :: lptr

type_synonym lheap = "lptr \<Rightarrow> list_head_t option"

definition deref :: "lheap \<Rightarrow> lptr \<Rightarrow> list_head_t option" where
  "deref h p = (if p = 0 then None else h p)"

definition get_next :: "lheap \<Rightarrow> lptr \<Rightarrow> lptr option" where
  "get_next h p = map_option lh_next (deref h p)"

definition get_prev :: "lheap \<Rightarrow> lptr \<Rightarrow> lptr option" where
  "get_prev h p = map_option lh_prev (deref h p)"

definition set_next :: "lheap \<Rightarrow> lptr \<Rightarrow> lptr \<Rightarrow> lheap option" where
  "set_next h p v = map_option (\<lambda>n. h(p \<mapsto> n\<lparr>lh_next := v\<rparr>)) (deref h p)"

definition set_prev :: "lheap \<Rightarrow> lptr \<Rightarrow> lptr \<Rightarrow> lheap option" where
  "set_prev h p v = map_option (\<lambda>n. h(p \<mapsto> n\<lparr>lh_prev := v\<rparr>)) (deref h p)"

subsection \<open>Operations\<close>

definition list_init :: "lheap \<Rightarrow> lptr \<Rightarrow> lheap option" where
  "list_init h head = do {
     h \<leftarrow> set_next h head head;
     set_prev h head head }"

definition list_insert :: "lheap \<Rightarrow> lptr \<Rightarrow> lptr \<Rightarrow> lptr \<Rightarrow> lheap option" where
  "list_insert h entry prev_node next_node = do {
     h \<leftarrow> set_prev h next_node entry;
     h \<leftarrow> set_next h entry next_node;
     h \<leftarrow> set_prev h entry prev_node;
     set_next h prev_node entry }"

definition list_add :: "lheap \<Rightarrow> lptr \<Rightarrow> lptr \<Rightarrow> lheap option" where
  "list_add h entry head = do {
     n \<leftarrow> get_next h head;
     list_insert h entry head n }"

definition list_add_tail :: "lheap \<Rightarrow> lptr \<Rightarrow> lptr \<Rightarrow> lheap option" where
  "list_add_tail h entry head = do {
     p \<leftarrow> get_prev h head;
     list_insert h entry p head }"

definition list_unlink :: "lheap \<Rightarrow> lptr \<Rightarrow> lptr \<Rightarrow> lheap option" where
  "list_unlink h prev_node next_node = do {
     h \<leftarrow> set_next h prev_node next_node;
     set_prev h next_node prev_node }"

definition list_del :: "lheap \<Rightarrow> lptr \<Rightarrow> lheap option" where
  "list_del h entry = do {
     p \<leftarrow> get_prev h entry;
     n \<leftarrow> get_next h entry;
     h \<leftarrow> list_unlink h p n;
     h \<leftarrow> set_next h entry 0;
     set_prev h entry 0 }"

definition list_empty :: "lheap \<Rightarrow> lptr \<Rightarrow> bool option" where
  "list_empty h head = do {
     n \<leftarrow> get_next h head;
     Some (n = head) }"

definition list_splice_raw :: "lheap \<Rightarrow> lptr \<Rightarrow> lptr \<Rightarrow> lheap option" where
  "list_splice_raw h lst head = do {
     first \<leftarrow> get_next h lst;
     last \<leftarrow> get_prev h lst;
     at \<leftarrow> get_next h head;
     h \<leftarrow> set_prev h first head;
     h \<leftarrow> set_next h head first;
     h \<leftarrow> set_next h last at;
     set_prev h at last }"

definition list_splice :: "lheap \<Rightarrow> lptr \<Rightarrow> lptr \<Rightarrow> lheap option" where
  "list_splice h lst head = do {
     e \<leftarrow> list_empty h lst;
     if \<not> e then list_splice_raw h lst head else Some h }"

definition list_replace :: "lheap \<Rightarrow> lptr \<Rightarrow> lptr \<Rightarrow> lheap option" where
  "list_replace h old_entry new_entry = do {
     n \<leftarrow> get_next h old_entry;
     h \<leftarrow> set_next h new_entry n;
     n \<leftarrow> get_next h new_entry;
     h \<leftarrow> set_prev h n new_entry;
     p \<leftarrow> get_prev h old_entry;
     h \<leftarrow> set_prev h new_entry p;
     p \<leftarrow> get_prev h new_entry;
     set_next h p new_entry }"

definition list_replace_init :: "lheap \<Rightarrow> lptr \<Rightarrow> lptr \<Rightarrow> lheap option" where
  "list_replace_init h old_entry new_entry = do {
     h \<leftarrow> list_replace h old_entry new_entry;
     list_init h old_entry }"

definition list_move :: "lheap \<Rightarrow> lptr \<Rightarrow> lptr \<Rightarrow> lheap option" where
  "list_move h entry head = do {
     p \<leftarrow> get_prev h entry;
     n \<leftarrow> get_next h entry;
     h \<leftarrow> list_unlink h p n;
     list_add h entry head }"

definition list_move_tail :: "lheap \<Rightarrow> lptr \<Rightarrow> lptr \<Rightarrow> lheap option" where
  "list_move_tail h entry head = do {
     p \<leftarrow> get_prev h entry;
     n \<leftarrow> get_next h entry;
     h \<leftarrow> list_unlink h p n;
     list_add_tail h entry head }"

text \<open>\<open>LIST_FOR_EACH\<close> and \<open>LIST_FOR_EACH_PREV\<close>, collecting the entries the body sees; \<open>LIST_FIRST_ENTRY\<close>
  before the offset of the member is subtracted. The first number bounds the rounds.\<close>

fun list_walk :: "(lptr \<Rightarrow> lptr option) \<Rightarrow> nat \<Rightarrow> lptr \<Rightarrow> lptr \<Rightarrow> lptr list option" where
  "list_walk step 0 entry head = None"
| "list_walk step (Suc k) entry head =
     (if entry = head then Some []
      else do { e \<leftarrow> step entry; es \<leftarrow> list_walk step k e head; Some (entry # es) })"

definition list_for_each :: "lheap \<Rightarrow> nat \<Rightarrow> lptr \<Rightarrow> lptr list option" where
  "list_for_each h fuel head = do { e \<leftarrow> get_next h head; list_walk (get_next h) fuel e head }"

definition list_for_each_prev :: "lheap \<Rightarrow> nat \<Rightarrow> lptr \<Rightarrow> lptr list option" where
  "list_for_each_prev h fuel head = do { e \<leftarrow> get_prev h head; list_walk (get_prev h) fuel e head }"

definition list_first :: "lheap \<Rightarrow> lptr \<Rightarrow> lptr option" where
  "list_first h head = get_next h head"

subsection \<open>What a heap represents\<close>

definition live :: "lheap \<Rightarrow> lptr set" where
  "live h = {p. p \<noteq> 0 \<and> h p \<noteq> None}"

definition nx :: "lheap \<Rightarrow> lptr \<Rightarrow> lptr" where
  "nx h p = lh_next (the (h p))"

definition pv :: "lheap \<Rightarrow> lptr \<Rightarrow> lptr" where
  "pv h p = lh_prev (the (h p))"

definition linked :: "(lptr \<Rightarrow> lptr) \<Rightarrow> (lptr \<Rightarrow> lptr) \<Rightarrow> lptr \<Rightarrow> lptr \<Rightarrow> bool" where
  "linked f g a b \<longleftrightarrow> f a = b \<and> g b = a"

definition cyc :: "(lptr \<Rightarrow> lptr) \<Rightarrow> (lptr \<Rightarrow> lptr) \<Rightarrow> lptr list \<Rightarrow> bool" where
  "cyc f g xs \<longleftrightarrow> xs \<noteq> [] \<and> successively (linked f g) xs \<and> linked f g (last xs) (hd xs)"

text \<open>\<open>ring h xs\<close>: the nodes \<open>xs\<close>, all different and live, form one circle in this order.
  A list with head \<open>head\<close> and entries \<open>xs\<close> is the circle \<open>head # xs\<close>.\<close>

definition ring :: "lheap \<Rightarrow> lptr list \<Rightarrow> bool" where
  "ring h xs \<longleftrightarrow> distinct xs \<and> set xs \<subseteq> live h \<and> cyc (nx h) (pv h) xs"

definition upd_next :: "lheap \<Rightarrow> lptr \<Rightarrow> lptr \<Rightarrow> lheap" where
  "upd_next h p v = h(p \<mapsto> (the (h p))\<lparr>lh_next := v\<rparr>)"

definition upd_prev :: "lheap \<Rightarrow> lptr \<Rightarrow> lptr \<Rightarrow> lheap" where
  "upd_prev h p v = h(p \<mapsto> (the (h p))\<lparr>lh_prev := v\<rparr>)"

lemma get_live [simp]:
  "p \<in> live h \<Longrightarrow> get_next h p = Some (nx h p)" "p \<in> live h \<Longrightarrow> get_prev h p = Some (pv h p)"
  by (auto simp: live_def get_next_def get_prev_def deref_def nx_def pv_def)

lemma set_live [simp]:
  "p \<in> live h \<Longrightarrow> set_next h p v = Some (upd_next h p v)"
  "p \<in> live h \<Longrightarrow> set_prev h p v = Some (upd_prev h p v)"
  by (auto simp: live_def set_next_def set_prev_def deref_def upd_next_def upd_prev_def)

lemma live_upd [simp]:
  "p \<in> live h \<Longrightarrow> live (upd_next h p v) = live h" "p \<in> live h \<Longrightarrow> live (upd_prev h p v) = live h"
  by (auto simp: live_def upd_next_def upd_prev_def)

lemma nx_upd [simp]:
  "nx (upd_next h p v) = (nx h)(p := v)" "nx (upd_prev h p v) = nx h"
  by (auto simp: nx_def upd_next_def upd_prev_def fun_eq_iff)

lemma pv_upd [simp]:
  "pv (upd_prev h p v) = (pv h)(p := v)" "pv (upd_next h p v) = pv h"
  by (auto simp: pv_def upd_next_def upd_prev_def fun_eq_iff)

lemma upd_other [simp]: "q \<noteq> p \<Longrightarrow> upd_next h p v q = h q" "q \<noteq> p \<Longrightarrow> upd_prev h p v q = h q"
  by (simp_all add: upd_next_def upd_prev_def)

lemma not_live_0 [simp]: "0 \<notin> live h"
  by (simp add: live_def)

subsection \<open>Circles\<close>

lemma cyc_rotate: "cyc f g (xs @ ys) = cyc f g (ys @ xs)"
  by (cases "xs = [] \<or> ys = []") (auto simp: cyc_def successively_append_iff)

lemma ring_rotate: "ring h (xs @ ys) = ring h (ys @ xs)"
  by (auto simp: ring_def cyc_rotate [of _ _ xs])

text \<open>A chain survives changes of the next field of its last node and the prev field of its
  first node.\<close>

lemma chain_frame:
  assumes "successively (linked f g) xs" "\<And>x. x \<in> set (butlast xs) \<Longrightarrow> f' x = f x"
    "\<And>x. x \<in> set (tl xs) \<Longrightarrow> g' x = g x"
  shows "successively (linked f' g') xs"
  using assms
proof (induction xs rule: induct_list012)
  case (3 x y zs)
  have "successively (linked f' g') (y # zs)"
    using 3 by (intro "3.IH"(2)) auto
  moreover have "linked f' g' x y" using 3 by (simp add: linked_def)
  ultimately show ?case by simp
qed simp_all

lemma in_set_tlD: "x \<in> set (tl xs) \<Longrightarrow> x \<in> set xs"
  by (cases xs) auto

lemma not_last_butlast: "distinct xs \<Longrightarrow> x \<in> set (butlast xs) \<Longrightarrow> x \<noteq> last xs"
  by (induction xs) (auto split: if_splits)

lemma not_hd_tl: "distinct xs \<Longrightarrow> x \<in> set (tl xs) \<Longrightarrow> x \<noteq> hd xs"
  by (cases xs) auto

text \<open>Closing a chain whose end points are joined by the two outer fields.\<close>

lemma cyc_close:
  assumes "successively (linked f g) xs" "distinct xs" "xs \<noteq> []"
  shows "cyc (f(last xs := hd xs)) (g(hd xs := last xs)) xs"
proof -
  have "successively (linked (f(last xs := hd xs)) (g(hd xs := last xs))) xs"
    using assms by (intro chain_frame [OF assms(1)]) (auto dest: not_last_butlast not_hd_tl)
  then show ?thesis using assms by (simp add: cyc_def linked_def)
qed

lemma ring_ends:
  assumes "ring h xs"
  shows "nx h (last xs) = hd xs" "pv h (hd xs) = last xs" "hd xs \<in> live h" "last xs \<in> live h"
    "xs \<noteq> []" "distinct xs" "successively (linked (nx h) (pv h)) xs"
  using assms by (auto simp: ring_def cyc_def linked_def)

lemma ring_frame:
  assumes "ring h xs" "\<And>p. p \<in> set xs \<Longrightarrow> h' p = h p"
  shows "ring h' xs"
proof -
  have "successively (linked (nx h') (pv h')) xs"
    using assms by (intro chain_frame [OF ring_ends(7) [OF assms(1)]])
      (auto simp: nx_def pv_def dest: in_set_butlastD in_set_tlD)
  moreover have "set xs \<subseteq> live h'" using assms by (fastforce simp: ring_def live_def)
  ultimately show ?thesis
    using assms(1) ring_ends [OF assms(1)] assms(2) by (auto simp: ring_def cyc_def linked_def nx_def pv_def)
qed


subsection \<open>The operations on circles\<close>

text \<open>Each lemma gives the resulting heap's circle, the live nodes, and the nodes whose fields are
  as before.\<close>

definition touched :: "lheap \<Rightarrow> lheap \<Rightarrow> lptr set \<Rightarrow> bool" where
  "touched h h' S \<longleftrightarrow> live h' = live h \<and> (\<forall>p. p \<notin> S \<longrightarrow> h' p = h p)"

lemma list_init_ring:
  "p \<in> live h \<Longrightarrow> \<exists>h'. list_init h p = Some h' \<and> ring h' [p] \<and> touched h h' {p}"
  by (auto simp: list_init_def ring_def cyc_def linked_def touched_def)

text \<open>Insertion between the last and the first node of a circle.\<close>

lemma list_insert_ring:
  assumes r: "ring h xs" and e: "e \<in> live h" "e \<notin> set xs" and p: "p = last xs" and n: "n = hd xs"
  shows "\<exists>h'. list_insert h e p n = Some h' \<and> ring h' (xs @ [e]) \<and> touched h h' {e, p, n}"
proof -
  note rs = ring_ends [OF r]
  let ?h = "upd_next (upd_prev (upd_next (upd_prev h n e) e n) e p) p e"
  have pn: "p \<in> live h" "n \<in> live h" "p \<noteq> e" "n \<noteq> e" "p \<in> set xs" "n \<in> set xs"
    using rs e p n by auto
  have "list_insert h e p n = Some ?h" using pn e by (simp add: list_insert_def)
  moreover have "cyc (nx ?h) (pv ?h) (xs @ [e])"
  proof -
    have "successively (linked (nx ?h) (pv ?h)) xs"
      using pn e rs by (intro chain_frame [OF rs(7)])
        (auto simp: p n dest: not_last_butlast not_hd_tl in_set_butlastD in_set_tlD)
    then show ?thesis using pn rs(5) by (simp add: cyc_def successively_append_iff linked_def flip: p n)
  qed
  then have "ring ?h (xs @ [e])" using r e pn by (auto simp: ring_def)
  moreover have "touched h ?h {e, p, n}" using pn e by (simp add: touched_def)
  ultimately show ?thesis by blast
qed

text \<open>Unlinking the last node of a circle of at least two.\<close>

lemma list_unlink_ring:
  assumes r: "ring h (xs @ [e])" and xs: "xs \<noteq> []"
  shows "\<exists>h'. list_unlink h (pv h e) (nx h e) = Some h' \<and> ring h' xs \<and> touched h h' {pv h e, nx h e} \<and>
    pv h e = last xs \<and> nx h e = hd xs"
proof -
  note rs = ring_ends [OF r]
  have e: "pv h e = last xs" "nx h e = hd xs"
    using rs(1,7) xs by (auto simp: successively_append_iff linked_def)
  let ?h = "upd_prev (upd_next h (last xs) (hd xs)) (hd xs) (last xs)"
  have l: "last xs \<in> live h" "hd xs \<in> live h" using r xs by (auto simp: ring_def)
  have "list_unlink h (pv h e) (nx h e) = Some ?h" using l by (simp add: list_unlink_def e)
  moreover have "cyc (nx ?h) (pv ?h) xs"
    using cyc_close [of "nx h" "pv h" xs] rs(6,7) xs l by (simp add: successively_append_iff)
  then have "ring ?h xs" using r l by (simp add: ring_def)
  moreover have "touched h ?h {pv h e, nx h e}" using l by (simp add: touched_def e)
  ultimately show ?thesis using e by blast
qed

text \<open>Heads and entries: \<open>head # xs\<close> is the circle.\<close>

lemma list_add_ring:
  assumes "ring h (head # xs)" "e \<in> live h" "e \<notin> set (head # xs)"
  shows "\<exists>h'. list_add h e head = Some h' \<and> ring h' (head # e # xs) \<and>
    touched h h' {e, head, hd (xs @ [head])}"
proof -
  have r: "ring h (xs @ [head])" using assms(1) ring_rotate [of h "[head]" xs] by simp
  obtain h' where "list_insert h e head (hd (xs @ [head])) = Some h'" "ring h' ((xs @ [head]) @ [e])"
    "touched h h' {e, head, hd (xs @ [head])}"
    using list_insert_ring [OF r assms(2)] assms(3) by auto
  moreover have "get_next h head = Some (hd (xs @ [head]))" using ring_ends [OF r] by simp
  moreover have "ring h' (head # e # xs)" using calculation(2) ring_rotate [of h' xs "[head, e]"] by simp
  ultimately show ?thesis by (auto simp: list_add_def)
qed

lemma list_add_tail_ring:
  assumes "ring h (head # xs)" "e \<in> live h" "e \<notin> set (head # xs)"
  shows "\<exists>h'. list_add_tail h e head = Some h' \<and> ring h' (head # xs @ [e]) \<and>
    touched h h' {e, head, last (head # xs)}"
proof -
  obtain h' where "list_insert h e (last (head # xs)) head = Some h'" "ring h' ((head # xs) @ [e])"
    "touched h h' {e, last (head # xs), head}"
    using list_insert_ring [OF assms(1-3) refl refl] by auto
  moreover have "get_prev h head = Some (last (head # xs))" using ring_ends [OF assms(1)] by simp
  ultimately show ?thesis by (auto simp: list_add_tail_def insert_commute)
qed

lemma ring_bring_last: "ring h (ys @ e # zs) = ring h ((zs @ ys) @ [e])"
  using ring_rotate [of h "ys @ [e]" zs] ring_rotate [of h zs "ys @ [e]"] by simp

lemma list_unlink_mid:
  assumes r: "ring h (ys @ e # zs)" and ne: "ys @ zs \<noteq> []"
  shows "\<exists>h'. list_unlink h (pv h e) (nx h e) = Some h' \<and> ring h' (ys @ zs) \<and>
    touched h h' {pv h e, nx h e} \<and> pv h e \<in> set (ys @ zs) \<and> nx h e \<in> set (ys @ zs) \<and> e \<in> live h"
proof -
  have r': "ring h ((zs @ ys) @ [e])" using r ring_bring_last by simp
  have n: "zs @ ys \<noteq> []" using ne by auto
  then have m: "last (zs @ ys) \<in> set (zs @ ys)" "hd (zs @ ys) \<in> set (zs @ ys)"
    by (rule last_in_set, rule hd_in_set)
  obtain h' where h': "list_unlink h (pv h e) (nx h e) = Some h'" "ring h' (zs @ ys)"
    "touched h h' {pv h e, nx h e}" "pv h e = last (zs @ ys)" "nx h e = hd (zs @ ys)"
    using list_unlink_ring [OF r' n] by blast
  moreover have "ring h' (ys @ zs)" using h'(2) ring_rotate by blast
  moreover have "pv h e \<in> set (ys @ zs)" "nx h e \<in> set (ys @ zs)" using m h'(4,5) by auto
  moreover have "e \<in> live h" using r by (simp add: ring_def)
  ultimately show ?thesis by blast
qed

lemma list_del_ring:
  assumes "ring h (ys @ e # zs)" "ys @ zs \<noteq> []"
  shows "\<exists>h'. list_del h e = Some h' \<and> ring h' (ys @ zs) \<and> touched h h' {e, pv h e, nx h e} \<and>
    h' e = Some \<lparr>lh_prev = 0, lh_next = 0\<rparr>"
proof -
  obtain h1 where h1: "list_unlink h (pv h e) (nx h e) = Some h1" "ring h1 (ys @ zs)"
    "touched h h1 {pv h e, nx h e}" "e \<in> live h" "e \<notin> set (ys @ zs)"
    using list_unlink_mid [OF assms] assms(1) by (auto simp: ring_def)
  let ?h = "upd_prev (upd_next h1 e 0) e 0"
  have l: "e \<in> live h1" using h1 by (simp add: touched_def)
  have "list_del h e = Some ?h" using h1 l by (simp add: list_del_def)
  moreover have "ring ?h (ys @ zs)" using h1(5) by (intro ring_frame [OF h1(2)]) (metis upd_other)
  moreover have "touched h ?h {e, pv h e, nx h e}" using h1(3) l by (simp add: touched_def)
  moreover have "?h e = Some \<lparr>lh_prev = 0, lh_next = 0\<rparr>"
    by (simp add: upd_prev_def upd_next_def)
  ultimately show ?thesis by blast
qed

lemma touched_trans: "touched h h1 A \<Longrightarrow> touched h1 h2 B \<Longrightarrow> touched h h2 (A \<union> B)"
  by (simp add: touched_def)

lemma touched_mono: "touched h h' A \<Longrightarrow> A \<subseteq> B \<Longrightarrow> touched h h' B"
  by (auto simp: touched_def)

lemma touched_ring: "ring h xs \<Longrightarrow> touched h h' S \<Longrightarrow> S \<inter> set xs = {} \<Longrightarrow> ring h' xs"
  by (erule ring_frame) (auto simp: touched_def)

lemma list_move_ring:
  assumes "ring h (head # ys @ e # zs)"
  shows "\<exists>h'. list_move h e head = Some h' \<and> ring h' (head # e # ys @ zs) \<and>
      touched h h' (set (head # ys @ e # zs))"
    and "\<exists>h'. list_move_tail h e head = Some h' \<and> ring h' (head # ys @ zs @ [e]) \<and>
      touched h h' (set (head # ys @ e # zs))"
proof -
  let ?S = "set (head # ys @ e # zs)"
  obtain h1 where h1: "list_unlink h (pv h e) (nx h e) = Some h1" "ring h1 (head # ys @ zs)"
    "touched h h1 {pv h e, nx h e}" "pv h e \<in> ?S" "nx h e \<in> ?S" "e \<in> live h"
    using list_unlink_mid [of h "head # ys" e zs] assms by auto
  have e: "e \<in> live h1" "e \<notin> set (head # ys @ zs)" using h1 assms by (auto simp: touched_def ring_def)
  have "hd ((ys @ zs) @ [head]) \<in> set ((ys @ zs) @ [head])" "last (head # ys @ zs) \<in> set (head # ys @ zs)"
    by (rule hd_in_set, simp) (rule last_in_set, simp)
  then have m: "hd ((ys @ zs) @ [head]) \<in> ?S" "last (head # ys @ zs) \<in> ?S"
    by (auto simp del: last.simps hd_append)
  have c: "get_prev h e = Some (pv h e)" "get_next h e = Some (nx h e)" using h1(6) by simp_all
  obtain h2 where h2: "list_add h1 e head = Some h2" "ring h2 (head # e # ys @ zs)"
      "touched h1 h2 {e, head, hd ((ys @ zs) @ [head])}"
    using list_add_ring [OF h1(2) e] by blast
  have "touched h h2 ?S"
    by (rule touched_mono [OF touched_trans [OF h1(3) h2(3)]]) (use m h1(4,5) in simp)
  then show "\<exists>h'. list_move h e head = Some h' \<and> ring h' (head # e # ys @ zs) \<and> touched h h' ?S"
    using h1(1) h2(1,2) c by (simp add: list_move_def)
  obtain h3 where h3: "list_add_tail h1 e head = Some h3" "ring h3 (head # (ys @ zs) @ [e])"
      "touched h1 h3 {e, head, last (head # ys @ zs)}"
    using list_add_tail_ring [OF h1(2) e] by blast
  have "touched h h3 ?S"
    by (rule touched_mono [OF touched_trans [OF h1(3) h3(3)]]) (use m h1(4,5) in simp)
  then show "\<exists>h'. list_move_tail h e head = Some h' \<and> ring h' (head # ys @ zs @ [e]) \<and> touched h h' ?S"
    using h1(1) h3(1,2) c by (simp add: list_move_tail_def)
qed

lemma list_move_other_ring:
  assumes "ring h (ys @ e # zs)" "ys @ zs \<noteq> []" "ring h (head # xs)" "set (ys @ e # zs) \<inter> set (head # xs) = {}"
  shows "\<exists>h'. list_move h e head = Some h' \<and> ring h' (head # e # xs) \<and> ring h' (ys @ zs)"
    and "\<exists>h'. list_move_tail h e head = Some h' \<and> ring h' (head # xs @ [e]) \<and> ring h' (ys @ zs)"
proof -
  obtain h1 where h1: "list_unlink h (pv h e) (nx h e) = Some h1" "ring h1 (ys @ zs)"
    "touched h h1 {pv h e, nx h e}" "pv h e \<in> set (ys @ zs)" "nx h e \<in> set (ys @ zs)" "e \<in> live h"
    using list_unlink_mid [OF assms(1,2)] by blast
  have e: "e \<in> live h1" "e \<notin> set (head # xs)" "e \<notin> set (ys @ zs)"
    using h1 assms by (auto simp: touched_def ring_def)
  have r: "ring h1 (head # xs)"
    using h1(4,5) assms(4) by (intro touched_ring [OF assms(3) h1(3)]) auto
  have m: "hd (xs @ [head]) \<in> set (head # xs)" "last (head # xs) \<in> set (head # xs)"
    by (auto simp: hd_append)
  obtain h2 where h2: "list_add h1 e head = Some h2" "ring h2 (head # e # xs)"
      "touched h1 h2 {e, head, hd (xs @ [head])}"
    using list_add_ring [OF r e(1,2)] by blast
  have "ring h2 (ys @ zs)"
    using e m(1) assms(4) by (intro touched_ring [OF h1(2) h2(3)]) auto
  then show "\<exists>h'. list_move h e head = Some h' \<and> ring h' (head # e # xs) \<and> ring h' (ys @ zs)"
    using h1 h2 by (simp add: list_move_def)
  obtain h3 where h3: "list_add_tail h1 e head = Some h3" "ring h3 (head # xs @ [e])"
      "touched h1 h3 {e, head, last (head # xs)}"
    using list_add_tail_ring [OF r e(1,2)] by blast
  have "ring h3 (ys @ zs)"
    using e m(2) assms(4) by (intro touched_ring [OF h1(2) h3(3)]) auto
  then show "\<exists>h'. list_move_tail h e head = Some h' \<and> ring h' (head # xs @ [e]) \<and> ring h' (ys @ zs)"
    using h1 h3 by (simp add: list_move_tail_def)
qed

text \<open>Splicing: the entries of \<open>lst\<close> come first, in order; \<open>lst\<close> itself keeps its fields.\<close>

lemma list_splice_ring:
  assumes a: "ring h (lst # xs)" and b: "ring h (head # ys)" and d: "set (lst # xs) \<inter> set (head # ys) = {}"
  shows "\<exists>h'. list_splice h lst head = Some h' \<and> ring h' (head # xs @ ys) \<and>
    touched h h' (set (head # xs @ ys))"
proof (cases "xs = []")
  case True
  then show ?thesis using ring_ends [OF a] b by (simp add: list_splice_def list_empty_def touched_def)
next
  case False
  have r: "ring h (xs @ [lst])" using a ring_rotate [of h "[lst]" xs] by simp
  have q: "ring h (ys @ [head])" using b ring_rotate [of h "[head]" ys] by simp
  note rs = ring_ends [OF r] and qs = ring_ends [OF q]
  define fi la at where "fi = hd xs" "la = last xs" "at = hd (ys @ [head])"
  note defs = fi_la_at_def
  have m: "fi \<in> set xs" "la \<in> set xs" "at \<in> set (ys @ [head])"
    using False by (simp_all add: defs hd_append)
  have nx0: "nx h lst = fi" "pv h lst = la" "nx h head = at"
    using rs qs False by (auto simp: successively_append_iff linked_def defs)
  have dist: "distinct xs" "distinct (ys @ [head])" "lst \<notin> set xs" using rs(6) qs(6) by auto
  have disj: "z \<in> set xs \<Longrightarrow> z \<noteq> head \<and> z \<noteq> at \<and> z \<notin> set (ys @ [head])" for z
    using d m(3) by auto
  have n: "nx h lst \<noteq> lst" using nx0(1) m(1) dist(3) by auto
  let ?h = "upd_prev (upd_next (upd_next (upd_prev h fi head) head fi) la at) at la"
  have l: "lst \<in> live h" "head \<in> live h" "fi \<in> live h" "la \<in> live h" "at \<in> live h"
    using r q m by (auto simp: ring_def)
  have lv: "live ?h = live h" using l by simp
  have fx: "nx ?h = (nx h)(head := fi, la := at)" and gx: "pv ?h = (pv h)(fi := head, at := la)" by simp_all
  have "list_splice h lst head = Some ?h"
    using l n nx0 by (simp add: list_splice_def list_empty_def list_splice_raw_def)
  moreover have "ring ?h (head # xs @ ys)"
  proof -
    have x: "successively (linked (nx ?h) (pv ?h)) xs"
    proof (rule chain_frame)
      show "successively (linked (nx h) (pv h)) xs" using rs(7) by (simp add: successively_append_iff)
      show "nx ?h z = nx h z" if "z \<in> set (butlast xs)" for z
        using that disj [OF in_set_butlastD [OF that]] not_last_butlast [OF dist(1) that]
        by (simp add: fx defs(2))
      show "pv ?h z = pv h z" if "z \<in> set (tl xs)" for z
        using that disj [OF in_set_tlD [OF that]] not_hd_tl [OF dist(1) that] by (simp add: gx defs(1))
    qed
    have y: "successively (linked (nx ?h) (pv ?h)) (ys @ [head])"
    proof (rule chain_frame)
      show "successively (linked (nx h) (pv h)) (ys @ [head])" by (rule qs(7))
      show "nx ?h z = nx h z" if "z \<in> set (butlast (ys @ [head]))" for z
        using that dist(2) disj [OF m(2)] by (auto simp: fx)
      show "pv ?h z = pv h z" if "z \<in> set (tl (ys @ [head]))" for z
        using that in_set_tlD [OF that] disj [OF m(1)] not_hd_tl [OF dist(2) that] by (auto simp: gx defs(3))
    qed
    have "linked (nx ?h) (pv ?h) la at" "linked (nx ?h) (pv ?h) head fi"
      using disj [OF m(1)] disj [OF m(2)] by (auto simp: linked_def fx gx)
    then have "cyc (nx ?h) (pv ?h) (xs @ ys @ [head])"
      using x y False by (simp only: cyc_def successively_append_iff [of _ xs "ys @ [head]"]) (simp add: defs)
    moreover have "distinct (xs @ ys @ [head])" "set (xs @ ys @ [head]) \<subseteq> live ?h"
      unfolding lv using dist disj r q by (auto simp: ring_def)
    ultimately have "ring ?h ((xs @ ys) @ [head])" by (simp only: ring_def append_assoc)
    then show ?thesis using ring_rotate [of ?h "xs @ ys" "[head]"] by simp
  qed
  moreover have "touched h ?h (set (head # xs @ ys))"
    by (rule touched_mono [of _ _ "{fi, head, la, at}"]) (use m in \<open>auto simp: touched_def lv\<close>)
  ultimately show ?thesis by blast
qed

lemma list_replace_ring:
  assumes r: "ring h (old # xs)" and n: "new \<in> live h" "new \<notin> set (old # xs)"
  shows "\<exists>h'. list_replace h old new = Some h' \<and> ring h' (new # xs) \<and> touched h h' (set (new # old # xs))"
proof (cases "xs = []")
  case True
  then have o: "nx h old = old" "pv h old = old" "old \<in> live h" using ring_ends [OF r] by auto
  then show ?thesis using n True
    by (auto simp: list_replace_def ring_def cyc_def linked_def touched_def)
next
  case False
  have r': "ring h (xs @ [old])" using r ring_rotate [of h "[old]" xs] by simp
  note rs = ring_ends [OF r']
  define fi la where "fi = hd xs" "la = last xs"
  note defs = fi_la_def
  have m: "fi \<in> set xs" "la \<in> set xs" using False by (simp_all add: defs)
  have nx0: "nx h old = fi" "pv h old = la"
    using rs False by (auto simp: successively_append_iff linked_def defs)
  have dist: "distinct xs" "old \<notin> set xs" "new \<notin> set xs" "new \<noteq> old" using rs(6) n by auto
  have l: "old \<in> live h" "fi \<in> live h" "la \<in> live h" using r' m by (auto simp: ring_def)
  have ne: "fi \<noteq> old" "la \<noteq> old" "fi \<noteq> new" "la \<noteq> new" using m dist by auto
  let ?h = "upd_next (upd_prev (upd_prev (upd_next h new fi) fi new) new la) la new"
  have lv: "live ?h = live h" using l n by simp
  have fx: "nx ?h = (nx h)(new := fi, la := new)" and gx: "pv ?h = (pv h)(fi := new, new := la)" by simp_all
  have "list_replace h old new = Some ?h" using l n nx0 dist ne by (simp add: list_replace_def)
  moreover have "ring ?h (xs @ [new])"
  proof -
    have "successively (linked (nx ?h) (pv ?h)) xs"
    proof (rule chain_frame)
      show "successively (linked (nx h) (pv h)) xs" using rs(7) by (simp add: successively_append_iff)
      show "nx ?h z = nx h z" if "z \<in> set (butlast xs)" for z
        using in_set_butlastD [OF that] dist(3) not_last_butlast [OF dist(1) that] by (auto simp: fx defs(2))
      show "pv ?h z = pv h z" if "z \<in> set (tl xs)" for z
        using in_set_tlD [OF that] dist(3) not_hd_tl [OF dist(1) that] by (auto simp: gx defs(1))
    qed
    moreover have "linked (nx ?h) (pv ?h) la new" "linked (nx ?h) (pv ?h) new fi"
      using ne by (simp_all add: linked_def fx gx)
    ultimately have "cyc (nx ?h) (pv ?h) (xs @ [new])"
      using False by (simp only: cyc_def successively_append_iff [of _ xs "[new]"]) (simp add: defs)
    moreover have "distinct (xs @ [new])" "set (xs @ [new]) \<subseteq> live ?h"
      unfolding lv using dist r' n by (auto simp: ring_def)
    ultimately show ?thesis by (simp only: ring_def)
  qed
  then have "ring ?h (new # xs)" using ring_rotate [of ?h xs "[new]"] by simp
  moreover have "touched h ?h (set (new # old # xs))"
    by (rule touched_mono [of _ _ "{new, fi, la}"]) (use m in \<open>auto simp: touched_def lv\<close>)
  ultimately show ?thesis by blast
qed

lemma list_replace_init_ring:
  assumes r: "ring h (old # xs)" and n: "new \<in> live h" "new \<notin> set (old # xs)"
  shows "\<exists>h'. list_replace_init h old new = Some h' \<and> ring h' (new # xs) \<and> ring h' [old] \<and>
    touched h h' (set (new # old # xs))"
proof -
  obtain h1 where h1: "list_replace h old new = Some h1" "ring h1 (new # xs)" "touched h h1 (set (new # old # xs))"
    using list_replace_ring [OF assms] by blast
  then have o: "old \<in> live h1" "old \<notin> set (new # xs)" using r n by (auto simp: touched_def ring_def)
  obtain h2 where h2: "list_init h1 old = Some h2" "ring h2 [old]" "touched h1 h2 {old}"
    using list_init_ring [OF o(1)] by blast
  have "ring h2 (new # xs)" using o(2) by (intro touched_ring [OF h1(2) h2(3)]) simp
  then show ?thesis using h1 h2 by (auto simp: list_replace_init_def touched_def)
qed

subsection \<open>Traversal\<close>

lemma list_walk_succ:
  assumes "successively (\<lambda>a b. step a = Some b) (xs @ [head])" "head \<notin> set xs" "length xs < k"
  shows "list_walk step k (hd (xs @ [head])) head = Some xs"
  using assms
proof (induction xs arbitrary: k)
  case Nil
  then show ?case by (cases k) simp_all
next
  case (Cons x xs)
  then obtain k' where k: "k = Suc k'" by (cases k) auto
  have "step x = Some (hd (xs @ [head]))" "successively (\<lambda>a b. step a = Some b) (xs @ [head])"
    using Cons.prems(1) by (cases xs; simp)+
  then show ?case using Cons k by simp
qed

lemma ring_next_chain:
  assumes r: "ring h (head # xs)"
  shows "successively (\<lambda>a b. get_next h a = Some b) (xs @ [head])"
    "get_next h head = Some (hd (xs @ [head]))" "head \<notin> set xs"
proof -
  have q: "ring h (xs @ [head])" using r ring_rotate [of h "[head]" xs] by simp
  note qs = ring_ends [OF q]
  have lv: "a \<in> set (xs @ [head]) \<Longrightarrow> a \<in> live h" for a using q by (auto simp: ring_def)
  show "successively (\<lambda>a b. get_next h a = Some b) (xs @ [head])"
  proof (rule successively_mono [OF qs(7)])
    fix a b assume "a \<in> set (xs @ [head])" "linked (nx h) (pv h) a b"
    then show "get_next h a = Some b" using lv [of a] by (simp add: linked_def)
  qed
  show "get_next h head = Some (hd (xs @ [head]))" "head \<notin> set xs" using qs by simp_all
qed

lemma ring_prev_chain:
  assumes r: "ring h (head # xs)"
  shows "successively (\<lambda>a b. get_prev h a = Some b) (rev xs @ [head])"
    "get_prev h head = Some (hd (rev xs @ [head]))"
proof -
  note rs = ring_ends [OF r]
  have lv: "a \<in> set (head # xs) \<Longrightarrow> a \<in> live h" for a using r by (auto simp: ring_def)
  have "successively (\<lambda>a b. get_prev h b = Some a) (head # xs)"
  proof (rule successively_mono [OF rs(7)])
    fix a b assume "b \<in> set (head # xs)" "linked (nx h) (pv h) a b"
    then show "get_prev h b = Some a" using lv [of b] by (simp add: linked_def)
  qed
  then have "successively (\<lambda>a b. get_prev h a = Some b) (rev (head # xs))"
    by (simp only: successively_rev)
  then show "successively (\<lambda>a b. get_prev h a = Some b) (rev xs @ [head])" by simp
  show "get_prev h head = Some (hd (rev xs @ [head]))" using rs(2,3) hd_rev [of "head # xs"] by simp
qed

lemma list_for_each_ring:
  assumes r: "ring h (head # xs)" and k: "length xs < k"
  shows "list_for_each h k head = Some xs" "list_for_each_prev h k head = Some (rev xs)"
  using list_walk_succ [of "get_next h" xs head k] ring_next_chain [OF r]
    list_walk_succ [of "get_prev h" "rev xs" head k] ring_prev_chain [OF r] k
  by (simp_all add: list_for_each_def list_for_each_prev_def)

text \<open>Insertion in front of the first entry of \<open>zs\<close>, or of the head when there is none.\<close>

lemma list_insert_before:
  assumes r: "ring h (head # ys @ zs)" and e: "e \<in> live h" "e \<notin> set (head # ys @ zs)"
  shows "\<exists>h' p. get_prev h (hd (zs @ [head])) = Some p \<and>
    list_insert h e p (hd (zs @ [head])) = Some h' \<and> ring h' (head # ys @ e # zs) \<and>
    touched h h' (set (head # ys @ e # zs))"
proof -
  have q: "ring h (zs @ head # ys)" using r ring_rotate [of h "head # ys" zs] by simp
  have n: "hd (zs @ [head]) = hd (zs @ head # ys)" by (cases zs) simp_all
  note qs = ring_ends [OF q]
  obtain h' where h': "list_insert h e (last (zs @ head # ys)) (hd (zs @ head # ys)) = Some h'"
    "ring h' ((zs @ head # ys) @ [e])" "touched h h' {e, last (zs @ head # ys), hd (zs @ head # ys)}"
    using list_insert_ring [OF q e(1) _ refl refl] e(2) by auto
  have "ring h' (head # ys @ e # zs)" using h'(2) ring_rotate [of h' zs "head # ys @ [e]"] by simp
  moreover have "get_prev h (hd (zs @ [head])) = Some (last (zs @ head # ys))" using n qs by simp
  moreover have "touched h h' (set (head # ys @ e # zs))"
  proof (rule touched_mono [OF h'(3)])
    have "last (zs @ head # ys) \<in> set (zs @ head # ys)" "hd (zs @ head # ys) \<in> set (zs @ head # ys)"
      by (rule last_in_set, simp) (rule hd_in_set, simp)
    then show "{e, last (zs @ head # ys), hd (zs @ head # ys)} \<subseteq> set (head # ys @ e # zs)" by auto
  qed
  ultimately show ?thesis using h'(1) n by metis
qed

lemma list_empty_ring: "ring h (head # xs) \<Longrightarrow> list_empty h head = Some (xs = [])"
proof -
  assume r: "ring h (head # xs)"
  have q: "ring h (xs @ [head])" using r ring_rotate [of h "[head]" xs] by simp
  have "nx h head = hd (xs @ [head])" using ring_ends [OF q] by simp
  then show ?thesis using ring_ends [OF r] by (cases xs) (auto simp: list_empty_def)
qed

lemma list_first_ring: "ring h (head # x # xs) \<Longrightarrow> list_first h head = Some x"
  using ring_ends(3,7) [of h "head # x # xs"] by (simp add: list_first_def linked_def)

subsection \<open>Properties\<close>

text \<open>A heap to evaluate the operations on: head 1 with entries 2 and 3, head 4 with entry 5, and a
  node 6 outside every list.\<close>

definition demo_heap :: lheap where
  "demo_heap = [1 \<mapsto> \<lparr>lh_prev = 3, lh_next = 2\<rparr>, 2 \<mapsto> \<lparr>lh_prev = 1, lh_next = 3\<rparr>,
     3 \<mapsto> \<lparr>lh_prev = 2, lh_next = 1\<rparr>, 4 \<mapsto> \<lparr>lh_prev = 5, lh_next = 5\<rparr>,
     5 \<mapsto> \<lparr>lh_prev = 4, lh_next = 4\<rparr>, 6 \<mapsto> \<lparr>lh_prev = 0, lh_next = 0\<rparr>]"

lemma demo_rings: "ring demo_heap [1, 2, 3]" "ring demo_heap [4, 5]" "6 \<in> live demo_heap"
  by (simp_all add: demo_heap_def ring_def cyc_def linked_def live_def nx_def pv_def)

text \<open>Adding a live node that is not in the list puts it first (\<open>list_add\<close>) or last
  (\<open>list_add_tail\<close>), keeps the other entries in order, writes only the new node, the head and
  the one neighbour, and the loops over the list then visit exactly the new sequence, forwards
  and backwards.\<close>

theorem list_add_ok:
  assumes "ring h (head # xs)" "e \<in> live h" "e \<notin> set (head # xs)" "length xs + 1 < fuel"
  shows "(\<exists>h'. list_add h e head = Some h' \<and> ring h' (head # e # xs) \<and>
      touched h h' {e, head, hd (xs @ [head])} \<and> list_for_each h' fuel head = Some (e # xs) \<and>
      list_for_each_prev h' fuel head = Some (rev xs @ [e])) \<and>
    (\<exists>h'. list_add_tail h e head = Some h' \<and> ring h' (head # xs @ [e]) \<and>
      touched h h' {e, head, last (head # xs)} \<and> list_for_each h' fuel head = Some (xs @ [e]) \<and>
      list_for_each_prev h' fuel head = Some (e # rev xs))"
  using list_add_ring [OF assms(1-3)] list_add_tail_ring [OF assms(1-3)] assms(4)
    list_for_each_ring [of _ head "e # xs" fuel] list_for_each_ring [of _ head "xs @ [e]" fuel] by fastforce

theorem list_add_ok_witness:
  "\<exists>h'. list_add_tail demo_heap 6 1 = Some h' \<and> ring h' [1, 2, 3, 6] \<and> list_for_each h' 5 1 = Some [2, 3, 6]"
  using list_add_ok [OF demo_rings(1) demo_rings(3), of 5] by auto

text \<open>Deleting an entry takes it out of its list, whatever its position, leaves the order of the
  others, writes only the entry and its two neighbours and sets the entry's pointers to NULL;
  deleting the same entry once more dereferences NULL.\<close>

theorem list_del_ok:
  assumes "ring h (ys @ e # zs)" "ys @ zs \<noteq> []"
  shows "\<exists>h'. list_del h e = Some h' \<and> ring h' (ys @ zs) \<and> touched h h' {e, pv h e, nx h e} \<and>
    get_next h' e = Some 0 \<and> get_prev h' e = Some 0 \<and> list_del h' e = None"
proof -
  obtain h' where h': "list_del h e = Some h'" "ring h' (ys @ zs)" "touched h h' {e, pv h e, nx h e}"
    "h' e = Some \<lparr>lh_prev = 0, lh_next = 0\<rparr>"
    using list_del_ring [OF assms] by blast
  have "e \<noteq> 0" using assms(1) by (auto simp: ring_def live_def)
  then have "get_next h' e = Some 0" "get_prev h' e = Some 0"
    using h'(4) by (simp_all add: get_next_def get_prev_def deref_def)
  moreover from this have "list_del h' e = None"
    by (simp add: list_del_def list_unlink_def set_next_def deref_def)
  ultimately show ?thesis using h' by blast
qed

theorem list_del_ok_witness:
  "\<exists>h'. list_del demo_heap 2 = Some h' \<and> ring h' [1, 3] \<and> list_del h' 2 = None"
  using list_del_ok [of demo_heap "[1]" 2 "[3]"] demo_rings by auto

text \<open>Moving an entry of a list within the list puts it first (\<open>list_move\<close>) or last
  (\<open>list_move_tail\<close>); moving an entry of one circle to another list takes it from the first and
  puts it first or last in the second. No node outside the lists is written.\<close>

theorem list_move_ok:
  assumes "ring h (head # ys @ e # zs)" "ring h (head' # xs)" "set (head # ys @ e # zs) \<inter> set (head' # xs) = {}"
  shows "(\<exists>h'. list_move h e head = Some h' \<and> ring h' (head # e # ys @ zs) \<and> touched h h' (set (head # ys @ e # zs))) \<and>
    (\<exists>h'. list_move_tail h e head = Some h' \<and> ring h' (head # ys @ zs @ [e]) \<and> touched h h' (set (head # ys @ e # zs))) \<and>
    (\<exists>h'. list_move h e head' = Some h' \<and> ring h' (head' # e # xs) \<and> ring h' (head # ys @ zs)) \<and>
    (\<exists>h'. list_move_tail h e head' = Some h' \<and> ring h' (head' # xs @ [e]) \<and> ring h' (head # ys @ zs))"
  using list_move_ring [OF assms(1)] list_move_other_ring [of h "head # ys" e zs head' xs] assms by simp

theorem list_move_ok_witness:
  "(\<exists>h'. list_move_tail demo_heap 2 1 = Some h' \<and> ring h' [1, 3, 2]) \<and>
   (\<exists>h'. list_move demo_heap 2 4 = Some h' \<and> ring h' [4, 2, 5] \<and> ring h' [1, 3])"
  using list_move_ok [of demo_heap 1 "[]" 2 "[3]" 4 "[5]"] demo_rings by auto

text \<open>Splicing a list in front of another gives the entries of the first followed by those of
  the second, also when either is empty; the spliced head is not written, so it still points
  into the joined list.\<close>

theorem list_splice_ok:
  assumes "ring h (lst # xs)" "ring h (head # ys)" "set (lst # xs) \<inter> set (head # ys) = {}"
  shows "\<exists>h'. list_splice h lst head = Some h' \<and> ring h' (head # xs @ ys) \<and>
    touched h h' (set (head # xs @ ys)) \<and> h' lst = h lst"
proof -
  obtain h' where "list_splice h lst head = Some h'" "ring h' (head # xs @ ys)" "touched h h' (set (head # xs @ ys))"
    using list_splice_ring [OF assms] by blast
  moreover have "lst \<notin> set (head # xs @ ys)" using assms by (auto simp: ring_def)
  ultimately show ?thesis by (auto simp: touched_def)
qed

theorem list_splice_ok_witness:
  "\<exists>h'. list_splice demo_heap 4 1 = Some h' \<and> ring h' [1, 5, 2, 3] \<and> get_next h' 4 = Some 5"
  using list_splice_ok [OF demo_rings(2,1)]
  by (auto simp: get_next_def deref_def demo_heap_def)

text \<open>Replacing a node, an entry or a head, by a live node outside the circle puts the new node
  in its place, also when the replaced node is alone; \<open>list_replace_init\<close> leaves the replaced
  node as a list of its own.\<close>

theorem list_replace_ok:
  assumes "ring h (ys @ old # zs)" "new \<in> live h" "new \<notin> set (ys @ old # zs)"
  shows "(\<exists>h'. list_replace h old new = Some h' \<and> ring h' (ys @ new # zs) \<and> touched h h' (set (new # ys @ old # zs))) \<and>
    (\<exists>h'. list_replace_init h old new = Some h' \<and> ring h' (ys @ new # zs) \<and> ring h' [old])"
proof -
  have "ring h (old # zs @ ys)" using assms(1) ring_rotate [of h ys "old # zs"] by simp
  moreover have "ring h' (ys @ new # zs) = ring h' (new # zs @ ys)" for h'
    using ring_rotate [of h' ys "new # zs"] by simp
  moreover have "set (new # old # zs @ ys) = set (new # ys @ old # zs)" by auto
  ultimately show ?thesis
    using list_replace_ring [of h old "zs @ ys" new] list_replace_init_ring [of h old "zs @ ys" new] assms(2,3)
    by auto
qed

theorem list_replace_ok_witness:
  "\<exists>h'. list_replace_init demo_heap 2 6 = Some h' \<and> ring h' [1, 6, 3] \<and> ring h' [2]"
  using list_replace_ok [of demo_heap "[1]" 2 "[3]" 6] demo_rings by auto

end
