(* ===== verification/Mem_Pool.thy ===== *)
theory Mem_Pool
  imports Link_List Spin_Lock
begin

section \<open>The memory pool (ds/mp.h)\<close>

text \<open>
  A pool hands out blocks of a 64 KiB buffer. A block starts with a 24-byte header (the list
  node and the block's size); free blocks are chained, in address order, on a list whose head
  is the first field of the pool. The model keeps the addresses: the pool lies at
  \<open>mp_root\<close>, its buffer 16 bytes further, a block's node is at the block's address, and the
  size field is a second map over the same addresses. Every access to a header goes through
  the heap and is undefined outside the buffer.

  The invariant says that the blocks tile the part of the buffer handed out so far, so that no
  header overlaps another block; the theorems say what an allocation and a release do to the
  tiling.
\<close>

subsection \<open>State\<close>

definition MP_SIZE :: usz where
  "MP_SIZE = 64 * 1024"

definition MP_ALIGN :: usz where
  "MP_ALIGN = 8"

definition MP_ALIGN_UP :: "usz \<Rightarrow> usz" where
  "MP_ALIGN_UP sz = (sz + (MP_ALIGN - 1)) AND NOT (MP_ALIGN - 1)"

text \<open>\<open>sizeof(mp_blk_t)\<close> is 24: two pointers and a \<open>usz\<close>.\<close>

definition MP_BLOCK_HEADER_SIZE :: usz where
  "MP_BLOCK_HEADER_SIZE = MP_ALIGN_UP 24"

record mp_t =
  mp_root :: lptr
  mp_heap :: lheap
  mp_sizes :: "lptr \<Rightarrow> usz option"
  mp_off :: usz
  mp_lock :: u32

definition mp_buf :: "mp_t \<Rightarrow> lptr" where
  "mp_buf m = mp_root m + 16"

definition mp_get_size :: "mp_t \<Rightarrow> lptr \<Rightarrow> usz option" where
  "mp_get_size m p = (if deref (mp_heap m) p = None then None else mp_sizes m p)"

definition mp_set_size :: "mp_t \<Rightarrow> lptr \<Rightarrow> usz \<Rightarrow> mp_t option" where
  "mp_set_size m p v =
     (if deref (mp_heap m) p = None then None else Some (m\<lparr>mp_sizes := (mp_sizes m)(p \<mapsto> v)\<rparr>))"

definition mp_with :: "mp_t \<Rightarrow> lheap \<Rightarrow> mp_t" where
  "mp_with m h = m\<lparr>mp_heap := h\<rparr>"

subsection \<open>Operations\<close>

definition mp_init :: "mp_t \<Rightarrow> mp_t option" where
  "mp_init m = map_option (mp_with m) (list_init (mp_heap m) (mp_root m))"

text \<open>The rounds allowed to the two list loops; a tiling has at most 2730 blocks.\<close>

definition MP_FUEL :: nat where
  "MP_FUEL = 4096"

text \<open>The search of \<open>mp_alloc\<close>: the first free block that is large enough, or none.\<close>

fun mp_find :: "mp_t \<Rightarrow> nat \<Rightarrow> lptr \<Rightarrow> usz \<Rightarrow> lptr option option" where
  "mp_find m 0 node block_size = None"
| "mp_find m (Suc k) node block_size =
     (if node = mp_root m then Some None
      else do {
        sz \<leftarrow> mp_get_size m node;
        if sz < block_size
        then do { n \<leftarrow> get_next (mp_heap m) node; mp_find m k n block_size }
        else Some (Some node) })"

text \<open>The loop that looks for the place of a block in address order.\<close>

fun mp_seek :: "lheap \<Rightarrow> nat \<Rightarrow> lptr \<Rightarrow> lptr \<Rightarrow> lptr \<Rightarrow> lptr option" where
  "mp_seek h 0 iter root a = None"
| "mp_seek h (Suc k) iter root a =
     (if iter \<noteq> root \<and> iter < a
      then do { n \<leftarrow> get_next h iter; mp_seek h k n root a }
      else Some iter)"

definition mp_insert :: "mp_t \<Rightarrow> lptr \<Rightarrow> mp_t option" where
  "mp_insert m blk = do {
     i \<leftarrow> get_next (mp_heap m) (mp_root m);
     iter \<leftarrow> mp_seek (mp_heap m) MP_FUEL i (mp_root m) blk;
     p \<leftarrow> get_prev (mp_heap m) iter;
     h \<leftarrow> list_insert (mp_heap m) blk p iter;
     Some (mp_with m h) }"

text \<open>Taking a found block, with or without splitting it.\<close>

definition mp_take :: "mp_t \<Rightarrow> lptr \<Rightarrow> usz \<Rightarrow> mp_t option" where
  "mp_take m blk block_size = do {
     sz \<leftarrow> mp_get_size m blk;
     if block_size + MP_BLOCK_HEADER_SIZE + MP_ALIGN \<le> sz
     then do {
       h \<leftarrow> list_del (mp_heap m) blk;
       m \<leftarrow> mp_set_size (mp_with m h) (blk + unat block_size) (sz - block_size);
       m \<leftarrow> mp_set_size m blk block_size;
       mp_insert m (blk + unat block_size) }
     else do {
       h \<leftarrow> list_del (mp_heap m) blk;
       Some (mp_with m h) } }"

definition mp_alloc :: "mp_t \<Rightarrow> usz \<Rightarrow> (mp_t \<times> lptr) option" where
  "mp_alloc m cap = do {
     let block_size = MP_BLOCK_HEADER_SIZE + MP_ALIGN_UP cap;
     l \<leftarrow> spin_lock (mp_lock m);
     let m = m\<lparr>mp_lock := l\<rparr>;
     n \<leftarrow> get_next (mp_heap m) (mp_root m);
     r \<leftarrow> mp_find m MP_FUEL n block_size;
     case r of
       Some blk \<Rightarrow> do {
         m \<leftarrow> mp_take m blk block_size;
         Some (m\<lparr>mp_lock := spin_unlock (mp_lock m)\<rparr>, blk + unat MP_BLOCK_HEADER_SIZE) }
     | None \<Rightarrow>
         if MP_SIZE < mp_off m + block_size then Some (m\<lparr>mp_lock := spin_unlock (mp_lock m)\<rparr>, 0)
         else do {
           let fresh = mp_buf m + unat (mp_off m);
           m \<leftarrow> mp_set_size m fresh block_size;
           let m = m\<lparr>mp_off := mp_off m + block_size\<rparr>;
           Some (m\<lparr>mp_lock := spin_unlock (mp_lock m)\<rparr>, fresh + unat MP_BLOCK_HEADER_SIZE) } }"

text \<open>\<open>memset\<close> fills user memory, which the model does not hold; it must stay in the buffer.\<close>

definition mp_calloc :: "mp_t \<Rightarrow> usz \<Rightarrow> (mp_t \<times> lptr) option" where
  "mp_calloc m cap = do {
     (m, ptr) \<leftarrow> mp_alloc m cap;
     if ptr = 0 then Some (m, 0)
     else if ptr + unat cap \<le> mp_buf m + unat MP_SIZE then Some (m, ptr) else None }"

definition mp_free :: "mp_t \<Rightarrow> lptr \<Rightarrow> mp_t option" where
  "mp_free m ptr =
     (if ptr = 0 then Some m
      else do {
        l \<leftarrow> spin_lock (mp_lock m);
        m \<leftarrow> mp_insert (m\<lparr>mp_lock := l\<rparr>) (ptr - unat MP_BLOCK_HEADER_SIZE);
        Some (m\<lparr>mp_lock := spin_unlock (mp_lock m)\<rparr>) })"

definition mp_reset :: "mp_t \<Rightarrow> mp_t option" where
  "mp_reset m = do {
     l \<leftarrow> spin_lock (mp_lock m);
     let m = m\<lparr>mp_lock := l, mp_off := 0\<rparr>;
     h \<leftarrow> list_init (mp_heap m) (mp_root m);
     let m = mp_with m h;
     Some (m\<lparr>mp_lock := spin_unlock (mp_lock m)\<rparr>) }"

subsection \<open>Sizes\<close>

lemma MP_header [simp]: "MP_BLOCK_HEADER_SIZE = 24"
  by (simp add: MP_BLOCK_HEADER_SIZE_def MP_ALIGN_UP_def MP_ALIGN_def)

lemma unat_align_down: "unat (x AND NOT (7 :: usz)) = unat x div 8 * 8"
proof -
  have m: "(7 :: usz) = mask 3" by (simp add: mask_eq_exp_minus_1)
  have "x AND NOT (7 :: usz) = push_bit 3 (drop_bit 3 x)"
    unfolding m by (rule bit_word_eqI)
      (auto simp: bit_and_iff bit_not_iff bit_mask_iff bit_push_bit_iff bit_drop_bit_eq)
  then have "unat (x AND NOT (7 :: usz)) = take_bit 64 (push_bit 3 (drop_bit 3 (unat x)))"
  proof -
    have "unat x < 2 ^ 64" using unsigned_less [of x] by simp
    then have t: "take_bit 64 (unat x) = unat x" by (rule take_bit_nat_eq_self)
    show "x AND NOT 7 = push_bit 3 (drop_bit 3 x) \<Longrightarrow> ?thesis"
      by (simp only: unsigned_push_bit_eq unsigned_drop_bit_eq) (simp add: t)
  qed
  also have "push_bit 3 (drop_bit 3 (unat x)) = unat x div 8 * 8"
    by (simp add: push_bit_eq_mult drop_bit_eq_div)
  also have "take_bit 64 (unat x div 8 * 8) = unat x div 8 * 8"
  proof (rule take_bit_nat_eq_self)
    have "unat x < 2 ^ 64" using unsigned_less [of x] by simp
    then show "unat x div 8 * 8 < 2 ^ 64" by simp
  qed
  finally show ?thesis .
qed

lemma unat_MP_ALIGN_UP:
  assumes "unat cap + 7 < 2 ^ 64"
  shows "unat (MP_ALIGN_UP cap) = (unat cap + 7) div 8 * 8"
proof -
  have "unat (cap + 7) = unat cap + 7" using assms by (simp add: unat_word_ariths)
  then show ?thesis using unat_align_down [of "cap + 7"] by (simp add: MP_ALIGN_UP_def MP_ALIGN_def)
qed

text \<open>The block size of a request, without wrap-around.\<close>

definition blk_size :: "nat \<Rightarrow> nat" where
  "blk_size c = 24 + (c + 7) div 8 * 8"

lemma blk_size_props: "c + 24 \<le> blk_size c" "24 \<le> blk_size c" "8 dvd blk_size c" "blk_size c < c + 32"
proof -
  have e: "(c + 7) div 8 * 8 + (c + 7) mod 8 = c + 7" by (rule div_mult_mod_eq)
  have "(c + 7) mod 8 < 8" by simp
  then show "c + 24 \<le> blk_size c" "blk_size c < c + 32" using e by (simp_all add: blk_size_def)
  show "24 \<le> blk_size c" by (simp add: blk_size_def)
  have "8 dvd (24 :: nat)" by simp
  then show "8 dvd blk_size c" unfolding blk_size_def by (intro dvd_add) simp_all
qed

lemma unat_block_size:
  assumes "unat cap + 32 \<le> 2 ^ 64"
  shows "unat (MP_BLOCK_HEADER_SIZE + MP_ALIGN_UP cap) = blk_size (unat cap)"
proof -
  have "unat (MP_ALIGN_UP cap) = (unat cap + 7) div 8 * 8" using assms by (intro unat_MP_ALIGN_UP) simp
  moreover have "24 + (unat cap + 7) div 8 * 8 < 2 ^ 64"
    using blk_size_props(4) [of "unat cap"] assms by (simp add: blk_size_def)
  ultimately show ?thesis by (simp add: blk_size_def unat_word_ariths)
qed

subsection \<open>Tilings\<close>

text \<open>A block of the tiling: address, size, free or not.\<close>

type_synonym blk = "nat \<times> nat \<times> bool"

fun tiles :: "nat \<Rightarrow> blk list \<Rightarrow> nat \<Rightarrow> bool" where
  "tiles a [] b = (a = b)"
| "tiles a ((p, s, f) # bs) b = (p = a \<and> 24 \<le> s \<and> 8 dvd s \<and> tiles (a + s) bs b)"

definition free_addrs :: "blk list \<Rightarrow> nat list" where
  "free_addrs bs = map fst (filter (\<lambda>(p, s, f). f) bs)"

text \<open>The blocks in use, as address and size.\<close>

definition used :: "blk list \<Rightarrow> (nat \<times> nat) set" where
  "used bs = {(p, s). (p, s, False) \<in> set bs}"

lemma tiles_append: "tiles a (xs @ ys) b = (\<exists>c. tiles a xs c \<and> tiles c ys b)"
  by (induction xs arbitrary: a) auto

lemma tiles_bounds: "tiles a bs b \<Longrightarrow> (p, s, f) \<in> set bs \<Longrightarrow> a \<le> p \<and> p + s \<le> b \<and> 24 \<le> s \<and> 8 dvd s"
proof (induction bs arbitrary: a)
  case (Cons x bs)
  obtain q t g where x: "x = (q, t, g)" by (cases x)
  have "tiles c bs b \<Longrightarrow> c \<le> b" for c
    by (induction bs arbitrary: c) (auto, fastforce)
  then show ?case using Cons by (auto simp: x; fastforce)
qed simp

lemma tiles_le: "tiles a bs b \<Longrightarrow> a + 24 * length bs \<le> b"
  by (induction bs arbitrary: a) (auto, fastforce)

lemma tiles_span: "tiles a bs b \<Longrightarrow> \<exists>k. b = a + 8 * k"
proof (induction bs arbitrary: a)
  case (Cons x bs)
  obtain p s f where x: "x = (p, s, f)" by (cases x)
  obtain j where "s = 8 * j" using Cons.prems by (auto simp: x elim: dvdE)
  moreover obtain k where "b = a + s + 8 * k" using Cons by (auto simp: x)
  ultimately show ?case by (intro exI [of _ "j + k"]) simp
qed (simp add: exI [of _ 0])

lemma tiles_dvd: "tiles a bs b \<Longrightarrow> 8 dvd a \<Longrightarrow> (p, s, f) \<in> set bs \<Longrightarrow> 8 dvd p"
  by (induction bs arbitrary: a) (auto intro: dvd_add)

text \<open>Different blocks do not overlap.\<close>

lemma tiles_disjoint:
  assumes "tiles a (xs @ (p, s, f) # ys) b"
  shows "(q, t, g) \<in> set xs \<Longrightarrow> q + t \<le> p" "(q, t, g) \<in> set ys \<Longrightarrow> p + s \<le> q"
proof -
  obtain c where c: "tiles a xs c" "p = c" "tiles (c + s) ys b"
    using assms by (auto simp: tiles_append)
  show "(q, t, g) \<in> set xs \<Longrightarrow> q + t \<le> p" using tiles_bounds [OF c(1)] c(2) by blast
  show "(q, t, g) \<in> set ys \<Longrightarrow> p + s \<le> q" using tiles_bounds [OF c(3)] c(2) by blast
qed

lemma tiles_disjoint_used:
  assumes "tiles a bs b" "(p, s, f) \<in> set bs" "(q, t, g) \<in> set bs" "(p, s, f) \<noteq> (q, t, g)"
  shows "p + s \<le> q \<or> q + t \<le> p"
proof -
  obtain xs ys where bs: "bs = xs @ (p, s, f) # ys" using assms(2) by (meson split_list)
  then have "(q, t, g) \<in> set xs \<or> (q, t, g) \<in> set ys" using assms(3,4) by auto
  then show ?thesis using tiles_disjoint [of a xs p s f ys b q t g] assms(1) bs by blast
qed

subsection \<open>The invariant\<close>

definition mp_slots :: "lptr \<Rightarrow> lptr set" where
  "mp_slots root = {p. root + 16 \<le> p \<and> p + 24 \<le> root + 16 + 65536 \<and> 8 dvd p}"

text \<open>The memory of a pool at \<open>root\<close>: the list head and every place of the buffer where a header
  fits.\<close>

definition mp_mem :: "lptr \<Rightarrow> lheap \<Rightarrow> bool" where
  "mp_mem root h \<longleftrightarrow> 0 < root \<and> 8 dvd root \<and> root \<in> live h \<and> mp_slots root \<subseteq> live h"

definition mp_inv :: "mp_t \<Rightarrow> blk list \<Rightarrow> bool" where
  "mp_inv m bs \<longleftrightarrow> mp_mem (mp_root m) (mp_heap m) \<and> unat (mp_off m) \<le> 65536 \<and>
     tiles (mp_buf m) bs (mp_buf m + unat (mp_off m)) \<and>
     ring (mp_heap m) (mp_root m # free_addrs bs) \<and>
     (\<forall>(p, s, f) \<in> set bs. mp_sizes m p = Some (of_nat s))"

lemma mp_inv_slot:
  assumes "mp_inv m bs" "(p, s, f) \<in> set bs"
  shows "mp_buf m \<le> p" "p + s \<le> mp_buf m + unat (mp_off m)" "unat (mp_off m) \<le> 65536" "24 \<le> s" "8 dvd s" "8 dvd p"
    "p \<in> live (mp_heap m)" "s \<le> 65536"
proof -
  have t: "tiles (mp_buf m) bs (mp_buf m + unat (mp_off m))" and o: "unat (mp_off m) \<le> 65536"
    and m: "mp_mem (mp_root m) (mp_heap m)" using assms(1) by (auto simp: mp_inv_def)
  note b = tiles_bounds [OF t assms(2)]
  have "8 dvd mp_buf m" using m by (auto simp: mp_mem_def mp_buf_def)
  then have d: "8 dvd p" by (rule tiles_dvd [OF t _ assms(2)])
  show "mp_buf m \<le> p" "p + s \<le> mp_buf m + unat (mp_off m)" "24 \<le> s" "8 dvd s" "unat (mp_off m) \<le> 65536" "8 dvd p"
    using b o d by blast+
  show "s \<le> 65536" using b o by linarith
  have "p \<in> mp_slots (mp_root m)" using b o d by (auto simp: mp_slots_def mp_buf_def)
  then show "p \<in> live (mp_heap m)" using m by (auto simp: mp_mem_def)
qed

lemma mp_inv_sizes: "mp_inv m bs \<Longrightarrow> (a, t, f) \<in> set bs \<Longrightarrow> mp_sizes m a = Some (of_nat t)"
  unfolding mp_inv_def by fast

lemma mp_inv_get_size:
  assumes "mp_inv m bs" "(p, s, f) \<in> set bs"
  shows "mp_get_size m p = Some (of_nat s)"
  using mp_inv_slot(7) [OF assms] assms by (auto simp: mp_inv_def mp_get_size_def live_def deref_def)

lemma mp_inv_num_free: "mp_inv m bs \<Longrightarrow> length (free_addrs bs) < MP_FUEL"
proof -
  assume i: "mp_inv m bs"
  then have "24 * length bs \<le> unat (mp_off m)" "unat (mp_off m) \<le> 65536"
    using tiles_le [of "mp_buf m" bs "mp_buf m + unat (mp_off m)"] by (auto simp: mp_inv_def)
  moreover have "length (free_addrs bs) \<le> length bs" by (simp add: free_addrs_def)
  ultimately show ?thesis by (simp add: MP_FUEL_def)
qed

lemma free_addrs_Nil [simp]: "free_addrs [] = []"
  by (simp add: free_addrs_def)

lemma free_addrs_append [simp]: "free_addrs (xs @ ys) = free_addrs xs @ free_addrs ys"
  by (simp add: free_addrs_def)

lemma free_addrs_Cons [simp]: "free_addrs ((p, s, f) # bs) = (if f then [p] else []) @ free_addrs bs"
  by (simp add: free_addrs_def)

lemma in_free_addrs: "p \<in> set (free_addrs bs) \<Longrightarrow> \<exists>s. (p, s, True) \<in> set bs"
  by (auto simp: free_addrs_def)

subsection \<open>The two loops\<close>

lemma mp_find_chain:
  assumes "successively (\<lambda>a b. get_next (mp_heap m) a = Some b) (xs @ [mp_root m])"
    "mp_root m \<notin> set xs" "length xs < k" "\<And>x. x \<in> set xs \<Longrightarrow> mp_get_size m x = Some (sz x)"
  shows "mp_find m k (hd (xs @ [mp_root m])) c = Some (find (\<lambda>x. c \<le> sz x) xs)"
  using assms
proof (induction xs arbitrary: k)
  case Nil
  then show ?case by (cases k) simp_all
next
  case (Cons x xs)
  then obtain k' where k: "k = Suc k'" by (cases k) auto
  have "get_next (mp_heap m) x = Some (hd (xs @ [mp_root m]))"
    "successively (\<lambda>a b. get_next (mp_heap m) a = Some b) (xs @ [mp_root m])"
    using Cons.prems(1) by (cases xs; simp)+
  then show ?case using Cons k by (auto simp: not_less)
qed

lemma mp_seek_chain:
  assumes "successively (\<lambda>a b. get_next h a = Some b) (xs @ [root])" "root \<notin> set xs" "length xs < k"
  shows "mp_seek h k (hd (xs @ [root])) root a = Some (hd (dropWhile (\<lambda>x. x < a) xs @ [root]))"
  using assms
proof (induction xs arbitrary: k)
  case Nil
  then show ?case by (cases k) simp_all
next
  case (Cons x xs)
  then obtain k' where k: "k = Suc k'" by (cases k) auto
  have "get_next h x = Some (hd (xs @ [root]))" "successively (\<lambda>a b. get_next h a = Some b) (xs @ [root])"
    using Cons.prems(1) by (cases xs; simp)+
  then show ?case using Cons k by auto
qed

text \<open>Inserting a block between the free addresses below it and those above it.\<close>

lemma mp_insert_ring:
  assumes r: "ring (mp_heap m) (mp_root m # as @ cs)" and b: "b \<in> live (mp_heap m)" "b \<notin> set (mp_root m # as @ cs)"
    and o: "\<And>a. a \<in> set as \<Longrightarrow> a < b" "\<And>c. c \<in> set cs \<Longrightarrow> b < c" and k: "length (as @ cs) < MP_FUEL"
  shows "\<exists>h'. mp_insert m b = Some (mp_with m h') \<and> ring h' (mp_root m # as @ b # cs) \<and> live h' = live (mp_heap m)"
proof -
  note c = ring_next_chain [OF r]
  have d: "dropWhile (\<lambda>x. x < b) (as @ cs) = cs"
  proof -
    have "dropWhile (\<lambda>x. x < b) cs = cs" using o(2) by (cases cs) force+
    then show ?thesis using o(1) by (simp add: dropWhile_append2)
  qed
  have s: "mp_seek (mp_heap m) MP_FUEL (hd ((as @ cs) @ [mp_root m])) (mp_root m) b = Some (hd (cs @ [mp_root m]))"
    using mp_seek_chain [OF c(1,3) k, of b] d by simp
  obtain h' p where h': "get_prev (mp_heap m) (hd (cs @ [mp_root m])) = Some p"
    "list_insert (mp_heap m) b p (hd (cs @ [mp_root m])) = Some h'" "ring h' (mp_root m # as @ b # cs)"
    "touched (mp_heap m) h' (set (mp_root m # as @ b # cs))"
    using list_insert_before [OF r b] by blast
  then have "mp_insert m b = Some (mp_with m h')" "live h' = live (mp_heap m)"
    using c(2) s by (simp_all add: mp_insert_def touched_def)
  then show ?thesis using h'(3) by blast
qed

subsection \<open>Taking a block\<close>

lemma split_limit_le:
  assumes "n + 32 < 2 ^ 64" "s < 2 ^ 64"
  shows "((of_nat n :: usz) + 24 + 8 \<le> of_nat s) = (n + 32 \<le> s)"
proof -
  have "(of_nat n :: usz) + 24 + 8 = of_nat (n + 32)" by simp
  then show ?thesis by (simp only: le_of_nat_usz [OF assms])
qed

lemma mp_buf_lock [simp]: "mp_buf (m\<lparr>mp_lock := l\<rparr>) = mp_buf m"
  by (simp add: mp_buf_def)

lemma mp_inv_lock [simp]: "mp_inv (m\<lparr>mp_lock := l\<rparr>) bs = mp_inv m bs"
  by (simp add: mp_inv_def mp_buf_def)

lemma mp_with_simps [simp]:
  "mp_root (mp_with m h) = mp_root m" "mp_heap (mp_with m h) = h" "mp_sizes (mp_with m h) = mp_sizes m"
  "mp_off (mp_with m h) = mp_off m" "mp_lock (mp_with m h) = mp_lock m" "mp_buf (mp_with m h) = mp_buf m"
  by (simp_all add: mp_with_def mp_buf_def)

lemma mp_mem_live: "live h' = live h \<Longrightarrow> mp_mem root h' = mp_mem root h"
  by (simp add: mp_mem_def)

lemma mp_set_size_live:
  "p \<in> live (mp_heap m) \<Longrightarrow> mp_set_size m p v = Some (m\<lparr>mp_sizes := (mp_sizes m)(p \<mapsto> v)\<rparr>)"
  by (auto simp: mp_set_size_def live_def deref_def)

text \<open>The order of the free list around a block of the tiling.\<close>

lemma mp_inv_order:
  assumes i: "mp_inv m (pre @ (p, s, f) # post)"
  shows "a \<in> set (free_addrs pre) \<Longrightarrow> a < p" "a \<in> set (free_addrs post) \<Longrightarrow> p + s \<le> a"
    "mp_root m < p" "mp_root m < a \<or> a \<notin> set (free_addrs (pre @ (p, s, f) # post))"
proof -
  have t: "tiles (mp_buf m) (pre @ (p, s, f) # post) (mp_buf m + unat (mp_off m))"
    using i by (simp add: mp_inv_def)
  show "a < p" if a: "a \<in> set (free_addrs pre)"
  proof -
    obtain t' where t': "(a, t', True) \<in> set pre" using in_free_addrs [OF a] by blast
    have "24 \<le> t'" using mp_inv_slot(4) [OF i, of a t' True] t' by auto
    then show ?thesis using tiles_disjoint(1) [OF t t'] by linarith
  qed
  show "p + s \<le> a" if a: "a \<in> set (free_addrs post)"
    using in_free_addrs [OF a] tiles_disjoint(2) [OF t] by blast
  show "mp_root m < p" using mp_inv_slot(1) [OF i, of p s f] by (simp add: mp_buf_def)
  show "mp_root m < a \<or> a \<notin> set (free_addrs (pre @ (p, s, f) # post))"
    using in_free_addrs [of a "pre @ (p, s, f) # post"] mp_inv_slot(1) [OF i, of a] by (force simp: mp_buf_def)
qed

lemma mp_inv_root: "mp_inv m bs \<Longrightarrow> (p, s, f) \<in> set bs \<Longrightarrow> p \<noteq> mp_root m"
  using mp_inv_slot(1) [of m bs p s f] by (simp add: mp_buf_def)

lemma mp_inv_remove:
  assumes i: "mp_inv m (pre @ (p, s, True) # post)"
  shows "\<exists>h. list_del (mp_heap m) p = Some h \<and> live h = live (mp_heap m) \<and>
    ring h (mp_root m # free_addrs pre @ free_addrs post)"
proof -
  have "ring (mp_heap m) ((mp_root m # free_addrs pre) @ p # free_addrs post)"
    using i by (simp add: mp_inv_def)
  from list_del_ring [OF this] show ?thesis by (auto simp: touched_def)
qed

lemma mp_take_whole:
  assumes i: "mp_inv m (pre @ (p, s, True) # post)" and n: "n + 32 < 2 ^ 64" "s < n + 32"
  shows "\<exists>m'. mp_take m p (of_nat n) = Some m' \<and> mp_inv m' (pre @ (p, s, False) # post) \<and>
    mp_root m' = mp_root m \<and> mp_lock m' = mp_lock m \<and> mp_off m' = mp_off m"
proof -
  obtain h where h: "list_del (mp_heap m) p = Some h" "live h = live (mp_heap m)"
    "ring h (mp_root m # free_addrs pre @ free_addrs post)" using mp_inv_remove [OF i] by blast
  have sz: "mp_get_size m p = Some (of_nat s)" by (rule mp_inv_get_size [OF i, of p s True]) simp
  have "s \<le> 65536" by (rule mp_inv_slot(8) [OF i, of p s True]) simp
  then have "s < 2 ^ 64" by simp
  then have "\<not> (of_nat n :: usz) + 24 + 8 \<le> of_nat s" using n by (simp only: split_limit_le not_le)
  then have "mp_take m p (of_nat n) = Some (mp_with m h)"
    using sz h by (simp add: mp_take_def MP_ALIGN_def)
  moreover have "mp_inv (mp_with m h) (pre @ (p, s, False) # post)"
  proof -
    have "tiles (mp_buf m) (pre @ (p, s, False) # post) (mp_buf m + unat (mp_off m))"
      using i by (simp add: mp_inv_def tiles_append)
    moreover have "\<forall>(a, t, f) \<in> set (pre @ (p, s, False) # post). mp_sizes m a = Some (of_nat t)"
      using i by (simp add: mp_inv_def)
    ultimately show ?thesis using i h(3) mp_mem_live [OF h(2), of "mp_root m"] by (simp add: mp_inv_def)
  qed
  ultimately show ?thesis by (intro exI [of _ "mp_with m h"] conjI mp_with_simps)
qed

lemma mp_take_split:
  assumes i: "mp_inv m (pre @ (p, s, True) # post)" and n: "24 \<le> n" "8 dvd n" "n + 32 \<le> s"
  shows "\<exists>m'. mp_take m p (of_nat n) = Some m' \<and>
    mp_inv m' (pre @ (p, n, False) # (p + n, s - n, True) # post) \<and>
    mp_root m' = mp_root m \<and> mp_lock m' = mp_lock m \<and> mp_off m' = mp_off m"
proof -
  let ?bs = "pre @ (p, s, True) # post" and ?q = "p + n"
  let ?bs' = "pre @ (p, n, False) # (?q, s - n, True) # post"
  obtain h where h: "list_del (mp_heap m) p = Some h" "live h = live (mp_heap m)"
    "ring h (mp_root m # free_addrs pre @ free_addrs post)" using mp_inv_remove [OF i] by blast
  have sz: "mp_get_size m p = Some (of_nat s)" by (rule mp_inv_get_size [OF i, of p s True]) simp
  have pin: "(p, s, True) \<in> set ?bs" by simp
  note sl = mp_inv_slot [OF i pin]
  have s64: "s < 2 ^ 64" "n < 2 ^ 64" "n + 32 < 2 ^ 64" using sl(8) n by simp_all
  have un: "unat (of_nat n :: usz) = n" by (rule unat_of_nat_usz [OF s64(2)])
  have le: "(of_nat n :: usz) + 24 + 8 \<le> of_nat s" by (simp only: split_limit_le [OF s64(3,1)] n)
  have q: "?q \<in> live (mp_heap m)"
  proof -
    have "?q \<in> mp_slots (mp_root m)" using sl n by (simp add: mp_slots_def mp_buf_def)
    then show ?thesis using i by (auto simp: mp_inv_def mp_mem_def)
  qed
  note ord = mp_inv_order [OF i]
  have old: "a \<in> set (free_addrs pre) \<Longrightarrow> a < ?q" "c \<in> set (free_addrs post) \<Longrightarrow> ?q < c" for a c
    using ord(1) [of a] ord(2) [of c] n by linarith+
  define m2 where "m2 = (mp_with m h)\<lparr>mp_sizes := (mp_sizes m)(?q \<mapsto> of_nat s - of_nat n, p \<mapsto> of_nat n)\<rparr>"
  have m2: "mp_root m2 = mp_root m" "mp_heap m2 = h" "mp_off m2 = mp_off m" "mp_lock m2 = mp_lock m" "mp_buf m2 = mp_buf m"
    "mp_sizes m2 = (mp_sizes m)(?q \<mapsto> of_nat s - of_nat n, p \<mapsto> of_nat n)"
    by (simp_all add: m2_def mp_buf_def)
  have fu: "length (free_addrs pre @ free_addrs post) < MP_FUEL" using mp_inv_num_free [OF i] by simp
  have qn: "?q \<notin> set (mp_root m2 # free_addrs pre @ free_addrs post)"
    using old(1) [of ?q] old(2) [of ?q] ord(3) by (auto simp: m2)
  have r2: "ring (mp_heap m2) (mp_root m2 # free_addrs pre @ free_addrs post)" and q2: "?q \<in> live (mp_heap m2)"
    using h q by (simp_all add: m2)
  obtain h' where h': "mp_insert m2 ?q = Some (mp_with m2 h')"
      "ring h' (mp_root m2 # free_addrs pre @ ?q # free_addrs post)" "live h' = live (mp_heap m2)"
    using mp_insert_ring [OF r2 q2 qn old fu] by blast
  have "mp_take m p (of_nat n) = Some (mp_with m2 h')"
    using sz le h(1,2) h'(1) q sl(7) un by (simp add: mp_take_def MP_ALIGN_def mp_set_size_live m2_def)
  moreover have "mp_inv (mp_with m2 h') ?bs'"
  proof -
    have t: "tiles (mp_buf m) ?bs' (mp_buf m + unat (mp_off m))"
      using i n sl(5) by (auto simp: mp_inv_def tiles_append)
    have "\<forall>(a, t, f) \<in> set ?bs'. mp_sizes m2 a = Some (of_nat t)"
    proof -
      have d: "a \<noteq> p \<and> a \<noteq> ?q" if "(a, t, f) \<in> set pre \<union> set post" for a t f
      proof -
        have tt: "tiles (mp_buf m) ?bs (mp_buf m + unat (mp_off m))" using i by (simp add: mp_inv_def)
        have "24 \<le> t" using mp_inv_slot(4) [OF i, of a t f] that by auto
        then show ?thesis using tiles_disjoint [OF tt, of a t f] that n by auto
      qed
      have o: "mp_sizes m2 a = Some (of_nat t)" if a: "(a, t, f) \<in> set pre \<union> set post" for a t f
      proof -
        have "mp_sizes m a = Some (of_nat t)" using mp_inv_sizes [OF i, of a t f] a by auto
        then show ?thesis using d [OF a] by (simp add: m2)
      qed
      have "mp_sizes m2 p = Some (of_nat n)" "mp_sizes m2 ?q = Some (of_nat (s - n))"
        using n by (simp_all add: m2 of_nat_diff)
      then show ?thesis using o by (simp add: ball_Un) fastforce
    qed
    moreover have "live h' = live (mp_heap m)" using h'(3) h(2) by (simp add: m2)
    note mp_mem_live [OF this, of "mp_root m"]
    ultimately show ?thesis using i h'(2) t by (simp add: mp_inv_def m2)
  qed
  ultimately show ?thesis by (intro exI [of _ "mp_with m2 h'"] conjI) (simp_all only: mp_with_simps m2)
qed

subsection \<open>Allocation and release\<close>

text \<open>The bound on requests below which no size computation wraps around.\<close>

definition mp_req_ok :: "usz \<Rightarrow> bool" where
  "mp_req_ok cap \<longleftrightarrow> unat cap + 131072 \<le> 2 ^ 64"

lemma find_free:
  assumes "find P (free_addrs bs) = Some p"
  shows "\<exists>pre s post. bs = pre @ (p, s, True) # post \<and> P p \<and> (\<forall>a \<in> set (free_addrs pre). \<not> P a)"
  using assms
proof (induction bs)
  case (Cons b bs)
  obtain q t f where b: "b = (q, t, f)" by (cases b)
  show ?case
  proof (cases "f \<and> P q")
    case True
    then have "p = q" using Cons.prems by (simp add: b)
    then show ?thesis using True by (intro exI [of _ "[]"] exI [of _ t] exI [of _ bs]) (simp add: b free_addrs_def)
  next
    case False
    then have "find P (free_addrs bs) = Some p" using Cons.prems by (auto simp: b split: if_splits)
    then obtain pre s post where "bs = pre @ (p, s, True) # post" "P p" "\<forall>a \<in> set (free_addrs pre). \<not> P a"
      using Cons.IH by blast
    then show ?thesis using False by (intro exI [of _ "b # pre"] exI [of _ s] exI [of _ post]) (auto simp: b)
  qed
qed (simp add: free_addrs_def)

definition mp_sz :: "mp_t \<Rightarrow> lptr \<Rightarrow> usz" where
  "mp_sz m p = the (mp_sizes m p)"

lemma mp_alloc_search:
  assumes i: "mp_inv m bs"
  shows "\<exists>n. get_next (mp_heap m) (mp_root m) = Some n \<and>
    mp_find m MP_FUEL n c = Some (find (\<lambda>x. c \<le> mp_sz m x) (free_addrs bs))"
proof -
  have r: "ring (mp_heap m) (mp_root m # free_addrs bs)" using i by (simp add: mp_inv_def)
  note c = ring_next_chain [OF r]
  have "mp_get_size m x = Some (mp_sz m x)" if x: "x \<in> set (free_addrs bs)" for x
  proof -
    obtain s where "(x, s, True) \<in> set bs" using in_free_addrs [OF x] by blast
    then have "mp_get_size m x = Some (of_nat s)" by (rule mp_inv_get_size [OF i])
    then show ?thesis by (auto simp: mp_sz_def mp_get_size_def split: if_splits)
  qed
  then show ?thesis using mp_find_chain [OF c(1,3) mp_inv_num_free [OF i], of "mp_sz m" c] c(2) by simp
qed

lemma mp_sz_block:
  assumes i: "mp_inv m bs" and b: "(p, s, f) \<in> set bs"
  shows "unat (mp_sz m p) = s"
proof -
  have "mp_sz m p = of_nat s" using i b by (auto simp: mp_inv_def mp_sz_def)
  then show ?thesis using mp_inv_slot(8) [OF i b] by (simp add: unsigned_of_nat take_bit_nat_eq_self)
qed

text \<open>A pool ready for a call: the invariant, and the lock open.\<close>

definition mp_ready :: "mp_t \<Rightarrow> blk list \<Rightarrow> bool" where
  "mp_ready m bs \<longleftrightarrow> mp_inv m bs \<and> mp_lock m = 0"

lemma used_append [simp]: "used (xs @ ys) = used xs \<union> used ys"
  by (auto simp: used_def)

lemma used_Cons [simp]: "used ((p, s, f) # bs) = (if f then {} else {(p, s)}) \<union> used bs"
  by (auto simp: used_def)

lemma used_Nil [simp]: "used [] = {}"
  by (simp add: used_def)

lemma mp_not_used:
  assumes "mp_inv m (pre @ (p, s, f) # post)"
  shows "(p, t) \<notin> used pre \<union> used post"
proof
  assume u: "(p, t) \<in> used pre \<union> used post"
  have tt: "tiles (mp_buf m) (pre @ (p, s, f) # post) (mp_buf m + unat (mp_off m))" using assms by (simp add: mp_inv_def)
  have "24 \<le> s" "(p, t, False) \<in> set (pre @ (p, s, f) # post) \<Longrightarrow> 24 \<le> t"
    using mp_inv_slot(4) [OF assms, of p s f] mp_inv_slot(4) [OF assms, of p t False] by auto
  then show False using u tiles_disjoint [OF tt, of p t False] by (auto simp: used_def)
qed

lemma mp_alloc_found:
  assumes r: "mp_ready m bs" and c: "mp_req_ok cap"
    and f: "find (\<lambda>x. MP_BLOCK_HEADER_SIZE + MP_ALIGN_UP cap \<le> mp_sz m x) (free_addrs bs) = Some p"
  shows "\<exists>m' bs' s. mp_alloc m cap = Some (m', p + 24) \<and> mp_ready m' bs' \<and> mp_root m' = mp_root m \<and>
    blk_size (unat cap) \<le> s \<and> (p, s) \<notin> used bs \<and> used bs' = insert (p, s) (used bs) \<and> mp_off m' = mp_off m"
proof -
  define n where "n = blk_size (unat cap)"
  have cn: "unat cap + 32 \<le> 2 ^ 64" "n + 32 < 2 ^ 64"
    using c blk_size_props(4) [of "unat cap"] by (simp_all add: mp_req_ok_def n_def)
  have w: "MP_BLOCK_HEADER_SIZE + MP_ALIGN_UP cap = of_nat n"
    using unat_block_size [OF cn(1)] cn(2) by (simp add: n_def word_unat_eq_iff unsigned_of_nat take_bit_nat_eq_self)
  have i: "mp_inv m bs" and l: "mp_lock m = 0" using r by (simp_all add: mp_ready_def)
  obtain pre s post where bs: "bs = pre @ (p, s, True) # post" and ps: "of_nat n \<le> mp_sz m p"
    using find_free [OF f] w by auto
  have ns: "n \<le> s"
    using ps mp_sz_block [OF i, of p s True] cn(2) by (simp add: bs word_le_nat_alt unsigned_of_nat take_bit_nat_eq_self)
  obtain nd where s: "get_next (mp_heap m) (mp_root m) = Some nd" "mp_find m MP_FUEL nd (of_nat n) = Some (Some p)"
    using mp_alloc_search [OF i, of "of_nat n"] f w by auto
  let ?m = "m\<lparr>mp_lock := 1\<rparr>"
  have find: "mp_find ?m k x b = mp_find m k x b" for k x b
    by (induction m k x b rule: mp_find.induct) (auto simp: mp_get_size_def split: bind_splits)
  have i': "mp_inv ?m (pre @ (p, s, True) # post)" using i bs by simp
  have "\<exists>m1 bs' s'. mp_take ?m p (of_nat n) = Some m1 \<and> mp_inv m1 bs' \<and> mp_root m1 = mp_root m \<and> mp_off m1 = mp_off m \<and>
     n \<le> s' \<and> used bs' = insert (p, s') (used bs)"
  proof (cases "n + 32 \<le> s")
    case True
    from mp_take_split [OF i' _ _ True] show ?thesis
      using blk_size_props(2,3) [of "unat cap"] by (fastforce simp: n_def [symmetric] bs)
  next
    case False
    then have "s < n + 32" by simp
    from mp_take_whole [OF i' cn(2) this] show ?thesis using ns by (fastforce simp: bs)
  qed
  then obtain m1 bs' s' where m1: "mp_take ?m p (of_nat n) = Some m1" "mp_inv m1 bs'" "mp_root m1 = mp_root m"
      "mp_off m1 = mp_off m" "n \<le> s'" "used bs' = insert (p, s') (used bs)" by blast
  have "mp_alloc m cap = Some (m1\<lparr>mp_lock := 0\<rparr>, p + 24)"
    using l s m1(1) w by (simp add: mp_alloc_def spin_lock_def spin_unlock_def find)
  moreover have "(p, s') \<notin> used bs" using mp_not_used [of m pre p s True post] i by (auto simp: bs)
  ultimately show ?thesis using m1
    by (intro exI [of _ "m1\<lparr>mp_lock := 0\<rparr>"] exI [of _ bs'] exI [of _ s']) (simp add: mp_ready_def n_def)
qed

lemma mp_find_lock: "mp_find (m\<lparr>mp_lock := l\<rparr>) k x b = mp_find m k x b"
  by (induction m k x b rule: mp_find.induct) (auto simp: mp_get_size_def split: bind_splits)

lemma block_size_of_nat:
  assumes "mp_req_ok cap"
  shows "MP_BLOCK_HEADER_SIZE + MP_ALIGN_UP cap = of_nat (blk_size (unat cap))"
    "blk_size (unat cap) + 65536 < 2 ^ 64"
proof -
  show b: "blk_size (unat cap) + 65536 < 2 ^ 64"
    using assms blk_size_props(4) [of "unat cap"] by (simp add: mp_req_ok_def)
  then have "unat (of_nat (blk_size (unat cap)) :: usz) = blk_size (unat cap)" by (intro unat_of_nat_usz) simp
  moreover have "unat cap + 32 \<le> 2 ^ 64" using assms by (simp add: mp_req_ok_def)
  ultimately show "MP_BLOCK_HEADER_SIZE + MP_ALIGN_UP cap = of_nat (blk_size (unat cap))"
    using unat_block_size by (simp only: word_unat_eq_iff)
qed

lemma MP_SIZE_nat: "unat MP_SIZE = 65536"
  by (simp add: MP_SIZE_def)

lemma mp_off_fits:
  assumes "mp_req_ok cap" "unat off \<le> 65536"
  shows "(MP_SIZE < off + of_nat (blk_size (unat cap))) = (65536 < unat off + blk_size (unat cap))"
    "unat (off + of_nat (blk_size (unat cap))) = unat off + blk_size (unat cap)"
proof -
  note b = block_size_of_nat(2) [OF assms(1)]
  have n: "unat (of_nat (blk_size (unat cap)) :: usz) = blk_size (unat cap)" using b by (intro unat_of_nat_usz) simp
  show u: "unat (off + of_nat (blk_size (unat cap))) = unat off + blk_size (unat cap)"
    unfolding unat_word_ariths n using b assms(2) by simp
  show "(MP_SIZE < off + of_nat (blk_size (unat cap))) = (65536 < unat off + blk_size (unat cap))"
    by (simp only: word_less_nat_alt u MP_SIZE_nat)
qed

lemma mp_alloc_none:
  assumes r: "mp_ready m bs" and c: "mp_req_ok cap"
    and f: "find (\<lambda>x. MP_BLOCK_HEADER_SIZE + MP_ALIGN_UP cap \<le> mp_sz m x) (free_addrs bs) = None"
    and o: "65536 < unat (mp_off m) + blk_size (unat cap)"
  shows "mp_alloc m cap = Some (m, 0)"
proof -
  have i: "mp_inv m bs" and l: "mp_lock m = 0" using r by (simp_all add: mp_ready_def)
  have of: "unat (mp_off m) \<le> 65536" using i by (simp add: mp_inv_def)
  obtain nd where s: "get_next (mp_heap m) (mp_root m) = Some nd"
      "mp_find m MP_FUEL nd (of_nat (blk_size (unat cap))) = Some None"
    using mp_alloc_search [OF i, of "of_nat (blk_size (unat cap))"] f block_size_of_nat(1) [OF c] by auto
  have "MP_SIZE < mp_off m + of_nat (blk_size (unat cap))" using mp_off_fits(1) [OF c of] o by simp
  then show ?thesis using l s block_size_of_nat(1) [OF c]
    by (simp add: mp_alloc_def spin_lock_def spin_unlock_def mp_find_lock)
qed

lemma mp_alloc_carve:
  assumes r: "mp_ready m bs" and w: "MP_BLOCK_HEADER_SIZE + MP_ALIGN_UP cap = of_nat k"
    and f: "find (\<lambda>x. MP_BLOCK_HEADER_SIZE + MP_ALIGN_UP cap \<le> mp_sz m x) (free_addrs bs) = None"
    and o: "unat (mp_off m) + k \<le> 65536" and n: "24 \<le> k" "8 dvd k"
  shows "\<exists>m'. mp_alloc m cap = Some (m', mp_buf m + unat (mp_off m) + 24) \<and>
    mp_ready m' (bs @ [(mp_buf m + unat (mp_off m), k, False)]) \<and> mp_root m' = mp_root m"
proof -
  let ?n = k and ?p = "mp_buf m + unat (mp_off m)"
  have i: "mp_inv m bs" and l: "mp_lock m = 0" using r by (simp_all add: mp_ready_def)
  have of: "unat (mp_off m) \<le> 65536" using i by (simp add: mp_inv_def)
  obtain nd where s: "get_next (mp_heap m) (mp_root m) = Some nd" "mp_find m MP_FUEL nd (of_nat ?n) = Some None"
    using mp_alloc_search [OF i, of "of_nat ?n"] f w by auto
  have uo: "unat (mp_off m + of_nat k) = unat (mp_off m) + k"
  proof -
    have "unat (of_nat k :: usz) = k" using o by (intro unat_of_nat_usz) simp
    then show ?thesis using o by (simp only: unat_word_ariths) simp
  qed
  then have nf: "\<not> MP_SIZE < mp_off m + of_nat ?n" using o by (simp add: word_less_nat_alt MP_SIZE_nat)
  have t: "tiles (mp_buf m) bs ?p" using i by (simp add: mp_inv_def)
  have "8 dvd mp_buf m" using i by (simp add: mp_inv_def mp_mem_def mp_buf_def)
  moreover have "8 dvd unat (mp_off m)"
    using tiles_span [OF t] by auto
  ultimately have "?p \<in> mp_slots (mp_root m)" using n o by (auto simp: mp_slots_def mp_buf_def)
  then have p: "?p \<in> live (mp_heap m)" using i by (auto simp: mp_inv_def mp_mem_def)
  define m' where "m' = m\<lparr>mp_sizes := (mp_sizes m)(?p \<mapsto> of_nat ?n), mp_off := mp_off m + of_nat ?n\<rparr>"
  have m': "mp_root m' = mp_root m" "mp_heap m' = mp_heap m" "mp_off m' = mp_off m + of_nat ?n" "mp_lock m' = mp_lock m"
    "mp_sizes m' = (mp_sizes m)(?p \<mapsto> of_nat ?n)" "mp_buf m' = mp_buf m"
    by (simp_all add: m'_def mp_buf_def)
  have "mp_alloc m cap = Some (m'\<lparr>mp_lock := 0\<rparr>, ?p + 24)"
    using l s nf p w
    by (simp add: mp_alloc_def spin_lock_def spin_unlock_def mp_find_lock mp_set_size_live m'_def mp_buf_def Let_def)
  moreover have "mp_inv m' (bs @ [(?p, ?n, False)])"
  proof -
    have "tiles (mp_buf m) (bs @ [(?p, ?n, False)]) (?p + ?n)" using t n by (simp add: tiles_append)
    moreover have "mp_sizes m' a = Some (of_nat s)" if a: "(a, s, f) \<in> set bs" for a s f
    proof -
      have "a \<noteq> ?p" using tiles_bounds [OF t a] by linarith
      then show ?thesis using mp_inv_sizes [OF i a] by (simp add: m')
    qed
    ultimately show ?thesis using i o by (auto simp: mp_inv_def m' uo add.assoc)
  qed
  ultimately show ?thesis
    by (intro exI [of _ "m'\<lparr>mp_lock := 0\<rparr>"]) (simp add: mp_ready_def m')
qed

lemma mp_alloc_fresh:
  assumes r: "mp_ready m bs" and c: "mp_req_ok cap"
    and f: "find (\<lambda>x. MP_BLOCK_HEADER_SIZE + MP_ALIGN_UP cap \<le> mp_sz m x) (free_addrs bs) = None"
    and o: "unat (mp_off m) + blk_size (unat cap) \<le> 65536"
  shows "\<exists>m'. mp_alloc m cap = Some (m', mp_buf m + unat (mp_off m) + 24) \<and>
    mp_ready m' (bs @ [(mp_buf m + unat (mp_off m), blk_size (unat cap), False)]) \<and> mp_root m' = mp_root m"
  by (rule mp_alloc_carve [OF r block_size_of_nat(1) [OF c] f o blk_size_props(2,3)])

lemma mp_free_block:
  assumes r: "mp_ready m (pre @ (p, s, False) # post)"
  shows "\<exists>m'. mp_free m (p + 24) = Some m' \<and> mp_ready m' (pre @ (p, s, True) # post) \<and> mp_root m' = mp_root m \<and>
    mp_off m' = mp_off m"
proof -
  let ?bs = "pre @ (p, s, False) # post"
  have i: "mp_inv m ?bs" and l: "mp_lock m = 0" using r by (simp_all add: mp_ready_def)
  have pin: "(p, s, False) \<in> set ?bs" by simp
  note sl = mp_inv_slot [OF i pin] and ord = mp_inv_order [OF i]
  let ?m = "m\<lparr>mp_lock := 1\<rparr>"
  have "ring (mp_heap ?m) (mp_root ?m # free_addrs pre @ free_addrs post)" using i by (simp add: mp_inv_def)
  moreover have "p \<in> live (mp_heap ?m)" using sl(7) by simp
  moreover have "p \<notin> set (mp_root ?m # free_addrs pre @ free_addrs post)"
    using ord(1) [of p] ord(2) [of p] ord(3) sl(4) by auto
  moreover have "a \<in> set (free_addrs pre) \<Longrightarrow> a < p" "c \<in> set (free_addrs post) \<Longrightarrow> p < c" for a c
    using ord(1) [of a] ord(2) [of c] sl(4) by linarith+
  moreover have "length (free_addrs pre @ free_addrs post) < MP_FUEL" using mp_inv_num_free [OF i] by simp
  ultimately obtain h where h: "mp_insert ?m p = Some (mp_with ?m h)"
      "ring h (mp_root ?m # free_addrs pre @ p # free_addrs post)" "live h = live (mp_heap ?m)"
    using mp_insert_ring [of ?m "free_addrs pre" "free_addrs post" p] by blast
  let ?m' = "(mp_with ?m h)\<lparr>mp_lock := 0\<rparr>"
  have "mp_free m (p + 24) = Some ?m'" using l h(1) by (simp add: mp_free_def spin_lock_def spin_unlock_def)
  moreover have "mp_inv ?m' (pre @ (p, s, True) # post)"
  proof -
    have "live h = live (mp_heap m)" using h(3) by simp
    note mp_mem_live [OF this, of "mp_root m"]
    moreover have "tiles (mp_buf m) (pre @ (p, s, True) # post) (mp_buf m + unat (mp_off m))"
      using i by (simp add: mp_inv_def tiles_append)
    moreover have "mp_buf ?m = mp_buf m" by (simp add: mp_buf_def)
    ultimately show ?thesis using i h(2) by (simp add: mp_inv_def)
  qed
  ultimately show ?thesis by (intro exI [of _ ?m'] conjI) (simp_all add: mp_ready_def)
qed

lemma mp_init_ready:
  assumes "mp_mem (mp_root m) (mp_heap m)" "mp_off m = 0" "mp_lock m = 0"
  shows "\<exists>m'. mp_init m = Some m' \<and> mp_ready m' [] \<and> mp_root m' = mp_root m"
proof -
  have "mp_root m \<in> live (mp_heap m)" using assms(1) by (simp add: mp_mem_def)
  then obtain h where h: "list_init (mp_heap m) (mp_root m) = Some h" "ring h [mp_root m]" "live h = live (mp_heap m)"
    using list_init_ring [of "mp_root m" "mp_heap m"] by (auto simp: touched_def)
  then have "mp_ready (mp_with m h) []"
    using assms mp_mem_live [OF h(3), of "mp_root m"] by (simp add: mp_ready_def mp_inv_def free_addrs_def)
  then show ?thesis using h(1) by (intro exI [of _ "mp_with m h"]) (simp add: mp_init_def)
qed

lemma mp_reset_ready:
  assumes "mp_ready m bs"
  shows "\<exists>m'. mp_reset m = Some m' \<and> mp_ready m' [] \<and> mp_root m' = mp_root m \<and> mp_off m' = 0"
proof -
  have i: "mp_mem (mp_root m) (mp_heap m)" "mp_lock m = 0" using assms by (simp_all add: mp_ready_def mp_inv_def)
  then have "mp_root m \<in> live (mp_heap m)" by (simp add: mp_mem_def)
  then obtain h where h: "list_init (mp_heap m) (mp_root m) = Some h" "ring h [mp_root m]" "live h = live (mp_heap m)"
    using list_init_ring [of "mp_root m" "mp_heap m"] by (auto simp: touched_def)
  let ?m' = "(mp_with (m\<lparr>mp_lock := 1, mp_off := 0\<rparr>) h)\<lparr>mp_lock := 0\<rparr>"
  have "mp_buf ?m' = mp_buf m" by (simp add: mp_buf_def)
  then have "mp_ready ?m' []"
    using i mp_mem_live [OF h(3), of "mp_root m"] h(2) by (simp add: mp_ready_def mp_inv_def free_addrs_def)
  moreover have "mp_reset m = Some ?m'"
    using i h(1) by (simp add: mp_reset_def spin_lock_def spin_unlock_def Let_def)
  ultimately show ?thesis by (intro exI [of _ ?m']) simp
qed

subsection \<open>A client\<close>

text \<open>Pools a client can produce that starts from zeroed memory, asks for any amounts below the
  wrap-around bound and releases what it holds; the set holds pointers with the sizes asked
  for.\<close>

inductive mp_client :: "mp_t \<Rightarrow> (lptr \<times> nat) set \<Rightarrow> bool" where
  init: "\<lbrakk>mp_mem (mp_root m) (mp_heap m); mp_off m = 0; mp_lock m = 0; mp_init m = Some m'\<rbrakk> \<Longrightarrow> mp_client m' {}"
| alloc: "\<lbrakk>mp_client m A; mp_req_ok cap; mp_alloc m cap = Some (m', ptr)\<rbrakk> \<Longrightarrow>
    mp_client m' (if ptr = 0 then A else insert (ptr, unat cap) A)"
| calloc: "\<lbrakk>mp_client m A; mp_req_ok cap; mp_calloc m cap = Some (m', ptr)\<rbrakk> \<Longrightarrow>
    mp_client m' (if ptr = 0 then A else insert (ptr, unat cap) A)"
| free: "\<lbrakk>mp_client m A; (ptr, c) \<in> A; mp_free m ptr = Some m'\<rbrakk> \<Longrightarrow> mp_client m' (A - {(ptr, c)})"
| reset: "\<lbrakk>mp_client m A; mp_reset m = Some m'\<rbrakk> \<Longrightarrow> mp_client m' {}"

text \<open>Each pointer the client holds belongs to its own block in use.\<close>

definition mp_owns :: "blk list \<Rightarrow> (lptr \<times> nat) set \<Rightarrow> bool" where
  "mp_owns bs A \<longleftrightarrow> (\<forall>(p, c) \<in> A. 24 \<le> p \<and> (\<exists>s. (p - 24, s) \<in> used bs \<and> c + 24 \<le> s)) \<and>
     (\<forall>p c d. (p, c) \<in> A \<longrightarrow> (p, d) \<in> A \<longrightarrow> c = d)"

lemma used_unique:
  assumes "tiles a bs b" "(p, s) \<in> used bs" "(p, t) \<in> used bs"
  shows "s = t"
proof (rule ccontr)
  assume "s \<noteq> t"
  then have "p + s \<le> p \<or> p + t \<le> p" using tiles_disjoint_used [OF assms(1), of p s False p t False] assms(2,3)
    by (auto simp: used_def)
  moreover have "24 \<le> s" "24 \<le> t" using tiles_bounds [OF assms(1)] assms(2,3) by (auto simp: used_def)
  ultimately show False by simp
qed

lemma mp_inv_tiles: "mp_inv m bs \<Longrightarrow> tiles (mp_buf m) bs (mp_buf m + unat (mp_off m))"
  by (simp add: mp_inv_def)

lemma mp_alloc_cases:
  assumes r: "mp_ready m bs" and c: "mp_req_ok cap"
  shows "mp_alloc m cap = Some (m, 0) \<or>
    (\<exists>m' bs' p s. mp_alloc m cap = Some (m', p + 24) \<and> mp_ready m' bs' \<and> mp_root m' = mp_root m \<and>
       blk_size (unat cap) \<le> s \<and> (\<forall>t. (p, t) \<notin> used bs) \<and> used bs' = insert (p, s) (used bs))"
proof -
  have i: "mp_inv m bs" using r by (simp add: mp_ready_def)
  let ?f = "find (\<lambda>x. MP_BLOCK_HEADER_SIZE + MP_ALIGN_UP cap \<le> mp_sz m x) (free_addrs bs)"
  consider (full) "?f = None" "65536 < unat (mp_off m) + blk_size (unat cap)"
    | (fresh) "?f = None" "unat (mp_off m) + blk_size (unat cap) \<le> 65536" | (found) p where "?f = Some p"
    by (cases ?f) (force simp: not_le)+
  then show ?thesis
  proof cases
    case full
    then show ?thesis using mp_alloc_none [OF r c] by blast
  next
    case fresh
    let ?p = "mp_buf m + unat (mp_off m)"
    have "(?p, t) \<notin> used bs" for t
      using tiles_bounds [OF mp_inv_tiles [OF i], of ?p t False] by (auto simp: used_def)
    then show ?thesis using mp_alloc_fresh [OF r c fresh] by fastforce
  next
    case found
    then obtain pre s post where bs: "bs = pre @ (p, s, True) # post" using find_free by blast
    have "(p, t) \<notin> used bs" for t using mp_not_used [of m pre p s True post t] i by (auto simp: bs)
    then show ?thesis using mp_alloc_found [OF r c found] by blast
  qed
qed

lemma mp_free_used:
  assumes r: "mp_ready m bs" and u: "(p, s) \<in> used bs"
  shows "\<exists>m' bs'. mp_free m (p + 24) = Some m' \<and> mp_ready m' bs' \<and> mp_root m' = mp_root m \<and>
    used bs' = used bs - {(p, s)} \<and> p \<in> set (free_addrs bs')"
proof -
  obtain pre post where bs: "bs = pre @ (p, s, False) # post"
    using u by (auto simp: used_def dest: split_list)
  have i: "mp_inv m (pre @ (p, s, False) # post)" using r by (simp add: mp_ready_def bs)
  have "used (pre @ (p, s, True) # post) = used bs - {(p, s)}"
    using mp_not_used [OF i, of s] by (auto simp: bs)
  moreover have "p \<in> set (free_addrs (pre @ (p, s, True) # post))" by simp
  ultimately show ?thesis using mp_free_block [of m pre p s post] r bs by blast
qed

lemma mp_calloc_alloc:
  assumes r: "mp_ready m bs" and c: "mp_req_ok cap"
  shows "mp_calloc m cap = mp_alloc m cap"
proof (cases "mp_alloc m cap = Some (m, 0)")
  case True
  then show ?thesis by (simp add: mp_calloc_def)
next
  case False
  then obtain m' bs' p s where n: "mp_alloc m cap = Some (m', p + 24)" "mp_ready m' bs'" "blk_size (unat cap) \<le> s"
      "used bs' = insert (p, s) (used bs)"
    using mp_alloc_cases [OF r c] by blast
  have "(p, s, False) \<in> set bs'" using n(4) by (auto simp: used_def)
  then have "p + s \<le> mp_buf m' + 65536" using mp_inv_slot(1-3) [of m' bs' p s False] n(2) by (auto simp: mp_ready_def)
  then have "p + 24 + unat cap \<le> mp_buf m' + unat MP_SIZE" using n(3) blk_size_props(1) [of "unat cap"] by (simp add: MP_SIZE_nat)
  then show ?thesis using n(1) by (simp add: mp_calloc_def)
qed

text \<open>An allocation keeps the client's regions apart.\<close>

lemma mp_owns_alloc:
  assumes "mp_ready m bs" "mp_owns bs A" "mp_req_ok cap" "mp_alloc m cap = Some (m', ptr)"
  shows "\<exists>bs'. mp_ready m' bs' \<and> mp_owns bs' (if ptr = 0 then A else insert (ptr, unat cap) A)"
proof (cases "mp_alloc m cap = Some (m, 0)")
  case True
  then show ?thesis using assms by auto
next
  case False
  then obtain bs' p s where n: "ptr = p + 24" "mp_ready m' bs'" "blk_size (unat cap) \<le> s"
      "\<forall>t. (p, t) \<notin> used bs" "used bs' = insert (p, s) (used bs)"
    using mp_alloc_cases [OF assms(1,3)] assms(4) by auto
  have "unat cap + 24 \<le> s" using blk_size_props(1) [of "unat cap"] n(3) by simp
  moreover have "(ptr, c) \<notin> A" for c using assms(2) n(1,4) by (force simp: mp_owns_def)
  ultimately have "mp_owns bs' (insert (ptr, unat cap) A)" using assms(2) n by (auto simp: mp_owns_def)
  then show ?thesis using n(1,2) by auto
qed

lemma mp_client_inv: "mp_client m A \<Longrightarrow> \<exists>bs. mp_ready m bs \<and> mp_owns bs A"
proof (induction rule: mp_client.induct)
  case (init m m')
  then show ?case using mp_init_ready [of m] by (auto simp: mp_owns_def)
next
  case (alloc m A cap m' ptr)
  then show ?case using mp_owns_alloc by blast
next
  case (calloc m A cap m' ptr)
  then show ?case using mp_owns_alloc mp_calloc_alloc by metis
next
  case (free m A ptr c m')
  then obtain bs where bs: "mp_ready m bs" "mp_owns bs A" by blast
  then obtain s where s: "24 \<le> ptr" "(ptr - 24, s) \<in> used bs" using free.hyps(2) by (auto simp: mp_owns_def)
  have i: "mp_inv m bs" using bs(1) by (simp add: mp_ready_def)
  obtain bs' where n: "mp_ready m' bs'" "used bs' = used bs - {(ptr - 24, s)}"
    using mp_free_used [OF bs(1) s(2)] free.hyps(3) s(1) by auto
  have "\<exists>t. (q - 24, t) \<in> used bs' \<and> d + 24 \<le> t" if q: "(q, d) \<in> A - {(ptr, c)}" for q d
  proof -
    have "q \<noteq> ptr" using q bs(2) free.hyps(2) unfolding mp_owns_def by blast
    moreover obtain t where t: "24 \<le> q" "(q - 24, t) \<in> used bs" "d + 24 \<le> t"
      using q bs(2) by (auto simp: mp_owns_def)
    ultimately have "(q - 24, t) \<noteq> (ptr - 24, s)" using s(1) by auto
    then show ?thesis using n(2) t by blast
  qed
  moreover have "24 \<le> q" if "(q, d) \<in> A" for q d using that bs(2) by (auto simp: mp_owns_def)
  ultimately have "mp_owns bs' (A - {(ptr, c)})" using bs(2) unfolding mp_owns_def by blast
  then show ?case using n(1) by blast
next
  case (reset m A m')
  then obtain bs where "mp_ready m bs" by blast
  then show ?case using mp_reset_ready [of m bs] reset.hyps(2) by (auto simp: mp_owns_def)
qed

text \<open>What a client sees of one allocation and of one release.\<close>

lemma mp_client_calloc:
  assumes "mp_client m A" "mp_req_ok cap"
  shows "mp_calloc m cap = Some (m, 0) \<or>
    (\<exists>m' p. mp_calloc m cap = Some (m', p) \<and> p \<noteq> 0 \<and> (\<forall>c. (p, c) \<notin> A) \<and> mp_client m' (insert (p, unat cap) A))"
proof -
  obtain bs where bs: "mp_ready m bs" "mp_owns bs A" using mp_client_inv [OF assms(1)] by blast
  show ?thesis
  proof (cases "mp_alloc m cap = Some (m, 0)")
    case True
    then show ?thesis by (simp add: mp_calloc_def)
  next
    case False
    then obtain m' p where n: "mp_alloc m cap = Some (m', p + 24)" "\<forall>t. (p, t) \<notin> used bs"
      using mp_alloc_cases [OF bs(1) assms(2)] by blast
    have "\<forall>c. (p + 24, c) \<notin> A" using bs(2) n(2) by (force simp: mp_owns_def)
    then show ?thesis using mp_client.alloc [OF assms n(1)] n(1) mp_calloc_alloc [OF bs(1) assms(2)] by auto
  qed
qed

lemma mp_client_free:
  assumes "mp_client m A" "(p, c) \<in> A"
  shows "\<exists>m'. mp_free m p = Some m' \<and> mp_client m' (A - {(p, c)})"
proof -
  obtain bs where bs: "mp_ready m bs" "mp_owns bs A" using mp_client_inv [OF assms(1)] by blast
  then obtain s where s: "24 \<le> p" "(p - 24, s) \<in> used bs" using assms(2) by (auto simp: mp_owns_def)
  then obtain m1 where "mp_free m p = Some m1" using mp_free_used [OF bs(1) s(2)] by auto
  then show ?thesis using mp_client.free [OF assms] by blast
qed

lemma mp_fits_iff:
  assumes i: "mp_inv m bs" and c: "mp_req_ok cap"
  shows "(find (\<lambda>x. MP_BLOCK_HEADER_SIZE + MP_ALIGN_UP cap \<le> mp_sz m x) (free_addrs bs) = None) =
    (\<nexists>p s. (p, s, True) \<in> set bs \<and> blk_size (unat cap) \<le> s)"
proof -
  note n = block_size_of_nat [OF c]
  have u: "unat (of_nat (blk_size (unat cap)) :: usz) = blk_size (unat cap)" using n(2) by (intro unat_of_nat_usz) simp
  have "(of_nat (blk_size (unat cap)) \<le> mp_sz m p) = (blk_size (unat cap) \<le> s)" if "(p, s, True) \<in> set bs" for p s
    using mp_sz_block [OF i that] by (simp only: word_le_nat_alt u)
  then show ?thesis unfolding n(1) by (force simp: find_None_iff free_addrs_def)
qed

text \<open>A pool at address 64, before \<open>mp_init\<close>, in memory that holds zeroes.\<close>

definition demo_pool :: mp_t where
  "demo_pool = \<lparr>mp_root = 64, mp_heap = (\<lambda>p. if p = 64 \<or> (80 \<le> p \<and> p < 80 + 65536 \<and> 8 dvd p)
      then Some \<lparr>lh_prev = 0, lh_next = 0\<rparr> else None), mp_sizes = (\<lambda>p. None), mp_off = 0, mp_lock = 0\<rparr>"

lemma demo_pool_mem: "mp_mem (mp_root demo_pool) (mp_heap demo_pool)" "mp_off demo_pool = 0" "mp_lock demo_pool = 0"
  by (auto simp: demo_pool_def mp_mem_def live_def mp_slots_def)

lemma demo_init: "\<exists>m. mp_init demo_pool = Some m \<and> mp_ready m [] \<and> mp_client m {} \<and> mp_root m = 64"
  using mp_init_ready [OF demo_pool_mem] mp_client.init [OF demo_pool_mem] by (auto simp: demo_pool_def)

lemma demo_req: "mp_req_ok 100"
  by (simp add: mp_req_ok_def)

lemma mp_client_two:
  "\<exists>m p q. mp_client m {(q, 100), (p, 100)} \<and> p \<noteq> q"
proof -
  obtain m0 where m0: "mp_ready m0 []" "mp_client m0 {}" using demo_init by blast
  have b: "blk_size (unat (100 :: usz)) = 128" by (simp add: blk_size_def)
  have f: "find P (free_addrs []) = None" for P by simp
  have o0: "mp_off m0 = 0"
    using m0(1) by (simp add: mp_ready_def mp_inv_def unsigned_eq_0_iff)
  obtain m1 where m1: "mp_alloc m0 100 = Some (m1, mp_buf m0 + 24)" "mp_ready m1 [(mp_buf m0, 128, False)]" "mp_root m1 = mp_root m0"
    using mp_alloc_fresh [OF m0(1) demo_req f] b o0 by auto
  have c1: "mp_client m1 {(mp_buf m0 + 24, 100)}"
    using mp_client.alloc [OF m0(2) demo_req m1(1)] by simp
  have f1: "find P (free_addrs [(mp_buf m0, 128, False)]) = None" for P by simp
  have o1: "unat (mp_off m1) = 128" and b1: "mp_buf m1 = mp_buf m0"
    using m1(2,3) by (auto simp: mp_ready_def mp_inv_def mp_buf_def)
  obtain m2 where m2: "mp_alloc m1 100 = Some (m2, mp_buf m0 + 128 + 24)"
    using mp_alloc_fresh [OF m1(2) demo_req f1] b o1 b1 by auto
  have "mp_client m2 {(mp_buf m0 + 128 + 24, 100), (mp_buf m0 + 24, 100)}"
    using mp_client.alloc [OF c1 demo_req m2] by simp
  then show ?thesis by (intro exI) (rule conjI, assumption, simp)
qed

subsection \<open>Properties\<close>

text \<open>C6: Whatever a client allocates, cleared or not, releases and resets from a pool in zeroed memory, as long as every
  request is at least 128 KiB below the end of the number range, each region it holds is 8-aligned and lies
  inside the pool's buffer behind a header of its own, and no two of them, headers included, overlap. Above that
  bound the size computation wraps around and they can (\<open>mp_alloc_wraps\<close>).\<close>

theorem mp_regions_disjoint:
  assumes "mp_client m A"
  shows "(\<forall>(p, c) \<in> A. 8 dvd p \<and> mp_buf m + 24 \<le> p \<and> p + c \<le> mp_buf m + unat MP_SIZE) \<and>
    (\<forall>(p, c) \<in> A. \<forall>(q, d) \<in> A. (p, c) \<noteq> (q, d) \<longrightarrow> p + c \<le> q - 24 \<or> q + d \<le> p - 24)"
proof -
  obtain bs where bs: "mp_ready m bs" "mp_owns bs A" using mp_client_inv [OF assms(1)] by blast
  then have i: "mp_inv m bs" by (simp add: mp_ready_def)
  have own: "\<exists>s. 24 \<le> p \<and> (p - 24, s, False) \<in> set bs \<and> c + 24 \<le> s" if "(p, c) \<in> A" for p c
    using bs(2) that by (auto simp: mp_owns_def used_def)
  have "8 dvd p \<and> mp_buf m + 24 \<le> p \<and> p + c \<le> mp_buf m + unat MP_SIZE" if a: "(p, c) \<in> A" for p c
  proof -
    obtain s where s: "24 \<le> p" "(p - 24, s, False) \<in> set bs" "c + 24 \<le> s" using own [OF a] by blast
    have "8 dvd p - 24 + 24" using mp_inv_slot(6) [OF i s(2)] by (intro dvd_add) simp_all
    moreover have "mp_buf m + 24 \<le> p" "p + c \<le> mp_buf m + 65536" using mp_inv_slot(1-3) [OF i s(2)] s by linarith+
    ultimately show ?thesis using s(1) by (simp add: MP_SIZE_nat)
  qed
  moreover have "p + c \<le> q - 24 \<or> q + d \<le> p - 24" if a: "(p, c) \<in> A" "(q, d) \<in> A" "(p, c) \<noteq> (q, d)" for p c q d
  proof -
    obtain s t where s: "24 \<le> p" "(p - 24, s, False) \<in> set bs" "c + 24 \<le> s" "24 \<le> q" "(q - 24, t, False) \<in> set bs" "d + 24 \<le> t"
      using own a by meson
    have "p \<noteq> q" using bs(2) a unfolding mp_owns_def by blast
    then have "p - 24 \<noteq> q - 24" using s(1,4) by simp
    then have "p - 24 + s \<le> q - 24 \<or> q - 24 + t \<le> p - 24"
      using tiles_disjoint_used [OF mp_inv_tiles [OF i] s(2,5)] by blast
    then show ?thesis using s by linarith
  qed
  ultimately show ?thesis by blast
qed

theorem mp_regions_disjoint_witness:
  "\<exists>m p q. mp_client m {(q, 100), (p, 100)} \<and> p \<noteq> q \<and> (p + 100 \<le> q - 24 \<or> q + 100 \<le> p - 24) \<and> 8 dvd p \<and> 8 dvd q"
proof -
  obtain m p q where m: "mp_client m {(q, 100), (p, 100)}" "p \<noteq> q" using mp_client_two by blast
  have "(p + 100 \<le> q - 24 \<or> q + 100 \<le> p - 24) \<and> 8 dvd p \<and> 8 dvd q"
    using mp_regions_disjoint [OF m(1)] m(2) by auto
  then show ?thesis using m by blast
qed

text \<open>C19: In every such state, one that holds nothing included, each call ends and is defined and leaves such a state: an
  allocation of either kind with a request at least 128 KiB below the end of the number range (the search and,
  for a split, the ordered insertion), the release of any region held and of NULL, and a reset.\<close>

theorem mp_client_progress:
  assumes "mp_client m A" "mp_req_ok cap"
  shows "(\<exists>m' ptr. mp_alloc m cap = Some (m', ptr) \<and> mp_calloc m cap = Some (m', ptr) \<and>
      mp_client m' (if ptr = 0 then A else insert (ptr, unat cap) A)) \<and>
    (\<forall>(p, c) \<in> A. \<exists>m'. mp_free m p = Some m' \<and> mp_client m' (A - {(p, c)})) \<and> mp_free m 0 = Some m \<and>
    (\<exists>m'. mp_reset m = Some m' \<and> mp_client m' {})"
proof (intro conjI)
  obtain bs where bs: "mp_ready m bs" "mp_owns bs A" using mp_client_inv [OF assms(1)] by blast
  obtain m' ptr where a: "mp_alloc m cap = Some (m', ptr)" using mp_alloc_cases [OF bs(1) assms(2)] by blast
  then show "\<exists>m' ptr. mp_alloc m cap = Some (m', ptr) \<and> mp_calloc m cap = Some (m', ptr) \<and>
      mp_client m' (if ptr = 0 then A else insert (ptr, unat cap) A)"
    using mp_calloc_alloc [OF bs(1) assms(2)] mp_client.alloc [OF assms a] by auto
  show "\<forall>(p, c) \<in> A. \<exists>m'. mp_free m p = Some m' \<and> mp_client m' (A - {(p, c)})" using mp_client_free [OF assms(1)] by blast
  show "mp_free m 0 = Some m" by (simp add: mp_free_def)
  show "\<exists>m'. mp_reset m = Some m' \<and> mp_client m' {}" using mp_reset_ready [OF bs(1)] mp_client.reset [OF assms(1)] by blast
qed

theorem mp_client_progress_witness:
  "(\<exists>m m' ptr. mp_client m {} \<and> mp_alloc m 100 = Some (m', ptr) \<and> (\<exists>m'. mp_reset m = Some m')) \<and>
   (\<exists>m p A. mp_client m A \<and> (p, 100) \<in> A \<and> (\<exists>m'. mp_free m p = Some m') \<and> (\<exists>m' ptr. mp_calloc m 100 = Some (m', ptr)))"
proof
  obtain m0 where m0: "mp_client m0 {}" using demo_init by blast
  then show "\<exists>m m' ptr. mp_client m {} \<and> mp_alloc m 100 = Some (m', ptr) \<and> (\<exists>m'. mp_reset m = Some m')"
    using mp_client_progress [OF m0 demo_req] by blast
  obtain m p q where m: "mp_client m {(q, 100), (p, 100)}" using mp_client_two by blast
  show "\<exists>m p A. mp_client m A \<and> (p, 100) \<in> A \<and> (\<exists>m'. mp_free m p = Some m') \<and> (\<exists>m' ptr. mp_calloc m 100 = Some (m', ptr))"
    using mp_client_progress [OF m demo_req] m
    by (intro exI [of _ m] exI [of _ p] exI [of _ "{(q, 100), (p, 100)}"]) auto
qed

text \<open>An allocation takes a free block when one is large enough, and then the buffer's used part
  does not grow; otherwise it carves a block of exactly the rounded size from the rest of the
  buffer when that fits, and otherwise returns NULL and changes nothing. Free blocks are not
  joined: NULL is returned also when adjacent free blocks together would be large enough.\<close>

theorem mp_alloc_spec:
  assumes "mp_ready m bs" "mp_req_ok cap"
  shows "if \<exists>p s. (p, s, True) \<in> set bs \<and> blk_size (unat cap) \<le> s
    then \<exists>m' bs' p s. mp_alloc m cap = Some (m', p + 24) \<and> mp_ready m' bs' \<and> p \<in> set (free_addrs bs) \<and>
      blk_size (unat cap) \<le> s \<and> used bs' = insert (p, s) (used bs) \<and> mp_off m' = mp_off m
    else if unat (mp_off m) + blk_size (unat cap) \<le> 65536
    then \<exists>m'. mp_alloc m cap = Some (m', mp_buf m + unat (mp_off m) + 24) \<and>
      mp_ready m' (bs @ [(mp_buf m + unat (mp_off m), blk_size (unat cap), False)])
    else mp_alloc m cap = Some (m, 0)"
proof -
  have i: "mp_inv m bs" using assms(1) by (simp add: mp_ready_def)
  let ?f = "find (\<lambda>x. MP_BLOCK_HEADER_SIZE + MP_ALIGN_UP cap \<le> mp_sz m x) (free_addrs bs)"
  show ?thesis
  proof (cases ?f)
    case None
    then have n: "\<not> (\<exists>p s. (p, s, True) \<in> set bs \<and> blk_size (unat cap) \<le> s)"
      using mp_fits_iff [OF i assms(2)] by simp
    show ?thesis unfolding if_not_P [OF n]
      using mp_alloc_none [OF assms None] mp_alloc_fresh [OF assms None] by (auto simp: not_le)
  next
    case (Some p)
    then have "p \<in> set (free_addrs bs)" by (auto simp: find_Some_iff)
    moreover have y: "\<exists>p s. (p, s, True) \<in> set bs \<and> blk_size (unat cap) \<le> s"
      using mp_fits_iff [OF i assms(2)] Some by simp
    ultimately show ?thesis unfolding if_P [OF y] using mp_alloc_found [OF assms Some] by blast
  qed
qed

theorem mp_alloc_spec_witness:
  "\<exists>m m'. mp_ready m [] \<and> mp_alloc m 100 = Some (m', 104) \<and> mp_ready m' [(80, 128, False)]"
proof -
  obtain m where m: "mp_ready m []" "mp_root m = 64" using demo_init by blast
  have "mp_off m = 0" using m(1) by (simp add: mp_ready_def mp_inv_def unsigned_eq_0_iff)
  then show ?thesis using mp_alloc_spec [OF m(1) demo_req] m by (auto simp: blk_size_def mp_buf_def)
qed

text \<open>Releasing a region that is in use makes its block, and no other, free again, and the next
  request of at most that size is then served.\<close>

theorem mp_free_spec:
  assumes "mp_ready m (pre @ (p, s, False) # post)" "mp_req_ok cap" "blk_size (unat cap) \<le> s"
  shows "\<exists>m'. mp_free m (p + 24) = Some m' \<and> mp_ready m' (pre @ (p, s, True) # post) \<and> mp_off m' = mp_off m \<and>
    (\<exists>m'' ptr. mp_alloc m' cap = Some (m'', ptr) \<and> ptr \<noteq> 0)"
proof -
  let ?bs = "pre @ (p, s, True) # post"
  obtain m' where m': "mp_free m (p + 24) = Some m'" "mp_ready m' ?bs" "mp_off m' = mp_off m"
    using mp_free_block [OF assms(1)] by blast
  have i: "mp_inv m' ?bs" using m'(2) by (simp add: mp_ready_def)
  have "find (\<lambda>x. MP_BLOCK_HEADER_SIZE + MP_ALIGN_UP cap \<le> mp_sz m' x) (free_addrs ?bs) \<noteq> None"
    using mp_fits_iff [OF i assms(2)] assms(3) by auto
  then obtain q where "find (\<lambda>x. MP_BLOCK_HEADER_SIZE + MP_ALIGN_UP cap \<le> mp_sz m' x) (free_addrs ?bs) = Some q"
    by blast
  from mp_alloc_found [OF m'(2) assms(2) this] have "\<exists>m'' ptr. mp_alloc m' cap = Some (m'', ptr) \<and> ptr \<noteq> 0" by fastforce
  then show ?thesis using m' by blast
qed

theorem mp_free_spec_witness:
  "\<exists>m m' m'' ptr. mp_ready m [(80, 128, False)] \<and> mp_free m 104 = Some m' \<and> mp_alloc m' 100 = Some (m'', ptr) \<and> ptr \<noteq> 0"
proof -
  obtain m0 where m: "mp_ready m0 []" "mp_root m0 = 64" using demo_init by blast
  have "mp_off m0 = 0" using m(1) by (simp add: mp_ready_def mp_inv_def unsigned_eq_0_iff)
  then obtain m1 where m1: "mp_ready m1 ([] @ (80, 128, False) # [])"
    using mp_alloc_fresh [OF m(1) demo_req] m(2) by (auto simp: blk_size_def mp_buf_def)
  have "blk_size (unat (100 :: usz)) \<le> 128" by (simp add: blk_size_def)
  from mp_free_spec [OF m1 demo_req this] show ?thesis using m1 by auto
qed

text \<open>Near the end of the number range the size computation wraps around: on a fresh pool a
  request of \<open>SIZE_MAX\<close> bytes succeeds with a block that is only a header, \<open>mp_calloc\<close> of the
  same size then clears memory behind the buffer, and once a block of 32 bytes is in use a
  request of \<open>SIZE_MAX - 47\<close> bytes succeeds and moves the end of the used part back into it.\<close>

theorem mp_alloc_wraps:
  assumes "mp_ready m []" "mp_ready m1 [(mp_buf m1, 32, False)]"
  shows "(\<exists>m'. mp_alloc m (- 1) = Some (m', mp_buf m + 24) \<and> mp_ready m' [(mp_buf m, 24, False)]) \<and>
    mp_calloc m (- 1) = None \<and>
    (\<exists>m'. mp_alloc m1 (- 48) = Some (m', mp_buf m1 + 56) \<and> unat (mp_off m1) = 32 \<and> unat (mp_off m') = 8)"
proof (intro conjI)
  have i: "mp_inv m []" and o: "mp_off m = 0"
    using assms(1) by (simp_all add: mp_ready_def mp_inv_def unsigned_eq_0_iff)
  have w: "MP_BLOCK_HEADER_SIZE + MP_ALIGN_UP (- 1) = of_nat 24" by (simp add: MP_ALIGN_UP_def MP_ALIGN_def)
  obtain m' where m': "mp_alloc m (- 1) = Some (m', mp_buf m + 24)" "mp_ready m' [(mp_buf m, 24, False)]" "mp_root m' = mp_root m"
    using mp_alloc_carve [OF assms(1) w] o by auto
  then show "\<exists>m'. mp_alloc m (- 1) = Some (m', mp_buf m + 24) \<and> mp_ready m' [(mp_buf m, 24, False)]" by blast
  show "mp_calloc m (- 1) = None"
  proof -
    have "unat (- 1 :: usz) = 2 ^ 64 - 1" by (simp add: unsigned_minus_1_eq_mask mask_eq_exp_minus_1)
    then show ?thesis using m'(1,3) by (simp add: mp_calloc_def mp_buf_def MP_SIZE_nat)
  qed
  have i1: "mp_inv m1 [(mp_buf m1, 32, False)]" and l1: "mp_lock m1 = 0" using assms(2) by (simp_all add: mp_ready_def)
  have o1: "unat (mp_off m1) = 32" using i1 by (auto simp: mp_inv_def)
  then have o1': "mp_off m1 = 32" by (simp add: word_unat_eq_iff)
  have w1: "MP_ALIGN_UP (- 48) = - 48" by (simp add: MP_ALIGN_UP_def MP_ALIGN_def)
  obtain nd where s: "get_next (mp_heap m1) (mp_root m1) = Some nd" "mp_find m1 MP_FUEL nd (- 24) = Some None"
    using mp_alloc_search [OF i1, of "- 24"] by auto
  have "mp_buf m1 + 32 \<in> mp_slots (mp_root m1)"
    using i1 by (auto simp: mp_slots_def mp_buf_def mp_inv_def mp_mem_def)
  then have "mp_buf m1 + 32 \<in> live (mp_heap m1)" using i1 by (auto simp: mp_inv_def mp_mem_def)
  then show "\<exists>m'. mp_alloc m1 (- 48) = Some (m', mp_buf m1 + 56) \<and> unat (mp_off m1) = 32 \<and> unat (mp_off m') = 8"
    using s l1 o1' w1
    by (simp add: mp_alloc_def spin_lock_def spin_unlock_def mp_find_lock mp_set_size_live Let_def MP_SIZE_def)
qed

theorem mp_alloc_wraps_witness:
  "\<exists>m m1 m'. mp_ready m [] \<and> mp_ready m1 [(mp_buf m1, 32, False)] \<and> mp_alloc m (- 1) = Some (m', 104)"
proof -
  obtain m0 where m: "mp_ready m0 []" "mp_root m0 = 64" using demo_init by blast
  have o: "mp_off m0 = 0" using m(1) by (simp add: mp_ready_def mp_inv_def unsigned_eq_0_iff)
  have c: "mp_req_ok 8" by (simp add: mp_req_ok_def)
  obtain m1 where "mp_ready m1 [(mp_buf m0, 32, False)]" "mp_root m1 = mp_root m0"
    using mp_alloc_fresh [OF m(1) c] o by (auto simp: blk_size_def)
  then have m1: "mp_ready m1 [(mp_buf m1, 32, False)]" by (simp add: mp_buf_def)
  have "mp_buf m0 + 24 = 104" using m(2) by (simp add: mp_buf_def)
  then show ?thesis using mp_alloc_wraps [OF m(1) m1] m(1) m1 by auto
qed

end
