(* ===== verification/Rb_Heap.thy ===== *)
theory Rb_Heap
  imports Ava_Prelude
begin

section \<open>The red-black tree: data and operations (ds/rbtree.h)\<close>

text \<open>
  Nodes live in a heap from addresses to \<open>rb_node_t\<close>; the word \<open>rb_parent_color\<close> holds the parent's
  address with the colour in the low bits, as in the code. Reading or writing a field of NULL or of
  an address without a node is undefined. A state is the heap and the root's pointer.

  The code writes each rebalancing step twice, once per side, with left and right exchanged. The
  model has one definition with the side as a parameter: \<open>Lft\<close> gives the first branch and \<open>Rgt\<close>
  the second. The while loops carry a bound on their rounds.
\<close>

subsection \<open>Nodes\<close>

datatype rb_color_e = RB_RED | RB_BLACK

fun rb_color_val :: "rb_color_e \<Rightarrow> usz" where
  "rb_color_val RB_RED = 0"
| "rb_color_val RB_BLACK = 1"

type_synonym rptr = usz

record rb_node_t =
  rb_parent_color :: usz
  rb_right :: rptr
  rb_left :: rptr

type_synonym rheap = "rptr \<Rightarrow> rb_node_t option"

record rb_root_t =
  rb_node :: rptr
  rb_heap :: rheap

datatype side = Lft | Rgt

fun opp :: "side \<Rightarrow> side" where
  "opp Lft = Rgt"
| "opp Rgt = Lft"

lemma opp_opp [simp]: "opp (opp d) = d"
  by (cases d) simp_all

text \<open>Where \<open>rb_link\<close> of \<open>rb_link_node\<close> points: the root, or a child field of a node.\<close>

datatype rb_slot = RootSlot | ChildSlot side rptr

definition rb_deref :: "rb_root_t \<Rightarrow> rptr \<Rightarrow> rb_node_t option" where
  "rb_deref s p = (if p = 0 then None else rb_heap s p)"

definition rb_store :: "rb_root_t \<Rightarrow> rptr \<Rightarrow> (rb_node_t \<Rightarrow> rb_node_t) \<Rightarrow> rb_root_t option" where
  "rb_store s p f = map_option (\<lambda>n. s\<lparr>rb_heap := (rb_heap s)(p \<mapsto> f n)\<rparr>) (rb_deref s p)"

definition rb_child :: "side \<Rightarrow> rb_root_t \<Rightarrow> rptr \<Rightarrow> rptr option" where
  "rb_child d s p = map_option (\<lambda>n. if d = Lft then rb_left n else rb_right n) (rb_deref s p)"

definition rb_set_child :: "side \<Rightarrow> rb_root_t \<Rightarrow> rptr \<Rightarrow> rptr \<Rightarrow> rb_root_t option" where
  "rb_set_child d s p v =
     rb_store s p (\<lambda>n. if d = Lft then n\<lparr>rb_left := v\<rparr> else n\<lparr>rb_right := v\<rparr>)"

subsection \<open>Parent and colour\<close>

definition pc_parent :: "usz \<Rightarrow> rptr" where
  "pc_parent w = w AND NOT 3"

definition pc_color :: "usz \<Rightarrow> rb_color_e" where
  "pc_color w = (if w AND 1 = 0 then RB_RED else RB_BLACK)"

definition rb_get_parent :: "rb_root_t \<Rightarrow> rptr \<Rightarrow> rptr option" where
  "rb_get_parent s p = map_option (\<lambda>n. pc_parent (rb_parent_color n)) (rb_deref s p)"

definition rb_set_parent :: "rb_root_t \<Rightarrow> rptr \<Rightarrow> rptr \<Rightarrow> rb_root_t option" where
  "rb_set_parent s p parent =
     rb_store s p (\<lambda>n. n\<lparr>rb_parent_color := parent OR (rb_parent_color n AND 3)\<rparr>)"

definition rb_get_color :: "rb_root_t \<Rightarrow> rptr \<Rightarrow> rb_color_e option" where
  "rb_get_color s p = map_option (\<lambda>n. pc_color (rb_parent_color n)) (rb_deref s p)"

definition rb_set_color :: "rb_root_t \<Rightarrow> rptr \<Rightarrow> rb_color_e \<Rightarrow> rb_root_t option" where
  "rb_set_color s p c =
     rb_store s p (\<lambda>n. n\<lparr>rb_parent_color := (rb_parent_color n AND NOT 1) OR rb_color_val c\<rparr>)"

definition rb_is_red :: "rb_root_t \<Rightarrow> rptr \<Rightarrow> bool option" where
  "rb_is_red s p = map_option (\<lambda>c. c = RB_RED) (rb_get_color s p)"

definition rb_is_black :: "rb_root_t \<Rightarrow> rptr \<Rightarrow> bool option" where
  "rb_is_black s p = map_option (\<lambda>c. c = RB_BLACK) (rb_get_color s p)"

definition rb_set_red :: "rb_root_t \<Rightarrow> rptr \<Rightarrow> rb_root_t option" where
  "rb_set_red s p = rb_set_color s p RB_RED"

definition rb_set_black :: "rb_root_t \<Rightarrow> rptr \<Rightarrow> rb_root_t option" where
  "rb_set_black s p = rb_set_color s p RB_BLACK"

definition rb_is_unlinked :: "rb_root_t \<Rightarrow> rptr \<Rightarrow> bool option" where
  "rb_is_unlinked s p = map_option (\<lambda>n. rb_parent_color n = p) (rb_deref s p)"

definition rb_link_node :: "rb_root_t \<Rightarrow> rptr \<Rightarrow> rptr \<Rightarrow> rb_slot \<Rightarrow> rb_root_t option" where
  "rb_link_node s node parent link = do {
     s \<leftarrow> rb_store s node (\<lambda>n. n\<lparr>rb_parent_color := parent\<rparr>);
     s \<leftarrow> rb_set_child Rgt s node 0;
     s \<leftarrow> rb_set_child Lft s node 0;
     case link of
       RootSlot \<Rightarrow> Some (s\<lparr>rb_node := node\<rparr>)
     | ChildSlot d p \<Rightarrow> rb_set_child d s p node }"

subsection \<open>Rotations\<close>

text \<open>\<open>rb_rotate Lft\<close> is \<open>rb_rotate_left\<close>, \<open>rb_rotate Rgt\<close> is \<open>rb_rotate_right\<close>. The last part puts
  \<open>up\<close> in the place of \<open>node\<close> under its parent.\<close>

definition rb_replace_in_parent :: "side \<Rightarrow> rb_root_t \<Rightarrow> rptr \<Rightarrow> rptr \<Rightarrow> rptr \<Rightarrow> rb_root_t option" where
  "rb_replace_in_parent d s parent node up =
     (if parent \<noteq> 0
      then do {
        c \<leftarrow> rb_child d s parent;
        if node = c then rb_set_child d s parent up else rb_set_child (opp d) s parent up }
      else Some (s\<lparr>rb_node := up\<rparr>))"

definition rb_rotate :: "side \<Rightarrow> rb_root_t \<Rightarrow> rptr \<Rightarrow> rb_root_t option" where
  "rb_rotate d s node = do {
     up \<leftarrow> rb_child (opp d) s node;
     parent \<leftarrow> rb_get_parent s node;
     m \<leftarrow> rb_child d s up;
     s \<leftarrow> rb_set_child (opp d) s node m;
     s \<leftarrow> (if m \<noteq> 0 then rb_set_parent s m node else Some s);
     s \<leftarrow> rb_set_child d s up node;
     s \<leftarrow> rb_set_parent s up parent;
     s \<leftarrow> rb_replace_in_parent d s parent node up;
     rb_set_parent s node up }"

definition rb_rotate_left :: "rb_root_t \<Rightarrow> rptr \<Rightarrow> rb_root_t option" where
  "rb_rotate_left s node = rb_rotate Lft s node"

definition rb_rotate_right :: "rb_root_t \<Rightarrow> rptr \<Rightarrow> rb_root_t option" where
  "rb_rotate_right s node = rb_rotate Rgt s node"

subsection \<open>Insertion\<close>

fun rb_insert_loop :: "nat \<Rightarrow> rb_root_t \<Rightarrow> rptr \<Rightarrow> rb_root_t option" where
  "rb_insert_loop 0 s node = None"
| "rb_insert_loop (Suc k) s node = do {
     parent \<leftarrow> rb_get_parent s node;
     red \<leftarrow> (if parent \<noteq> 0 then rb_is_red s parent else Some False);
     if \<not> red then Some s
     else do {
       gparent \<leftarrow> rb_get_parent s parent;
       gl \<leftarrow> rb_child Lft s gparent;
       let d = (if parent = gl then Lft else Rgt);
       uncle \<leftarrow> rb_child (opp d) s gparent;
       ured \<leftarrow> (if uncle \<noteq> 0 then rb_is_red s uncle else Some False);
       if ured
       then do {
         s \<leftarrow> rb_set_black s uncle;
         s \<leftarrow> rb_set_black s parent;
         s \<leftarrow> rb_set_red s gparent;
         rb_insert_loop k s gparent }
       else do {
         inner \<leftarrow> rb_child (opp d) s parent;
         (s, parent, node) \<leftarrow>
           (if inner = node then do { s \<leftarrow> rb_rotate d s parent; Some (s, node, parent) }
            else Some (s, parent, node));
         s \<leftarrow> rb_set_black s parent;
         s \<leftarrow> rb_set_red s gparent;
         s \<leftarrow> rb_rotate (opp d) s gparent;
         rb_insert_loop k s node } } }"

definition rb_insert_color :: "nat \<Rightarrow> rb_root_t \<Rightarrow> rptr \<Rightarrow> rb_root_t option" where
  "rb_insert_color fuel s node = do {
     s \<leftarrow> rb_insert_loop fuel s node;
     rb_set_black s (rb_node s) }"

subsection \<open>Removal\<close>

definition rb_null_or_black :: "rb_root_t \<Rightarrow> rptr \<Rightarrow> bool option" where
  "rb_null_or_black s p = (if p = 0 then Some True else rb_is_black s p)"

text \<open>The part of the loop body after the sibling is known to be black and to have a red child: at
  most two rotations, and the loop is left.\<close>

definition rb_erase_last :: "side \<Rightarrow> rb_root_t \<Rightarrow> rptr \<Rightarrow> rptr \<Rightarrow> rb_root_t option" where
  "rb_erase_last d s parent sibling = do {
     outer \<leftarrow> rb_child (opp d) s sibling;
     ob \<leftarrow> rb_null_or_black s outer;
     (s, sibling) \<leftarrow>
       (if ob
        then do {
          inner \<leftarrow> rb_child d s sibling;
          s \<leftarrow> rb_set_black s inner;
          s \<leftarrow> rb_set_red s sibling;
          s \<leftarrow> rb_rotate (opp d) s sibling;
          sibling \<leftarrow> rb_child (opp d) s parent;
          Some (s, sibling) }
        else Some (s, sibling));
     c \<leftarrow> rb_get_color s parent;
     s \<leftarrow> rb_set_color s sibling c;
     s \<leftarrow> rb_set_black s parent;
     outer \<leftarrow> rb_child (opp d) s sibling;
     s \<leftarrow> rb_set_black s outer;
     rb_rotate d s parent }"

text \<open>A red sibling is turned into a black one first.\<close>

definition rb_erase_sibling :: "side \<Rightarrow> rb_root_t \<Rightarrow> rptr \<Rightarrow> (rb_root_t \<times> rptr) option" where
  "rb_erase_sibling d s parent = do {
     sibling \<leftarrow> rb_child (opp d) s parent;
     red \<leftarrow> rb_is_red s sibling;
     if red
     then do {
       s \<leftarrow> rb_set_black s sibling;
       s \<leftarrow> rb_set_red s parent;
       s \<leftarrow> rb_rotate d s parent;
       sibling \<leftarrow> rb_child (opp d) s parent;
       Some (s, sibling) }
     else Some (s, sibling) }"

fun rb_erase_loop :: "nat \<Rightarrow> rb_root_t \<Rightarrow> rptr \<Rightarrow> rptr \<Rightarrow> (rb_root_t \<times> rptr) option" where
  "rb_erase_loop 0 s node parent = None"
| "rb_erase_loop (Suc k) s node parent = do {
     b \<leftarrow> rb_null_or_black s node;
     if \<not> (b \<and> node \<noteq> rb_node s) then Some (s, node)
     else do {
       l \<leftarrow> rb_child Lft s parent;
       let d = (if l = node then Lft else Rgt);
       (s, sibling) \<leftarrow> rb_erase_sibling d s parent;
       sl \<leftarrow> rb_child Lft s sibling;
       bl \<leftarrow> rb_null_or_black s sl;
       br \<leftarrow> (if bl then do { sr \<leftarrow> rb_child Rgt s sibling; rb_null_or_black s sr } else Some False);
       if br
       then do {
         s \<leftarrow> rb_set_red s sibling;
         up \<leftarrow> rb_get_parent s parent;
         rb_erase_loop k s parent up }
       else do {
         s \<leftarrow> rb_erase_last d s parent sibling;
         Some (s, rb_node s) } } }"

definition rb_erase_color :: "nat \<Rightarrow> rb_root_t \<Rightarrow> rptr \<Rightarrow> rptr \<Rightarrow> rb_root_t option" where
  "rb_erase_color fuel s node parent = do {
     (s, node) \<leftarrow> rb_erase_loop fuel s node parent;
     if node \<noteq> 0 then rb_set_black s node else Some s }"

text \<open>\<open>while ((left = node->rb_left)) node = left;\<close> and its mirror image.\<close>

fun rb_descend :: "side \<Rightarrow> nat \<Rightarrow> rb_root_t \<Rightarrow> rptr \<Rightarrow> rptr option" where
  "rb_descend d 0 s n = None"
| "rb_descend d (Suc k) s n = do {
     c \<leftarrow> rb_child d s n;
     if c \<noteq> 0 then rb_descend d k s c else Some n }"

text \<open>Unlinking a node with at most one child, and the splice of the successor of a node with two;
  both give the child that moved up, its parent and the colour that was taken out.\<close>

definition rb_unlink_one :: "rb_root_t \<Rightarrow> rptr \<Rightarrow> rptr \<Rightarrow> (rb_root_t \<times> rptr \<times> rb_color_e) option" where
  "rb_unlink_one s node child = do {
     parent \<leftarrow> rb_get_parent s node;
     color \<leftarrow> rb_get_color s node;
     s \<leftarrow> (if child \<noteq> 0 then rb_set_parent s child parent else Some s);
     s \<leftarrow> rb_replace_in_parent Lft s parent node child;
     Some (s, parent, color) }"

definition rb_unlink_two :: "nat \<Rightarrow> rb_root_t \<Rightarrow> rptr \<Rightarrow> (rb_root_t \<times> rptr \<times> rptr \<times> rb_color_e) option" where
  "rb_unlink_two fuel s old = do {
     r \<leftarrow> rb_child Rgt s old;
     node \<leftarrow> rb_descend Lft fuel s r;
     child \<leftarrow> rb_child Rgt s node;
     parent \<leftarrow> rb_get_parent s node;
     color \<leftarrow> rb_get_color s node;
     s \<leftarrow> (if child \<noteq> 0 then rb_set_parent s child parent else Some s);
     (s, parent) \<leftarrow>
       (if parent = old then do { s \<leftarrow> rb_set_child Rgt s parent child; Some (s, node) }
        else do { s \<leftarrow> rb_set_child Lft s parent child; Some (s, parent) });
     o1 \<leftarrow> rb_deref s old;
     s \<leftarrow> rb_store s node (\<lambda>n. n\<lparr>rb_parent_color := rb_parent_color o1\<rparr>);
     s \<leftarrow> rb_set_child Lft s node (rb_left o1);
     s \<leftarrow> rb_set_child Rgt s node (rb_right o1);
     op \<leftarrow> rb_get_parent s old;
     s \<leftarrow> rb_replace_in_parent Lft s op old node;
     l \<leftarrow> rb_child Lft s old;
     s \<leftarrow> rb_set_parent s l node;
     r \<leftarrow> rb_child Rgt s old;
     s \<leftarrow> (if r \<noteq> 0 then rb_set_parent s r node else Some s);
     Some (s, child, parent, color) }"

definition rb_erase :: "nat \<Rightarrow> rb_root_t \<Rightarrow> rptr \<Rightarrow> rb_root_t option" where
  "rb_erase fuel s node = do {
     l \<leftarrow> rb_child Lft s node;
     r \<leftarrow> rb_child Rgt s node;
     (s, child, parent, color) \<leftarrow>
       (if l = 0 then do { (s, parent, color) \<leftarrow> rb_unlink_one s node r; Some (s, r, parent, color) }
        else if r = 0 then do { (s, parent, color) \<leftarrow> rb_unlink_one s node l; Some (s, l, parent, color) }
        else rb_unlink_two fuel s node);
     if color = RB_BLACK then rb_erase_color fuel s child parent else Some s }"

subsection \<open>Traversal\<close>

definition rb_end :: "side \<Rightarrow> nat \<Rightarrow> rb_root_t \<Rightarrow> rptr option" where
  "rb_end d fuel s = (if rb_node s = 0 then Some 0 else rb_descend d fuel s (rb_node s))"

definition rb_first :: "nat \<Rightarrow> rb_root_t \<Rightarrow> rptr option" where
  "rb_first fuel s = rb_end Lft fuel s"

definition rb_last :: "nat \<Rightarrow> rb_root_t \<Rightarrow> rptr option" where
  "rb_last fuel s = rb_end Rgt fuel s"

text \<open>\<open>while (parent && node == parent->child)\<close> with \<open>child\<close> on side \<open>d\<close>.\<close>

fun rb_climb :: "side \<Rightarrow> nat \<Rightarrow> rb_root_t \<Rightarrow> rptr \<Rightarrow> rptr \<Rightarrow> rptr option" where
  "rb_climb d 0 s node parent = None"
| "rb_climb d (Suc k) s node parent =
     (if parent = 0 then Some 0
      else do {
        c \<leftarrow> rb_child d s parent;
        if node = c then do { up \<leftarrow> rb_get_parent s parent; rb_climb d k s parent up }
        else Some parent })"

definition rb_step :: "side \<Rightarrow> nat \<Rightarrow> rb_root_t \<Rightarrow> rptr \<Rightarrow> rptr option" where
  "rb_step d fuel s node = do {
     c \<leftarrow> rb_child d s node;
     if c \<noteq> 0 then rb_descend (opp d) fuel s c
     else do { parent \<leftarrow> rb_get_parent s node; rb_climb d fuel s node parent } }"

definition rb_next :: "nat \<Rightarrow> rb_root_t \<Rightarrow> rptr \<Rightarrow> rptr option" where
  "rb_next fuel s node = rb_step Rgt fuel s node"

definition rb_prev :: "nat \<Rightarrow> rb_root_t \<Rightarrow> rptr \<Rightarrow> rptr option" where
  "rb_prev fuel s node = rb_step Lft fuel s node"

end
