(* ===== verification/Rb_Tree.thy ===== *)
theory Rb_Tree
  imports Rb_Heap
begin

section \<open>The red-black tree: what a heap represents\<close>

text \<open>
  A tree is represented by the nodes reachable from a pointer; a place inside a tree is the
  path from there to the root, with the subtrees that hang off it. The lemmas describe the
  accessors on represented trees and the rotations.
\<close>

subsection \<open>Views of the heap\<close>

definition rlive :: "rb_root_t \<Rightarrow> rptr set" where
  "rlive s = {p. p \<noteq> 0 \<and> rb_heap s p \<noteq> None}"

definition rk :: "rb_root_t \<Rightarrow> side \<Rightarrow> rptr \<Rightarrow> rptr" where
  "rk s d p = (if d = Lft then rb_left (the (rb_heap s p)) else rb_right (the (rb_heap s p)))"

definition rp :: "rb_root_t \<Rightarrow> rptr \<Rightarrow> rptr" where
  "rp s p = pc_parent (rb_parent_color (the (rb_heap s p)))"

definition rc :: "rb_root_t \<Rightarrow> rptr \<Rightarrow> rb_color_e" where
  "rc s p = pc_color (rb_parent_color (the (rb_heap s p)))"

text \<open>Node addresses leave the two low bits free.\<close>

definition al :: "rptr \<Rightarrow> bool" where
  "al p \<longleftrightarrow> p AND 3 = 0"

lemma al_0 [simp]: "al 0"
  by (simp add: al_def)

definition kset :: "(side \<Rightarrow> rptr \<Rightarrow> rptr) \<Rightarrow> side \<Rightarrow> rptr \<Rightarrow> rptr \<Rightarrow> side \<Rightarrow> rptr \<Rightarrow> rptr" where
  "kset K d p v = (\<lambda>e q. if e = d \<and> q = p then v else K e q)"

definition upd :: "rb_root_t \<Rightarrow> rptr \<Rightarrow> (rb_node_t \<Rightarrow> rb_node_t) \<Rightarrow> rb_root_t" where
  "upd s p f = s\<lparr>rb_heap := (rb_heap s)(p \<mapsto> f (the (rb_heap s p)))\<rparr>"

definition uchild :: "side \<Rightarrow> rb_root_t \<Rightarrow> rptr \<Rightarrow> rptr \<Rightarrow> rb_root_t" where
  "uchild d s p v = upd s p (\<lambda>n. if d = Lft then n\<lparr>rb_left := v\<rparr> else n\<lparr>rb_right := v\<rparr>)"

definition uparent :: "rb_root_t \<Rightarrow> rptr \<Rightarrow> rptr \<Rightarrow> rb_root_t" where
  "uparent s p v = upd s p (\<lambda>n. n\<lparr>rb_parent_color := v OR (rb_parent_color n AND 3)\<rparr>)"

definition ucolor :: "rb_root_t \<Rightarrow> rptr \<Rightarrow> rb_color_e \<Rightarrow> rb_root_t" where
  "ucolor s p c = upd s p (\<lambda>n. n\<lparr>rb_parent_color := (rb_parent_color n AND NOT 1) OR rb_color_val c\<rparr>)"

lemma rget_live [simp]:
  assumes "p \<in> rlive s"
  shows "rb_child d s p = Some (rk s d p)" "rb_get_parent s p = Some (rp s p)"
    "rb_get_color s p = Some (rc s p)" "rb_is_red s p = Some (rc s p = RB_RED)"
    "rb_is_black s p = Some (rc s p = RB_BLACK)"
  using assms by (auto simp: rlive_def rb_child_def rb_get_parent_def rb_get_color_def rb_is_red_def
      rb_is_black_def rb_deref_def rk_def rp_def rc_def)

lemma rset_live [simp]:
  assumes "p \<in> rlive s"
  shows "rb_set_child d s p v = Some (uchild d s p v)" "rb_set_parent s p v = Some (uparent s p v)"
    "rb_set_color s p c = Some (ucolor s p c)" "rb_set_red s p = Some (ucolor s p RB_RED)"
    "rb_set_black s p = Some (ucolor s p RB_BLACK)"
  using assms by (auto simp: rlive_def rb_set_child_def rb_set_parent_def rb_set_color_def rb_set_red_def
      rb_set_black_def rb_store_def rb_deref_def uchild_def uparent_def ucolor_def upd_def)

lemma rlive_upd: "p \<in> rlive s \<Longrightarrow> rlive (upd s p f) = rlive s"
  by (auto simp: rlive_def upd_def)

lemma rlive_u [simp]:
  "p \<in> rlive s \<Longrightarrow> rlive (uchild d s p v) = rlive s"
  "p \<in> rlive s \<Longrightarrow> rlive (uparent s p v) = rlive s"
  "p \<in> rlive s \<Longrightarrow> rlive (ucolor s p c) = rlive s"
  by (simp_all add: uchild_def uparent_def ucolor_def rlive_upd)

lemma rb_node_u [simp]:
  "rb_node (uchild d s p v) = rb_node s" "rb_node (uparent s p v) = rb_node s" "rb_node (ucolor s p c) = rb_node s"
  by (simp_all add: uchild_def uparent_def ucolor_def upd_def)

lemma rb_root_views [simp]:
  "rlive (s\<lparr>rb_node := r\<rparr>) = rlive s" "rk (s\<lparr>rb_node := r\<rparr>) = rk s" "rp (s\<lparr>rb_node := r\<rparr>) = rp s" "rc (s\<lparr>rb_node := r\<rparr>) = rc s"
  by (simp_all add: rlive_def rk_def rp_def rc_def fun_eq_iff)

lemma bit_two_low: "bit (3 :: usz) n = (n < 2)"
proof -
  have "(3 :: usz) = mask 2" by (simp add: mask_eq_exp_minus_1)
  then show ?thesis by (simp only: bit_mask_iff) (auto simp: possible_bit_def)
qed

lemma bit_mask_words:
  "bit (- 4 :: usz) n = (n < 64 \<and> 2 \<le> n)" "bit (- 2 :: usz) n = (n < 64 \<and> 1 \<le> n)"
proof -
  have "(- 4 :: usz) = NOT 3" "(- 2 :: usz) = NOT 1" by simp_all
  then show "bit (- 4 :: usz) n = (n < 64 \<and> 2 \<le> n)" "bit (- 2 :: usz) n = (n < 64 \<and> 1 \<le> n)"
    by (simp_all only: bit_not_iff bit_two_low bit_1_iff) (auto simp: possible_bit_def)
qed

lemma al_bits: "al p = (\<not> bit p 0 \<and> \<not> bit p 1)"
proof
  assume a: "al p"
  have "\<not> bit p n" if "n < 2" for n
  proof -
    have "bit (p AND 3) n = bit (0 :: usz) n" using a by (simp only: al_def)
    then show ?thesis using that by (simp only: bit_and_iff bit_two_low) simp
  qed
  then show "\<not> bit p 0 \<and> \<not> bit p 1" by simp
next
  assume n: "\<not> bit p 0 \<and> \<not> bit p 1"
  show "al p" unfolding al_def
  proof (rule bit_word_eqI)
    fix k show "bit (p AND 3) k = bit 0 k"
      using n by (simp only: bit_and_iff bit_two_low bit_0_eq bot_apply bot_bool_def)
        (metis less_2_cases One_nat_def)
  qed
qed

lemmas word_bit_rules = bit_and_iff bit_or_iff bit_two_low bit_mask_words bit_1_iff

lemma not_low: "\<not> 2 \<le> (n :: nat) \<Longrightarrow> n = 0 \<or> n = 1"
  by arith

lemma pc_parent_set: "al v \<Longrightarrow> pc_parent (v OR (w AND 3)) = v"
  unfolding pc_parent_def
  by (rule bit_word_eqI) (auto simp: word_bit_rules al_bits simp del: bit_numeral_word_iff bit_neg_numeral_word_iff bit_0, metis not_low One_nat_def)

lemma pc_color_bit: "pc_color w = (if bit w 0 then RB_BLACK else RB_RED)"
  by (simp add: pc_color_def and_one_eq bit_0 mod_2_eq_odd)

lemma pc_color_set: "al v \<Longrightarrow> pc_color (v OR (w AND 3)) = pc_color w"
  by (simp add: pc_color_bit al_bits word_bit_rules del: bit_numeral_word_iff bit_neg_numeral_word_iff bit_0)

lemma pc_color_color: "pc_color ((w AND - 2) OR rb_color_val c) = c"
  by (cases c) (auto simp: pc_color_bit word_bit_rules simp del: bit_numeral_word_iff bit_neg_numeral_word_iff bit_0)

lemma pc_parent_color: "pc_parent ((w AND - 2) OR rb_color_val c) = pc_parent w"
  unfolding pc_parent_def
  by (cases c; rule bit_word_eqI) (auto simp: word_bit_rules simp del: bit_numeral_word_iff bit_neg_numeral_word_iff bit_0)

lemma views_uchild [simp]:
  "rk (uchild d s p v) = kset (rk s) d p v" "rp (uchild d s p v) = rp s" "rc (uchild d s p v) = rc s"
  by (auto simp: fun_eq_iff rk_def rp_def rc_def uchild_def upd_def kset_def; metis (full_types) side.exhaust)+

lemma views_uparent [simp]:
  "rk (uparent s p v) = rk s" "al v \<Longrightarrow> rp (uparent s p v) = (rp s)(p := v)" "al v \<Longrightarrow> rc (uparent s p v) = rc s"
  by (auto simp: fun_eq_iff rk_def rp_def rc_def uparent_def upd_def pc_parent_set pc_color_set)

lemma views_ucolor [simp]:
  "rk (ucolor s p c) = rk s" "rp (ucolor s p c) = rp s" "rc (ucolor s p c) = (rc s)(p := c)"
  by (auto simp: fun_eq_iff rk_def rp_def rc_def ucolor_def upd_def pc_parent_color pc_color_color)

subsection \<open>Trees and paths\<close>

datatype rtree = Tip | Bin rb_color_e rtree rptr rtree

fun nodes :: "rtree \<Rightarrow> rptr list" where
  "nodes Tip = []"
| "nodes (Bin c l a r) = nodes l @ a # nodes r"

fun tptr :: "rtree \<Rightarrow> rptr" where
  "tptr Tip = 0"
| "tptr (Bin c l a r) = a"

fun trep :: "(side \<Rightarrow> rptr \<Rightarrow> rptr) \<Rightarrow> (rptr \<Rightarrow> rptr) \<Rightarrow> (rptr \<Rightarrow> rb_color_e) \<Rightarrow> rtree \<Rightarrow> rptr \<Rightarrow> bool" where
  "trep K P C Tip q = True"
| "trep K P C (Bin c l a r) q \<longleftrightarrow> a \<noteq> 0 \<and> al a \<and> P a = q \<and> C a = c \<and> K Lft a = tptr l \<and> K Rgt a = tptr r \<and>
     trep K P C l a \<and> trep K P C r a"

text \<open>A step of a path: the side the hole is on, the node's colour and address, its other subtree.\<close>

type_synonym rpath = "(side \<times> rb_color_e \<times> rptr \<times> rtree) list"

fun bin :: "side \<Rightarrow> rb_color_e \<Rightarrow> rtree \<Rightarrow> rptr \<Rightarrow> rtree \<Rightarrow> rtree" where
  "bin Lft c x a y = Bin c x a y"
| "bin Rgt c x a y = Bin c y a x"

fun pptr :: "rpath \<Rightarrow> rptr" where
  "pptr [] = 0"
| "pptr ((d, c, a, t) # ps) = a"

fun crep :: "(side \<Rightarrow> rptr \<Rightarrow> rptr) \<Rightarrow> (rptr \<Rightarrow> rptr) \<Rightarrow> (rptr \<Rightarrow> rb_color_e) \<Rightarrow> rpath \<Rightarrow> rptr \<Rightarrow> rptr \<Rightarrow> bool" where
  "crep K P C [] p root \<longleftrightarrow> root = p"
| "crep K P C ((d, c, a, t) # ps) p root \<longleftrightarrow> a \<noteq> 0 \<and> al a \<and> K d a = p \<and> K (opp d) a = tptr t \<and> C a = c \<and>
     trep K P C t a \<and> P a = pptr ps \<and> crep K P C ps a root"

fun fill :: "rpath \<Rightarrow> rtree \<Rightarrow> rtree" where
  "fill [] t = t"
| "fill ((d, c, a, s) # ps) t = fill ps (bin d c t a s)"

fun pnodes :: "rpath \<Rightarrow> rptr list" where
  "pnodes [] = []"
| "pnodes ((d, c, a, t) # ps) = a # nodes t @ pnodes ps"

text \<open>\<open>rep s path t\<close>: the state holds the tree \<open>fill path t\<close>, and nothing is shared.\<close>

definition rep :: "rb_root_t \<Rightarrow> rpath \<Rightarrow> rtree \<Rightarrow> bool" where
  "rep s path t \<longleftrightarrow> distinct (pnodes path @ nodes t) \<and> set (pnodes path @ nodes t) \<subseteq> rlive s \<and>
     crep (rk s) (rp s) (rc s) path (tptr t) (rb_node s) \<and> trep (rk s) (rp s) (rc s) t (pptr path)"

lemma nodes_bin: "set (nodes (bin d c x a y)) = insert a (set (nodes x) \<union> set (nodes y))"
  by (cases d) auto

lemma distinct_bin:
  "distinct (nodes (bin d c x a y)) \<longleftrightarrow> distinct (nodes x) \<and> distinct (nodes y) \<and> a \<notin> set (nodes x) \<and>
     a \<notin> set (nodes y) \<and> set (nodes x) \<inter> set (nodes y) = {}"
  by (cases d) auto

lemma tptr_bin [simp]: "tptr (bin d c x a y) = a"
  by (cases d) simp_all

lemma bin_ne [simp]: "bin d c x a y \<noteq> Tip"
  by (cases d) simp_all

lemma trep_bin [simp]:
  "trep K P C (bin d c x a y) q \<longleftrightarrow> a \<noteq> 0 \<and> al a \<and> P a = q \<and> C a = c \<and> K d a = tptr x \<and> K (opp d) a = tptr y \<and>
     trep K P C x a \<and> trep K P C y a"
  by (cases d) auto

lemma bin_cases: "t = Tip \<or> (\<exists>c x a y. t = bin d c x a y)"
  by (cases t; cases d) (auto intro: bin.simps [symmetric])

lemma bin_Bin: "\<exists>x y. Bin c l a r = bin d c x a y"
  by (cases d) (auto intro: bin.simps [symmetric])

lemma kset_same [simp]: "kset K d p v d p = v"
  by (simp add: kset_def)

lemma kset_other [simp]: "e \<noteq> d \<or> q \<noteq> p \<Longrightarrow> kset K d p v e q = K e q"
  by (auto simp: kset_def)

lemma opp_neq [simp]: "opp d \<noteq> d" "d \<noteq> opp d"
  by (cases d; simp)+

lemma tptr_in: "t \<noteq> Tip \<Longrightarrow> tptr t \<in> set (nodes t)"
  by (cases t) simp_all

lemma trep_nz: "trep K P C t q \<Longrightarrow> (tptr t = 0) = (t = Tip)"
  by (cases t) simp_all

lemma trep_al: "trep K P C t q \<Longrightarrow> al (tptr t)"
  by (cases t) simp_all

lemma crep_al: "crep K P C path p root \<Longrightarrow> al (pptr path)"
  by (cases path) auto

text \<open>Fields of nodes outside a tree do not matter to it.\<close>

lemma trep_K [simp]: "a \<notin> set (nodes t) \<Longrightarrow> trep (kset K d a v) P C t q = trep K P C t q"
  by (induction t arbitrary: q) auto

lemma trep_P [simp]: "a \<notin> set (nodes t) \<Longrightarrow> trep K (P(a := v)) C t q = trep K P C t q"
  by (induction t arbitrary: q) auto

lemma trep_C [simp]: "a \<notin> set (nodes t) \<Longrightarrow> trep K P (C(a := v)) t q = trep K P C t q"
  by (induction t arbitrary: q) auto

lemma crep_K [simp]: "a \<notin> set (pnodes ps) \<Longrightarrow> crep (kset K d a v) P C ps p root = crep K P C ps p root"
  by (induction ps arbitrary: p) auto

lemma crep_P [simp]: "a \<notin> set (pnodes ps) \<Longrightarrow> crep K (P(a := v)) C ps p root = crep K P C ps p root"
  by (induction ps arbitrary: p) auto

lemma crep_C [simp]: "a \<notin> set (pnodes ps) \<Longrightarrow> crep K P (C(a := v)) ps p root = crep K P C ps p root"
  by (induction ps arbitrary: p) auto

text \<open>Hanging a tree under another parent.\<close>

lemma trep_reparent:
  "trep K P C t q \<Longrightarrow> distinct (nodes t) \<Longrightarrow> trep K (if tptr t = 0 then P else P(tptr t := q')) C t q'"
  by (cases t) auto

subsection \<open>Rotations\<close>

lemma child_kept:
  "crep K P C ((d, c, a, t) # ps) p root \<Longrightarrow> distinct (pnodes ((d, c, a, t) # ps)) \<Longrightarrow> p \<noteq> 0 \<Longrightarrow>
    p \<notin> set (pnodes ((d, c, a, t) # ps)) \<Longrightarrow> K (opp d) a \<noteq> p"
  by (cases t) auto

text \<open>Putting \<open>up\<close> in the place of \<open>node\<close> under its parent, or at the root.\<close>

definition hang :: "rb_root_t \<Rightarrow> rpath \<Rightarrow> rptr \<Rightarrow> rb_root_t" where
  "hang s path up = (case path of [] \<Rightarrow> s\<lparr>rb_node := up\<rparr> | (d, c, a, t) # ps \<Rightarrow> uchild d s a up)"

lemma rb_replace_in_parent_hang:
  assumes "crep (rk s) (rp s) (rc s) path p (rb_node s)" "set (pnodes path) \<subseteq> rlive s" "distinct (pnodes path)"
    "p \<noteq> 0" "p \<notin> set (pnodes path)"
  shows "rb_replace_in_parent d s (pptr path) p up = Some (hang s path up)"
proof (cases path)
  case Nil
  then show ?thesis by (simp add: rb_replace_in_parent_def hang_def)
next
  case (Cons f ps)
  obtain e c a t where f: "f = (e, c, a, t)" by (cases f)
  have k: "rk s (opp e) a \<noteq> p" using child_kept assms unfolding Cons f by metis
  have "a \<in> rlive s" "a \<noteq> 0" "rk s e a = p" using assms by (auto simp: Cons f)
  then show ?thesis using k by (cases d; cases e) (auto simp: rb_replace_in_parent_def hang_def Cons f)
qed

lemma hang_views [simp]:
  "rp (hang s path up) = rp s" "rc (hang s path up) = rc s"
  "set (pnodes path) \<subseteq> rlive s \<Longrightarrow> rlive (hang s path up) = rlive s"
  by (auto simp: hang_def split: list.splits)

lemma hang_trep [simp]:
  "pptr path \<notin> set (nodes t) \<Longrightarrow> trep (rk (hang s path up)) P C t q = trep (rk s) P C t q"
  by (auto simp: hang_def split: list.splits)

lemma hang_rk [simp]: "b \<noteq> pptr path \<Longrightarrow> rk (hang s path up) e b = rk s e b"
  by (auto simp: hang_def split: list.splits)

lemma hang_crep:
  assumes "crep (rk s) P C path p (rb_node s)" "distinct (pnodes path)"
  shows "crep (rk (hang s path up)) P C path up (rb_node (hang s path up))"
  using assms by (auto simp: hang_def split: list.splits)

lemma pptr_in: "path \<noteq> [] \<Longrightarrow> pptr path \<in> set (pnodes path)"
  by (cases path) auto

lemma crep_pptr_notin:
  "crep K P C path p root \<Longrightarrow> set (pnodes path) \<inter> A = {} \<Longrightarrow> 0 \<notin> A \<Longrightarrow> pptr path \<notin> A"
  by (cases path) auto

lemma trep_no_0: "trep K P C t q \<Longrightarrow> 0 \<notin> set (nodes t)"
  by (induction t arbitrary: q) auto

text \<open>The state after a rotation of \<open>node\<close> with \<open>up\<close> rising and \<open>m\<close> changing sides.\<close>

lemma rb_rotate_rep:
  assumes "rep s path (bin d cx A x (bin d cy B y C))"
  shows "\<exists>s'. rb_rotate d s x = Some s' \<and> rep s' path (bin d cy (bin d cx A x B) y C) \<and> rlive s' = rlive s"
proof -
  let ?K = "rk s" and ?P = "rp s" and ?C = "rc s" and ?q = "pptr path" and ?m = "tptr B"
  have r: "crep ?K ?P ?C path x (rb_node s)" "x \<noteq> 0" "al x" "?P x = ?q" "?C x = cx" "?K d x = tptr A"
    "?K (opp d) x = y" "trep ?K ?P ?C A x" "y \<noteq> 0" "al y" "?P y = x" "?C y = cy" "?K d y = ?m" "?K (opp d) y = tptr C"
    "trep ?K ?P ?C B y" "trep ?K ?P ?C C y"
    using assms by (auto simp: rep_def)
  have lv: "x \<in> rlive s" "y \<in> rlive s" "set (pnodes path) \<subseteq> rlive s" "?m \<noteq> 0 \<Longrightarrow> ?m \<in> rlive s"
    using assms trep_nz [OF r(15)] tptr_in [of B] by (auto simp: rep_def nodes_bin)
  have di: "distinct (pnodes path)" "distinct (nodes A)" "distinct (nodes B)" "distinct (nodes C)" "x \<noteq> y"
    "x \<notin> set (nodes A)" "x \<notin> set (nodes B)" "x \<notin> set (nodes C)" "y \<notin> set (nodes A)" "y \<notin> set (nodes B)" "y \<notin> set (nodes C)"
    "x \<notin> set (pnodes path)" "y \<notin> set (pnodes path)"
    "set (nodes A) \<inter> set (nodes B) = {}" "set (nodes A) \<inter> set (nodes C) = {}" "set (nodes B) \<inter> set (nodes C) = {}"
    "set (pnodes path) \<inter> set (nodes A) = {}" "set (pnodes path) \<inter> set (nodes B) = {}" "set (pnodes path) \<inter> set (nodes C) = {}"
    using assms by (auto simp: rep_def distinct_bin nodes_bin)
  have q: "?q \<notin> set (nodes A)" "?q \<notin> set (nodes B)" "?q \<notin> set (nodes C)" "?q \<noteq> x" "?q \<noteq> y" "al ?q"
    using crep_pptr_notin [OF r(1) di(17)] crep_pptr_notin [OF r(1) di(18)] crep_pptr_notin [OF r(1) di(19)]
      trep_no_0 [OF r(8)] trep_no_0 [OF r(15)] trep_no_0 [OF r(16)] di(12,13) r(2,9) pptr_in [of path] crep_al [OF r(1)]
    by (auto, (metis pptr.simps(1))+)
  have m: "?m \<noteq> 0 \<Longrightarrow> ?m \<in> set (nodes B)" using trep_nz [OF r(15)] tptr_in by auto
  define s2 where "s2 = (if ?m \<noteq> 0 then uparent (uchild (opp d) s x ?m) ?m x else uchild (opp d) s x ?m)"
  define s4 where "s4 = uparent (uchild d s2 y x) y ?q"
  define s6 where "s6 = uparent (hang s4 path y) x y"
  have s2: "rlive s2 = rlive s" "rk s2 = kset ?K (opp d) x ?m" "rp s2 = (if ?m = 0 then ?P else ?P(?m := x))"
    "rc s2 = ?C" "rb_node s2 = rb_node s"
    using lv r(3) by (simp_all add: s2_def)
  have s4: "rlive s4 = rlive s" "rk s4 = kset (kset ?K (opp d) x ?m) d y x"
    "rp s4 = (if ?m = 0 then ?P else ?P(?m := x))(y := ?q)" "rc s4 = ?C" "rb_node s4 = rb_node s"
    using lv q(6) by (simp_all add: s4_def s2)
  have c4: "crep (rk s4) (rp s4) (rc s4) path x (rb_node s4)"
  proof -
    have "?m \<noteq> 0 \<Longrightarrow> ?m \<notin> set (pnodes path)" using m di(18) by auto
    then show ?thesis using r(1) di(12,13) by (simp add: s4)
  qed
  have ok: "rb_rotate d s x = Some s6"
  proof -
    have "rb_replace_in_parent d s4 ?q x y = Some (hang s4 path y)"
      using rb_replace_in_parent_hang [OF c4 _ di(1) r(2) di(12)] lv(3) by (simp add: s4)
    then show ?thesis using lv r(2-14) di(5) q(6)
      by (cases "?m = 0") (simp_all add: rb_rotate_def s2_def s4_def s6_def)
  qed
  have lh: "set (pnodes path) \<subseteq> rlive s4" using lv(3) by (simp add: s4)
  have s6: "rlive s6 = rlive s" "rk s6 = rk (hang s4 path y)" "rp s6 = (rp s4)(x := y)" "rc s6 = ?C"
    "rb_node s6 = rb_node (hang s4 path y)"
    using lv(1) lh r(10) by (simp_all add: s6_def s4)
  have b: "trep ?K (if ?m = 0 then ?P else ?P(?m := x)) ?C B x"
    using trep_reparent [OF r(15) di(3), of x] .
  have mA: "?m = 0 \<or> ?m \<notin> set (nodes A)" "?m = 0 \<or> ?m \<notin> set (nodes C)" "?m \<noteq> x" "?m \<noteq> y"
    using m di r(2,9) by auto
  have tA: "trep (rk s6) (rp s6) (rc s6) A x" and tC: "trep (rk s6) (rp s6) (rc s6) C y"
    and tB: "trep (rk s6) (rp s6) (rc s6) B x"
    using r(8,16) b mA q di by (auto simp: s6 s4)
  have "crep (rk s6) (rp s6) (rc s6) path y (rb_node s6)"
    using hang_crep [OF c4 di(1), of y] di(12) by (simp add: s6 s4)
  moreover have "trep (rk s6) (rp s6) (rc s6) (bin d cy (bin d cx A x B) y C) ?q"
    using tA tB tC r di(5) q(4,5) mA by (simp add: s6 s4)
  ultimately have "rep s6 path (bin d cy (bin d cx A x B) y C)"
    using assms by (auto simp: rep_def distinct_bin nodes_bin s6(1))
  then show ?thesis using ok s6(1) by blast
qed

subsection \<open>Moving the focus, recolouring\<close>

lemma bin_opp [simp]: "bin (opp d) c x a y = bin d c y a x"
  by (cases d) simp_all

lemma rep_up: "rep s ((d, c, a, t) # ps) u = rep s ps (bin d c u a t)"
  by (auto simp: rep_def nodes_bin distinct_bin)

fun tcol :: "rptr \<Rightarrow> rb_color_e \<Rightarrow> rtree \<Rightarrow> rtree" where
  "tcol b c Tip = Tip"
| "tcol b c (Bin c' l a r) = Bin (if a = b then c else c') (tcol b c l) a (tcol b c r)"

lemma tcol_bin: "tcol b c (bin d c' x a y) = bin d (if a = b then c else c') (tcol b c x) a (tcol b c y)"
  by (cases d) simp_all

lemma tcol_other: "b \<notin> set (nodes t) \<Longrightarrow> tcol b c t = t"
  by (induction t) auto

lemma tptr_tcol [simp]: "tptr (tcol b c t) = tptr t"
  by (cases t) simp_all

lemma nodes_tcol [simp]: "nodes (tcol b c t) = nodes t"
  by (induction t) simp_all

lemma trep_tcol: "trep K P C t q \<Longrightarrow> trep K P (C(b := c)) (tcol b c t) q"
  by (induction t arbitrary: q) auto

lemma rep_ucolor:
  assumes "rep s path t" "b \<in> set (nodes t)"
  shows "rep (ucolor s b c) path (tcol b c t)" "rlive (ucolor s b c) = rlive s"
proof -
  have b: "b \<in> rlive s" "b \<notin> set (pnodes path)" using assms by (auto simp: rep_def)
  show "rlive (ucolor s b c) = rlive s" using b by simp
  show "rep (ucolor s b c) path (tcol b c t)" using assms(1) b by (simp add: rep_def trep_tcol)
qed

lemma rep_live: "rep s path t \<Longrightarrow> a \<in> set (pnodes path) \<union> set (nodes t) \<Longrightarrow> a \<in> rlive s"
  by (auto simp: rep_def)

text \<open>The focus and its parent, as the code reads them.\<close>

lemma rep_focus:
  assumes "rep s path (bin d c x a y)"
  shows "a \<in> rlive s" "a \<noteq> 0" "rp s a = pptr path" "rc s a = c" "rk s d a = tptr x" "rk s (opp d) a = tptr y"
    "path = [] \<Longrightarrow> rb_node s = a"
  using assms by (auto simp: rep_def nodes_bin)

lemma rep_head:
  assumes "rep s ((d, c, a, t) # ps) u"
  shows "a \<in> rlive s" "a \<noteq> 0" "rp s a = pptr ps" "rc s a = c" "rk s d a = tptr u" "rk s (opp d) a = tptr t"
  using rep_focus [of s ps d c u a t] assms by (simp_all add: rep_up)

lemma rep_tptr:
  assumes "rep s path t"
  shows "t \<noteq> Tip \<Longrightarrow> tptr t \<in> rlive s" "(tptr t = 0) = (t = Tip)"
  using assms tptr_in [of t] trep_nz [of "rk s" "rp s" "rc s" t] by (auto simp: rep_def)

text \<open>The side the focus is on, as the code finds it.\<close>

lemma rep_side:
  assumes "rep s ((d, c, a, t) # ps) u" "u \<noteq> Tip \<or> t \<noteq> Tip"
  shows "(if tptr u = rk s Lft a then Lft else Rgt) = d" "(if rk s Lft a = tptr u then Lft else Rgt) = d"
proof -
  have k: "rk s d a = tptr u" "rk s (opp d) a = tptr t" using rep_head [OF assms(1)] by blast+
  have "tptr u \<noteq> tptr t"
  proof (cases "u = Tip")
    case True
    then show ?thesis using assms trep_nz [of "rk s" "rp s" "rc s" t a] by (auto simp: rep_def)
  next
    case False
    then have "tptr u \<in> set (nodes u)" "tptr u \<noteq> 0" using tptr_in rep_tptr(2) [OF assms(1)] by auto
    moreover have "set (nodes u) \<inter> set (nodes t) = {}" using assms(1) by (auto simp: rep_def)
    ultimately show ?thesis using tptr_in [of t] by (cases "t = Tip") auto
  qed
  then show "(if tptr u = rk s Lft a then Lft else Rgt) = d" "(if rk s Lft a = tptr u then Lft else Rgt) = d"
    using k by (cases d; simp)+
qed

subsection \<open>Red-black trees\<close>

fun col :: "rtree \<Rightarrow> rb_color_e" where
  "col Tip = RB_BLACK"
| "col (Bin c l a r) = c"

fun bh :: "rtree \<Rightarrow> nat" where
  "bh Tip = 0"
| "bh (Bin c l a r) = (if c = RB_BLACK then bh l + 1 else bh l)"

fun invc :: "rtree \<Rightarrow> bool" where
  "invc Tip = True"
| "invc (Bin c l a r) = (invc l \<and> invc r \<and> (c = RB_RED \<longrightarrow> col l = RB_BLACK \<and> col r = RB_BLACK))"

fun invh :: "rtree \<Rightarrow> bool" where
  "invh Tip = True"
| "invh (Bin c l a r) = (invh l \<and> invh r \<and> bh l = bh r)"

definition rbt :: "rtree \<Rightarrow> bool" where
  "rbt t \<longleftrightarrow> invc t \<and> invh t \<and> col t = RB_BLACK"

fun pcol :: "rpath \<Rightarrow> rb_color_e" where
  "pcol [] = RB_BLACK"
| "pcol ((d, c, a, t) # ps) = c"

text \<open>A path whose hole takes a tree of black height \<open>k\<close>.\<close>

fun pinv :: "rpath \<Rightarrow> nat \<Rightarrow> bool" where
  "pinv [] k = True"
| "pinv ((d, c, a, t) # ps) k = (invc t \<and> invh t \<and> bh t = k \<and>
     (c = RB_RED \<longrightarrow> col t = RB_BLACK \<and> pcol ps = RB_BLACK \<and> ps \<noteq> []) \<and> pinv ps (if c = RB_BLACK then k + 1 else k))"

lemma col_bin [simp]: "col (bin d c x a y) = c"
  by (cases d) simp_all

lemma invc_bin [simp]:
  "invc (bin d c x a y) = (invc x \<and> invc y \<and> (c = RB_RED \<longrightarrow> col x = RB_BLACK \<and> col y = RB_BLACK))"
  by (cases d) auto

lemma invh_bin [simp]: "invh (bin d c x a y) = (invh x \<and> invh y \<and> bh x = bh y)"
  by (cases d) auto

lemma bh_bin [simp]: "bh x = bh y \<Longrightarrow> bh (bin d c x a y) = (if c = RB_BLACK then bh y + 1 else bh y)"
  by (cases d) auto

lemma color_cases: "c \<noteq> RB_RED \<longleftrightarrow> c = RB_BLACK" "c \<noteq> RB_BLACK \<longleftrightarrow> c = RB_RED"
  by (cases c; simp)+

lemma fill_inv:
  "\<lbrakk>pinv path (bh t); invc t; invh t; pcol path = RB_RED \<longrightarrow> col t = RB_BLACK\<rbrakk> \<Longrightarrow>
    invc (fill path t) \<and> invh (fill path t) \<and> (path \<noteq> [] \<longrightarrow> col (fill path t) = RB_BLACK)"
proof (induction path arbitrary: t)
  case (Cons f ps)
  obtain d c a u where f: "f = (d, c, a, u)" by (cases f)
  have b: "bh t = bh u" using Cons.prems(1) by (simp add: f)
  have "pinv ps (bh (bin d c t a u))" "invc (bin d c t a u)" "invh (bin d c t a u)"
    "pcol ps = RB_RED \<longrightarrow> col (bin d c t a u) = RB_BLACK" "ps = [] \<longrightarrow> c = RB_BLACK"
    using Cons.prems b by (auto simp: f color_cases)
  then show ?case using Cons.IH [of "bin d c t a u"] by (cases "ps = []") (auto simp: f)
qed simp

fun before :: "rpath \<Rightarrow> rptr list" where
  "before [] = []"
| "before ((d, c, a, t) # ps) = before ps @ (if d = Lft then [] else nodes t @ [a])"

fun after :: "rpath \<Rightarrow> rptr list" where
  "after [] = []"
| "after ((d, c, a, t) # ps) = (if d = Lft then a # nodes t else []) @ after ps"

lemma nodes_fill: "nodes (fill path t) = before path @ nodes t @ after path"
proof (induction path arbitrary: t)
  case (Cons f ps)
  obtain d c a u where "f = (d, c, a, u)" by (cases f)
  then show ?case using Cons by (cases d) simp_all
qed simp

lemma rep_fill: "rep s path t = rep s [] (fill path t)"
proof (induction path arbitrary: t)
  case (Cons f ps)
  obtain d c a u where "f = (d, c, a, u)" by (cases f)
  then show ?case using Cons by (simp add: rep_up)
qed simp

lemma nodes_fill_cong: "nodes t = nodes u \<Longrightarrow> nodes (fill path t) = nodes (fill path u)"
  by (simp add: nodes_fill)

end
