(* ===== verification/Rb_Insert.thy ===== *)
theory Rb_Insert
  imports Rb_Tree
begin

section \<open>The red-black tree: insertion and traversal\<close>

text \<open>
  \<open>rb_insert_color\<close> restores the red-black properties after a red node was linked at a leaf and
  keeps the order of the nodes; the traversals visit the nodes in that order; the height is
  logarithmic, so a fixed number of rounds is enough for every loop.
\<close>

subsection \<open>Linking\<close>

text \<open>The slot \<open>rb_link\<close> names for the hole of a path.\<close>

fun path_slot :: "rpath \<Rightarrow> rb_slot" where
  "path_slot [] = RootSlot"
| "path_slot ((d, c, a, t) # ps) = ChildSlot d a"

lemma rb_link_rep:
  assumes r: "rep s path Tip" and x: "x \<in> rlive s" "al x" "x \<notin> set (pnodes path)"
  shows "\<exists>s'. rb_link_node s x (pptr path) (path_slot path) = Some s' \<and> rep s' path (Bin RB_RED Tip x Tip) \<and>
    rlive s' = rlive s"
proof -
  have q: "al (pptr path)" using r crep_al by (auto simp: rep_def)
  define s1 where "s1 = upd s x (\<lambda>n. n\<lparr>rb_parent_color := pptr path\<rparr>)"
  have l1: "rlive s1 = rlive s" and n1: "rb_node s1 = rb_node s"
    using x by (simp_all add: s1_def rlive_upd) (simp add: upd_def)
  have pc: "pc_parent (pptr path) = pptr path" "pc_color (pptr path) = RB_RED"
    using pc_parent_set [OF q, of 0] pc_color_set [OF q, of 0] by (simp_all add: pc_color_def)
  have v1: "rk s1 = rk s" "rp s1 = (rp s)(x := pptr path)" "rc s1 = (rc s)(x := RB_RED)"
    using pc by (auto simp: s1_def upd_def rk_def rp_def rc_def fun_eq_iff)
  have s1: "rb_store s x (\<lambda>n. n\<lparr>rb_parent_color := pptr path\<rparr>) = Some s1"
    using x by (auto simp: rb_store_def rb_deref_def rlive_def s1_def upd_def)
  define s2 where "s2 = uchild Lft (uchild Rgt s1 x 0) x 0"
  have v2: "rk s2 = kset (kset (rk s) Rgt x 0) Lft x 0" "rp s2 = (rp s)(x := pptr path)" "rc s2 = (rc s)(x := RB_RED)"
    "rlive s2 = rlive s" "rb_node s2 = rb_node s"
    using x l1 by (simp_all add: s2_def v1 n1)
  have c: "crep (rk s) (rp s) (rc s) path 0 (rb_node s)" "distinct (pnodes path)" "set (pnodes path) \<subseteq> rlive s"
    using r by (auto simp: rep_def)
  have c2: "crep (rk s2) (rp s2) (rc s2) path 0 (rb_node s2)" using c(1) x(3) by (simp add: v2)
  have h: "rb_link_node s x (pptr path) (path_slot path) = Some (hang s2 path x)"
  proof (cases path)
    case Nil
    then show ?thesis using s1 x l1 by (simp add: rb_link_node_def s2_def hang_def)
  next
    case (Cons f ps)
    obtain d cc a t where f: "f = (d, cc, a, t)" by (cases f)
    have "a \<in> rlive s2" using c(3) v2(4) by (simp add: Cons f)
    then show ?thesis using s1 x l1 by (simp add: rb_link_node_def s2_def hang_def Cons f)
  qed
  have nx: "pptr path \<noteq> x" using x(1,3) pptr_in [of path] by (cases path) (auto simp: rlive_def)
  have "x \<noteq> 0" using x(1) by (simp add: rlive_def)
  then have "rep (hang s2 path x) path (Bin RB_RED Tip x Tip)"
    using hang_crep [OF c2 c(2), of x] c x nx by (simp add: rep_def v2)
  then show ?thesis using h c(3) by (simp add: v2)
qed

subsection \<open>The rebalancing loop\<close>

lemma rep_distinct: "rep s path t \<Longrightarrow> distinct (nodes t)"
  by (auto simp: rep_def)

lemma recolor_focus:
  assumes "rep s path (bin d c x a y)"
  shows "rep (ucolor s a c') path (bin d c' x a y)" "rlive (ucolor s a c') = rlive s"
proof -
  have "a \<notin> set (nodes x)" "a \<notin> set (nodes y)" using rep_distinct [OF assms] by (auto simp: distinct_bin)
  then show "rep (ucolor s a c') path (bin d c' x a y)" "rlive (ucolor s a c') = rlive s"
    using rep_ucolor [OF assms, of a c'] by (simp_all add: nodes_bin tcol_bin tcol_other)
qed

lemma recolor_near:
  assumes "rep s path (bin d c (bin e c1 x b y) a z)"
  shows "rep (ucolor s b c') path (bin d c (bin e c' x b y) a z)" "rlive (ucolor s b c') = rlive s"
proof -
  have "b \<notin> set (nodes x)" "b \<notin> set (nodes y)" "b \<notin> set (nodes z)" "a \<noteq> b"
    using rep_distinct [OF assms] by (auto simp: distinct_bin nodes_bin)
  then show "rep (ucolor s b c') path (bin d c (bin e c' x b y) a z)" "rlive (ucolor s b c') = rlive s"
    using rep_ucolor [OF assms, of b c'] by (simp_all add: nodes_bin tcol_bin tcol_other)
qed

lemma recolor_far:
  assumes "rep s path (bin d c z a (bin e c1 x b y))"
  shows "rep (ucolor s b c') path (bin d c z a (bin e c' x b y))" "rlive (ucolor s b c') = rlive s"
proof -
  have r: "rep s path (bin (opp d) c (bin e c1 x b y) a z)" using assms by simp
  from recolor_near [OF this, of c']
  show "rep (ucolor s b c') path (bin d c z a (bin e c' x b y))" "rlive (ucolor s b c') = rlive s" by simp_all
qed

text \<open>The uncle is black: one or two rotations, and the loop ends with the next test.\<close>

lemma rb_insert_rotate:
  assumes r: "rep s pp (bin d RB_BLACK (bin d1 RB_RED (Bin RB_RED l x r) p s1) g u)"
    and c: "invc l" "invc r" "col l = RB_BLACK" "col r = RB_BLACK" "invc s1" "col s1 = RB_BLACK" "invc u" "col u = RB_BLACK"
    and h: "invh l" "invh r" "bh l = bh r" "invh s1" "bh s1 = bh r" "invh u" "bh u = bh r"
  shows "\<exists>s2 s3 s' par nod t'. (if rk s (opp d) p = x then do { s \<leftarrow> rb_rotate d s p; Some (s, x, p) } else Some (s, p, x)) = Some (s2, par, nod) \<and>
    rb_set_black s2 par = Some s3 \<and> (\<exists>s4. rb_set_red s3 g = Some s4 \<and> rb_rotate (opp d) s4 g = Some s') \<and>
    rep s' pp t' \<and> rlive s' = rlive s \<and> rp s' nod = par \<and> par \<in> rlive s \<and> par \<noteq> 0 \<and> nod \<in> rlive s \<and> rc s' par = RB_BLACK \<and>
    nodes t' = nodes (bin d RB_BLACK (bin d1 RB_RED (Bin RB_RED l x r) p s1) g u) \<and>
    invc t' \<and> invh t' \<and> bh t' = bh r + 1 \<and> col t' = RB_BLACK"
proof -
  let ?T = "bin d RB_BLACK (bin d1 RB_RED (Bin RB_RED l x r) p s1) g u"
  have p: "p \<in> rlive s" "x \<in> rlive s" "g \<in> rlive s" "x \<noteq> 0" "p \<noteq> 0"
    "rk s d1 p = x" "rk s (opp d1) p = tptr s1" "x \<noteq> tptr s1"
    using r tptr_in [of s1] by (auto simp: rep_def nodes_bin distinct_bin, (cases s1; auto)+)
  have "\<exists>s2 par nod N1 N2 B. (if rk s (opp d) p = x then do { s \<leftarrow> rb_rotate d s p; Some (s, x, p) } else Some (s, p, x)) = Some (s2, par, nod) \<and>
      rep s2 pp (bin d RB_BLACK (bin d RB_RED (bin d RB_RED N1 nod N2) par B) g u) \<and> rlive s2 = rlive s \<and>
      nodes (bin d RB_BLACK (bin d RB_RED (bin d RB_RED N1 nod N2) par B) g u) = nodes ?T \<and>
      invc N1 \<and> invc N2 \<and> invc B \<and> col N1 = RB_BLACK \<and> col N2 = RB_BLACK \<and> col B = RB_BLACK \<and>
      invh N1 \<and> invh N2 \<and> invh B \<and> bh N1 = bh r \<and> bh N2 = bh r \<and> bh B = bh r"
  proof (cases "d1 = d")
    case True
    then have "rk s (opp d) p \<noteq> x" using p(7,8) by auto
    moreover obtain a b where ab: "Bin RB_RED l x r = bin d RB_RED a x b" "{a, b} = {l, r}"
      by (cases d) (auto intro: bin.simps [symmetric])
    ultimately show ?thesis using True r c h
      by (intro exI [of _ s] exI [of _ p] exI [of _ x] exI [of _ a] exI [of _ b] exI [of _ s1]) (auto simp: doubleton_eq_iff)
  next
    case False
    then have d1: "d1 = opp d" by (cases d; cases d1) auto
    then have k: "rk s (opp d) p = x" using p(6) by simp
    obtain a b where ab: "Bin RB_RED l x r = bin d RB_RED a x b" "{a, b} = {l, r}"
      by (cases d) (auto intro: bin.simps [symmetric])
    have "rep s ((d, RB_BLACK, g, u) # pp) (bin d RB_RED s1 p (bin d RB_RED a x b))"
      using r ab(1) by (simp add: rep_up d1)
    from rb_rotate_rep [OF this] obtain s2 where
      s2: "rb_rotate d s p = Some s2" "rep s2 ((d, RB_BLACK, g, u) # pp) (bin d RB_RED (bin d RB_RED s1 p a) x b)" "rlive s2 = rlive s"
      by blast
    have n: "nodes (bin d RB_BLACK (bin d RB_RED (bin d RB_RED s1 p a) x b) g u) = nodes ?T"
      using ab(1) by (cases d) (simp_all add: d1)
    have "{a, b} = {l, r}" by (rule ab(2))
    then have cab: "invc a \<and> invc b \<and> col a = RB_BLACK \<and> col b = RB_BLACK \<and> invh a \<and> invh b \<and> bh a = bh r \<and> bh b = bh r"
      using c h by (auto simp: doubleton_eq_iff)
    show ?thesis
      using s2 k n cab c h
      by (intro exI [of _ s2] exI [of _ x] exI [of _ p] exI [of _ s1] exI [of _ a] exI [of _ b]) (simp add: rep_up)
  qed
  then obtain s2 par nod N1 N2 B where 
    s2: "(if rk s (opp d) p = x then do { s \<leftarrow> rb_rotate d s p; Some (s, x, p) } else Some (s, p, x)) = Some (s2, par, nod)"
      "rep s2 pp (bin d RB_BLACK (bin d RB_RED (bin d RB_RED N1 nod N2) par B) g u)" "rlive s2 = rlive s"
      "nodes (bin d RB_BLACK (bin d RB_RED (bin d RB_RED N1 nod N2) par B) g u) = nodes ?T"
    and inv: "invc N1" "invc N2" "invc B" "col N1 = RB_BLACK" "col N2 = RB_BLACK" "col B = RB_BLACK"
      "invh N1" "invh N2" "invh B" "bh N1 = bh r" "bh N2 = bh r" "bh B = bh r" by blast
  have lv: "par \<in> rlive s2" "nod \<in> rlive s2" "g \<in> rlive s2" "par \<noteq> 0"
    using s2(2) by (auto simp: rep_def nodes_bin)
  note r3 = recolor_near [OF s2(2), of RB_BLACK]
  note r4 = recolor_focus [OF r3(1), of RB_RED]
  let ?s3 = "ucolor s2 par RB_BLACK" let ?s4 = "ucolor ?s3 g RB_RED"
  have "rep ?s4 pp (bin (opp d) RB_RED u g (bin (opp d) RB_BLACK B par (bin d RB_RED N1 nod N2)))"
    using r4(1) by simp
  from rb_rotate_rep [OF this] obtain s' where
    s': "rb_rotate (opp d) ?s4 g = Some s'" "rep s' pp (bin d RB_BLACK (bin d RB_RED N1 nod N2) par (bin d RB_RED B g u))" "rlive s' = rlive ?s4"
    by auto
  have f: "rp s' nod = par" "rc s' par = RB_BLACK"
    using s'(2) rep_focus(4) [OF s'(2)] rep_focus(3) [of s' "(d, RB_BLACK, par, bin d RB_RED B g u) # pp" d RB_RED N1 nod N2]
    by (simp_all add: rep_up)
  have n: "nodes (bin d RB_BLACK (bin d RB_RED N1 nod N2) par (bin d RB_RED B g u)) = nodes ?T"
    using s2(4) by (cases d) simp_all
  show ?thesis
    using s2(1,3) lv s' r3(2) r4(2) f n inv c h
    by (intro exI [of _ s2] exI [of _ ?s3] exI [of _ s'] exI [of _ par] exI [of _ nod]
        exI [of _ "bin d RB_BLACK (bin d RB_RED N1 nod N2) par (bin d RB_RED B g u)"]) simp
qed

lemma rb_insert_loop_red:
  assumes "x \<in> rlive s" "rp s x = p" "p \<noteq> 0" "p \<in> rlive s" "rc s p = RB_RED" "rp s p = g" "g \<in> rlive s"
    "(if p = rk s Lft g then Lft else Rgt) = d"
  shows "rb_insert_loop (Suc k) s x = do {
     ured \<leftarrow> (if rk s (opp d) g \<noteq> 0 then rb_is_red s (rk s (opp d) g) else Some False);
     if ured
     then do { s \<leftarrow> rb_set_black s (rk s (opp d) g); s \<leftarrow> rb_set_black s p; s \<leftarrow> rb_set_red s g; rb_insert_loop k s g }
     else do {
       (s, parent, node) \<leftarrow> (if rk s (opp d) p = x then do { s \<leftarrow> rb_rotate d s p; Some (s, x, p) } else Some (s, p, x));
       s \<leftarrow> rb_set_black s parent; s \<leftarrow> rb_set_red s g; s \<leftarrow> rb_rotate (opp d) s g; rb_insert_loop k s node } }"
  by (simp only: rb_insert_loop.simps Let_def rget_live [OF assms(1)] rget_live [OF assms(4)] rget_live [OF assms(7)]
      assms bind.bind_lunit not_False_eq_True if_True if_False simp_thms)

lemma rb_insert_loop_ok:
  assumes "rep s path (Bin RB_RED l x r)" "invc l" "invc r" "col l = RB_BLACK" "col r = RB_BLACK"
    "invh l" "invh r" "bh l = bh r" "pinv path (bh r)" "length path + 1 < k"
  shows "\<exists>s' t'. rb_insert_loop k s x = Some s' \<and> rep s' [] t' \<and> invc t' \<and> invh t' \<and> rlive s' = rlive s \<and>
    nodes t' = nodes (fill path (Bin RB_RED l x r))"
  using assms
proof (induction k arbitrary: s path l x r)
  case (Suc k)
  let ?X = "Bin RB_RED l x r"
  have x: "x \<in> rlive s" "rp s x = pptr path"
    using rep_focus(1,3) [of s path Lft RB_RED l x r] Suc.prems(1) by simp_all
  show ?case
  proof (cases "pcol path")
    case RB_BLACK
    have "rb_insert_loop (Suc k) s x = Some s"
    proof (cases path)
      case Nil
      then show ?thesis using x by simp
    next
      case (Cons f ps)
      obtain d c a t where f: "f = (d, c, a, t)" by (cases f)
      have "a \<in> rlive s" "a \<noteq> 0" "rc s a = RB_BLACK"
        using rep_head [of s d c a t ps ?X] Suc.prems(1) RB_BLACK by (simp_all add: Cons f)
      then show ?thesis using x by (simp add: Cons f)
    qed
    moreover have "invc (fill path ?X) \<and> invh (fill path ?X)"
      using fill_inv [of path ?X] Suc.prems RB_BLACK by simp
    ultimately show ?thesis using Suc.prems(1) rep_fill by blast
  next
    case RB_RED
    then obtain d1 p s1 ps where ps: "path = (d1, RB_RED, p, s1) # ps" by (cases path) auto
    have i1: "invc s1" "invh s1" "bh s1 = bh r" "col s1 = RB_BLACK" "pcol ps = RB_BLACK" "ps \<noteq> []" "pinv ps (bh r)"
      using Suc.prems(9) by (simp_all add: ps)
    then obtain d g u pp where pp: "ps = (d, RB_BLACK, g, u) # pp" by (cases ps) auto
    have i2: "invc u" "invh u" "bh u = bh r" "pinv pp (bh r + 1)" using i1(7) by (simp_all add: pp)
    let ?P = "bin d1 RB_RED ?X p s1"
    have rp1: "rep s ((d, RB_BLACK, g, u) # pp) ?P" using Suc.prems(1) by (simp add: ps pp rep_up)
    have rg: "rep s pp (bin d RB_BLACK ?P g u)" using rp1 by (simp add: rep_up)
    note hp = rep_head [OF Suc.prems(1) [unfolded ps]] and hg = rep_head [OF rp1]
    have side: "(if p = rk s Lft g then Lft else Rgt) = d" using rep_side(1) [OF rp1] by simp
    have u: "rk s (opp d) g = tptr u" "(tptr u = 0) = (u = Tip)" "u \<noteq> Tip \<Longrightarrow> tptr u \<in> rlive s"
      "u \<noteq> Tip \<Longrightarrow> rc s (tptr u) = col u"
    proof -
      show "rk s (opp d) g = tptr u" using hg(6) .
      have ru: "rep s ((opp d, RB_BLACK, g, ?P) # pp) u" using rg by (simp add: rep_up)
      show "(tptr u = 0) = (u = Tip)" "u \<noteq> Tip \<Longrightarrow> tptr u \<in> rlive s" using rep_tptr [OF ru] by blast+
      show "u \<noteq> Tip \<Longrightarrow> rc s (tptr u) = col u" using ru by (cases u) (auto simp: rep_def)
    qed
    have parent: "rp s x = p" "p \<noteq> 0" "p \<in> rlive s" "rc s p = RB_RED" "rp s p = g" "g \<in> rlive s" "g \<noteq> 0"
      using x(2) hp hg by (simp_all add: ps pp)
    show ?thesis
    proof (cases "col u = RB_RED")
      case True
      then obtain ul ua ur where uu: "u = Bin RB_RED ul ua ur" by (cases u) auto
      have ul: "invc ul" "invc ur" "col ul = RB_BLACK" "col ur = RB_BLACK" "invh ul" "invh ur" "bh ul = bh ur" "bh ul = bh r"
        using i2 by (simp_all add: uu)
      obtain a b where ab: "u = bin d RB_RED a ua b" "\<And>c. Bin c ul ua ur = bin d c a ua b"
        by (cases d) (auto simp: uu intro: bin.simps [symmetric])
      note r1 = recolor_far [OF rg [unfolded ab(1)], of RB_BLACK]
      note r2 = recolor_near [OF r1(1), of RB_BLACK]
      note r3 = recolor_focus [OF r2(1), of RB_RED]
      let ?s3 = "ucolor (ucolor (ucolor s ua RB_BLACK) p RB_BLACK) g RB_RED"
      let ?G = "bin d RB_RED (bin d1 RB_BLACK ?X p s1) g (Bin RB_BLACK ul ua ur)"
      have g3: "rep ?s3 pp ?G" "rlive ?s3 = rlive s" using r1(2) r2(2) r3 by (simp_all add: ab(2))
      obtain gl gr where G: "?G = Bin RB_RED gl g gr" "{gl, gr} = {bin d1 RB_BLACK ?X p s1, Bin RB_BLACK ul ua ur}"
        by (cases d) auto
      have gi: "t \<in> {gl, gr} \<Longrightarrow> invc t \<and> col t = RB_BLACK \<and> invh t \<and> bh t = bh r + 1" for t
        using Suc.prems i1 ul unfolding G(2) by auto
      have "\<exists>s' t'. rb_insert_loop k ?s3 g = Some s' \<and> rep s' [] t' \<and> invc t' \<and> invh t' \<and> rlive s' = rlive ?s3 \<and>
          nodes t' = nodes (fill pp (Bin RB_RED gl g gr))"
        using g3(1) gi i2(4) Suc.prems(10) by (intro Suc.IH) (simp_all add: G(1) ps pp)
      moreover have "nodes (fill pp (Bin RB_RED gl g gr)) = nodes (fill path ?X)"
        unfolding G(1) [symmetric] by (cases d; cases d1) (simp_all add: ps pp nodes_fill uu)
      moreover have "rb_insert_loop (Suc k) s x = rb_insert_loop k ?s3 g"
        using x parent side u True rep_live [OF rg] by (simp add: uu nodes_bin Let_def)
      ultimately show ?thesis using g3(2) by auto
    next
      case False
      then have cu: "col u = RB_BLACK" by (simp add: color_cases)
      obtain s2 s3 s4 s' par nod t' where
        rot: "(if rk s (opp d) p = x then do { s \<leftarrow> rb_rotate d s p; Some (s, x, p) } else Some (s, p, x)) = Some (s2, par, nod)"
          "rb_set_black s2 par = Some s3" "rb_set_red s3 g = Some s4" "rb_rotate (opp d) s4 g = Some s'"
        and t': "rep s' pp t'" "rlive s' = rlive s" "rp s' nod = par" "par \<in> rlive s" "par \<noteq> 0" "nod \<in> rlive s" "rc s' par = RB_BLACK"
          "nodes t' = nodes (bin d RB_BLACK ?P g u)" "invc t'" "invh t'" "bh t' = bh r + 1" "col t' = RB_BLACK"
        using rb_insert_rotate [OF rg Suc.prems(2-5) i1(1,4) i2(1) cu Suc.prems(6-8) i1(2,3) i2(2,3)] by blast
      obtain k' where k': "k = Suc k'" using Suc.prems(10) by (cases k) auto
      have "rb_insert_loop (Suc k) s x =
          do { (s, parent, node) \<leftarrow> (if rk s (opp d) p = x then do { s \<leftarrow> rb_rotate d s p; Some (s, x, p) } else Some (s, p, x));
               s \<leftarrow> rb_set_black s parent; s \<leftarrow> rb_set_red s g; s \<leftarrow> rb_rotate (opp d) s g; rb_insert_loop k s node }"
        unfolding rb_insert_loop_red [OF x(1) parent(1-6) side] using u cu by (cases "u = Tip") simp_all
      also have "\<dots> = rb_insert_loop k s' nod" unfolding rot(1) using rot(2-4) by simp
      also have "\<dots> = Some s'" using t'(2-7) by (simp add: k')
      finally have "rb_insert_loop (Suc k) s x = Some s'" .
      moreover have "invc (fill pp t') \<and> invh (fill pp t')"
        using fill_inv [of pp t'] t'(9-12) i2(4) by simp
      moreover have "nodes (fill pp t') = nodes (fill path ?X)"
        using t'(8) by (simp add: ps pp nodes_fill)
      ultimately show ?thesis using t'(1,2) rep_fill by blast
    qed
  qed
qed simp

subsection \<open>Places in a tree\<close>

lemma fill_inv_rev:
  "\<lbrakk>invc (fill path t); invh (fill path t); col (fill path t) = RB_BLACK\<rbrakk> \<Longrightarrow>
    pinv path (bh t) \<and> invc t \<and> invh t \<and> (pcol path = RB_RED \<longrightarrow> col t = RB_BLACK) \<and> (path = [] \<longrightarrow> col t = RB_BLACK)"
proof (induction path arbitrary: t)
  case (Cons f ps)
  obtain d c a u where f: "f = (d, c, a, u)" by (cases f)
  have "pinv ps (bh (bin d c t a u)) \<and> invc (bin d c t a u) \<and> invh (bin d c t a u) \<and>
      (pcol ps = RB_RED \<longrightarrow> col (bin d c t a u) = RB_BLACK) \<and> (ps = [] \<longrightarrow> col (bin d c t a u) = RB_BLACK)"
    using Cons.prems by (intro Cons.IH) (simp_all add: f)
  then show ?case by (cases c; cases "pcol ps") (auto simp: f)
qed simp

lemma fill_append: "fill (p @ q) t = fill q (fill p t)"
proof (induction p arbitrary: t)
  case (Cons f p)
  obtain d c a u where "f = (d, c, a, u)" by (cases f)
  then show ?case using Cons by simp
qed simp

lemma before_after_append: "before (p @ q) = before q @ before p" "after (p @ q) = after p @ after q"
proof (induction p)
  case (Cons f p)
  obtain d c a u where "f = (d, c, a, u)" by (cases f)
  then show "before ((f # p) @ q) = before q @ before (f # p)" "after ((f # p) @ q) = after (f # p) @ after q"
    using Cons by simp_all
qed simp_all

text \<open>Every split of the node sequence is a place for a new node, and every node is at the end of a path.\<close>

lemma split_path:
  "nodes t = xs @ ys \<Longrightarrow> \<exists>path. fill path Tip = t \<and> before path = xs \<and> after path = ys"
proof (induction t arbitrary: xs ys)
  case Tip
  then show ?case by (intro exI [of _ "[]"]) simp
next
  case (Bin c l a r)
  from Bin.prems consider (left) us where "nodes l = xs @ us" "ys = us @ a # nodes r"
    | (right) us where "xs = nodes l @ a # us" "nodes r = us @ ys"
    by (force simp: append_eq_append_conv2 Cons_eq_append_conv append_eq_Cons_conv)
  then show ?case
  proof cases
    case left
    then obtain p where p: "fill p Tip = l" "before p = xs" "after p = us" using Bin.IH(1) by blast
    show ?thesis using p left by (intro exI [of _ "p @ [(Lft, c, a, r)]"]) (simp add: fill_append before_after_append)
  next
    case right
    then obtain p where p: "fill p Tip = r" "before p = us" "after p = ys" using Bin.IH(2) by blast
    show ?thesis using p right by (intro exI [of _ "p @ [(Rgt, c, a, l)]"]) (simp add: fill_append before_after_append)
  qed
qed

lemma node_path:
  "nodes t = xs @ a # ys \<Longrightarrow> \<exists>path c l r. fill path (Bin c l a r) = t \<and> before path @ nodes l = xs \<and> nodes r @ after path = ys"
proof (induction t arbitrary: xs ys)
  case (Bin c l b r)
  from Bin.prems consider (here) "xs = nodes l" "b = a" "ys = nodes r" | (left) us where "nodes l = xs @ a # us" "ys = us @ b # nodes r"
    | (right) us where "xs = nodes l @ b # us" "nodes r = us @ a # ys"
    by (force simp: append_eq_append_conv2 Cons_eq_append_conv append_eq_Cons_conv)
  then show ?case
  proof cases
    case here
    then show ?thesis by (intro exI [of _ "[]"]) auto
  next
    case left
    then obtain p c' l' r' where "fill p (Bin c' l' a r') = l" "before p @ nodes l' = xs" "nodes r' @ after p = us"
      using Bin.IH(1) by blast
    then show ?thesis using left
      by (intro exI [of _ "p @ [(Lft, c, b, r)]"] exI [of _ c'] exI [of _ l'] exI [of _ r'])
        (simp add: fill_append before_after_append)
  next
    case right
    then obtain p c' l' r' where "fill p (Bin c' l' a r') = r" "before p @ nodes l' = us" "nodes r' @ after p = ys"
      using Bin.IH(2) by blast
    then show ?thesis using right
      by (intro exI [of _ "p @ [(Rgt, c, b, l)]"] exI [of _ c'] exI [of _ l'] exI [of _ r'])
        (simp add: fill_append before_after_append)
  qed
qed simp

subsection \<open>Height\<close>

fun hgt :: "rtree \<Rightarrow> nat" where
  "hgt Tip = 0"
| "hgt (Bin c l a r) = Suc (max (hgt l) (hgt r))"

lemma hgt_bin [simp]: "hgt (bin d c x a y) = Suc (max (hgt x) (hgt y))"
  by (cases d) simp_all

lemma hgt_bh: "invc t \<Longrightarrow> invh t \<Longrightarrow> hgt t \<le> 2 * bh t + (if col t = RB_RED then 1 else 0)"
proof (induction t)
  case (Bin c l a r)
  then show ?case by (cases c; cases "col l"; cases "col r") auto
qed simp

lemma bh_size: "invh t \<Longrightarrow> 2 ^ bh t \<le> length (nodes t) + 1"
proof (induction t)
  case (Bin c l a r)
  then have "2 ^ bh l \<le> length (nodes l) + 1" "2 ^ bh l \<le> length (nodes r) + 1" by auto
  then have "(2::nat) ^ (bh l + 1) \<le> length (nodes l) + length (nodes r) + 2" by simp
  moreover have "bh (Bin c l a r) \<le> bh l + 1" by simp
  then have "(2::nat) ^ bh (Bin c l a r) \<le> 2 ^ (bh l + 1)" by (intro power_increasing) simp_all
  ultimately show ?case by simp
qed simp

text \<open>Distinct node addresses, none of them NULL: a tree has fewer than \<open>2 ^ 64\<close> nodes, its black
  height is at most 64 and its height at most 128.\<close>

definition RB_FUEL :: nat where
  "RB_FUEL = 200"

lemma rbt_height:
  assumes "rep s [] t" "rbt t"
  shows "hgt t \<le> 128"
proof -
  have d: "distinct (nodes t)" "0 \<notin> set (nodes t)"
    using assms(1) trep_no_0 by (auto simp: rep_def)
  have "length (nodes t) = card (set (nodes t))" using d(1) by (simp add: distinct_card)
  also have "\<dots> < card (UNIV :: usz set)"
    using d(2) by (intro psubset_card_mono) auto
  also have "card (UNIV :: usz set) = 2 ^ 64" by (simp add: card_word)
  finally have "(2::nat) ^ bh t < 2 ^ 65" using bh_size [of t] assms(2) by (simp add: rbt_def)
  then have "bh t < 65" by (rule power_less_imp_less_exp [rotated]) simp
  then show ?thesis using hgt_bh [of t] assms(2) by (simp add: rbt_def)
qed

lemma nodes_fill_set: "set (nodes (fill path t)) = set (pnodes path) \<union> set (nodes t)"
proof (induction path arbitrary: t)
  case (Cons f ps)
  obtain d c a u where "f = (d, c, a, u)" by (cases f)
  then show ?case using Cons by (auto simp: nodes_bin)
qed simp

lemma hgt_fill: "length path + hgt t \<le> hgt (fill path t)"
proof (induction path arbitrary: t)
  case (Cons f ps)
  obtain d c a u where f: "f = (d, c, a, u)" by (cases f)
  have "length ps + hgt (bin d c t a u) \<le> hgt (fill ps (bin d c t a u))" by (rule Cons)
  then show ?case by (simp add: f)
qed simp

subsection \<open>Insertion of a node\<close>

lemma rb_insert_rep:
  assumes r: "rep s [] t" "rbt t" "nodes t = xs @ ys" and x: "x \<in> rlive s" "al x" "x \<notin> set (nodes t)"
    and p: "fill path Tip = t" "before path = xs"
  shows "\<exists>s1 s2 t'. rb_link_node s x (pptr path) (path_slot path) = Some s1 \<and> rb_insert_color RB_FUEL s1 x = Some s2 \<and>
    rep s2 [] t' \<and> rbt t' \<and> nodes t' = xs @ x # ys \<and> rlive s2 = rlive s"
proof -
  have ap: "after path = ys" using r(3) p nodes_fill [of path Tip] by auto
  have rp: "rep s path Tip" using r(1) p(1) rep_fill [of s path Tip] by simp
  have xn: "x \<notin> set (pnodes path)" using nodes_fill_set [of path Tip] x(3) p(1) by auto
  obtain s1 where s1: "rb_link_node s x (pptr path) (path_slot path) = Some s1" "rep s1 path (Bin RB_RED Tip x Tip)" "rlive s1 = rlive s"
    using rb_link_rep [OF rp x(1,2) xn] by blast
  have "length path \<le> 128" using hgt_fill [of path Tip] rbt_height [OF r(1,2)] p(1) by simp
  then have len: "length path + 1 < RB_FUEL" by (simp add: RB_FUEL_def)
  have pi: "pinv path (bh Tip)" using fill_inv_rev [of path Tip] r(2) p(1) by (simp add: rbt_def)
  obtain s' t' where s': "rb_insert_loop RB_FUEL s1 x = Some s'" "rep s' [] t'" "invc t'" "invh t'" "rlive s' = rlive s1"
      "nodes t' = nodes (fill path (Bin RB_RED Tip x Tip))"
    using rb_insert_loop_ok [OF s1(2) _ _ _ _ _ _ _ pi len] by auto
  have n: "nodes t' = xs @ x # ys" using s'(6) p(2) ap by (simp add: nodes_fill)
  then obtain c l a r' where t': "t' = Bin c l a r'" by (cases t') auto
  have b: "rep s' [] (bin Lft c l a r')" using s'(2) t' by simp
  have "rb_node s' = a" "a \<in> rlive s'" using rep_focus(1,7) [OF b] by simp_all
  then have "rb_insert_color RB_FUEL s1 x = Some (ucolor s' a RB_BLACK)" using s'(1) by (simp add: rb_insert_color_def)
  moreover have "rep (ucolor s' a RB_BLACK) [] (Bin RB_BLACK l a r')" "rlive (ucolor s' a RB_BLACK) = rlive s"
    using recolor_focus [OF b, of RB_BLACK] s'(5) s1(3) by simp_all
  moreover have "rbt (Bin RB_BLACK l a r')" using s'(3,4) by (simp add: rbt_def t')
  moreover have "nodes (Bin RB_BLACK l a r') = xs @ x # ys" using n by (simp add: t')
  ultimately show ?thesis using s1(1) by blast
qed

subsection \<open>Traversal\<close>

text \<open>The end of a tree on side \<open>d\<close>, and what lies beyond a place on side \<open>d\<close>.\<close>

definition end_of :: "side \<Rightarrow> rtree \<Rightarrow> rptr" where
  "end_of d t = (if d = Lft then hd (nodes t) else last (nodes t))"

definition beyond :: "side \<Rightarrow> rpath \<Rightarrow> rptr list" where
  "beyond d path = (if d = Rgt then after path else rev (before path))"

lemma nodes_ne [simp]: "(nodes t = []) = (t = Tip)"
  by (cases t) simp_all

lemma end_of_bin: "end_of d (bin d c x a y) = (if x = Tip then a else end_of d x)"
  by (cases d) (auto simp: end_of_def)

lemma rb_descend_rep:
  "\<lbrakk>rep s path t; t \<noteq> Tip; hgt t \<le> k\<rbrakk> \<Longrightarrow> rb_descend d k s (tptr t) = Some (end_of d t)"
proof (induction k arbitrary: path t)
  case (Suc k)
  obtain c x a y where t: "t = bin d c x a y" using bin_cases [of t d] Suc.prems(2) by blast
  have r: "rep s path (bin d c x a y)" using Suc.prems(1) t by simp
  have rx: "rep s ((d, c, a, y) # path) x" using r by (simp add: rep_up)
  show ?case
  proof (cases "x = Tip")
    case True
    then show ?thesis using rep_focus [OF r] by (simp add: t end_of_bin)
  next
    case False
    have "rb_descend d k s (tptr x) = Some (end_of d x)"
      using Suc.prems(3) by (intro Suc.IH [OF rx False]) (simp add: t)
    then show ?thesis using rep_focus [OF r] rep_tptr(2) [OF rx] False by (simp add: t end_of_bin)
  qed
next
  case 0
  then show ?case by (cases t) simp_all
qed

lemma rb_climb_rep:
  "\<lbrakk>rep s path t; t \<noteq> Tip; length path < k\<rbrakk> \<Longrightarrow>
    rb_climb d k s (tptr t) (pptr path) = Some (if beyond d path = [] then 0 else hd (beyond d path))"
proof (induction k arbitrary: path t)
  case (Suc k)
  show ?case
  proof (cases path)
    case Nil
    then show ?thesis by (simp add: beyond_def)
  next
    case (Cons f ps)
    obtain e c a u where f: "f = (e, c, a, u)" by (cases f)
    have r: "rep s ((e, c, a, u) # ps) t" using Suc.prems(1) by (simp add: Cons f)
    note h = rep_head [OF r]
    show ?thesis
    proof (cases "e = d")
      case True
      have "rb_climb d k s (tptr (bin d c t a u)) (pptr ps) = Some (if beyond d ps = [] then 0 else hd (beyond d ps))"
        using r Suc.prems(3) True by (intro Suc.IH) (simp_all add: rep_up Cons)
      then show ?thesis using h True by (cases d) (simp_all add: Cons f beyond_def)
    next
      case False
      then have e: "e = opp d" by (cases d; cases e) auto
      have "rk s d a \<noteq> tptr t"
      proof -
        have "rk s d a = tptr u" using h(6) e by simp
        moreover have "tptr t \<in> set (nodes t)" "tptr t \<noteq> 0" using tptr_in rep_tptr(2) [OF r] Suc.prems(2) by auto
        moreover have "set (nodes t) \<inter> set (nodes u) = {}" using r by (auto simp: rep_def)
        ultimately show ?thesis using tptr_in [of u] by (cases "u = Tip") auto
      qed
      then show ?thesis using h e by (cases d) (simp_all add: Cons f beyond_def)
    qed
  qed
qed simp

lemma rb_step_rep:
  assumes r: "rep s path (bin (opp d) c x a y)" and k: "hgt (fill path (bin (opp d) c x a y)) \<le> k"
  shows "rb_step d k s a = Some (if y \<noteq> Tip then end_of (opp d) y else if beyond d path = [] then 0 else hd (beyond d path))"
proof -
  have h: "length path + hgt (bin (opp d) c x a y) \<le> k" using hgt_fill k le_trans by blast
  note f = rep_focus [OF r]
  have ry: "rep s ((d, c, a, x) # path) y" using r by (simp add: rep_up)
  show ?thesis
  proof (cases "y = Tip")
    case True
    have "rb_climb d k s (tptr (bin (opp d) c x a y)) (pptr path) = Some (if beyond d path = [] then 0 else hd (beyond d path))"
      using h by (intro rb_climb_rep [OF r]) simp_all
    then show ?thesis using f True by (simp add: rb_step_def)
  next
    case False
    have "rb_descend (opp d) k s (tptr y) = Some (end_of (opp d) y)"
      using h by (intro rb_descend_rep [OF ry False]) simp
    then show ?thesis using f False rep_tptr(2) [OF ry] by (simp add: rb_step_def)
  qed
qed

lemma rb_first_last_rep:
  assumes "rep s [] t" "hgt t \<le> k"
  shows "rb_first k s = Some (if nodes t = [] then 0 else hd (nodes t))"
    "rb_last k s = Some (if nodes t = [] then 0 else last (nodes t))"
proof -
  have n: "rb_node s = tptr t" "(tptr t = 0) = (t = Tip)" using assms(1) rep_tptr(2) [OF assms(1)] by (auto simp: rep_def)
  show "rb_first k s = Some (if nodes t = [] then 0 else hd (nodes t))"
    "rb_last k s = Some (if nodes t = [] then 0 else last (nodes t))"
    using n rb_descend_rep [OF assms(1) _ assms(2)] by (auto simp: rb_first_def rb_last_def rb_end_def end_of_def)
qed

lemma rb_next_prev_rep:
  assumes r: "rep s [] t" and n: "nodes t = xs @ a # ys" and k: "hgt t \<le> k"
  shows "rb_next k s a = Some (if ys = [] then 0 else hd ys)" "rb_prev k s a = Some (if xs = [] then 0 else last xs)"
proof -
  obtain path c l rr where p: "fill path (Bin c l a rr) = t" "before path @ nodes l = xs" "nodes rr @ after path = ys"
    using node_path [OF n] by blast
  have rp: "rep s path (Bin c l a rr)" using r p(1) rep_fill [of s path "Bin c l a rr"] by simp
  show "rb_next k s a = Some (if ys = [] then 0 else hd ys)"
    using rb_step_rep [of s path Rgt c l a rr k] rp k p(1) p(3) [symmetric]
    by (auto simp: rb_next_def end_of_def beyond_def hd_append)
  show "rb_prev k s a = Some (if xs = [] then 0 else last xs)"
    using rb_step_rep [of s path Lft c rr a l k] rp k p(1) p(2) [symmetric]
    by (auto simp: rb_prev_def end_of_def beyond_def hd_rev last_append)
qed

end
