(* ===== verification/Rb_Erase.thy ===== *)
theory Rb_Erase
  imports Rb_Insert
begin

section \<open>The red-black tree: removal\<close>

text \<open>
  \<open>rb_erase\<close> takes a node out of the sequence, wherever it is, and \<open>rb_erase_color\<close> restores
  the red-black properties. During the loop the subtree at the focus lacks one black level.
\<close>

subsection \<open>Reading around the focus\<close>

lemma rep_null_or_black: "rep s path t \<Longrightarrow> rb_null_or_black s (tptr t) = Some (col t = RB_BLACK)"
proof (cases t)
  case (Bin c l a r)
  assume "rep s path t"
  then have "a \<in> rlive s" "a \<noteq> 0" "rc s a = c" by (auto simp: rep_def Bin)
  then show ?thesis by (simp add: rb_null_or_black_def Bin)
qed (simp add: rb_null_or_black_def)

lemma rep_root_in: "rep s path t \<Longrightarrow> path \<noteq> [] \<Longrightarrow> rb_node s \<in> set (pnodes path)"
proof -
  have "crep K P C path p root \<Longrightarrow> path \<noteq> [] \<Longrightarrow> root \<in> set (pnodes path)" for K P C p root
  proof (induction path arbitrary: p)
    case (Cons f ps)
    then show ?case by (cases f; cases ps) auto
  qed simp
  then show "rep s path t \<Longrightarrow> path \<noteq> [] \<Longrightarrow> rb_node s \<in> set (pnodes path)" by (auto simp: rep_def)
qed

lemma rep_not_root:
  assumes "rep s path t" "path \<noteq> []"
  shows "tptr t \<noteq> rb_node s"
proof (cases "t = Tip")
  case True
  have "rb_node s \<in> rlive s" using rep_root_in [OF assms] assms(1) by (auto simp: rep_def)
  then show ?thesis using True by (auto simp: rlive_def)
next
  case False
  then show ?thesis using rep_root_in [OF assms] tptr_in [OF False] assms(1) by (auto simp: rep_def)
qed

lemma rep_child: "rep s path (bin d c x a y) \<Longrightarrow> rep s ((d, c, a, y) # path) x"
  by (simp add: rep_up)

lemma rep_child_opp: "rep s path (bin d c x a y) \<Longrightarrow> rep s ((opp d, c, a, x) # path) y"
  by (simp add: rep_up)

lemma red_bin: "col t = RB_RED \<Longrightarrow> \<exists>x a y. t = bin d RB_RED x a y"
  using bin_cases [of t d] by (metis col_bin col.simps(1) rb_color_e.distinct(1))

subsection \<open>The sibling\<close>

text \<open>Trees whose children satisfy the colour rule; the root may be red over a red child.\<close>

fun invc2 :: "rtree \<Rightarrow> bool" where
  "invc2 Tip = True"
| "invc2 (Bin c l a r) = (invc l \<and> invc r)"

lemma invc2_bin [simp]: "invc2 (bin d c x a y) = (invc x \<and> invc y)"
  by (cases d) auto

lemma invc_invc2: "invc t \<Longrightarrow> invc2 t"
  by (cases t) auto

lemma invc2_black: "invc2 t \<Longrightarrow> col t = RB_BLACK \<Longrightarrow> invc t"
  by (cases t) auto

lemma erase_sibling_ok:
  assumes r: "rep s ((d, c, p, u) # ps) t" and p: "pinv ((d, c, p, u) # ps) (bh t + 1)"
  shows "\<exists>s' c' u' ps'. rb_erase_sibling d s p = Some (s', tptr u') \<and> rep s' ((d, c', p, u') # ps') t \<and>
    pinv ((d, c', p, u') # ps') (bh t + 1) \<and> u' \<noteq> Tip \<and> col u' = RB_BLACK \<and> rlive s' = rlive s \<and>
    nodes (fill ((d, c', p, u') # ps') t) = nodes (fill ((d, c, p, u) # ps) t) \<and>
    (c' = RB_BLACK \<longrightarrow> ps' = ps) \<and> (ps' = ps \<or> length ps' = Suc (length ps))"
proof -
  have u: "invc u" "invh u" "bh u = bh t + 1" "u \<noteq> Tip" using p by auto
  note h = rep_head [OF r]
  have ru: "rep s ((opp d, c, p, t) # ps) u" using r by (simp add: rep_up)
  have w: "tptr u \<in> rlive s" "rc s (tptr u) = col u"
    using rep_tptr(1) [OF ru u(4)] ru u(4) by (cases u; auto simp: rep_def)+
  show ?thesis
  proof (cases "col u")
    case RB_BLACK
    then have "rb_erase_sibling d s p = Some (s, tptr u)" using h w by (simp add: rb_erase_sibling_def)
    then show ?thesis using r p u RB_BLACK
      by (intro exI [of _ s] exI [of _ c] exI [of _ u] exI [of _ ps]) simp
  next
    case RB_RED
    then have c: "c = RB_BLACK" using p by (cases c) auto
    obtain x wp y where uu: "u = bin d RB_RED x wp y" using bin_cases [of u d] u(4) RB_RED by (metis col_bin)
    have xy: "invc x" "invc y" "col x = RB_BLACK" "col y = RB_BLACK" "invh x" "invh y" "bh x = bh t + 1" "bh y = bh t + 1"
      using u by (auto simp: uu)
    have rT: "rep s ps (bin d RB_BLACK t p (bin d RB_RED x wp y))" using r by (simp add: rep_up c uu)
    note r1 = recolor_far [OF rT, of RB_BLACK]
    note r2 = recolor_focus [OF r1(1), of RB_RED]
    let ?s2 = "ucolor (ucolor s wp RB_BLACK) p RB_RED"
    obtain s3 where s3: "rb_rotate d ?s2 p = Some s3" "rep s3 ps (bin d RB_BLACK (bin d RB_RED t p x) wp y)" "rlive s3 = rlive ?s2"
      using rb_rotate_rep [OF r2(1)] by blast
    have rt: "rep s3 ((d, RB_RED, p, x) # (d, RB_BLACK, wp, y) # ps) t" using s3(2) by (simp add: rep_up)
    have "rb_erase_sibling d s p = Some (s3, tptr x)"
      using h w s3(1,3) rep_head [OF rt] r1(2) r2(2) uu RB_RED by (simp add: rb_erase_sibling_def)
    moreover have "nodes (fill ((d, RB_RED, p, x) # (d, RB_BLACK, wp, y) # ps) t) = nodes (fill ((d, c, p, u) # ps) t)"
      by (cases d) (simp_all add: nodes_fill uu)
    moreover have "x \<noteq> Tip" using xy(7) by auto
    moreover have "pinv ((d, RB_RED, p, x) # (d, RB_BLACK, wp, y) # ps) (bh t + 1)"
      using xy p by (simp add: c)
    ultimately show ?thesis using rt s3(3) r1(2) r2(2) xy(3)
      by (intro exI [of _ s3] exI [of _ RB_RED] exI [of _ x] exI [of _ "(d, RB_BLACK, wp, y) # ps"]) simp
  qed
qed

text \<open>The sibling has a red child: the last step.\<close>

lemma erase_last_outer:
  assumes r: "rep s ps (bin d c t p (bin d RB_BLACK x w (bin e RB_RED y1 v y2)))"
  shows "\<exists>s1 s2 s3 s'. rb_get_color s p = Some c \<and> rb_set_color s w c = Some s1 \<and> rb_set_black s1 p = Some s2 \<and>
    rb_child (opp d) s2 w = Some v \<and> rb_set_black s2 v = Some s3 \<and> rb_rotate d s3 p = Some s' \<and>
    rep s' ps (bin d c (bin d RB_BLACK t p x) w (bin e RB_BLACK y1 v y2)) \<and> rlive s' = rlive s"
proof -
  note f = rep_focus [OF r]
  note r1 = recolor_far [OF r, of c]
  note r2 = recolor_focus [OF r1(1), of RB_BLACK]
  note rw = rep_child_opp [OF r2(1)]
  let ?s1 = "ucolor s w c" let ?s2 = "ucolor ?s1 p RB_BLACK" let ?s3 = "ucolor ?s2 v RB_BLACK"
  have w: "w \<in> rlive s" "v \<in> rlive s" using r by (auto simp: rep_def nodes_bin)
  have k: "rk ?s2 (opp d) w = v" using rep_focus(6) [OF rw] by simp
  have "v \<notin> set (nodes t)" "v \<notin> set (nodes x)" "v \<noteq> w" "v \<noteq> p" "v \<notin> set (nodes y1)" "v \<notin> set (nodes y2)"
    using rep_distinct [OF r] by (auto simp: distinct_bin nodes_bin)
  then have r3: "rep ?s3 ps (bin d RB_BLACK t p (bin d c x w (bin e RB_BLACK y1 v y2)))" "rlive ?s3 = rlive ?s2"
    using rep_ucolor [OF r2(1), of v RB_BLACK] by (simp_all add: nodes_bin tcol_bin tcol_other)
  obtain s' where s': "rb_rotate d ?s3 p = Some s'"
      "rep s' ps (bin d c (bin d RB_BLACK t p x) w (bin e RB_BLACK y1 v y2))" "rlive s' = rlive ?s3"
    using rb_rotate_rep [OF r3(1)] by blast
  show ?thesis using f w k r1(2) r2(2) r3(2) s'
    by (intro exI [of _ ?s1] exI [of _ ?s2] exI [of _ ?s3] exI [of _ s']) simp
qed

lemma erase_last_ok:
  assumes r: "rep s ps (bin d c t p (bin d RB_BLACK x w y))"
    and i: "invc t" "invh t" "invc x" "invh x" "invc y" "invh y" "bh x = bh t" "bh y = bh t" "col x = RB_RED \<or> col y = RB_RED"
  shows "\<exists>s' t'. rb_erase_last d s p w = Some s' \<and> rep s' ps t' \<and> rlive s' = rlive s \<and>
    nodes t' = nodes (bin d c t p (bin d RB_BLACK x w y)) \<and> invc t' \<and> invh t' \<and> col t' = c \<and>
    bh t' = (if c = RB_BLACK then bh t + 2 else bh t + 1)"
proof -
  note rw = rep_child_opp [OF r]
  note fw = rep_focus [OF rw]
  note ry = rep_child_opp [OF rw] and rx = rep_child [OF rw]
  note nby = rep_null_or_black [OF ry]
  show ?thesis
  proof (cases "col y")
    case RB_RED
    then obtain y1 v y2 where y: "y = bin d RB_RED y1 v y2" using red_bin by blast
    from erase_last_outer [OF r [unfolded y]] obtain s1 s2 s3 s' where
      s: "rb_get_color s p = Some c" "rb_set_color s w c = Some s1" "rb_set_black s1 p = Some s2"
        "rb_child (opp d) s2 w = Some v" "rb_set_black s2 v = Some s3" "rb_rotate d s3 p = Some s'"
        "rep s' ps (bin d c (bin d RB_BLACK t p x) w (bin d RB_BLACK y1 v y2))" "rlive s' = rlive s" by blast
    have "rb_erase_last d s p w = Some s'"
      using fw nby RB_RED s by (simp add: rb_erase_last_def)
    moreover have "nodes (bin d c (bin d RB_BLACK t p x) w (bin d RB_BLACK y1 v y2)) = nodes (bin d c t p (bin d RB_BLACK x w y))"
      by (cases d) (simp_all add: y)
    ultimately show ?thesis using s(7,8) i
      by (intro exI [of _ s'] exI [of _ "bin d c (bin d RB_BLACK t p x) w (bin d RB_BLACK y1 v y2)"]) (auto simp: y)
  next
    case RB_BLACK
    then have "col x = RB_RED" using i(9) by simp
    then obtain x1 v x2 where x: "x = bin d RB_RED x1 v x2" using red_bin by blast
    have rw': "rep s ((opp d, c, p, t) # ps) (bin d RB_BLACK (bin d RB_RED x1 v x2) w y)" using rw by (simp add: x)
    note r1 = recolor_near [OF rw', of RB_BLACK]
    note r2 = recolor_focus [OF r1(1), of RB_RED]
    let ?s1 = "ucolor s v RB_BLACK" let ?s2 = "ucolor ?s1 w RB_RED"
    have "rep ?s2 ((opp d, c, p, t) # ps) (bin (opp d) RB_RED y w (bin (opp d) RB_BLACK x2 v x1))" using r2(1) by simp
    from rb_rotate_rep [OF this] obtain s3 where
      s3: "rb_rotate (opp d) ?s2 w = Some s3" "rep s3 ((opp d, c, p, t) # ps) (bin d RB_BLACK x1 v (bin d RB_RED x2 w y))" "rlive s3 = rlive ?s2"
      by auto
    have r3: "rep s3 ps (bin d c t p (bin d RB_BLACK x1 v (bin d RB_RED x2 w y)))" using s3(2) by (simp add: rep_up)
    have k3: "rk s3 (opp d) p = v" "p \<in> rlive s3" using rep_focus [OF r3] by simp_all
    from erase_last_outer [OF r3] obtain s4 s5 s6 s' where
      s: "rb_get_color s3 p = Some c" "rb_set_color s3 v c = Some s4" "rb_set_black s4 p = Some s5"
        "rb_child (opp d) s5 v = Some w" "rb_set_black s5 w = Some s6" "rb_rotate d s6 p = Some s'"
        "rep s' ps (bin d c (bin d RB_BLACK t p x1) v (bin d RB_BLACK x2 w y))" "rlive s' = rlive s3" by blast
    have v: "v \<in> rlive s" "w \<in> rlive s" using rw' by (auto simp: rep_def nodes_bin)
    have "rb_erase_last d s p w = Some s'"
      using fw nby RB_BLACK v s s3(1) k3 r1(2) by (simp add: rb_erase_last_def x)
    moreover have "nodes (bin d c (bin d RB_BLACK t p x1) v (bin d RB_BLACK x2 w y)) = nodes (bin d c t p (bin d RB_BLACK x w y))"
      by (cases d) (simp_all add: x)
    ultimately show ?thesis using s(7,8) s3(3) r1(2) r2(2) i
      by (intro exI [of _ s'] exI [of _ "bin d c (bin d RB_BLACK t p x1) v (bin d RB_BLACK x2 w y)"]) (auto simp: x)
  qed
qed

subsection \<open>The loop\<close>

text \<open>A tree that lacks one black level fits after its root is made black when the root is red, and at
  the top of the whole tree.\<close>

definition near_done :: "rpath \<Rightarrow> rtree \<Rightarrow> bool" where
  "near_done path t \<longleftrightarrow> invc2 t \<and> invh t \<and> (path = [] \<or> col t = RB_RED \<and> pinv path (bh t + 1))"

lemma rb_erase_loop_ok:
  assumes "rep s path t" "invc2 t" "invh t" "pinv path (bh t + 1)" "if col t = RB_RED then 0 < k else length path < k"
  shows "\<exists>s' path' t'. rb_erase_loop k s (tptr t) (pptr path) = Some (s', tptr t') \<and> rep s' path' t' \<and>
    rlive s' = rlive s \<and> nodes (fill path' t') = nodes (fill path t) \<and> near_done path' t'"
  using assms
proof (induction k arbitrary: s path t)
  case (Suc k)
  note nb = rep_null_or_black [OF Suc.prems(1)]
  show ?case
  proof (cases "col t = RB_BLACK \<and> path \<noteq> []")
    case False
    have "rb_node s = tptr t" if "path = []" using Suc.prems(1) that by (simp add: rep_def)
    then have "rb_erase_loop (Suc k) s (tptr t) (pptr path) = Some (s, tptr t)"
      using nb False by (cases "path = []") simp_all
    moreover have "near_done path t" using False Suc.prems by (auto simp: near_done_def color_cases)
    ultimately show ?thesis using Suc.prems(1) by blast
  next
    case True
    then have tb: "col t = RB_BLACK" and ct: "invc t" using Suc.prems(2) invc2_black by auto
    obtain d c p u ps where path: "path = (d, c, p, u) # ps" using True by (cases path) auto
    have r: "rep s ((d, c, p, u) # ps) t" using Suc.prems(1) path by simp
    have nr: "tptr t \<noteq> rb_node s" using rep_not_root [OF Suc.prems(1)] True by simp
    obtain s1 c' u' ps' where s1: "rb_erase_sibling d s p = Some (s1, tptr u')" "rep s1 ((d, c', p, u') # ps') t"
        "pinv ((d, c', p, u') # ps') (bh t + 1)" "u' \<noteq> Tip" "col u' = RB_BLACK" "rlive s1 = rlive s"
        "nodes (fill ((d, c', p, u') # ps') t) = nodes (fill ((d, c, p, u) # ps) t)" "c' = RB_BLACK \<longrightarrow> ps' = ps"
      using erase_sibling_ok [OF r] Suc.prems(4) path by auto
    have "u \<noteq> Tip" using Suc.prems(4) by (auto simp: path)
    then have side: "(if rk s Lft p = tptr t then Lft else Rgt) = d" using rep_side(2) [OF r] by blast
    then have sd: "(rk s Lft p = tptr t) = (d = Lft)" by (cases d) (auto split: if_splits)
    obtain x w y where u': "u' = bin d RB_BLACK x w y" using bin_cases [of u' d] s1(4,5) by (metis col_bin)
    have xy: "invc x" "invc y" "invh x" "invh y" "bh x = bh t" "bh y = bh t" using s1(3) by (auto simp: u' split: if_splits)
    have rT: "rep s1 ps' (bin d c' t p (bin d RB_BLACK x w y))" using s1(2) by (simp add: rep_up u')
    note rw = rep_child_opp [OF rT]
    note fw = rep_focus [OF rw] and hp = rep_head [OF r] and fT = rep_focus [OF rT]
    note nbx = rep_null_or_black [OF rep_child [OF rw]] and nby = rep_null_or_black [OF rep_child_opp [OF rw]]
    define both where "both = (col x = RB_BLACK \<and> col y = RB_BLACK)"
    have lr: "(do { sl \<leftarrow> rb_child Lft s1 w; bl \<leftarrow> rb_null_or_black s1 sl;
        if bl then do { sr \<leftarrow> rb_child Rgt s1 w; rb_null_or_black s1 sr } else Some False }) = Some both"
      using fw nbx nby by (cases d; cases "col x"; cases "col y") (simp_all add: both_def)
    have step: "rb_erase_loop (Suc k) s (tptr t) (pptr path) =
        (if both then do { s \<leftarrow> rb_set_red s1 w; up \<leftarrow> rb_get_parent s p; rb_erase_loop k s p up }
         else do { s \<leftarrow> rb_erase_last d s1 p w; Some (s, rb_node s) })"
    proof -
      have "rb_erase_loop (Suc k) s (tptr t) (pptr path) =
        do { br \<leftarrow> do { sl \<leftarrow> rb_child Lft s1 w; bl \<leftarrow> rb_null_or_black s1 sl;
               if bl then do { sr \<leftarrow> rb_child Rgt s1 w; rb_null_or_black s1 sr } else Some False };
             if br then do { s \<leftarrow> rb_set_red s1 w; up \<leftarrow> rb_get_parent s p; rb_erase_loop k s p up }
             else do { s \<leftarrow> rb_erase_last d s1 p w; Some (s, rb_node s) } }"
        using nb tb nr hp sd s1(1) by (cases d) (simp_all add: path u' Let_def cong: if_cong)
      then show ?thesis by (simp only: lr bind.bind_lunit)
    qed
    show ?thesis
    proof (cases both)
      case True
      note r2 = recolor_far [OF rT, of RB_RED]
      let ?s2 = "ucolor s1 w RB_RED" and ?t2 = "bin d c' t p (bin d RB_RED x w y)"
      have "\<exists>s' path' t'. rb_erase_loop k ?s2 (tptr ?t2) (pptr ps') = Some (s', tptr t') \<and> rep s' path' t' \<and>
          rlive s' = rlive ?s2 \<and> nodes (fill path' t') = nodes (fill ps' ?t2) \<and> near_done path' t'"
      proof (rule Suc.IH [OF r2(1)])
        show "invc2 ?t2" "invh ?t2" using ct Suc.prems(3) xy True by (simp_all add: both_def)
        show "pinv ps' (bh ?t2 + 1)" using s1(3) xy by (cases c') simp_all
        show "if col ?t2 = RB_RED then 0 < k else length ps' < k"
          using Suc.prems(5) tb s1(8) by (cases c') (simp_all add: path)
      qed
      moreover have "rb_erase_loop (Suc k) s (tptr t) (pptr path) = rb_erase_loop k ?s2 (tptr ?t2) (pptr ps')"
        using step True fw rep_focus [OF r2(1)] by simp
      moreover have "nodes (fill ps' ?t2) = nodes (fill path t)"
        using s1(7) by (cases d) (simp_all add: path u' nodes_fill)
      ultimately show ?thesis using r2(2) s1(6) by simp
    next
      case False
      then have "col x = RB_RED \<or> col y = RB_RED" by (auto simp: both_def color_cases)
      from erase_last_ok [OF rT ct Suc.prems(3) xy(1,3,2,4,5,6) this] obtain s' t' where
        s': "rb_erase_last d s1 p w = Some s'" "rep s' ps' t'" "rlive s' = rlive s1"
          "nodes t' = nodes (bin d c' t p (bin d RB_BLACK x w y))" "invc t'" "invh t'" "col t' = c'"
          "bh t' = (if c' = RB_BLACK then bh t + 2 else bh t + 1)" by blast
      have "pinv ps' (bh t')" "pcol ps' = RB_RED \<longrightarrow> col t' = RB_BLACK"
        using s1(3) s'(7,8) by (cases c'; cases "pcol ps'"; simp)+
      then have f: "invc (fill ps' t')" "invh (fill ps' t')" using fill_inv [of ps' t'] s'(5,6) by auto
      have rf: "rep s' [] (fill ps' t')" using s'(2) rep_fill by blast
      have "rb_erase_loop (Suc k) s (tptr t) (pptr path) = Some (s', tptr (fill ps' t'))"
        using step False s'(1) rf by (simp add: rep_def)
      moreover have "nodes (fill ps' t') = nodes (fill path t)"
        using s'(4) s1(7) by (cases d) (simp_all add: path u' nodes_fill)
      ultimately show ?thesis using rf f s'(3) s1(6) invc_invc2
        by (intro exI [of _ s'] exI [of _ "[]"] exI [of _ "fill ps' t'"]) (simp add: near_done_def)
    qed
  qed
qed (auto split: if_splits)

lemma rb_erase_color_ok:
  assumes "rep s path t" "invc2 t" "invh t" "pinv path (bh t + 1)" "length path < k"
  shows "\<exists>s' t'. rb_erase_color k s (tptr t) (pptr path) = Some s' \<and> rep s' [] t' \<and> rbt t' \<and> rlive s' = rlive s \<and>
    nodes t' = nodes (fill path t)"
proof -
  have "if col t = RB_RED then 0 < k else length path < k" using assms(5) by simp
  from rb_erase_loop_ok [OF assms(1-4) this] obtain s1 path' t1 where
    s1: "rb_erase_loop k s (tptr t) (pptr path) = Some (s1, tptr t1)" "rep s1 path' t1" "rlive s1 = rlive s"
      "nodes (fill path' t1) = nodes (fill path t)" "near_done path' t1" by blast
  show ?thesis
  proof (cases t1)
    case Tip
    then have "path' = []" using s1(5) by (simp add: near_done_def)
    then show ?thesis using s1 Tip by (simp add: rb_erase_color_def rbt_def)
  next
    case (Bin c l a r)
    then have b: "rep s1 path' (bin Lft c l a r)" using s1(2) by simp
    note f = recolor_focus [OF b, of RB_BLACK] and fb = rep_focus [OF b]
    let ?t = "Bin RB_BLACK l a r"
    have "rb_erase_color k s (tptr t) (pptr path) = Some (ucolor s1 a RB_BLACK)"
      using s1(1) fb by (simp add: rb_erase_color_def Bin)
    moreover have "rep (ucolor s1 a RB_BLACK) [] (fill path' ?t)" using f(1) rep_fill [of _ path' ?t] by simp
    moreover have "nodes (fill path' ?t) = nodes (fill path t)" using s1(4) by (simp add: nodes_fill Bin)
    moreover have "rbt (fill path' ?t)"
    proof (cases "path' = []")
      case True
      then show ?thesis using s1(5) by (simp add: near_done_def rbt_def Bin)
    next
      case False
      then have "pinv path' (bh ?t)" "invc ?t" "invh ?t" using s1(5) by (auto simp: near_done_def Bin)
      then show ?thesis using fill_inv [of path' ?t] False by (simp add: rbt_def)
    qed
    ultimately show ?thesis using f(2) s1(3) by auto
  qed
qed

subsection \<open>Taking a node with at most one child out\<close>

lemma reparent_hang:
  assumes r: "rep s path (bin d c Tip a y)"
  defines "s1 \<equiv> (if tptr y \<noteq> 0 then uparent s (tptr y) (pptr path) else s)"
  shows "rep (hang s1 path (tptr y)) path y" "rlive (hang s1 path (tptr y)) = rlive s"
    "rb_replace_in_parent e s1 (pptr path) a (tptr y) = Some (hang s1 path (tptr y))"
    "(if tptr y \<noteq> 0 then rb_set_parent s (tptr y) (pptr path) else Some s) = Some s1" "rlive s1 = rlive s"
    "rk s1 = rk s" "rc s1 = rc s" "\<And>b. b \<notin> set (nodes y) \<Longrightarrow> rp s1 b = rp s b" "rb_node s1 = rb_node s"
proof -
  have ry: "rep s ((opp d, c, a, Tip) # path) y" using r by (simp add: rep_up)
  have m: "tptr y \<noteq> 0 \<Longrightarrow> tptr y \<in> rlive s \<and> tptr y \<in> set (nodes y)"
    using rep_tptr [OF ry] tptr_in [of y] by auto
  have cr: "crep (rk s) (rp s) (rc s) path a (rb_node s)" "a \<noteq> 0" "trep (rk s) (rp s) (rc s) y a" "distinct (pnodes path)"
    "set (pnodes path) \<subseteq> rlive s" "a \<notin> set (pnodes path)" "distinct (nodes y)" "set (pnodes path) \<inter> set (nodes y) = {}"
    "set (nodes y) \<subseteq> rlive s" "a \<notin> set (nodes y)"
    using r by (auto simp: rep_def nodes_bin distinct_bin)
  have q: "al (pptr path)" using cr(1) crep_al by blast
  show l1: "rlive s1 = rlive s" and "rk s1 = rk s" and "rc s1 = rc s" and nd: "rb_node s1 = rb_node s"
    using m q by (auto simp: s1_def)
  have v: "rk s1 = rk s" "rc s1 = rc s" "rp s1 = (if tptr y = 0 then rp s else (rp s)(tptr y := pptr path))"
    using m q by (auto simp: s1_def)
  show "rp s1 b = rp s b" if "b \<notin> set (nodes y)" for b using that m by (auto simp: v)
  show "(if tptr y \<noteq> 0 then rb_set_parent s (tptr y) (pptr path) else Some s) = Some s1"
    using m by (simp add: s1_def)
  have mp: "tptr y \<noteq> 0 \<Longrightarrow> tptr y \<notin> set (pnodes path)" using m cr(8) by auto
  have c1: "crep (rk s1) (rp s1) (rc s1) path a (rb_node s1)" using cr(1) mp by (simp add: v nd)
  show "rb_replace_in_parent e s1 (pptr path) a (tptr y) = Some (hang s1 path (tptr y))"
    using rb_replace_in_parent_hang [OF c1 _ cr(4,2,6)] cr(5) l1 by simp
  have lh: "set (pnodes path) \<subseteq> rlive s1" using cr(5) l1 by simp
  show lr: "rlive (hang s1 path (tptr y)) = rlive s" using hang_views(3) [OF lh] l1 by simp
  have "trep (rk s) (if tptr y = 0 then rp s else (rp s)(tptr y := pptr path)) (rc s) y (pptr path)"
    by (rule trep_reparent [OF cr(3,7)])
  moreover have "pptr path \<notin> set (nodes y)" using crep_pptr_notin [OF cr(1,8)] trep_no_0 [OF cr(3)] by blast
  ultimately have "trep (rk (hang s1 path (tptr y))) (rp s1) (rc s1) y (pptr path)" by (simp add: v)
  then show "rep (hang s1 path (tptr y)) path y"
    using hang_crep [OF c1 cr(4), of "tptr y"] cr lr by (auto simp: rep_def)
qed

lemma rb_unlink_one_ok:
  assumes r: "rep s path (bin d c Tip a y)"
  shows "\<exists>s'. rb_unlink_one s a (tptr y) = Some (s', pptr path, c) \<and> rep s' path y \<and> rlive s' = rlive s"
  using rep_focus [OF r] reparent_hang [OF r] by (simp add: rb_unlink_one_def)

text \<open>The rest of the removal once the node is out: the path takes a tree one level higher when the
  node was black.\<close>

lemma rb_erase_finish:
  assumes r: "rep s path y" and i: "pinv path (bh (bin d c Tip a y))" "invc (bin d c Tip a y)" "invh (bin d c Tip a y)"
    "pcol path = RB_RED \<longrightarrow> c = RB_BLACK" "path = [] \<longrightarrow> c = RB_BLACK" and k: "length path < k"
  shows "\<exists>s' t'. (if c = RB_BLACK then rb_erase_color k s (tptr y) (pptr path) else Some s) = Some s' \<and>
    rep s' [] t' \<and> rbt t' \<and> rlive s' = rlive s \<and> nodes t' = nodes (fill path y)"
proof (cases c)
  case RB_BLACK
  have "invc2 y" "invh y" "pinv path (bh y + 1)" using i invc_invc2 by (auto simp: RB_BLACK)
  from rb_erase_color_ok [OF r this k] show ?thesis by (simp add: RB_BLACK)
next
  case RB_RED
  have "pinv path (bh y)" "invc y" "invh y" "pcol path = RB_RED \<longrightarrow> col y = RB_BLACK" "path \<noteq> []"
    using i by (auto simp: RB_RED)
  then have "rbt (fill path y)" using fill_inv [of path y] by (simp add: rbt_def)
  then show ?thesis using r rep_fill [of s path y] RB_RED by auto
qed

subsection \<open>Taking a node with two children out\<close>

lemma leftmost:
  "t \<noteq> Tip \<Longrightarrow> \<exists>lp c n y. t = fill lp (bin Lft c Tip n y) \<and> before lp = [] \<and> (\<forall>f \<in> set lp. fst f = Lft)"
proof (induction t)
  case (Bin c l a r)
  show ?case
  proof (cases "l = Tip")
    case True
    then show ?thesis by (intro exI [of _ "[]"] exI [of _ c] exI [of _ a] exI [of _ r]) simp
  next
    case False
    then obtain lp c' n y where "l = fill lp (bin Lft c' Tip n y)" "before lp = []" "\<forall>f \<in> set lp. fst f = Lft"
      using Bin.IH(1) by blast
    then show ?thesis
      by (intro exI [of _ "lp @ [(Lft, c, a, r)]"] exI [of _ c'] exI [of _ n] exI [of _ y])
        (simp add: fill_append before_after_append)
  qed
qed simp

lemma rep_fill_append: "rep s (lp @ path) t = rep s path (fill lp t)"
proof (induction lp arbitrary: t)
  case (Cons f lp)
  obtain d c a u where "f = (d, c, a, u)" by (cases f)
  then show ?case using Cons by (simp add: rep_up)
qed simp

text \<open>Putting a free node \<open>n\<close> in the place of \<open>a\<close>, with its colour and children.\<close>

lemma replace_node_ok:
  assumes r: "rep s path (Bin c l a rr)" and l: "l \<noteq> Tip" and n: "n \<in> rlive s" "al n" "n \<notin> set (pnodes path)" "n \<notin> set (nodes (Bin c l a rr))"
  shows "\<exists>o1 s1 s2 s3 s4 s5 s'. rb_deref s a = Some o1 \<and>
    rb_store s n (\<lambda>x. x\<lparr>rb_parent_color := rb_parent_color o1\<rparr>) = Some s1 \<and>
    rb_set_child Lft s1 n (rb_left o1) = Some s2 \<and> rb_set_child Rgt s2 n (rb_right o1) = Some s3 \<and>
    rb_get_parent s3 a = Some (pptr path) \<and> rb_replace_in_parent Lft s3 (pptr path) a n = Some s4 \<and>
    rb_child Lft s4 a = Some (tptr l) \<and> rb_set_parent s4 (tptr l) n = Some s5 \<and> rb_child Rgt s5 a = Some (tptr rr) \<and>
    (if tptr rr \<noteq> 0 then rb_set_parent s5 (tptr rr) n else Some s5) = Some s' \<and>
    rep s' path (Bin c l n rr) \<and> rlive s' = rlive s"
proof -
  have b: "rep s path (bin Lft c l a rr)" using r by simp
  note f = rep_focus [OF b] and rl = rep_child [OF b] and rR = rep_child_opp [OF b]
  have cr: "crep (rk s) (rp s) (rc s) path a (rb_node s)" "a \<noteq> 0" "al a" "trep (rk s) (rp s) (rc s) l a" "trep (rk s) (rp s) (rc s) rr a"
    "distinct (pnodes path)" "set (pnodes path) \<subseteq> rlive s" "a \<notin> set (pnodes path)" "distinct (nodes l)" "distinct (nodes rr)"
    "set (pnodes path) \<inter> set (nodes l) = {}" "set (pnodes path) \<inter> set (nodes rr) = {}" "set (nodes l) \<inter> set (nodes rr) = {}"
    "set (nodes l) \<subseteq> rlive s" "set (nodes rr) \<subseteq> rlive s" "a \<notin> set (nodes l)" "a \<notin> set (nodes rr)"
    using r by (auto simp: rep_def)
  have nn: "n \<noteq> 0" "n \<noteq> a" "n \<notin> set (nodes l)" "n \<notin> set (nodes rr)" using n by (auto simp: rlive_def)
  have ml: "tptr l \<noteq> 0" "tptr l \<in> set (nodes l)" "tptr l \<in> rlive s"
    using rep_tptr [OF rl] l tptr_in by auto
  have mr: "tptr rr \<noteq> 0 \<Longrightarrow> tptr rr \<in> set (nodes rr) \<and> tptr rr \<in> rlive s"
    using rep_tptr [OF rR] tptr_in [of rr] by auto
  obtain o1 where o1: "rb_heap s a = Some o1" using f(1) by (auto simp: rlive_def)
  have od: "rb_deref s a = Some o1" using o1 cr(2) by (simp add: rb_deref_def)
  have ok: "rb_left o1 = tptr l" "rb_right o1 = tptr rr" "pc_parent (rb_parent_color o1) = pptr path" "pc_color (rb_parent_color o1) = c"
    using f o1 by (simp_all add: rk_def rp_def rc_def)
  define s1 where "s1 = upd s n (\<lambda>x. x\<lparr>rb_parent_color := rb_parent_color o1\<rparr>)"
  have s1: "rb_store s n (\<lambda>x. x\<lparr>rb_parent_color := rb_parent_color o1\<rparr>) = Some s1"
    using n(1) by (auto simp: rb_store_def rb_deref_def rlive_def s1_def upd_def)
  have v1: "rlive s1 = rlive s" "rb_node s1 = rb_node s" "rk s1 = rk s" "rp s1 = (rp s)(n := pptr path)" "rc s1 = (rc s)(n := c)"
    using n(1) ok by (auto simp: s1_def upd_def rlive_def rk_def rp_def rc_def fun_eq_iff)
  define s3 where "s3 = uchild Rgt (uchild Lft s1 n (tptr l)) n (tptr rr)"
  have v3: "rlive s3 = rlive s" "rb_node s3 = rb_node s" "rk s3 = kset (kset (rk s) Lft n (tptr l)) Rgt n (tptr rr)"
    "rp s3 = (rp s)(n := pptr path)" "rc s3 = (rc s)(n := c)"
    using n(1) by (simp_all add: s3_def v1)
  have c3: "crep (rk s3) (rp s3) (rc s3) path a (rb_node s3)" using cr(1) n(3) by (simp add: v3)
  have lh: "set (pnodes path) \<subseteq> rlive s3" using cr(7) by (simp add: v3)
  have s4: "rb_replace_in_parent Lft s3 (pptr path) a n = Some (hang s3 path n)"
    by (rule rb_replace_in_parent_hang [OF c3 lh cr(6,2,8)])
  define s5 where "s5 = uparent (hang s3 path n) (tptr l) n"
  define s' where "s' = (if tptr rr \<noteq> 0 then uparent s5 (tptr rr) n else s5)"
  have q: "pptr path \<noteq> a" "pptr path \<noteq> n" "pptr path \<notin> set (nodes l)" "pptr path \<notin> set (nodes rr)"
    using crep_pptr_notin [OF cr(1,11)] crep_pptr_notin [OF cr(1,12)] trep_no_0 [OF cr(4)] trep_no_0 [OF cr(5)]
      pptr_in [of path] cr(2,8) nn(1) n(3) by (cases "path = []"; auto)+
  have v5: "rlive s5 = rlive s" "rk s5 = rk (hang s3 path n)" "rp s5 = (rp s3)(tptr l := n)" "rc s5 = rc s3" "rb_node s5 = rb_node (hang s3 path n)"
    using hang_views(3) [OF lh] ml(3) n(2) by (simp_all add: s5_def v3)
  have v': "rlive s' = rlive s" "rk s' = rk (hang s3 path n)" "rp s' = (if tptr rr \<noteq> 0 then (rp s3)(tptr l := n, tptr rr := n) else (rp s3)(tptr l := n))"
    "rc s' = rc s3" "rb_node s' = rb_node (hang s3 path n)"
    using mr n(2) v5 by (auto simp: s'_def)
  have mnot: "tptr l \<notin> set (pnodes path)" "tptr l \<notin> set (nodes rr)" "tptr l \<noteq> n" "tptr rr \<noteq> 0 \<Longrightarrow> tptr rr \<notin> set (pnodes path) \<and> tptr rr \<notin> set (nodes l) \<and> tptr rr \<noteq> n"
    using ml mr cr(11-13) nn by auto
  have "crep (rk s') (rp s') (rc s') path n (rb_node s')"
    using hang_crep [OF c3 cr(6), of n] mnot n(3) by (simp add: v' v3)
  moreover have "trep (rk s') (rp s') (rc s') l n"
  proof -
    have "trep (rk s) ((rp s)(tptr l := n)) (rc s) l n" using trep_reparent [OF cr(4,9), of n] ml(1) by simp
    then show ?thesis using q(3) nn(3) mnot ml(2) by (simp add: v' v3 fun_upd_twist [of n "tptr l"])
  qed
  moreover have "trep (rk s') (rp s') (rc s') rr n"
  proof (cases "tptr rr = 0")
    case True
    then have "rr = Tip" using rep_tptr(2) [OF rR] by simp
    then show ?thesis by simp
  next
    case False
    have "trep (rk s) ((rp s)(tptr rr := n)) (rc s) rr n" using trep_reparent [OF cr(5,10), of n] False by simp
    moreover have "(rp s)(n := pptr path, tptr l := n, tptr rr := n) = ((rp s)(tptr rr := n))(n := pptr path, tptr l := n)"
      using mnot(3,4) False ml(2) cr(13) mr by (auto simp: fun_eq_iff)
    ultimately show ?thesis using q(4) nn(4) mnot False by (simp add: v' v3)
  qed
  moreover have "rp s' n = pptr path" "rc s' n = c" "rk s' Lft n = tptr l" "rk s' Rgt n = tptr rr"
    using mnot q(2) by (auto simp: v' v3)
  ultimately have rep': "rep s' path (Bin c l n rr)"
    using r n nn cr by (auto simp: rep_def v'(1))
  have a4: "a \<in> rlive (hang s3 path n)" "a \<in> rlive s5" using hang_views(3) [OF lh] f(1) v5(1) by (simp_all add: v3)
  have g: "rb_get_parent s3 a = Some (pptr path)" using f(1,3) nn(2) by (simp add: v3)
  have k4: "rb_child Lft (hang s3 path n) a = Some (tptr l)" using a4(1) f(5) nn(2) q(1) by (simp add: v3)
  have k5: "rb_child Rgt s5 a = Some (tptr rr)" using a4(2) f(6) nn(2) q(1) by (simp add: v5 v3)
  have p5: "rb_set_parent (hang s3 path n) (tptr l) n = Some s5"
    using hang_views(3) [OF lh] ml(3) by (simp add: s5_def v3)
  have p6: "(if tptr rr \<noteq> 0 then rb_set_parent s5 (tptr rr) n else Some s5) = Some s'" using mr v5(1) by (simp add: s'_def)
  have c2: "rb_set_child Lft s1 n (rb_left o1) = Some (uchild Lft s1 n (tptr l))"
    "rb_set_child Rgt (uchild Lft s1 n (tptr l)) n (rb_right o1) = Some s3"
    using n(1) v1(1) ok by (simp_all add: s3_def)
  show ?thesis using od s1 c2 g s4 k4 p5 k5 p6 rep' v'(1) by blast
qed

lemma pnodes_append: "pnodes (p @ q) = pnodes p @ pnodes q"
proof (induction p)
  case (Cons f p)
  then show ?case by (cases f) simp
qed simp

lemma rb_unlink_two_ok:
  assumes r: "rep s path (Bin c l a rr)" and l: "l \<noteq> Tip" and rr: "rr \<noteq> Tip" and k: "hgt rr \<le> k"
  shows "\<exists>s' lp cn n y. rr = fill lp (bin Lft cn Tip n y) \<and> before lp = [] \<and>
    rb_unlink_two k s a = Some (s', tptr y, pptr (lp @ (Rgt, c, n, l) # path), cn) \<and>
    rep s' (lp @ (Rgt, c, n, l) # path) y \<and> rlive s' = rlive s"
proof -
  obtain lp cn n y where lm: "rr = fill lp (bin Lft cn Tip n y)" "before lp = []" "\<forall>f \<in> set lp. fst f = Lft"
    using leftmost [OF rr] by blast
  let ?old = "lp @ (Rgt, c, a, l) # path"
  have b: "rep s path (bin Rgt c rr a l)" using r by simp
  note f = rep_focus [OF b] and rR = rep_child [OF b]
  have rn: "rep s ?old (bin Lft cn Tip n y)" using rR by (simp add: rep_fill_append lm(1))
  note fn = rep_focus [OF rn] and rh = reparent_hang [OF rn]
  have d: "rb_descend Lft k s (tptr rr) = Some n"
  proof -
    have "end_of Lft rr = n" by (simp add: end_of_def lm(1,2) nodes_fill)
    then show ?thesis using rb_descend_rep [OF rR rr k, of Lft] by simp
  qed
  define s1 where "s1 = (if tptr y \<noteq> 0 then uparent s (tptr y) (pptr ?old) else s)"
  define s2 where "s2 = hang s1 ?old (tptr y)"
  have s1: "(if tptr y \<noteq> 0 then rb_set_parent s (tptr y) (pptr ?old) else Some s) = Some s1" "rlive s1 = rlive s"
    using rh(4,5) by (simp_all add: s1_def)
  have s2: "rep s2 ?old y" "rlive s2 = rlive s" using rh(1,2) by (simp_all add: s1_def s2_def)
  have pq: "pptr ?old = a \<longleftrightarrow> lp = []"
  proof (cases lp)
    case (Cons g gs)
    obtain d' c' b' t' where "g = (d', c', b', t')" by (cases g)
    then show ?thesis using rn by (auto simp: Cons rep_def pnodes_append)
  qed simp
  have up: "(if pptr ?old = a then do { s \<leftarrow> rb_set_child Rgt s1 (pptr ?old) (tptr y); Some (s, n) }
        else do { s \<leftarrow> rb_set_child Lft s1 (pptr ?old) (tptr y); Some (s, pptr ?old) }) =
      Some (s2, pptr (lp @ (Rgt, c, n, l) # path))"
  proof (cases lp)
    case Nil
    then show ?thesis using f(1) s1(2) by (simp add: s2_def hang_def)
  next
    case (Cons g gs)
    obtain c' b' t' where g: "g = (Lft, c', b', t')" using lm(3) by (cases g) (auto simp: Cons)
    have "b' \<in> rlive s" using rn by (auto simp: rep_def Cons g)
    then show ?thesis using s1(2) pq by (simp add: s2_def hang_def Cons g)
  qed
  have r2: "rep s2 path (Bin c l a (fill lp y))"
    using s2(1) by (simp add: rep_fill_append rep_up)
  have "n \<notin> set (pnodes ?old @ nodes y)" using rn by (auto simp: rep_def distinct_bin)
  moreover have "set (pnodes ?old @ nodes y) = set (pnodes path @ nodes (Bin c l a (fill lp y)))"
    using nodes_fill_set [of lp y] nodes_fill_set [of "?old" y] nodes_fill_set [of path "Bin c l a (fill lp y)"]
    by (auto simp: fill_append nodes_fill_set pnodes_append)
  ultimately have n: "n \<in> rlive s2" "al n" "n \<notin> set (pnodes path)" "n \<notin> set (nodes (Bin c l a (fill lp y)))"
    using fn(1) s2(2) rn by (auto simp: rep_def)
  obtain o1 t1 t2 t3 t4 t5 s' where t: "rb_deref s2 a = Some o1"
    "rb_store s2 n (\<lambda>x. x\<lparr>rb_parent_color := rb_parent_color o1\<rparr>) = Some t1"
    "rb_set_child Lft t1 n (rb_left o1) = Some t2" "rb_set_child Rgt t2 n (rb_right o1) = Some t3"
    "rb_get_parent t3 a = Some (pptr path)" "rb_replace_in_parent Lft t3 (pptr path) a n = Some t4"
    "rb_child Lft t4 a = Some (tptr l)" "rb_set_parent t4 (tptr l) n = Some t5" "rb_child Rgt t5 a = Some (tptr (fill lp y))"
    "(if tptr (fill lp y) \<noteq> 0 then rb_set_parent t5 (tptr (fill lp y)) n else Some t5) = Some s'"
    "rep s' path (Bin c l n (fill lp y))" "rlive s' = rlive s2"
    using replace_node_ok [OF r2 l n] by blast
  have "rb_unlink_two k s a = Some (s', tptr y, pptr (lp @ (Rgt, c, n, l) # path), cn)"
  proof -
    have "rb_unlink_two k s a = do {
       (s, parent) \<leftarrow> (if pptr ?old = a then do { s \<leftarrow> rb_set_child Rgt s1 (pptr ?old) (tptr y); Some (s, n) }
          else do { s \<leftarrow> rb_set_child Lft s1 (pptr ?old) (tptr y); Some (s, pptr ?old) });
       o1 \<leftarrow> rb_deref s a;
       s \<leftarrow> rb_store s n (\<lambda>n. n\<lparr>rb_parent_color := rb_parent_color o1\<rparr>);
       s \<leftarrow> rb_set_child Lft s n (rb_left o1);
       s \<leftarrow> rb_set_child Rgt s n (rb_right o1);
       op \<leftarrow> rb_get_parent s a;
       s \<leftarrow> rb_replace_in_parent Lft s op a n;
       l \<leftarrow> rb_child Lft s a;
       s \<leftarrow> rb_set_parent s l n;
       r \<leftarrow> rb_child Rgt s a;
       s \<leftarrow> (if r \<noteq> 0 then rb_set_parent s r n else Some s);
       Some (s, tptr y, parent, cn) }"
      using f(1,5) fn d s1(1) by (simp add: rb_unlink_two_def)
    then show ?thesis by (simp only: up bind.bind_lunit prod.case t)
  qed
  moreover have "rep s' (lp @ (Rgt, c, n, l) # path) y" using t(11) by (simp add: rep_fill_append rep_up)
  ultimately show ?thesis using lm(1,2) t(12) s2(2) by blast
qed

subsection \<open>Removal\<close>

lemma pinv_addr: "pinv (lp @ (d, c, a, t) # ps) k = pinv (lp @ (d, c, b, t) # ps) k" "pcol (lp @ (d, c, a, t) # ps) = pcol (lp @ (d, c, b, t) # ps)"
proof -
  show p: "pcol (lp @ (d, c, a, t) # ps) = pcol (lp @ (d, c, b, t) # ps)" for lp
    by (cases lp) auto
  show "pinv (lp @ (d, c, a, t) # ps) k = pinv (lp @ (d, c, b, t) # ps) k"
  proof (induction lp arbitrary: k)
    case (Cons f lp)
    then show ?case using p [of lp] by (cases f) auto
  qed simp
qed

lemma rb_erase_rep:
  assumes r: "rep s [] t" "rbt t" "nodes t = xs @ a # ys"
  shows "\<exists>s' t'. rb_erase RB_FUEL s a = Some s' \<and> rep s' [] t' \<and> rbt t' \<and> nodes t' = xs @ ys \<and> rlive s' = rlive s"
proof -
  obtain path c l rr where p: "fill path (Bin c l a rr) = t" "before path @ nodes l = xs" "nodes rr @ after path = ys"
    using node_path [OF r(3)] by blast
  have rp: "rep s path (Bin c l a rr)" using r(1) p(1) rep_fill [of s path "Bin c l a rr"] by simp
  have b: "rep s path (bin Lft c l a rr)" using rp by simp
  note f = rep_focus [OF b]
  have inv: "pinv path (bh (Bin c l a rr))" "invc (Bin c l a rr)" "invh (Bin c l a rr)"
    "pcol path = RB_RED \<longrightarrow> c = RB_BLACK" "path = [] \<longrightarrow> c = RB_BLACK"
    using fill_inv_rev [of path "Bin c l a rr"] r(2) p(1) by (simp_all add: rbt_def)
  have hb: "length path + hgt (Bin c l a rr) \<le> 128"
    using hgt_fill [of path "Bin c l a rr"] rbt_height [OF r(1,2)] p(1) by simp
  have lr: "rb_child Lft s a = Some (tptr l)" "rb_child Rgt s a = Some (tptr rr)"
    "(tptr l = 0) = (l = Tip)" "(tptr rr = 0) = (rr = Tip)"
    using f rep_tptr(2) [OF rep_child [OF b]] rep_tptr(2) [OF rep_child_opp [OF b]] by simp_all
  consider (noleft) "l = Tip" | (noright) "l \<noteq> Tip" "rr = Tip" | (two) "l \<noteq> Tip" "rr \<noteq> Tip" by blast
  then show ?thesis
  proof cases
    case noleft
    have b1: "rep s path (bin Lft c Tip a rr)" using rp noleft by simp
    obtain s1 where s1: "rb_unlink_one s a (tptr rr) = Some (s1, pptr path, c)" "rep s1 path rr" "rlive s1 = rlive s"
      using rb_unlink_one_ok [OF b1] by blast
    have "rb_erase RB_FUEL s a = (if c = RB_BLACK then rb_erase_color RB_FUEL s1 (tptr rr) (pptr path) else Some s1)"
      using lr noleft s1(1) by (simp add: rb_erase_def)
    moreover have "nodes (fill path rr) = xs @ ys" using p(2,3) noleft by (simp add: nodes_fill)
    ultimately show ?thesis
      using rb_erase_finish [OF s1(2), where d = Lft and c = c and a = a and k = RB_FUEL] inv hb s1(3) by (auto simp: noleft RB_FUEL_def)
  next
    case noright
    have b1: "rep s path (bin Rgt c Tip a l)" using rp noright by simp
    obtain s1 where s1: "rb_unlink_one s a (tptr l) = Some (s1, pptr path, c)" "rep s1 path l" "rlive s1 = rlive s"
      using rb_unlink_one_ok [OF b1] by blast
    have "rb_erase RB_FUEL s a = (if c = RB_BLACK then rb_erase_color RB_FUEL s1 (tptr l) (pptr path) else Some s1)"
      using lr noright s1(1) by (simp add: rb_erase_def)
    moreover have "nodes (fill path l) = xs @ ys" using p(2,3) noright by (simp add: nodes_fill)
    ultimately show ?thesis
      using rb_erase_finish [OF s1(2), where d = Rgt and c = c and a = a and k = RB_FUEL] inv hb s1(3) by (auto simp: noright RB_FUEL_def)
  next
    case two
    have hr: "hgt rr \<le> RB_FUEL" using hb by (simp add: RB_FUEL_def)
    obtain s1 lp cn n y where s1: "rr = fill lp (bin Lft cn Tip n y)" "before lp = []"
      "rb_unlink_two RB_FUEL s a = Some (s1, tptr y, pptr (lp @ (Rgt, c, n, l) # path), cn)"
      "rep s1 (lp @ (Rgt, c, n, l) # path) y" "rlive s1 = rlive s"
      using rb_unlink_two_ok [OF rp two hr] by blast
    let ?np = "lp @ (Rgt, c, n, l) # path" and ?op = "lp @ (Rgt, c, a, l) # path"
    have ft: "fill ?op (bin Lft cn Tip n y) = t" using p(1) s1(1) by (simp add: fill_append)
    have i: "pinv ?np (bh (bin Lft cn Tip n y))" "invc (bin Lft cn Tip n y)" "invh (bin Lft cn Tip n y)"
      "pcol ?np = RB_RED \<longrightarrow> cn = RB_BLACK" "?np = [] \<longrightarrow> cn = RB_BLACK"
      using fill_inv_rev [of ?op "bin Lft cn Tip n y"] r(2) ft pinv_addr(1) [of lp Rgt c a l path _ n] pinv_addr(2) [of lp Rgt c a l path n]
      by (simp_all add: rbt_def)
    have "length ?op \<le> 128" using hgt_fill [of ?op "bin Lft cn Tip n y"] rbt_height [OF r(1,2)] ft by simp
    then have k: "length ?np < RB_FUEL" by (simp add: RB_FUEL_def)
    have "rb_erase RB_FUEL s a = (if cn = RB_BLACK then rb_erase_color RB_FUEL s1 (tptr y) (pptr ?np) else Some s1)"
      using lr two s1(3) by (simp add: rb_erase_def)
    moreover have "nodes (fill ?np y) = xs @ ys"
      using p(2,3) s1(1,2) by (auto simp: nodes_fill before_after_append)
    ultimately show ?thesis using rb_erase_finish [OF s1(4) i k] s1(5) by auto
  qed
qed

subsection \<open>Properties\<close>

text \<open>A state holds a red-black tree whose nodes, in order, are \<open>xs\<close>.\<close>

definition rb_seq :: "rb_root_t \<Rightarrow> rptr list \<Rightarrow> bool" where
  "rb_seq s xs \<longleftrightarrow> (\<exists>t. rep s [] t \<and> rbt t \<and> nodes t = xs)"

text \<open>The parent and the slot of the place between \<open>xs\<close> and \<open>ys\<close>, as a search for it ends.\<close>

definition rb_place :: "rb_root_t \<Rightarrow> rptr list \<Rightarrow> rptr list \<Rightarrow> rptr \<Rightarrow> rb_slot \<Rightarrow> bool" where
  "rb_place s xs ys parent link \<longleftrightarrow>
     (\<exists>path. rep s path Tip \<and> rbt (fill path Tip) \<and> before path = xs \<and> after path = ys \<and> parent = pptr path \<and> link = path_slot path)"

lemma rb_seq_insert:
  assumes "rb_place s xs ys parent link" "x \<in> rlive s" "al x" "x \<notin> set (xs @ ys)"
  shows "\<exists>s1 s2. rb_link_node s x parent link = Some s1 \<and> rb_insert_color RB_FUEL s1 x = Some s2 \<and>
    rb_seq s2 (xs @ x # ys) \<and> rlive s2 = rlive s"
proof -
  obtain path where p: "rep s path Tip" "rbt (fill path Tip)" "before path = xs" "after path = ys"
    "parent = pptr path" "link = path_slot path" using assms(1) by (auto simp: rb_place_def)
  have "rep s [] (fill path Tip)" using p(1) rep_fill by blast
  moreover have n: "nodes (fill path Tip) = xs @ ys" using p(3,4) by (simp add: nodes_fill)
  ultimately show ?thesis
    using rb_insert_rep [of s "fill path Tip" xs ys x path] p assms(2-4) by (auto simp: rb_seq_def)
qed

lemma rb_place_exists:
  assumes "rb_seq s (xs @ ys)"
  shows "\<exists>parent link. rb_place s xs ys parent link"
proof -
  obtain t where t: "rep s [] t" "rbt t" "nodes t = xs @ ys" using assms by (auto simp: rb_seq_def)
  obtain path where p: "fill path Tip = t" "before path = xs" "after path = ys" using split_path [OF t(3)] by blast
  then have "rep s path Tip" using t(1) rep_fill [of s path Tip] by simp
  then show ?thesis using p t(2) by (auto simp: rb_place_def)
qed

lemma rb_seq_erase:
  assumes "rb_seq s (xs @ a # ys)"
  shows "\<exists>s'. rb_erase RB_FUEL s a = Some s' \<and> rb_seq s' (xs @ ys) \<and> rlive s' = rlive s"
  using assms rb_erase_rep by (fastforce simp: rb_seq_def)

lemma rb_seq_first:
  assumes "rb_seq s xs"
  shows "rb_first RB_FUEL s = Some (if xs = [] then 0 else hd xs)" "rb_last RB_FUEL s = Some (if xs = [] then 0 else last xs)"
proof -
  obtain t where t: "rep s [] t" "rbt t" "nodes t = xs" using assms by (auto simp: rb_seq_def)
  have "hgt t \<le> RB_FUEL" using rbt_height [OF t(1,2)] by (simp add: RB_FUEL_def)
  from rb_first_last_rep [OF t(1) this] t(3)
  show "rb_first RB_FUEL s = Some (if xs = [] then 0 else hd xs)" "rb_last RB_FUEL s = Some (if xs = [] then 0 else last xs)"
    by simp_all
qed

lemma rb_seq_next:
  assumes "rb_seq s (xs @ a # ys)"
  shows "rb_next RB_FUEL s a = Some (if ys = [] then 0 else hd ys)" "rb_prev RB_FUEL s a = Some (if xs = [] then 0 else last xs)"
proof -
  obtain t where t: "rep s [] t" "rbt t" "nodes t = xs @ a # ys" using assms by (auto simp: rb_seq_def)
  have "hgt t \<le> RB_FUEL" using rbt_height [OF t(1,2)] by (simp add: RB_FUEL_def)
  from rb_next_prev_rep [OF t(1,3) this]
  show "rb_next RB_FUEL s a = Some (if ys = [] then 0 else hd ys)" "rb_prev RB_FUEL s a = Some (if xs = [] then 0 else last xs)"
    by simp_all
qed

lemma rb_seq_nz: "rb_seq s xs \<Longrightarrow> distinct xs \<and> 0 \<notin> set xs \<and> set xs \<subseteq> rlive s"
  using trep_no_0 by (fastforce simp: rb_seq_def rep_def)

definition demo_tree :: rb_root_t where
  "demo_tree = \<lparr>rb_node = 0, rb_heap = (\<lambda>p. if p = 16 \<or> p = 32 \<or> p = 48 then Some \<lparr>rb_parent_color = 0, rb_right = 0, rb_left = 0\<rparr> else None)\<rparr>"

lemma demo_tree_seq: "rb_seq demo_tree []" "16 \<in> rlive demo_tree" "al 16" "32 \<in> rlive demo_tree" "al 32"
proof -
  have "rep demo_tree [] Tip \<and> rbt Tip \<and> nodes Tip = []" by (simp add: rep_def demo_tree_def rbt_def)
  then show "rb_seq demo_tree []" unfolding rb_seq_def by blast
qed (simp_all add: rlive_def demo_tree_def al_def)

lemma demo_tree_two: "\<exists>s. rb_seq s [16, 32]"
proof -
  have "rb_seq demo_tree ([] @ [])" using demo_tree_seq(1) by simp
  then obtain q l where "rb_place demo_tree [] [] q l" using rb_place_exists by blast
  then obtain s where s: "rb_seq s ([16] @ [])" "rlive s = rlive demo_tree"
    using rb_seq_insert [of demo_tree "[]" "[]" q l 16] demo_tree_seq by auto
  then obtain q' l' where "rb_place s [16] [] q' l'" using rb_place_exists by blast
  then show ?thesis using rb_seq_insert [of s "[16]" "[]" q' l' 32] s(2) demo_tree_seq by auto
qed

text \<open>C16: For every place in the order of a red-black tree there are a parent and a link pointer;
  linking a fresh node there and calling \<open>rb_insert_color\<close> ends, never touches a NULL pointer
  and gives a red-black tree again, with the new node at that place and all others in their
  order.\<close>

theorem rb_insert_ok:
  assumes "rb_seq s (xs @ ys)" "x \<in> rlive s" "al x" "x \<notin> set (xs @ ys)"
  shows "(\<exists>parent link. rb_place s xs ys parent link) \<and>
    (\<forall>parent link. rb_place s xs ys parent link \<longrightarrow>
      (\<exists>s1 s2. rb_link_node s x parent link = Some s1 \<and> rb_insert_color RB_FUEL s1 x = Some s2 \<and>
        rb_seq s2 (xs @ x # ys) \<and> rlive s2 = rlive s))"
  using rb_place_exists [OF assms(1)] rb_seq_insert assms(2-4) by blast

theorem rb_insert_ok_witness:
  "\<exists>parent link s1 s2. rb_link_node demo_tree 16 parent link = Some s1 \<and> rb_insert_color RB_FUEL s1 16 = Some s2 \<and> rb_seq s2 [16]"
proof -
  have "rb_seq demo_tree ([] @ [])" using demo_tree_seq(1) by simp
  from rb_insert_ok [OF this demo_tree_seq(2,3)] show ?thesis by fastforce
qed

text \<open>C2: Removing any node of a red-black tree, with no, one or two children, ends, never touches a
  NULL pointer and gives a red-black tree of exactly the other nodes in their order.\<close>

theorem rb_erase_ok:
  assumes "rb_seq s (xs @ a # ys)"
  shows "\<exists>s'. rb_erase RB_FUEL s a = Some s' \<and> rb_seq s' (xs @ ys) \<and> rlive s' = rlive s"
  by (rule rb_seq_erase [OF assms])

theorem rb_erase_ok_witness:
  "\<exists>s s'. rb_seq s [16, 32] \<and> rb_erase RB_FUEL s 16 = Some s' \<and> rb_seq s' [32]"
proof -
  obtain s where s: "rb_seq s [16, 32]" using demo_tree_two by blast
  then have "rb_seq s ([] @ 16 # [32])" by simp
  from rb_erase_ok [OF this] s show ?thesis by auto
qed

text \<open>\<open>rb_first\<close> and \<open>rb_last\<close> are the ends of the order, NULL for the empty tree; \<open>rb_next\<close> and
  \<open>rb_prev\<close> of any node are its neighbours in the order, NULL at the ends.\<close>

theorem rb_traversal_ok:
  assumes "rb_seq s (xs @ a # ys)"
  shows "rb_first RB_FUEL s = Some (hd (xs @ [a])) \<and> rb_last RB_FUEL s = Some (last (a # ys)) \<and>
    rb_next RB_FUEL s a = Some (if ys = [] then 0 else hd ys) \<and> rb_prev RB_FUEL s a = Some (if xs = [] then 0 else last xs)"
  using rb_seq_first [OF assms] rb_seq_next [OF assms] by (cases xs) simp_all

theorem rb_traversal_ok_witness:
  "\<exists>s. rb_seq s [16, 32] \<and> rb_first RB_FUEL s = Some 16 \<and> rb_next RB_FUEL s 16 = Some 32"
proof -
  obtain s where s: "rb_seq s [16, 32]" using demo_tree_two by blast
  then have "rb_seq s ([] @ 16 # [32])" by simp
  from rb_traversal_ok [OF this] s show ?thesis by auto
qed

end
