(* ===== verification/Run_Queue.thy ===== *)
theory Run_Queue
  imports Ava_Prelude
begin

section \<open>The contract of a run queue\<close>

text \<open>
  What a scheduler needs of the structure that holds its waiting tasks: a queued task stands behind
  those whose key is not greater, the first one can be read, any one can be taken out. From that
  follow the facts its clients use: the first task has the least key, and emptying the queue
  from the front gives the tasks by key, those of equal key in the order they came.
\<close>

definition enqueue :: "('i \<Rightarrow> 'k::linorder) \<Rightarrow> 'i \<Rightarrow> 'i list \<Rightarrow> 'i list" where
  "enqueue key i xs = takeWhile (\<lambda>j. key j \<le> key i) xs @ i # dropWhile (\<lambda>j. key j \<le> key i) xs"

lemma sorted_dropWhile_above:
  assumes "sorted (map key xs)" "j \<in> set (dropWhile (\<lambda>j. key j \<le> k) xs)"
  shows "k < key j"
  using assms by (induction xs) (auto split: if_splits intro: less_le_trans)

lemma enqueue_parts:
  obtains A B where "xs = A @ B" "enqueue key i xs = A @ i # B" "\<And>j. j \<in> set A \<Longrightarrow> key j \<le> key i"
    "\<And>j. sorted (map key xs) \<Longrightarrow> j \<in> set B \<Longrightarrow> key i < key j"
proof
  show "xs = takeWhile (\<lambda>j. key j \<le> key i) xs @ dropWhile (\<lambda>j. key j \<le> key i) xs" by simp
qed (auto simp: enqueue_def dest: set_takeWhileD sorted_dropWhile_above)

lemma set_enqueue [simp]: "set (enqueue key i xs) = insert i (set xs)"
  by (rule enqueue_parts [of xs key i]) auto

lemma length_enqueue [simp]: "length (enqueue key i xs) = Suc (length xs)"
  by (rule enqueue_parts [of xs key i]) auto

lemma distinct_enqueue: "distinct xs \<Longrightarrow> i \<notin> set xs \<Longrightarrow> distinct (enqueue key i xs)"
  by (rule enqueue_parts [of xs key i]) auto

lemma sorted_enqueue:
  assumes "sorted (map key xs)"
  shows "sorted (map key (enqueue key i xs))"
proof (rule enqueue_parts [of xs key i])
  fix A B assume p: "xs = A @ B" "enqueue key i xs = A @ i # B" "\<And>j. j \<in> set A \<Longrightarrow> key j \<le> key i"
    "\<And>j. sorted (map key xs) \<Longrightarrow> j \<in> set B \<Longrightarrow> key i < key j"
  have "\<And>j. j \<in> set B \<Longrightarrow> key i \<le> key j" using p(4) [OF assms] by (simp add: less_imp_le)
  then show ?thesis using assms p(3) unfolding p(2) unfolding p(1) by (auto simp: sorted_append)
qed

lemma enqueue_split:
  assumes "\<And>j. j \<in> set xs \<Longrightarrow> key j \<le> key i" "\<And>j. j \<in> set ys \<Longrightarrow> key i < key j"
  shows "enqueue key i (xs @ ys) = xs @ i # ys"
proof -
  have "takeWhile (\<lambda>j. key j \<le> key i) ys = []" "dropWhile (\<lambda>j. key j \<le> key i) ys = ys"
    using assms(2) by (cases ys; simp add: not_le)+
  then show ?thesis using assms(1) by (simp add: enqueue_def takeWhile_append dropWhile_append)
qed

lemma enqueue_cong: "(\<And>j. j = i \<or> j \<in> set xs \<Longrightarrow> key j = key' j) \<Longrightarrow> enqueue key i xs = enqueue key' i xs"
  unfolding enqueue_def by (intro arg_cong2 [where f = append] takeWhile_cong arg_cong [where f = "Cons i"] dropWhile_cong) auto

text \<open>Reading and removing the first task until the queue is empty.\<close>

fun drain :: "('s \<Rightarrow> 'i option option) \<Rightarrow> ('s \<Rightarrow> 'i \<Rightarrow> 's option) \<Rightarrow> nat \<Rightarrow> 's \<Rightarrow> 'i list option" where
  "drain first remove 0 s = None"
| "drain first remove (Suc n) s = do {
     r \<leftarrow> first s;
     case r of None \<Rightarrow> Some []
     | Some i \<Rightarrow> do { s \<leftarrow> remove s i; xs \<leftarrow> drain first remove n s; Some (i # xs) } }"

text \<open>Inserting several tasks.\<close>

fun insert_all :: "('s \<Rightarrow> 'i \<Rightarrow> 's option) \<Rightarrow> 's \<Rightarrow> 'i list \<Rightarrow> 's option" where
  "insert_all ins s [] = Some s"
| "insert_all ins s (i # is) = do { s \<leftarrow> ins s i; insert_all ins s is }"

locale run_queue =
  fixes holds :: "'s \<Rightarrow> 'i list \<Rightarrow> bool"
    and key :: "'s \<Rightarrow> 'i \<Rightarrow> 'k::linorder"
    and joins :: "'s \<Rightarrow> 'i \<Rightarrow> bool"
    and ins :: "'s \<Rightarrow> 'i \<Rightarrow> 's option"
    and remove :: "'s \<Rightarrow> 'i \<Rightarrow> 's option"
    and first :: "'s \<Rightarrow> 'i option option"
  assumes holds_order: "holds s xs \<Longrightarrow> sorted (map (key s) xs) \<and> distinct xs"
    and ins_law: "\<lbrakk>holds s xs; joins s i; i \<notin> set xs\<rbrakk> \<Longrightarrow>
      \<exists>s'. ins s i = Some s' \<and> holds s' (enqueue (key s) i xs) \<and> key s' = key s \<and> joins s' = joins s"
    and remove_law: "holds s (xs @ i # ys) \<Longrightarrow>
      \<exists>s'. remove s i = Some s' \<and> holds s' (xs @ ys) \<and> key s' = key s \<and> joins s' = joins s"
    and first_law: "holds s xs \<Longrightarrow> first s = Some (if xs = [] then None else Some (hd xs))"
begin

lemma first_least:
  assumes "holds s xs" "first s = Some (Some i)"
  shows "i \<in> set xs" "j \<in> set xs \<Longrightarrow> key s i \<le> key s j"
proof -
  obtain ys where xs: "xs = i # ys" using assms first_law [OF assms(1)] by (cases xs) auto
  then show "i \<in> set xs" "j \<in> set xs \<Longrightarrow> key s i \<le> key s j" using holds_order [OF assms(1)] by auto
qed

lemma drain_order: "holds s xs \<Longrightarrow> length xs < n \<Longrightarrow> drain first remove n s = Some xs"
proof (induction n arbitrary: s xs)
  case (Suc n)
  show ?case
  proof (cases xs)
    case Nil
    then show ?thesis using first_law [OF Suc.prems(1)] by simp
  next
    case (Cons i ys)
    then obtain s' where "remove s i = Some s'" "holds s' ys" using remove_law [of s "[]" i ys] Suc.prems(1) by auto
    then show ?thesis using first_law [OF Suc.prems(1)] Suc.IH [of s' ys] Suc.prems(2) Cons by simp
  qed
qed simp

lemma insert_all_law:
  "\<lbrakk>holds s xs; \<And>i. i \<in> set is \<Longrightarrow> joins s i; distinct is; set is \<inter> set xs = {}\<rbrakk> \<Longrightarrow>
    \<exists>s'. insert_all ins s is = Some s' \<and> holds s' (fold (enqueue (key s)) is xs) \<and> key s' = key s"
proof (induction "is" arbitrary: s xs)
  case (Cons i "is")
  obtain s1 where s1: "ins s i = Some s1" "holds s1 (enqueue (key s) i xs)" "key s1 = key s" "joins s1 = joins s"
    using ins_law [OF Cons.prems(1), of i] Cons.prems by auto
  have "\<exists>s'. insert_all ins s1 is = Some s' \<and> holds s' (fold (enqueue (key s1)) is (enqueue (key s) i xs)) \<and> key s' = key s1"
    using Cons.prems s1(4) by (intro Cons.IH [OF s1(2)]) auto
  then show ?case using s1 by auto
qed simp

lemma schedule_order:
  assumes "holds s []" "\<And>i. i \<in> set is \<Longrightarrow> joins s i" "distinct is" "length is < n"
  shows "\<exists>s'. insert_all ins s is = Some s' \<and> drain first remove n s' = Some (fold (enqueue (key s)) is [])"
proof -
  obtain s' where s': "insert_all ins s is = Some s'" "holds s' (fold (enqueue (key s)) is [])"
    using insert_all_law [OF assms(1), of "is"] assms by auto
  have "length (fold (enqueue k) is xs) = length is + length xs" for k :: "'i \<Rightarrow> 'k" and xs
    by (induction "is" arbitrary: xs) simp_all
  then show ?thesis using s' drain_order assms(4) by auto
qed

end

end
