(* ===== verification/Float_Round.thy ===== *)
theory Float_Round
  imports Ava_Prelude
begin

section \<open>Rounding to a binary floating point format\<close>

text \<open>
  The magnitude bits of a non-negative IEEE number are ordered as the numbers are. \<open>fp_mag p\<close> reads
  them, for a format with \<open>p\<close> fraction bits, as an integer in units of the least positive number
  (the bits of infinity read as the power of two they stand for in the rounding rule), and
  \<open>fp_up p n d\<close> is the rounding of \<open>n / d\<close> such units to the nearest number, ties to the even one.
  The two are inverse on the numbers of the format and both are monotone; all that the components
  need of rounding follows from that.
\<close>

subsection \<open>Rounding to nearest, ties to even\<close>

function nbits :: "int \<Rightarrow> nat" where
  "nbits n = (if n \<le> 0 then 0 else Suc (nbits (n div 2)))"
  by pat_completeness auto
termination by (relation "measure nat") auto

declare nbits.simps [simp del]

definition rne :: "int \<Rightarrow> int \<Rightarrow> int" where
  "rne n d = (let q = n div d; r = n mod d in if 2 * r > d \<or> (2 * r = d \<and> odd q) then q + 1 else q)"

definition fp_scale :: "nat \<Rightarrow> int \<Rightarrow> int \<Rightarrow> nat" where
  "fp_scale p n d = nbits (n div d) - (p + 1)"

definition fp_up :: "nat \<Rightarrow> int \<Rightarrow> int \<Rightarrow> int" where
  "fp_up p n d = (let s = fp_scale p n d in int s * 2 ^ p + rne n (d * 2 ^ s))"

definition fp_mag :: "nat \<Rightarrow> int \<Rightarrow> int" where
  "fp_mag p b = (let e = b div 2 ^ p; m = b mod 2 ^ p in
     if e = 0 then m else (2 ^ p + m) * 2 ^ nat (e - 1))"

lemma nbits_0: "n \<le> 0 \<Longrightarrow> nbits n = 0"
  by (simp add: nbits.simps)

lemma nbits_pos: "0 < n \<Longrightarrow> nbits n = Suc (nbits (n div 2))"
  by (simp add: nbits.simps [of n])

lemma nbits_bounds: "0 < n \<Longrightarrow> 2 ^ (nbits n - 1) \<le> n \<and> n < 2 ^ nbits n"
proof (induction n rule: nbits.induct)
  case (1 n)
  show ?case
  proof (cases "n = 1")
    case True
    then show ?thesis by (simp add: nbits_pos nbits_0)
  next
    case False
    then have h: "0 < n div 2" using 1(2) by simp
    then have b: "2 ^ (nbits (n div 2) - 1) \<le> n div 2" "n div 2 < 2 ^ nbits (n div 2)" using 1 by auto
    have "nbits (n div 2) = Suc (nbits (n div 2) - 1)" using nbits_pos [OF h] by simp
    then obtain k where k: "nbits (n div 2) = Suc k" by blast
    have "nbits n = Suc (Suc k)" using nbits_pos [OF 1(2)] k by simp
    moreover have "2 ^ k \<le> n div 2" "n div 2 + 1 \<le> 2 * 2 ^ k" using b k by simp_all
    moreover have "2 * (n div 2) \<le> n" "n \<le> 2 * (n div 2) + 1" by presburger+
    ultimately show ?thesis by simp
  qed
qed

lemma nbits_less: "n < 2 ^ k \<Longrightarrow> nbits n \<le> k"
proof (rule ccontr)
  assume a: "n < 2 ^ k" "\<not> nbits n \<le> k"
  then have n: "0 < n" using nbits_0 [of n] by (cases "n \<le> 0") auto
  have "(2::int) ^ k \<le> 2 ^ (nbits n - 1)" using a(2) by (intro power_increasing) auto
  then show False using nbits_bounds [OF n] a(1) by linarith
qed

lemma nbits_ge: "2 ^ k \<le> n \<Longrightarrow> k < nbits n"
proof (rule ccontr)
  assume a: "2 ^ k \<le> n" "\<not> k < nbits n"
  have "0 < (2::int) ^ k" by simp
  then have n: "0 < n" using a(1) by linarith
  have "(2::int) ^ nbits n \<le> 2 ^ k" using a(2) by (intro power_increasing) auto
  then show False using nbits_bounds [OF n] a(1) by linarith
qed

lemma nbits_mono: "m \<le> n \<Longrightarrow> nbits m \<le> nbits n"
proof (cases "0 < n")
  case True
  assume "m \<le> n"
  then show ?thesis using nbits_bounds [OF True] by (intro nbits_less) linarith
qed (simp add: nbits_0)

lemma rne_half:
  assumes "0 < d"
  shows "2 * n < (2 * b + 1) * d \<Longrightarrow> rne n d \<le> b" "2 * n > (2 * b + 1) * d \<Longrightarrow> b + 1 \<le> rne n d"
    "2 * n = (2 * b + 1) * d \<Longrightarrow> rne n d = (if odd b then b + 1 else b)"
proof -
  define q r where "q = n div d" and "r = n mod d"
  have n: "n = q * d + r" "0 \<le> r" "r < d" using assms by (simp_all add: q_def r_def)
  have e: "rne n d = (if 2 * r > d \<or> (2 * r = d \<and> odd q) then q + 1 else q)"
    by (simp add: rne_def q_def r_def Let_def)
  show "rne n d \<le> b" if h: "2 * n < (2 * b + 1) * d"
  proof (rule ccontr)
    assume c: "\<not> rne n d \<le> b"
    show False
    proof (cases "b + 1 \<le> q")
      case True
      then have "(b + 1) * d \<le> q * d" using assms by (intro mult_right_mono) auto
      then show False using h n assms by (simp add: algebra_simps)
    next
      case False
      then have "q = b" "2 * r \<ge> d" using c e by (auto split: if_splits)
      then show False using h n by (simp add: algebra_simps)
    qed
  qed
  show "b + 1 \<le> rne n d" if h: "2 * n > (2 * b + 1) * d"
  proof (rule ccontr)
    assume c: "\<not> b + 1 \<le> rne n d"
    show False
    proof (cases "q \<le> b - 1")
      case True
      then have "(q + 1) * d \<le> b * d" using assms by (intro mult_right_mono) auto
      then show False using h n assms by (simp add: algebra_simps)
    next
      case False
      then have "q = b" "2 * r \<le> d" using c e by (auto split: if_splits)
      then show False using h n by (simp add: algebra_simps)
    qed
  qed
  show "rne n d = (if odd b then b + 1 else b)" if h: "2 * n = (2 * b + 1) * d"
  proof -
    have "q = b"
    proof (rule ccontr)
      assume "q \<noteq> b"
      then consider "q + 1 \<le> b" | "b + 1 \<le> q" by linarith
      then show False
      proof cases
        case 1
        then have "(q + 1) * d \<le> b * d" using assms by (intro mult_right_mono) auto
        then show False using h n assms by (simp add: algebra_simps)
      next
        case 2
        then have "(b + 1) * d \<le> q * d" using assms by (intro mult_right_mono) auto
        then show False using h n assms by (simp add: algebra_simps)
      qed
    qed
    moreover from this have "2 * r = d" using h n by (simp add: algebra_simps)
    ultimately show ?thesis using e by simp
  qed
qed

lemma rne_exact: "0 < d \<Longrightarrow> rne (k * d) d = k"
  by (simp add: rne_def)

lemma rne_error:
  assumes "0 < d"
  shows "2 * \<bar>rne n d * d - n\<bar> \<le> d"
proof -
  define q r where "q = n div d" and "r = n mod d"
  have n: "n = q * d + r" "0 \<le> r" "r < d" using assms by (simp_all add: q_def r_def)
  have e: "rne n d = (if 2 * r > d \<or> (2 * r = d \<and> odd q) then q + 1 else q)"
    by (simp add: rne_def q_def r_def Let_def)
  show ?thesis using n unfolding e by (auto simp: algebra_simps)
qed

lemma rne_mono:
  assumes d: "0 < d" "0 < d'" and le: "n * d' \<le> n' * d"
  shows "rne n d \<le> rne n' d'"
proof (rule ccontr)
  assume c: "\<not> rne n d \<le> rne n' d'"
  define b where "b = rne n' d'"
  have 1: "(2 * b + 1) * d \<le> 2 * n" using rne_half(1) [OF d(1), of n b] c b_def by linarith
  have 2: "2 * n' \<le> (2 * b + 1) * d'" using rne_half(2) [OF d(2), of b n'] b_def by linarith
  have m1: "(2 * b + 1) * d * d' \<le> 2 * n * d'" using mult_right_mono [OF 1, of d'] d by simp
  have m2: "2 * n' * d \<le> (2 * b + 1) * d' * d" using mult_right_mono [OF 2, of d] d by simp
  have m3: "2 * n * d' \<le> 2 * n' * d" using le by simp
  have m4: "(2 * b + 1) * d' * d = (2 * b + 1) * d * d'" by (simp add: algebra_simps)
  have e1: "(2 * b + 1) * d * d' = 2 * n * d'" using m1 m2 m3 m4 by linarith
  have e2: "2 * n' * d = (2 * b + 1) * d' * d" using m1 m2 m3 m4 by linarith
  have "2 * n = (2 * b + 1) * d" "2 * n' = (2 * b + 1) * d'"
    using mult_right_cancel [THEN iffD1, OF _ e1] mult_right_cancel [THEN iffD1, OF _ e2] d by simp_all
  then have "rne n d = rne n' d'" by (simp only: rne_half(3) [OF d(1), of n b] rne_half(3) [OF d(2), of n' b])
  then show False using c by simp
qed

lemma rne_le: "0 < d \<Longrightarrow> n \<le> k * d \<Longrightarrow> rne n d \<le> k"
  using rne_mono [of d d n "k * d"] rne_exact [of d k] by simp

lemma rne_ge: "0 < d \<Longrightarrow> k * d \<le> n \<Longrightarrow> k \<le> rne n d"
  using rne_mono [of d d "k * d" n] rne_exact [of d k] by simp

subsection \<open>Rounding to a format\<close>

lemma fp_scale_bounds:
  assumes "0 < d"
  shows "n < d * 2 ^ fp_scale p n d * 2 ^ (p + 1)" "0 < fp_scale p n d \<Longrightarrow> d * 2 ^ fp_scale p n d * 2 ^ p \<le> n"
proof -
  let ?q = "n div d" and ?s = "fp_scale p n d"
  have "?q < 2 ^ (?s + (p + 1))"
  proof (cases "0 < ?q")
    case True
    have "nbits ?q \<le> ?s + (p + 1)" by (simp add: fp_scale_def)
    then have "(2::int) ^ nbits ?q \<le> 2 ^ (?s + (p + 1))" by (intro power_increasing) auto
    then show ?thesis using nbits_bounds [OF True] by linarith
  next
    case False
    have "0 < (2::int) ^ (?s + (p + 1))" by simp
    then show ?thesis using False by linarith
  qed
  then have "?q + 1 \<le> 2 ^ (?s + (p + 1))" by linarith
  then have "(?q + 1) * d \<le> 2 ^ (?s + (p + 1)) * d" using assms by (intro mult_right_mono) auto
  moreover have "n < (?q + 1) * d" using assms
    by (metis mult.commute pos_mod_bound add.commute div_mult_mod_eq add_less_cancel_left distrib_left mult.right_neutral)
  ultimately show "n < d * 2 ^ ?s * 2 ^ (p + 1)" by (simp add: power_add algebra_simps)
  assume "0 < ?s"
  then have nb: "nbits ?q - 1 = ?s + p" "0 < nbits ?q" by (simp_all add: fp_scale_def)
  have "0 < ?q" using nb(2) nbits_0 [of ?q] by (cases "?q \<le> 0") auto
  then have "2 ^ (?s + p) \<le> ?q" using nbits_bounds [of ?q] nb(1) by simp
  then have "2 ^ (?s + p) * d \<le> ?q * d" using assms by (intro mult_right_mono) auto
  moreover have "?q * d \<le> n" using assms by (metis div_mult_mod_eq le_add_same_cancel1 pos_mod_sign)
  ultimately show "d * 2 ^ ?s * 2 ^ p \<le> n" by (simp add: power_add algebra_simps)
qed

lemma div_cross_mono:
  assumes "0 < d" "0 < d'" "n * d' \<le> n' * (d::int)"
  shows "n div d \<le> n' div d'"
proof (rule ccontr)
  assume c: "\<not> n div d \<le> n' div d'"
  then have h: "n' div d' + 1 \<le> n div d" by simp
  have "(n div d) * d \<le> n" using assms(1) by (metis div_mult_mod_eq le_add_same_cancel1 pos_mod_sign)
  moreover have "(n' div d' + 1) * d \<le> (n div d) * d" using h assms(1) by (intro mult_right_mono) auto
  ultimately have "(n' div d' + 1) * d \<le> n" by linarith
  then have "(n' div d' + 1) * d * d' \<le> n * d'" using assms(2) by (intro mult_right_mono) auto
  moreover have "n' < (n' div d' + 1) * d'" using assms(2)
    by (metis mult.commute pos_mod_bound add.commute div_mult_mod_eq add_less_cancel_left distrib_left mult.right_neutral)
  then have "n' * d < (n' div d' + 1) * d' * d" using assms(1) by (intro mult_strict_right_mono) auto
  ultimately show False using assms(3) by (simp add: algebra_simps)
qed

lemma fp_up_mono:
  assumes d: "0 < d" "0 < d'" and le: "n * d' \<le> n' * d"
  shows "fp_up p n d \<le> fp_up p n' d'"
proof -
  let ?s = "fp_scale p n d" and ?s' = "fp_scale p n' d'"
  have s: "?s \<le> ?s'" using nbits_mono [OF div_cross_mono [OF d le]] by (simp add: fp_scale_def diff_le_mono)
  show ?thesis
  proof (cases "?s = ?s'")
    case True
    have "n * (d' * 2 ^ ?s) \<le> n' * (d * 2 ^ ?s)" using mult_right_mono [OF le, of "2 ^ ?s"] by (simp add: algebra_simps)
    then have "rne n (d * 2 ^ ?s) \<le> rne n' (d' * 2 ^ ?s)" using d by (intro rne_mono) auto
    then show ?thesis using True by (simp add: fp_up_def Let_def)
  next
    case False
    then have lt: "?s + 1 \<le> ?s'" using s by simp
    have "rne n (d * 2 ^ ?s) \<le> 2 ^ (p + 1)"
      using fp_scale_bounds(1) [OF d(1), of n p] d by (intro rne_le) (auto simp: algebra_simps)
    moreover have "2 ^ p \<le> rne n' (d' * 2 ^ ?s')"
      using fp_scale_bounds(2) [OF d(2), of p n'] lt d by (intro rne_ge) (auto simp: algebra_simps)
    moreover have "(int ?s + 1) * 2 ^ p \<le> int ?s' * 2 ^ p" using lt by (intro mult_right_mono) auto
    ultimately show ?thesis by (simp add: fp_up_def Let_def algebra_simps)
  qed
qed

lemma fp_mag_split: "0 \<le> m \<Longrightarrow> m < 2 ^ p \<Longrightarrow> fp_mag p (int e * 2 ^ p + m) = (if e = 0 then m else (2 ^ p + m) * 2 ^ (e - 1))"
  by (auto simp: fp_mag_def Let_def nat_diff_distrib')

lemma fp_bits_cases:
  assumes "0 \<le> b"
  obtains e m where "b = int e * 2 ^ p + m" "0 \<le> m" "m < 2 ^ p"
proof -
  have "int (nat (b div 2 ^ p)) = b div 2 ^ p" using assms by (simp add: pos_imp_zdiv_nonneg_iff)
  then have "b = int (nat (b div 2 ^ p)) * 2 ^ p + b mod 2 ^ p" by (simp only: div_mult_mod_eq)
  moreover have "0 \<le> b mod 2 ^ p" "b mod 2 ^ p < 2 ^ p" by simp_all
  ultimately show ?thesis using that by blast
qed

lemma fp_mag_nonneg: "0 \<le> b \<Longrightarrow> 0 \<le> fp_mag p b"
  by (simp add: fp_mag_def Let_def)

lemma fp_up_mag1:
  assumes "0 \<le> b"
  shows "fp_up p (fp_mag p b) 1 = b"
proof -
  obtain e m where b: "b = int e * 2 ^ p + m" "0 \<le> m" "m < 2 ^ p" using fp_bits_cases [OF assms] by blast
  show ?thesis
  proof (cases e)
    case 0
    have "nbits m \<le> p" using b(3) by (rule nbits_less)
    then have "fp_scale p m 1 = 0" by (simp add: fp_scale_def)
    then show ?thesis using 0 b rne_exact [of 1 m] fp_mag_split [OF b(2,3), of e] by (simp add: fp_up_def)
  next
    case (Suc k)
    let ?n = "(2 ^ p + m) * 2 ^ k"
    have m: "fp_mag p b = ?n" using b Suc fp_mag_split [OF b(2,3), of e] by simp
    have "2 ^ p * 2 ^ k \<le> ?n" using b(2) by (intro mult_right_mono) auto
    then have "p + k < nbits ?n" by (intro nbits_ge) (simp add: power_add)
    moreover have "?n < 2 ^ (p + 1) * 2 ^ k" using b(3) by (intro mult_strict_right_mono) auto
    then have "nbits ?n \<le> p + 1 + k" by (intro nbits_less) (simp add: power_add)
    ultimately have "fp_scale p ?n 1 = k" by (simp add: fp_scale_def)
    then show ?thesis using m b(1) Suc rne_exact [of "2 ^ k" "2 ^ p + m"] by (simp add: fp_up_def algebra_simps)
  qed
qed

lemma fp_up_mag:
  assumes "0 \<le> b" "0 < d"
  shows "fp_up p (fp_mag p b * d) d = b"
  using fp_up_mono [of d 1 "fp_mag p b * d" "fp_mag p b" p] fp_up_mono [of 1 d "fp_mag p b" "fp_mag p b * d" p]
    fp_up_mag1 [OF assms(1)] assms(2) by (simp add: order_antisym)

lemma fp_mag_less_iff: "0 \<le> a \<Longrightarrow> 0 \<le> b \<Longrightarrow> fp_mag p a < fp_mag p b \<longleftrightarrow> a < b"
proof -
  assume n: "0 \<le> a" "0 \<le> b"
  have le: "c \<le> e" if "0 \<le> c" "0 \<le> e" "fp_mag p c \<le> fp_mag p e" for c e
    using fp_up_mono [of 1 1 "fp_mag p c" "fp_mag p e" p] fp_up_mag1 [OF that(1)] fp_up_mag1 [OF that(2)] that(3) by simp
  have ne: "fp_mag p a \<noteq> fp_mag p b" if "a < b"
    using fp_up_mag1 [OF n(1), of p] fp_up_mag1 [OF n(2), of p] that by auto
  show ?thesis using le [OF n(2,1)] le [OF n] ne by (metis linorder_le_less_linear order_le_less order_less_irrefl linorder_not_less)
qed

lemma fp_mag_le_iff: "0 \<le> a \<Longrightarrow> 0 \<le> b \<Longrightarrow> fp_mag p a \<le> fp_mag p b \<longleftrightarrow> a \<le> b"
  using fp_mag_less_iff [of b a p] by (simp add: linorder_not_less [symmetric])

lemma fp_mag_eq_iff: "0 \<le> a \<Longrightarrow> 0 \<le> b \<Longrightarrow> fp_mag p a = fp_mag p b \<longleftrightarrow> a = b"
  using fp_mag_le_iff [of a b p] fp_mag_le_iff [of b a p] by (auto simp: order_eq_iff)

lemma fp_mag_0 [simp]: "fp_mag p 0 = 0"
  by (simp add: fp_mag_def)

lemma fp_mag_eq_0: "0 \<le> b \<Longrightarrow> fp_mag p b = 0 \<longleftrightarrow> b = 0"
  using fp_mag_eq_iff [of b 0 p] by simp

lemma fp_up_0 [simp]: "0 < d \<Longrightarrow> fp_up p 0 d = 0"
  using fp_up_mag [of 0 d p] by simp

lemma fp_up_nonneg: "0 < d \<Longrightarrow> 0 \<le> n \<Longrightarrow> 0 \<le> fp_up p n d"
  using fp_up_mono [of d d 0 n p] by simp

text \<open>A result between two numbers of the format is rounded to one between them.\<close>

lemma fp_up_between:
  assumes "0 < d" "0 \<le> b"
  shows "n \<le> fp_mag p b * d \<Longrightarrow> fp_up p n d \<le> b" "fp_mag p b * d \<le> n \<Longrightarrow> b \<le> fp_up p n d"
  using fp_up_mono [of d d n "fp_mag p b * d" p] fp_up_mono [of d d "fp_mag p b * d" n p] fp_up_mag [OF assms(2,1), of p] assms
  by simp_all

text \<open>The rounded number is the multiple of its unit nearest to the exact one, at most half a unit away.\<close>

lemma fp_mag_up:
  assumes "0 \<le> n"
  shows "fp_mag p (fp_up p n 1) = rne n (2 ^ fp_scale p n 1) * 2 ^ fp_scale p n 1"
proof -
  let ?s = "fp_scale p n 1"
  define m where "m = rne n (2 ^ ?s)"
  have m0: "0 \<le> m" unfolding m_def using assms by (intro rne_ge) simp_all
  have m1: "m \<le> 2 ^ (p + 1)" unfolding m_def
    using fp_scale_bounds(1) [of 1 n p] by (intro rne_le) (simp_all add: mult.commute)
  have u: "fp_up p n 1 = int ?s * 2 ^ p + m" by (simp add: fp_up_def m_def Let_def)
  consider (top) "m = 2 * 2 ^ p" | (low) "m < 2 ^ p" | (mid) "2 ^ p \<le> m" "m < 2 * 2 ^ p" using m1 by fastforce
  then have "fp_mag p (fp_up p n 1) = m * 2 ^ ?s"
  proof cases
    case top
    have "fp_up p n 1 = int (Suc (Suc ?s)) * 2 ^ p + 0" unfolding u top by (simp add: algebra_simps)
    then show ?thesis using fp_mag_split [of 0 p "Suc (Suc ?s)"] top by simp
  next
    case low
    then have "?s = 0" using fp_scale_bounds(2) [of 1 p n] rne_ge [of "2 ^ ?s" "2 ^ p" n] by (auto simp: m_def mult.commute)
    then show ?thesis using low m0 fp_mag_split [of m p 0] unfolding u by simp
  next
    case mid
    have "fp_up p n 1 = int (Suc ?s) * 2 ^ p + (m - 2 ^ p)" unfolding u by (simp add: algebra_simps)
    then show ?thesis using mid fp_mag_split [of "m - 2 ^ p" p "Suc ?s"] by simp
  qed
  then show ?thesis by (simp add: m_def)
qed

lemma fp_up_error:
  assumes "0 \<le> n" "n < 2 ^ (p + 1 + k)"
  shows "2 * \<bar>fp_mag p (fp_up p n 1) - n\<bar> \<le> 2 ^ k"
proof -
  have "nbits n \<le> p + 1 + k" using assms(2) by (rule nbits_less)
  then have "fp_scale p n 1 \<le> k" by (simp add: fp_scale_def)
  then have "(2 :: int) ^ fp_scale p n 1 \<le> 2 ^ k" by (intro power_increasing) auto
  moreover have "2 * \<bar>fp_mag p (fp_up p n 1) - n\<bar> \<le> 2 ^ fp_scale p n 1"
    unfolding fp_mag_up [OF assms(1)] by (rule rne_error) simp
  ultimately show ?thesis by linarith
qed

end
