(* ===== verification/Float32.thy ===== *)
theory Float32
  imports Float_Round
begin

section \<open>Single precision numbers (\<open>f32\<close> of util/typedef.h)\<close>

text \<open>
  C's \<open>float\<close> as the compiler has it on every target of the repository: IEEE binary32, rounding
  to nearest, ties to even, without contraction. A number is its 32 bits; \<open>2 ^ 149\<close> units are 1.
  All operations compute, on integers. Where IEEE leaves the result open (which NaN an invalid
  operation gives) it is one quiet NaN here.
\<close>

subsection \<open>Representation\<close>

datatype f32 = F32 (f32_bits: u32)

definition F32_INF :: int where
  "F32_INF = 0x7F800000"

definition f32_sgn :: "f32 \<Rightarrow> bool" where
  "f32_sgn x \<longleftrightarrow> 2 ^ 31 \<le> uint (f32_bits x)"

definition f32_mbits :: "f32 \<Rightarrow> int" where
  "f32_mbits x = uint (f32_bits x) mod 2 ^ 31"

definition f32_mk :: "bool \<Rightarrow> int \<Rightarrow> f32" where
  "f32_mk s b = F32 (word_of_int ((if s then 2 ^ 31 else 0) + b))"

definition is_nan :: "f32 \<Rightarrow> bool" where
  "is_nan x \<longleftrightarrow> F32_INF < f32_mbits x"

definition is_inf :: "f32 \<Rightarrow> bool" where
  "is_inf x \<longleftrightarrow> f32_mbits x = F32_INF"

definition is_fin :: "f32 \<Rightarrow> bool" where
  "is_fin x \<longleftrightarrow> f32_mbits x < F32_INF"

definition f32_mag :: "f32 \<Rightarrow> int" where
  "f32_mag x = fp_mag 23 (f32_mbits x)"

text \<open>The value, in units of the least positive number.\<close>

definition f32_int :: "f32 \<Rightarrow> int" where
  "f32_int x = (if f32_sgn x then - f32_mag x else f32_mag x)"

definition F32_NAN :: f32 where
  "F32_NAN = F32 0x7FC00000"

definition F32_ONE :: int where
  "F32_ONE = 2 ^ 149"

definition f32_round :: "bool \<Rightarrow> int \<Rightarrow> int \<Rightarrow> f32" where
  "f32_round s n d = f32_mk s (min F32_INF (fp_up 23 n d))"

definition f32_rnd :: "int \<Rightarrow> int \<Rightarrow> f32" where
  "f32_rnd n d = (if n < 0 then f32_round True (- n) d else f32_round False n d)"

subsection \<open>Arithmetic\<close>

definition f32_neg :: "f32 \<Rightarrow> f32" where
  "f32_neg x = f32_mk (\<not> f32_sgn x) (f32_mbits x)"

definition f32_add :: "f32 \<Rightarrow> f32 \<Rightarrow> f32" where
  "f32_add x y =
     (if is_nan x \<or> is_nan y \<or> (is_inf x \<and> is_inf y \<and> f32_sgn x \<noteq> f32_sgn y) then F32_NAN
      else if is_inf x then x
      else if is_inf y then y
      else let z = f32_int x + f32_int y in
        if z = 0 then f32_mk (f32_sgn x \<and> f32_sgn y) 0 else f32_rnd z 1)"

definition f32_mul :: "f32 \<Rightarrow> f32 \<Rightarrow> f32" where
  "f32_mul x y = (let s = (f32_sgn x \<noteq> f32_sgn y) in
     if is_nan x \<or> is_nan y \<or> (f32_mag x = 0 \<and> is_inf y) \<or> (is_inf x \<and> f32_mag y = 0) then F32_NAN
     else if is_inf x \<or> is_inf y then f32_mk s F32_INF
     else f32_round s (f32_mag x * f32_mag y) F32_ONE)"

definition f32_div :: "f32 \<Rightarrow> f32 \<Rightarrow> f32" where
  "f32_div x y = (let s = (f32_sgn x \<noteq> f32_sgn y) in
     if is_nan x \<or> is_nan y \<or> (f32_mag x = 0 \<and> f32_mag y = 0) \<or> (is_inf x \<and> is_inf y) then F32_NAN
     else if is_inf x \<or> f32_mag y = 0 then f32_mk s F32_INF
     else if is_inf y then f32_mk s 0
     else f32_round s (f32_mag x * F32_ONE) (f32_mag y))"

instantiation f32 :: zero
begin
definition zero_f32 :: f32 where "zero_f32 = F32 0"
instance ..
end

instantiation f32 :: one
begin
definition one_f32 :: f32 where "one_f32 = F32 0x3F800000"
instance ..
end

instantiation f32 :: plus
begin
definition plus_f32 :: "f32 \<Rightarrow> f32 \<Rightarrow> f32" where "x + y = f32_add x y"
instance ..
end

instantiation f32 :: uminus
begin
definition uminus_f32 :: "f32 \<Rightarrow> f32" where "- x = f32_neg x"
instance ..
end

instantiation f32 :: minus
begin
definition minus_f32 :: "f32 \<Rightarrow> f32 \<Rightarrow> f32" where "x - y = f32_add x (f32_neg y)"
instance ..
end

instantiation f32 :: times
begin
definition times_f32 :: "f32 \<Rightarrow> f32 \<Rightarrow> f32" where "x * y = f32_mul x y"
instance ..
end

instantiation f32 :: inverse
begin
definition divide_f32 :: "f32 \<Rightarrow> f32 \<Rightarrow> f32" where "divide_f32 x y = f32_div x y"
definition inverse_f32 :: "f32 \<Rightarrow> f32" where "inverse_f32 x = f32_div 1 x"
instance ..
end

text \<open>\<open>fabsf\<close> clears the sign bit; \<open>copysignf\<close> copies it.\<close>

instantiation f32 :: abs
begin
definition abs_f32 :: "f32 \<Rightarrow> f32" where "\<bar>x\<bar> = f32_mk False (f32_mbits x)"
instance ..
end

definition f32_copysign :: "f32 \<Rightarrow> f32 \<Rightarrow> f32" where
  "f32_copysign x y = f32_mk (f32_sgn y) (f32_mbits x)"

text \<open>The comparisons of C: false when an operand is NaN.\<close>

instantiation f32 :: ord
begin
definition less_f32 :: "f32 \<Rightarrow> f32 \<Rightarrow> bool" where
  "x < y \<longleftrightarrow> \<not> is_nan x \<and> \<not> is_nan y \<and> f32_int x < f32_int y"
definition less_eq_f32 :: "f32 \<Rightarrow> f32 \<Rightarrow> bool" where
  "x \<le> y \<longleftrightarrow> \<not> is_nan x \<and> \<not> is_nan y \<and> f32_int x \<le> f32_int y"
instance ..
end

definition f32_eq :: "f32 \<Rightarrow> f32 \<Rightarrow> bool" where
  "f32_eq x y \<longleftrightarrow> \<not> is_nan x \<and> \<not> is_nan y \<and> f32_int x = f32_int y"

subsection \<open>Literals and conversions\<close>

text \<open>The literal \<open>n / d\<close> (written in C as a decimal); integers; truncation to an integer, which is
  undefined for a NaN, an infinity and a value that the integer type does not hold.\<close>

definition f32_lit :: "int \<Rightarrow> int \<Rightarrow> f32" where
  "f32_lit n d = f32_rnd (n * F32_ONE) d"

definition f32_of_int :: "int \<Rightarrow> f32" where
  "f32_of_int n = f32_rnd (n * F32_ONE) 1"

definition f32_of_u32 :: "u32 \<Rightarrow> f32" where
  "f32_of_u32 n = f32_of_int (uint n)"

definition f32_of_u64 :: "u64 \<Rightarrow> f32" where
  "f32_of_u64 n = f32_of_int (uint n)"

definition f32_of_i32 :: "u32 \<Rightarrow> f32" where
  "f32_of_i32 n = f32_of_int (sint n)"

definition f32_trunc :: "f32 \<Rightarrow> int" where
  "f32_trunc x = (if f32_sgn x then - (f32_mag x div F32_ONE) else f32_mag x div F32_ONE)"

definition f32_to_int :: "int \<Rightarrow> int \<Rightarrow> f32 \<Rightarrow> int option" where
  "f32_to_int lo hi x = (if is_fin x \<and> lo \<le> f32_trunc x \<and> f32_trunc x \<le> hi then Some (f32_trunc x) else None)"

definition f32_to_u32 :: "f32 \<Rightarrow> u32 option" where
  "f32_to_u32 x = map_option word_of_int (f32_to_int 0 (2 ^ 32 - 1) x)"

definition f32_to_u64 :: "f32 \<Rightarrow> u64 option" where
  "f32_to_u64 x = map_option word_of_int (f32_to_int 0 (2 ^ 64 - 1) x)"

definition f32_to_i32 :: "f32 \<Rightarrow> u32 option" where
  "f32_to_i32 x = map_option word_of_int (f32_to_int (- (2 ^ 31)) (2 ^ 31 - 1) x)"

subsection \<open>Bits\<close>

lemma f32_mbits_bounds: "0 \<le> f32_mbits x" "f32_mbits x < 2 ^ 31" "f32_mbits x < 2147483648"
  by (simp_all add: f32_mbits_def)

lemma uint_f32_mk: "0 \<le> b \<Longrightarrow> b < 2 ^ 31 \<Longrightarrow> uint (f32_bits (f32_mk s b)) = (if s then 2 ^ 31 else 0) + b"
  unfolding f32_mk_def f32.sel by (subst unsigned_of_int, subst take_bit_int_eq_self) auto

lemma f32_mk_parts [simp]:
  assumes "0 \<le> b" "b < 2 ^ 31"
  shows "f32_sgn (f32_mk s b) = s" "f32_mbits (f32_mk s b) = b"
  using assms uint_f32_mk [OF assms, of s] by (auto simp: f32_sgn_def f32_mbits_def)

lemma uint_f32_bits: "uint (f32_bits x) = (if f32_sgn x then 2 ^ 31 else 0) + f32_mbits x"
proof -
  have "0 \<le> uint (f32_bits x)" "uint (f32_bits x) < 2 ^ 32" using unsigned_less [of "f32_bits x"] by simp_all
  then show ?thesis unfolding f32_sgn_def f32_mbits_def
    using mod_pos_pos_trivial [of "uint (f32_bits x) - 2 ^ 31" "2 ^ 31"]
    by (cases "2 ^ 31 \<le> uint (f32_bits x)") (simp_all add: minus_mod_self2)
qed

lemma f32_mk_self [simp]: "f32_mk (f32_sgn x) (f32_mbits x) = x"
  unfolding f32_mk_def uint_f32_bits [symmetric] by simp

lemma f32_eqI: "f32_sgn x = f32_sgn y \<Longrightarrow> f32_mbits x = f32_mbits y \<Longrightarrow> x = y"
  by (subst f32_mk_self [symmetric, of x], subst f32_mk_self [symmetric, of y]) (simp only:)

lemma f32_kinds: "is_nan x \<longleftrightarrow> \<not> is_inf x \<and> \<not> is_fin x" "is_inf x \<Longrightarrow> \<not> is_fin x"
  by (auto simp: is_nan_def is_inf_def is_fin_def)

lemma is_fin_imp: "is_fin x \<Longrightarrow> \<not> is_nan x \<and> \<not> is_inf x"
  by (auto simp: is_nan_def is_inf_def is_fin_def)

lemma f32_mag_nonneg: "0 \<le> f32_mag x"
  by (simp add: f32_mag_def fp_mag_nonneg f32_mbits_bounds)

lemma f32_mag_0: "f32_mag x = 0 \<longleftrightarrow> f32_mbits x = 0"
  by (simp add: f32_mag_def fp_mag_eq_0 f32_mbits_bounds)

lemma f32_round_parts:
  assumes "0 \<le> n" "0 < d"
  shows "f32_sgn (f32_round s n d) = s" "f32_mbits (f32_round s n d) = min F32_INF (fp_up 23 n d)"
    "\<not> is_nan (f32_round s n d)"
proof -
  have "0 \<le> min F32_INF (fp_up 23 n d)" "min F32_INF (fp_up 23 n d) < 2 ^ 31"
    using fp_up_nonneg [OF assms(2,1), of 23] by (auto simp: F32_INF_def)
  then show "f32_sgn (f32_round s n d) = s" "f32_mbits (f32_round s n d) = min F32_INF (fp_up 23 n d)"
    "\<not> is_nan (f32_round s n d)"
    by (simp_all add: f32_round_def is_nan_def)
qed


subsection \<open>Order\<close>

lemma f32_int_bounds: "\<not> is_nan x \<Longrightarrow> - fp_mag 23 F32_INF \<le> f32_int x \<and> f32_int x \<le> fp_mag 23 F32_INF"
  using fp_mag_le_iff [of "f32_mbits x" F32_INF 23] f32_mbits_bounds [of x] f32_mag_nonneg [of x]
  by (auto simp: f32_int_def f32_mag_def is_nan_def F32_INF_def)

lemma is_fin_iff: "is_fin x \<longleftrightarrow> f32_mag x < fp_mag 23 F32_INF"
  by (simp add: is_fin_def f32_mag_def fp_mag_less_iff f32_mbits_bounds F32_INF_def)

lemma f32_int_eqD: "f32_int x = f32_int y \<Longrightarrow> f32_int x \<noteq> 0 \<Longrightarrow> x = y"
proof -
  assume h: "f32_int x = f32_int y" "f32_int x \<noteq> 0"
  have "f32_sgn x = f32_sgn y" "f32_mag x = f32_mag y"
    using h f32_mag_nonneg [of x] f32_mag_nonneg [of y] by (auto simp: f32_int_def split: if_splits)
  then show ?thesis by (intro f32_eqI) (simp_all add: f32_mag_def fp_mag_eq_iff f32_mbits_bounds)
qed

lemma f32_le_refl: "\<not> is_nan x \<Longrightarrow> x \<le> x" for x :: f32
  by (simp add: less_eq_f32_def)

lemma f32_le_trans: "x \<le> y \<Longrightarrow> y \<le> z \<Longrightarrow> x \<le> z" for x :: f32
  by (auto simp: less_eq_f32_def)

lemma f32_not_le: "\<not> is_nan x \<Longrightarrow> \<not> is_nan y \<Longrightarrow> \<not> x \<le> y \<longleftrightarrow> y < x" for x :: f32
  by (auto simp: less_eq_f32_def less_f32_def)

lemma f32_not_less: "\<not> is_nan x \<Longrightarrow> \<not> is_nan y \<Longrightarrow> \<not> x < y \<longleftrightarrow> y \<le> x" for x :: f32
  by (auto simp: less_eq_f32_def less_f32_def)

lemma f32_less_le: "x < y \<Longrightarrow> x \<le> y" for x :: f32
  by (auto simp: less_eq_f32_def less_f32_def)

lemma f32_cmp_nan: "is_nan x \<or> is_nan y \<Longrightarrow> \<not> x < y \<and> \<not> x \<le> y" for x :: f32
  by (auto simp: less_eq_f32_def less_f32_def)

subsection \<open>Rounding of signed values\<close>

lemma f32_int_round:
  assumes "0 \<le> n" "0 < d"
  shows "f32_int (f32_round s n d) = (if s then - fp_mag 23 (min F32_INF (fp_up 23 n d)) else fp_mag 23 (min F32_INF (fp_up 23 n d)))"
  by (simp add: f32_int_def f32_mag_def f32_round_parts [OF assms])

lemma f32_rnd_int:
  assumes "0 < d"
  shows "f32_int (f32_rnd n d) =
    (if n < 0 then - fp_mag 23 (min F32_INF (fp_up 23 (- n) d)) else fp_mag 23 (min F32_INF (fp_up 23 n d)))"
    "\<not> is_nan (f32_rnd n d)"
  using f32_int_round [of "- n" d True] f32_int_round [of n d False] f32_round_parts(3) [of "- n" d True]
    f32_round_parts(3) [of n d False] assms by (auto simp: f32_rnd_def)

lemma f32_round_rnd: "0 \<le> n \<Longrightarrow> 0 < d \<Longrightarrow> f32_int (f32_round s n d) = f32_int (f32_rnd (if s then - n else n) d)"
  by (auto simp: f32_int_round f32_rnd_int F32_INF_def)

lemma f32_up_mono:
  assumes "0 < d" "0 < d'" "n * d' \<le> n' * d" "0 \<le> n"
  shows "fp_mag 23 (min F32_INF (fp_up 23 n d)) \<le> fp_mag 23 (min F32_INF (fp_up 23 n' d'))"
proof -
  have "fp_up 23 n d \<le> fp_up 23 n' d'" by (rule fp_up_mono [OF assms(1-3)])
  moreover have "0 \<le> fp_up 23 n d" by (rule fp_up_nonneg [OF assms(1,4)])
  ultimately show ?thesis using fp_mag_le_iff [of "min F32_INF (fp_up 23 n d)" "min F32_INF (fp_up 23 n' d')" 23]
    by (auto simp: F32_INF_def)
qed

lemma f32_rnd_mono:
  assumes "0 < d" "0 < d'" "n * d' \<le> n' * d"
  shows "f32_int (f32_rnd n d) \<le> f32_int (f32_rnd n' d')"
proof -
  have nn: "0 \<le> fp_mag 23 (min F32_INF (fp_up 23 m e))" if "0 \<le> m" "0 < e" for m e
    using fp_up_nonneg [OF that(2,1), of 23] by (intro fp_mag_nonneg) (simp add: F32_INF_def)
  consider "0 \<le> n" | "n < 0" "0 \<le> n'" | "n < 0" "n' < 0" by linarith
  then show ?thesis
  proof cases
    case 1
    then have "0 \<le> n' * d" using assms(2,3) by (meson mult_nonneg_nonneg order_trans less_imp_le)
    then have "0 \<le> n'" using assms(1) by (simp add: zero_le_mult_iff)
    then show ?thesis using 1 f32_up_mono [OF assms 1] by (simp add: f32_rnd_int assms)
  next
    case 2
    then show ?thesis using nn [of "- n" d] nn [of n' d'] assms by (simp add: f32_rnd_int)
  next
    case 3
    then show ?thesis using f32_up_mono [of d' d "- n'" "- n"] assms by (simp add: f32_rnd_int)
  qed
qed

lemma f32_rnd_exact:
  assumes "\<not> is_nan x" "0 < d"
  shows "f32_int (f32_rnd (f32_int x * d) d) = f32_int x"
proof -
  have m: "min F32_INF (f32_mbits x) = f32_mbits x" using assms(1) by (simp add: is_nan_def)
  have u: "fp_up 23 (f32_mag x * d) d = f32_mbits x" unfolding f32_mag_def by (intro fp_up_mag assms f32_mbits_bounds)
  show ?thesis
  proof (cases "f32_mag x = 0")
    case True
    then have "f32_int x = 0" by (simp add: f32_int_def)
    then show ?thesis using assms(2) by (simp add: f32_rnd_int F32_INF_def)
  next
    case False
    then have p: "0 < f32_mag x" using f32_mag_nonneg [of x] by simp
    then have "0 < f32_mag x * d" using assms(2) by simp
    moreover have "f32_int x = (if f32_sgn x then - f32_mag x else f32_mag x)" by (simp add: f32_int_def)
    moreover have "fp_mag 23 (f32_mbits x) = f32_mag x" by (simp add: f32_mag_def)
    ultimately show ?thesis using u m assms(2) by (cases "f32_sgn x") (simp_all add: f32_rnd_int)
  qed
qed

lemma f32_rnd_bounds:
  assumes "0 < d" "\<not> is_nan x"
  shows "n \<le> f32_int x * d \<Longrightarrow> f32_int (f32_rnd n d) \<le> f32_int x" "f32_int x * d \<le> n \<Longrightarrow> f32_int x \<le> f32_int (f32_rnd n d)"
  using f32_rnd_mono [of d d n "f32_int x * d"] f32_rnd_mono [of d d "f32_int x * d" n] f32_rnd_exact [OF assms(2,1)] assms(1)
  by simp_all

subsection \<open>The operations on numbers\<close>

lemma F32_ONE_pos [simp]: "0 < F32_ONE"
  by (simp add: F32_ONE_def)

lemma f32_int_mk0 [simp]: "f32_int (f32_mk s 0) = 0"
  by (simp add: f32_int_def f32_mag_def)

lemma f32_neg_parts [simp]:
  "f32_sgn (- x) = (\<not> f32_sgn x)" "f32_mbits (- x) = f32_mbits x" for x :: f32
  by (simp_all add: uminus_f32_def f32_neg_def f32_mbits_bounds)

lemma f32_int_neg [simp]: "f32_int (- x) = - f32_int x" for x :: f32
  by (simp add: f32_int_def f32_mag_def)

lemma f32_kind_neg [simp]: "is_nan (- x) = is_nan x" "is_fin (- x) = is_fin x" "is_inf (- x) = is_inf x" for x :: f32
  by (simp_all add: is_nan_def is_fin_def is_inf_def)

lemma f32_abs_parts [simp]: "f32_sgn \<bar>x\<bar> = False" "f32_mbits \<bar>x\<bar> = f32_mbits x" for x :: f32
  by (simp_all add: abs_f32_def f32_mbits_bounds)

lemma f32_int_abs [simp]: "f32_int \<bar>x\<bar> = \<bar>f32_int x\<bar>" for x :: f32
  using f32_mag_nonneg [of x] by (auto simp: f32_int_def f32_mag_def)

lemma f32_kind_abs [simp]: "is_nan \<bar>x\<bar> = is_nan x" "is_fin \<bar>x\<bar> = is_fin x" "is_inf \<bar>x\<bar> = is_inf x" for x :: f32
  by (simp_all add: is_nan_def is_fin_def is_inf_def)

lemma f32_sub_add: "x - y = x + - y" for x y :: f32
  by (simp add: minus_f32_def plus_f32_def uminus_f32_def)

lemma f32_add_int:
  assumes "is_fin x" "is_fin y"
  shows "f32_int (x + y) = f32_int (f32_rnd (f32_int x + f32_int y) 1)" "\<not> is_nan (x + y)"
proof -
  have k: "\<not> is_nan x" "\<not> is_nan y" "\<not> is_inf x" "\<not> is_inf y" using assms is_fin_imp by auto
  have z: "f32_int (f32_rnd 0 1) = 0" by (simp add: f32_rnd_int F32_INF_def)
  have "\<not> is_nan (f32_mk s 0)" for s by (simp add: is_nan_def F32_INF_def)
  then show "f32_int (x + y) = f32_int (f32_rnd (f32_int x + f32_int y) 1)" "\<not> is_nan (x + y)"
    using k z by (simp_all add: plus_f32_def f32_add_def Let_def f32_rnd_int(2))
qed

lemma f32_sub_int:
  assumes "is_fin x" "is_fin y"
  shows "f32_int (x - y) = f32_int (f32_rnd (f32_int x - f32_int y) 1)" "\<not> is_nan (x - y)"
  using f32_add_int [of x "- y"] assms by (simp_all add: f32_sub_add)

lemma f32_int_sgn_mult: "(if f32_sgn x \<noteq> f32_sgn y then - (f32_mag x * f32_mag y) else f32_mag x * f32_mag y) = f32_int x * f32_int y"
  by (auto simp: f32_int_def)

lemma f32_mul_int:
  assumes "is_fin x" "is_fin y"
  shows "f32_int (x * y) = f32_int (f32_rnd (f32_int x * f32_int y) F32_ONE)" "\<not> is_nan (x * y)"
proof -
  have k: "\<not> is_nan x" "\<not> is_nan y" "\<not> is_inf x" "\<not> is_inf y" using assms is_fin_imp by auto
  have n: "0 \<le> f32_mag x * f32_mag y" by (simp add: f32_mag_nonneg)
  have e: "x * y = f32_round (f32_sgn x \<noteq> f32_sgn y) (f32_mag x * f32_mag y) F32_ONE"
    using k by (simp add: times_f32_def f32_mul_def Let_def)
  show "f32_int (x * y) = f32_int (f32_rnd (f32_int x * f32_int y) F32_ONE)"
    unfolding e f32_round_rnd [OF n F32_ONE_pos] f32_int_sgn_mult ..
  show "\<not> is_nan (x * y)" unfolding e by (rule f32_round_parts(3) [OF n F32_ONE_pos])
qed

lemma f32_div_int:
  assumes "is_fin x" "is_fin y" "f32_int y \<noteq> 0"
  shows "f32_int (x / y) = f32_int (f32_rnd (f32_int x * F32_ONE * sgn (f32_int y)) \<bar>f32_int y\<bar>)" "\<not> is_nan (x / y)"
proof -
  have k: "\<not> is_nan x" "\<not> is_nan y" "\<not> is_inf x" "\<not> is_inf y" using assms is_fin_imp by auto
  have y: "f32_mag y \<noteq> 0" "0 < f32_mag y" using assms(3) f32_mag_nonneg [of y] by (auto simp: f32_int_def split: if_splits)
  have n: "0 \<le> f32_mag x * F32_ONE" by (simp add: f32_mag_nonneg F32_ONE_def)
  have e: "x / y = f32_round (f32_sgn x \<noteq> f32_sgn y) (f32_mag x * F32_ONE) (f32_mag y)"
    using k y by (simp add: divide_f32_def f32_div_def Let_def)
  have s: "(if f32_sgn x \<noteq> f32_sgn y then - (f32_mag x * F32_ONE) else f32_mag x * F32_ONE) = f32_int x * F32_ONE * sgn (f32_int y)"
    "f32_mag y = \<bar>f32_int y\<bar>" using y by (auto simp: f32_int_def sgn_if)
  show "f32_int (x / y) = f32_int (f32_rnd (f32_int x * F32_ONE * sgn (f32_int y)) \<bar>f32_int y\<bar>)"
    unfolding e f32_round_rnd [OF n y(2)] s(1) unfolding s(2) ..
  show "\<not> is_nan (x / y)" unfolding e by (rule f32_round_parts(3) [OF n y(2)])
qed

lemma f32_inf_int: "\<not> is_nan x \<Longrightarrow> \<bar>f32_int x\<bar> < fp_mag 23 F32_INF \<longleftrightarrow> is_fin x"
  using f32_mag_nonneg [of x] by (auto simp: is_fin_iff f32_int_def)

text \<open>Monotonicity of the operations on numbers, and results between two numbers.\<close>

lemma f32_add_mono: "\<lbrakk>is_fin x; is_fin y; is_fin x'; is_fin y'; x \<le> x'; y \<le> y'\<rbrakk> \<Longrightarrow> x + y \<le> x' + y'" for x y :: f32
  by (simp add: less_eq_f32_def f32_add_int f32_rnd_mono add_mono)

lemma f32_add_bounds:
  assumes "is_fin x" "is_fin y" "\<not> is_nan z"
  shows "f32_int x + f32_int y \<le> f32_int z \<Longrightarrow> x + y \<le> z" "f32_int z \<le> f32_int x + f32_int y \<Longrightarrow> z \<le> x + y"
  using f32_rnd_bounds [of 1 z "f32_int x + f32_int y"] assms by (simp_all add: less_eq_f32_def f32_add_int)

lemma f32_sub_bounds:
  assumes "is_fin x" "is_fin y" "\<not> is_nan z"
  shows "f32_int x - f32_int y \<le> f32_int z \<Longrightarrow> x - y \<le> z" "f32_int z \<le> f32_int x - f32_int y \<Longrightarrow> z \<le> x - y"
  using f32_rnd_bounds [of 1 z "f32_int x - f32_int y"] assms by (simp_all add: less_eq_f32_def f32_sub_int)

lemma f32_mul_bounds:
  assumes "is_fin x" "is_fin y" "\<not> is_nan z"
  shows "f32_int x * f32_int y \<le> f32_int z * F32_ONE \<Longrightarrow> x * y \<le> z" "f32_int z * F32_ONE \<le> f32_int x * f32_int y \<Longrightarrow> z \<le> x * y"
  using f32_rnd_bounds [of F32_ONE z "f32_int x * f32_int y"] assms by (simp_all add: less_eq_f32_def f32_mul_int)

lemma f32_int_const [simp]:
  "f32_int 0 = 0" "f32_int 1 = F32_ONE" "is_fin (0 :: f32)" "is_fin (1 :: f32)" "\<not> is_nan (0 :: f32)" "\<not> is_nan (1 :: f32)"
  by code_simp+

lemma fp_mag_inf: "fp_mag 23 F32_INF = 2 ^ 277"
  by code_simp

text \<open>A number between two finite ones is finite.\<close>

lemma is_fin_between: "\<lbrakk>\<not> is_nan x; - (2 ^ 277) < f32_int x; f32_int x < 2 ^ 277\<rbrakk> \<Longrightarrow> is_fin x"
  using f32_inf_int [of x] by (simp add: fp_mag_inf abs_less_iff)

lemma f32_rnd_sign: "0 < d \<Longrightarrow> 0 \<le> n \<Longrightarrow> 0 \<le> f32_int (f32_rnd n d)"
  using f32_rnd_bounds(2) [of d 0 n] by simp

lemma f32_trunc_pos: "0 \<le> f32_int x \<Longrightarrow> f32_trunc x = f32_int x div F32_ONE"
  using f32_mag_nonneg [of x] by (auto simp: f32_trunc_def f32_int_def F32_ONE_def)

lemma f32_eval_demo:
  "f32_lit 31415926 10000000 = F32 0x40490FDA" "f32_lit 62831853 10000000 = F32 0x40C90FDB"
  "f32_of_int 3 / f32_of_int 10 = F32 0x3E99999A" "f32_lit 1 10 + f32_lit 2 10 = F32 0x3E99999A"
  "f32_of_int 16777217 = F32 0x4B800000" "f32_to_u32 (f32_lit 299 100) = Some 2"
  by code_simp+

end
