(* ===== verification/Sched.thy ===== *)
theory Sched
  imports Rb_Erase Run_Queue Float32 "HOL-Library.Product_Lexorder"
begin

section \<open>The task scheduler (sched/sched.h)\<close>

text \<open>
  A scheduler holds an array of eight tasks. Under FCFS a rotating index picks the next running
  task; under CFS the tasks that wait for their next execution are in a red-black tree ordered by
  the time stamp they are due at, then by priority. The node of a task is a member of the task, so
  its address and the task's place in the array determine each other; the heap of the tree holds
  the nodes of the array. Function pointers to the outside (the clock, the callbacks) are functions
  on a world of any type; the three pointers that \<open>sched_init\<close> sets are tags.
\<close>

subsection \<open>State\<close>

definition SCHED_TASK_MAX :: nat where
  "SCHED_TASK_MAX = 8"

datatype sched_task_state_e =
  SCHED_TASK_STATE_RUNNING | SCHED_TASK_STATE_SLEEPING | SCHED_TASK_STATE_STOPPED | SCHED_TASK_STATE_DEAD

record 'w sched_task_cfg_t =
  tc_id :: usz
  tc_priority :: u32
  tc_exec_freq :: usz
  tc_exec_cnt_max :: usz
  tc_delay_tick :: usz
  tc_f_cb :: "(usz \<Rightarrow> 'w \<Rightarrow> 'w) option"
  tc_arg :: usz

record sched_task_status_t =
  ts_e_state :: sched_task_state_e
  ts_exec_cnt :: usz
  ts_elapsed_us :: f32
  ts_create_ts :: usz
  ts_next_exec_ts :: usz

record 'w sched_task_t =
  t_cfg :: "'w sched_task_cfg_t"
  t_status :: sched_task_status_t

text \<open>Any other value of an enumeration's integer type is the last constructor.\<close>

datatype sched_type_e = SCHED_TYPE_FCFS | SCHED_TYPE_CFS | SCHED_TYPE_OTHER

datatype sched_tick_e = SCHED_TICK_US | SCHED_TICK_MS | SCHED_TICK_OTHER

datatype sched_fn = Fn_fcfs_get_task | Fn_cfs_get_task | Fn_cfs_insert_task | Fn_cfs_remove_task

record 'w sched_cfg_t =
  sc_cpu_id :: u8
  sc_e_type :: sched_type_e
  sc_e_tick :: sched_tick_e
  sc_f_get_ts :: "'w \<Rightarrow> u64 \<times> 'w"

text \<open>\<open>lo_tasks_at\<close> is the address of the array; \<open>lo_rb_root\<close> holds the tree and, in its heap, the
  \<open>rb_node\<close> members of the tasks. The two members of the union \<open>sched_algo_ctx\<close> are two fields:
  a scheduler uses one of them all its life.\<close>

record 'w sched_lo_t =
  lo_elapsed_us :: f32
  lo_curr_ts :: usz
  lo_task_num :: usz
  lo_tasks :: "'w sched_task_t list"
  lo_tasks_at :: usz
  lo_prev_idx :: usz
  lo_rb_root :: rb_root_t
  lo_f_get_task :: "sched_fn option"
  lo_f_insert_task :: "sched_fn option"
  lo_f_remove_task :: "sched_fn option"

record 'w sched_t =
  s_cfg :: "'w sched_cfg_t"
  s_lo :: "'w sched_lo_t"

subsection \<open>Tasks, their nodes and CONTAINER_OF\<close>

definition SCHED_TASK_SIZE :: nat where
  "SCHED_TASK_SIZE = 120"

definition SCHED_RB_OFFSET :: nat where
  "SCHED_RB_OFFSET = 96"

definition task_node :: "'w sched_t \<Rightarrow> nat \<Rightarrow> rptr" where
  "task_node s i = lo_tasks_at (s_lo s) + of_nat (SCHED_TASK_SIZE * i + SCHED_RB_OFFSET)"

definition node_task :: "'w sched_t \<Rightarrow> rptr \<Rightarrow> nat option" where
  "node_task s p = (let off = unat (p - of_nat SCHED_RB_OFFSET - lo_tasks_at (s_lo s)) in
     if off mod SCHED_TASK_SIZE = 0 \<and> off div SCHED_TASK_SIZE < SCHED_TASK_MAX
     then Some (off div SCHED_TASK_SIZE) else None)"

definition get_task :: "'w sched_t \<Rightarrow> nat \<Rightarrow> 'w sched_task_t option" where
  "get_task s i = (if i < length (lo_tasks (s_lo s)) then Some (lo_tasks (s_lo s) ! i) else None)"

definition put_task :: "'w sched_t \<Rightarrow> nat \<Rightarrow> 'w sched_task_t \<Rightarrow> 'w sched_t option" where
  "put_task s i t = (if i < length (lo_tasks (s_lo s))
     then Some (s\<lparr>s_lo := (s_lo s)\<lparr>lo_tasks := (lo_tasks (s_lo s))[i := t]\<rparr>\<rparr>) else None)"

definition put_root :: "'w sched_t \<Rightarrow> rb_root_t \<Rightarrow> 'w sched_t" where
  "put_root s r = s\<lparr>s_lo := (s_lo s)\<lparr>lo_rb_root := r\<rparr>\<rparr>"

subsection \<open>Ticks\<close>

definition HZ2US :: "f32 \<Rightarrow> f32" where
  "HZ2US hz = 1 / hz * f32_of_int 1000000"

definition HZ2MS :: "f32 \<Rightarrow> f32" where
  "HZ2MS hz = 1 / hz * f32_of_int 1000"

definition sched_hz2tick :: "'w sched_t \<Rightarrow> f32 \<Rightarrow> u64 option" where
  "sched_hz2tick s hz = (case sc_e_tick (s_cfg s) of
     SCHED_TICK_US \<Rightarrow> f32_to_u64 (HZ2US hz)
   | SCHED_TICK_MS \<Rightarrow> f32_to_u64 (HZ2MS hz)
   | SCHED_TICK_OTHER \<Rightarrow> Some 0)"

subsection \<open>CFS\<close>

definition sched_cfs_task_cmp :: "'w sched_task_t \<Rightarrow> 'w sched_task_t \<Rightarrow> int" where
  "sched_cfs_task_cmp a b =
     (if ts_next_exec_ts (t_status a) < ts_next_exec_ts (t_status b) then - 1
      else if ts_next_exec_ts (t_status a) > ts_next_exec_ts (t_status b) then 1
      else if tc_priority (t_cfg a) < tc_priority (t_cfg b) then - 1
      else if tc_priority (t_cfg a) > tc_priority (t_cfg b) then 1
      else 0)"

definition rb_slot_load :: "rb_root_t \<Rightarrow> rb_slot \<Rightarrow> rptr option" where
  "rb_slot_load r sl = (case sl of RootSlot \<Rightarrow> Some (rb_node r) | ChildSlot d p \<Rightarrow> rb_child d r p)"

text \<open>The \<open>while (*new_rb_node)\<close> loop: the slot that is NULL, and the last node seen.\<close>

fun sched_cfs_find :: "nat \<Rightarrow> 'w sched_t \<Rightarrow> 'w sched_task_t \<Rightarrow> rb_slot \<Rightarrow> rptr \<Rightarrow> (rb_slot \<times> rptr) option" where
  "sched_cfs_find 0 s task sl parent = None"
| "sched_cfs_find (Suc k) s task sl parent = do {
     p \<leftarrow> rb_slot_load (lo_rb_root (s_lo s)) sl;
     if p = 0 then Some (sl, parent)
     else do {
       i \<leftarrow> node_task s p;
       curr \<leftarrow> get_task s i;
       sched_cfs_find k s task (ChildSlot (if sched_cfs_task_cmp task curr < 0 then Lft else Rgt) p) p } }"

definition sched_cfs_insert_task :: "'w sched_t \<Rightarrow> nat \<Rightarrow> 'w sched_t option" where
  "sched_cfs_insert_task s i = do {
     task \<leftarrow> get_task s i;
     if of_nat SCHED_TASK_MAX \<le> tc_id (t_cfg task) then Some s
     else do {
       (sl, parent) \<leftarrow> sched_cfs_find RB_FUEL s task RootSlot 0;
       r \<leftarrow> rb_link_node (lo_rb_root (s_lo s)) (task_node s i) parent sl;
       r \<leftarrow> rb_insert_color RB_FUEL r (task_node s i);
       Some (put_root s r) } }"

definition sched_cfs_remove_task :: "'w sched_t \<Rightarrow> nat \<Rightarrow> 'w sched_t option" where
  "sched_cfs_remove_task s i = do {
     n \<leftarrow> rb_deref (lo_rb_root (s_lo s)) (task_node s i);
     if rb_parent_color n \<noteq> 0
     then do {
       r \<leftarrow> rb_erase RB_FUEL (lo_rb_root (s_lo s)) (task_node s i);
       r \<leftarrow> rb_store r (task_node s i) (\<lambda>n. \<lparr>rb_parent_color = 0, rb_right = 0, rb_left = 0\<rparr>);
       Some (put_root s r) }
     else Some s }"

definition sched_cfs_get_task :: "'w sched_t \<Rightarrow> nat option option" where
  "sched_cfs_get_task s = do {
     p \<leftarrow> rb_first RB_FUEL (lo_rb_root (s_lo s));
     if p = 0 then Some None
     else do { i \<leftarrow> node_task s p; Some (Some i) } }"

subsection \<open>FCFS\<close>

text \<open>\<open>n\<close> is the number of rounds left of the \<open>for\<close> loop, \<open>i\<close> its variable.\<close>

fun sched_fcfs_loop :: "nat \<Rightarrow> 'w sched_t \<Rightarrow> usz \<Rightarrow> usz \<Rightarrow> (usz option \<times> 'w sched_t) option" where
  "sched_fcfs_loop 0 s prev_idx i = Some (None, s)"
| "sched_fcfs_loop (Suc n) s prev_idx i = do {
     let idx = (prev_idx + i) mod lo_task_num (s_lo s);
     t \<leftarrow> get_task s (unat idx);
     if ts_e_state (t_status t) = SCHED_TASK_STATE_RUNNING
     then Some (Some idx, s\<lparr>s_lo := (s_lo s)\<lparr>lo_prev_idx := idx + 1\<rparr>\<rparr>)
     else sched_fcfs_loop n s prev_idx (i + 1) }"

definition sched_fcfs_get_task :: "'w sched_t \<Rightarrow> (usz option \<times> 'w sched_t) option" where
  "sched_fcfs_get_task s = sched_fcfs_loop (unat (lo_task_num (s_lo s))) s (lo_prev_idx (s_lo s)) 0"

subsection \<open>Initialisation, adding a task, one round\<close>

definition sched_init :: "'w sched_t \<Rightarrow> 'w sched_cfg_t \<Rightarrow> int \<times> 'w sched_t" where
  "sched_init s cfg = (let s = s\<lparr>s_cfg := cfg\<rparr> in
     case sc_e_type cfg of
       SCHED_TYPE_FCFS \<Rightarrow> (0, s\<lparr>s_lo := (s_lo s)\<lparr>lo_f_get_task := Some Fn_fcfs_get_task,
         lo_f_insert_task := None, lo_f_remove_task := None\<rparr>\<rparr>)
     | SCHED_TYPE_CFS \<Rightarrow> (0, s\<lparr>s_lo := (s_lo s)\<lparr>lo_f_get_task := Some Fn_cfs_get_task,
         lo_f_insert_task := Some Fn_cfs_insert_task, lo_f_remove_task := Some Fn_cfs_remove_task\<rparr>\<rparr>)
     | SCHED_TYPE_OTHER \<Rightarrow> (- errcode MEINVAL, s))"

text \<open>A call through a pointer that is NULL or of another type is undefined.\<close>

definition call_insert_task :: "'w sched_t \<Rightarrow> nat \<Rightarrow> 'w sched_t option" where
  "call_insert_task s i = (if lo_f_insert_task (s_lo s) = Some Fn_cfs_insert_task then sched_cfs_insert_task s i else None)"

definition call_get_task :: "'w sched_t \<Rightarrow> (nat option \<times> 'w sched_t) option" where
  "call_get_task s = (case lo_f_get_task (s_lo s) of
     Some Fn_fcfs_get_task \<Rightarrow> do { (r, s) \<leftarrow> sched_fcfs_get_task s; Some (map_option unat r, s) }
   | Some Fn_cfs_get_task \<Rightarrow> do { r \<leftarrow> sched_cfs_get_task s; Some (r, s) }
   | _ \<Rightarrow> None)"

definition sched_add_task :: "'w sched_t \<Rightarrow> 'w sched_task_cfg_t \<Rightarrow> 'w \<Rightarrow> (int \<times> 'w sched_t \<times> 'w) option" where
  "sched_add_task s task_cfg w = do {
     let i = unat (lo_task_num (s_lo s));
     task \<leftarrow> get_task s i;
     let (ts, w) = sc_f_get_ts (s_cfg s) w;
     s \<leftarrow> put_task s i (task\<lparr>t_cfg := task_cfg,
       t_status := (t_status task)\<lparr>ts_e_state := SCHED_TASK_STATE_RUNNING, ts_create_ts := ts,
         ts_next_exec_ts := ts + tc_delay_tick task_cfg\<rparr>\<rparr>);
     let s = s\<lparr>s_lo := (s_lo s)\<lparr>lo_task_num := lo_task_num (s_lo s) + 1\<rparr>\<rparr>;
     s \<leftarrow> (if sc_e_type (s_cfg s) = SCHED_TYPE_CFS then call_insert_task s i else Some s);
     Some (0, s, w) }"

text \<open>The end of a round, after the callback has run: the statistics, and the next time or the end.\<close>

definition sched_finish :: "'w sched_t \<Rightarrow> nat \<Rightarrow> u64 \<Rightarrow> u64 \<Rightarrow> 'w sched_t option" where
  "sched_finish s i begin_ts end_ts = do {
     task \<leftarrow> get_task s i;
     let st = (t_status task)\<lparr>ts_exec_cnt := ts_exec_cnt (t_status task) + 1, ts_elapsed_us := f32_of_u64 (end_ts - begin_ts)\<rparr>;
     if tc_exec_cnt_max (t_cfg task) = 0 \<or> ts_exec_cnt st < tc_exec_cnt_max (t_cfg task)
     then do {
       tick \<leftarrow> sched_hz2tick s (f32_of_u64 (tc_exec_freq (t_cfg task)));
       s \<leftarrow> put_task s i (task\<lparr>t_status := st\<lparr>ts_next_exec_ts := end_ts + tick\<rparr>\<rparr>);
       if sc_e_type (s_cfg s) = SCHED_TYPE_CFS then sched_cfs_insert_task s i else Some s }
     else put_task s i (task\<lparr>t_status := st\<lparr>ts_e_state := SCHED_TASK_STATE_DEAD\<rparr>\<rparr>) }"

definition sched_exec :: "'w sched_t \<Rightarrow> 'w \<Rightarrow> (int \<times> 'w sched_t \<times> 'w) option" where
  "sched_exec s w = do {
     let (ts, w) = sc_f_get_ts (s_cfg s) w;
     let s = s\<lparr>s_lo := (s_lo s)\<lparr>lo_curr_ts := ts\<rparr>\<rparr>;
     (r, s) \<leftarrow> call_get_task s;
     case r of None \<Rightarrow> Some (- errcode MEINVAL, s, w)
     | Some i \<Rightarrow> do {
         task \<leftarrow> get_task s i;
         case tc_f_cb (t_cfg task) of None \<Rightarrow> Some (- errcode MEINVAL, s, w)
         | Some f_cb \<Rightarrow>
             if ts - ts_create_ts (t_status task) < tc_delay_tick (t_cfg task) then Some (0, s, w)
             else if ts < ts_next_exec_ts (t_status task) then Some (0, s, w)
             else do {
               s \<leftarrow> (if sc_e_type (s_cfg s) = SCHED_TYPE_CFS then sched_cfs_remove_task s i else Some s);
               let w = f_cb (tc_arg (t_cfg task)) w;
               let (end_ts, w) = sc_f_get_ts (s_cfg s) w;
               s \<leftarrow> sched_finish s i ts end_ts;
               Some (0, s, w) } } }"

end
