(* ===== verification/Sched_Queue.thy ===== *)
theory Sched_Queue
  imports Sched
begin

section \<open>The CFS run queue of the scheduler\<close>

text \<open>
  The red-black tree of the waiting tasks implements the run-queue contract: the search for the place
  of a task ends behind all tasks that are due no later.
\<close>

subsection \<open>Nodes and tasks\<close>

lemma node_task_node: "i < SCHED_TASK_MAX \<Longrightarrow> node_task s (task_node s i) = Some i"
proof -
  assume i: "i < SCHED_TASK_MAX"
  have "task_node s i - of_nat SCHED_RB_OFFSET - lo_tasks_at (s_lo s) = of_nat (SCHED_TASK_SIZE * i)"
    by (simp add: task_node_def)
  moreover have "unat (of_nat (SCHED_TASK_SIZE * i) :: usz) = SCHED_TASK_SIZE * i"
    using i by (intro unat_of_nat_usz) (simp add: SCHED_TASK_MAX_def SCHED_TASK_SIZE_def)
  ultimately have "unat (task_node s i - of_nat SCHED_RB_OFFSET - lo_tasks_at (s_lo s)) = SCHED_TASK_SIZE * i" by (simp only:)
  then show ?thesis using i by (simp add: node_task_def SCHED_TASK_SIZE_def)
qed

lemma task_node_inj: "\<lbrakk>i < SCHED_TASK_MAX; j < SCHED_TASK_MAX; task_node s i = task_node s j\<rbrakk> \<Longrightarrow> i = j"
  by (metis node_task_node option.inject)

lemma al_task_node:
  assumes "lo_tasks_at (s_lo s) AND 7 = 0"
  shows "al (task_node s i)"
proof -
  let ?a = "lo_tasks_at (s_lo s)"
  have "unat (?a AND (8 - 1)) = unat ?a mod unat (8 :: usz)" by (rule unat_and_pow2_mask [where k = 3]) simp
  then have "unat ?a mod 8 = 0" using assms by simp
  then have a: "unat ?a mod 4 = 0" by presburger
  have e: "SCHED_TASK_SIZE * i + SCHED_RB_OFFSET = 4 * (30 * i + 24)" by (simp add: SCHED_TASK_SIZE_def SCHED_RB_OFFSET_def)
  have "unat (of_nat (4 * (30 * i + 24)) :: usz) mod 4 = 0"
    by (simp only: unsigned_of_nat take_bit_eq_mod) (simp add: mod_mod_cancel)
  then have "(unat ?a + unat (of_nat (4 * (30 * i + 24)) :: usz)) mod 4 = 0" using a by presburger
  then have "unat (task_node s i) mod 4 = 0" unfolding task_node_def e by (subst unat_add_mod_dvd) simp_all
  moreover have "unat (task_node s i AND (4 - 1)) = unat (task_node s i) mod unat (4 :: usz)"
    by (rule unat_and_pow2_mask [where k = 2]) simp
  ultimately show ?thesis unfolding al_def by (simp add: unat_eq_0)
qed

subsection \<open>The order of the tasks\<close>

definition task_at :: "'w sched_t \<Rightarrow> nat \<Rightarrow> 'w sched_task_t" where
  "task_at s i = lo_tasks (s_lo s) ! i"

definition task_key :: "'w sched_t \<Rightarrow> nat \<Rightarrow> usz \<times> u32" where
  "task_key s i = (ts_next_exec_ts (t_status (task_at s i)), tc_priority (t_cfg (task_at s i)))"

lemma sched_cfs_task_cmp_key:
  "sched_cfs_task_cmp (task_at s i) (task_at s j) < 0 \<longleftrightarrow> task_key s i < task_key s j"
  "0 < sched_cfs_task_cmp (task_at s i) (task_at s j) \<longleftrightarrow> task_key s j < task_key s i"
  by (auto simp: sched_cfs_task_cmp_def task_key_def less_prod_def)

text \<open>A scheduler whose memory is as the structure declares it.\<close>

definition sched_mem :: "'w sched_t \<Rightarrow> bool" where
  "sched_mem s \<longleftrightarrow> length (lo_tasks (s_lo s)) = SCHED_TASK_MAX \<and> lo_tasks_at (s_lo s) AND 7 = 0 \<and>
     task_node s ` {..<SCHED_TASK_MAX} \<subseteq> rlive (lo_rb_root (s_lo s))"

definition sched_joins :: "'w sched_t \<Rightarrow> nat \<Rightarrow> bool" where
  "sched_joins s i \<longleftrightarrow> i < SCHED_TASK_MAX \<and> tc_id (t_cfg (task_at s i)) < of_nat SCHED_TASK_MAX"

definition sched_holds :: "'w sched_t \<Rightarrow> nat list \<Rightarrow> bool" where
  "sched_holds s xs \<longleftrightarrow> sched_mem s \<and> rb_seq (lo_rb_root (s_lo s)) (map (task_node s) xs) \<and>
     (\<forall>i \<in> set xs. sched_joins s i) \<and> distinct xs \<and> sorted (map (task_key s) xs)"

lemma sched_holds_lt: "sched_holds s xs \<Longrightarrow> i \<in> set xs \<Longrightarrow> i < SCHED_TASK_MAX"
  by (simp add: sched_holds_def sched_joins_def)

lemma get_task_mem: "sched_mem s \<Longrightarrow> i < SCHED_TASK_MAX \<Longrightarrow> get_task s i = Some (task_at s i)"
  by (simp add: sched_mem_def get_task_def task_at_def)

lemma put_root_simps [simp]:
  "lo_rb_root (s_lo (put_root s r)) = r" "task_node (put_root s r) = task_node s" "task_at (put_root s r) = task_at s"
  "task_key (put_root s r) = task_key s" "sched_joins (put_root s r) = sched_joins s"
  "lo_tasks (s_lo (put_root s r)) = lo_tasks (s_lo s)" "lo_tasks_at (s_lo (put_root s r)) = lo_tasks_at (s_lo s)"
  "s_cfg (put_root s r) = s_cfg s"
  by (auto simp: put_root_def task_node_def task_at_def task_key_def sched_joins_def fun_eq_iff)

lemma sched_mem_put_root: "sched_mem s \<Longrightarrow> rlive r = rlive (lo_rb_root (s_lo s)) \<Longrightarrow> sched_mem (put_root s r)"
  by (simp add: sched_mem_def)

subsection \<open>The search for the place\<close>

lemma rb_slot_load_path:
  assumes "rep r path t"
  shows "rb_slot_load r (path_slot path) = Some (tptr t)"
proof (cases path)
  case Nil
  then show ?thesis using assms by (simp add: rb_slot_load_def rep_def)
next
  case (Cons f ps)
  obtain d c a u where f: "f = (d, c, a, u)" by (cases f)
  then have "a \<in> rlive r" "rk r d a = tptr t" using assms by (auto simp: rep_def Cons)
  then show ?thesis by (simp add: rb_slot_load_def Cons f)
qed

lemma sched_cfs_find_rep:
  assumes "rep (lo_rb_root (s_lo s)) path t" "hgt t < k"
    and "\<And>p. p \<in> set (nodes t) \<Longrightarrow> \<exists>i < SCHED_TASK_MAX. p = task_node s i" "sched_mem s" "i < SCHED_TASK_MAX"
    and "sorted_wrt (\<lambda>p q. \<forall>j l. p = task_node s j \<longrightarrow> q = task_node s l \<longrightarrow> j < SCHED_TASK_MAX \<longrightarrow> l < SCHED_TASK_MAX \<longrightarrow> task_key s j \<le> task_key s l)
      (nodes (fill path t))"
    and "\<And>j. j < SCHED_TASK_MAX \<Longrightarrow> task_node s j \<in> set (before path) \<Longrightarrow> task_key s j \<le> task_key s i"
    and "\<And>j. j < SCHED_TASK_MAX \<Longrightarrow> task_node s j \<in> set (after path) \<Longrightarrow> task_key s i < task_key s j"
  shows "\<exists>path'. sched_cfs_find k s (task_at s i) (path_slot path) (pptr path) = Some (path_slot path', pptr path') \<and>
    rep (lo_rb_root (s_lo s)) path' Tip \<and> fill path' Tip = fill path t \<and>
    (\<forall>j < SCHED_TASK_MAX. task_node s j \<in> set (before path') \<longrightarrow> task_key s j \<le> task_key s i) \<and>
    (\<forall>j < SCHED_TASK_MAX. task_node s j \<in> set (after path') \<longrightarrow> task_key s i < task_key s j)"
  using assms
proof (induction k arbitrary: path t)
  case (Suc k)
  have sl: "rb_slot_load (lo_rb_root (s_lo s)) (path_slot path) = Some (tptr t)" by (rule rb_slot_load_path [OF Suc.prems(1)])
  show ?case
  proof (cases t)
    case Tip
    then show ?thesis using Suc.prems sl by (intro exI [of _ path]) auto
  next
    case (Bin c l a r)
    obtain j where j: "j < SCHED_TASK_MAX" "a = task_node s j" using Suc.prems(3) [of a] Bin by auto
    have nz: "a \<noteq> 0" using Suc.prems(1) by (simp add: Bin rep_def)
    have nt: "node_task s a = Some j" using node_task_node [OF j(1)] j(2) by simp
    let ?d = "if sched_cfs_task_cmp (task_at s i) (task_at s j) < 0 then Lft else Rgt"
    have st: "sched_cfs_find (Suc k) s (task_at s i) (path_slot path) (pptr path) = sched_cfs_find k s (task_at s i) (ChildSlot ?d a) a"
      using sl nz nt get_task_mem [OF Suc.prems(4) j(1)] by (simp add: Bin)
    have nf: "nodes (fill path t) = before path @ nodes l @ a # nodes r @ after path" by (simp add: nodes_fill Bin)
    show ?thesis
    proof (cases "task_key s i < task_key s j")
      case True
      let ?p = "(Lft, c, a, r) # path"
      have rp: "rep (lo_rb_root (s_lo s)) ?p l" using Suc.prems(1) by (simp add: Bin rep_up)
      have af: "task_key s i < task_key s q" if q: "q < SCHED_TASK_MAX" "task_node s q \<in> set (after ?p)" for q
      proof -
        consider "task_node s q = a" | "task_node s q \<in> set (nodes r)" | "task_node s q \<in> set (after path)" using q(2) by auto
        then show ?thesis
        proof cases
          case 1
          then show ?thesis using True task_node_inj [OF q(1) j(1), of s] j(2) by (metis (no_types))
        next
          case 2
          then have "task_key s j \<le> task_key s q" using Suc.prems(6) q(1) j unfolding nf by (auto simp: sorted_wrt_append)
          then show ?thesis using True by simp
        qed (use Suc.prems(8) q(1) in auto)
      qed
      have "\<exists>path'. sched_cfs_find k s (task_at s i) (path_slot ?p) (pptr ?p) = Some (path_slot path', pptr path') \<and>
        rep (lo_rb_root (s_lo s)) path' Tip \<and> fill path' Tip = fill ?p l \<and>
        (\<forall>j < SCHED_TASK_MAX. task_node s j \<in> set (before path') \<longrightarrow> task_key s j \<le> task_key s i) \<and>
        (\<forall>j < SCHED_TASK_MAX. task_node s j \<in> set (after path') \<longrightarrow> task_key s i < task_key s j)"
        using Suc.prems(2-7) Bin by (intro Suc.IH rp af) auto
      then show ?thesis using st True by (simp add: Bin sched_cfs_task_cmp_key)
    next
      case False
      let ?p = "(Rgt, c, a, l) # path"
      have rp: "rep (lo_rb_root (s_lo s)) ?p r" using Suc.prems(1) rep_child_opp [of _ path Lft c l a r] by (simp add: Bin)
      have be: "task_key s q \<le> task_key s i" if q: "q < SCHED_TASK_MAX" "task_node s q \<in> set (before ?p)" for q
      proof -
        consider "task_node s q = a" | "task_node s q \<in> set (nodes l)" | "task_node s q \<in> set (before path)" using q(2) by auto
        then show ?thesis
        proof cases
          case 1
          then show ?thesis using False task_node_inj [OF q(1) j(1), of s] j(2) by (metis (no_types) not_le)
        next
          case 2
          then have "task_key s q \<le> task_key s j" using Suc.prems(6) q(1) j unfolding nf by (auto simp: sorted_wrt_append)
          then show ?thesis using False by simp
        qed (use Suc.prems(7) q(1) in auto)
      qed
      have "\<exists>path'. sched_cfs_find k s (task_at s i) (path_slot ?p) (pptr ?p) = Some (path_slot path', pptr path') \<and>
        rep (lo_rb_root (s_lo s)) path' Tip \<and> fill path' Tip = fill ?p r \<and>
        (\<forall>j < SCHED_TASK_MAX. task_node s j \<in> set (before path') \<longrightarrow> task_key s j \<le> task_key s i) \<and>
        (\<forall>j < SCHED_TASK_MAX. task_node s j \<in> set (after path') \<longrightarrow> task_key s i < task_key s j)"
        using Suc.prems(2-6,8) Bin by (intro Suc.IH rp be) auto
      then show ?thesis using st False by (simp add: Bin sched_cfs_task_cmp_key)
    qed
  qed
qed simp

subsection \<open>Nodes in and out of the tree\<close>

lemma trep_parent_nz: "trep K P C t q \<Longrightarrow> a \<in> set (nodes t) \<Longrightarrow> a \<noteq> tptr t \<Longrightarrow> P a \<noteq> 0"
proof (induction t arbitrary: q)
  case (Bin c l b r)
  then consider "a \<in> set (nodes l)" | "a \<in> set (nodes r)" by auto
  then show ?case
  proof cases
    case 1
    then show ?thesis using Bin by (cases "a = tptr l"; cases l) auto
  next
    case 2
    then show ?thesis using Bin by (cases "a = tptr r"; cases r) auto
  qed
qed simp

lemma rb_linked_nz:
  assumes "rb_seq s xs" "a \<in> set xs" "rb_deref s a = Some n"
  shows "rb_parent_color n \<noteq> 0"
proof
  assume z: "rb_parent_color n = 0"
  obtain t where t: "rep s [] t" "rbt t" "nodes t = xs" using assms(1) by (auto simp: rb_seq_def)
  have v: "rp s a = 0" "rc s a = RB_RED"
    using assms(3) z by (simp_all add: rb_deref_def rp_def rc_def pc_parent_def pc_color_def split: if_splits)
  have tr: "trep (rk s) (rp s) (rc s) t 0" using t(1) by (simp add: rep_def)
  have "a = tptr t" using trep_parent_nz [OF tr, of a] v(1) assms(2) t(3) by auto
  then show False using tr v(2) t(2) assms(2) t(3) by (cases t) (auto simp: rbt_def)
qed

lemma trep_agree:
  "(\<And>p d. p \<in> set (nodes t) \<Longrightarrow> K' d p = K d p \<and> P' p = P p \<and> C' p = C p) \<Longrightarrow> trep K' P' C' t q = trep K P C t q"
  by (induction t arbitrary: q) auto

lemma rb_seq_upd:
  assumes "rb_seq s xs" "a \<notin> set xs" "a \<in> rlive s"
  shows "rb_seq (upd s a f) xs"
proof -
  obtain t where t: "rep s [] t" "rbt t" "nodes t = xs" using assms(1) by (auto simp: rb_seq_def)
  have "trep (rk (upd s a f)) (rp (upd s a f)) (rc (upd s a f)) t 0 = trep (rk s) (rp s) (rc s) t 0"
    using assms(2) t(3) by (intro trep_agree) (auto simp: rk_def rp_def rc_def upd_def)
  moreover have "rb_node (upd s a f) = rb_node s" by (simp add: upd_def)
  ultimately have "rep (upd s a f) [] t" using t(1) rlive_upd [OF assms(3), of f] by (simp add: rep_def)
  then show ?thesis using t by (auto simp: rb_seq_def)
qed

lemma sorted_wrt_map_le:
  "sorted (map (task_key s) xs) \<Longrightarrow> \<forall>i \<in> set xs. i < SCHED_TASK_MAX \<Longrightarrow>
    sorted_wrt (\<lambda>p q. \<forall>j l. p = task_node s j \<longrightarrow> q = task_node s l \<longrightarrow> j < SCHED_TASK_MAX \<longrightarrow> l < SCHED_TASK_MAX \<longrightarrow> task_key s j \<le> task_key s l)
      (map (task_node s) xs)"
proof (induction xs)
  case (Cons a xs)
  have "task_key s j \<le> task_key s l"
    if "task_node s a = task_node s j" "b \<in> set xs" "task_node s b = task_node s l" "j < SCHED_TASK_MAX" "l < SCHED_TASK_MAX" for b j l
  proof -
    have "a = j" using Cons.prems(2) that task_node_inj [of a j s] by auto
    moreover have "b = l" using Cons.prems(2) that task_node_inj [of b l s] by auto
    ultimately show ?thesis using Cons.prems(1) that(2) by auto
  qed
  then show ?case using Cons by auto
qed simp

subsection \<open>The laws of the run queue\<close>

lemma sched_mem_live: "sched_mem s \<Longrightarrow> i < SCHED_TASK_MAX \<Longrightarrow> task_node s i \<in> rlive (lo_rb_root (s_lo s))"
  by (auto simp: sched_mem_def)

lemma sched_insert_law:
  assumes h: "sched_holds s xs" and j: "sched_joins s i" "i \<notin> set xs"
  shows "\<exists>s'. sched_cfs_insert_task s i = Some s' \<and> sched_holds s' (enqueue (task_key s) i xs) \<and>
    task_key s' = task_key s \<and> sched_joins s' = sched_joins s \<and> s' = put_root s (lo_rb_root (s_lo s'))"
proof -
  let ?r = "lo_rb_root (s_lo s)"
  have m: "sched_mem s" and xs: "\<forall>i \<in> set xs. i < SCHED_TASK_MAX" "distinct xs" "sorted (map (task_key s) xs)"
    and sq: "rb_seq ?r (map (task_node s) xs)" using h sched_holds_lt [OF h] by (auto simp: sched_holds_def)
  have i: "i < SCHED_TASK_MAX" "\<not> of_nat SCHED_TASK_MAX \<le> tc_id (t_cfg (task_at s i))" using j by (auto simp: sched_joins_def)
  obtain t where t: "rep ?r [] t" "rbt t" "nodes t = map (task_node s) xs" using sq by (auto simp: rb_seq_def)
  have hk: "hgt t < RB_FUEL" using rbt_height [OF t(1,2)] by (simp add: RB_FUEL_def)
  have "\<exists>path'. sched_cfs_find RB_FUEL s (task_at s i) (path_slot []) (pptr []) = Some (path_slot path', pptr path') \<and>
    rep ?r path' Tip \<and> fill path' Tip = fill [] t \<and>
    (\<forall>j < SCHED_TASK_MAX. task_node s j \<in> set (before path') \<longrightarrow> task_key s j \<le> task_key s i) \<and>
    (\<forall>j < SCHED_TASK_MAX. task_node s j \<in> set (after path') \<longrightarrow> task_key s i < task_key s j)"
    using sorted_wrt_map_le [OF xs(3,1)] xs(1) t(3) by (intro sched_cfs_find_rep t(1) hk m i(1)) auto
  then obtain path where p: "sched_cfs_find RB_FUEL s (task_at s i) RootSlot 0 = Some (path_slot path, pptr path)"
    "rep ?r path Tip" "fill path Tip = t"
    "\<And>j. j < SCHED_TASK_MAX \<Longrightarrow> task_node s j \<in> set (before path) \<Longrightarrow> task_key s j \<le> task_key s i"
    "\<And>j. j < SCHED_TASK_MAX \<Longrightarrow> task_node s j \<in> set (after path) \<Longrightarrow> task_key s i < task_key s j" by auto
  have "map (task_node s) xs = before path @ after path" using t(3) p(3) nodes_fill [of path Tip] by simp
  then obtain A B where AB: "xs = A @ B" "before path = map (task_node s) A" "after path = map (task_node s) B"
    by (auto simp: map_eq_append_conv)
  have nin: "task_node s i \<notin> set (map (task_node s) A @ map (task_node s) B)"
    using task_node_inj [OF i(1)] xs(1) j(2) unfolding AB(1) by (auto simp: image_iff)
  have "rb_place ?r (map (task_node s) A) (map (task_node s) B) (pptr path) (path_slot path)"
    using p(2,3) t(2) AB by (auto simp: rb_place_def)
  from rb_seq_insert [OF this sched_mem_live [OF m i(1)] al_task_node nin] m
  obtain r1 r2 where r: "rb_link_node ?r (task_node s i) (pptr path) (path_slot path) = Some r1"
    "rb_insert_color RB_FUEL r1 (task_node s i) = Some r2" "rb_seq r2 (map (task_node s) (A @ i # B))" "rlive r2 = rlive ?r"
    by (auto simp: sched_mem_def)
  have e: "enqueue (task_key s) i xs = A @ i # B"
    unfolding AB(1) using p(4,5) xs(1) by (intro enqueue_split) (auto simp: AB)
  have "sched_cfs_insert_task s i = Some (put_root s r2)"
    using get_task_mem [OF m i(1)] i(2) p(1) r by (simp add: sched_cfs_insert_task_def)
  moreover have "sched_holds (put_root s r2) (enqueue (task_key s) i xs)"
    using r sched_mem_put_root [OF m r(4)] distinct_enqueue [OF xs(2) j(2), of "task_key s"] sorted_enqueue [OF xs(3), of i] h j(1)
    by (simp add: sched_holds_def e) (auto simp: AB)
  ultimately show ?thesis by auto
qed

lemma sched_remove_law:
  assumes h: "sched_holds s (xs @ i # ys)"
  shows "\<exists>s'. sched_cfs_remove_task s i = Some s' \<and> sched_holds s' (xs @ ys) \<and> task_key s' = task_key s \<and>
    sched_joins s' = sched_joins s \<and> s' = put_root s (lo_rb_root (s_lo s'))"
proof -
  let ?r = "lo_rb_root (s_lo s)" and ?n = "task_node s i"
  have m: "sched_mem s" and i: "i < SCHED_TASK_MAX" and sq: "rb_seq ?r (map (task_node s) xs @ ?n # map (task_node s) ys)"
    using h sched_holds_lt [OF h, of i] by (auto simp: sched_holds_def)
  have live: "?n \<in> rlive ?r" by (rule sched_mem_live [OF m i])
  then obtain nd where nd: "rb_deref ?r ?n = Some nd" by (auto simp: rlive_def rb_deref_def)
  have nz: "rb_parent_color nd \<noteq> 0" using rb_linked_nz [OF sq _ nd] by simp
  obtain r1 where r1: "rb_erase RB_FUEL ?r ?n = Some r1" "rb_seq r1 (map (task_node s) (xs @ ys))" "rlive r1 = rlive ?r"
    using rb_seq_erase [OF sq] by auto
  let ?z = "\<lambda>n. \<lparr>rb_parent_color = 0, rb_right = 0, rb_left = 0\<rparr>"
  have st: "rb_store r1 ?n ?z = Some (upd r1 ?n ?z)"
    using live r1(3) by (auto simp: rb_store_def rb_deref_def rlive_def upd_def)
  have "?n \<notin> set (map (task_node s) (xs @ ys))" using rb_seq_nz [OF sq] by auto
  then have "rb_seq (upd r1 ?n ?z) (map (task_node s) (xs @ ys))" "rlive (upd r1 ?n ?z) = rlive ?r"
    using rb_seq_upd [OF r1(2)] live r1(3) rlive_upd [of ?n r1] by auto
  then have "sched_holds (put_root s (upd r1 ?n ?z)) (xs @ ys)"
    using h sched_mem_put_root [OF m] by (auto simp: sched_holds_def sorted_append)
  moreover have "sched_cfs_remove_task s i = Some (put_root s (upd r1 ?n ?z))"
    using nd nz r1(1) st by (simp add: sched_cfs_remove_task_def)
  ultimately show ?thesis by auto
qed

lemma sched_get_law: "sched_holds s xs \<Longrightarrow> sched_cfs_get_task s = Some (if xs = [] then None else Some (hd xs))"
proof -
  assume h: "sched_holds s xs"
  then have sq: "rb_seq (lo_rb_root (s_lo s)) (map (task_node s) xs)" by (simp add: sched_holds_def)
  show ?thesis
  proof (cases xs)
    case Nil
    then have "rb_first RB_FUEL (lo_rb_root (s_lo s)) = Some 0" using rb_seq_first [OF sq] by simp
    then show ?thesis using Nil by (simp add: sched_cfs_get_task_def)
  next
    case (Cons i ys)
    have "rb_first RB_FUEL (lo_rb_root (s_lo s)) = Some (task_node s i)"
      using rb_seq_first [OF sq] Cons by simp
    moreover have "task_node s i \<noteq> 0" using rb_seq_nz [OF sq] Cons by auto
    moreover have "node_task s (task_node s i) = Some i" using h Cons sched_holds_lt [OF h, of i] by (intro node_task_node) simp
    ultimately show ?thesis using Cons by (simp add: sched_cfs_get_task_def)
  qed
qed

interpretation cfs: run_queue sched_holds task_key sched_joins sched_cfs_insert_task sched_cfs_remove_task sched_cfs_get_task
proof
  show "sorted (map (task_key s) xs) \<and> distinct xs" if "sched_holds s xs" for s :: "'a sched_t" and xs
    using that by (simp add: sched_holds_def)
qed (use sched_insert_law sched_remove_law sched_get_law in blast)+

end
