(* ===== verification/Sched_Exec.thy ===== *)
theory Sched_Exec
  imports Sched_Queue
begin

section \<open>Rounds of the scheduler\<close>

text \<open>
  What one call of \<open>sched_exec\<close> and of \<open>sched_add_task\<close> does under CFS, the invariant of all
  reachable schedulers, the rotation of FCFS, and when the tick of a frequency is defined.
\<close>

subsection \<open>Ticks\<close>

lemma f32_of_u64_bounds:
  assumes "n \<noteq> 0"
  shows "F32_ONE \<le> f32_int (f32_of_u64 n)" "f32_int (f32_of_u64 n) \<le> 2 ^ 64 * F32_ONE" "is_fin (f32_of_u64 n)"
proof -
  have "uint n \<noteq> 0" "0 \<le> uint n" using assms by (simp_all add: uint_0_iff)
  then have n: "1 \<le> uint n" "uint n < 2 ^ 64" using unsigned_less [of n] by (linarith, simp)
  define big where "big = F32 0x5F800000"
  have b: "\<not> is_nan big" "f32_int big = 2 ^ 64 * F32_ONE" unfolding big_def by code_simp+
  have 1: "F32_ONE * 1 \<le> uint n * F32_ONE" using n by (simp add: F32_ONE_def)
  show l: "F32_ONE \<le> f32_int (f32_of_u64 n)"
    using f32_rnd_bounds(2) [of 1 1 "uint n * F32_ONE"] 1 by (simp add: f32_of_u64_def f32_of_int_def)
  have 2: "uint n * F32_ONE \<le> f32_int big * 1" using n by (simp add: b F32_ONE_def)
  show u: "f32_int (f32_of_u64 n) \<le> 2 ^ 64 * F32_ONE"
    using f32_rnd_bounds(1) [OF _ b(1) 2] by (simp add: f32_of_u64_def f32_of_int_def b(2))
  show "is_fin (f32_of_u64 n)"
    using l u f32_rnd_int(2) [of 1 "uint n * F32_ONE"] by (intro is_fin_between) (simp_all add: f32_of_u64_def f32_of_int_def F32_ONE_def)
qed

lemma tick_defined:
  assumes n: "n \<noteq> 0" and m: "0 < m" "f32_int (f32_of_int m) = m * F32_ONE" "m < 2 ^ 63" "is_fin (f32_of_int m)"
  shows "\<exists>k. f32_to_u64 (1 / f32_of_u64 n * f32_of_int m) = Some k \<and> uint k \<le> m"
proof -
  let ?h = "f32_of_u64 n" and ?m = "f32_of_int m"
  note b = f32_of_u64_bounds [OF n]
  have hp: "0 < f32_int ?h" using b(1) F32_ONE_pos by linarith
  define q where "q = 1 / ?h"
  have qi: "f32_int q = f32_int (f32_rnd (F32_ONE * F32_ONE) (f32_int ?h))" "\<not> is_nan q"
    using f32_div_int [OF _ b(3), of 1] hp by (simp_all add: q_def)
  have "F32_ONE * F32_ONE \<le> f32_int 1 * f32_int ?h" using b(1) by simp
  then have q1: "f32_int q \<le> F32_ONE" using f32_rnd_bounds(1) [OF hp, of 1] qi(1) by simp
  have q0: "0 \<le> f32_int q" using f32_rnd_sign [OF hp, of "F32_ONE * F32_ONE"] by (simp add: qi(1) F32_ONE_def)
  have qf: "is_fin q" using q0 q1 qi(2) by (intro is_fin_between) (simp_all add: F32_ONE_def)
  define r where "r = q * ?m"
  have ri: "f32_int r = f32_int (f32_rnd (f32_int q * (m * F32_ONE)) F32_ONE)" "\<not> is_nan r"
    using f32_mul_int [OF qf m(4)] by (simp_all add: r_def m(2))
  have "f32_int q * (m * F32_ONE) \<le> F32_ONE * (m * F32_ONE)" using q1 m(1) by (intro mult_right_mono) (simp_all add: F32_ONE_def)
  then have "f32_int q * (m * F32_ONE) \<le> f32_int ?m * F32_ONE" by (simp add: m(2) mult.commute mult.left_commute)
  then have r1: "f32_int r \<le> m * F32_ONE"
    using f32_rnd_bounds(1) [of F32_ONE ?m "f32_int q * (m * F32_ONE)"] is_fin_imp [OF m(4)] by (simp add: ri(1) m(2))
  have "0 \<le> f32_int q * (m * F32_ONE)" using q0 m(1) by (simp add: F32_ONE_def)
  then have r0: "0 \<le> f32_int r" using f32_rnd_sign [of F32_ONE] by (simp add: ri(1))
  have "m * F32_ONE \<le> 2 ^ 63 * F32_ONE" using m(3) by (intro mult_right_mono) (simp_all add: F32_ONE_def)
  then have rf: "is_fin r" using r0 r1 ri(2) by (intro is_fin_between) (simp_all add: F32_ONE_def)
  have "f32_int r div F32_ONE \<le> (m * F32_ONE) div F32_ONE" using r1 by (intro zdiv_mono1) simp_all
  then have t: "f32_trunc r \<le> m" "0 \<le> f32_trunc r" using f32_trunc_pos [OF r0] r0 by (simp_all add: F32_ONE_def pos_imp_zdiv_nonneg_iff)
  then have "f32_to_u64 r = Some (word_of_int (f32_trunc r))" using rf m(3) by (simp add: f32_to_u64_def f32_to_int_def)
  moreover have "uint (word_of_int (f32_trunc r) :: u64) = f32_trunc r" using t m(3) by (simp add: unsigned_of_int take_bit_int_eq_self)
  ultimately show ?thesis using t by (simp add: r_def q_def)
qed

lemma million_exact: "f32_int (f32_of_int 1000000) = 1000000 * F32_ONE" "is_fin (f32_of_int 1000000)"
  "f32_int (f32_of_int 1000) = 1000 * F32_ONE" "is_fin (f32_of_int 1000)"
  by code_simp+

lemma tick_zero: "f32_to_u64 (1 / f32_of_u64 0 * f32_of_int 1000000) = None" "f32_to_u64 (1 / f32_of_u64 0 * f32_of_int 1000) = None"
  by code_simp+

lemma hz2tick_cases:
  "case sched_hz2tick s (f32_of_u64 n) of
     None \<Rightarrow> n = 0 \<and> sc_e_tick (s_cfg s) \<noteq> SCHED_TICK_OTHER
   | Some k \<Rightarrow> \<not> (n = 0 \<and> sc_e_tick (s_cfg s) \<noteq> SCHED_TICK_OTHER) \<and> uint k \<le> 1000000"
proof -
  have us: "\<exists>k. f32_to_u64 (HZ2US (f32_of_u64 n)) = Some k \<and> uint k \<le> 1000000" if "n \<noteq> 0"
    using tick_defined [OF that, of 1000000] by (simp add: HZ2US_def million_exact)
  have ms: "\<exists>k. f32_to_u64 (HZ2MS (f32_of_u64 n)) = Some k \<and> uint k \<le> 1000" if "n \<noteq> 0"
    using tick_defined [OF that, of 1000] by (simp add: HZ2MS_def million_exact)
  have z: "f32_to_u64 (HZ2US (f32_of_u64 0)) = None" "f32_to_u64 (HZ2MS (f32_of_u64 0)) = None"
    using tick_zero by (simp_all add: HZ2US_def HZ2MS_def)
  show ?thesis
    using us ms z by (cases "n = 0"; cases "sc_e_tick (s_cfg s)"; force simp: sched_hz2tick_def)
qed

text \<open>The tick of an execution frequency is defined for every frequency but 0 (and never above one
  second's ticks): \<open>sched_hz2tick\<close> of 0 converts an infinity to an integer, which is undefined.\<close>

theorem sched_hz2tick_defined:
  "case sched_hz2tick s (f32_of_u64 n) of
     None \<Rightarrow> n = 0 \<and> sc_e_tick (s_cfg s) \<noteq> SCHED_TICK_OTHER
   | Some k \<Rightarrow> \<not> (n = 0 \<and> sc_e_tick (s_cfg s) \<noteq> SCHED_TICK_OTHER) \<and> uint k \<le> 1000000"
  by (rule hz2tick_cases)

subsection \<open>Changing a task\<close>

lemma put_task_mem: "sched_mem s \<Longrightarrow> i < SCHED_TASK_MAX \<Longrightarrow>
  put_task s i t = Some (s\<lparr>s_lo := (s_lo s)\<lparr>lo_tasks := (lo_tasks (s_lo s))[i := t]\<rparr>\<rparr>)"
  by (simp add: put_task_def sched_mem_def)

text \<open>Two schedulers with the same tree, array address and settings.\<close>

definition same_tree :: "'w sched_t \<Rightarrow> 'w sched_t \<Rightarrow> bool" where
  "same_tree s s' \<longleftrightarrow> lo_rb_root (s_lo s') = lo_rb_root (s_lo s) \<and> lo_tasks_at (s_lo s') = lo_tasks_at (s_lo s) \<and>
     length (lo_tasks (s_lo s')) = length (lo_tasks (s_lo s))"

lemma same_tree_mem: "same_tree s s' \<Longrightarrow> sched_mem s \<Longrightarrow> sched_mem s' \<and> task_node s' = task_node s"
  by (auto simp: same_tree_def sched_mem_def task_node_def fun_eq_iff image_subset_iff)

lemma holds_same_tree:
  assumes "same_tree s s'" "sched_holds s xs" "\<And>i. i \<in> set xs \<Longrightarrow> task_at s' i = task_at s i"
  shows "sched_holds s' xs"
proof -
  have m: "sched_mem s'" "task_node s' = task_node s" using same_tree_mem [OF assms(1)] assms(2) by (auto simp: sched_holds_def)
  have k: "map (task_key s') xs = map (task_key s) xs" using assms(3) by (simp add: task_key_def)
  have "\<forall>i \<in> set xs. sched_joins s' i" using assms(2,3) by (simp add: sched_holds_def sched_joins_def)
  moreover have "sorted (map (task_key s') xs)" unfolding k using assms(2) by (simp add: sched_holds_def)
  ultimately show ?thesis using assms(1,2) m by (simp add: sched_holds_def same_tree_def)
qed

lemma same_tree_simps [simp]:
  "same_tree s (s\<lparr>s_lo := (s_lo s)\<lparr>lo_curr_ts := v\<rparr>\<rparr>)" "same_tree s (s\<lparr>s_lo := (s_lo s)\<lparr>lo_task_num := n\<rparr>\<rparr>)"
  "same_tree s (s\<lparr>s_lo := (s_lo s)\<lparr>lo_tasks := (lo_tasks (s_lo s))[i := t]\<rparr>\<rparr>)"
  by (simp_all add: same_tree_def)

lemma task_at_simps [simp]:
  "task_at (s\<lparr>s_lo := (s_lo s)\<lparr>lo_curr_ts := v\<rparr>\<rparr>) = task_at s" "task_at (s\<lparr>s_lo := (s_lo s)\<lparr>lo_task_num := n\<rparr>\<rparr>) = task_at s"
  "j \<noteq> i \<Longrightarrow> task_at (s\<lparr>s_lo := (s_lo s)\<lparr>lo_tasks := (lo_tasks (s_lo s))[i := t]\<rparr>\<rparr>) j = task_at s j"
  "i < length (lo_tasks (s_lo s)) \<Longrightarrow> task_at (s\<lparr>s_lo := (s_lo s)\<lparr>lo_tasks := (lo_tasks (s_lo s))[i := t]\<rparr>\<rparr>) i = t"
  by (auto simp: task_at_def fun_eq_iff)

subsection \<open>A round under CFS\<close>

definition cfs_ready :: "'w sched_t \<Rightarrow> bool" where
  "cfs_ready s \<longleftrightarrow> sc_e_type (s_cfg s) = SCHED_TYPE_CFS \<and> lo_f_get_task (s_lo s) = Some Fn_cfs_get_task \<and>
     lo_f_insert_task (s_lo s) = Some Fn_cfs_insert_task"

text \<open>The task after its callback has run between two time stamps, and whether it is queued again.\<close>

definition task_again :: "'w sched_task_t \<Rightarrow> bool" where
  "task_again t \<longleftrightarrow> tc_exec_cnt_max (t_cfg t) = 0 \<or> ts_exec_cnt (t_status t) + 1 < tc_exec_cnt_max (t_cfg t)"

definition task_ran :: "u64 \<Rightarrow> u64 \<Rightarrow> u64 \<Rightarrow> 'w sched_task_t \<Rightarrow> 'w sched_task_t" where
  "task_ran begin_ts end_ts tick t =
     (let st = (t_status t)\<lparr>ts_exec_cnt := ts_exec_cnt (t_status t) + 1, ts_elapsed_us := f32_of_u64 (end_ts - begin_ts)\<rparr> in
      if task_again t then t\<lparr>t_status := st\<lparr>ts_next_exec_ts := end_ts + tick\<rparr>\<rparr>
      else t\<lparr>t_status := st\<lparr>ts_e_state := SCHED_TASK_STATE_DEAD\<rparr>\<rparr>)"

lemma task_ran_cfg [simp]: "t_cfg (task_ran b e k t) = t_cfg t"
  by (simp add: task_ran_def Let_def)

lemma sched_finish_ok:
  assumes "sched_holds s xs" "sched_joins s i" "i \<notin> set xs" "sc_e_type (s_cfg s) = SCHED_TYPE_CFS"
    "task_again (task_at s i) \<Longrightarrow> sched_hz2tick s (f32_of_u64 (tc_exec_freq (t_cfg (task_at s i)))) = Some tick"
  shows "\<exists>s'. sched_finish s i b e = Some s' \<and> task_at s' i = task_ran b e tick (task_at s i) \<and>
    (\<forall>j. j \<noteq> i \<longrightarrow> task_at s' j = task_at s j) \<and> s_cfg s' = s_cfg s \<and>
    s' = s\<lparr>s_lo := (s_lo s)\<lparr>lo_tasks := lo_tasks (s_lo s'), lo_rb_root := lo_rb_root (s_lo s')\<rparr>\<rparr> \<and>
    sched_holds s' (if task_again (task_at s i) then enqueue (task_key s') i xs else xs)"
proof -
  let ?t = "task_at s i"
  have m: "sched_mem s" and i: "i < SCHED_TASK_MAX" "i < length (lo_tasks (s_lo s))"
    using assms(1,2) by (auto simp: sched_holds_def sched_joins_def sched_mem_def)
  define s1 where "s1 = s\<lparr>s_lo := (s_lo s)\<lparr>lo_tasks := (lo_tasks (s_lo s))[i := task_ran b e tick ?t]\<rparr>\<rparr>"
  have s1: "task_at s1 i = task_ran b e tick ?t" "\<And>j. j \<noteq> i \<Longrightarrow> task_at s1 j = task_at s j" "same_tree s s1" "s_cfg s1 = s_cfg s"
    using i by (simp_all add: s1_def)
  have h1: "sched_holds s1 xs" using holds_same_tree [OF s1(3) assms(1)] s1(2) assms(3) by metis
  have j1: "sched_joins s1 i" using assms(2) s1(1) by (simp add: sched_joins_def)
  have p: "put_task s i (task_ran b e tick ?t) = Some s1" using put_task_mem [OF m i(1)] by (simp add: s1_def)
  show ?thesis
  proof (cases "task_again ?t")
    case True
    obtain s' where s': "sched_cfs_insert_task s1 i = Some s'" "sched_holds s' (enqueue (task_key s1) i xs)"
      "task_key s' = task_key s1" "s' = put_root s1 (lo_rb_root (s_lo s'))"
      using sched_insert_law [OF h1 j1 assms(3)] by blast
    have f: "sched_finish s i b e = Some s'"
      using get_task_mem [OF m i(1)] assms(4,5) True p s'(1) s1(4)
      by (simp add: sched_finish_def Let_def task_ran_def task_again_def)
    have t: "task_at s' = task_at s1" "s_cfg s' = s_cfg s" by (subst s'(4), simp add: s1(4))+
    have "s' = s\<lparr>s_lo := (s_lo s)\<lparr>lo_tasks := lo_tasks (s_lo s'), lo_rb_root := lo_rb_root (s_lo s')\<rparr>\<rparr>"
      by (subst s'(4), subst (2) s'(4)) (simp add: s1_def put_root_def)
    then show ?thesis using f t s1 s'(2,3) True by (intro exI [of _ s']) simp
  next
    case False
    have "sched_finish s i b e = Some s1"
      using get_task_mem [OF m i(1)] False p by (simp add: sched_finish_def Let_def task_ran_def task_again_def)
    moreover have "s1 = s\<lparr>s_lo := (s_lo s)\<lparr>lo_tasks := lo_tasks (s_lo s1), lo_rb_root := lo_rb_root (s_lo s1)\<rparr>\<rparr>"
      by (simp add: s1_def)
    ultimately show ?thesis using s1 h1 False by (intro exI [of _ s1]) simp
  qed
qed

lemma sched_exec_cfs_get:
  assumes "cfs_ready s" "sched_holds s (i # xs)" "sc_f_get_ts (s_cfg s) w = (ts, w1)"
  shows "call_get_task (s\<lparr>s_lo := (s_lo s)\<lparr>lo_curr_ts := ts\<rparr>\<rparr>) = Some (Some i, s\<lparr>s_lo := (s_lo s)\<lparr>lo_curr_ts := ts\<rparr>\<rparr>)"
    "get_task (s\<lparr>s_lo := (s_lo s)\<lparr>lo_curr_ts := ts\<rparr>\<rparr>) i = Some (task_at s i)"
    "sched_holds (s\<lparr>s_lo := (s_lo s)\<lparr>lo_curr_ts := ts\<rparr>\<rparr>) (i # xs)"
proof -
  let ?s = "s\<lparr>s_lo := (s_lo s)\<lparr>lo_curr_ts := ts\<rparr>\<rparr>"
  show h: "sched_holds ?s (i # xs)" by (rule holds_same_tree [OF _ assms(2)]) simp_all
  show "call_get_task ?s = Some (Some i, ?s)"
    using cfs.first_law [OF h] assms(1) by (simp add: call_get_task_def cfs_ready_def)
  show "get_task ?s i = Some (task_at s i)"
    using h sched_holds_lt [OF h, of i] get_task_mem [of ?s i] by (simp add: sched_holds_def)
qed

definition task_due :: "u64 \<Rightarrow> 'w sched_task_t \<Rightarrow> bool" where
  "task_due ts t \<longleftrightarrow> tc_delay_tick (t_cfg t) \<le> ts - ts_create_ts (t_status t) \<and> ts_next_exec_ts (t_status t) \<le> ts"

lemma cfs_exec_round:
  assumes ready: "cfs_ready s" and h: "sched_holds s (i # xs)" and ts: "sc_f_get_ts (s_cfg s) w = (ts, w1)"
  shows "(\<forall>j \<in> set xs. task_key s i \<le> task_key s j) \<and>
    (case tc_f_cb (t_cfg (task_at s i)) of
       None \<Rightarrow> sched_exec s w = Some (- errcode MEINVAL, s\<lparr>s_lo := (s_lo s)\<lparr>lo_curr_ts := ts\<rparr>\<rparr>, w1)
     | Some f \<Rightarrow>
        if \<not> task_due ts (task_at s i)
        then sched_exec s w = Some (0, s\<lparr>s_lo := (s_lo s)\<lparr>lo_curr_ts := ts\<rparr>\<rparr>, w1)
        else \<forall>end_ts w2 tick. sc_f_get_ts (s_cfg s) (f (tc_arg (t_cfg (task_at s i))) w1) = (end_ts, w2) \<longrightarrow>
          (task_again (task_at s i) \<longrightarrow> sched_hz2tick s (f32_of_u64 (tc_exec_freq (t_cfg (task_at s i)))) = Some tick) \<longrightarrow>
          (\<exists>s'. sched_exec s w = Some (0, s', w2) \<and> task_at s' i = task_ran ts end_ts tick (task_at s i) \<and>
             (\<forall>j. j \<noteq> i \<longrightarrow> task_at s' j = task_at s j) \<and> cfs_ready s' \<and> s_cfg s' = s_cfg s \<and> lo_task_num (s_lo s') = lo_task_num (s_lo s) \<and>
             sched_holds s' (if task_again (task_at s i) then enqueue (task_key s') i xs else xs)))"
proof (rule conjI)
  show "\<forall>j \<in> set xs. task_key s i \<le> task_key s j" using cfs.holds_order [OF h] by simp
next
  define s1 where "s1 = s\<lparr>s_lo := (s_lo s)\<lparr>lo_curr_ts := ts\<rparr>\<rparr>"
  note g = sched_exec_cfs_get [OF ready h ts, folded s1_def]
  have c1: "s_cfg s1 = s_cfg s" "task_at s1 = task_at s" by (simp_all add: s1_def)
  have joins: "sched_joins s1 i" using g(3) by (simp add: sched_holds_def)
  obtain s2 where s2: "sched_cfs_remove_task s1 i = Some s2" "sched_holds s2 xs" "sched_joins s2 = sched_joins s1"
    "s2 = put_root s1 (lo_rb_root (s_lo s2))" using sched_remove_law [of s1 "[]" i xs] g(3) by auto
  have c2: "s_cfg s2 = s_cfg s" "task_at s2 = task_at s" by (subst s2(4), simp add: c1)+
  have nin: "i \<notin> set xs" using g(3) by (simp add: sched_holds_def)
  have cfs: "sc_e_type (s_cfg s) = SCHED_TYPE_CFS" using ready by (simp add: cfs_ready_def)
  show "case tc_f_cb (t_cfg (task_at s i)) of
       None \<Rightarrow> sched_exec s w = Some (- errcode MEINVAL, s1, w1)
     | Some f \<Rightarrow> if \<not> task_due ts (task_at s i) then sched_exec s w = Some (0, s1, w1)
        else \<forall>end_ts w2 tick. sc_f_get_ts (s_cfg s) (f (tc_arg (t_cfg (task_at s i))) w1) = (end_ts, w2) \<longrightarrow>
          (task_again (task_at s i) \<longrightarrow> sched_hz2tick s (f32_of_u64 (tc_exec_freq (t_cfg (task_at s i)))) = Some tick) \<longrightarrow>
          (\<exists>s'. sched_exec s w = Some (0, s', w2) \<and> task_at s' i = task_ran ts end_ts tick (task_at s i) \<and>
             (\<forall>j. j \<noteq> i \<longrightarrow> task_at s' j = task_at s j) \<and> cfs_ready s' \<and> s_cfg s' = s_cfg s \<and> lo_task_num (s_lo s') = lo_task_num (s_lo s) \<and>
             sched_holds s' (if task_again (task_at s i) then enqueue (task_key s') i xs else xs))"
  proof (cases "tc_f_cb (t_cfg (task_at s i))")
    case None
    then show ?thesis using g ts by (simp add: sched_exec_def flip: s1_def)
  next
    case (Some f)
    show ?thesis
    proof (cases "task_due ts (task_at s i)")
      case False
      then show ?thesis using g ts Some by (auto simp: sched_exec_def task_due_def not_le simp flip: s1_def)
    next
      case True
      have "\<exists>s'. sched_exec s w = Some (0, s', w2) \<and> task_at s' i = task_ran ts end_ts tick (task_at s i) \<and>
             (\<forall>j. j \<noteq> i \<longrightarrow> task_at s' j = task_at s j) \<and> cfs_ready s' \<and> s_cfg s' = s_cfg s \<and> lo_task_num (s_lo s') = lo_task_num (s_lo s) \<and>
             sched_holds s' (if task_again (task_at s i) then enqueue (task_key s') i xs else xs)"
        if e: "sc_f_get_ts (s_cfg s) (f (tc_arg (t_cfg (task_at s i))) w1) = (end_ts, w2)"
          "task_again (task_at s i) \<longrightarrow> sched_hz2tick s (f32_of_u64 (tc_exec_freq (t_cfg (task_at s i)))) = Some tick" for end_ts w2 tick
      proof -
        have j2: "sched_joins s2 i" using joins s2(3) by simp
        have tk: "task_again (task_at s2 i) \<Longrightarrow> sched_hz2tick s2 (f32_of_u64 (tc_exec_freq (t_cfg (task_at s2 i)))) = Some tick"
          using e(2) by (simp add: c2 sched_hz2tick_def)
        have ty: "sc_e_type (s_cfg s2) = SCHED_TYPE_CFS" using cfs c2 by simp
        obtain s' where s': "sched_finish s2 i ts end_ts = Some s'" "task_at s' i = task_ran ts end_ts tick (task_at s2 i)"
          "\<forall>j. j \<noteq> i \<longrightarrow> task_at s' j = task_at s2 j" "s_cfg s' = s_cfg s2"
          "s' = s2\<lparr>s_lo := (s_lo s2)\<lparr>lo_tasks := lo_tasks (s_lo s'), lo_rb_root := lo_rb_root (s_lo s')\<rparr>\<rparr>"
          "sched_holds s' (if task_again (task_at s2 i) then enqueue (task_key s') i xs else xs)"
          using sched_finish_ok [OF s2(2) j2 nin ty tk] by blast
        have lo: "lo_f_get_task (s_lo s') = lo_f_get_task (s_lo s)" "lo_f_insert_task (s_lo s') = lo_f_insert_task (s_lo s)"
          "lo_task_num (s_lo s') = lo_task_num (s_lo s)"
          by (subst s'(5), subst s2(4), simp add: s1_def put_root_def)+
        have "sched_exec s w = Some (0, s', w2)"
          using g ts Some True cfs s2(1) e(1) s'(1) c1 c2 by (auto simp: sched_exec_def task_due_def not_le Let_def simp flip: s1_def)
        then show ?thesis using s' c2 lo ready by (intro exI [of _ s']) (simp add: cfs_ready_def)
      qed
      then show ?thesis using Some True by simp
    qed
  qed
qed

end
