(* ===== verification/Sched_Inv.thy ===== *)
theory Sched_Inv
  imports Sched_Exec
begin

section \<open>Reachable schedulers, and the rotation of FCFS\<close>

text \<open>
  Adding tasks; the invariant that every sequence of additions and rounds keeps; the fairness of
  the FCFS rotation.
\<close>

subsection \<open>Adding a task\<close>

definition task_new :: "'w sched_task_cfg_t \<Rightarrow> u64 \<Rightarrow> 'w sched_task_t \<Rightarrow> 'w sched_task_t" where
  "task_new cfg ts t = t\<lparr>t_cfg := cfg, t_status := (t_status t)\<lparr>ts_e_state := SCHED_TASK_STATE_RUNNING, ts_create_ts := ts,
     ts_next_exec_ts := ts + tc_delay_tick cfg\<rparr>\<rparr>"

lemma sched_insert_other:
  "sched_holds s xs \<Longrightarrow> i < SCHED_TASK_MAX \<Longrightarrow> \<not> sched_joins s i \<Longrightarrow> sched_cfs_insert_task s i = Some s"
  by (simp add: sched_holds_def sched_cfs_insert_task_def get_task_mem sched_joins_def not_less)

lemma cfs_add_task:
  assumes ready: "cfs_ready s" and h: "sched_holds s xs" and ts: "sc_f_get_ts (s_cfg s) w = (ts, w1)"
    and i: "i = unat (lo_task_num (s_lo s))" "i \<notin> set xs"
  shows "if i < SCHED_TASK_MAX
    then \<exists>s'. sched_add_task s cfg w = Some (0, s', w1) \<and> task_at s' i = task_new cfg ts (task_at s i) \<and>
      (\<forall>j. j \<noteq> i \<longrightarrow> task_at s' j = task_at s j) \<and> lo_task_num (s_lo s') = lo_task_num (s_lo s) + 1 \<and> cfs_ready s' \<and> s_cfg s' = s_cfg s \<and>
      sched_holds s' (if tc_id cfg < of_nat SCHED_TASK_MAX then enqueue (task_key s') i xs else xs)
    else sched_add_task s cfg w = None"
proof (cases "i < SCHED_TASK_MAX")
  case False
  have "length (lo_tasks (s_lo s)) = SCHED_TASK_MAX" using h by (simp add: sched_holds_def sched_mem_def)
  then have "get_task s i = None" using False by (simp add: get_task_def)
  then show ?thesis using False i(1) by (simp add: sched_add_task_def)
next
  case True
  have m: "sched_mem s" "i < length (lo_tasks (s_lo s))" using h True by (auto simp: sched_holds_def sched_mem_def)
  let ?t = "task_new cfg ts (task_at s i)"
  define s1 where "s1 = s\<lparr>s_lo := (s_lo s)\<lparr>lo_tasks := (lo_tasks (s_lo s))[i := ?t], lo_task_num := lo_task_num (s_lo s) + 1\<rparr>\<rparr>"
  have s1: "task_at s1 i = ?t" "\<And>j. j \<noteq> i \<Longrightarrow> task_at s1 j = task_at s j" "same_tree s s1" "s_cfg s1 = s_cfg s"
    "lo_task_num (s_lo s1) = lo_task_num (s_lo s) + 1" "lo_f_insert_task (s_lo s1) = lo_f_insert_task (s_lo s)"
    "lo_f_get_task (s_lo s1) = lo_f_get_task (s_lo s)"
    using m(2) by (simp_all add: s1_def task_at_def same_tree_def)
  have h1: "sched_holds s1 xs" using holds_same_tree [OF s1(3) h] s1(2) i(2) by metis
  have call: "sched_add_task s cfg w = (case sched_cfs_insert_task s1 i of None \<Rightarrow> None | Some s' \<Rightarrow> Some (0, s', w1))"
    using get_task_mem [OF m(1) True] put_task_mem [OF m(1) True] ts ready i(1)
    by (simp add: sched_add_task_def Let_def cfs_ready_def call_insert_task_def s1_def task_new_def split: option.splits)
  have ready1: "cfs_ready s1" using ready s1 by (simp add: cfs_ready_def)
  show ?thesis
  proof (cases "sched_joins s1 i")
    case j: True
    obtain s' where s': "sched_cfs_insert_task s1 i = Some s'" "sched_holds s' (enqueue (task_key s1) i xs)"
      "task_key s' = task_key s1" "s' = put_root s1 (lo_rb_root (s_lo s'))"
      using sched_insert_law [OF h1 j i(2)] by blast
    have e: "task_at s' = task_at s1" "s_cfg s' = s_cfg s1" "lo_task_num (s_lo s') = lo_task_num (s_lo s1)" "cfs_ready s'"
      using ready1 by (subst s'(4), simp add: cfs_ready_def put_root_def task_at_def fun_eq_iff)+
    have "tc_id cfg < of_nat SCHED_TASK_MAX" using j s1(1) by (simp add: sched_joins_def task_new_def)
    then show ?thesis using True call s' e s1 by (intro if_P [THEN iffD2, OF True] exI [of _ s']) simp
  next
    case j: False
    have "\<not> tc_id cfg < of_nat SCHED_TASK_MAX" using j True s1(1) by (simp add: sched_joins_def task_new_def)
    then show ?thesis using True call sched_insert_other [OF h1 True j] s1 h1 ready1 by simp
  qed
qed

subsection \<open>Reachable states\<close>

text \<open>A task that is queued is running and may still run; a slot that is not yet used has count 0.\<close>

definition task_fits :: "'w sched_task_t \<Rightarrow> bool" where
  "task_fits t \<longleftrightarrow> (tc_exec_cnt_max (t_cfg t) \<noteq> 0 \<longrightarrow> ts_exec_cnt (t_status t) \<le> tc_exec_cnt_max (t_cfg t))"

definition task_live :: "'w sched_task_t \<Rightarrow> bool" where
  "task_live t \<longleftrightarrow> ts_e_state (t_status t) = SCHED_TASK_STATE_RUNNING \<and>
     (tc_exec_cnt_max (t_cfg t) \<noteq> 0 \<longrightarrow> ts_exec_cnt (t_status t) < tc_exec_cnt_max (t_cfg t))"

definition sched_inv :: "'w sched_t \<Rightarrow> nat list \<Rightarrow> bool" where
  "sched_inv s xs \<longleftrightarrow> cfs_ready s \<and> sched_holds s xs \<and> unat (lo_task_num (s_lo s)) \<le> SCHED_TASK_MAX \<and>
     (\<forall>i \<in> set xs. i < unat (lo_task_num (s_lo s)) \<and> task_live (task_at s i)) \<and>
     (\<forall>i < unat (lo_task_num (s_lo s)). task_fits (task_at s i)) \<and>
     (\<forall>i < SCHED_TASK_MAX. unat (lo_task_num (s_lo s)) \<le> i \<longrightarrow> ts_exec_cnt (t_status (task_at s i)) = 0)"

text \<open>A scheduler after \<open>sched_init\<close> on cleared memory, and the calls on it.\<close>

definition sched_fresh :: "'w sched_t \<Rightarrow> bool" where
  "sched_fresh s \<longleftrightarrow> sched_mem s \<and> lo_task_num (s_lo s) = 0 \<and> rb_node (lo_rb_root (s_lo s)) = 0 \<and>
     (\<forall>i < SCHED_TASK_MAX. ts_exec_cnt (t_status (task_at s i)) = 0)"

inductive sched_reach :: "'w sched_t \<Rightarrow> bool" where
  init: "sched_fresh s0 \<Longrightarrow> sched_init s0 cfg = (0, s) \<Longrightarrow> sc_e_type cfg = SCHED_TYPE_CFS \<Longrightarrow> sched_reach s"
| add: "sched_reach s \<Longrightarrow> sched_add_task s cfg w = Some (r, s', w') \<Longrightarrow> sched_reach s'"
| exec: "sched_reach s \<Longrightarrow> sched_exec s w = Some (r, s', w') \<Longrightarrow> sched_reach s'"

lemma sched_fresh_inv:
  assumes "sched_fresh s0" "sched_init s0 cfg = (0, s)" "sc_e_type cfg = SCHED_TYPE_CFS"
  shows "sched_inv s []"
proof -
  let ?s = "s0\<lparr>s_cfg := cfg, s_lo := (s_lo s0)\<lparr>lo_f_get_task := Some Fn_cfs_get_task,
         lo_f_insert_task := Some Fn_cfs_insert_task, lo_f_remove_task := Some Fn_cfs_remove_task\<rparr>\<rparr>"
  have s: "s = ?s" using assms(2,3) by (simp add: sched_init_def)
  have st: "same_tree s0 s" by (simp add: same_tree_def s)
  have ta: "task_at s = task_at s0" by (simp add: s task_at_def fun_eq_iff)
  have "rep (lo_rb_root (s_lo s)) [] Tip" using assms(1) by (simp add: s sched_fresh_def rep_def)
  then have "rb_seq (lo_rb_root (s_lo s)) []" unfolding rb_seq_def by (intro exI [of _ Tip]) (simp add: rbt_def)
  then have "sched_holds s []" using same_tree_mem [OF st] assms(1) by (simp add: sched_holds_def sched_fresh_def)
  moreover have "lo_task_num (s_lo s) = 0" using assms(1) by (simp add: s sched_fresh_def)
  moreover have "cfs_ready s" using assms(3) by (simp add: s cfs_ready_def)
  ultimately show ?thesis using assms(1) ta by (simp add: sched_inv_def sched_fresh_def)
qed

lemma word_less_le_suc: "(a :: usz) < m \<Longrightarrow> a + 1 \<le> m"
  by (metis inc_le)

lemma task_ran_fits: "task_live t \<Longrightarrow> task_fits (task_ran b e k t)"
  by (auto simp: task_live_def task_fits_def task_ran_def Let_def intro: word_less_le_suc)

lemma task_ran_live: "task_live t \<Longrightarrow> task_again t \<Longrightarrow> task_live (task_ran b e k t)"
  by (auto simp: task_live_def task_ran_def task_again_def Let_def)

lemma sched_inv_add:
  assumes inv: "sched_inv s xs" and c: "sched_add_task s cfg w = Some (r, s', w')"
  shows "\<exists>ys. sched_inv s' ys"
proof -
  obtain ts w1 where ts: "sc_f_get_ts (s_cfg s) w = (ts, w1)" by fastforce
  define i where "i = unat (lo_task_num (s_lo s))"
  have ready: "cfs_ready s" and h: "sched_holds s xs" and nin: "i \<notin> set xs" using inv by (auto simp: sched_inv_def i_def)
  note th = cfs_add_task [OF ready h ts i_def nin, of cfg]
  then have lt: "i < SCHED_TASK_MAX" using c by (auto split: if_splits)
  then have a: "task_at s' i = task_new cfg ts (task_at s i)" "\<And>j. j \<noteq> i \<Longrightarrow> task_at s' j = task_at s j"
    "lo_task_num (s_lo s') = lo_task_num (s_lo s) + 1" "cfs_ready s'"
    "sched_holds s' (if tc_id cfg < of_nat SCHED_TASK_MAX then enqueue (task_key s') i xs else xs)"
    using th c by auto
  have n: "unat (lo_task_num (s_lo s')) = Suc i"
    using lt a(3) unat_word_ariths(1) [of "lo_task_num (s_lo s)" 1] by (simp add: i_def SCHED_TASK_MAX_def)
  have z: "ts_exec_cnt (t_status (task_at s i)) = 0" using inv lt by (simp add: sched_inv_def i_def)
  have new: "task_live (task_at s' i)" "task_fits (task_at s' i)"
    using z a(1) by (auto simp: task_live_def task_fits_def task_new_def word_gt_0)
  have old: "\<And>j. j \<in> set xs \<Longrightarrow> j < i \<and> task_live (task_at s' j)" "\<And>j. j < i \<Longrightarrow> task_fits (task_at s' j)"
    using inv a(2) by (auto simp: sched_inv_def i_def)
  have free: "\<forall>j < SCHED_TASK_MAX. Suc i \<le> j \<longrightarrow> ts_exec_cnt (t_status (task_at s' j)) = 0"
    using inv a(2) by (auto simp: sched_inv_def i_def)
  let ?ys = "if tc_id cfg < of_nat SCHED_TASK_MAX then enqueue (task_key s') i xs else xs"
  have ys: "\<forall>j \<in> set ?ys. j < Suc i \<and> task_live (task_at s' j)" using old(1) new(1) by (auto simp: less_Suc_eq split: if_splits)
  have fits: "\<forall>j < Suc i. task_fits (task_at s' j)" using old(2) new(2) by (auto simp: less_Suc_eq)
  have "sched_inv s' ?ys" unfolding sched_inv_def n using a(4,5) lt ys fits free by (intro conjI) simp_all
  then show ?thesis by blast
qed

lemma sched_exec_empty:
  assumes "cfs_ready s" "sched_holds s []" "sc_f_get_ts (s_cfg s) w = (ts, w1)"
  shows "sched_exec s w = Some (- errcode MEINVAL, s\<lparr>s_lo := (s_lo s)\<lparr>lo_curr_ts := ts\<rparr>\<rparr>, w1)"
proof -
  have "sched_holds (s\<lparr>s_lo := (s_lo s)\<lparr>lo_curr_ts := ts\<rparr>\<rparr>) []" by (rule holds_same_tree [OF _ assms(2)]) simp_all
  from sched_get_law [OF this] show ?thesis
    using assms by (simp add: sched_exec_def call_get_task_def cfs_ready_def)
qed

lemma cfs_exec_no_tick:
  assumes ready: "cfs_ready s" and h: "sched_holds s (i # xs)" and ts: "sc_f_get_ts (s_cfg s) w = (ts, w1)"
    and f: "tc_f_cb (t_cfg (task_at s i)) = Some f" "task_due ts (task_at s i)"
    and e: "sc_f_get_ts (s_cfg s) (f (tc_arg (t_cfg (task_at s i))) w1) = (end_ts, w2)"
    and no: "task_again (task_at s i)" "sched_hz2tick s (f32_of_u64 (tc_exec_freq (t_cfg (task_at s i)))) = None"
  shows "sched_exec s w = None"
proof -
  define s1 where "s1 = s\<lparr>s_lo := (s_lo s)\<lparr>lo_curr_ts := ts\<rparr>\<rparr>"
  note g = sched_exec_cfs_get [OF ready h ts, folded s1_def]
  obtain s2 where s2: "sched_cfs_remove_task s1 i = Some s2" "sched_holds s2 xs" "s2 = put_root s1 (lo_rb_root (s_lo s2))"
    using sched_remove_law [of s1 "[]" i xs] g(3) by auto
  have c: "s_cfg s2 = s_cfg s" "task_at s2 = task_at s" "s_cfg s1 = s_cfg s" by (subst s2(3), simp add: s1_def)+ (simp add: s1_def)
  have "get_task s2 i = Some (task_at s i)"
    using get_task_mem [of s2 i] s2(2) sched_holds_lt [OF h, of i] c(2) by (simp add: sched_holds_def)
  then have "sched_finish s2 i ts end_ts = None"
    using no c(1) by (simp add: sched_finish_def Let_def task_again_def sched_hz2tick_def)
  then show ?thesis
    using g(1,2) ts f s2(1) e c ready by (auto simp: sched_exec_def task_due_def not_le Let_def cfs_ready_def simp flip: s1_def)
qed

lemma sched_inv_curr: "sched_inv s xs \<Longrightarrow> sched_inv (s\<lparr>s_lo := (s_lo s)\<lparr>lo_curr_ts := ts\<rparr>\<rparr>) xs"
  unfolding sched_inv_def using holds_same_tree [of s "s\<lparr>s_lo := (s_lo s)\<lparr>lo_curr_ts := ts\<rparr>\<rparr>" xs]
  by (simp add: cfs_ready_def)

text \<open>A round of a scheduler in the invariant is defined if the tick is, and keeps the invariant.\<close>

lemma sched_inv_exec:
  assumes inv: "sched_inv s xs"
  shows "sched_exec s w = Some (r, s', w') \<Longrightarrow> \<exists>ys. sched_inv s' ys"
    and "(\<And>i. i \<in> set xs \<Longrightarrow> tc_exec_freq (t_cfg (task_at s i)) \<noteq> 0) \<Longrightarrow> sched_exec s w \<noteq> None"
proof -
  obtain ts w1 where ts: "sc_f_get_ts (s_cfg s) w = (ts, w1)" by fastforce
  have ready: "cfs_ready s" and h: "sched_holds s xs" using inv by (auto simp: sched_inv_def)
  let ?s1 = "s\<lparr>s_lo := (s_lo s)\<lparr>lo_curr_ts := ts\<rparr>\<rparr>"
  have "(\<forall>r s' w'. sched_exec s w = Some (r, s', w') \<longrightarrow> (\<exists>ys. sched_inv s' ys)) \<and>
    ((\<forall>i \<in> set xs. tc_exec_freq (t_cfg (task_at s i)) \<noteq> 0) \<longrightarrow> sched_exec s w \<noteq> None)"
  proof (cases xs)
    case Nil
    then have "sched_exec s w = Some (- errcode MEINVAL, ?s1, w1)" using sched_exec_empty ready h ts by simp
    then show ?thesis using sched_inv_curr [OF inv] by auto
  next
    case (Cons i ys)
    then have h': "sched_holds s (i # ys)" using h by simp
    note th = cfs_exec_round [OF ready h' ts, THEN conjunct2]
    show ?thesis
    proof (cases "tc_f_cb (t_cfg (task_at s i))")
      case None
      then show ?thesis using th sched_inv_curr [OF inv] by auto
    next
      case (Some f)
      show ?thesis
      proof (cases "task_due ts (task_at s i)")
        case False
        then show ?thesis using th Some sched_inv_curr [OF inv] by auto
      next
        case True
        obtain end_ts w2 where e: "sc_f_get_ts (s_cfg s) (f (tc_arg (t_cfg (task_at s i))) w1) = (end_ts, w2)" by fastforce
        let ?t = "task_at s i"
        have li: "task_live ?t" "i < unat (lo_task_num (s_lo s))" using inv Cons by (auto simp: sched_inv_def)
        have run: "\<exists>s'. sched_exec s w = Some (0, s', w2) \<and> (\<exists>zs. sched_inv s' zs)"
          if tk: "task_again ?t \<longrightarrow> sched_hz2tick s (f32_of_u64 (tc_exec_freq (t_cfg ?t))) = Some tick" for tick
        proof -
          obtain s' where s': "sched_exec s w = Some (0, s', w2)" "task_at s' i = task_ran ts end_ts tick ?t"
            "\<forall>j. j \<noteq> i \<longrightarrow> task_at s' j = task_at s j" "cfs_ready s'" "lo_task_num (s_lo s') = lo_task_num (s_lo s)"
            "sched_holds s' (if task_again ?t then enqueue (task_key s') i ys else ys)"
            using th Some True e tk by auto
          let ?zs = "if task_again ?t then enqueue (task_key s') i ys else ys"
          have a: "\<forall>j \<in> set ?zs. j < unat (lo_task_num (s_lo s)) \<and> task_live (task_at s' j)"
          proof
            fix j assume "j \<in> set ?zs"
            then consider "j = i" "task_again ?t" | "j \<in> set ys" "j \<noteq> i" using h' by (auto simp: sched_holds_def split: if_splits)
            then show "j < unat (lo_task_num (s_lo s)) \<and> task_live (task_at s' j)"
              using s'(2,3) li task_ran_live [OF li(1)] inv Cons by cases (auto simp: sched_inv_def)
          qed
          have b: "\<forall>j < unat (lo_task_num (s_lo s)). task_fits (task_at s' j)"
            using inv s'(2,3) task_ran_fits [OF li(1)] unfolding sched_inv_def by metis
          have c: "\<forall>j < SCHED_TASK_MAX. unat (lo_task_num (s_lo s)) \<le> j \<longrightarrow> ts_exec_cnt (t_status (task_at s' j)) = 0"
            using inv s'(3) li(2) unfolding sched_inv_def by (metis leD)
          have "sched_inv s' ?zs" unfolding sched_inv_def s'(5) using s'(4,6) a b c inv by (simp add: sched_inv_def)
          then show ?thesis using s'(1) by blast
        qed
        show ?thesis
        proof (cases "task_again ?t \<longrightarrow> sched_hz2tick s (f32_of_u64 (tc_exec_freq (t_cfg ?t))) \<noteq> None")
          case ok: True
          then obtain tick where "task_again ?t \<longrightarrow> sched_hz2tick s (f32_of_u64 (tc_exec_freq (t_cfg ?t))) = Some tick" by auto
          from run [OF this] show ?thesis by auto
        next
          case no: False
          have none: "sched_exec s w = None" by (rule cfs_exec_no_tick [OF ready h' ts Some True e]) (use no in auto)
          have "tc_exec_freq (t_cfg ?t) = 0"
            using no hz2tick_cases [where s = s and n = "tc_exec_freq (t_cfg ?t)"] by (auto split: option.splits)
          then show ?thesis using none Cons by auto
        qed
      qed
    qed
  qed
  then show "sched_exec s w = Some (r, s', w') \<Longrightarrow> \<exists>ys. sched_inv s' ys"
    "(\<And>i. i \<in> set xs \<Longrightarrow> tc_exec_freq (t_cfg (task_at s i)) \<noteq> 0) \<Longrightarrow> sched_exec s w \<noteq> None"
    by blast+
qed

lemma sched_reach_invariant: "sched_reach s \<Longrightarrow> \<exists>xs. sched_inv s xs"
proof (induction rule: sched_reach.induct)
  case (init s0 cfg s)
  then show ?case using sched_fresh_inv by blast
next
  case (add s cfg w r s' w')
  then obtain xs where "sched_inv s xs" by blast
  from sched_inv_add [OF this add(2)] show ?case .
next
  case (exec s w r s' w')
  then obtain xs where "sched_inv s xs" by blast
  from sched_inv_exec(1) [OF this exec(2)] show ?case .
qed

subsection \<open>A concrete scheduler\<close>

text \<open>The world is the clock; the array is at address 16, its memory is cleared.\<close>

definition demo_cfg :: "u64 sched_cfg_t" where
  "demo_cfg = \<lparr>sc_cpu_id = 0, sc_e_type = SCHED_TYPE_CFS, sc_e_tick = SCHED_TICK_US, sc_f_get_ts = (\<lambda>w. (w, w + 1))\<rparr>"

definition demo_task :: "usz \<Rightarrow> u64 sched_task_cfg_t" where
  "demo_task n = \<lparr>tc_id = n, tc_priority = 0, tc_exec_freq = 1000, tc_exec_cnt_max = 0, tc_delay_tick = 0,
     tc_f_cb = Some (\<lambda>a w. w + 10), tc_arg = 0\<rparr>"

definition demo_slot :: "u64 sched_task_t" where
  "demo_slot = \<lparr>t_cfg = demo_task 0, t_status = \<lparr>ts_e_state = SCHED_TASK_STATE_RUNNING, ts_exec_cnt = 0, ts_elapsed_us = 0,
     ts_create_ts = 0, ts_next_exec_ts = 0\<rparr>\<rparr>"

definition demo_mem :: "u64 sched_t" where
  "demo_mem = \<lparr>s_cfg = demo_cfg, s_lo = \<lparr>lo_elapsed_us = 0, lo_curr_ts = 0, lo_task_num = 0, lo_tasks = replicate SCHED_TASK_MAX demo_slot,
     lo_tasks_at = 16, lo_prev_idx = 0,
     lo_rb_root = \<lparr>rb_node = 0, rb_heap = (\<lambda>p. Some \<lparr>rb_parent_color = 0, rb_right = 0, rb_left = 0\<rparr>)\<rparr>,
     lo_f_get_task = None, lo_f_insert_task = None, lo_f_remove_task = None\<rparr>\<rparr>"

definition demo_sched :: "u64 sched_t" where
  "demo_sched = snd (sched_init demo_mem demo_cfg)"

lemma demo_fresh: "sched_fresh demo_mem" "sched_init demo_mem demo_cfg = (0, demo_sched)"
proof -
  have "task_node demo_mem i \<noteq> 0" if "i < SCHED_TASK_MAX" for i
  proof -
    have "task_node demo_mem i = of_nat (112 + 120 * i)"
      by (simp add: task_node_def demo_mem_def SCHED_TASK_SIZE_def SCHED_RB_OFFSET_def)
    moreover have "unat (of_nat (112 + 120 * i) :: usz) = 112 + 120 * i"
      using that by (intro unat_of_nat_usz) (simp add: SCHED_TASK_MAX_def)
    ultimately show ?thesis by auto
  qed
  then have "sched_mem demo_mem" by (auto simp: sched_mem_def rlive_def demo_mem_def)
  then show "sched_fresh demo_mem" by (simp add: sched_fresh_def task_at_def demo_mem_def demo_slot_def)
  show "sched_init demo_mem demo_cfg = (0, demo_sched)" by (simp add: demo_sched_def sched_init_def demo_cfg_def)
qed

lemma demo_sched_inv: "sched_inv demo_sched []"
  using sched_fresh_inv [OF demo_fresh] by (simp add: demo_cfg_def)

lemma demo_sched_joins: "i < SCHED_TASK_MAX \<Longrightarrow> sched_joins demo_sched i"
  by (simp add: sched_joins_def task_at_def demo_sched_def sched_init_def demo_cfg_def demo_mem_def demo_slot_def demo_task_def SCHED_TASK_MAX_def)

lemma demo_one: "\<exists>s. cfs_ready s \<and> sched_holds s [0] \<and> s_cfg s = demo_cfg \<and> task_at s 0 = task_new (demo_task 0) 5 demo_slot"
proof -
  have h: "cfs_ready demo_sched" "sched_holds demo_sched []" using demo_sched_inv by (auto simp: sched_inv_def)
  have c: "s_cfg demo_sched = demo_cfg" "lo_task_num (s_lo demo_sched) = 0" "task_at demo_sched 0 = demo_slot"
    by (simp_all add: demo_sched_def sched_init_def demo_cfg_def demo_mem_def task_at_def SCHED_TASK_MAX_def)
  have "sc_f_get_ts (s_cfg demo_sched) 5 = (5, 6)" by (simp add: c demo_cfg_def)
  from cfs_add_task [OF h this, of 0 "demo_task 0"] c show ?thesis
    by (auto simp: SCHED_TASK_MAX_def demo_task_def enqueue_def)
qed

text \<open>Adding a task to a CFS scheduler with fewer than eight stamps it, makes it running and queues it
  by its first due time and priority (a task whose id is 8 or more is silently left out of the queue).
  With eight tasks already added, \<open>sched_add_task\<close> writes past the array: it has no check.\<close>

theorem sched_add_task_cfs:
  assumes ready: "cfs_ready s" and h: "sched_holds s xs" and ts: "sc_f_get_ts (s_cfg s) w = (ts, w1)"
    and i: "i = unat (lo_task_num (s_lo s))" "i \<notin> set xs"
  shows "if i < SCHED_TASK_MAX
    then \<exists>s'. sched_add_task s cfg w = Some (0, s', w1) \<and> task_at s' i = task_new cfg ts (task_at s i) \<and>
      (\<forall>j. j \<noteq> i \<longrightarrow> task_at s' j = task_at s j) \<and> lo_task_num (s_lo s') = lo_task_num (s_lo s) + 1 \<and> cfs_ready s' \<and> s_cfg s' = s_cfg s \<and>
      sched_holds s' (if tc_id cfg < of_nat SCHED_TASK_MAX then enqueue (task_key s') i xs else xs)
    else sched_add_task s cfg w = None"
  by (rule cfs_add_task [OF assms])

theorem sched_add_task_cfs_witness:
  "\<exists>s s' :: u64 sched_t. sched_holds s [] \<and> sched_add_task s (demo_task 3) 5 = Some (0, s', 6) \<and> sched_holds s' [0]"
proof -
  have h: "cfs_ready demo_sched" "sched_holds demo_sched []" using demo_sched_inv by (auto simp: sched_inv_def)
  have c: "s_cfg demo_sched = demo_cfg" "lo_task_num (s_lo demo_sched) = 0"
    by (simp_all add: demo_sched_def sched_init_def demo_cfg_def demo_mem_def)
  have "sc_f_get_ts (s_cfg demo_sched) 5 = (5, 6)" by (simp add: c demo_cfg_def)
  from sched_add_task_cfs [OF h this, of 0 "demo_task 3"] c
  obtain s' where "sched_add_task demo_sched (demo_task 3) 5 = Some (0, s', 6)"
    "sched_holds s' (if tc_id (demo_task 3) < of_nat SCHED_TASK_MAX then enqueue (task_key s') 0 [] else [])"
    by (auto simp: SCHED_TASK_MAX_def)
  then show ?thesis
    using h(2) by (intro exI [of _ demo_sched] exI [of _ s']) (simp add: SCHED_TASK_MAX_def demo_task_def enqueue_def)
qed

text \<open>C15: A round of the CFS scheduler looks at the head of the queue, the task with the least due time
  (the higher priority first among equals). Without a callback it is an error and nothing changes; before
  it is due nothing changes; otherwise exactly its callback runs, its statistics are updated, and it is
  queued again behind all tasks due no later, or marked dead when it has run as often as it may.\<close>

theorem sched_exec_cfs:
  assumes ready: "cfs_ready s" and h: "sched_holds s (i # xs)" and ts: "sc_f_get_ts (s_cfg s) w = (ts, w1)"
  shows "(\<forall>j \<in> set xs. task_key s i \<le> task_key s j) \<and>
    (case tc_f_cb (t_cfg (task_at s i)) of
       None \<Rightarrow> sched_exec s w = Some (- errcode MEINVAL, s\<lparr>s_lo := (s_lo s)\<lparr>lo_curr_ts := ts\<rparr>\<rparr>, w1)
     | Some f \<Rightarrow>
        if \<not> task_due ts (task_at s i)
        then sched_exec s w = Some (0, s\<lparr>s_lo := (s_lo s)\<lparr>lo_curr_ts := ts\<rparr>\<rparr>, w1)
        else \<forall>end_ts w2 tick. sc_f_get_ts (s_cfg s) (f (tc_arg (t_cfg (task_at s i))) w1) = (end_ts, w2) \<longrightarrow>
          (task_again (task_at s i) \<longrightarrow> sched_hz2tick s (f32_of_u64 (tc_exec_freq (t_cfg (task_at s i)))) = Some tick) \<longrightarrow>
          (\<exists>s'. sched_exec s w = Some (0, s', w2) \<and> task_at s' i = task_ran ts end_ts tick (task_at s i) \<and>
             (\<forall>j. j \<noteq> i \<longrightarrow> task_at s' j = task_at s j) \<and> cfs_ready s' \<and> s_cfg s' = s_cfg s \<and> lo_task_num (s_lo s') = lo_task_num (s_lo s) \<and>
             sched_holds s' (if task_again (task_at s i) then enqueue (task_key s') i xs else xs)))"
  by (rule cfs_exec_round [OF assms])

theorem sched_exec_cfs_witness:
  "\<exists>s s' :: u64 sched_t. sched_holds s [0] \<and> sched_exec s 7 = Some (0, s', 19) \<and> ts_exec_cnt (t_status (task_at s' 0)) = 1 \<and> sched_holds s' [0]"
proof -
  obtain s :: "u64 sched_t" where s: "cfs_ready s" "sched_holds s [0]" "s_cfg s = demo_cfg" "task_at s 0 = task_new (demo_task 0) 5 demo_slot"
    using demo_one by blast
  have ts: "sc_f_get_ts (s_cfg s) 7 = (7, 8)" by (simp add: s demo_cfg_def)
  have t: "tc_f_cb (t_cfg (task_at s 0)) = Some (\<lambda>a w. w + 10)" "task_due 7 (task_at s 0)" "task_again (task_at s 0)"
    by (simp_all add: s(4) task_new_def demo_task_def demo_slot_def task_due_def task_again_def)
  have "sched_hz2tick s (f32_of_u64 1000) = Some 1000" unfolding sched_hz2tick_def s(3) demo_cfg_def by code_simp
  then have k: "sched_hz2tick s (f32_of_u64 (tc_exec_freq (t_cfg (task_at s 0)))) = Some 1000"
    by (simp add: s(4) task_new_def demo_task_def)
  have e: "sc_f_get_ts (s_cfg s) ((\<lambda>a w. w + 10) (tc_arg (t_cfg (task_at s 0))) 8) = (18, 19)" by (simp add: s demo_cfg_def)
  obtain s' where "sched_exec s 7 = Some (0, s', 19)" "task_at s' 0 = task_ran 7 18 1000 (task_at s 0)"
    "sched_holds s' (if task_again (task_at s 0) then enqueue (task_key s') 0 [] else [])"
    using sched_exec_cfs [OF s(1,2) ts, THEN conjunct2] t e k by auto
  then show ?thesis
    using s(2) t(3) by (intro exI [of _ s] exI [of _ s']) (simp add: enqueue_def task_ran_def Let_def s(4) task_new_def demo_slot_def)
qed

text \<open>C5: In every reachable CFS scheduler the tree is a red-black tree of distinct tasks in the order of
  their due times and priorities; each queued task was added, is running and has executions left; no
  task has run more often than its limit; and the next round is defined unless a queued task has
  execution frequency 0.\<close>

theorem sched_reach_ok:
  assumes "sched_reach s"
  shows "\<exists>xs. sched_holds s xs \<and>
    (\<forall>i \<in> set xs. i < unat (lo_task_num (s_lo s)) \<and> task_live (task_at s i)) \<and>
    (\<forall>i < unat (lo_task_num (s_lo s)). task_fits (task_at s i)) \<and>
    ((\<forall>i \<in> set xs. tc_exec_freq (t_cfg (task_at s i)) \<noteq> 0) \<longrightarrow> sched_exec s w \<noteq> None)"
proof -
  obtain xs where xs: "sched_inv s xs" using sched_reach_invariant [OF assms] by blast
  then show ?thesis using sched_inv_exec(2) [OF xs] by (intro exI [of _ xs]) (auto simp: sched_inv_def)
qed

theorem sched_reach_ok_witness:
  "\<exists>s :: u64 sched_t. sched_reach s \<and> (\<exists>xs. sched_holds s xs)"
proof -
  have "sched_reach demo_sched" by (rule sched_reach.init [OF demo_fresh]) (simp add: demo_cfg_def)
  from sched_reach_ok [OF this, of 0] this show ?thesis by (intro exI [of _ demo_sched]) auto
qed

text \<open>C14: Tasks inserted one by one into an empty CFS queue come out by due time, then by priority, then
  in the order they were inserted.\<close>

theorem sched_cfs_order:
  assumes "sched_holds s []" "\<And>i. i \<in> set is \<Longrightarrow> sched_joins s i" "distinct is" "length is < n"
  shows "\<exists>s'. insert_all sched_cfs_insert_task s is = Some s' \<and>
    drain sched_cfs_get_task sched_cfs_remove_task n s' = Some (fold (enqueue (task_key s)) is [])"
  by (rule cfs.schedule_order [OF assms])

theorem sched_cfs_order_witness:
  "\<exists>s'. insert_all sched_cfs_insert_task demo_sched [2, 5] = Some s' \<and>
    drain sched_cfs_get_task sched_cfs_remove_task 3 s' = Some [2, 5]"
proof -
  have "task_key demo_sched 2 = task_key demo_sched 5"
    by (simp add: task_key_def task_at_def demo_sched_def sched_init_def demo_cfg_def demo_mem_def SCHED_TASK_MAX_def)
  then have "fold (enqueue (task_key demo_sched)) [2, 5] [] = [2, 5]" by (simp add: enqueue_def)
  moreover have "sched_holds demo_sched []" using demo_sched_inv by (simp add: sched_inv_def)
  moreover have "sched_joins demo_sched i" if "i \<in> set [2, 5]" for i
    using that demo_sched_joins [of i] by (auto simp: SCHED_TASK_MAX_def)
  ultimately show ?thesis using sched_cfs_order [of demo_sched "[2, 5]" 3] by (simp only:) simp
qed

subsection \<open>FCFS\<close>

definition fcfs_ok :: "'w sched_t \<Rightarrow> bool" where
  "fcfs_ok s \<longleftrightarrow> length (lo_tasks (s_lo s)) = SCHED_TASK_MAX \<and> unat (lo_task_num (s_lo s)) \<le> SCHED_TASK_MAX \<and>
     unat (lo_prev_idx (s_lo s)) \<le> unat (lo_task_num (s_lo s))"

definition task_running :: "'w sched_t \<Rightarrow> nat \<Rightarrow> bool" where
  "task_running s i \<longleftrightarrow> ts_e_state (t_status (task_at s i)) = SCHED_TASK_STATE_RUNNING"

definition set_prev :: "'w sched_t \<Rightarrow> nat \<Rightarrow> 'w sched_t" where
  "set_prev s i = s\<lparr>s_lo := (s_lo s)\<lparr>lo_prev_idx := of_nat i + 1\<rparr>\<rparr>"

lemma fcfs_loop_find:
  assumes "fcfs_ok s" "n = unat (lo_task_num (s_lo s))" "p = unat (lo_prev_idx (s_lo s))" "i + m = n"
  shows "sched_fcfs_loop m s (lo_prev_idx (s_lo s)) (of_nat i) =
    (case find (\<lambda>k. task_running s ((p + k) mod n)) [i..<n] of
       None \<Rightarrow> Some (None, s)
     | Some k \<Rightarrow> Some (Some (of_nat ((p + k) mod n)), set_prev s ((p + k) mod n)))"
  using assms(4)
proof (induction m arbitrary: i)
  case (Suc m)
  let ?q = "lo_prev_idx (s_lo s)" and ?N = "lo_task_num (s_lo s)"
  have b: "n \<le> 8" "p \<le> n" "i < n" using assms(1-3) Suc.prems by (auto simp: fcfs_ok_def SCHED_TASK_MAX_def)
  have ui: "unat (of_nat i :: usz) = i" using b by (intro unat_of_nat_usz) simp
  have "unat (?q + of_nat i) = p + i"
    using b ui assms(3) by (subst unat_word_ariths(1)) simp
  then have u: "unat ((?q + of_nat i) mod ?N) = (p + i) mod n" by (simp add: unat_mod assms(2))
  then have w: "(?q + of_nat i) mod ?N = of_nat ((p + i) mod n)" unfolding u [symmetric] by simp
  have "(p + i) mod n < SCHED_TASK_MAX" using b mod_less_divisor [of n "p + i"] by (simp add: SCHED_TASK_MAX_def del: mod_less_divisor)
  then have g: "get_task s (unat ((?q + of_nat i) mod ?N)) = Some (task_at s ((p + i) mod n))"
    using assms(1) by (simp add: u get_task_def task_at_def fcfs_ok_def)
  have up: "[i..<n] = i # [Suc i..<n]" using b by (simp add: upt_conv_Cons)
  have "sched_fcfs_loop m s ?q (of_nat (Suc i)) = (case find (\<lambda>k. task_running s ((p + k) mod n)) [Suc i..<n] of
       None \<Rightarrow> Some (None, s)
     | Some k \<Rightarrow> Some (Some (of_nat ((p + k) mod n)), set_prev s ((p + k) mod n)))"
    by (rule Suc.IH) (use Suc.prems in simp)
  then show ?case unfolding up using g by (simp add: w task_running_def set_prev_def add.commute [of 1] Let_def)
qed simp

lemma fcfs_get_find:
  assumes "fcfs_ok s" "n = unat (lo_task_num (s_lo s))" "p = unat (lo_prev_idx (s_lo s))"
  shows "sched_fcfs_get_task s = (case find (\<lambda>k. task_running s ((p + k) mod n)) [0..<n] of
       None \<Rightarrow> Some (None, s)
     | Some k \<Rightarrow> Some (Some (of_nat ((p + k) mod n)), set_prev s ((p + k) mod n)))"
  using fcfs_loop_find [OF assms, of 0 n] assms(2) by (simp add: sched_fcfs_get_task_def)

lemma set_prev_ok:
  assumes "fcfs_ok s" "i < unat (lo_task_num (s_lo s))"
  shows "fcfs_ok (set_prev s i)" "unat (lo_prev_idx (s_lo (set_prev s i))) = Suc i" "task_running (set_prev s i) = task_running s"
    "lo_task_num (s_lo (set_prev s i)) = lo_task_num (s_lo s)"
proof -
  have b: "i < 8" using assms by (simp add: fcfs_ok_def SCHED_TASK_MAX_def)
  have "unat (of_nat (Suc i) :: usz) = Suc i" using b by (intro unat_of_nat_usz) simp
  then have u: "unat (of_nat i + 1 :: usz) = Suc i" by (simp add: add.commute)
  show "fcfs_ok (set_prev s i)" "unat (lo_prev_idx (s_lo (set_prev s i))) = Suc i"
    using assms u by (auto simp: fcfs_ok_def set_prev_def)
  show "task_running (set_prev s i) = task_running s" "lo_task_num (s_lo (set_prev s i)) = lo_task_num (s_lo s)"
    by (auto simp: task_running_def set_prev_def task_at_def fun_eq_iff)
qed

text \<open>The tasks that successive calls pick.\<close>

fun fcfs_gets :: "nat \<Rightarrow> 'w sched_t \<Rightarrow> usz option list option" where
  "fcfs_gets 0 s = Some []"
| "fcfs_gets (Suc m) s = do { (r, s) \<leftarrow> sched_fcfs_get_task s; rs \<leftarrow> fcfs_gets m s; Some (r # rs) }"

lemma find_least: "k < n \<Longrightarrow> P k \<Longrightarrow> \<exists>j \<le> k. find P [0..<n] = Some j \<and> P j"
proof -
  assume "k < n" "P k"
  then obtain j where j: "find P [0..<n] = Some j" by (cases "find P [0..<n]") (auto simp: find_None_iff)
  then obtain i where i: "i < length [0..<n]" "P ([0..<n] ! i)" "j = [0..<n] ! i" "\<And>l. l < i \<Longrightarrow> \<not> P ([0..<n] ! l)"
    by (auto simp: find_Some_iff)
  then have "j = i" "P j" by auto
  moreover have "\<not> k < i" using i(4) [of k] i(1) \<open>k < n\<close> \<open>P k\<close> by auto
  ultimately show ?thesis using j by (intro exI [of _ j]) auto
qed

lemma fcfs_get_ok:
  assumes "fcfs_ok s"
  shows "\<exists>r s'. sched_fcfs_get_task s = Some (r, s') \<and> fcfs_ok s' \<and> task_running s' = task_running s \<and> lo_task_num (s_lo s') = lo_task_num (s_lo s)"
proof -
  let ?n = "unat (lo_task_num (s_lo s))" and ?p = "unat (lo_prev_idx (s_lo s))"
  show ?thesis
  proof (cases "find (\<lambda>k. task_running s ((?p + k) mod ?n)) [0..<?n]")
    case None
    then show ?thesis using fcfs_get_find [OF assms refl refl] assms by simp
  next
    case (Some k)
    then have "(?p + k) mod ?n < ?n" by (cases ?n) auto
    from set_prev_ok [OF assms this] show ?thesis using fcfs_get_find [OF assms refl refl] Some by simp
  qed
qed

lemma fcfs_gets_defined: "fcfs_ok s \<Longrightarrow> \<exists>rs. fcfs_gets m s = Some rs"
proof (induction m arbitrary: s)
  case (Suc m)
  obtain r s' where s': "sched_fcfs_get_task s = Some (r, s')" "fcfs_ok s'" using fcfs_get_ok [OF Suc.prems] by blast
  then show ?case using Suc.IH [OF s'(2)] by auto
qed simp

lemma fcfs_serves_dist:
  assumes "fcfs_ok s" "n = unat (lo_task_num (s_lo s))" "(unat (lo_prev_idx (s_lo s)) + d) mod n = j" "d < n" "task_running s j" "d < m"
  shows "\<exists>rs. fcfs_gets m s = Some rs \<and> Some (of_nat j) \<in> set rs"
  using assms
proof (induction d arbitrary: s m rule: less_induct)
  case (less d)
  let ?p = "unat (lo_prev_idx (s_lo s))"
  obtain k where k: "k \<le> d" "find (\<lambda>k. task_running s ((?p + k) mod n)) [0..<n] = Some k"
    using find_least [of d n "\<lambda>k. task_running s ((?p + k) mod n)"] less.prems by auto
  obtain m' where m: "m = Suc m'" using less.prems(6) by (cases m) auto
  let ?i = "(?p + k) mod n"
  have get: "sched_fcfs_get_task s = Some (Some (of_nat ?i), set_prev s ?i)"
    using fcfs_get_find [OF less.prems(1,2) refl] k(2) by simp
  have i: "?i < unat (lo_task_num (s_lo s))" using less.prems(2,4) by auto
  note sp = set_prev_ok [OF less.prems(1) i]
  show ?case
  proof (cases "?i = j")
    case True
    then show ?thesis using get m fcfs_gets_defined [OF sp(1), of m'] by auto
  next
    case False
    then have kd: "k < d" using k(1) less.prems(3) by (cases "k = d") auto
    have "(Suc ?i + (d - Suc k)) mod n = (?p + k + Suc (d - Suc k)) mod n" by (metis add_Suc_right add_Suc_shift mod_add_left_eq)
    also have "?p + k + Suc (d - Suc k) = ?p + d" using kd by simp
    finally have "(Suc ?i + (d - Suc k)) mod n = j" using less.prems(3) by simp
    then have "\<exists>rs. fcfs_gets m' (set_prev s ?i) = Some rs \<and> Some (of_nat j) \<in> set rs"
      using sp less.prems kd m by (intro less.IH [of "d - Suc k"]) auto
    then show ?thesis using get m by auto
  qed
qed

text \<open>C34: The FCFS rotation is fair: as long as the states of the tasks stay, every running task is picked
  within as many calls of \<open>sched_fcfs_get_task\<close> as there are tasks, and no call leaves the array.\<close>

theorem sched_fcfs_serves:
  assumes "fcfs_ok s" "j < unat (lo_task_num (s_lo s))" "task_running s j"
  shows "\<exists>rs. fcfs_gets (unat (lo_task_num (s_lo s))) s = Some rs \<and> Some (of_nat j) \<in> set rs"
proof -
  let ?n = "unat (lo_task_num (s_lo s))" and ?p = "unat (lo_prev_idx (s_lo s))"
  have p: "?p \<le> ?n" using assms(1) by (simp add: fcfs_ok_def)
  define d where "d = (if ?p \<le> j then j - ?p else j + ?n - ?p)"
  have "d < ?n" "(?p + d) mod ?n = j" using assms(2) p by (auto simp: d_def)
  from fcfs_serves_dist [OF assms(1) refl this(2,1) assms(3) this(1)] show ?thesis .
qed

theorem sched_fcfs_serves_witness:
  "\<exists>s :: u64 sched_t. \<exists>rs. fcfs_gets 2 s = Some rs \<and> Some 1 \<in> set rs"
proof -
  define s where "s = demo_mem\<lparr>s_lo := (s_lo demo_mem)\<lparr>lo_task_num := 2, lo_prev_idx := 2\<rparr>\<rparr>"
  have "fcfs_ok s" "lo_task_num (s_lo s) = 2" "task_running s 1"
    by (simp_all add: s_def fcfs_ok_def demo_mem_def demo_slot_def task_running_def task_at_def SCHED_TASK_MAX_def)
  then show ?thesis using sched_fcfs_serves [of s 1] by auto
qed

end
