(* ===== verification/Sched_Thread.thy ===== *)
theory Sched_Thread
  imports Sched_Inv
begin

section \<open>The scheduler's own thread (sched/thread.h)\<close>

text \<open>
  In the Linux build the last step of \<open>sched_init\<close> starts a thread that calls \<open>sched_exec\<close> for ever and
  binds it to a processor. The calls of the thread library and of \<open>printf\<close> are events, their results
  inputs. The thread's endless loop is taken for a number of rounds.
\<close>

datatype thread_ev = PthreadCreate | SetAffinity int | PrintAffinityFailed int | PrintBound int | PrintCreateFailed int

fun sched_thread_exec :: "nat \<Rightarrow> 'w sched_t \<Rightarrow> 'w \<Rightarrow> ('w sched_t \<times> 'w) option" where
  "sched_thread_exec 0 t w = Some (t, w)"
| "sched_thread_exec (Suc n) t w = do { (r, t, w) \<leftarrow> sched_exec t w; sched_thread_exec n t w }"

definition sched_bind_thread_to_cpu :: "int \<Rightarrow> int \<Rightarrow> thread_ev list" where
  "sched_bind_thread_to_cpu ret cpu_id =
     [SetAffinity cpu_id] @ (if ret \<noteq> 0 then [PrintAffinityFailed ret] else []) @ [PrintBound cpu_id]"

definition sched_thread_init :: "int \<Rightarrow> int \<Rightarrow> int \<Rightarrow> thread_ev list" where
  "sched_thread_init ret aff cpu_id =
     PthreadCreate # (if ret \<noteq> 0 then [PrintCreateFailed ret] else sched_bind_thread_to_cpu aff cpu_id)"

text \<open>\<open>sched_init\<close> with its last line; the processor's number is an unsigned byte.\<close>

definition sched_init_thread :: "'w sched_t \<Rightarrow> 'w sched_cfg_t \<Rightarrow> int \<Rightarrow> int \<Rightarrow> int \<times> 'w sched_t \<times> thread_ev list" where
  "sched_init_thread s cfg ret aff = (let (r, s) = sched_init s cfg in
     (r, s, if r = 0 then sched_thread_init ret aff (uint (sc_cpu_id cfg)) else []))"

subsection \<open>The loop runs\<close>

text \<open>A round leaves the configurations and the number of tasks.\<close>

definition same_cfgs :: "'w sched_t \<Rightarrow> 'w sched_t \<Rightarrow> bool" where
  "same_cfgs s s' \<longleftrightarrow> map t_cfg (lo_tasks (s_lo s')) = map t_cfg (lo_tasks (s_lo s)) \<and> lo_task_num (s_lo s') = lo_task_num (s_lo s)"

lemma same_cfgs_refl: "same_cfgs s s"
  by (simp add: same_cfgs_def)

lemma same_cfgs_trans: "same_cfgs s s' \<Longrightarrow> same_cfgs s' s'' \<Longrightarrow> same_cfgs s s''"
  by (simp add: same_cfgs_def)

lemma put_root_cfgs [simp]: "same_cfgs s (put_root s' r) = same_cfgs s s'"
  by (simp add: same_cfgs_def put_root_def)

lemma insert_cfgs: "sched_cfs_insert_task s i = Some s' \<Longrightarrow> same_cfgs s s'"
  by (auto simp: sched_cfs_insert_task_def bind_eq_Some_conv same_cfgs_def put_root_def split: if_splits)

lemma remove_cfgs: "sched_cfs_remove_task s i = Some s' \<Longrightarrow> same_cfgs s s'"
  by (auto simp: sched_cfs_remove_task_def bind_eq_Some_conv same_cfgs_def put_root_def split: if_splits)

lemma put_task_cfgs:
  assumes "get_task s i = Some t" "put_task s i t' = Some s'" "t_cfg t' = t_cfg t"
  shows "same_cfgs s s'"
proof -
  have "map t_cfg ((lo_tasks (s_lo s))[i := t']) = map t_cfg (lo_tasks (s_lo s))"
    using assms(1,3) by (simp add: get_task_def map_update split: if_splits) (metis list_update_id nth_map)
  then show ?thesis using assms(2) by (auto simp: put_task_def same_cfgs_def split: if_splits)
qed

lemma finish_cfgs: "sched_finish s i b e = Some s' \<Longrightarrow> same_cfgs s s'"
  by (auto simp: sched_finish_def Let_def bind_eq_Some_conv split: if_splits
      dest!: insert_cfgs intro: put_task_cfgs same_cfgs_trans [OF put_task_cfgs])

lemma fcfs_cfgs: "sched_fcfs_loop n s p i = Some (r, s') \<Longrightarrow> same_cfgs s s'"
  by (induction n arbitrary: i) (auto simp: Let_def bind_eq_Some_conv same_cfgs_def split: if_splits)

lemma get_cfgs: "call_get_task s = Some (r, s') \<Longrightarrow> same_cfgs s s'"
  by (auto simp: call_get_task_def sched_fcfs_get_task_def bind_eq_Some_conv same_cfgs_def
      split: option.splits sched_fn.splits dest!: fcfs_cfgs)

lemma exec_cfgs:
  assumes "sched_exec s w = Some (r, s', w')"
  shows "same_cfgs s s'"
proof -
  obtain ts w1 where ts: "sc_f_get_ts (s_cfg s) w = (ts, w1)" by fastforce
  let ?s = "s\<lparr>s_lo := (s_lo s)\<lparr>lo_curr_ts := ts\<rparr>\<rparr>"
  obtain t s1 where g: "call_get_task ?s = Some (t, s1)" using assms by (auto simp: sched_exec_def ts bind_eq_Some_conv)
  have s1: "same_cfgs s s1" using get_cfgs [OF g] by (simp add: same_cfgs_def)
  have e: "(case t of None \<Rightarrow> Some (- errcode MEINVAL, s1, w1) | Some i \<Rightarrow> do {
      task \<leftarrow> get_task s1 i;
      case tc_f_cb (t_cfg task) of None \<Rightarrow> Some (- errcode MEINVAL, s1, w1)
      | Some f \<Rightarrow> if ts - ts_create_ts (t_status task) < tc_delay_tick (t_cfg task) then Some (0, s1, w1)
          else if ts < ts_next_exec_ts (t_status task) then Some (0, s1, w1)
          else do {
            s2 \<leftarrow> (if sc_e_type (s_cfg s1) = SCHED_TYPE_CFS then sched_cfs_remove_task s1 i else Some s1);
            let w = f (tc_arg (t_cfg task)) w1;
            let p = sc_f_get_ts (s_cfg s2) w;
            s3 \<leftarrow> sched_finish s2 i ts (fst p);
            Some (0, s3, snd p) } }) = Some (r, s', w')"
    using assms by (simp add: sched_exec_def ts g Let_def case_prod_beta cong: if_cong option.case_cong)
  show ?thesis
  proof (cases t)
    case (Some i)
    obtain task where task: "get_task s1 i = Some task" using e Some by (auto simp: bind_eq_Some_conv)
    show ?thesis
    proof (cases "s' = s1")
      case False
      then obtain s2 b where "same_cfgs s1 s2" "sched_finish s2 i ts b = Some s'"
        using e Some task by (auto simp: Let_def bind_eq_Some_conv split: option.splits if_splits dest: remove_cfgs intro: same_cfgs_refl)
      then show ?thesis using s1 finish_cfgs same_cfgs_trans by blast
    qed (use s1 in simp)
  qed (use e s1 in simp)
qed

definition freqs_set :: "'w sched_t \<Rightarrow> bool" where
  "freqs_set s \<longleftrightarrow> (\<forall>i < unat (lo_task_num (s_lo s)). tc_exec_freq (t_cfg (task_at s i)) \<noteq> 0)"

lemma freqs_set_same:
  assumes "sched_reach s" "same_cfgs s s'" "freqs_set s"
  shows "freqs_set s'"
proof -
  obtain xs where "sched_inv s xs" using sched_reach_invariant [OF assms(1)] by blast
  then have n: "unat (lo_task_num (s_lo s)) \<le> length (lo_tasks (s_lo s))" by (simp add: sched_inv_def sched_holds_def sched_mem_def)
  have l: "length (lo_tasks (s_lo s')) = length (lo_tasks (s_lo s))" using arg_cong [where f = length, OF assms(2) [unfolded same_cfgs_def, THEN conjunct1]] by simp
  have "t_cfg (task_at s' i) = t_cfg (task_at s i)" if "i < length (lo_tasks (s_lo s))" for i
    using arg_cong [where f = "\<lambda>cs. cs ! i", OF assms(2) [unfolded same_cfgs_def, THEN conjunct1]] that l by (simp add: task_at_def)
  then show ?thesis using assms(2,3) n by (auto simp: freqs_set_def same_cfgs_def)
qed

text \<open>the thread of a CFS scheduler whose tasks all have a frequency can go through any number of
  rounds, whatever the callbacks do to the world: no round is undefined.\<close>

theorem sched_thread_runs:
  assumes "sched_reach s" "freqs_set s"
  shows "\<exists>s' w'. sched_thread_exec n s w = Some (s', w') \<and> sched_reach s'"
  using assms
proof (induction n arbitrary: s w)
  case (Suc n)
  obtain xs where xs: "sched_inv s xs" using sched_reach_invariant [OF Suc.prems(1)] by blast
  then have "\<And>i. i \<in> set xs \<Longrightarrow> tc_exec_freq (t_cfg (task_at s i)) \<noteq> 0"
    using Suc.prems(2) by (auto simp: sched_inv_def freqs_set_def)
  from sched_inv_exec(2) [OF xs this] obtain r s1 w1 where e: "sched_exec s w = Some (r, s1, w1)" by fastforce
  have "sched_reach s1" "freqs_set s1"
    using sched_reach.exec [OF Suc.prems(1) e] freqs_set_same [OF Suc.prems(1) exec_cfgs [OF e] Suc.prems(2)] by simp_all
  from Suc.IH [OF this] e show ?case by simp
qed simp

lemma sched_thread_runs_witness:
  "\<exists>s' w'. sched_thread_exec 5 demo_sched 0 = Some (s', w') \<and> sched_reach s'"
proof -
  have "sched_reach demo_sched" by (rule sched_reach.init [OF demo_fresh]) (simp add: demo_cfg_def)
  moreover have "freqs_set demo_sched" by (simp add: freqs_set_def demo_sched_def sched_init_def demo_cfg_def demo_mem_def)
  ultimately show ?thesis by (rule sched_thread_runs)
qed

subsection \<open>The thread and a caller that adds tasks\<close>

text \<open>
  Nothing keeps the thread, which puts a task back into the tree after its callback, and a caller of
  \<open>sched_add_task\<close> apart. The two halves of \<open>sched_cfs_insert_task\<close>: the search for the place, and the
  linking there.
\<close>

definition cfs_insert_search :: "'w sched_t \<Rightarrow> nat \<Rightarrow> (rb_slot \<times> rptr) option" where
  "cfs_insert_search s i = do { task \<leftarrow> get_task s i; sched_cfs_find RB_FUEL s task RootSlot 0 }"

definition cfs_insert_link :: "'w sched_t \<Rightarrow> nat \<Rightarrow> rb_slot \<times> rptr \<Rightarrow> 'w sched_t option" where
  "cfs_insert_link s i place = do {
     r \<leftarrow> rb_link_node (lo_rb_root (s_lo s)) (task_node s i) (snd place) (fst place);
     r \<leftarrow> rb_insert_color RB_FUEL r (task_node s i);
     Some (put_root s r) }"

lemma cfs_insert_halves:
  assumes "sched_mem s" "sched_joins s i"
  shows "sched_cfs_insert_task s i = do { place \<leftarrow> cfs_insert_search s i; cfs_insert_link s i place }"
proof -
  have i: "i < SCHED_TASK_MAX" "\<not> of_nat SCHED_TASK_MAX \<le> tc_id (t_cfg (task_at s i))" using assms(2) by (auto simp: sched_joins_def)
  show ?thesis
    using get_task_mem [OF assms(1) i(1)] i(2)
    by (cases "sched_cfs_find RB_FUEL s (task_at s i) RootSlot 0")
      (auto simp: sched_cfs_insert_task_def cfs_insert_search_def cfs_insert_link_def)
qed

text \<open>In an empty tree the place is the root, and linking there does not look at what the root was.\<close>

lemma search_empty:
  assumes "sched_mem s" "i < SCHED_TASK_MAX" "rb_node (lo_rb_root (s_lo s)) = 0"
  shows "cfs_insert_search s i = Some (RootSlot, 0)"
  using get_task_mem [OF assms(1,2)] assms(3) by (simp add: cfs_insert_search_def RB_FUEL_def numeral_eq_Suc rb_slot_load_def)

lemma link_root_forgets:
  "cfs_insert_link (put_root s ((lo_rb_root (s_lo s))\<lparr>rb_node := q\<rparr>)) i (RootSlot, 0) = cfs_insert_link s i (RootSlot, 0)"
proof -
  let ?r = "lo_rb_root (s_lo s)"
  have "rb_link_node (?r\<lparr>rb_node := q\<rparr>) n 0 RootSlot = rb_link_node ?r n 0 RootSlot" for n
    by (cases "rb_heap ?r n") (simp_all add: rb_link_node_def rb_set_child_def rb_store_def rb_deref_def)
  then show ?thesis by (simp add: cfs_insert_link_def put_root_def task_node_def)
qed

text \<open>C35: when the thread and a caller look for the place of their tasks in the empty tree before either
  links, both get the root; the one that links last is alone in the tree, and the other task, running by
  its state, is never found again. One insertion after the other keeps both.\<close>

theorem cfs_insert_race:
  assumes "sched_holds s []" "sched_joins s i" "sched_joins s j" "i \<noteq> j"
  shows "cfs_insert_search s i = Some (RootSlot, 0) \<and> cfs_insert_search s j = Some (RootSlot, 0) \<and>
    (\<exists>s1 s2. cfs_insert_link s i (RootSlot, 0) = Some s1 \<and> sched_holds s1 [i] \<and>
       cfs_insert_link s1 j (RootSlot, 0) = Some s2 \<and> sched_holds s2 [j]) \<and>
    (\<exists>s1 s2. sched_cfs_insert_task s i = Some s1 \<and> sched_cfs_insert_task s1 j = Some s2 \<and>
       sched_holds s2 (if task_key s j < task_key s i then [j, i] else [i, j]))"
proof -
  have lt: "i < SCHED_TASK_MAX" "j < SCHED_TASK_MAX" using assms(2,3) by (simp_all add: sched_joins_def)
  have empty: "rb_node (lo_rb_root (s_lo t)) = 0" if "sched_holds t []" for t :: "'a sched_t"
    using that by (auto simp: sched_holds_def rb_seq_def rep_def)
  have search: "cfs_insert_search t k = Some (RootSlot, 0)" if "sched_holds t []" "k < SCHED_TASK_MAX" for t :: "'a sched_t" and k
    using search_empty [OF _ that(2) empty [OF that(1)]] that(1) by (simp add: sched_holds_def)
  have link: "sched_cfs_insert_task t k = cfs_insert_link t k (RootSlot, 0)" if "sched_holds t []" "sched_joins t k" for t :: "'a sched_t" and k
    using cfs_insert_halves [OF _ that(2)] search [OF that(1)] that by (simp add: sched_holds_def sched_joins_def)
  obtain s1 where s1: "sched_cfs_insert_task s i = Some s1" "sched_holds s1 [i]" "task_key s1 = task_key s" "sched_joins s1 = sched_joins s"
      "s1 = put_root s (lo_rb_root (s_lo s1))"
    using sched_insert_law [OF assms(1,2)] by (auto simp: enqueue_def)
  let ?t = "put_root s1 ((lo_rb_root (s_lo s1))\<lparr>rb_node := 0\<rparr>)"
  have "sched_mem ?t" using s1(2) by (simp add: sched_holds_def sched_mem_def put_root_def task_node_def rlive_def fun_eq_iff)
  then have t: "sched_holds ?t []" by (auto simp: sched_holds_def rb_seq_def rep_def rbt_def put_root_def intro: exI [of _ Tip])
  have "sched_joins s1 j" using assms(3) by (simp add: s1(4))
  then have j: "sched_joins ?t j" by (simp add: sched_joins_def put_root_def task_at_def)
  obtain s2 where "sched_cfs_insert_task ?t j = Some s2" "sched_holds s2 [j]"
    using sched_insert_law [OF t j] by (auto simp: enqueue_def)
  then have r: "cfs_insert_link s1 j (RootSlot, 0) = Some s2" "sched_holds s2 [j]" using link [OF t j] by (simp_all add: link_root_forgets)
  obtain s3 where "sched_cfs_insert_task s1 j = Some s3" "sched_holds s3 (enqueue (task_key s1) j [i])"
    using sched_insert_law [OF s1(2), of j] assms(3,4) s1(4) by auto
  then have q: "sched_cfs_insert_task s1 j = Some s3" "sched_holds s3 (if task_key s j < task_key s i then [j, i] else [i, j])"
    by (auto simp: enqueue_def s1(3) not_less split: if_splits)
  have "cfs_insert_link s i (RootSlot, 0) = Some s1" using link [OF assms(1,2)] s1(1) by simp
  then show ?thesis using search [OF assms(1)] lt s1(1,2) r q by blast
qed

lemma cfs_insert_race_witness:
  "\<exists>s1 s2. cfs_insert_link demo_sched 2 (RootSlot, 0) = Some s1 \<and> cfs_insert_link s1 5 (RootSlot, 0) = Some s2 \<and> sched_holds s2 [5]"
proof -
  have "sched_holds demo_sched []" using demo_sched_inv by (simp add: sched_inv_def)
  moreover have "sched_joins demo_sched 2" "sched_joins demo_sched 5" by (simp_all add: demo_sched_joins SCHED_TASK_MAX_def)
  ultimately show ?thesis using cfs_insert_race [of demo_sched 2 5] by auto
qed

end
