(* ===== verification/Mpsc_Fifo.thy ===== *)
theory Mpsc_Fifo
  imports Mpsc_Regions
begin

section \<open>The multi-producer ring: order of the bytes\<close>

text \<open>
  Whole writes and reads, one after another, through any registered producer: the ring is a byte
  queue. The second interpretation of the byte-queue contract of \<open>Ring_Copy\<close>.
\<close>

subsection \<open>Slices of the buffer\<close>

definition slice :: "u8 list \<Rightarrow> nat \<Rightarrow> nat \<Rightarrow> u8 list" where
  "slice b i j = take (j - i) (drop i b)"

lemma slice_put:
  assumes "mem_put b k xs = Some b'"
  shows "j \<le> k \<Longrightarrow> slice b' i j = slice b i j" "k + length xs \<le> i \<Longrightarrow> slice b' i j = slice b i j"
    "i \<le> k \<Longrightarrow> slice b' i (k + length xs) = slice b i k @ xs"
proof -
  have b: "k + length xs \<le> length b" "b' = take k b @ xs @ drop (k + length xs) b"
    using assms by (auto simp: mem_put_def split: if_splits)
  show "j \<le> k \<Longrightarrow> slice b' i j = slice b i j" using b by (cases "i \<le> j") (auto simp: slice_def drop_take min_def)
  show "k + length xs \<le> i \<Longrightarrow> slice b' i j = slice b i j" using b by (auto simp: slice_def)
  show "slice b' i (k + length xs) = slice b i k @ xs" if i: "i \<le> k"
  proof -
    have "drop i b' = (take (k - i) (drop i b) @ xs) @ drop (k + length xs) b" using b i by (simp add: drop_take)
    moreover have "length (take (k - i) (drop i b) @ xs) = k + length xs - i" using b i by simp
    ultimately show ?thesis unfolding slice_def by (metis append_eq_conv_conj)
  qed
qed

lemma slice_split:
  assumes "i \<le> j" "j \<le> k"
  shows "slice b i k = slice b i j @ slice b j k"
proof -
  have "k - i = (j - i) + (k - j)" "drop (j - i) (drop i b) = drop j b" using assms by simp_all
  then show ?thesis unfolding slice_def by (simp only: take_add)
qed

lemma slice_length: "j \<le> length b \<Longrightarrow> length (slice b i j) = j - i"
  by (simp add: slice_def)

lemma slice_refl [simp]: "slice b i i = []"
  by (simp add: slice_def)

definition mpsc_queue :: "mpsc_t \<Rightarrow> u8 list" where
  "mpsc_queue s = (if rpn s \<le> offn s then slice (mq_buf s) (rpn s) (offn s)
     else slice (mq_buf s) (rpn s) (endn s) @ slice (mq_buf s) 0 (offn s))"

text \<open>The part of it that lies before the end of the lap.\<close>

definition mpsc_lap :: "mpsc_t \<Rightarrow> nat" where
  "mpsc_lap s = pop_limit s - rpn s"

text \<open>Nothing is reserved or granted.\<close>

definition mpsc_rest :: "mpsc_t \<Rightarrow> bool" where
  "mpsc_rest s \<longleftrightarrow> mpsc_inv (s, \<lambda>i. None, 0)"

definition mpsc_quiet :: "nat \<Rightarrow> mpsc_t \<Rightarrow> bool" where
  "mpsc_quiet p s \<longleftrightarrow> mpsc_rest s \<and> p < length (mq_producers s) \<and> pr_flag (mq_producers s ! p)"



lemma quiet_simps: "mpsc_quiet p s \<Longrightarrow> mpsc_pos_ok s \<and> mpsc_p s p = Some (mq_producers s ! p) \<and> pr_flag (mq_producers s ! p) \<and> p < length (mq_producers s)"
  by (simp add: mpsc_quiet_def mpsc_rest_def mpsc_inv_def mpsc_p_def)

subsection \<open>Writing\<close>

lemma with_reserve_nth [simp]: "i \<noteq> p \<Longrightarrow> mq_producers (with_reserve s p v) ! i = mq_producers s ! i"
  by (simp add: with_reserve_def)

lemma queue_with_reserve [simp]: "mpsc_queue (with_reserve s p v) = mpsc_queue s"
  by (simp add: mpsc_queue_def)

lemma mpsc_write_fifo:
  assumes q: "mpsc_quiet p s" and len: "length xs < 2 ^ 32"
  shows "\<exists>s'. mpsc_write fails s p xs = Some (s', if no_room s (length xs) then - 1 else if capn s < offn s + length xs then 0 else int (offn s)) \<and>
    mpsc_quiet p s' \<and> mpsc_queue s' = mpsc_queue s @ (if no_room s (length xs) then [] else xs) \<and>
    (mpsc_lap s' = mpsc_lap s \<or> mpsc_lap s' = length (mpsc_queue s')) \<and>
    length (mq_producers s') = length (mq_producers s) \<and> (\<forall>i. i \<noteq> p \<longrightarrow> mq_producers s' ! i = mq_producers s ! i) \<and>
    mq_cap s' = mq_cap s"
proof -
  let ?sz = "of_nat (length xs) :: usz" and ?n = "length xs"
  have us: "unat ?sz = ?n" using len by (intro unat_of_nat_usz) simp
  then have sz: "off_ok ?sz" using len by (simp add: off_ok_def)
  note qs = quiet_simps [OF q]
  have ok: "mpsc_pos_ok s" and p: "p < length (mq_producers s)" using qs by auto
  have inv: "mpsc_inv (s, \<lambda>i. None, 0)" using q by (simp add: mpsc_quiet_def mpsc_rest_def)
  obtain s1 where s1: "mpsc_acquire fails s p ?sz = Some (s1, if no_room s ?n then - 1 else if capn s < offn s + ?n then 0 else int (offn s))"
    "mq_buf s1 = mq_buf s" "mq_rp s1 = mq_rp s" "mq_cap s1 = mq_cap s"
    "if no_room s ?n then s1 = with_reserve s p MPSC_OFFSET_MAX
     else mq_producers s1 = mq_producers (with_reserve s p (off_word (offn s))) \<and> mq_wp s1 AND MPSC_WRAP_LOCK_BIT = 0 \<and>
       (if capn s < offn s + ?n then offn s1 = ?n \<and> mq_warp_end s1 = off_word (offn s)
        else if capn s = offn s + ?n then offn s1 = 0 \<and> mq_warp_end s1 = mq_warp_end s
        else offn s1 = offn s + ?n \<and> mq_warp_end s1 = mq_warp_end s)"
    using mpsc_acquire_cases [OF ok p sz, of fails] unfolding us by blast
  let ?off = "if no_room s ?n then - 1 else if capn s < offn s + ?n then 0 else int (offn s)"
  have "mpsc_inv (s1, if ?off < 0 then \<lambda>i. None else [p \<mapsto> (nat ?off, unat ?sz)], 0)"
    by (rule inv_acquire [OF inv _ _ _ sz s1(1), of "mq_producers s ! p"]) (use qs in auto)
  then have i1: "mpsc_inv (s1, if ?off < 0 then \<lambda>i. None else [p \<mapsto> (nat ?off, ?n)], 0)" unfolding us .
  show ?thesis
  proof (cases "no_room s ?n")
    case True
    then have "s1 = with_reserve s p MPSC_OFFSET_MAX" using s1(5) by simp
    then have "mpsc_quiet p s1" using i1 True qs by (simp add: mpsc_quiet_def mpsc_rest_def with_reserve_def)
    then show ?thesis using s1(1,5) True by (simp add: mpsc_write_def mpsc_lap_def pop_limit_def)
  next
    case False
    let ?st = "if capn s < offn s + ?n then 0 else offn s"
    have oc: "offn s < capn s" "capn s < 2 ^ 32" "capn s \<le> length (mq_buf s)" "rpn s \<le> capn s"
      using ok by (auto simp: mpsc_pos_ok_def split: if_splits)
    have nr: "rpn s \<le> offn s \<or> offn s + ?n < rpn s" "rpn s \<le> offn s \<Longrightarrow> capn s < offn s + ?n \<Longrightarrow> ?n < rpn s"
      "rpn s \<le> offn s \<Longrightarrow> capn s = offn s + ?n \<Longrightarrow> 0 < rpn s"
      using False by (auto simp: no_room_def)
    have fit: "?st + ?n \<le> capn s" using nr oc by auto
    have st: "off_ok (of_nat ?st :: usz)" "unat (of_nat ?st :: usz) = ?st"
      using oc unat_of_nat_usz [of ?st] by (auto simp: off_ok_def)
    have "unat (of_nat ?st + ?sz :: usz) = ?st + ?n" using unat_off_add [OF st(1) sz] st(2) us by simp
    then have le: "word_of_int (int ?st) + ?sz \<le> mq_cap s1"
      using fit s1(4) by (simp add: word_le_nat_alt capn_def)
    obtain b where b: "mem_put (mq_buf s) ?st xs = Some b"
      using fit oc(3) mem_put_Some [of ?st xs "mq_buf s"] by auto
    let ?s2 = "s1\<lparr>mq_buf := b\<rparr>"
    have lp: "p < length (mq_producers s1)" using s1(5) False p by (simp add: with_reserve_def)
    have push: "mpsc_push ?s2 p = Some (with_reserve ?s2 p MPSC_OFFSET_MAX)"
      using lp by (simp add: mpsc_push_def set_reserve_Some)
    let ?s3 = "with_reserve ?s2 p MPSC_OFFSET_MAX"
    have off: "?off = int ?st" using False by simp
    have w: "mpsc_write fails s p xs = Some (?s3, ?off)"
      using s1(1,2) le b push unfolding off by (simp add: mpsc_write_def Let_def del: of_nat_add)
    have i1': "mpsc_inv (s1, [p \<mapsto> (?st, ?n)], 0)" using i1 unfolding off by simp
    have i2: "mpsc_inv (?s2, [p \<mapsto> (?st, ?n)], 0)" by (rule inv_fill [OF i1']) (unfold s1(2), rule b)
    have "mpsc_inv (?s3, [p \<mapsto> (?st, ?n)](p := None), 0)" by (rule inv_push [OF i2 _ push]) simp
    moreover have "[p \<mapsto> (?st, ?n)](p := None) = (\<lambda>i. None)" by (simp add: fun_eq_iff)
    moreover have "pr_flag (mq_producers ?s3 ! p)" using s1(5) False p lp qs by (simp add: with_reserve_def)
    ultimately have quiet: "mpsc_quiet p ?s3" using lp by (simp add: mpsc_quiet_def mpsc_rest_def)
    have ow: "unat (off_word (offn s)) = offn s" "off_word (offn s) \<noteq> MPSC_OFFSET_MAX"
      using off_word_ok [of "offn s"] oc unat_OFFSET_MAX(1) by auto
    have f: "rpn ?s3 = rpn s" "capn ?s3 = capn s" "mq_buf ?s3 = b" "offn ?s3 = offn s1" "mq_warp_end ?s3 = mq_warp_end s1"
      using s1(3,4) by (simp_all add: rpn_def capn_def offn_def)
    note sl = slice_put [OF b]
    have lb: "length b = length (mq_buf s)" by (rule mem_put_length [OF b])
    have q3: "mpsc_queue ?s3 = mpsc_queue s @ xs \<and> (mpsc_lap ?s3 = mpsc_lap s \<or> mpsc_lap ?s3 = length (mpsc_queue ?s3))"
    proof -
      note ld = mpsc_lap_def pop_limit_def
      consider (jump) "rpn s \<le> offn s" "capn s < offn s + ?n" | (hit) "rpn s \<le> offn s" "capn s = offn s + ?n"
        | (fitU) "rpn s \<le> offn s" "offn s + ?n < capn s" | (fitW) "offn s + ?n < rpn s" using nr(1) by linarith
      then show ?thesis
      proof cases
        case jump
        then have "offn ?s3 = ?n" "endn ?s3 = offn s" using s1(5) False f ow by (auto simp: endn_def)
        then show ?thesis using jump nr(2) sl(2) [of "rpn s"] sl(3) [of 0] f by (simp add: mpsc_queue_def slice_def ld)
      next
        case hit
        then have "offn ?s3 = 0" "endn ?s3 = capn s" using s1(5) False f ok by (auto simp: endn_def mpsc_pos_ok_def)
        then show ?thesis using hit nr(3) sl(3) [of "rpn s"] f oc lb by (simp add: mpsc_queue_def ld slice_length)
      next
        case fitU
        then have "offn ?s3 = offn s + ?n" using s1(5) False f by auto
        then show ?thesis using fitU sl(3) [of "rpn s"] f oc lb by (simp add: mpsc_queue_def ld slice_length)
      next
        case fitW
        then have o: "offn ?s3 = offn s + ?n" "endn ?s3 = endn s" using s1(5) False f oc by (auto simp: endn_def)
        then show ?thesis using fitW oc sl(2) [of "rpn s"] sl(3) [of 0] f by (simp add: mpsc_queue_def ld)
      qed
    qed
    have oth: "length (mq_producers ?s3) = length (mq_producers s) \<and> (\<forall>i. i \<noteq> p \<longrightarrow> mq_producers ?s3 ! i = mq_producers s ! i)"
      using s1(5) False by (simp add: with_reserve_def)
    show ?thesis using w quiet q3 [THEN conjunct1] q3 [THEN conjunct2, unfolded q3 [THEN conjunct1]] oth s1(4) False by (intro exI [of _ ?s3]) simp
  qed
qed

subsection \<open>Reading\<close>

lemma queue_pop_state: "mpsc_pos_ok s \<Longrightarrow> mpsc_queue (pop_state s) = mpsc_queue s"
  using pop_state_ok [of s] by (cases "pop_jumps s") (auto simp: mpsc_queue_def pop_state_def pop_jumps_def offn_def rpn_def endn_def)

text \<open>The bytes that can be read at once: up to the write position or the end of the lap.\<close>

definition mpsc_contig :: "mpsc_t \<Rightarrow> nat" where
  "mpsc_contig s = pop_limit (pop_state s) - rpn (pop_state s)"

lemma mpsc_read_rest:
  assumes q: "mpsc_rest s" and len: "n < 2 ^ 64"
  shows "\<exists>s' ys. mpsc_read s (of_nat n) = Some (s', ys) \<and> mpsc_rest s' \<and> mpsc_queue s = ys @ mpsc_queue s' \<and>
    length ys = (if n \<le> mpsc_contig s then n else 0) \<and> mq_producers s' = mq_producers s \<and> mq_cap s' = mq_cap s \<and>
    (mpsc_lap s' = mpsc_contig s - length ys \<or> mpsc_lap s' = length (mpsc_queue s'))"
proof -
  let ?sz = "of_nat n :: usz" and ?s1 = "pop_state s"
  have us: "unat ?sz = n" using len by (rule unat_of_nat_usz)
  have inv: "mpsc_inv (s, \<lambda>i. None, 0)" using q by (simp add: mpsc_rest_def)
  have ok: "mpsc_pos_ok s" and po: "producers_ok s (\<lambda>i. None)" using inv by (auto simp: mpsc_inv_def)
  have idle: "mpsc_idle (mq_producers s)" by (rule inv_idle [OF ok po])
  have all: "\<forall>r \<in> set (mq_producers s). pr_flag r \<longrightarrow> pr_reserve_pos r = MPSC_OFFSET_MAX"
    using po by (auto simp: producers_ok_def in_set_conv_nth)
  obtain m where m: "mpsc_pop s = Some (?s1, m, mq_rp ?s1)" "rpn ?s1 + unat m = pop_limit ?s1"
    using mpsc_pop_spec [OF ok idle] all by blast
  note ps = pop_state_ok [OF ok]
  have c: "mpsc_contig s = unat m" using m(2) by (simp add: mpsc_contig_def)
  have i1: "mpsc_inv (?s1, \<lambda>i. None, unat m)" by (rule inv_pop [OF inv m(1)])
  have i0: "mpsc_inv (?s1, \<lambda>i. None, 0)" using i1 by (simp add: mpsc_inv_def grant_ok_def)
  have ok1: "mpsc_pos_ok ?s1" by (rule ps(1))
  have q1: "mpsc_rest ?s1" using i0 by (simp add: mpsc_rest_def)
  have qq: "mpsc_queue ?s1 = mpsc_queue s" by (rule queue_pop_state [OF ok])
  have lim: "pop_limit ?s1 \<le> capn ?s1" "capn ?s1 \<le> length (mq_buf ?s1)" "capn ?s1 < 2 ^ 32"
    using ok1 by (auto simp: pop_limit_def mpsc_pos_ok_def split: if_splits)
  show ?thesis
  proof (cases "m = 0")
    case True
    then have "mpsc_read s ?sz = Some (?s1, [])" using m(1) by (simp add: mpsc_read_def)
    moreover have "mpsc_lap ?s1 = mpsc_contig s" by (simp add: mpsc_lap_def mpsc_contig_def)
    ultimately show ?thesis using True q1 qq c ps(5,7) by auto
  next
    case False
    then have mp: "0 < unat m" by (simp add: unat_gt_0)
    define k :: usz where "k = (if m < ?sz then 0 else ?sz)"
    have uk: "unat k = (if n \<le> unat m then n else 0)" using us by (auto simp: k_def word_less_nat_alt)
    have km: "unat k \<le> unat m" using uk by auto
    let ?s2 = "mpsc_release ?s1 k"
    have le: "rpn ?s1 + unat k \<le> capn ?s1" using m(2) km lim by linarith
    note r = release_rpn [OF ok1 le]
    have "mpsc_inv (?s2, \<lambda>i. None, unat m - unat k)" by (rule inv_release [OF i1 km])
    then have q2: "mpsc_rest ?s2" by (simp add: mpsc_inv_def grant_ok_def mpsc_rest_def)
    have ou: "unat (mq_rp ?s1) = rpn ?s1" by (simp add: rpn_def)
    have "unat (mq_rp ?s1 + k) = rpn ?s1 + unat k"
      using le lim(3) by (subst unat_add_lem [THEN iffD1]) (simp_all add: rpn_def)
    then have fits: "mq_rp ?s1 + k \<le> mq_cap ?s1" using le by (simp add: word_le_nat_alt capn_def)
    have get: "mem_get (mq_buf ?s1) (unat (mq_rp ?s1)) (unat k) = Some (slice (mq_buf ?s1) (rpn ?s1) (rpn ?s1 + unat k))"
      using le lim unfolding ou by (simp add: mem_get_def slice_def)
    have rd: "mpsc_read s ?sz = Some (?s2, slice (mq_buf ?s1) (rpn ?s1) (rpn ?s1 + unat k))"
      using m(1) False fits get by (simp add: mpsc_read_def k_def [symmetric] Let_def)
    have f2: "mq_buf ?s2 = mq_buf ?s1" "offn ?s2 = offn ?s1" "endn ?s2 = endn ?s1" using r by simp_all
    have spl: "slice (mq_buf ?s1) (rpn ?s1) (pop_limit ?s1) =
      slice (mq_buf ?s1) (rpn ?s1) (rpn ?s1 + unat k) @ slice (mq_buf ?s1) (rpn ?s1 + unat k) (pop_limit ?s1)"
      using m(2) km by (intro slice_split) auto
    have qu: "mpsc_queue ?s1 = slice (mq_buf ?s1) (rpn ?s1) (rpn ?s1 + unat k) @ mpsc_queue ?s2"
    proof (cases "rpn ?s1 \<le> offn ?s1")
      case True
      then have "pop_limit ?s1 = offn ?s1" "rpn ?s1 + unat k < capn ?s1" "rpn ?s1 + unat k \<le> offn ?s1"
        using m(2) km ok1 by (auto simp: pop_limit_def mpsc_pos_ok_def)
      then show ?thesis using True spl r(1) f2 by (simp add: mpsc_queue_def)
    next
      case W: False
      then have pl: "pop_limit ?s1 = endn ?s1" by (simp add: pop_limit_def)
      show ?thesis
      proof (cases "rpn ?s1 + unat k = capn ?s1")
        case True
        then have "rpn ?s1 + unat k = endn ?s1" using m(2) km lim pl by linarith
        then show ?thesis using W True spl r(1) f2 pl by (simp add: mpsc_queue_def)
      next
        case False
        then show ?thesis using W spl r(1) f2 pl by (simp add: mpsc_queue_def)
      qed
    qed
    have "length (slice (mq_buf ?s1) (rpn ?s1) (rpn ?s1 + unat k)) = unat k"
      using le lim by (simp add: slice_def)
    moreover have "mpsc_lap ?s2 = mpsc_contig s - unat k \<or> mpsc_lap ?s2 = length (mpsc_queue ?s2)"
    proof (cases "rpn ?s1 + unat k = capn ?s1")
      case True
      then show ?thesis using r(1) f2 lim ok1 by (simp add: mpsc_lap_def pop_limit_def mpsc_queue_def slice_length mpsc_pos_ok_def)
    next
      case False
      then have "rpn ?s2 = rpn ?s1 + unat k" using r(1) by simp
      moreover have "pop_limit ?s2 = pop_limit ?s1 \<or> rpn ?s2 \<le> offn ?s2 \<and> \<not> rpn ?s1 \<le> offn ?s1"
        using f2 r(1) False m(2) km by (auto simp: pop_limit_def)
      ultimately show ?thesis using c m(2) f2 by (auto simp: mpsc_lap_def mpsc_contig_def)
    qed
    moreover have "mq_producers ?s2 = mq_producers s" "mq_cap ?s2 = mq_cap s" using r(5) ps(5,7) by (simp_all add: mpsc_release_def Let_def)
    ultimately show ?thesis using rd q2 qu qq uk c by auto
  qed
qed

lemma mpsc_read_fifo:
  assumes q: "mpsc_quiet p s" and len: "n < 2 ^ 64"
  shows "\<exists>s' ys. mpsc_read s (of_nat n) = Some (s', ys) \<and> mpsc_quiet p s' \<and> mpsc_queue s = ys @ mpsc_queue s' \<and>
    length ys = (if n \<le> mpsc_contig s then n else 0)"
proof -
  have "mpsc_rest s" using q by (simp add: mpsc_quiet_def)
  from mpsc_read_rest [OF this len] q show ?thesis by (auto simp: mpsc_quiet_def)
qed


subsection \<open>Properties\<close>

definition demo_used :: mpsc_t where
  "demo_used = \<lparr>mq_buf = [0, 1, 2, 3, 4, 5, 6, 7], mq_cap = 8, mq_warp_end = 6, mq_wp = 0x100000003, mq_rp = 5,
     mq_producers = [\<lparr>pr_reserve_pos = MPSC_OFFSET_MAX, pr_flag = True\<rparr>]\<rparr>"

lemma demo_used_quiet: "mpsc_quiet 0 demo_used" "mpsc_queue demo_used = [5, 0, 1, 2]"
proof -
  have w: "offn demo_used = 3" "rpn demo_used = 5" "capn demo_used = 8" "endn demo_used = 6" "mq_wp demo_used AND MPSC_WRAP_LOCK_BIT = 0"
    "mq_warp_end demo_used \<noteq> MPSC_OFFSET_MAX"
    unfolding demo_used_def by code_simp+
  then show "mpsc_quiet 0 demo_used"
    by (simp add: mpsc_quiet_def mpsc_rest_def mpsc_inv_def mpsc_pos_ok_def producers_ok_def grant_ok_def pop_limit_def) (simp add: demo_used_def)
  show "mpsc_queue demo_used = [5, 0, 1, 2]" using w by (simp add: mpsc_queue_def slice_def demo_used_def)
qed



text \<open>One write is accepted whole, in one piece, unless \<open>no_room\<close>; one read gives all the bytes asked for or
  none, and it gives none when they do not lie in one piece before the end of the lap, even if the
  ring holds enough.\<close>

theorem mpsc_write_read_spec:
  assumes "mpsc_quiet p s"
  shows "(length xs < 2 ^ 32 \<longrightarrow> (\<exists>s'. mpsc_write fails s p xs =
      Some (s', if no_room s (length xs) then - 1 else if capn s < offn s + length xs then 0 else int (offn s)) \<and>
      mpsc_queue s' = mpsc_queue s @ (if no_room s (length xs) then [] else xs))) \<and>
    (n < 2 ^ 64 \<longrightarrow> (\<exists>s' ys. mpsc_read s (of_nat n) = Some (s', ys) \<and> mpsc_queue s = ys @ mpsc_queue s' \<and>
      length ys = (if n \<le> mpsc_contig s then n else 0)))"
  using mpsc_write_fifo [OF assms, of xs fails] mpsc_read_fifo [OF assms, of n] by blast

theorem mpsc_write_read_spec_witness:
  "length (mpsc_queue demo_used) = 4 \<and> (\<exists>s'. mpsc_read demo_used 3 = Some (s', []))"
proof -
  have "mpsc_contig demo_used = 1" unfolding demo_used_def by code_simp
  then show ?thesis using mpsc_write_read_spec [OF demo_used_quiet(1), of "[]" 0 3] demo_used_quiet(2) by auto
qed

text \<open>A record that fits the buffer is refused although the ring is empty, when it does not fit behind the
  write position and is not shorter than the space before the read position.\<close>

theorem mpsc_empty_refuses:
  assumes "mpsc_quiet p s" "rpn s = offn s" "rpn s \<le> length xs" "capn s < offn s + length xs" "length xs \<le> capn s"
  shows "mpsc_queue s = [] \<and> (\<exists>s'. mpsc_write fails s p xs = Some (s', - 1))"
proof -
  have "capn s < 2 ^ 32" using assms(1) by (simp add: mpsc_quiet_def mpsc_rest_def mpsc_inv_def mpsc_pos_ok_def)
  then have "length xs < 2 ^ 32" using assms(5) by linarith
  from mpsc_write_fifo [OF assms(1) this, of fails] assms show ?thesis by (auto simp: no_room_def mpsc_queue_def)
qed

theorem mpsc_empty_refuses_witness:
  "\<exists>s. mpsc_queue s = [] \<and> capn s = 8 \<and> (\<exists>s'. mpsc_write 0 s 0 [1, 2, 3, 4, 5] = Some (s', - 1))"
proof -
  define s where "s = demo_used\<lparr>mq_rp := 4, mq_wp := 4, mq_warp_end := MPSC_OFFSET_MAX\<rparr>"
  have w: "offn s = 4" "rpn s = 4" "capn s = 8" "mq_wp s AND MPSC_WRAP_LOCK_BIT = 0" "mq_warp_end s = MPSC_OFFSET_MAX"
    unfolding s_def demo_used_def by code_simp+
  then have "mpsc_quiet 0 s"
    by (simp add: mpsc_quiet_def mpsc_rest_def mpsc_inv_def mpsc_pos_ok_def producers_ok_def grant_ok_def pop_limit_def) (simp add: s_def demo_used_def)
  from mpsc_empty_refuses [OF this, of "[1, 2, 3, 4, 5]" 0] w show ?thesis by (intro exI [of _ s]) simp
qed

end
