(* ===== verification/Log.thy ===== *)
theory Log
  imports Mpsc_Fifo
begin

section \<open>The logger (log/log.h)\<close>

text \<open>
  Writers put records, a header of 24 bytes and a payload, into the multi-producer ring; the flusher
  takes them out one by one and hands each to the callback of the configuration. The clock is read
  by the caller here: \<open>ts\<close> is what \<open>f_get_ts\<close> gave. A call of \<open>vsnprintf\<close> is the text it
  produces, without the final zero, or \<open>None\<close> where it reports an error. The object behind \<open>fp\<close> is
  a value that the callback maps to the next one. The machine is little-endian; the header is the
  one of a 64-bit host.
\<close>

subsection \<open>Levels, modes and configuration\<close>

datatype log_level_e = LOG_LEVEL_DATA | LOG_LEVEL_DEBUG | LOG_LEVEL_INFO | LOG_LEVEL_WARN | LOG_LEVEL_ERR

fun log_level_num :: "log_level_e \<Rightarrow> nat" where
  "log_level_num LOG_LEVEL_DATA = 0"
| "log_level_num LOG_LEVEL_DEBUG = 1"
| "log_level_num LOG_LEVEL_INFO = 2"
| "log_level_num LOG_LEVEL_WARN = 3"
| "log_level_num LOG_LEVEL_ERR = 4"

lemma log_level_num_inj: "log_level_num a = log_level_num b \<Longrightarrow> a = b"
  by (cases a; cases b) simp_all

instantiation log_level_e :: linorder
begin

definition less_eq_log_level_e :: "log_level_e \<Rightarrow> log_level_e \<Rightarrow> bool" where
  "less_eq_log_level_e a b \<longleftrightarrow> log_level_num a \<le> log_level_num b"

definition less_log_level_e :: "log_level_e \<Rightarrow> log_level_e \<Rightarrow> bool" where
  "less_log_level_e a b \<longleftrightarrow> log_level_num a < log_level_num b"

instance
  by standard (auto simp: less_eq_log_level_e_def less_log_level_e_def intro: log_level_num_inj)

end

datatype log_mode_e = LOG_MODE_SYNC | LOG_MODE_ASYNC

record log_entry_t =
  le_ts :: u64
  le_id :: usz
  le_size :: usz

record 'w log_cfg_t =
  lc_mode :: log_mode_e
  lc_level :: log_level_e
  lc_fp :: 'w
  lc_buf :: "u8 list"
  lc_cap :: usz
  lc_flush_buf :: "u8 list"
  lc_flush_cap :: usz
  lc_producers :: "mpsc_p_t list"
  lc_flush :: "'w \<Rightarrow> u8 list \<Rightarrow> 'w"

record 'w log_t =
  lg_cfg :: "'w log_cfg_t"
  lg_mpsc :: mpsc_t
  lg_busy :: bool

definition log_init :: "'w log_t \<Rightarrow> 'w log_cfg_t \<Rightarrow> 'w log_t" where
  "log_init l cfg = l\<lparr>lg_cfg := cfg, lg_mpsc := mpsc_init (lg_mpsc l) (lc_buf cfg) (lc_cap cfg) (lc_producers cfg)\<rparr>"

subsection \<open>The header as bytes, and printing of numbers\<close>

definition log_entry_bytes :: "log_entry_t \<Rightarrow> u8 list" where
  "log_entry_bytes e = le_bytes 8 (unat (le_ts e)) @ le_bytes 8 (unat (le_id e)) @ le_bytes 8 (unat (le_size e))"

definition log_entry_of :: "u8 list \<Rightarrow> log_entry_t" where
  "log_entry_of bs = \<lparr>le_ts = of_nat (le_val (take 8 bs)), le_id = of_nat (le_val (take 8 (drop 8 bs))),
     le_size = of_nat (le_val (take 8 (drop 16 bs)))\<rparr>"

text \<open>The number \<open>sizeof(log_entry_t)\<close>.\<close>

definition LOG_ENTRY_SIZE :: nat where
  "LOG_ENTRY_SIZE = 24"

fun dec_chars :: "nat \<Rightarrow> u8 list" where
  "dec_chars n = (if n < 10 then [48 + of_nat n] else dec_chars (n div 10) @ [48 + of_nat (n mod 10)])"

declare dec_chars.simps [simp del]

text \<open>The text of \<open>"[%llu][%llu]"\<close>.\<close>

definition log_prefix :: "log_entry_t \<Rightarrow> u8 list" where
  "log_prefix e = [91] @ dec_chars (unat (le_ts e)) @ [93, 91] @ dec_chars (unat (le_id e)) @ [93]"

text \<open>\<open>snprintf\<close> and \<open>vsnprintf\<close> to a buffer of \<open>cap\<close> bytes: what is stored, cut and closed by a zero.\<close>

definition snprintf_out :: "nat \<Rightarrow> u8 list \<Rightarrow> u8 list" where
  "snprintf_out cap txt = (if cap = 0 then [] else take (cap - 1) txt @ [0])"

text \<open>The length that \<open>vsnprintf\<close> returns, minus one for an error.\<close>

fun vsn_len :: "u8 list option \<Rightarrow> int" where
  "vsn_len None = - 1"
| "vsn_len (Some txt) = int (length txt)"

fun vsn_text :: "u8 list option \<Rightarrow> u8 list" where
  "vsn_text None = []"
| "vsn_text (Some txt) = txt"

subsection \<open>Writing\<close>

text \<open>Both writers: reserve, copy the header and the payload, push. \<open>None\<close> is a register outside the
  array of producers or a copy outside the buffer.\<close>

definition log_put :: "nat \<Rightarrow> 'w log_t \<Rightarrow> log_entry_t \<Rightarrow> u8 list \<Rightarrow> 'w log_t option" where
  "log_put fails l entry data = do {
     let total_size = of_nat LOG_ENTRY_SIZE + le_size entry;
     if lc_cap (lg_cfg l) < total_size then Some l
     else do {
       let p = unat (le_id entry);
       q \<leftarrow> mpsc_reg (lg_mpsc l) p;
       (q, off) \<leftarrow> mpsc_acquire fails q p total_size;
       if off < 0 then do { q \<leftarrow> mpsc_unreg q p; Some (l\<lparr>lg_mpsc := q\<rparr>) }
       else do {
         b \<leftarrow> mem_put (mq_buf q) (nat off) (log_entry_bytes entry);
         b \<leftarrow> mem_put b (nat off + LOG_ENTRY_SIZE) data;
         q \<leftarrow> mpsc_push (q\<lparr>mq_buf := b\<rparr>) p;
         q \<leftarrow> mpsc_unreg q p;
         Some (l\<lparr>lg_mpsc := q\<rparr>) } } }"

definition log_write_bin :: "nat \<Rightarrow> 'w log_t \<Rightarrow> u64 \<Rightarrow> usz \<Rightarrow> u8 list \<Rightarrow> 'w log_t option" where
  "log_write_bin fails l ts i data = log_put fails l \<lparr>le_ts = ts, le_id = i, le_size = of_nat (length data)\<rparr> data"

definition log_write :: "nat \<Rightarrow> 'w log_t \<Rightarrow> u64 \<Rightarrow> usz \<Rightarrow> u8 list option \<Rightarrow> 'w log_t option" where
  "log_write fails l ts i txt = (let n = word_of_int (vsn_len txt) + 1 in
     log_put fails l \<lparr>le_ts = ts, le_id = i, le_size = n\<rparr> (snprintf_out (unat n) (vsn_text txt)))"

definition log_data :: "nat \<Rightarrow> 'w log_t \<Rightarrow> u64 \<Rightarrow> usz \<Rightarrow> u8 list option \<Rightarrow> 'w log_t option" where
  "log_data fails l ts i txt = (if LOG_LEVEL_DATA < lc_level (lg_cfg l) then Some l else log_write fails l ts i txt)"

definition log_debug :: "nat \<Rightarrow> 'w log_t \<Rightarrow> u64 \<Rightarrow> usz \<Rightarrow> u8 list option \<Rightarrow> 'w log_t option" where
  "log_debug fails l ts i txt = (if LOG_LEVEL_DEBUG < lc_level (lg_cfg l) then Some l else log_write fails l ts i txt)"

definition log_info :: "nat \<Rightarrow> 'w log_t \<Rightarrow> u64 \<Rightarrow> usz \<Rightarrow> u8 list option \<Rightarrow> 'w log_t option" where
  "log_info fails l ts i txt = (if LOG_LEVEL_INFO < lc_level (lg_cfg l) then Some l else log_write fails l ts i txt)"

definition log_warn :: "nat \<Rightarrow> 'w log_t \<Rightarrow> u64 \<Rightarrow> usz \<Rightarrow> u8 list option \<Rightarrow> 'w log_t option" where
  "log_warn fails l ts i txt = (if LOG_LEVEL_WARN < lc_level (lg_cfg l) then Some l else log_write fails l ts i txt)"

definition log_err :: "nat \<Rightarrow> 'w log_t \<Rightarrow> u64 \<Rightarrow> usz \<Rightarrow> u8 list option \<Rightarrow> 'w log_t option" where
  "log_err fails l ts i txt = (if LOG_LEVEL_ERR < lc_level (lg_cfg l) then Some l else log_write fails l ts i txt)"

subsection \<open>Flushing\<close>

text \<open>The end of a round: the first \<open>n\<close> bytes of the flush buffer go to the callback.\<close>

definition log_emit :: "'w log_t \<Rightarrow> u8 list \<Rightarrow> nat \<Rightarrow> 'w log_t option" where
  "log_emit l buf n = do {
     out \<leftarrow> mem_get buf 0 n;
     let cfg = lg_cfg l;
     Some (l\<lparr>lg_cfg := cfg\<lparr>lc_flush_buf := buf, lc_fp := lc_flush cfg (lc_fp cfg) out\<rparr>,
             lg_busy := (lc_mode cfg = LOG_MODE_ASYNC)\<rparr>) }"

text \<open>A round that finds no header is the last one (\<open>False\<close>).\<close>

definition log_flush_bin_round :: "'w log_t \<Rightarrow> ('w log_t \<times> bool) option" where
  "log_flush_bin_round l = do {
     (q, hdr) \<leftarrow> mpsc_read (lg_mpsc l) (of_nat LOG_ENTRY_SIZE);
     if hdr = [] then Some (l\<lparr>lg_mpsc := q\<rparr>, False)
     else do {
       (q, data) \<leftarrow> mpsc_read q (le_size (log_entry_of hdr));
       buf \<leftarrow> mem_put (lc_flush_buf (lg_cfg l)) 0 data;
       l \<leftarrow> log_emit (l\<lparr>lg_mpsc := q\<rparr>) buf (length data);
       Some (l, True) } }"

definition log_flush_round :: "'w log_t \<Rightarrow> ('w log_t \<times> bool) option" where
  "log_flush_round l = do {
     (q, hdr) \<leftarrow> mpsc_read (lg_mpsc l) (of_nat LOG_ENTRY_SIZE);
     if hdr = [] then Some (l\<lparr>lg_mpsc := q\<rparr>, False)
     else do {
       let pre = log_prefix (log_entry_of hdr);
       buf \<leftarrow> mem_put (lc_flush_buf (lg_cfg l)) 0 (snprintf_out (unat (lc_flush_cap (lg_cfg l))) pre);
       (q, data) \<leftarrow> mpsc_read q (le_size (log_entry_of hdr));
       buf \<leftarrow> mem_put buf (length pre) data;
       l \<leftarrow> log_emit (l\<lparr>lg_mpsc := q\<rparr>) buf (length pre + length data);
       Some (l, True) } }"

text \<open>The loop; \<open>None\<close> also stands for a loop that does not end.\<close>

partial_function (option) log_loop :: "('w log_t \<Rightarrow> ('w log_t \<times> bool) option) \<Rightarrow> 'w log_t \<Rightarrow> 'w log_t option" where
  "log_loop round l = (if lg_busy l then Some l
     else do { (l, more) \<leftarrow> round l; if more then log_loop round l else Some l })"

definition log_flush_bin :: "'w log_t \<Rightarrow> 'w log_t option" where
  "log_flush_bin l = log_loop log_flush_bin_round l"

definition log_flush :: "'w log_t \<Rightarrow> 'w log_t option" where
  "log_flush l = log_loop log_flush_round l"

end
