(* ===== verification/Log_Props.thy ===== *)
theory Log_Props
  imports Log
begin

section \<open>The logger: records in, lines out\<close>

text \<open>
  What the ring holds for the logger is a list of records that no lap splits. Each write adds a record
  or nothing; each flush takes the records in order. The two flushers share one loop, which the
  locale \<open>log_rounds\<close> treats once.
\<close>

subsection \<open>The header survives the ring\<close>

lemma length_entry_bytes [simp]: "length (log_entry_bytes e) = 24"
  by (simp add: log_entry_bytes_def)

lemma log_entry_roundtrip: "log_entry_of (log_entry_bytes e) = e"
proof -
  have d: "drop 8 (log_entry_bytes e) = le_bytes 8 (unat (le_id e)) @ le_bytes 8 (unat (le_size e))" "drop 16 (log_entry_bytes e) = le_bytes 8 (unat (le_size e))"
    by (simp_all add: log_entry_bytes_def)
  show ?thesis unfolding log_entry_of_def d by (simp add: log_entry_bytes_def le_val_word)
qed

subsection \<open>Records in the ring\<close>

type_synonym log_rec = "log_entry_t \<times> u8 list"

definition rec_bytes :: "log_rec \<Rightarrow> u8 list" where
  "rec_bytes r = log_entry_bytes (fst r) @ snd r"

definition recs_bytes :: "log_rec list \<Rightarrow> u8 list" where
  "recs_bytes rs = concat (map rec_bytes rs)"

definition rec_ok :: "log_rec \<Rightarrow> bool" where
  "rec_ok r \<longleftrightarrow> le_size (fst r) = of_nat (length (snd r)) \<and> length (snd r) < 2 ^ 32"

definition recs_in :: "mpsc_t \<Rightarrow> log_rec list \<Rightarrow> bool" where
  "recs_in q rs \<longleftrightarrow> mpsc_rest q \<and> mpsc_queue q = recs_bytes rs \<and> (\<exists>n \<le> length rs. mpsc_lap q = length (recs_bytes (take n rs))) \<and>
     (\<forall>r \<in> set rs. rec_ok r)"

lemma recs_bytes_simps [simp]:
  "recs_bytes [] = []" "recs_bytes (r # rs) = log_entry_bytes (fst r) @ snd r @ recs_bytes rs" "recs_bytes (rs @ rs') = recs_bytes rs @ recs_bytes rs'"
  by (simp_all add: recs_bytes_def rec_bytes_def)

lemma contig_lap:
  assumes "mpsc_rest q"
  shows "mpsc_contig q = (if mpsc_lap q = 0 then length (mpsc_queue q) else mpsc_lap q)"
proof -
  have ok: "mpsc_pos_ok q" and po: "producers_ok q (\<lambda>i. None)" using assms by (auto simp: mpsc_rest_def mpsc_inv_def)
  have all: "\<forall>r \<in> set (mq_producers q). pr_flag r \<longrightarrow> pr_reserve_pos r = MPSC_OFFSET_MAX"
    using po by (auto simp: producers_ok_def in_set_conv_nth)
  have rdy: "mpsc_ready (mq_rp q) (mq_producers q) MPSC_OFFSET_MAX = Some MPSC_OFFSET_MAX"
    using mpsc_ready_spec [OF inv_idle [OF ok po], of "mq_rp q" MPSC_OFFSET_MAX] all by auto
  have b: "offn q < capn q" "capn q \<le> length (mq_buf q)" using ok by (auto simp: mpsc_pos_ok_def)
  show ?thesis
  proof (cases "pop_jumps q")
    case True
    then have "rpn (pop_state q) = 0" "offn (pop_state q) = offn q" using pop_state_ok [OF ok] by auto
    then show ?thesis using True b by (simp add: mpsc_contig_def pop_limit_def mpsc_lap_def pop_jumps_def mpsc_queue_def slice_length)
  next
    case False
    then have "pop_state q = q" by (simp add: pop_state_def)
    moreover have "rpn q \<le> offn q \<or> rpn q < endn q" using False rdy ok by (cases "rpn q \<le> offn q") (auto simp: pop_jumps_def mpsc_pos_ok_def)
    ultimately show ?thesis by (auto simp: mpsc_contig_def mpsc_lap_def pop_limit_def mpsc_queue_def)
  qed
qed

lemma recs_nil_read:
  assumes "recs_in q []" "0 < n" "n < 2 ^ 64"
  shows "\<exists>q'. mpsc_read q (of_nat n) = Some (q', []) \<and> recs_in q' []"
proof -
  have r: "mpsc_rest q" "mpsc_queue q = []" "mpsc_lap q = 0" using assms(1) by (auto simp: recs_in_def)
  have c: "mpsc_contig q = 0" using contig_lap [OF r(1)] r by simp
  obtain q' ys where q': "mpsc_read q (of_nat n) = Some (q', ys)" "mpsc_rest q'" "mpsc_queue q = ys @ mpsc_queue q'"
    "mpsc_lap q' = mpsc_contig q - length ys \<or> mpsc_lap q' = length (mpsc_queue q')"
    using mpsc_read_rest [OF r(1) assms(3)] by blast
  then show ?thesis using r c by (auto simp: recs_in_def)
qed

lemma recs_cons_read:
  assumes "recs_in q (r # rs)"
  shows "\<exists>q1 q2. mpsc_read q (of_nat 24) = Some (q1, log_entry_bytes (fst r)) \<and> mpsc_read q1 (le_size (fst r)) = Some (q2, snd r) \<and>
    recs_in q2 rs \<and> length (mq_producers q2) = length (mq_producers q) \<and> mq_cap q2 = mq_cap q"
proof -
  let ?d = "snd r"
  have r: "mpsc_rest q" "mpsc_queue q = log_entry_bytes (fst r) @ ?d @ recs_bytes rs" and ok: "le_size (fst r) = of_nat (length ?d)" "length ?d < 2 ^ 64"
    using assms by (auto simp: recs_in_def rec_ok_def)
  obtain n where n: "n \<le> length (r # rs)" "mpsc_lap q = length (recs_bytes (take n (r # rs)))"
    using assms unfolding recs_in_def by blast
  obtain m where m: "m \<le> length rs" "mpsc_contig q = 24 + length ?d + length (recs_bytes (take m rs))"
  proof (cases n)
    case 0
    then show ?thesis using that [of "length rs"] contig_lap [OF r(1)] n r(2) by simp
  next
    case (Suc k)
    then show ?thesis using that [of k] contig_lap [OF r(1)] n by simp
  qed
  obtain q1 ys where q1: "mpsc_read q (of_nat 24) = Some (q1, ys)" "mpsc_rest q1" "mpsc_queue q = ys @ mpsc_queue q1" "length ys = 24"
    "mq_producers q1 = mq_producers q" "mq_cap q1 = mq_cap q" "mpsc_lap q1 = mpsc_contig q - 24 \<or> mpsc_lap q1 = length (mpsc_queue q1)"
    using mpsc_read_rest [OF r(1), of 24] m(2) by auto
  have e: "ys = log_entry_bytes (fst r)" "mpsc_queue q1 = ?d @ recs_bytes rs" using q1(3,4) r(2) by (auto simp: append_eq_append_conv)
  have c1: "mpsc_contig q1 = length ?d + length (recs_bytes (take m rs)) \<or> mpsc_contig q1 = length (mpsc_queue q1)"
    using contig_lap [OF q1(2)] q1(7) m(2) by (auto split: if_splits)
  then have "length ?d \<le> mpsc_contig q1" using e(2) by auto
  then obtain q2 zs where q2: "mpsc_read q1 (of_nat (length ?d)) = Some (q2, zs)" "mpsc_rest q2" "mpsc_queue q1 = zs @ mpsc_queue q2" "length zs = length ?d"
    "mq_producers q2 = mq_producers q1" "mq_cap q2 = mq_cap q1" "mpsc_lap q2 = mpsc_contig q1 - length ?d \<or> mpsc_lap q2 = length (mpsc_queue q2)"
    using mpsc_read_rest [OF q1(2) ok(2)] by auto
  have f: "zs = ?d" "mpsc_queue q2 = recs_bytes rs" using q2(3,4) e(2) by (auto simp: append_eq_append_conv)
  have "mpsc_lap q2 = length (recs_bytes (take m rs)) \<or> mpsc_lap q2 = length (recs_bytes (take (length rs) rs))"
    using q2(7) c1 e(2) f(2) by auto
  then have "recs_in q2 rs" using assms q2(2) f(2) m(1) by (auto simp: recs_in_def)
  then show ?thesis using q1 q2 e f ok(1) by auto
qed

subsection \<open>Writing a record\<close>

definition log_holds :: "'w log_t \<Rightarrow> log_rec list \<Rightarrow> bool" where
  "log_holds l rs \<longleftrightarrow> recs_in (lg_mpsc l) rs"

text \<open>A record is dropped when it is longer than the buffer or when the ring has no room for it.\<close>

definition log_full :: "'w log_t \<Rightarrow> nat \<Rightarrow> bool" where
  "log_full l n \<longleftrightarrow> unat (lc_cap (lg_cfg l)) < n \<or> no_room (lg_mpsc l) n"

lemma mem_put_append:
  "mem_put b o1 (xs @ ys) = do { b \<leftarrow> mem_put b o1 xs; mem_put b (o1 + length xs) ys }"
proof (cases "o1 + length xs + length ys \<le> length b")
  case True
  then have "length (take o1 b) = o1" "length (take (o1 + length xs) b) = o1 + length xs" by simp_all
  then show ?thesis using True by (simp add: mem_put_def ac_simps)
next
  case False
  then show ?thesis by (simp add: mem_put_def)
qed

lemma reg_facts:
  assumes "mpsc_rest q" "i < length (mq_producers q)"
  shows "\<exists>q'. mpsc_reg q i = Some q' \<and> mpsc_quiet i q' \<and> mpsc_queue q' = mpsc_queue q \<and> mpsc_lap q' = mpsc_lap q \<and>
    length (mq_producers q') = length (mq_producers q) \<and> (\<forall>n. no_room q' n = no_room q n) \<and> mq_cap q' = mq_cap q"
proof -
  let ?q = "q\<lparr>mq_producers := (mq_producers q)[i := \<lparr>pr_reserve_pos = MPSC_OFFSET_MAX, pr_flag = True\<rparr>]\<rparr>"
  have r: "mpsc_reg q i = Some ?q" using assms by (simp add: mpsc_reg_def mpsc_set_p_def)
  have "mpsc_rest ?q" using inv_reg [OF _ _ r] assms by (simp add: mpsc_rest_def)
  then have "mpsc_quiet i ?q" using assms(2) by (simp add: mpsc_quiet_def)
  then show ?thesis using r
    by (intro exI [of _ ?q]) (simp add: mpsc_queue_def mpsc_lap_def pop_limit_def no_room_def rpn_def offn_def endn_def capn_def)
qed

lemma unreg_facts:
  assumes "mpsc_quiet i q"
  shows "\<exists>q'. mpsc_unreg q i = Some q' \<and> mpsc_rest q' \<and> mpsc_queue q' = mpsc_queue q \<and> mpsc_lap q' = mpsc_lap q \<and>
    length (mq_producers q') = length (mq_producers q) \<and> mq_cap q' = mq_cap q"
proof -
  let ?q = "q\<lparr>mq_producers := (mq_producers q)[i := (mq_producers q ! i)\<lparr>pr_flag := False\<rparr>]\<rparr>"
  have r: "mpsc_unreg q i = Some ?q" using quiet_simps [OF assms] by (simp add: mpsc_unreg_def mpsc_set_p_def)
  have "mpsc_rest ?q" using inv_unreg [OF _ _ r] assms by (simp add: mpsc_rest_def mpsc_quiet_def)
  then show ?thesis using r
    by (intro exI [of _ ?q]) (simp add: mpsc_queue_def mpsc_lap_def pop_limit_def rpn_def offn_def endn_def capn_def)
qed

text \<open>Once registered, the writer does what \<open>mpsc_write\<close> does with header and payload as one record.\<close>

lemma log_put_is_write:
  assumes q: "mpsc_quiet i q" and len: "length (log_entry_bytes e @ d) = unat tot" "unat tot < 2 ^ 32"
  shows "do { (q, off) \<leftarrow> mpsc_acquire fails q i tot;
      if off < 0 then f q
      else do { b \<leftarrow> mem_put (mq_buf q) (nat off) (log_entry_bytes e); b \<leftarrow> mem_put b (nat off + LOG_ENTRY_SIZE) d;
        q \<leftarrow> mpsc_push (q\<lparr>mq_buf := b\<rparr>) i; f q } } =
    do { (q, r) \<leftarrow> mpsc_write fails q i (log_entry_bytes e @ d); f q }"
proof -
  note qs = quiet_simps [OF q]
  have ok: "mpsc_pos_ok q" and p: "i < length (mq_producers q)" using qs by auto
  have sz: "off_ok tot" using len by (simp add: off_ok_def)
  have tot: "of_nat (length (log_entry_bytes e @ d)) = tot" unfolding len(1) by simp
  let ?off = "if no_room q (unat tot) then - 1 else if capn q < offn q + unat tot then 0 else int (offn q)"
  obtain q1 where q1: "mpsc_acquire fails q i tot = Some (q1, ?off)" "mq_cap q1 = mq_cap q"
    using mpsc_acquire_cases [OF ok p sz, of fails] by blast
  show ?thesis
  proof (cases "?off < 0")
    case True
    then show ?thesis using q1(1) unfolding mpsc_write_def tot by (simp add: Let_def del: length_append)
  next
    case False
    let ?st = "if capn q < offn q + unat tot then 0 else offn q"
    have off: "?off = int ?st" using False by auto
    have b: "offn q < capn q" "capn q < 2 ^ 32" "rpn q \<le> capn q" using ok by (auto simp: mpsc_pos_ok_def split: if_splits)
    have nr: "\<not> no_room q (unat tot)" using False by auto
    have fit: "?st + unat tot \<le> capn q" using nr b by (auto simp: no_room_def)
    have st: "off_ok (of_nat ?st :: usz)" "unat (of_nat ?st :: usz) = ?st" using b unat_of_nat_usz [of ?st] by (auto simp: off_ok_def)
    have le: "word_of_int ?off + tot \<le> mq_cap q1"
      using fit q1(2) unat_off_add [OF st(1) sz] st(2) unfolding off by (simp add: word_le_nat_alt capn_def)
    show ?thesis using q1(1) le False unfolding mpsc_write_def tot
      by (simp add: Let_def mem_put_append LOG_ENTRY_SIZE_def Option.bind_assoc del: length_append cong: if_cong)
  qed
qed

lemma log_put_spec:
  assumes h: "log_holds l rs" and e: "rec_ok (e, d)" "24 + length d < 2 ^ 32" "unat (le_id e) < length (mq_producers (lg_mpsc l))"
  shows "\<exists>q. log_put fails l e d = Some (l\<lparr>lg_mpsc := q\<rparr>) \<and> recs_in q (rs @ (if log_full l (24 + length d) then [] else [(e, d)])) \<and>
    length (mq_producers q) = length (mq_producers (lg_mpsc l)) \<and> mq_cap q = mq_cap (lg_mpsc l)"
proof -
  let ?tot = "of_nat LOG_ENTRY_SIZE + le_size e" and ?i = "unat (le_id e)" and ?q = "lg_mpsc l"
  have "le_size e = of_nat (length d)" using e(1) by (simp add: rec_ok_def)
  then have "?tot = of_nat (24 + length d)" by (simp add: LOG_ENTRY_SIZE_def)
  then have tot: "unat ?tot = 24 + length d" using e(2) unat_of_nat_usz [of "24 + length d"] by simp
  have big: "lc_cap (lg_cfg l) < ?tot \<longleftrightarrow> unat (lc_cap (lg_cfg l)) < 24 + length d" using tot by (simp add: word_less_nat_alt)
  have r: "recs_in ?q rs" using h by (simp add: log_holds_def)
  show ?thesis
  proof (cases "lc_cap (lg_cfg l) < ?tot")
    case True
    then show ?thesis using r big by (intro exI [of _ ?q]) (simp add: log_put_def log_full_def)
  next
    case False
    have rest: "mpsc_rest ?q" using r by (simp add: recs_in_def)
    obtain q1 where q1: "mpsc_reg ?q ?i = Some q1" "mpsc_quiet ?i q1" "mpsc_queue q1 = mpsc_queue ?q" "mpsc_lap q1 = mpsc_lap ?q"
      "length (mq_producers q1) = length (mq_producers ?q)" "\<And>n. no_room q1 n = no_room ?q n" "mq_cap q1 = mq_cap ?q"
      using reg_facts [OF rest e(3)] by blast
    have len: "length (log_entry_bytes e @ d) = 24 + length d" by simp
    let ?full = "no_room ?q (24 + length d)"
    obtain q2 v where q2: "mpsc_write fails q1 ?i (log_entry_bytes e @ d) = Some (q2, v)" "mpsc_quiet ?i q2"
      "mpsc_queue q2 = mpsc_queue ?q @ (if ?full then [] else log_entry_bytes e @ d)"
      "mpsc_lap q2 = mpsc_lap ?q \<or> mpsc_lap q2 = length (mpsc_queue q2)" "length (mq_producers q2) = length (mq_producers ?q)" "mq_cap q2 = mq_cap ?q"
      using mpsc_write_fifo [OF q1(2), of "log_entry_bytes e @ d" fails] e(2) unfolding len q1 by auto
    obtain q3 where q3: "mpsc_unreg q2 ?i = Some q3" "mpsc_rest q3" "mpsc_queue q3 = mpsc_queue q2" "mpsc_lap q3 = mpsc_lap q2"
      "length (mq_producers q3) = length (mq_producers q2)" "mq_cap q3 = mq_cap q2"
      using unreg_facts [OF q2(2)] by blast
    have "log_put fails l e d = do { q \<leftarrow> mpsc_reg ?q ?i;
        (q, off) \<leftarrow> mpsc_acquire fails q ?i ?tot;
        if off < 0 then do { q \<leftarrow> mpsc_unreg q ?i; Some (l\<lparr>lg_mpsc := q\<rparr>) }
        else do { b \<leftarrow> mem_put (mq_buf q) (nat off) (log_entry_bytes e); b \<leftarrow> mem_put b (nat off + LOG_ENTRY_SIZE) d;
          q \<leftarrow> mpsc_push (q\<lparr>mq_buf := b\<rparr>) ?i; do { q \<leftarrow> mpsc_unreg q ?i; Some (l\<lparr>lg_mpsc := q\<rparr>) } } }"
      using False by (simp add: log_put_def Let_def)
    also have "\<dots> = do { (q, r) \<leftarrow> mpsc_write fails q1 ?i (log_entry_bytes e @ d); do { q \<leftarrow> mpsc_unreg q ?i; Some (l\<lparr>lg_mpsc := q\<rparr>) } }"
      unfolding q1(1) bind.bind_lunit by (rule log_put_is_write [OF q1(2)]) (use tot e(2) in auto)
    also have "\<dots> = Some (l\<lparr>lg_mpsc := q3\<rparr>)" using q2(1) q3(1) by simp
    finally have res: "log_put fails l e d = Some (l\<lparr>lg_mpsc := q3\<rparr>)" .
    let ?rs = "rs @ (if ?full then [] else [(e, d)])"
    have q: "mpsc_queue q3 = recs_bytes ?rs" using q2(3) q3(3) r by (simp add: recs_in_def)
    obtain n where n: "n \<le> length rs" "mpsc_lap ?q = length (recs_bytes (take n rs))" using r by (auto simp: recs_in_def)
    have lap: "\<exists>n \<le> length ?rs. mpsc_lap q3 = length (recs_bytes (take n ?rs))"
    proof (cases "mpsc_lap q2 = mpsc_lap ?q")
      case True
      then show ?thesis using n q3(4) by (intro exI [of _ n]) simp
    next
      case False
      then show ?thesis using q2(4) q q3(3,4) by (intro exI [of _ "length ?rs"]) simp
    qed
    have "recs_in q3 ?rs" using q lap q3(2) r e(1) unfolding recs_in_def by auto
    then show ?thesis using res False big q3(5,6) q2(5,6) by (intro exI [of _ q3]) (simp add: log_full_def)
  qed
qed

subsection \<open>Flushing\<close>

text \<open>The records one flush is to hand over: all of them, or the first one in asynchronous mode.\<close>

definition log_batch :: "'w log_t \<Rightarrow> log_rec list \<Rightarrow> log_rec list" where
  "log_batch l rs = (if lc_mode (lg_cfg l) = LOG_MODE_SYNC then rs else take 1 rs)"

locale log_rounds =
  fixes round :: "'w log_t \<Rightarrow> ('w log_t \<times> bool) option" and line :: "log_rec \<Rightarrow> u8 list" and room :: "usz \<Rightarrow> log_rec \<Rightarrow> bool"
  assumes round_empty: "log_holds l [] \<Longrightarrow> \<exists>q. round l = Some (l\<lparr>lg_mpsc := q\<rparr>, False) \<and> recs_in q []"
    and round_one: "\<lbrakk>log_holds l (r # rs); unat (lc_flush_cap (lg_cfg l)) \<le> length (lc_flush_buf (lg_cfg l)); room (lc_flush_cap (lg_cfg l)) r\<rbrakk> \<Longrightarrow>
      \<exists>q b. round l = Some (l\<lparr>lg_mpsc := q, lg_cfg := (lg_cfg l)\<lparr>lc_flush_buf := b, lc_fp := lc_flush (lg_cfg l) (lc_fp (lg_cfg l)) (line r)\<rparr>,
          lg_busy := (lc_mode (lg_cfg l) = LOG_MODE_ASYNC)\<rparr>, True) \<and>
        recs_in q rs \<and> length b = length (lc_flush_buf (lg_cfg l))"
    and round_over: "\<lbrakk>log_holds l (r # rs); length (lc_flush_buf (lg_cfg l)) = unat (lc_flush_cap (lg_cfg l)); snd r \<noteq> [];
        \<not> room (lc_flush_cap (lg_cfg l)) r\<rbrakk> \<Longrightarrow> round l = None"
begin

lemma loop_all:
  assumes "log_holds l rs" "\<not> lg_busy l" "unat (lc_flush_cap (lg_cfg l)) \<le> length (lc_flush_buf (lg_cfg l))"
    "\<forall>r \<in> set (log_batch l rs). room (lc_flush_cap (lg_cfg l)) r"
  shows "\<exists>l'. log_loop round l = Some l' \<and>
    lc_fp (lg_cfg l') = foldl (lc_flush (lg_cfg l)) (lc_fp (lg_cfg l)) (map line (log_batch l rs)) \<and>
    log_holds l' (drop (length (log_batch l rs)) rs) \<and>
    lg_busy l' = (lc_mode (lg_cfg l) = LOG_MODE_ASYNC \<and> rs \<noteq> [])"
  using assms
proof (induction rs arbitrary: l)
  case Nil
  obtain q where "round l = Some (l\<lparr>lg_mpsc := q\<rparr>, False)" "recs_in q []" using round_empty [OF Nil.prems(1)] by blast
  then show ?case using Nil.prems(2) by (subst log_loop.simps) (simp add: log_holds_def log_batch_def)
next
  case (Cons r rs)
  let ?cfg = "lg_cfg l"
  have "room (lc_flush_cap ?cfg) r" using Cons.prems(4) by (simp add: log_batch_def split: if_splits)
  then obtain q b where q: "round l = Some (l\<lparr>lg_mpsc := q, lg_cfg := ?cfg\<lparr>lc_flush_buf := b, lc_fp := lc_flush ?cfg (lc_fp ?cfg) (line r)\<rparr>,
      lg_busy := (lc_mode ?cfg = LOG_MODE_ASYNC)\<rparr>, True)" "recs_in q rs" "length b = length (lc_flush_buf ?cfg)"
    using round_one [OF Cons.prems(1,3)] by auto
  let ?l = "l\<lparr>lg_mpsc := q, lg_cfg := ?cfg\<lparr>lc_flush_buf := b, lc_fp := lc_flush ?cfg (lc_fp ?cfg) (line r)\<rparr>, lg_busy := (lc_mode ?cfg = LOG_MODE_ASYNC)\<rparr>"
  have s: "log_loop round l = log_loop round ?l" using q(1) Cons.prems(2) by (subst log_loop.simps) simp
  have h: "log_holds ?l rs" using q(2) by (simp add: log_holds_def)
  show ?case
  proof (cases "lc_mode ?cfg")
    case LOG_MODE_ASYNC
    then have "log_loop round ?l = Some ?l" by (subst log_loop.simps) simp
    then show ?thesis using s h LOG_MODE_ASYNC by (simp add: log_batch_def)
  next
    case LOG_MODE_SYNC
    then show ?thesis using Cons.IH [OF h] Cons.prems(3,4) q(3) unfolding s by (simp add: log_batch_def)
  qed
qed

lemma loop_over:
  assumes "log_holds l rs" "\<not> lg_busy l" "length (lc_flush_buf (lg_cfg l)) = unat (lc_flush_cap (lg_cfg l))" "\<forall>r \<in> set rs. snd r \<noteq> []"
    "\<exists>r \<in> set (log_batch l rs). \<not> room (lc_flush_cap (lg_cfg l)) r"
  shows "log_loop round l = None"
  using assms
proof (induction rs arbitrary: l)
  case Nil
  then show ?case by (simp add: log_batch_def split: if_splits)
next
  case (Cons r rs)
  let ?cfg = "lg_cfg l"
  show ?case
  proof (cases "room (lc_flush_cap ?cfg) r")
    case False
    then have "round l = None" using round_over [OF Cons.prems(1,3)] Cons.prems(4) by simp
    then show ?thesis using Cons.prems(2) by (subst log_loop.simps) simp
  next
    case True
    then have sync: "lc_mode ?cfg = LOG_MODE_SYNC" "\<exists>r \<in> set rs. \<not> room (lc_flush_cap ?cfg) r"
      using Cons.prems(5) by (auto simp: log_batch_def split: if_splits)
    obtain q b where q: "round l = Some (l\<lparr>lg_mpsc := q, lg_cfg := ?cfg\<lparr>lc_flush_buf := b, lc_fp := lc_flush ?cfg (lc_fp ?cfg) (line r)\<rparr>,
        lg_busy := (lc_mode ?cfg = LOG_MODE_ASYNC)\<rparr>, True)" "recs_in q rs" "length b = length (lc_flush_buf ?cfg)"
      using round_one [OF Cons.prems(1) _ True] Cons.prems(3) by auto
    let ?l = "l\<lparr>lg_mpsc := q, lg_cfg := ?cfg\<lparr>lc_flush_buf := b, lc_fp := lc_flush ?cfg (lc_fp ?cfg) (line r)\<rparr>, lg_busy := (lc_mode ?cfg = LOG_MODE_ASYNC)\<rparr>"
    have "log_loop round l = log_loop round ?l" using q(1) Cons.prems(2) by (subst log_loop.simps) simp
    moreover have "log_loop round ?l = None"
      using Cons.IH [of ?l] Cons.prems(3,4) q(2,3) sync by (simp add: log_holds_def log_batch_def)
    ultimately show ?thesis by simp
  qed
qed

end

text \<open>The line of the text flusher, and the two conditions under which a record fits the flush buffer.\<close>

definition log_line :: "log_rec \<Rightarrow> u8 list" where
  "log_line r = log_prefix (fst r) @ snd r"

definition line_fits :: "usz \<Rightarrow> log_rec \<Rightarrow> bool" where
  "line_fits cap r \<longleftrightarrow> length (log_line r) \<le> unat cap \<and> length (log_prefix (fst r)) < unat cap"

definition data_fits :: "usz \<Rightarrow> log_rec \<Rightarrow> bool" where
  "data_fits cap r \<longleftrightarrow> length (snd r) \<le> unat cap"

lemma line_fits_iff: "snd r \<noteq> [] \<Longrightarrow> line_fits cap r \<longleftrightarrow> length (log_line r) \<le> unat cap"
  by (cases "snd r") (auto simp: line_fits_def log_line_def)

lemma entry_bytes_ne: "log_entry_bytes e \<noteq> []"
  using length_entry_bytes [of e] by (metis list.size(3) zero_neq_numeral)

interpretation log_bin: log_rounds log_flush_bin_round snd data_fits
proof
  fix l :: "'a log_t" assume "log_holds l []"
  then show "\<exists>q. log_flush_bin_round l = Some (l\<lparr>lg_mpsc := q\<rparr>, False) \<and> recs_in q []"
    using recs_nil_read [of "lg_mpsc l" 24] by (auto simp: log_holds_def log_flush_bin_round_def LOG_ENTRY_SIZE_def)
next
  fix l :: "'a log_t" and r :: log_rec and rs :: "log_rec list"
  let ?cfg = "lg_cfg l"
  assume h: "log_holds l (r # rs)" and b: "unat (lc_flush_cap ?cfg) \<le> length (lc_flush_buf ?cfg)" "data_fits (lc_flush_cap ?cfg) r"
  obtain q1 q2 where q: "mpsc_read (lg_mpsc l) (of_nat 24) = Some (q1, log_entry_bytes (fst r))" "mpsc_read q1 (le_size (fst r)) = Some (q2, snd r)"
    "recs_in q2 rs" using recs_cons_read h unfolding log_holds_def by blast
  obtain b' where p: "mem_put (lc_flush_buf ?cfg) 0 (snd r) = Some b'" using b mem_put_Some [of 0 "snd r"] by (simp add: data_fits_def)
  have g: "mem_get b' 0 (length (snd r)) = Some (snd r)" by (rule mem_put_get [OF p])
  show "\<exists>q b. log_flush_bin_round l = Some (l\<lparr>lg_mpsc := q, lg_cfg := ?cfg\<lparr>lc_flush_buf := b, lc_fp := lc_flush ?cfg (lc_fp ?cfg) (snd r)\<rparr>,
          lg_busy := (lc_mode ?cfg = LOG_MODE_ASYNC)\<rparr>, True) \<and> recs_in q rs \<and> length b = length (lc_flush_buf ?cfg)"
    using q p g mem_put_length [OF p] entry_bytes_ne
    by (intro exI [of _ q2] exI [of _ b'])
      (simp add: log_flush_bin_round_def LOG_ENTRY_SIZE_def log_entry_roundtrip log_emit_def Let_def)
next
  fix l :: "'a log_t" and r :: log_rec and rs :: "log_rec list"
  assume h: "log_holds l (r # rs)" and b: "length (lc_flush_buf (lg_cfg l)) = unat (lc_flush_cap (lg_cfg l))"
    "\<not> data_fits (lc_flush_cap (lg_cfg l)) r"
  obtain q1 q2 where q: "mpsc_read (lg_mpsc l) (of_nat 24) = Some (q1, log_entry_bytes (fst r))" "mpsc_read q1 (le_size (fst r)) = Some (q2, snd r)"
    using recs_cons_read h unfolding log_holds_def by blast
  then show "log_flush_bin_round l = None" using b entry_bytes_ne
    by (simp add: log_flush_bin_round_def LOG_ENTRY_SIZE_def log_entry_roundtrip mem_put_def data_fits_def)
qed

interpretation log_txt: log_rounds log_flush_round log_line line_fits
proof
  fix l :: "'a log_t" assume "log_holds l []"
  then show "\<exists>q. log_flush_round l = Some (l\<lparr>lg_mpsc := q\<rparr>, False) \<and> recs_in q []"
    using recs_nil_read [of "lg_mpsc l" 24] by (auto simp: log_holds_def log_flush_round_def LOG_ENTRY_SIZE_def)
next
  fix l :: "'a log_t" and r :: log_rec and rs :: "log_rec list"
  let ?cfg = "lg_cfg l" and ?pre = "log_prefix (fst r)"
  assume h: "log_holds l (r # rs)" and b: "unat (lc_flush_cap ?cfg) \<le> length (lc_flush_buf ?cfg)" "line_fits (lc_flush_cap ?cfg) r"
  obtain q1 q2 where q: "mpsc_read (lg_mpsc l) (of_nat 24) = Some (q1, log_entry_bytes (fst r))" "mpsc_read q1 (le_size (fst r)) = Some (q2, snd r)"
    "recs_in q2 rs" using recs_cons_read h unfolding log_holds_def by blast
  have pre: "snprintf_out (unat (lc_flush_cap ?cfg)) ?pre = ?pre @ [0]" using b(2) by (auto simp: snprintf_out_def line_fits_def)
  have len: "length ?pre < length (lc_flush_buf ?cfg)" "length ?pre + length (snd r) \<le> length (lc_flush_buf ?cfg)"
    using b by (auto simp: line_fits_def log_line_def)
  obtain b1 where p1: "mem_put (lc_flush_buf ?cfg) 0 (?pre @ [0]) = Some b1" "b1 = ?pre @ 0 # drop (Suc (length ?pre)) (lc_flush_buf ?cfg)"
    using len by (simp add: mem_put_def)
  have l1: "length b1 = length (lc_flush_buf ?cfg)" by (rule mem_put_length [OF p1(1)])
  obtain b2 where p2: "mem_put b1 (length ?pre) (snd r) = Some b2" "b2 = (?pre @ snd r) @ drop (length ?pre + length (snd r)) b1"
    using len l1 p1(2) by (simp add: mem_put_def)
  have g: "mem_get b2 0 (length ?pre + length (snd r)) = Some (?pre @ snd r)" unfolding p2(2) by (simp add: mem_get_def)
  have l2: "length b2 = length (lc_flush_buf ?cfg)" using mem_put_length [OF p2(1)] l1 by simp
  show "\<exists>q b. log_flush_round l = Some (l\<lparr>lg_mpsc := q, lg_cfg := ?cfg\<lparr>lc_flush_buf := b, lc_fp := lc_flush ?cfg (lc_fp ?cfg) (log_line r)\<rparr>,
          lg_busy := (lc_mode ?cfg = LOG_MODE_ASYNC)\<rparr>, True) \<and> recs_in q rs \<and> length b = length (lc_flush_buf ?cfg)"
    using q p1(1) p2(1) g l2 entry_bytes_ne
    by (intro exI [of _ q2] exI [of _ b2])
      (simp add: log_flush_round_def LOG_ENTRY_SIZE_def log_entry_roundtrip log_emit_def Let_def pre log_line_def)
next
  fix l :: "'a log_t" and r :: log_rec and rs :: "log_rec list"
  let ?cfg = "lg_cfg l" and ?pre = "log_prefix (fst r)"
  assume h: "log_holds l (r # rs)" and b: "length (lc_flush_buf ?cfg) = unat (lc_flush_cap ?cfg)" "snd r \<noteq> []"
    "\<not> line_fits (lc_flush_cap ?cfg) r"
  obtain q1 q2 where q: "mpsc_read (lg_mpsc l) (of_nat 24) = Some (q1, log_entry_bytes (fst r))" "mpsc_read q1 (le_size (fst r)) = Some (q2, snd r)"
    using recs_cons_read h unfolding log_holds_def by blast
  have "length (lc_flush_buf ?cfg) < length ?pre + length (snd r)" using b line_fits_iff [of r] by (simp add: log_line_def)
  then have "mem_put c (length ?pre) (snd r) = None" if "length c = length (lc_flush_buf ?cfg)" for c
    using that by (simp add: mem_put_def)
  then show "log_flush_round l = None" using q entry_bytes_ne mem_put_length
    by (auto simp: log_flush_round_def LOG_ENTRY_SIZE_def log_entry_roundtrip Let_def split: bind_split)
qed

subsection \<open>Properties\<close>

lemma log_write_spec:
  assumes h: "log_holds l rs" and n: "length txt + 25 < 2 ^ 32" "unat i < length (mq_producers (lg_mpsc l))"
  shows "\<exists>q. log_write fails l ts i (Some txt) = Some (l\<lparr>lg_mpsc := q\<rparr>) \<and>
    recs_in q (rs @ (if log_full l (length txt + 25) then [] else [(\<lparr>le_ts = ts, le_id = i, le_size = of_nat (length txt + 1)\<rparr>, txt @ [0])])) \<and>
    length (mq_producers q) = length (mq_producers (lg_mpsc l)) \<and> mq_cap q = mq_cap (lg_mpsc l)"
proof -
  let ?e = "\<lparr>le_ts = ts, le_id = i, le_size = of_nat (length txt + 1)\<rparr> :: log_entry_t"
  have s: "word_of_int (vsn_len (Some txt)) + 1 = (of_nat (length txt + 1) :: usz)" by simp
  have u: "unat (of_nat (length txt + 1) :: usz) = length txt + 1" using n(1) by (intro unat_of_nat_usz) simp
  have w: "log_write fails l ts i (Some txt) = log_put fails l ?e (txt @ [0])"
    unfolding log_write_def s Let_def u by (simp add: snprintf_out_def)
  have ok: "rec_ok (?e, txt @ [0])" using n(1) by (simp add: rec_ok_def)
  have l: "24 + length (txt @ [0 :: u8]) = length txt + 25" by simp
  have "unat (le_id ?e) < length (mq_producers (lg_mpsc l))" using n(2) by simp
  from log_put_spec [OF h ok _ this, of fails] n(1) show ?thesis unfolding w l by simp
qed

text \<open>A logger on cleared memory with 64 bytes of ring, one producer, and the list of all lines as its file.\<close>

definition demo_log :: "log_mode_e \<Rightarrow> u8 list list log_t" where
  "demo_log m = (let cfg = \<lparr>lc_mode = m, lc_level = LOG_LEVEL_INFO, lc_fp = [], lc_buf = replicate 64 0, lc_cap = 64,
      lc_flush_buf = replicate 16 0, lc_flush_cap = 16, lc_producers = [\<lparr>pr_reserve_pos = 0, pr_flag = False\<rparr>],
      lc_flush = (\<lambda>w out. w @ [out])\<rparr> in
     log_init \<lparr>lg_cfg = cfg, lg_mpsc = \<lparr>mq_buf = [], mq_cap = 0, mq_warp_end = 0, mq_wp = 0, mq_rp = 0, mq_producers = []\<rparr>, lg_busy = False\<rparr> cfg)"

lemma demo_log_holds: "log_holds (demo_log m) []"
proof -
  have "mpsc_fresh (lg_mpsc (demo_log m))"
    by (simp add: demo_log_def log_init_def mpsc_init_def mpsc_fresh_def Let_def capn_def)
  then have "mpsc_rest (lg_mpsc (demo_log m))" using mpsc_fresh_inv by (simp add: mpsc_rest_def)
  moreover have "rpn (lg_mpsc (demo_log m)) = 0" "offn (lg_mpsc (demo_log m)) = 0"
    by (simp_all add: demo_log_def log_init_def mpsc_init_def Let_def rpn_def offn_def)
  ultimately show ?thesis by (simp add: log_holds_def recs_in_def mpsc_queue_def mpsc_lap_def pop_limit_def)
qed

text \<open>C18: A write of a text adds one record with its time, its writer and the text closed by a zero, behind the
  records that wait, or drops the text when the ring has no room for 25 bytes more than the text; it
  changes nothing else, and how often the compare-and-swap fails is without effect.\<close>

theorem log_write_adds_record:
  assumes "log_holds l rs" "length txt + 25 < 2 ^ 32" "unat i < length (mq_producers (lg_mpsc l))"
  shows "\<exists>q. log_write fails l ts i (Some txt) = Some (l\<lparr>lg_mpsc := q\<rparr>) \<and>
    recs_in q (rs @ (if log_full l (length txt + 25) then [] else [(\<lparr>le_ts = ts, le_id = i, le_size = of_nat (length txt + 1)\<rparr>, txt @ [0])]))"
  using log_write_spec [OF assms, of fails ts] by blast

theorem log_write_adds_record_witness:
  "\<exists>q. log_warn 2 (demo_log LOG_MODE_SYNC) 7 0 (Some [104, 105]) = Some ((demo_log LOG_MODE_SYNC)\<lparr>lg_mpsc := q\<rparr>) \<and>
    recs_in q [(\<lparr>le_ts = 7, le_id = 0, le_size = 3\<rparr>, [104, 105, 0])]"
proof -
  have "\<not> log_full (demo_log LOG_MODE_SYNC) 27" by code_simp
  moreover have "log_warn 2 (demo_log LOG_MODE_SYNC) 7 0 (Some [104, 105]) = log_write 2 (demo_log LOG_MODE_SYNC) 7 0 (Some [104, 105])"
    by (simp add: log_warn_def demo_log_def log_init_def Let_def less_log_level_e_def)
  moreover have "length (mq_producers (lg_mpsc (demo_log LOG_MODE_SYNC))) = 1" by code_simp
  ultimately show ?thesis using log_write_adds_record [OF demo_log_holds, of "[104, 105]" 0 LOG_MODE_SYNC 2 7] by simp
qed

text \<open>C7: What one flush of text records does, in full. A busy log hands over nothing. Otherwise, when the line of every
  record of the batch (all waiting records in synchronous mode, the first one in asynchronous mode) is no longer
  than the flush buffer, the loop ends, each of them has been handed to the callback once and in order as its
  prefix and its text, the others still wait, and the log is busy when it is asynchronous and had a
  record. When one of the lines is longer, the flush writes outside the buffer. A text is never empty: its final
  zero is part of the record.\<close>

theorem log_flush_delivers:
  assumes "log_holds l rs" "\<forall>r \<in> set rs. snd r \<noteq> []" "length (lc_flush_buf (lg_cfg l)) = unat (lc_flush_cap (lg_cfg l))"
  shows "if lg_busy l then log_flush l = Some l
    else if \<forall>r \<in> set (log_batch l rs). length (log_line r) \<le> unat (lc_flush_cap (lg_cfg l))
    then \<exists>l'. log_flush l = Some l' \<and>
      lc_fp (lg_cfg l') = foldl (lc_flush (lg_cfg l)) (lc_fp (lg_cfg l)) (map log_line (log_batch l rs)) \<and>
      log_holds l' (drop (length (log_batch l rs)) rs) \<and>
      lg_busy l' = (lc_mode (lg_cfg l) = LOG_MODE_ASYNC \<and> rs \<noteq> [])
    else log_flush l = None"
proof -
  have "set (log_batch l rs) \<subseteq> set rs" by (auto simp: log_batch_def dest: in_set_takeD)
  then have f: "line_fits (lc_flush_cap (lg_cfg l)) r \<longleftrightarrow> length (log_line r) \<le> unat (lc_flush_cap (lg_cfg l))" if "r \<in> set (log_batch l rs)" for r
    using assms(2) that by (intro line_fits_iff) blast
  have busy: "lg_busy l \<Longrightarrow> log_loop log_flush_round l = Some l" by (subst log_loop.simps) simp
  show ?thesis unfolding log_flush_def
    using busy log_txt.loop_all [OF assms(1)] log_txt.loop_over [OF assms(1) _ assms(3,2)] assms(3) f by auto
qed

theorem log_flush_delivers_witness:
  "(\<exists>l l'. log_write 0 (demo_log LOG_MODE_SYNC) 7 0 (Some [104, 105]) = Some l \<and> log_flush l = Some l' \<and>
     lc_fp (lg_cfg l') = [[91, 55, 93, 91, 48, 93, 104, 105, 0]]) \<and>
   (\<exists>l. log_write 0 (demo_log LOG_MODE_SYNC) 7 0 (Some (replicate 20 104)) = Some l \<and> log_flush l = None)"
proof
  let ?l = "demo_log LOG_MODE_SYNC" and ?r = "(\<lparr>le_ts = 7, le_id = 0, le_size = 3\<rparr> :: log_entry_t, [104, 105, 0 :: u8])"
  let ?r2 = "(\<lparr>le_ts = 7, le_id = 0, le_size = 21\<rparr> :: log_entry_t, replicate 20 104 @ [0 :: u8])"
  have room: "\<not> log_full ?l 27" "\<not> log_full ?l 45" "length (mq_producers (lg_mpsc ?l)) = 1" by code_simp+
  have f: "lc_flush_cap (lg_cfg (?l\<lparr>lg_mpsc := q\<rparr>)) = 16" "length (lc_flush_buf (lg_cfg (?l\<lparr>lg_mpsc := q\<rparr>))) = 16" "\<not> lg_busy (?l\<lparr>lg_mpsc := q\<rparr>)"
    "lc_fp (lg_cfg (?l\<lparr>lg_mpsc := q\<rparr>)) = []" "lc_flush (lg_cfg (?l\<lparr>lg_mpsc := q\<rparr>)) = (\<lambda>w out. w @ [out])"
    "lc_mode (lg_cfg (?l\<lparr>lg_mpsc := q\<rparr>)) = LOG_MODE_SYNC" for q
    by (simp_all add: demo_log_def log_init_def Let_def)
  obtain q where q: "log_write 0 ?l 7 0 (Some [104, 105]) = Some (?l\<lparr>lg_mpsc := q\<rparr>)" "recs_in q [?r]"
    using log_write_spec [OF demo_log_holds, of "[104, 105]" 0 LOG_MODE_SYNC 0 7] room by auto
  have line: "log_line ?r = [91, 55, 93, 91, 48, 93, 104, 105, 0]" by code_simp
  have "log_holds (?l\<lparr>lg_mpsc := q\<rparr>) [?r]" using q(2) by (simp add: log_holds_def)
  from log_flush_delivers [OF this] obtain l' where "log_flush (?l\<lparr>lg_mpsc := q\<rparr>) = Some l'" "lc_fp (lg_cfg l') = [log_line ?r]"
    using f line by (auto simp: log_batch_def)
  then show "\<exists>l l'. log_write 0 ?l 7 0 (Some [104, 105]) = Some l \<and> log_flush l = Some l' \<and>
     lc_fp (lg_cfg l') = [[91, 55, 93, 91, 48, 93, 104, 105, 0]]"
    using q(1) line by (intro exI [of _ "?l\<lparr>lg_mpsc := q\<rparr>"] exI [of _ l']) simp
  obtain q2 where q2: "log_write 0 ?l 7 0 (Some (replicate 20 104)) = Some (?l\<lparr>lg_mpsc := q2\<rparr>)" "recs_in q2 [?r2]"
    using log_write_spec [OF demo_log_holds, of "replicate 20 104" 0 LOG_MODE_SYNC 0 7] room by auto
  have "log_holds (?l\<lparr>lg_mpsc := q2\<rparr>) [?r2]" using q2(2) by (simp add: log_holds_def)
  moreover have "\<not> length (log_line ?r2) \<le> 16" by (simp add: log_line_def)
  ultimately have "log_flush (?l\<lparr>lg_mpsc := q2\<rparr>) = None"
    using log_flush_delivers [of "?l\<lparr>lg_mpsc := q2\<rparr>" "[?r2]"] f by (simp add: log_batch_def)
  then show "\<exists>l. log_write 0 ?l 7 0 (Some (replicate 20 104)) = Some l \<and> log_flush l = None" using q2(1) by blast
qed

text \<open>A record longer than the flush buffer makes the binary flush write outside that buffer: nothing bounds the
  copy by \<open>flush_cap\<close>.\<close>

theorem log_flush_bin_overflow:
  assumes "log_holds l ((e, d) # rs)" "\<not> lg_busy l" "length (lc_flush_buf (lg_cfg l)) < length d"
  shows "log_flush_bin l = None"
proof -
  obtain q1 q2 where q: "mpsc_read (lg_mpsc l) (of_nat 24) = Some (q1, log_entry_bytes e)" "mpsc_read q1 (le_size e) = Some (q2, d)"
    using recs_cons_read assms(1) unfolding log_holds_def by fastforce
  have "log_flush_bin_round l = None" using q assms(3) entry_bytes_ne
    by (simp add: log_flush_bin_round_def LOG_ENTRY_SIZE_def log_entry_roundtrip mem_put_def)
  then show ?thesis using assms(2) by (simp add: log_flush_bin_def log_loop.simps)
qed

theorem log_flush_bin_overflow_witness:
  "\<exists>l. log_write_bin 0 (demo_log LOG_MODE_SYNC) 7 0 (replicate 20 1) = Some l \<and> log_flush_bin l = None"
proof -
  let ?l = "demo_log LOG_MODE_SYNC" and ?d = "replicate 20 (1 :: u8)" and ?e = "\<lparr>le_ts = 7, le_id = 0, le_size = 20\<rparr> :: log_entry_t"
  have full: "\<not> log_full ?l 44" "length (mq_producers (lg_mpsc ?l)) = 1" by code_simp+
  have ok: "rec_ok (?e, ?d)" by (simp add: rec_ok_def)
  obtain q where q: "log_put 0 ?l ?e ?d = Some (?l\<lparr>lg_mpsc := q\<rparr>)" "recs_in q [(?e, ?d)]"
    using log_put_spec [OF demo_log_holds ok, of LOG_MODE_SYNC 0] full by auto
  have "log_write_bin 0 ?l 7 0 ?d = Some (?l\<lparr>lg_mpsc := q\<rparr>)" using q(1) by (simp add: log_write_bin_def)
  moreover have "log_flush_bin (?l\<lparr>lg_mpsc := q\<rparr>) = None"
    using log_flush_bin_overflow [of "?l\<lparr>lg_mpsc := q\<rparr>" ?e ?d "[]"] q(2) by (simp add: log_holds_def demo_log_def log_init_def Let_def)
  ultimately show ?thesis by blast
qed

end
