(* ===== verification/Float_Exact.thy ===== *)
theory Float_Exact
  imports Float32
begin

section \<open>Exact single precision results\<close>

text \<open>
  Which integers are single precision values, and the operations that never round: the difference of
  two numbers within a factor of two, and the remainder \<open>fmodf\<close>.
\<close>

lemma fp_mag_exact:
  assumes "0 \<le> m" "m < 2 ^ (p + 1)"
  shows "\<exists>b \<ge> 0. fp_mag p b = m * 2 ^ e"
  using assms
proof (induction e arbitrary: m)
  case 0
  show ?case
  proof (cases "m < 2 ^ p")
    case True
    then show ?thesis using 0 fp_mag_split [of m p 0] by (intro exI [of _ m]) simp
  next
    case False
    then show ?thesis using 0 fp_mag_split [of "m - 2 ^ p" p 1] by (intro exI [of _ m]) simp
  qed
next
  case (Suc k)
  show ?case
  proof (cases "m < 2 ^ p")
    case True
    then show ?thesis using Suc.IH [of "2 * m"] Suc.prems by (auto simp: mult_ac)
  next
    case False
    then show ?thesis using Suc.prems fp_mag_split [of "m - 2 ^ p" p "Suc (Suc k)"]
      by (intro exI [of _ "int (Suc (Suc k)) * 2 ^ p + (m - 2 ^ p)"]) auto
  qed
qed

lemma fp_mag_form: "0 \<le> b \<Longrightarrow> \<exists>m e. fp_mag p b = m * 2 ^ e \<and> 0 \<le> m \<and> m < 2 ^ (p + 1)"
proof -
  assume "0 \<le> b"
  then obtain e m where b: "b = int e * 2 ^ p + m" "0 \<le> m" "m < 2 ^ p" using fp_bits_cases by blast
  show ?thesis
  proof (cases "e = 0")
    case True
    then show ?thesis using b fp_mag_split [OF b(2,3), of e] by (intro exI [of _ m] exI [of _ 0]) simp
  next
    case False
    then show ?thesis using b fp_mag_split [OF b(2,3), of e] by (intro exI [of _ "2 ^ p + m"] exI [of _ "e - 1"]) simp
  qed
qed

text \<open>An integer that is a value rounds to itself.\<close>

lemma f32_exact:
  assumes "0 \<le> m" "m < 2 ^ 24" "m * 2 ^ e < 2 ^ 277"
  shows "f32_int (f32_rnd (m * 2 ^ e) 1) = m * 2 ^ e" "f32_int (f32_rnd (- (m * 2 ^ e)) 1) = - (m * 2 ^ e)"
proof -
  obtain b where b: "0 \<le> b" "fp_mag 23 b = m * 2 ^ e" using fp_mag_exact [of m 23 e] assms by auto
  have "fp_mag 23 b < fp_mag 23 F32_INF" using b assms(3) fp_mag_inf by simp
  then have "b < F32_INF" using b(1) fp_mag_less_iff [of b F32_INF 23] by (simp add: F32_INF_def)
  moreover have "fp_up 23 (m * 2 ^ e) 1 = b" using fp_up_mag1 [OF b(1), of 23] b(2) by simp
  moreover have "0 \<le> m * 2 ^ e" using assms(1) by simp
  ultimately show "f32_int (f32_rnd (m * 2 ^ e) 1) = m * 2 ^ e" "f32_int (f32_rnd (- (m * 2 ^ e)) 1) = - (m * 2 ^ e)"
    using b by (auto simp: f32_rnd_int min_def F32_INF_def)
qed

text \<open>A combination of two values that is no greater than either of them is a value.\<close>

lemma f32_comb_exact:
  assumes "is_fin x" "is_fin y" "0 \<le> d" "d \<le> f32_mag x" "d \<le> f32_mag y" "\<And>c. c dvd f32_mag x \<Longrightarrow> c dvd f32_mag y \<Longrightarrow> c dvd d"
  shows "f32_int (f32_rnd d 1) = d" "f32_int (f32_rnd (- d) 1) = - d"
proof -
  obtain mx ex my ey where f: "f32_mag x = mx * 2 ^ ex" "0 \<le> mx" "mx < 2 ^ 24" "f32_mag y = my * 2 ^ ey" "0 \<le> my" "my < 2 ^ 24"
    using fp_mag_form [OF f32_mbits_bounds(1), of 23 x] fp_mag_form [OF f32_mbits_bounds(1), of 23 y] by (auto simp: f32_mag_def)
  have lim: "d < 2 ^ 277" using assms(1,4) by (simp add: is_fin_iff fp_mag_inf)
  define e where "e = min ex ey"
  have "(2 :: int) ^ e dvd 2 ^ ex" "(2 :: int) ^ e dvd 2 ^ ey" by (simp_all add: e_def le_imp_power_dvd)
  then have "2 ^ e dvd d" using f(1,4) by (intro assms(6)) (simp_all add: dvd_mult)
  then obtain k where k: "d = k * 2 ^ e" by (auto simp: dvd_def mult.commute)
  have kp: "0 \<le> k" using assms(3) unfolding k by (simp add: zero_le_mult_iff)
  have "k * 2 ^ e \<le> (if ex \<le> ey then mx else my) * 2 ^ e" using assms(4,5) f k by (auto simp: e_def min_def)
  then have "k \<le> (if ex \<le> ey then mx else my)" by simp
  then have "k < 2 ^ 24" using f by (auto split: if_splits)
  then show "f32_int (f32_rnd d 1) = d" "f32_int (f32_rnd (- d) 1) = - d"
    using f32_exact [OF kp, of e] lim unfolding k by simp_all
qed

lemma f32_mag_int: "f32_mag x = \<bar>f32_int x\<bar>"
  using f32_mag_nonneg [of x] by (simp add: f32_int_def)

text \<open>Sterbenz: subtracting numbers within a factor of two is exact.\<close>

lemma f32_sub_exact:
  assumes "is_fin x" "is_fin y" "f32_int y \<le> 2 * f32_int x" "f32_int x \<le> 2 * f32_int y" "0 < f32_int y"
  shows "f32_int (x - y) = f32_int x - f32_int y"
proof -
  have p: "0 < f32_int x" using assms(3,5) by linarith
  let ?d = "\<bar>f32_int x - f32_int y\<bar>"
  have "\<And>c. c dvd f32_mag x \<Longrightarrow> c dvd f32_mag y \<Longrightarrow> c dvd ?d" by (simp add: f32_mag_int)
  then have "f32_int (f32_rnd ?d 1) = ?d" "f32_int (f32_rnd (- ?d) 1) = - ?d"
    using assms p by (intro f32_comb_exact [OF assms(1,2)]; simp add: f32_mag_int)+
  then have "f32_int (f32_rnd (f32_int x - f32_int y) 1) = f32_int x - f32_int y"
    by (cases "f32_int x \<le> f32_int y") simp_all
  then show ?thesis using assms(1,2) by (simp add: f32_sub_int)
qed

text \<open>A sum between 0 and the \<open>k\<close>-th power of two is rounded by at most half the unit of that power.\<close>

lemma f32_rnd_error:
  assumes "0 \<le> n" "n < 2 ^ (24 + k)" "k < 252"
  shows "2 * \<bar>f32_int (f32_rnd n 1) - n\<bar> \<le> 2 ^ k"
proof -
  have "nbits n \<le> 24 + k" using assms(2) by (rule nbits_less)
  then have s: "fp_scale 23 n 1 \<le> k" by (simp add: fp_scale_def)
  have "rne n (2 ^ fp_scale 23 n 1) \<le> 2 ^ 24"
    using fp_scale_bounds(1) [of 1 n 23] by (intro rne_le) (simp_all add: mult.commute)
  moreover have "int (fp_scale 23 n 1) * 2 ^ 23 \<le> 251 * 2 ^ 23" using s assms(3) by (intro mult_right_mono) auto
  ultimately have "fp_up 23 n 1 \<le> F32_INF" by (simp add: fp_up_def Let_def F32_INF_def)
  then have "f32_int (f32_rnd n 1) = fp_mag 23 (fp_up 23 n 1)" using assms(1) by (simp add: f32_rnd_int min_def)
  then show ?thesis using fp_up_error [OF assms(1), of 23 k] assms(2) by simp
qed

subsection \<open>\<open>fmodf\<close>\<close>

text \<open>The remainder with the sign of the first operand, as the standard defines it; it is always exact.\<close>

definition f32_fmod :: "f32 \<Rightarrow> f32 \<Rightarrow> f32" where
  "f32_fmod x y =
     (if is_nan x \<or> is_nan y \<or> is_inf x \<or> f32_mag y = 0 then F32_NAN
      else if is_inf y then x
      else f32_round (f32_sgn x) (f32_mag x mod f32_mag y) 1)"

lemma f32_fmod_nan: "is_nan (f32_fmod x y) \<longleftrightarrow> is_nan x \<or> is_nan y \<or> is_inf x \<or> f32_mag y = 0"
proof -
  have "is_nan F32_NAN" by code_simp
  moreover have "\<not> is_nan (f32_round (f32_sgn x) (f32_mag x mod f32_mag y) 1)" if "f32_mag y \<noteq> 0"
    using f32_round_parts(3) [of "f32_mag x mod f32_mag y" 1 "f32_sgn x"] that f32_mag_nonneg [of y] by simp
  ultimately show ?thesis by (auto simp: f32_fmod_def)
qed

lemma f32_fmod_int:
  assumes "is_fin x" "is_fin y" "f32_mag y \<noteq> 0"
  shows "f32_int (f32_fmod x y) = (if f32_sgn x then - (f32_mag x mod f32_mag y) else f32_mag x mod f32_mag y)" "is_fin (f32_fmod x y)"
proof -
  let ?d = "f32_mag x mod f32_mag y"
  have y: "0 < f32_mag y" using assms(3) f32_mag_nonneg [of y] by simp
  have d: "0 \<le> ?d" "?d \<le> f32_mag y" "?d \<le> f32_mag x" using y f32_mag_nonneg [of x] by (simp_all add: order_less_imp_le zmod_le_nonneg_dividend)
  have "f32_int (f32_rnd ?d 1) = ?d" "f32_int (f32_rnd (- ?d) 1) = - ?d"
    using d by (intro f32_comb_exact [OF assms(1,2)]; simp add: dvd_mod)+
  then show i: "f32_int (f32_fmod x y) = (if f32_sgn x then - ?d else ?d)"
    using assms y d(1) is_fin_imp by (simp add: f32_fmod_def f32_round_rnd)
  have "\<bar>f32_int (f32_fmod x y)\<bar> < 2 ^ 277" using i d assms(1) by (auto simp: is_fin_iff fp_mag_inf)
  moreover have "\<not> is_nan (f32_fmod x y)" using assms is_fin_imp by (simp add: f32_fmod_nan)
  ultimately show "is_fin (f32_fmod x y)" by (intro is_fin_between) auto
qed

text \<open>The remainder is congruent to its operand and nearer to zero than the modulus.\<close>

lemma f32_fmod_range:
  assumes "is_fin x" "is_fin y" "0 < f32_int y"
  shows "\<bar>f32_int (f32_fmod x y)\<bar> < f32_int y" "(f32_int (f32_fmod x y) - f32_int x) mod f32_int y = 0"
proof -
  have m: "f32_mag y = f32_int y" "f32_mag y \<noteq> 0" using assms(3) by (simp_all add: f32_mag_int)
  note i = f32_fmod_int(1) [OF assms(1,2) m(2)]
  have x: "f32_int x = (if f32_sgn x then - f32_mag x else f32_mag x)" by (simp add: f32_int_def)
  show "\<bar>f32_int (f32_fmod x y)\<bar> < f32_int y" using i assms(3) pos_mod_bound [OF assms(3), of "f32_mag x"] pos_mod_sign [OF assms(3), of "f32_mag x"]
    unfolding m(1) by (cases "f32_sgn x") simp_all
  have "f32_int (f32_fmod x y) - f32_int x = (if f32_sgn x then f32_mag x - f32_mag x mod f32_int y else f32_mag x mod f32_int y - f32_mag x)"
    using i x unfolding m(1) by simp
  then show "(f32_int (f32_fmod x y) - f32_int x) mod f32_int y = 0" by (simp add: mod_diff_eq mod_simps)
qed

end
