(* ===== verification/Mathdef.thy ===== *)
theory Mathdef
  imports Float_Exact
begin

section \<open>Macros of the control code (util/mathdef.h) and its vectors (util/typedef.h)\<close>

text \<open>
  The default build: neither \<open>FAST_MATH\<close> nor \<open>ARM_MATH\<close>. A macro that assigns to its first
  argument is a function from the old to the new value. \<open>fabsf\<close>, \<open>copysignf\<close> and \<open>fmodf\<close> are exact
  and defined; the other functions of the math library are the record \<open>libm\<close>, an argument of what
  calls them.
\<close>

record libm =
  lm_sin :: "f32 \<Rightarrow> f32"
  lm_cos :: "f32 \<Rightarrow> f32"
  lm_exp :: "f32 \<Rightarrow> f32"
  lm_sqrt :: "f32 \<Rightarrow> f32"
  lm_atan2 :: "f32 \<Rightarrow> f32 \<Rightarrow> f32"

text \<open>A library for examples: the sine 0, the cosine 1.\<close>

definition flat_libm :: libm where
  "flat_libm = \<lparr>lm_sin = \<lambda>x. 0, lm_cos = \<lambda>x. 1, lm_exp = \<lambda>x. 1, lm_sqrt = \<lambda>x. x, lm_atan2 = \<lambda>y x. 0\<rparr>"

subsection \<open>Vectors\<close>

record f32_uvw_t =
  uvw_u :: f32
  uvw_v :: f32
  uvw_w :: f32

record f32_ab_t =
  ab_a :: f32
  ab_b :: f32

record f32_dq_t =
  dq_d :: f32
  dq_q :: f32

definition uvw_map :: "(f32 \<Rightarrow> f32) \<Rightarrow> f32_uvw_t \<Rightarrow> f32_uvw_t" where
  "uvw_map f x = \<lparr>uvw_u = f (uvw_u x), uvw_v = f (uvw_v x), uvw_w = f (uvw_w x)\<rparr>"

definition UVW_ADD :: "f32_uvw_t \<Rightarrow> f32 \<Rightarrow> f32_uvw_t" where
  "UVW_ADD x y = uvw_map (\<lambda>a. a + y) x"

definition UVW_MUL :: "f32_uvw_t \<Rightarrow> f32 \<Rightarrow> f32_uvw_t" where
  "UVW_MUL x y = uvw_map (\<lambda>a. a * y) x"

definition UVW_ADD_IP :: "f32_uvw_t \<Rightarrow> f32 \<Rightarrow> f32_uvw_t" where
  "UVW_ADD_IP x y = uvw_map (\<lambda>a. a + y) x"

definition UVW_MUL_IP :: "f32_uvw_t \<Rightarrow> f32 \<Rightarrow> f32_uvw_t" where
  "UVW_MUL_IP x y = uvw_map (\<lambda>a. a * y) x"

definition AB_ADD_VEC :: "f32_ab_t \<Rightarrow> f32_ab_t \<Rightarrow> f32_ab_t" where
  "AB_ADD_VEC x y = \<lparr>ab_a = ab_a x + ab_a y, ab_b = ab_b x + ab_b y\<rparr>"

definition AB_SUB_VEC :: "f32_ab_t \<Rightarrow> f32_ab_t \<Rightarrow> f32_ab_t" where
  "AB_SUB_VEC x y = \<lparr>ab_a = ab_a x - ab_a y, ab_b = ab_b x - ab_b y\<rparr>"

definition AB_MUL_VEC :: "f32_ab_t \<Rightarrow> f32_ab_t \<Rightarrow> f32_ab_t" where
  "AB_MUL_VEC x y = \<lparr>ab_a = ab_a x * ab_a y, ab_b = ab_b x * ab_b y\<rparr>"

definition AB_DIV_VEC :: "f32_ab_t \<Rightarrow> f32_ab_t \<Rightarrow> f32_ab_t" where
  "AB_DIV_VEC x y = \<lparr>ab_a = ab_a x / ab_a y, ab_b = ab_b x / ab_b y\<rparr>"

text \<open>In place, component by component, with another vector.\<close>

definition uvw_map2 :: "(f32 \<Rightarrow> f32 \<Rightarrow> f32) \<Rightarrow> f32_uvw_t \<Rightarrow> f32_uvw_t \<Rightarrow> f32_uvw_t" where
  "uvw_map2 f x y = \<lparr>uvw_u = f (uvw_u x) (uvw_u y), uvw_v = f (uvw_v x) (uvw_v y), uvw_w = f (uvw_w x) (uvw_w y)\<rparr>"

definition UVW_ADD_VEC_IP :: "f32_uvw_t \<Rightarrow> f32_uvw_t \<Rightarrow> f32_uvw_t" where
  "UVW_ADD_VEC_IP x y = uvw_map2 (\<lambda>a b. a + b) x y"

definition UVW_SUB_VEC_IP :: "f32_uvw_t \<Rightarrow> f32_uvw_t \<Rightarrow> f32_uvw_t" where
  "UVW_SUB_VEC_IP x y = uvw_map2 (\<lambda>a b. a - b) x y"

definition UVW_MUL_VEC_IP :: "f32_uvw_t \<Rightarrow> f32_uvw_t \<Rightarrow> f32_uvw_t" where
  "UVW_MUL_VEC_IP x y = uvw_map2 (\<lambda>a b. a * b) x y"

definition UVW_DIV_VEC_IP :: "f32_uvw_t \<Rightarrow> f32_uvw_t \<Rightarrow> f32_uvw_t" where
  "UVW_DIV_VEC_IP x y = uvw_map2 (\<lambda>a b. a / b) x y"

subsection \<open>Constants\<close>

definition PI :: f32 where "PI = f32_lit 31415926 10000000"
definition TAU :: f32 where "TAU = f32_lit 62831853 10000000"
definition DIV_PI_BY_2 :: f32 where "DIV_PI_BY_2 = f32_lit 15707963 10000000"
definition SQRT_3 :: f32 where "SQRT_3 = f32_lit 17320508 10000000"
definition E :: f32 where "E = f32_lit 27182818 10000000"
definition LN2 :: f32 where "LN2 = f32_lit 6931471 10000000"
definition DIV_2_BY_3 :: f32 where "DIV_2_BY_3 = f32_lit 6666666 10000000"
definition SQRT_2 :: f32 where "SQRT_2 = f32_lit 14142135 10000000"
definition DIV_1_BY_SQRT_3 :: f32 where "DIV_1_BY_SQRT_3 = f32_lit 5773502 10000000"
definition DIV_SQRT_3_BY_2 :: f32 where "DIV_SQRT_3_BY_2 = f32_lit 8660254 10000000"
definition F_HALF :: f32 where "F_HALF = f32_lit 1 2"
definition F_TWO :: f32 where "F_TWO = f32_lit 2 1"

subsection \<open>Scalar macros\<close>

definition F_MIN :: "f32 \<Rightarrow> f32 \<Rightarrow> f32" where
  "F_MIN x y = (if x < y then x else y)"

definition F_MAX :: "f32 \<Rightarrow> f32 \<Rightarrow> f32" where
  "F_MAX x y = (if y < x then x else y)"

definition IS_EQ :: "f32 \<Rightarrow> f32 \<Rightarrow> bool" where
  "IS_EQ x y \<longleftrightarrow> \<bar>x - y\<bar> \<le> f32_lit 1 1000000 * F_MAX \<bar>x\<bar> \<bar>y\<bar> + f32_lit 1 1000000"

definition F_SGN :: "f32 \<Rightarrow> f32" where
  "F_SGN x = (if f32_eq x 0 then 0 else if 0 < x then 1 else - 1)"

definition SQ :: "f32 \<Rightarrow> f32" where
  "SQ x = x * x"

definition IS_IN_RANGE :: "f32 \<Rightarrow> f32 \<Rightarrow> f32 \<Rightarrow> bool" where
  "IS_IN_RANGE val lo hi \<longleftrightarrow> lo \<le> val \<and> val \<le> hi"

text \<open>The decimal factors are \<open>unsigned int\<close>: on a number of that type they wrap around.\<close>

definition MUL_K :: "u32 \<Rightarrow> u32" where
  "MUL_K x = x * 1000"

definition MUL_M :: "u32 \<Rightarrow> u32" where
  "MUL_M x = x * 1000000"

definition MUL_G :: "u32 \<Rightarrow> u32" where
  "MUL_G x = x * 1000000000"

definition RAD2DEG :: "f32 \<Rightarrow> f32" where
  "RAD2DEG rad = rad * f32_lit 572957795 10000000"

definition DEG2RAD :: "f32 \<Rightarrow> f32" where
  "DEG2RAD deg = deg / f32_lit 572957795 10000000"

definition MECH2ELEC :: "f32 \<Rightarrow> u32 \<Rightarrow> f32" where
  "MECH2ELEC theta npp = theta * f32_of_u32 npp"

definition ELEC2MECH :: "f32 \<Rightarrow> u32 \<Rightarrow> f32" where
  "ELEC2MECH theta npp = theta / f32_of_u32 npp"

definition CLAMP :: "f32 \<Rightarrow> f32 \<Rightarrow> f32 \<Rightarrow> f32" where
  "CLAMP ret lo hi = (if ret \<le> lo then lo else F_MIN ret hi)"

definition UVW_CLAMP :: "f32_uvw_t \<Rightarrow> f32 \<Rightarrow> f32 \<Rightarrow> f32_uvw_t" where
  "UVW_CLAMP ret lo hi = uvw_map (\<lambda>a. CLAMP a lo hi) ret"

definition WARP_PI :: "f32 \<Rightarrow> f32" where
  "WARP_PI rad = (let rad = (if TAU < \<bar>rad\<bar> then f32_fmod rad TAU else rad) in
     if PI < rad then rad - TAU else if rad < - PI then rad + TAU else rad)"

definition WARP_TAU :: "f32 \<Rightarrow> f32" where
  "WARP_TAU rad = (let rad = (if TAU < \<bar>rad\<bar> then f32_fmod rad TAU else rad) in
     if rad < 0 then rad + TAU else rad)"

definition INTEGRATOR :: "f32 \<Rightarrow> f32 \<Rightarrow> f32 \<Rightarrow> f32 \<Rightarrow> f32" where
  "INTEGRATOR ret val gain fs = ret + gain * val / fs"

text \<open>The two derivatives: the result; the caller stores the value as the previous one.\<close>

definition DERIVATIVE :: "f32 \<Rightarrow> f32 \<Rightarrow> f32 \<Rightarrow> f32 \<Rightarrow> f32" where
  "DERIVATIVE val prev_val gain fs = gain * (val - prev_val) * fs"

definition THETA_DERIVATIVE :: "f32 \<Rightarrow> f32 \<Rightarrow> f32 \<Rightarrow> f32 \<Rightarrow> f32" where
  "THETA_DERIVATIVE theta prev_theta gain fs = gain * WARP_PI (theta - prev_theta) * fs"

definition LOWPASS :: "f32 \<Rightarrow> f32 \<Rightarrow> f32 \<Rightarrow> f32 \<Rightarrow> f32" where
  "LOWPASS ret val fc fs = (let rc = 1 / (TAU * fc); alpha = 1 / (1 + rc * fs) in alpha * val + (1 - alpha) * ret)"

text \<open>\<open>None\<close> reads a coefficient behind the array.\<close>

definition poly_eval :: "f32 list \<Rightarrow> nat \<Rightarrow> f32 \<Rightarrow> f32 option" where
  "poly_eval coeffs order x = (if order < length coeffs
     then Some (foldl (\<lambda>result c. result * x + c) (coeffs ! 0) (take order (drop 1 coeffs))) else None)"

subsection \<open>The greatest element\<close>

text \<open>The scalar loop from index \<open>i\<close> on, over the rest of the array.\<close>

fun find_max_tail :: "nat \<Rightarrow> f32 list \<Rightarrow> f32 \<Rightarrow> nat \<Rightarrow> f32 \<times> nat" where
  "find_max_tail i [] tmp_max idx_max = (tmp_max, idx_max)"
| "find_max_tail i (x # xs) tmp_max idx_max =
     (if tmp_max < x then find_max_tail (Suc i) xs x i else find_max_tail (Suc i) xs tmp_max idx_max)"

text \<open>The build without vector units.\<close>

definition find_max_scalar :: "f32 list \<Rightarrow> f32 \<times> nat" where
  "find_max_scalar arr = (if arr = [] then (0, 0) else find_max_tail 1 (drop 1 arr) (arr ! 0) 0)"

text \<open>The builds with vectors of \<open>Suc l\<close> lanes (\<open>l\<close> is 3 with SSE, 7 with AVX): \<open>mx\<close> is one lane of the
  vector maximum.\<close>

function find_max_vec :: "(f32 \<Rightarrow> f32 \<Rightarrow> f32) \<Rightarrow> nat \<Rightarrow> nat \<Rightarrow> f32 list \<Rightarrow> f32 list \<Rightarrow> f32 \<Rightarrow> nat \<Rightarrow> f32 \<times> nat" where
  "find_max_vec mx l i arr max_vec tmp_max idx_max =
     (if i + l < length arr
      then let max_vec = map2 mx max_vec (take (Suc l) (drop i arr));
               (tmp_max, idx_max) = find_max_tail i max_vec tmp_max idx_max
           in find_max_vec mx l (i + Suc l) arr max_vec tmp_max idx_max
      else find_max_tail i (drop i arr) tmp_max idx_max)"
  by pat_completeness auto
termination by (relation "measure (\<lambda>(mx, l, i, arr, v, m, k). length arr - i)") auto

declare find_max_vec.simps [simp del]

definition find_max :: "(f32 \<Rightarrow> f32 \<Rightarrow> f32) \<Rightarrow> nat \<Rightarrow> f32 list \<Rightarrow> f32 \<times> nat" where
  "find_max mx l arr = (if arr = [] then (0, 0) else find_max_vec mx l 0 arr (replicate (Suc l) (arr ! 0)) (arr ! 0) 0)"

subsection \<open>The macros on numbers\<close>

lemma f32_consts [simp]:
  "is_fin PI" "is_fin TAU" "\<not> is_nan PI" "\<not> is_nan TAU" "\<not> is_inf TAU" "0 < f32_int PI" "0 < f32_int TAU" "\<not> is_nan F_HALF" "is_fin F_HALF"
  by code_simp+

lemma PI_TAU: "f32_int TAU < 2 ^ 277 - f32_int TAU" "2 * f32_int PI \<le> f32_int TAU" "f32_int PI < f32_int TAU"
  by code_simp+

text \<open>Half of \<open>TAU\<close> is the successor of \<open>PI\<close>.\<close>

definition HALF_TAU :: f32 where
  "HALF_TAU = TAU * F_HALF"

lemma half_tau: "2 * f32_int HALF_TAU = f32_int TAU" "f32_mbits HALF_TAU = f32_mbits PI + 1" "is_fin HALF_TAU" "\<not> f32_sgn PI" "\<not> f32_sgn HALF_TAU"
  by code_simp+

lemma f32_int_less_bits: "\<not> f32_sgn x \<Longrightarrow> \<not> f32_sgn y \<Longrightarrow> f32_int x < f32_int y \<longleftrightarrow> f32_mbits x < f32_mbits y"
  by (simp add: f32_int_def f32_mag_def fp_mag_less_iff f32_mbits_bounds)

lemma above_PI:
  assumes "\<not> is_nan x" "f32_int PI < f32_int x"
  shows "f32_int TAU \<le> 2 * f32_int x"
proof -
  have "0 < f32_int x" using assms(2) f32_consts(6) by linarith
  then have s: "\<not> f32_sgn x" using f32_mag_nonneg [of x] by (auto simp: f32_int_def)
  then have "f32_mbits PI < f32_mbits x" using assms(2) f32_int_less_bits [OF half_tau(4)] by simp
  then have "f32_mbits HALF_TAU \<le> f32_mbits x" using half_tau(2) by simp
  then have "f32_int HALF_TAU \<le> f32_int x" using f32_int_less_bits [OF s half_tau(5)] by (simp add: linorder_not_less [symmetric])
  then show ?thesis using half_tau(1) by linarith
qed

lemma CLAMP_range:
  assumes "lo \<le> hi"
  shows "lo \<le> CLAMP x lo hi" "CLAMP x lo hi \<le> hi"
proof -
  have n: "\<not> is_nan lo" "\<not> is_nan hi" using assms by (auto simp: less_eq_f32_def)
  show "lo \<le> CLAMP x lo hi" "CLAMP x lo hi \<le> hi"
    using assms n f32_le_refl [OF n(1)] f32_le_refl [OF n(2)]
    by (auto simp: CLAMP_def F_MIN_def less_eq_f32_def less_f32_def)
qed

lemma CLAMP_id: "lo < x \<Longrightarrow> x < hi \<Longrightarrow> CLAMP x lo hi = x"
  by (auto simp: CLAMP_def F_MIN_def less_eq_f32_def less_f32_def)

text \<open>The first step of both wraps, on a number.\<close>

lemma warp_mod:
  assumes "is_fin r"
  defines "w \<equiv> (if TAU < \<bar>r\<bar> then f32_fmod r TAU else r)"
  shows "is_fin w" "\<bar>f32_int w\<bar> \<le> f32_int TAU" "(f32_int w - f32_int r) mod f32_int TAU = 0"
proof -
  have n: "\<not> is_nan r" using assms(1) is_fin_imp by simp
  have m: "f32_mag TAU \<noteq> 0" using f32_consts(7) by (simp add: f32_mag_int del: f32_consts)
  show "is_fin w" unfolding w_def using f32_fmod_int(2) [OF assms(1) f32_consts(2) m] assms(1) by simp
  have c: "TAU < \<bar>r\<bar> \<longleftrightarrow> f32_int TAU < \<bar>f32_int r\<bar>" using n by (simp add: less_f32_def)
  show "\<bar>f32_int w\<bar> \<le> f32_int TAU" "(f32_int w - f32_int r) mod f32_int TAU = 0"
    unfolding w_def using f32_fmod_range [OF assms(1) f32_consts(2,7)] c by auto
qed

lemma WARP_PI_spec:
  assumes "is_fin r"
  shows "is_fin (WARP_PI r)" "2 * \<bar>f32_int (WARP_PI r)\<bar> \<le> f32_int TAU" "(f32_int (WARP_PI r) - f32_int r) mod f32_int TAU = 0"
proof -
  define w where "w = (if TAU < \<bar>r\<bar> then f32_fmod r TAU else r)"
  note m = warp_mod [OF assms, folded w_def]
  have n: "\<not> is_nan w" using m(1) is_fin_imp by simp
  let ?T = "f32_int TAU" and ?v = "WARP_PI r"
  have v: "?v = (if PI < w then w - TAU else if w < - PI then w + TAU else w)" by (simp add: WARP_PI_def w_def Let_def)
  have cmp: "PI < w \<longleftrightarrow> f32_int PI < f32_int w" "w < - PI \<longleftrightarrow> f32_int w < - f32_int PI" using n by (auto simp: less_f32_def)
  have "is_fin ?v \<and> 2 * \<bar>f32_int ?v\<bar> \<le> ?T \<and> (f32_int ?v = f32_int w \<or> f32_int ?v = f32_int w - ?T \<or> f32_int ?v = f32_int w + ?T)"
  proof -
    consider (hi) "f32_int PI < f32_int w" | (lo) "f32_int w < - f32_int PI" | (mid) "\<bar>f32_int w\<bar> \<le> f32_int PI" by linarith
    then show ?thesis
    proof cases
      case hi
      then have a: "?T \<le> 2 * f32_int w" using above_PI [OF n] by simp
      have e: "f32_int (w - TAU) = f32_int w - ?T"
        using a m(2) hi f32_consts(6,7) by (intro f32_sub_exact [OF m(1) f32_consts(2)]) linarith+
      have nn: "\<not> is_nan (w - TAU)" by (rule f32_sub_int(2) [OF m(1) f32_consts(2)])
      have b: "2 * \<bar>f32_int (w - TAU)\<bar> \<le> ?T" using e a m(2) by linarith
      then have "is_fin (w - TAU)" using PI_TAU(1) f32_consts(7) by (intro is_fin_between [OF nn]) linarith+
      then show ?thesis using hi cmp v b e by simp
    next
      case lo
      have n': "\<not> is_nan (- w)" using n by simp
      have a: "?T \<le> - 2 * f32_int w" using above_PI [OF n'] lo by simp
      have fw: "is_fin (- w)" using m(1) by simp
      have e: "f32_int (- w - TAU) = - f32_int w - ?T"
        using a m(2) lo f32_consts(6,7) f32_sub_exact [OF fw f32_consts(2)] by simp
      have i: "f32_int (w + TAU) = f32_int (f32_rnd (f32_int w + ?T) 1)" by (rule f32_add_int(1) [OF m(1) f32_consts(2)])
      have "- (f32_int w + ?T) = f32_int (- w) - ?T" by simp
      then have "f32_int (- w - TAU) = f32_int (f32_rnd (- (f32_int w + ?T)) 1)" using f32_sub_int(1) [OF fw f32_consts(2)] by (simp only:)
      then have r: "f32_int (f32_rnd (- (f32_int w + ?T)) 1) = - (f32_int w + ?T)" using e by simp
      have e2: "f32_int (w + TAU) = f32_int w + ?T"
      proof (cases "f32_int w + ?T = 0")
        case True
        then show ?thesis unfolding i by (simp add: f32_rnd_int F32_INF_def)
      next
        case False
        then show ?thesis using r unfolding i by (auto simp: f32_rnd_int add.commute split: if_splits)
      qed
      have nn: "\<not> is_nan (w + TAU)" by (rule f32_add_int(2) [OF m(1) f32_consts(2)])
      have b: "2 * \<bar>f32_int (w + TAU)\<bar> \<le> ?T" using e2 a m(2) by linarith
      then have "is_fin (w + TAU)" using PI_TAU(1) f32_consts(7) by (intro is_fin_between [OF nn]) linarith+
      moreover have "\<not> f32_int PI < f32_int w" using lo f32_consts(6) by linarith
      ultimately show ?thesis using lo cmp v b e2 by simp
    next
      case mid
      then have "?v = w" using v cmp by auto
      then show ?thesis using mid m(1) PI_TAU(2) by auto
    qed
  qed
  then show "is_fin ?v" "2 * \<bar>f32_int ?v\<bar> \<le> ?T" "(f32_int ?v - f32_int r) mod ?T = 0"
    using m(3) mod_add_self2 [of "f32_int w - f32_int r" ?T] mod_add_self2 [of "f32_int w - ?T - f32_int r" ?T] by (auto simp: algebra_simps)
qed

lemma WARP_TAU_spec:
  assumes "is_fin r"
  shows "is_fin (WARP_TAU r)" "0 \<le> WARP_TAU r" "WARP_TAU r \<le> TAU"
proof -
  define w where "w = (if TAU < \<bar>r\<bar> then f32_fmod r TAU else r)"
  note m = warp_mod [OF assms, folded w_def]
  have n: "\<not> is_nan w" using m(1) is_fin_imp by simp
  have v: "WARP_TAU r = (if w < 0 then w + TAU else w)" by (simp add: WARP_TAU_def w_def Let_def)
  have cmp: "w < 0 \<longleftrightarrow> f32_int w < 0" using n by (simp add: less_f32_def)
  have "0 \<le> WARP_TAU r \<and> WARP_TAU r \<le> TAU"
  proof (cases "f32_int w < 0")
    case True
    then show ?thesis using f32_add_bounds [OF m(1) f32_consts(2), of 0] f32_add_bounds [OF m(1) f32_consts(2), of TAU] m(2) v cmp
      by simp
  next
    case False
    then show ?thesis using n m(2) v cmp by (simp add: less_eq_f32_def)
  qed
  then show "0 \<le> WARP_TAU r" "WARP_TAU r \<le> TAU" by simp_all
  then show "is_fin (WARP_TAU r)" using PI_TAU(1) f32_consts(7) by (intro is_fin_between) (auto simp: less_eq_f32_def)
qed

text \<open>No multiple of the turn is lost: a non-negative angle is wrapped exactly, a negative one with the one
  rounding of the final addition.\<close>

lemma WARP_TAU_exact:
  assumes "is_fin r" "0 \<le> f32_int r"
  shows "(f32_int (WARP_TAU r) - f32_int r) mod f32_int TAU = 0"
proof -
  define w where "w = (if TAU < \<bar>r\<bar> then f32_fmod r TAU else r)"
  note m = warp_mod [OF assms(1), folded w_def]
  have n: "\<not> is_nan w" using m(1) is_fin_imp by simp
  have k: "f32_mag TAU \<noteq> 0" using f32_consts(7) by (simp add: f32_mag_int del: f32_consts)
  have "0 \<le> f32_int (f32_fmod r TAU)"
  proof (cases "f32_sgn r")
    case True
    then have "f32_mag r = 0" using assms(2) f32_mag_nonneg [of r] by (simp add: f32_int_def)
    then show ?thesis using f32_fmod_int(1) [OF assms(1) f32_consts(2) k] by simp
  next
    case False
    then show ?thesis using f32_fmod_int(1) [OF assms(1) f32_consts(2) k] f32_mag_nonneg [of TAU] k by simp
  qed
  then have "\<not> w < 0" using n assms(2) by (auto simp: w_def less_f32_def)
  then have "WARP_TAU r = w" by (simp add: WARP_TAU_def w_def Let_def)
  then show ?thesis using m(3) by simp
qed

lemma TAU_size: "f32_int TAU < 2 ^ 152"
  by code_simp

lemma WARP_TAU_error:
  assumes "is_fin r"
  shows "\<exists>k. \<bar>f32_int (WARP_TAU r) - (f32_int r + k * f32_int TAU)\<bar> \<le> 2 ^ 127"
proof -
  define w where "w = (if TAU < \<bar>r\<bar> then f32_fmod r TAU else r)"
  note m = warp_mod [OF assms, folded w_def]
  have n: "\<not> is_nan w" using m(1) is_fin_imp by simp
  let ?T = "f32_int TAU"
  obtain j where "f32_int w - f32_int r = j * ?T" using m(3) by (metis dvd_def mult.commute mod_0_imp_dvd)
  then have j: "f32_int w = f32_int r + j * ?T" by simp
  show ?thesis
  proof (cases "w < 0")
    case False
    then have "WARP_TAU r = w" by (simp add: WARP_TAU_def w_def Let_def)
    then show ?thesis using j by (intro exI [of _ j]) simp
  next
    case True
    then have v: "WARP_TAU r = w + TAU" and neg: "f32_int w < 0" using n by (simp_all add: WARP_TAU_def w_def Let_def less_f32_def)
    have "0 \<le> f32_int w + ?T" "f32_int w + ?T < 2 ^ (24 + 128)" using m(2) neg TAU_size by simp_all
    from f32_rnd_error [OF this] have "\<bar>f32_int (WARP_TAU r) - (f32_int w + ?T)\<bar> \<le> 2 ^ 127"
      unfolding v f32_add_int(1) [OF m(1) f32_consts(2)] by simp
    then show ?thesis unfolding j by (intro exI [of _ "j + 1"]) (simp add: algebra_simps)
  qed
qed

lemma WARP_PI_end:
  assumes "is_fin r"
  shows "- PI \<le> WARP_PI r \<and> WARP_PI r \<le> PI \<or> WARP_PI r = HALF_TAU \<or> WARP_PI r = - HALF_TAU"
proof -
  let ?v = "WARP_PI r"
  note s = WARP_PI_spec [OF assms]
  have n: "\<not> is_nan ?v" "\<not> is_nan (- ?v)" using s(1) is_fin_imp by simp_all
  have h0: "f32_int HALF_TAU \<noteq> 0" using half_tau(1) f32_consts(7) by linarith
  consider (in_range) "\<bar>f32_int ?v\<bar> \<le> f32_int PI" | (above) "f32_int PI < f32_int ?v" | (below) "f32_int PI < f32_int (- ?v)"
    using n(1) by force
  then show ?thesis
  proof cases
    case in_range
    then have "- f32_int PI \<le> f32_int ?v" "f32_int ?v \<le> f32_int PI" by linarith+
    then show ?thesis using n(1) by (simp add: less_eq_f32_def)
  next
    case above
    then have "f32_int ?v = f32_int HALF_TAU" using above_PI [OF n(1)] s(2) half_tau(1) by linarith
    then show ?thesis using f32_int_eqD h0 by metis
  next
    case below
    then have e: "f32_int (- ?v) = f32_int HALF_TAU" using above_PI [OF n(2) below] s(2) half_tau(1) by simp
    then have "f32_int ?v = f32_int (- HALF_TAU)" by simp
    then show ?thesis using f32_int_eqD [of ?v "- HALF_TAU"] h0 e by simp
  qed
qed

lemma warp_mod_nan: "\<not> is_fin r \<Longrightarrow> is_nan (if TAU < \<bar>r\<bar> then f32_fmod r TAU else r)"
proof (cases "is_nan r")
  case True
  then show ?thesis by (simp add: less_f32_def)
next
  case F: False
  assume nf: "\<not> is_fin r"
  then have i: "is_inf r" using F f32_kinds(1) by blast
  then have "f32_int TAU < \<bar>f32_int r\<bar>"
    using f32_inf_int [OF F] nf PI_TAU(1) f32_consts(7) by (simp add: fp_mag_inf)
  then have "TAU < \<bar>r\<bar>" using F by (simp add: less_f32_def)
  then show ?thesis using i by (simp add: f32_fmod_nan)
qed

lemma WARP_TAU_nan: "is_nan (WARP_TAU r) \<longleftrightarrow> \<not> is_fin r"
  using WARP_TAU_spec(1) [of r] is_fin_imp [of "WARP_TAU r"] warp_mod_nan [of r] by (auto simp: WARP_TAU_def Let_def less_f32_def)

lemma WARP_PI_nan: "is_nan (WARP_PI r) \<longleftrightarrow> \<not> is_fin r"
  using WARP_PI_spec(1) [of r] is_fin_imp [of "WARP_PI r"] warp_mod_nan [of r] by (auto simp: WARP_PI_def Let_def less_f32_def)

text \<open>An angle as the code publishes it: NaN or between 0 and \<open>TAU\<close>.\<close>

definition angle_ok :: "f32 \<Rightarrow> bool" where
  "angle_ok x \<longleftrightarrow> is_nan x \<or> (0 \<le> x \<and> x \<le> TAU)"

lemma WARP_TAU_angle [simp]: "angle_ok (WARP_TAU r)"
  using WARP_TAU_spec [of r] WARP_TAU_nan [of r] by (auto simp: angle_ok_def)

text \<open>An angle difference: NaN or between minus and plus half of \<open>TAU\<close>.\<close>

definition angle_diff_ok :: "f32 \<Rightarrow> bool" where
  "angle_diff_ok x \<longleftrightarrow> is_nan x \<or> (- HALF_TAU \<le> x \<and> x \<le> HALF_TAU)"

lemma WARP_PI_diff [simp]: "angle_diff_ok (WARP_PI r)"
proof (cases "is_fin r")
  case True
  then have "\<not> is_nan (WARP_PI r)" using WARP_PI_nan [of r] by simp
  moreover have "- f32_int HALF_TAU \<le> f32_int (WARP_PI r)" "f32_int (WARP_PI r) \<le> f32_int HALF_TAU"
    using WARP_PI_spec(2) [OF True] half_tau(1) by linarith+
  moreover have "\<not> is_nan HALF_TAU" using half_tau(3) is_fin_imp by blast
  ultimately show ?thesis by (simp add: angle_diff_ok_def less_eq_f32_def)
qed (simp add: angle_diff_ok_def WARP_PI_nan)

subsection \<open>Vectors and the scalar loop find the same element\<close>

lemma find_max_tail_append:
  "find_max_tail i (xs @ ys) m k = (case find_max_tail i xs m k of (m', k') \<Rightarrow> find_max_tail (i + length xs) ys m' k')"
  by (induction xs arbitrary: i m k) auto

text \<open>The running maximum is no NaN and bounds what has been seen.\<close>

lemma find_max_tail_bounds:
  assumes "\<not> is_nan m" "\<forall>x \<in> set xs. \<not> is_nan x"
  shows "m \<le> fst (find_max_tail i xs m k)" "\<forall>x \<in> set xs. x \<le> fst (find_max_tail i xs m k)" "\<not> is_nan (fst (find_max_tail i xs m k))"
proof -
  have "m \<le> fst (find_max_tail i xs m k) \<and> (\<forall>x \<in> set xs. x \<le> fst (find_max_tail i xs m k))"
    using assms
  proof (induction xs arbitrary: i m k)
    case Nil
    then show ?case by (simp add: f32_le_refl)
  next
    case (Cons x xs)
    have n: "\<not> is_nan x" "\<not> is_nan m" "\<forall>y \<in> set xs. \<not> is_nan y" using Cons.prems by auto
    show ?case
    proof (cases "m < x")
      case True
      then show ?thesis using Cons.IH [OF n(1,3), of "Suc i" i] f32_le_trans [OF f32_less_le [OF True]] by auto
    next
      case False
      then have "x \<le> m" using f32_not_less [OF n(2,1)] by simp
      then show ?thesis using Cons.IH [OF n(2,3), of "Suc i" k] f32_le_trans [of x m] False by auto
    qed
  qed
  then show "m \<le> fst (find_max_tail i xs m k)" "\<forall>x \<in> set xs. x \<le> fst (find_max_tail i xs m k)" "\<not> is_nan (fst (find_max_tail i xs m k))"
    by (auto simp: less_eq_f32_def)
qed

definition lane_max :: "(f32 \<Rightarrow> f32 \<Rightarrow> f32) \<Rightarrow> bool" where
  "lane_max mx \<longleftrightarrow> (\<forall>a b. \<not> is_nan a \<longrightarrow> \<not> is_nan b \<longrightarrow> mx a b = (if b < a then a else b))"

lemma find_max_lanes:
  assumes mx: "lane_max mx" and n: "\<forall>x \<in> set xs. \<not> is_nan x" "\<not> is_nan m" and v: "length v = length xs" "\<forall>a \<in> set v. a \<le> m"
  shows "find_max_tail i (map2 mx v xs) m k = find_max_tail i xs m k"
  using n v
proof (induction xs arbitrary: v i m k)
  case (Cons x xs)
  obtain a v' where c: "v = a # v'" using Cons.prems(3) by (cases v) auto
  have a: "a \<le> m" "\<not> is_nan a" "\<not> is_nan x" using Cons.prems c by (auto simp: less_eq_f32_def)
  have mx1: "mx a x = (if x < a then a else x)" using mx a by (simp add: lane_max_def)
  have p: "\<forall>y \<in> set xs. \<not> is_nan y" "length v' = length xs" "\<forall>b \<in> set v'. b \<le> m" using Cons.prems c by auto
  show ?case
  proof (cases "m < x")
    case True
    then have "\<not> x < a" using a(1) by (auto simp: less_f32_def less_eq_f32_def)
    moreover have "\<forall>b \<in> set v'. b \<le> x" using p(3) f32_le_trans f32_less_le [OF True] by blast
    ultimately show ?thesis using True Cons.IH [OF p(1) a(3) p(2)] mx1 c by simp
  next
    case False
    then have "\<not> m < mx a x" using mx1 a(1) by (auto simp: less_f32_def less_eq_f32_def)
    then show ?thesis using False Cons.IH [OF p(1) Cons.prems(2) p(2,3)] c by simp
  qed
qed simp

lemma map2_nan:
  assumes "lane_max mx" "\<forall>x \<in> set xs. \<not> is_nan x \<and> x \<le> m" "\<forall>a \<in> set v. \<not> is_nan a \<and> a \<le> m"
  shows "\<forall>a \<in> set (map2 mx v xs). \<not> is_nan a \<and> a \<le> m"
proof
  fix c assume "c \<in> set (map2 mx v xs)"
  then obtain a b where c: "(a, b) \<in> set (zip v xs)" "c = mx a b" by auto
  then have "a \<in> set v" "b \<in> set xs" by (auto dest: set_zip_leftD set_zip_rightD)
  then have ab: "\<not> is_nan a" "a \<le> m" "\<not> is_nan b" "b \<le> m" using assms by auto
  then have "c = (if b < a then a else b)" using assms(1) c(2) by (simp add: lane_max_def)
  then show "\<not> is_nan c \<and> c \<le> m" using ab by simp
qed

lemma find_max_vec_eq:
  assumes "lane_max mx" "\<forall>x \<in> set arr. \<not> is_nan x" "\<not> is_nan m" "length v = Suc l" "\<forall>a \<in> set v. \<not> is_nan a \<and> a \<le> m"
  shows "find_max_vec mx l i arr v m k = find_max_tail i (drop i arr) m k"
  using assms
proof (induction mx l i arr v m k rule: find_max_vec.induct)
  case (1 mx l i arr v m k)
  let ?xs = "take (Suc l) (drop i arr)" and ?v = "map2 mx v (take (Suc l) (drop i arr))"
  have nx: "\<forall>x \<in> set ?xs. \<not> is_nan x" using 1(3) by (auto dest: in_set_takeD in_set_dropD)
  show ?case
  proof (cases "i + l < length arr")
    case False
    then show ?thesis by (simp add: find_max_vec.simps)
  next
    case True
    then have len: "length ?xs = Suc l" by simp
    have e: "find_max_tail i ?v m k = find_max_tail i ?xs m k"
      by (rule find_max_lanes [OF 1(2) nx 1(4)]) (use len 1(5,6) in auto)
    obtain m' k' where r: "find_max_tail i ?xs m k = (m', k')" by fastforce
    have b: "m \<le> m'" "\<forall>x \<in> set ?xs. x \<le> m'" "\<not> is_nan m'" using find_max_tail_bounds [OF 1(4) nx, of i k] r by simp_all
    have v': "\<forall>a \<in> set ?v. \<not> is_nan a \<and> a \<le> m'" using 1(6) b(1,2) nx f32_le_trans by (intro map2_nan [OF 1(2)]) blast+
    have "find_max_vec mx l i arr v m k = find_max_vec mx l (i + Suc l) arr ?v m' k'"
      using True e r by (simp add: find_max_vec.simps [of mx l i] Let_def)
    also have "\<dots> = find_max_tail (i + Suc l) (drop (i + Suc l) arr) m' k'"
      using len 1(5) by (intro 1(1) [OF True refl _ refl 1(2,3) b(3) _ v']) (simp_all add: e r)
    also have "\<dots> = find_max_tail i (?xs @ drop (Suc l) (drop i arr)) m k"
      unfolding find_max_tail_append r len by (simp add: add.commute)
    finally show ?thesis by (simp only: append_take_drop_id)
  qed
qed

subsection \<open>Properties\<close>

text \<open>C20: Wrapping an angle. From every finite angle \<open>WARP_PI\<close> subtracts whole turns without rounding and ends
  in \<open>[-PI, PI]\<close>, or at plus or minus half of \<open>TAU\<close>, one step outside it, because \<open>PI\<close> is the number
  before half of \<open>TAU\<close>; it takes each of these two halves to the other. \<open>WARP_TAU\<close> ends between 0 and
  \<open>TAU\<close>, both included and both reached: exactly, on a non-negative angle, and otherwise after one rounding
  that moves the angle by at most 2 to the power of -22, so that a small negative angle becomes \<open>TAU\<close>. Both
  give NaN on an infinity and on NaN. (The integers of \<open>f32_int\<close> count units of 2 to the power of -149.)\<close>

theorem warp_ranges:
  "(is_fin r \<longrightarrow>
      (- PI \<le> WARP_PI r \<and> WARP_PI r \<le> PI \<or> WARP_PI r = HALF_TAU \<or> WARP_PI r = - HALF_TAU) \<and>
      (f32_int (WARP_PI r) - f32_int r) mod f32_int TAU = 0 \<and>
      0 \<le> WARP_TAU r \<and> WARP_TAU r \<le> TAU \<and>
      (0 \<le> f32_int r \<longrightarrow> (f32_int (WARP_TAU r) - f32_int r) mod f32_int TAU = 0) \<and>
      (\<exists>k. \<bar>f32_int (WARP_TAU r) - (f32_int r + k * f32_int TAU)\<bar> \<le> 2 ^ 127)) \<and>
   (\<not> is_fin r \<longrightarrow> is_nan (WARP_PI r) \<and> is_nan (WARP_TAU r)) \<and>
   2 * f32_int HALF_TAU = f32_int TAU \<and> PI < HALF_TAU \<and> WARP_PI HALF_TAU = - HALF_TAU \<and> WARP_PI (- HALF_TAU) = HALF_TAU \<and>
   WARP_TAU 0 = 0 \<and> WARP_TAU TAU = TAU \<and> WARP_TAU (f32_lit (- 1) 1000000000) = TAU"
proof -
  have e: "PI < HALF_TAU" "WARP_PI HALF_TAU = - HALF_TAU" "WARP_PI (- HALF_TAU) = HALF_TAU"
    "WARP_TAU 0 = 0" "WARP_TAU TAU = TAU" "WARP_TAU (f32_lit (- 1) 1000000000) = TAU" by code_simp+
  show ?thesis
    using WARP_PI_end [of r] WARP_PI_spec(3) [of r] WARP_TAU_spec(2,3) [of r] WARP_TAU_exact [of r] WARP_TAU_error [of r]
      WARP_TAU_nan [of r] WARP_PI_nan [of r] half_tau(1) e by blast
qed

theorem warp_ranges_witness:
  "0 \<le> WARP_TAU (f32_of_int (- 100)) \<and> WARP_TAU (f32_of_int (- 100)) \<le> TAU \<and>
   (f32_int (WARP_TAU (f32_of_int 100)) - f32_int (f32_of_int 100)) mod f32_int TAU = 0 \<and>
   is_nan (WARP_TAU (F32 0x7F800000)) \<and> is_nan (WARP_PI (F32 0x7F800000))"
proof -
  have "is_fin (f32_of_int (- 100))" "is_fin (f32_of_int 100)" "0 \<le> f32_int (f32_of_int 100)" "\<not> is_fin (F32 0x7F800000)" by code_simp+
  then show ?thesis using warp_ranges [of "f32_of_int (- 100)"] warp_ranges [of "f32_of_int 100"] warp_ranges [of "F32 0x7F800000"] by blast
qed

text \<open>On an array without NaN the vector builds of \<open>find_max\<close>, with any number of lanes, return the same value
  and the same index as the scalar build: the first greatest element, not less than any other. The one
  thing asked of the vector unit is that a lane of its maximum is the greater operand.\<close>

theorem find_max_vector_agrees:
  assumes "lane_max mx" "\<forall>x \<in> set arr. \<not> is_nan x"
  shows "find_max mx l arr = find_max_scalar arr \<and> (arr \<noteq> [] \<longrightarrow> (\<forall>x \<in> set arr. x \<le> fst (find_max mx l arr)))"
proof (cases arr)
  case Nil
  then show ?thesis by (simp add: find_max_def find_max_scalar_def)
next
  case (Cons x xs)
  have n: "\<not> is_nan x" "\<forall>y \<in> set xs. \<not> is_nan y" using assms(2) Cons by auto
  have "find_max mx l arr = find_max_vec mx l 0 (x # xs) (replicate (Suc l) x) x 0" using Cons by (simp add: find_max_def)
  also have "\<dots> = find_max_tail 0 (drop 0 (x # xs)) x 0"
    using n assms(1) f32_le_refl [OF n(1)] by (intro find_max_vec_eq) auto
  also have "\<dots> = find_max_tail 1 xs x 0" by (simp add: less_f32_def)
  finally have e: "find_max mx l arr = find_max_tail 1 xs x 0" .
  then show ?thesis using find_max_tail_bounds [OF n, of 1 0] Cons by (auto simp: find_max_scalar_def)
qed

theorem find_max_vector_agrees_witness:
  "find_max (\<lambda>a b. if b < a then a else b) 3 (map f32_of_int [1, 5, 2, 5, 3, 4]) = (f32_of_int 5, 1)"
proof -
  let ?arr = "map f32_of_int [1, 5, 2, 5, 3, 4]"
  have "\<forall>x \<in> set ?arr. \<not> is_nan x" by code_simp
  moreover have "find_max_scalar ?arr = (f32_of_int 5, 1)" by code_simp
  ultimately show ?thesis using find_max_vector_agrees [of "\<lambda>a b. if b < a then a else b" ?arr 3] by (simp add: lane_max_def)
qed

end
