(* ===== verification/Rls.thy ===== *)
theory Rls
  imports Mathdef
begin

section \<open>Recursive least squares (filter/rls.h)\<close>

text \<open>
  The arrays have room for eight taps and the loops run to the configured order. An access outside an
  array is \<open>None\<close>. The index of the first loop is a 32-bit word: it starts at \<open>order - 1\<close>.
\<close>

definition MAX_ORDER :: nat where
  "MAX_ORDER = 8"

record rls_cfg_t =
  rc_order :: u32
  rc_lambda :: f32
  rc_delta :: f32

record rls_in_t =
  ri_x :: f32
  ri_ref :: f32

record rls_lo_t =
  rl_err :: f32
  rl_denom :: f32
  rl_w :: "f32 list"
  rl_x :: "f32 list"
  rl_p :: "f32 list list"
  rl_px :: "f32 list"
  rl_k :: "f32 list"
  rl_temp :: "f32 list list"
  rl_xtp :: "f32 list"

record rls_filter_t =
  rls_cfg :: rls_cfg_t
  rls_in :: rls_in_t
  rls_y_hat :: f32
  rls_lo :: rls_lo_t

definition rls_init :: "rls_filter_t \<Rightarrow> rls_cfg_t \<Rightarrow> rls_filter_t" where
  "rls_init rls cfg = rls\<lparr>rls_cfg := cfg\<rparr>"

subsection \<open>Arrays and loops\<close>

definition aget :: "'a list \<Rightarrow> nat \<Rightarrow> 'a option" where
  "aget xs i = (if i < length xs then Some (xs ! i) else None)"

definition aset :: "'a list \<Rightarrow> nat \<Rightarrow> 'a \<Rightarrow> 'a list option" where
  "aset xs i v = (if i < length xs then Some (xs[i := v]) else None)"

definition aget2 :: "'a list list \<Rightarrow> nat \<Rightarrow> nat \<Rightarrow> 'a option" where
  "aget2 m i j = do { r \<leftarrow> aget m i; aget r j }"

definition aset2 :: "'a list list \<Rightarrow> nat \<Rightarrow> nat \<Rightarrow> 'a \<Rightarrow> 'a list list option" where
  "aset2 m i j v = do { r \<leftarrow> aget m i; r \<leftarrow> aset r j v; aset m i r }"

fun for_each :: "'i list \<Rightarrow> ('i \<Rightarrow> 's \<Rightarrow> 's option) \<Rightarrow> 's \<Rightarrow> 's option" where
  "for_each [] f s = Some s"
| "for_each (i # is) f s = do { s \<leftarrow> f i s; for_each is f s }"

lemma for_each_inv:
  assumes "P s" "\<And>i s. i \<in> set is \<Longrightarrow> P s \<Longrightarrow> \<exists>s'. f i s = Some s' \<and> P s'"
  shows "\<exists>s'. for_each is f s = Some s' \<and> P s'"
  using assms
proof (induction "is" arbitrary: s)
  case (Cons i "is")
  obtain s' where s': "f i s = Some s'" "P s'" using Cons.prems(2) [of i s] Cons.prems(1) by auto
  then show ?case using Cons.IH [of s'] Cons.prems(2) by simp
qed simp

text \<open>The shift of the inputs: from \<open>i\<close> down to 1.\<close>

fun rls_shift :: "nat \<Rightarrow> f32 list \<Rightarrow> f32 list option" where
  "rls_shift 0 x = Some x"
| "rls_shift (Suc i) x = do { v \<leftarrow> aget x i; x \<leftarrow> aset x (Suc i) v; rls_shift i x }"

subsection \<open>One sample\<close>

definition rls_predict :: "nat \<Rightarrow> rls_filter_t \<Rightarrow> rls_filter_t option" where
  "rls_predict n rls = do {
     let lo = rls_lo rls;
     y_hat \<leftarrow> for_each [0..<n] (\<lambda>i y. do { w \<leftarrow> aget (rl_w lo) i; x \<leftarrow> aget (rl_x lo) i; Some (y + w * x) }) (rls_y_hat rls);
     Some (rls\<lparr>rls_y_hat := y_hat, rls_lo := lo\<lparr>rl_err := ri_ref (rls_in rls) - y_hat\<rparr>\<rparr>) }"

definition rls_gain :: "nat \<Rightarrow> rls_lo_t \<Rightarrow> rls_lo_t option" where
  "rls_gain n lo = do {
     px \<leftarrow> for_each [0..<n] (\<lambda>i. for_each [0..<n] (\<lambda>j px. do {
         a \<leftarrow> aget px i; p \<leftarrow> aget2 (rl_p lo) i j; x \<leftarrow> aget (rl_x lo) j; aset px i (a + p * x) })) (rl_px lo);
     denom \<leftarrow> for_each [0..<n] (\<lambda>i d. do { x \<leftarrow> aget (rl_x lo) i; q \<leftarrow> aget px i; Some (d + x * q) }) (rl_denom lo);
     k \<leftarrow> for_each [0..<n] (\<lambda>i k. do { q \<leftarrow> aget px i; aset k i (q / denom) }) (rl_k lo);
     w \<leftarrow> for_each [0..<n] (\<lambda>i w. do { a \<leftarrow> aget w i; g \<leftarrow> aget k i; aset w i (a + g * rl_err lo) }) (rl_w lo);
     Some (lo\<lparr>rl_px := px, rl_denom := denom, rl_k := k, rl_w := w\<rparr>) }"

definition rls_update :: "nat \<Rightarrow> f32 \<Rightarrow> rls_lo_t \<Rightarrow> rls_lo_t option" where
  "rls_update n lambda lo = do {
     xtp \<leftarrow> for_each [0..<n] (\<lambda>j. for_each [0..<n] (\<lambda>i xtp. do {
         a \<leftarrow> aget xtp j; x \<leftarrow> aget (rl_x lo) i; p \<leftarrow> aget2 (rl_p lo) i j; aset xtp j (a + x * p) })) (rl_xtp lo);
     temp \<leftarrow> for_each [0..<n] (\<lambda>i. for_each [0..<n] (\<lambda>j temp. do {
         k \<leftarrow> aget (rl_k lo) i; q \<leftarrow> aget xtp j; aset2 temp i j (k * q) })) (rl_temp lo);
     p \<leftarrow> for_each [0..<n] (\<lambda>i. for_each [0..<n] (\<lambda>j p. do {
         a \<leftarrow> aget2 p i j; t \<leftarrow> aget2 temp i j; aset2 p i j ((a - t) / lambda) })) (rl_p lo);
     Some (lo\<lparr>rl_xtp := xtp, rl_temp := temp, rl_p := p\<rparr>) }"

definition rls_exec :: "rls_filter_t \<Rightarrow> rls_filter_t option" where
  "rls_exec rls = do {
     let cfg = rls_cfg rls; let n = unat (rc_order cfg); let lo = rls_lo rls;
     x \<leftarrow> rls_shift (unat (rc_order cfg - 1)) (rl_x lo);
     x \<leftarrow> aset x 0 (ri_x (rls_in rls));
     rls \<leftarrow> rls_predict n (rls\<lparr>rls_lo := lo\<lparr>rl_x := x\<rparr>\<rparr>);
     lo \<leftarrow> rls_gain n (rls_lo rls);
     lo \<leftarrow> rls_update n (rc_lambda cfg) lo;
     Some (rls\<lparr>rls_lo := lo\<rparr>) }"

subsection \<open>Where it is defined\<close>

definition mat_ok :: "'a list list \<Rightarrow> bool" where
  "mat_ok m \<longleftrightarrow> length m = MAX_ORDER \<and> (\<forall>r \<in> set m. length r = MAX_ORDER)"

definition rls_lo_ok :: "rls_lo_t \<Rightarrow> bool" where
  "rls_lo_ok lo \<longleftrightarrow> length (rl_w lo) = MAX_ORDER \<and> length (rl_x lo) = MAX_ORDER \<and> mat_ok (rl_p lo) \<and> length (rl_px lo) = MAX_ORDER \<and>
     length (rl_k lo) = MAX_ORDER \<and> mat_ok (rl_temp lo) \<and> length (rl_xtp lo) = MAX_ORDER"

lemma aget_ok: "i < length xs \<Longrightarrow> aget xs i = Some (xs ! i)"
  by (simp add: aget_def)

lemma aset_ok: "i < length xs \<Longrightarrow> aset xs i v = Some (xs[i := v])"
  by (simp add: aset_def)

lemma aget2_ok: "mat_ok m \<Longrightarrow> i < MAX_ORDER \<Longrightarrow> j < MAX_ORDER \<Longrightarrow> aget2 m i j = Some (m ! i ! j)"
  by (simp add: aget2_def aget_def mat_ok_def)

lemma aset2_ok:
  assumes "mat_ok m" "i < MAX_ORDER" "j < MAX_ORDER"
  shows "aset2 m i j v = Some (m[i := (m ! i)[j := v]])" "mat_ok (m[i := (m ! i)[j := v]])"
proof -
  show "aset2 m i j v = Some (m[i := (m ! i)[j := v]])" using assms by (simp add: aset2_def aget_def aset_def mat_ok_def)
  have "length (m ! i) = MAX_ORDER" using assms(1,2) by (simp add: mat_ok_def)
  then show "mat_ok (m[i := (m ! i)[j := v]])" using assms(1) set_update_subset_insert [of m i "(m ! i)[j := v]"]
    by (auto simp: mat_ok_def)
qed

lemma for_each_length:
  assumes "length s = k" "\<And>i s. i \<in> set is \<Longrightarrow> length s = k \<Longrightarrow> \<exists>s'. f i s = Some s' \<and> length s' = k"
  shows "\<exists>s'. for_each is f s = Some s' \<and> length s' = k"
  using for_each_inv [of "\<lambda>s. length s = k" s "is" f] assms by blast

lemma for_each_mat:
  assumes "mat_ok s" "\<And>i s. i \<in> set is \<Longrightarrow> mat_ok s \<Longrightarrow> \<exists>s'. f i s = Some s' \<and> mat_ok s'"
  shows "\<exists>s'. for_each is f s = Some s' \<and> mat_ok s'"
  using for_each_inv [of mat_ok s "is" f] assms by blast

lemma rls_predict_ok:
  assumes "rls_lo_ok (rls_lo rls)" "n \<le> MAX_ORDER"
  shows "\<exists>rls'. rls_predict n rls = Some rls' \<and> rls_lo_ok (rls_lo rls') \<and> rls_cfg rls' = rls_cfg rls"
proof -
  have "\<exists>y. for_each [0..<n] (\<lambda>i y. do { w \<leftarrow> aget (rl_w (rls_lo rls)) i; x \<leftarrow> aget (rl_x (rls_lo rls)) i; Some (y + w * x) }) (rls_y_hat rls) = Some y \<and> True"
    using assms by (intro for_each_inv) (auto simp: aget_ok rls_lo_ok_def)
  then show ?thesis using assms(1) by (auto simp: rls_predict_def rls_lo_ok_def)
qed

lemma rls_gain_ok:
  assumes lo: "rls_lo_ok lo" and n: "n \<le> MAX_ORDER"
  shows "\<exists>lo'. rls_gain n lo = Some lo' \<and> rls_lo_ok lo'"
proof -
  have l: "length (rl_w lo) = MAX_ORDER" "length (rl_x lo) = MAX_ORDER" "mat_ok (rl_p lo)" "length (rl_px lo) = MAX_ORDER" "length (rl_k lo) = MAX_ORDER"
    using lo by (simp_all add: rls_lo_ok_def)
  note d = aget_ok aset_ok aget2_ok
  have "\<exists>px. for_each [0..<n] (\<lambda>i. for_each [0..<n] (\<lambda>j px. do {
         a \<leftarrow> aget px i; p \<leftarrow> aget2 (rl_p lo) i j; x \<leftarrow> aget (rl_x lo) j; aset px i (a + p * x) })) (rl_px lo) = Some px \<and> length px = MAX_ORDER"
    by (intro for_each_length l) (use n l in \<open>simp_all add: d\<close>)
  then obtain px where px: "for_each [0..<n] (\<lambda>i. for_each [0..<n] (\<lambda>j px. do {
         a \<leftarrow> aget px i; p \<leftarrow> aget2 (rl_p lo) i j; x \<leftarrow> aget (rl_x lo) j; aset px i (a + p * x) })) (rl_px lo) = Some px" "length px = MAX_ORDER"
    by blast
  have "\<exists>denom. for_each [0..<n] (\<lambda>i d. do { x \<leftarrow> aget (rl_x lo) i; q \<leftarrow> aget px i; Some (d + x * q) }) (rl_denom lo) = Some denom \<and> True"
    by (intro for_each_inv) (use n l px(2) in \<open>simp_all add: d\<close>)
  then obtain denom where denom: "for_each [0..<n] (\<lambda>i d. do { x \<leftarrow> aget (rl_x lo) i; q \<leftarrow> aget px i; Some (d + x * q) }) (rl_denom lo) = Some denom" by blast
  have "\<exists>k. for_each [0..<n] (\<lambda>i k. do { q \<leftarrow> aget px i; aset k i (q / denom) }) (rl_k lo) = Some k \<and> length k = MAX_ORDER"
    by (intro for_each_length l) (use n l px(2) in \<open>simp_all add: d\<close>)
  then obtain k where k: "for_each [0..<n] (\<lambda>i k. do { q \<leftarrow> aget px i; aset k i (q / denom) }) (rl_k lo) = Some k" "length k = MAX_ORDER" by blast
  have "\<exists>w. for_each [0..<n] (\<lambda>i w. do { a \<leftarrow> aget w i; g \<leftarrow> aget k i; aset w i (a + g * rl_err lo) }) (rl_w lo) = Some w \<and> length w = MAX_ORDER"
    by (intro for_each_length l) (use n l k(2) in \<open>simp_all add: d\<close>)
  then obtain w where w: "for_each [0..<n] (\<lambda>i w. do { a \<leftarrow> aget w i; g \<leftarrow> aget k i; aset w i (a + g * rl_err lo) }) (rl_w lo) = Some w" "length w = MAX_ORDER" by blast
  show ?thesis using lo px k w denom by (simp add: rls_gain_def rls_lo_ok_def)
qed

lemma rls_update_ok:
  assumes lo: "rls_lo_ok lo" and n: "n \<le> MAX_ORDER"
  shows "\<exists>lo'. rls_update n lambda lo = Some lo' \<and> rls_lo_ok lo'"
proof -
  have l: "length (rl_x lo) = MAX_ORDER" "mat_ok (rl_p lo)" "length (rl_k lo) = MAX_ORDER" "mat_ok (rl_temp lo)" "length (rl_xtp lo) = MAX_ORDER"
    using lo by (simp_all add: rls_lo_ok_def)
  note d = aget_ok aset_ok aget2_ok
  have "\<exists>xtp. for_each [0..<n] (\<lambda>j. for_each [0..<n] (\<lambda>i xtp. do {
         a \<leftarrow> aget xtp j; x \<leftarrow> aget (rl_x lo) i; p \<leftarrow> aget2 (rl_p lo) i j; aset xtp j (a + x * p) })) (rl_xtp lo) = Some xtp \<and> length xtp = MAX_ORDER"
    by (intro for_each_length l) (use n l in \<open>simp_all add: d\<close>)
  then obtain xtp where xtp: "for_each [0..<n] (\<lambda>j. for_each [0..<n] (\<lambda>i xtp. do {
         a \<leftarrow> aget xtp j; x \<leftarrow> aget (rl_x lo) i; p \<leftarrow> aget2 (rl_p lo) i j; aset xtp j (a + x * p) })) (rl_xtp lo) = Some xtp" "length xtp = MAX_ORDER"
    by blast
  have "\<exists>temp. for_each [0..<n] (\<lambda>i. for_each [0..<n] (\<lambda>j temp. do {
         k \<leftarrow> aget (rl_k lo) i; q \<leftarrow> aget xtp j; aset2 temp i j (k * q) })) (rl_temp lo) = Some temp \<and> mat_ok temp"
    by (intro for_each_mat l) (use n l xtp(2) in \<open>simp_all add: d aset2_ok\<close>)
  then obtain temp where temp: "for_each [0..<n] (\<lambda>i. for_each [0..<n] (\<lambda>j temp. do {
         k \<leftarrow> aget (rl_k lo) i; q \<leftarrow> aget xtp j; aset2 temp i j (k * q) })) (rl_temp lo) = Some temp" "mat_ok temp"
    by blast
  have "\<exists>p. for_each [0..<n] (\<lambda>i. for_each [0..<n] (\<lambda>j p. do {
         a \<leftarrow> aget2 p i j; t \<leftarrow> aget2 temp i j; aset2 p i j ((a - t) / lambda) })) (rl_p lo) = Some p \<and> mat_ok p"
    by (intro for_each_mat l) (use n l temp(2) in \<open>simp_all add: d aset2_ok\<close>)
  then show ?thesis using lo xtp temp by (auto simp: rls_update_def rls_lo_ok_def)
qed

lemma rls_shift_ok: "i < length x \<Longrightarrow> \<exists>x'. rls_shift i x = Some x' \<and> length x' = length x"
proof (induction i arbitrary: x)
  case (Suc i)
  then show ?case using Suc.IH [of "x[Suc i := x ! i]"] by (simp add: aget_ok aset_ok)
qed simp

lemma rls_shift_out: "0 < i \<Longrightarrow> length x \<le> i \<Longrightarrow> rls_shift i x = None"
  by (cases i) (auto simp: aget_def aset_def split: bind_splits)

text \<open>C28: One sample of the estimator stays inside its arrays, and keeps their sizes, exactly when the configured
  order is between 1 and 8; with order 0 the index of the first loop wraps around.\<close>

theorem rls_exec_defined:
  assumes "rls_lo_ok (rls_lo rls)"
  shows "if 1 \<le> unat (rc_order (rls_cfg rls)) \<and> unat (rc_order (rls_cfg rls)) \<le> 8
    then \<exists>rls'. rls_exec rls = Some rls' \<and> rls_lo_ok (rls_lo rls') \<and> rls_cfg rls' = rls_cfg rls
    else rls_exec rls = None"
proof -
  let ?n = "unat (rc_order (rls_cfg rls))" and ?x = "rl_x (rls_lo rls)"
  have lx: "length ?x = 8" using assms by (simp add: rls_lo_ok_def MAX_ORDER_def)
  have i: "unat (rc_order (rls_cfg rls) - 1) = (if ?n = 0 then 2 ^ 32 - 1 else ?n - 1)"
    by (cases "rc_order (rls_cfg rls) = 0") (simp_all add: unat_minus_one unat_eq_0 unsigned_minus_1_eq_mask mask_eq_exp_minus_1)
  show ?thesis
  proof (cases "1 \<le> ?n \<and> ?n \<le> 8")
    case True
    then have j: "unat (rc_order (rls_cfg rls) - 1) < length ?x" using i lx by auto
    obtain x1 where x1: "rls_shift (unat (rc_order (rls_cfg rls) - 1)) ?x = Some x1" "length x1 = 8" using rls_shift_ok [OF j] lx by auto
    let ?x2 = "x1[0 := ri_x (rls_in rls)]"
    have x2: "aset x1 0 (ri_x (rls_in rls)) = Some ?x2" using x1(2) by (simp add: aset_ok)
    let ?r = "rls\<lparr>rls_lo := (rls_lo rls)\<lparr>rl_x := ?x2\<rparr>\<rparr>"
    have "rls_lo_ok (rls_lo ?r)" using assms x1(2) by (simp add: rls_lo_ok_def MAX_ORDER_def)
    moreover have nm: "?n \<le> MAX_ORDER" using True by (simp add: MAX_ORDER_def)
    ultimately obtain r1 where r1: "rls_predict ?n ?r = Some r1" "rls_lo_ok (rls_lo r1)" "rls_cfg r1 = rls_cfg ?r"
      using rls_predict_ok by blast
    obtain l1 where l1: "rls_gain ?n (rls_lo r1) = Some l1" "rls_lo_ok l1" using rls_gain_ok [OF r1(2) nm] by blast
    obtain l2 where l2: "rls_update ?n (rc_lambda (rls_cfg rls)) l1 = Some l2" "rls_lo_ok l2" using rls_update_ok [OF l1(2) nm] by blast
    have "rls_exec rls = Some (r1\<lparr>rls_lo := l2\<rparr>)" using x1(1) x2 r1(1) l1(1) l2(1) by (simp add: rls_exec_def Let_def)
    then show ?thesis using True l2(2) r1(3) by simp
  next
    case False
    then have "rls_shift (unat (rc_order (rls_cfg rls) - 1)) ?x = None"
      using i lx by (intro rls_shift_out) auto
    then show ?thesis using False by (simp add: rls_exec_def Let_def)
  qed
qed

definition demo_rls :: "u32 \<Rightarrow> rls_filter_t" where
  "demo_rls n = (let z = replicate 8 0 :: f32 list in
     \<lparr>rls_cfg = \<lparr>rc_order = n, rc_lambda = 1, rc_delta = 1\<rparr>, rls_in = \<lparr>ri_x = 1, ri_ref = 1\<rparr>, rls_y_hat = 0,
       rls_lo = \<lparr>rl_err = 0, rl_denom = 0, rl_w = z, rl_x = z, rl_p = replicate 8 z, rl_px = z, rl_k = z, rl_temp = replicate 8 z, rl_xtp = z\<rparr>\<rparr>)"

theorem rls_exec_defined_witness:
  "rls_exec (demo_rls 0) = None \<and> rls_exec (demo_rls 9) = None \<and> rls_exec (demo_rls 2) \<noteq> None"
proof -
  have l: "rls_lo_ok (rls_lo (demo_rls n))" "rc_order (rls_cfg (demo_rls n)) = n" for n
    by (simp_all add: demo_rls_def rls_lo_ok_def mat_ok_def MAX_ORDER_def Let_def)
  show ?thesis using rls_exec_defined [OF l(1), of 0] rls_exec_defined [OF l(1), of 9] rls_exec_defined [OF l(1), of 2]
    unfolding l(2) by auto
qed

end
