(* ===== verification/Motor_Types.thy ===== *)
theory Motor_Types
  imports Mathdef
begin

section \<open>Motor and peripheral parameters (util/typedef.h)\<close>

text \<open>The two configuration structures that the observers and the field-oriented control share. A signed
  32-bit number is an integer; the operations that can overflow check its range.\<close>

record motor_cfg_t =
  mc_npp :: u32
  mc_ld :: f32
  mc_lq :: f32
  mc_rs :: f32
  mc_psi :: f32
  mc_wc :: f32
  mc_j :: f32
  mc_cur2tor :: "f32 list"
  mc_tor2cur :: "f32 list"
  mc_max_tor :: f32

record periph_cfg_t =
  pf_adc_full_cnt :: u32
  pf_adc_cali_cnt_max :: u32
  pf_theta_cali_cnt_max :: u32
  pf_cur_range :: f32
  pf_vbus_range :: f32
  pf_adc2cur :: f32
  pf_adc2vbus :: f32
  pf_cur_gain :: u32
  pf_cur_offset :: f32
  pf_timer_freq :: u32
  pf_pwm_freq :: u32
  pf_pwm_full_cnt :: u32
  pf_mi :: f32
  pf_f32_pwm_min :: f32
  pf_f32_pwm_max :: f32

record i32_uvw_t =
  iuvw_u :: int
  iuvw_v :: int
  iuvw_w :: int

record u32_uvw_t =
  uuvw_u :: u32
  uuvw_v :: u32
  uuvw_w :: u32

definition i32_ok :: "int \<Rightarrow> int option" where
  "i32_ok n = (if - (2 ^ 31) \<le> n \<and> n < 2 ^ 31 then Some n else None)"

end
