(* ===== verification/Pll.thy ===== *)
theory Pll
  imports Mathdef
begin

section \<open>Phase-locked loop (filter/pll.h)\<close>

text \<open>
  Three ways to feed the loop: an orthogonal pair, an angle error, an angle. \<open>CFG_CHECK\<close> compares the
  configuration with a copy that no code ever stores, so that a call initialises again unless the
  configuration is what that copy was left with.
\<close>

record pll_cfg_t =
  pll_fs :: f32
  pll_wc :: f32
  pll_damp :: f32
  pll_lpf_fc :: f32
  pll_ffd_lpf_fc :: f32
  pll_kp :: f32
  pll_ki :: f32

record pll_in_t =
  pll_ab :: f32_ab_t
  pll_in_theta :: f32

record pll_out_t =
  pll_theta :: f32
  pll_omega :: f32
  pll_lpf_omega :: f32

record pll_lo_t =
  pll_lo_cfg :: pll_cfg_t
  pll_ki_out :: f32
  pll_prev_theta :: f32
  pll_theta_err :: f32
  pll_ffd_omega :: f32
  pll_lpf_ffd_omega :: f32

record pll_filter_t =
  pll_cfg :: pll_cfg_t
  pll_in :: pll_in_t
  pll_out :: pll_out_t
  pll_lo :: pll_lo_t

definition pll_init :: "pll_filter_t \<Rightarrow> pll_cfg_t \<Rightarrow> pll_filter_t" where
  "pll_init pll cfg = pll\<lparr>pll_cfg := cfg\<lparr>pll_kp := F_TWO * pll_wc cfg * pll_damp cfg, pll_ki := SQ (pll_wc cfg),
     pll_ffd_lpf_fc := F_HALF * pll_lpf_fc cfg\<rparr>\<rparr>"

definition pll_cfg_check :: "pll_filter_t \<Rightarrow> pll_filter_t" where
  "pll_cfg_check pll = (if pll_cfg pll \<noteq> pll_lo_cfg (pll_lo pll) then pll_init pll (pll_cfg pll) else pll)"

definition pll_exec :: "pll_filter_t \<Rightarrow> pll_filter_t" where
  "pll_exec p = (let pll = pll_cfg_check p; cfg = pll_cfg pll; out = pll_out pll; lo = pll_lo pll;
     ki_out = INTEGRATOR (pll_ki_out lo) (pll_theta_err lo) (pll_ki cfg) (pll_fs cfg);
     omega = pll_kp cfg * pll_theta_err lo + ki_out;
     lpf_omega = LOWPASS (pll_lpf_omega out) omega (pll_lpf_fc cfg) (pll_fs cfg);
     theta = WARP_TAU (INTEGRATOR (pll_theta out) omega 1 (pll_fs cfg))
   in pll\<lparr>pll_lo := lo\<lparr>pll_ki_out := ki_out\<rparr>, pll_out := \<lparr>pll_theta = theta, pll_omega = omega, pll_lpf_omega = lpf_omega\<rparr>\<rparr>)"

definition pll_set_err :: "pll_filter_t \<Rightarrow> f32 \<Rightarrow> pll_filter_t" where
  "pll_set_err pll e = pll\<lparr>pll_lo := (pll_lo pll)\<lparr>pll_theta_err := e\<rparr>\<rparr>"

definition pll_exec_ab_in :: "libm \<Rightarrow> pll_filter_t \<Rightarrow> f32_ab_t \<Rightarrow> pll_filter_t" where
  "pll_exec_ab_in L pll ab = (let theta = pll_theta (pll_out pll) in
     pll_exec (pll_set_err (pll\<lparr>pll_in := (pll_in pll)\<lparr>pll_ab := ab\<rparr>\<rparr>) (ab_b ab * lm_cos L theta - ab_a ab * lm_sin L theta)))"

definition pll_exec_theta_err_in :: "pll_filter_t \<Rightarrow> f32 \<Rightarrow> pll_filter_t" where
  "pll_exec_theta_err_in pll theta_err = pll_exec (pll_set_err pll (WARP_PI theta_err))"

definition pll_exec_theta_in :: "pll_filter_t \<Rightarrow> f32 \<Rightarrow> pll_filter_t" where
  "pll_exec_theta_in pll theta = (let cfg = pll_cfg pll; lo = pll_lo pll;
     ffd_omega = THETA_DERIVATIVE theta (pll_prev_theta lo) 1 (pll_fs cfg);
     lpf_ffd_omega = LOWPASS (pll_lpf_ffd_omega lo) ffd_omega (pll_ffd_lpf_fc cfg) (pll_fs cfg);
     pll = pll\<lparr>pll_in := (pll_in pll)\<lparr>pll_in_theta := theta\<rparr>,
       pll_lo := lo\<lparr>pll_ffd_omega := ffd_omega, pll_prev_theta := theta, pll_lpf_ffd_omega := lpf_ffd_omega\<rparr>\<rparr>
   in pll_exec (pll_set_err pll (WARP_PI (theta - pll_theta (pll_out pll)))))"

lemma pll_exec_theta_ok [simp]: "angle_ok (pll_theta (pll_out (pll_exec pll)))"
  by (simp add: pll_exec_def Let_def)

lemma pll_theta_ok [simp]:
  "angle_ok (pll_theta (pll_out (pll_exec_ab_in L pll ab)))" "angle_ok (pll_theta (pll_out (pll_exec_theta_err_in pll e)))"
  "angle_ok (pll_theta (pll_out (pll_exec_theta_in pll theta)))"
  by (simp_all add: pll_exec_ab_in_def pll_exec_theta_err_in_def pll_exec_theta_in_def Let_def)

text \<open>Initialising twice is initialising once; that is why the missing copy does no harm.\<close>

lemma pll_init_idem: "pll_init (pll_init pll cfg) (pll_cfg (pll_init pll cfg)) = pll_init pll cfg"
  by (simp add: pll_init_def)

lemma pll_cfg_check_init: "pll_cfg_check (pll_init pll cfg) = pll_init pll cfg"
  using pll_init_idem [of pll cfg] by (simp add: pll_cfg_check_def)

end
