(* ===== verification/Iir.thy ===== *)
theory Iir
  imports Mathdef
begin

section \<open>First and second order filters (filter/iir.h)\<close>

text \<open>
  The coefficients are computed by \<open>iir_init\<close>; \<open>CFG_CHECK\<close> compares the configuration with a copy that
  no code stores, so that \<open>iir_exec\<close> computes them again at each sample. The order is an enumeration
  whose values are 1 and 2; cleared memory holds neither. Pointers are not NULL, so that the calls return 0.
\<close>

datatype iir_order_e = IIR_1 | IIR_2 | IIR_NO_ORDER

datatype iir_type_e = IIR_LOWPASS | IIR_HIGHPASS | IIR_BANDPASS

record iir_cfg_t =
  ic_fs :: f32
  ic_fc :: f32
  ic_q :: f32
  ic_order :: iir_order_e
  ic_type :: iir_type_e

record iir_lo_t =
  il_cfg :: iir_cfg_t
  il_rc :: f32
  il_normal_a0 :: f32
  il_normal_a1 :: f32
  il_normal_a2 :: f32
  il_normal_a3 :: f32
  il_normal_a4 :: f32
  il_x1 :: f32
  il_x2 :: f32
  il_y1 :: f32
  il_y2 :: f32
  il_w0 :: f32
  il_sin_w0 :: f32
  il_cos_w0 :: f32
  il_alpha :: f32
  il_b0 :: f32
  il_b1 :: f32
  il_b2 :: f32
  il_a0 :: f32
  il_a1 :: f32
  il_a2 :: f32

record iir_filter_t =
  iir_cfg :: iir_cfg_t
  iir_x :: f32
  iir_y :: f32
  iir_lo :: iir_lo_t

definition iir_init_1 :: "iir_cfg_t \<Rightarrow> iir_lo_t \<Rightarrow> iir_lo_t" where
  "iir_init_1 cfg lo = (let rc = 1 / (TAU * ic_fc cfg); alpha = 1 / (1 + rc * ic_fs cfg);
     lo = lo\<lparr>il_rc := rc, il_alpha := alpha\<rparr>
   in case ic_type cfg of
        IIR_LOWPASS \<Rightarrow> lo\<lparr>il_b0 := alpha, il_b1 := 0, il_normal_a1 := - (1 - alpha)\<rparr>
      | IIR_HIGHPASS \<Rightarrow> lo\<lparr>il_b0 := 1 - alpha, il_b1 := - (1 - alpha), il_normal_a1 := - (1 - alpha)\<rparr>
      | IIR_BANDPASS \<Rightarrow> lo)"

definition iir_init_2 :: "libm \<Rightarrow> iir_cfg_t \<Rightarrow> iir_lo_t \<Rightarrow> iir_lo_t" where
  "iir_init_2 L cfg lo = (let w0 = TAU * ic_fc cfg / ic_fs cfg; sin_w0 = lm_sin L w0; cos_w0 = lm_cos L w0;
     alpha = sin_w0 / (F_TWO * ic_q cfg);
     b0 = (case ic_type cfg of IIR_LOWPASS \<Rightarrow> (1 - cos_w0) / F_TWO | IIR_HIGHPASS \<Rightarrow> (1 + cos_w0) / F_TWO | IIR_BANDPASS \<Rightarrow> alpha);
     b1 = (case ic_type cfg of IIR_LOWPASS \<Rightarrow> b0 * F_TWO | IIR_HIGHPASS \<Rightarrow> - b0 * F_TWO | IIR_BANDPASS \<Rightarrow> 0);
     b2 = (case ic_type cfg of IIR_LOWPASS \<Rightarrow> b0 | IIR_HIGHPASS \<Rightarrow> b0 | IIR_BANDPASS \<Rightarrow> - alpha);
     a0 = 1 + alpha; a1 = - F_TWO * cos_w0; a2 = 1 - alpha
   in lo\<lparr>il_w0 := w0, il_sin_w0 := sin_w0, il_cos_w0 := cos_w0, il_alpha := alpha, il_b0 := b0, il_b1 := b1, il_b2 := b2,
        il_a0 := a0, il_a1 := a1, il_a2 := a2,
        il_normal_a0 := b0 / a0, il_normal_a1 := b1 / a0, il_normal_a2 := b2 / a0, il_normal_a3 := a1 / a0, il_normal_a4 := a2 / a0\<rparr>)"

definition iir_init :: "libm \<Rightarrow> iir_filter_t \<Rightarrow> iir_cfg_t \<Rightarrow> iir_filter_t" where
  "iir_init L iir cfg = iir\<lparr>iir_cfg := cfg, iir_lo := (case ic_order cfg of
       IIR_1 \<Rightarrow> iir_init_1 cfg (iir_lo iir) | IIR_2 \<Rightarrow> iir_init_2 L cfg (iir_lo iir) | IIR_NO_ORDER \<Rightarrow> iir_lo iir)\<rparr>"

definition iir_cfg_check :: "libm \<Rightarrow> iir_filter_t \<Rightarrow> iir_filter_t" where
  "iir_cfg_check L iir = (if iir_cfg iir \<noteq> il_cfg (iir_lo iir) then iir_init L iir (iir_cfg iir) else iir)"

definition iir_exec :: "libm \<Rightarrow> iir_filter_t \<Rightarrow> iir_filter_t" where
  "iir_exec L f = (let iir = iir_cfg_check L f; lo = iir_lo iir; x = iir_x iir in
     case ic_order (iir_cfg iir) of
       IIR_1 \<Rightarrow> (let y = il_b0 lo * x + il_b1 lo * il_x1 lo - il_normal_a1 lo * il_y1 lo in
         iir\<lparr>iir_y := y, iir_lo := lo\<lparr>il_x1 := x, il_y1 := y\<rparr>\<rparr>)
     | IIR_2 \<Rightarrow> (let y = il_normal_a0 lo * x + il_normal_a1 lo * il_x1 lo + il_normal_a2 lo * il_x2 lo -
             il_normal_a3 lo * il_y1 lo - il_normal_a4 lo * il_y2 lo in
         iir\<lparr>iir_y := y, iir_lo := lo\<lparr>il_x2 := il_x1 lo, il_x1 := x, il_y2 := il_y1 lo, il_y1 := y\<rparr>\<rparr>)
     | IIR_NO_ORDER \<Rightarrow> iir)"

definition iir_exec_in :: "libm \<Rightarrow> iir_filter_t \<Rightarrow> f32 \<Rightarrow> iir_filter_t" where
  "iir_exec_in L iir x = iir_exec L (iir\<lparr>iir_x := x\<rparr>)"

subsection \<open>The filter is its difference equation\<close>

text \<open>The samples of a run, and the equation: the output at time \<open>n\<close> in terms of inputs and outputs at most
  two samples back, all zero before the start.\<close>

fun iir_run :: "libm \<Rightarrow> iir_filter_t \<Rightarrow> f32 list \<Rightarrow> f32 list" where
  "iir_run L iir [] = []"
| "iir_run L iir (x # xs) = (let f = iir_exec_in L iir x in iir_y f # iir_run L f xs)"

definition past :: "(nat \<Rightarrow> f32) \<Rightarrow> nat \<Rightarrow> nat \<Rightarrow> f32" where
  "past f n k = (if k \<le> n then f (n - k) else 0)"

function iir_eq1 :: "f32 \<Rightarrow> f32 \<Rightarrow> f32 \<Rightarrow> (nat \<Rightarrow> f32) \<Rightarrow> nat \<Rightarrow> f32" where
  "iir_eq1 b0 b1 a1 x n = b0 * x n + b1 * past x n 1 - a1 * (if n = 0 then 0 else iir_eq1 b0 b1 a1 x (n - 1))"
  by pat_completeness auto
termination by (relation "measure (\<lambda>(b0, b1, a1, x, n). n)") auto

function iir_eq2 :: "f32 \<Rightarrow> f32 \<Rightarrow> f32 \<Rightarrow> f32 \<Rightarrow> f32 \<Rightarrow> (nat \<Rightarrow> f32) \<Rightarrow> nat \<Rightarrow> f32" where
  "iir_eq2 c0 c1 c2 d1 d2 x n = c0 * x n + c1 * past x n 1 + c2 * past x n 2
     - d1 * (if n < 1 then 0 else iir_eq2 c0 c1 c2 d1 d2 x (n - 1)) - d2 * (if n < 2 then 0 else iir_eq2 c0 c1 c2 d1 d2 x (n - 2))"
  by pat_completeness auto
termination by (relation "measure (\<lambda>(c0, c1, c2, d1, d2, x, n). n)") auto

declare iir_eq1.simps [simp del] iir_eq2.simps [simp del]

text \<open>What stays the same during a run: the coefficients, as \<open>iir_init\<close> computes them.\<close>

definition iir_coefs :: "iir_lo_t \<Rightarrow> f32 list" where
  "iir_coefs lo = [il_b0 lo, il_b1 lo, il_normal_a0 lo, il_normal_a1 lo, il_normal_a2 lo, il_normal_a3 lo, il_normal_a4 lo]"

definition iir_set :: "libm \<Rightarrow> iir_cfg_t \<Rightarrow> f32 list \<Rightarrow> iir_filter_t \<Rightarrow> bool" where
  "iir_set L cfg cs iir \<longleftrightarrow> iir_cfg iir = cfg \<and> iir_coefs (iir_lo iir) = cs \<and> iir_coefs (iir_lo (iir_init L iir cfg)) = cs"

lemma iir_set_init: "iir_set L cfg (iir_coefs (iir_lo (iir_init L iir cfg))) (iir_init L iir cfg)"
  by (cases "ic_order cfg"; cases "ic_type cfg")
    (simp_all add: iir_set_def iir_coefs_def iir_init_def iir_init_1_def iir_init_2_def Let_def)

lemma iir_check_set:
  assumes "iir_set L cfg cs iir"
  shows "iir_set L cfg cs (iir_cfg_check L iir)" "il_x1 (iir_lo (iir_cfg_check L iir)) = il_x1 (iir_lo iir)"
    "il_x2 (iir_lo (iir_cfg_check L iir)) = il_x2 (iir_lo iir)" "il_y1 (iir_lo (iir_cfg_check L iir)) = il_y1 (iir_lo iir)"
    "il_y2 (iir_lo (iir_cfg_check L iir)) = il_y2 (iir_lo iir)" "iir_x (iir_cfg_check L iir) = iir_x iir"
  using assms iir_set_init [of L cfg iir]
  by (auto simp: iir_set_def iir_cfg_check_def iir_init_def iir_init_1_def iir_init_2_def Let_def split: iir_order_e.splits iir_type_e.splits)

lemma iir_set_cong:
  assumes "iir_set L cfg cs iir" "iir_cfg f = iir_cfg iir" "iir_coefs (iir_lo f) = iir_coefs (iir_lo iir)"
  shows "iir_set L cfg cs f"
  using assms
  by (cases "ic_order cfg"; cases "ic_type cfg") (auto simp: iir_set_def iir_coefs_def iir_init_def iir_init_1_def iir_init_2_def Let_def)

lemma iir_exec_set:
  assumes "iir_set L cfg cs iir"
  shows "iir_set L cfg cs (iir_exec_in L iir v)"
proof -
  let ?f = "iir\<lparr>iir_x := v\<rparr>"
  have s: "iir_set L cfg cs ?f" by (rule iir_set_cong [OF assms]) simp_all
  have "iir_set L cfg cs (iir_cfg_check L ?f)" by (rule iir_check_set(1) [OF s])
  then show ?thesis unfolding iir_exec_in_def
    by (rule iir_set_cong) (simp_all add: iir_exec_def iir_coefs_def Let_def split: iir_order_e.split)
qed

lemma iir_run_eq1:
  assumes "iir_set L cfg cs iir" "ic_order cfg = IIR_1"
    "il_x1 (iir_lo iir) = past x k 1" "il_y1 (iir_lo iir) = (if k = 0 then 0 else iir_eq1 (cs ! 0) (cs ! 1) (cs ! 3) x (k - 1))"
    "\<forall>i < length xs. xs ! i = x (k + i)" "n < length xs"
  shows "iir_run L iir xs ! n = iir_eq1 (cs ! 0) (cs ! 1) (cs ! 3) x (k + n)"
  using assms
proof (induction xs arbitrary: iir k n)
  case (Cons v xs)
  let ?f = "iir\<lparr>iir_x := v\<rparr>" and ?g = "iir_exec_in L iir v"
  have v: "v = x k" using Cons.prems(5) [rule_format, of 0] by simp
  have s: "iir_set L cfg cs ?f" by (rule iir_set_cong [OF Cons.prems(1)]) simp_all
  note c = iir_check_set [OF s]
  have cs: "cs = iir_coefs (iir_lo (iir_cfg_check L ?f))" "iir_cfg (iir_cfg_check L ?f) = cfg" using c(1) by (auto simp: iir_set_def)
  have y: "iir_y ?g = iir_eq1 (cs ! 0) (cs ! 1) (cs ! 3) x k" "il_x1 (iir_lo ?g) = x k" "il_y1 (iir_lo ?g) = iir_y ?g"
    using c(2-6) Cons.prems(2-4) cs v
    by (simp_all add: iir_exec_in_def iir_exec_def Let_def iir_coefs_def iir_eq1.simps [of _ _ _ x k])
  show ?case
  proof (cases n)
    case 0
    then show ?thesis using y by (simp add: Let_def)
  next
    case (Suc m)
    have "iir_run L ?g xs ! m = iir_eq1 (cs ! 0) (cs ! 1) (cs ! 3) x (Suc k + m)"
      using Cons.prems(2,5,6) Suc y by (intro Cons.IH [OF iir_exec_set [OF Cons.prems(1)]]) (auto simp: past_def)
    then show ?thesis using Suc by (simp add: Let_def)
  qed
qed simp

lemma iir_run_eq2:
  assumes "iir_set L cfg cs iir" "ic_order cfg = IIR_2"
    "il_x1 (iir_lo iir) = past x k 1" "il_x2 (iir_lo iir) = past x k 2"
    "il_y1 (iir_lo iir) = (if k < 1 then 0 else iir_eq2 (cs ! 2) (cs ! 3) (cs ! 4) (cs ! 5) (cs ! 6) x (k - 1))"
    "il_y2 (iir_lo iir) = (if k < 2 then 0 else iir_eq2 (cs ! 2) (cs ! 3) (cs ! 4) (cs ! 5) (cs ! 6) x (k - 2))"
    "\<forall>i < length xs. xs ! i = x (k + i)" "n < length xs"
  shows "iir_run L iir xs ! n = iir_eq2 (cs ! 2) (cs ! 3) (cs ! 4) (cs ! 5) (cs ! 6) x (k + n)"
  using assms
proof (induction xs arbitrary: iir k n)
  case (Cons v xs)
  let ?f = "iir\<lparr>iir_x := v\<rparr>" and ?g = "iir_exec_in L iir v" and ?y = "iir_eq2 (cs ! 2) (cs ! 3) (cs ! 4) (cs ! 5) (cs ! 6) x"
  have v: "v = x k" using Cons.prems(7) [rule_format, of 0] by simp
  have s: "iir_set L cfg cs ?f" by (rule iir_set_cong [OF Cons.prems(1)]) simp_all
  note c = iir_check_set [OF s]
  have cs: "cs = iir_coefs (iir_lo (iir_cfg_check L ?f))" "iir_cfg (iir_cfg_check L ?f) = cfg" using c(1) by (auto simp: iir_set_def)
  have g: "iir_y ?g = ?y k" "il_x1 (iir_lo ?g) = x k" "il_x2 (iir_lo ?g) = past x k 1" "il_y1 (iir_lo ?g) = iir_y ?g"
    "il_y2 (iir_lo ?g) = (if k < 1 then 0 else ?y (k - 1))"
    using c(2-6) Cons.prems(2-6) cs v
    by (simp_all add: iir_exec_in_def iir_exec_def Let_def iir_coefs_def iir_eq2.simps [of _ _ _ _ _ x k])
  show ?case
  proof (cases n)
    case 0
    then show ?thesis using g by (simp add: Let_def)
  next
    case (Suc m)
    have "iir_run L ?g xs ! m = ?y (Suc k + m)"
      using Cons.prems(2,7,8) Suc g by (intro Cons.IH [OF iir_exec_set [OF Cons.prems(1)]]) (auto simp: past_def)
    then show ?thesis using Suc by (simp add: Let_def)
  qed
qed simp

text \<open>C21: A filter initialised on cleared history is its difference equation: whatever the cut-off, the sampling rate
  and the type, the sample \<open>n\<close> of the output is the equation of order one or two over the inputs up to
  \<open>n\<close>, with the coefficients of \<open>iir_init\<close>, although each call computes these again.\<close>

theorem iir_is_difference_equation:
  fixes L :: libm
  assumes "lo = iir_lo (iir_init L iir cfg)" "il_x1 lo = 0" "il_x2 lo = 0" "il_y1 lo = 0" "il_y2 lo = 0" "n < length xs"
  shows "(ic_order cfg = IIR_1 \<longrightarrow> iir_run L (iir_init L iir cfg) xs ! n = iir_eq1 (il_b0 lo) (il_b1 lo) (il_normal_a1 lo) (\<lambda>i. xs ! i) n) \<and>
    (ic_order cfg = IIR_2 \<longrightarrow> iir_run L (iir_init L iir cfg) xs ! n =
       iir_eq2 (il_normal_a0 lo) (il_normal_a1 lo) (il_normal_a2 lo) (il_normal_a3 lo) (il_normal_a4 lo) (\<lambda>i. xs ! i) n)"
  using iir_run_eq1 [OF iir_set_init [of L cfg iir], of "\<lambda>i. xs ! i" 0 xs n] iir_run_eq2 [OF iir_set_init [of L cfg iir], of "\<lambda>i. xs ! i" 0 xs n] assms
  by (simp add: past_def iir_coefs_def)

definition demo_iir :: iir_filter_t where
  "demo_iir = (let cfg = \<lparr>ic_fs = f32_of_int 1000, ic_fc = f32_of_int 50, ic_q = 1, ic_order = IIR_1, ic_type = IIR_LOWPASS\<rparr> in
     \<lparr>iir_cfg = cfg, iir_x = 0, iir_y = 0, iir_lo = \<lparr>il_cfg = cfg\<lparr>ic_fs := 0\<rparr>, il_rc = 0, il_normal_a0 = 0, il_normal_a1 = 0, il_normal_a2 = 0,
       il_normal_a3 = 0, il_normal_a4 = 0, il_x1 = 0, il_x2 = 0, il_y1 = 0, il_y2 = 0, il_w0 = 0, il_sin_w0 = 0, il_cos_w0 = 0, il_alpha = 0,
       il_b0 = 0, il_b1 = 0, il_b2 = 0, il_a0 = 0, il_a1 = 0, il_a2 = 0\<rparr>\<rparr>)"

theorem iir_is_difference_equation_witness:
  "iir_run flat_libm (iir_init flat_libm demo_iir (iir_cfg demo_iir)) [1, 1, 1] ! 2 =
     iir_eq1 (F32 0x3E74CB6B) 0 (F32 0xBF42CD25) (\<lambda>i. [1, 1, 1] ! i) 2"
proof -
  let ?lo = "iir_lo (iir_init flat_libm demo_iir (iir_cfg demo_iir))"
  have z: "il_x1 ?lo = 0" "il_x2 ?lo = 0" "il_y1 ?lo = 0" "il_y2 ?lo = 0" "ic_order (iir_cfg demo_iir) = IIR_1"
    "il_b0 ?lo = F32 0x3E74CB6B" "il_b1 ?lo = 0" "il_normal_a1 ?lo = F32 0xBF42CD25"
    by code_simp+
  show ?thesis using iir_is_difference_equation [OF refl z(1-4), of 2 "[1, 1, 1]"] z(5-8) by simp
qed

end
