(* ===== verification/Observers.thy ===== *)
theory Observers
  imports Motor_Types Pll Iir
begin

section \<open>Rotor observers (obs/smo.h, obs/lbg.h, obs/hfi.h)\<close>

text \<open>
  The sliding mode observer works on currents and voltages in the stator frame, the Luenberger
  observer on the angle and the torque, the injection observer on the response to a high-frequency
  voltage, with a state machine that tells the polarity of the rotor. Each ends in an angle.
\<close>

subsection \<open>Sliding mode\<close>

record smo_cfg_t =
  sc_fs :: f32
  sc_ks :: f32
  sc_es0 :: f32
  sc_motor_cfg :: motor_cfg_t

record smo_in_t =
  si_i_ab :: f32_ab_t
  si_v_ab :: f32_ab_t

record smo_out_t =
  so_est_theta :: f32
  so_est_omega :: f32

record smo_lo_t =
  sl_est_i_ab :: f32_ab_t
  sl_est_i_ab_err :: f32_ab_t
  sl_est_emf_v_ab :: f32_ab_t
  sl_pll :: pll_filter_t

record smo_obs_t =
  smo_cfg :: smo_cfg_t
  smo_in :: smo_in_t
  smo_out :: smo_out_t
  smo_lo :: smo_lo_t

definition smo_init :: "smo_obs_t \<Rightarrow> smo_cfg_t \<Rightarrow> smo_obs_t" where
  "smo_init smo cfg = (let lo = smo_lo smo; pll = sl_pll lo; pcfg = (pll_cfg pll)\<lparr>pll_fs := sc_fs cfg\<rparr> in
     smo\<lparr>smo_cfg := cfg, smo_lo := lo\<lparr>sl_pll := pll_init (pll\<lparr>pll_cfg := pcfg\<rparr>) pcfg\<rparr>\<rparr>)"

text \<open>The current of one axis, and the switching function of the back electromotive force.\<close>

definition smo_est_i :: "smo_cfg_t \<Rightarrow> f32 \<Rightarrow> f32 \<Rightarrow> f32 \<Rightarrow> f32 \<Rightarrow> f32" where
  "smo_est_i cfg est_i v i emf = INTEGRATOR est_i
     ((v - i * mc_rs (sc_motor_cfg cfg) - emf) / (F_HALF * (mc_ld (sc_motor_cfg cfg) + mc_lq (sc_motor_cfg cfg)))) 1 (sc_fs cfg)"

definition smo_est_emf :: "smo_cfg_t \<Rightarrow> f32 \<Rightarrow> f32" where
  "smo_est_emf cfg err = (if sc_es0 cfg < \<bar>err\<bar> then f32_copysign (sc_ks cfg) err else sc_ks cfg * err / sc_es0 cfg)"

definition smo_exec :: "libm \<Rightarrow> smo_obs_t \<Rightarrow> smo_obs_t" where
  "smo_exec L smo = (let cfg = smo_cfg smo; inp = smo_in smo; lo = smo_lo smo;
     i_ab = si_i_ab inp; v_ab = si_v_ab inp; emf = sl_est_emf_v_ab lo;
     est = \<lparr>ab_a = smo_est_i cfg (ab_a (sl_est_i_ab lo)) (ab_a v_ab) (ab_a i_ab) (ab_a emf),
            ab_b = smo_est_i cfg (ab_b (sl_est_i_ab lo)) (ab_b v_ab) (ab_b i_ab) (ab_b emf)\<rparr>;
     err = AB_SUB_VEC est i_ab;
     emf = \<lparr>ab_a = smo_est_emf cfg (ab_a err), ab_b = smo_est_emf cfg (ab_b err)\<rparr>;
     pll = pll_exec_ab_in L (sl_pll lo) emf;
     omega = pll_omega (pll_out pll);
     theta = WARP_TAU (lm_atan2 L (- ab_a emf * omega) (ab_b emf * omega))
   in smo\<lparr>smo_lo := \<lparr>sl_est_i_ab = est, sl_est_i_ab_err = err, sl_est_emf_v_ab = emf, sl_pll = pll\<rparr>,
          smo_out := \<lparr>so_est_theta = theta, so_est_omega = omega\<rparr>\<rparr>)"

definition smo_exec_in :: "libm \<Rightarrow> smo_obs_t \<Rightarrow> f32_ab_t \<Rightarrow> f32_ab_t \<Rightarrow> smo_obs_t" where
  "smo_exec_in L smo i_ab v_ab = smo_exec L (smo\<lparr>smo_in := \<lparr>si_i_ab = i_ab, si_v_ab = v_ab\<rparr>\<rparr>)"

subsection \<open>Luenberger\<close>

record lbg_cfg_t =
  lb_fs :: f32
  lb_motor :: motor_cfg_t
  lb_wc :: f32
  lb_damp :: f32

record lbg_in_t =
  li_theta :: f32
  li_elec_tor :: f32

record lbg_out_t =
  lo_est_theta :: f32
  lo_est_omega :: f32
  lo_est_load_tor :: f32
  lo_sum_tor :: f32

record lbg_lo_t =
  ll_cfg :: lbg_cfg_t
  ll_g1 :: f32
  ll_kp :: f32
  ll_ki :: f32
  ll_theta_err :: f32
  ll_mech_theta_err :: f32
  ll_ki_out :: f32
  ll_est_omega :: f32

record lbg_obs_t =
  lbg_cfg :: lbg_cfg_t
  lbg_in :: lbg_in_t
  lbg_out :: lbg_out_t
  lbg_lo :: lbg_lo_t

definition lbg_init :: "lbg_obs_t \<Rightarrow> lbg_cfg_t \<Rightarrow> lbg_obs_t" where
  "lbg_init lbg cfg = lbg\<lparr>lbg_cfg := cfg, lbg_lo := (lbg_lo lbg)\<lparr>ll_cfg := cfg, ll_g1 := F_TWO * lb_wc cfg,
     ll_kp := F_TWO * SQ (lb_wc cfg) * mc_j (lb_motor cfg) * lb_damp cfg, ll_ki := SQ (lb_wc cfg) * lb_wc cfg * mc_j (lb_motor cfg)\<rparr>\<rparr>"

text \<open>Here the copy of the configuration is stored, so that the check holds until the configuration changes.\<close>

definition lbg_cfg_check :: "lbg_obs_t \<Rightarrow> lbg_obs_t" where
  "lbg_cfg_check lbg = (if lbg_cfg lbg \<noteq> ll_cfg (lbg_lo lbg) then lbg_init lbg (lbg_cfg lbg) else lbg)"

definition lbg_exec :: "lbg_obs_t \<Rightarrow> lbg_obs_t" where
  "lbg_exec l = (let lbg = lbg_cfg_check l; cfg = lbg_cfg lbg; inp = lbg_in lbg; out = lbg_out lbg; lo = lbg_lo lbg; motor = lb_motor cfg;
     theta_err = WARP_PI (li_theta inp - lo_est_theta out);
     mech_theta_err = theta_err / f32_of_u32 (mc_npp motor);
     ki_out = CLAMP (INTEGRATOR (ll_ki_out lo) mech_theta_err (ll_ki lo) (lb_fs cfg)) (- mc_max_tor motor) (mc_max_tor motor);
     sum_tor = li_elec_tor inp + ll_kp lo * mech_theta_err + ki_out;
     w = INTEGRATOR (ll_est_omega lo) sum_tor (1 / mc_j motor) (lb_fs cfg);
     omega = ll_g1 lo * mech_theta_err + w;
     theta = WARP_TAU (INTEGRATOR (lo_est_theta out) omega (f32_of_u32 (mc_npp motor)) (lb_fs cfg))
   in lbg\<lparr>lbg_lo := lo\<lparr>ll_theta_err := theta_err, ll_mech_theta_err := mech_theta_err, ll_ki_out := ki_out, ll_est_omega := w\<rparr>,
          lbg_out := \<lparr>lo_est_theta = theta, lo_est_omega = omega, lo_est_load_tor = - ki_out, lo_sum_tor = sum_tor\<rparr>\<rparr>)"

definition lbg_exec_in :: "lbg_obs_t \<Rightarrow> f32 \<Rightarrow> f32 \<Rightarrow> lbg_obs_t" where
  "lbg_exec_in lbg theta elec_tor = lbg_exec (lbg\<lparr>lbg_in := \<lparr>li_theta = theta, li_elec_tor = elec_tor\<rparr>\<rparr>)"

subsection \<open>High-frequency injection\<close>

record hfi_cfg_t =
  hc_fs :: f32
  hc_fh :: f32
  hc_hfi_vd :: f32
  hc_hfi_id :: f32
  hc_id_lpf_fc :: f32
  hc_iq_lpf_fc :: f32
  hc_polar_cnt_max :: u32

record hfi_out_t =
  ho_est_theta :: f32
  ho_est_omega :: f32
  ho_id :: f32
  ho_vd :: f32

datatype polar_idf_e = HFI_POLAR_IDF_READY | HFI_POLAR_IDF_POSITIVE | HFI_POLAR_IDF_NEGATIVE | HFI_POALR_IDF_FINISH

record hfi_lo_t =
  hl_hfi_theta :: f32
  hl_hfi_id :: f32
  hl_hfi_iq :: f32
  hl_lpf_id :: f32
  hl_lpf_iq :: f32
  hl_polar_idf :: polar_idf_e
  hl_polar_cnt :: u32
  hl_id_pos :: f32
  hl_id_neg :: f32
  hl_polar_offset :: f32
  hl_id_bpf :: iir_filter_t
  hl_iq_bpf :: iir_filter_t
  hl_pll :: pll_filter_t

record hfi_obs_t =
  hfi_cfg :: hfi_cfg_t
  hfi_i_dq :: f32_dq_t
  hfi_out :: hfi_out_t
  hfi_lo :: hfi_lo_t

text \<open>\<open>None\<close>: the conversion of a third of the sampling rate to a 32-bit number is undefined.\<close>

definition hfi_init :: "libm \<Rightarrow> hfi_obs_t \<Rightarrow> hfi_cfg_t \<Rightarrow> hfi_obs_t option" where
  "hfi_init L hfi cfg = do {
     let lo = hfi_lo hfi;
     let pcfg = (pll_cfg (hl_pll lo))\<lparr>pll_fs := hc_fs cfg\<rparr>;
     let dcfg = (iir_cfg (hl_id_bpf lo))\<lparr>ic_fs := hc_fs cfg\<rparr>;
     let qcfg = (iir_cfg (hl_iq_bpf lo))\<lparr>ic_fs := hc_fs cfg\<rparr>;
     polar_cnt_max \<leftarrow> f32_to_u32 (hc_fs cfg / f32_of_int 3);
     Some (hfi\<lparr>hfi_cfg := cfg\<lparr>hc_polar_cnt_max := polar_cnt_max\<rparr>, hfi_lo := lo\<lparr>hl_pll := pll_init (hl_pll lo) pcfg,
       hl_id_bpf := iir_init L (hl_id_bpf lo) dcfg, hl_iq_bpf := iir_init L (hl_iq_bpf lo) qcfg\<rparr>\<rparr>) }"

definition hfi_polar_idf :: "hfi_obs_t \<Rightarrow> hfi_obs_t" where
  "hfi_polar_idf hfi = (let cfg = hfi_cfg hfi; out = hfi_out hfi; lo = hfi_lo hfi; cnt = hl_polar_cnt lo; cmax = hc_polar_cnt_max cfg in
     case hl_polar_idf lo of
       HFI_POLAR_IDF_READY \<Rightarrow>
         hfi\<lparr>hfi_lo := lo\<lparr>hl_polar_idf := (if cnt = cmax * 1 then HFI_POLAR_IDF_POSITIVE else HFI_POLAR_IDF_READY), hl_polar_cnt := cnt + 1\<rparr>\<rparr>
     | HFI_POLAR_IDF_POSITIVE \<Rightarrow>
         hfi\<lparr>hfi_out := out\<lparr>ho_id := hc_hfi_id cfg\<rparr>, hfi_lo := lo\<lparr>hl_id_pos := hl_id_pos lo + \<bar>hl_lpf_id lo\<bar>,
           hl_polar_idf := (if cnt = cmax * 2 then HFI_POLAR_IDF_NEGATIVE else HFI_POLAR_IDF_POSITIVE), hl_polar_cnt := cnt + 1\<rparr>\<rparr>
     | HFI_POLAR_IDF_NEGATIVE \<Rightarrow> (let id_neg = hl_id_neg lo + \<bar>hl_lpf_id lo\<bar>; lo = lo\<lparr>hl_id_neg := id_neg\<rparr> in
         hfi\<lparr>hfi_out := out\<lparr>ho_id := - hc_hfi_id cfg\<rparr>, hfi_lo := (if cnt = cmax * 3
           then lo\<lparr>hl_polar_offset := (if \<bar>id_neg\<bar> < \<bar>hl_id_pos lo\<bar> then 0 else PI), hl_polar_idf := HFI_POALR_IDF_FINISH, hl_polar_cnt := cnt + 1\<rparr>
           else lo\<lparr>hl_polar_cnt := cnt + 1\<rparr>)\<rparr>)
     | HFI_POALR_IDF_FINISH \<Rightarrow> hfi\<lparr>hfi_out := out\<lparr>ho_id := 0\<rparr>, hfi_lo := lo\<lparr>hl_polar_cnt := 0\<rparr>\<rparr>)"

text \<open>The sample before and after the polarity is looked at: injection and direct axis; quadrature axis and loop.\<close>

definition hfi_inject :: "libm \<Rightarrow> hfi_obs_t \<Rightarrow> hfi_obs_t" where
  "hfi_inject L hfi = (let cfg = hfi_cfg hfi; lo = hfi_lo hfi;
     theta = WARP_TAU (INTEGRATOR (hl_hfi_theta lo) (TAU * hc_fh cfg) 1 (hc_fs cfg));
     vd = hc_hfi_vd cfg * lm_cos L theta;
     id_bpf = iir_exec_in L (hl_id_bpf lo) (dq_d (hfi_i_dq hfi));
     i = iir_y id_bpf * lm_sin L theta;
     lpf_id = LOWPASS (hl_lpf_id lo) i (hc_id_lpf_fc cfg) (hc_fs cfg)
   in hfi\<lparr>hfi_out := (hfi_out hfi)\<lparr>ho_vd := vd\<rparr>,
       hfi_lo := lo\<lparr>hl_hfi_theta := theta, hl_id_bpf := id_bpf, hl_hfi_id := i, hl_lpf_id := lpf_id\<rparr>\<rparr>)"

definition hfi_track :: "libm \<Rightarrow> hfi_obs_t \<Rightarrow> hfi_obs_t" where
  "hfi_track L hfi = (let cfg = hfi_cfg hfi; lo = hfi_lo hfi;
     iq_bpf = iir_exec_in L (hl_iq_bpf lo) (dq_q (hfi_i_dq hfi));
     q = iir_y iq_bpf * lm_sin L (hl_hfi_theta lo);
     lpf_iq = LOWPASS (hl_lpf_iq lo) q (hc_iq_lpf_fc cfg) (hc_fs cfg);
     pll = pll_exec_theta_err_in (hl_pll lo) lpf_iq
   in hfi\<lparr>hfi_lo := lo\<lparr>hl_iq_bpf := iq_bpf, hl_hfi_iq := q, hl_lpf_iq := lpf_iq, hl_pll := pll\<rparr>,
          hfi_out := (hfi_out hfi)\<lparr>ho_est_theta := WARP_TAU (pll_theta (pll_out pll) + hl_polar_offset lo), ho_est_omega := pll_omega (pll_out pll)\<rparr>\<rparr>)"

definition hfi_exec :: "libm \<Rightarrow> hfi_obs_t \<Rightarrow> hfi_obs_t" where
  "hfi_exec L hfi = hfi_track L (hfi_polar_idf (hfi_inject L hfi))"

definition hfi_exec_in :: "libm \<Rightarrow> hfi_obs_t \<Rightarrow> f32_dq_t \<Rightarrow> hfi_obs_t" where
  "hfi_exec_in L hfi i_dq = hfi_exec L (hfi\<lparr>hfi_i_dq := i_dq\<rparr>)"

subsection \<open>Lemmas\<close>

lemma smo_angle: "angle_ok (so_est_theta (smo_out (smo_exec_in L smo i v)))"
  by (simp add: smo_exec_in_def smo_exec_def Let_def)

lemma lbg_angle: "angle_ok (lo_est_theta (lbg_out (lbg_exec_in lbg theta t)))"
  by (simp add: lbg_exec_in_def lbg_exec_def Let_def)

lemma hfi_angle: "angle_ok (ho_est_theta (hfi_out (hfi_exec_in L hfi i)))"
  by (simp add: hfi_exec_in_def hfi_exec_def hfi_track_def Let_def)

lemma lbg_load_bounded:
  assumes "0 \<le> mc_max_tor (lb_motor (lbg_cfg lbg))"
  shows "- mc_max_tor (lb_motor (lbg_cfg lbg)) \<le> lo_est_load_tor (lbg_out (lbg_exec_in lbg theta t))"
    "lo_est_load_tor (lbg_out (lbg_exec_in lbg theta t)) \<le> mc_max_tor (lb_motor (lbg_cfg lbg))"
proof -
  let ?m = "mc_max_tor (lb_motor (lbg_cfg lbg))"
  have "\<not> is_nan ?m" "0 \<le> f32_int ?m" using assms by (auto simp: less_eq_f32_def)
  then have n: "- ?m \<le> ?m" by (simp add: less_eq_f32_def)
  have c: "lbg_cfg (lbg_cfg_check l) = lbg_cfg l" for l by (simp add: lbg_cfg_check_def lbg_init_def)
  have neg: "- ?m \<le> - x \<and> - x \<le> ?m" if "- ?m \<le> x" "x \<le> ?m" for x using that by (auto simp: less_eq_f32_def)
  show "- ?m \<le> lo_est_load_tor (lbg_out (lbg_exec_in lbg theta t))" "lo_est_load_tor (lbg_out (lbg_exec_in lbg theta t)) \<le> ?m"
    using CLAMP_range [OF n] neg by (simp_all add: lbg_exec_in_def lbg_exec_def Let_def c)
qed

text \<open>What the two stages keep, and what the polarity step does.\<close>

definition polar_view :: "hfi_obs_t \<Rightarrow> polar_idf_e \<times> u32 \<times> f32 \<times> f32 \<times> hfi_cfg_t" where
  "polar_view h = (hl_polar_idf (hfi_lo h), hl_polar_cnt (hfi_lo h), hl_polar_offset (hfi_lo h), ho_id (hfi_out h), hfi_cfg h)"

lemma polar_view_stages: "polar_view (hfi_inject L (h\<lparr>hfi_i_dq := i\<rparr>)) = polar_view h" "polar_view (hfi_track L h) = polar_view h"
  by (simp_all add: polar_view_def hfi_inject_def hfi_track_def Let_def)

lemma polar_view_exec: "polar_view (hfi_exec_in L h i) = polar_view (hfi_polar_idf (hfi_inject L (h\<lparr>hfi_i_dq := i\<rparr>)))"
  by (simp only: hfi_exec_in_def hfi_exec_def polar_view_stages)

definition polar_next :: "u32 \<Rightarrow> polar_idf_e \<times> u32 \<Rightarrow> polar_idf_e \<times> u32" where
  "polar_next c = (\<lambda>(e, cnt). case e of
      HFI_POLAR_IDF_READY \<Rightarrow> (if cnt = c * 1 then HFI_POLAR_IDF_POSITIVE else HFI_POLAR_IDF_READY, cnt + 1)
    | HFI_POLAR_IDF_POSITIVE \<Rightarrow> (if cnt = c * 2 then HFI_POLAR_IDF_NEGATIVE else HFI_POLAR_IDF_POSITIVE, cnt + 1)
    | HFI_POLAR_IDF_NEGATIVE \<Rightarrow> (if cnt = c * 3 then HFI_POALR_IDF_FINISH else HFI_POLAR_IDF_NEGATIVE, cnt + 1)
    | HFI_POALR_IDF_FINISH \<Rightarrow> (HFI_POALR_IDF_FINISH, 0))"

definition polar_id :: "hfi_cfg_t \<Rightarrow> f32 \<Rightarrow> polar_idf_e \<Rightarrow> f32" where
  "polar_id cfg old e = (case e of HFI_POLAR_IDF_READY \<Rightarrow> old | HFI_POLAR_IDF_POSITIVE \<Rightarrow> hc_hfi_id cfg
    | HFI_POLAR_IDF_NEGATIVE \<Rightarrow> - hc_hfi_id cfg | HFI_POALR_IDF_FINISH \<Rightarrow> 0)"

lemma polar_view_idf:
  assumes "polar_view h = (e, cnt, off, i, cfg)"
  shows "\<exists>off'. polar_view (hfi_polar_idf h) = (fst (polar_next (hc_polar_cnt_max cfg) (e, cnt)), snd (polar_next (hc_polar_cnt_max cfg) (e, cnt)), off', polar_id cfg i e, cfg) \<and>
    (fst (polar_next (hc_polar_cnt_max cfg) (e, cnt)) = HFI_POALR_IDF_FINISH \<longrightarrow> off' = 0 \<or> off' = PI \<or> (e = HFI_POALR_IDF_FINISH \<and> off' = off))"
  using assms by (cases e) (auto simp: polar_view_def hfi_polar_idf_def polar_next_def polar_id_def Let_def)

lemma polar_view_step:
  assumes "polar_view h = (e, cnt, off, i, cfg)"
  shows "\<exists>off'. polar_view (hfi_exec_in L h x) = (fst (polar_next (hc_polar_cnt_max cfg) (e, cnt)), snd (polar_next (hc_polar_cnt_max cfg) (e, cnt)), off', polar_id cfg i e, cfg) \<and>
    (fst (polar_next (hc_polar_cnt_max cfg) (e, cnt)) = HFI_POALR_IDF_FINISH \<longrightarrow> off' = 0 \<or> off' = PI \<or> (e = HFI_POALR_IDF_FINISH \<and> off' = off))"
  unfolding polar_view_exec by (rule polar_view_idf) (simp add: polar_view_stages assms)

definition polar_at :: "nat \<Rightarrow> nat \<Rightarrow> polar_idf_e" where
  "polar_at c n = (if n \<le> c then HFI_POLAR_IDF_READY else if n \<le> 2 * c then HFI_POLAR_IDF_POSITIVE
     else if n \<le> 3 * c then HFI_POLAR_IDF_NEGATIVE else HFI_POALR_IDF_FINISH)"

lemma of_nat_eq_u32: "a < 2 ^ 32 \<Longrightarrow> b < 2 ^ 32 \<Longrightarrow> ((of_nat a :: u32) = of_nat b) = (a = b)"
  by (simp add: word_unat_eq_iff unsigned_of_nat take_bit_nat_eq_self)

lemma polar_next_at:
  assumes "0 < c" "3 * c < 2 ^ 32" "cnt = (if n \<le> 3 * c then of_nat n else cnt)" "cm = (of_nat c :: u32)"
  shows "fst (polar_next cm (polar_at c n, cnt)) = polar_at c (Suc n)" "n < 3 * c \<Longrightarrow> snd (polar_next cm (polar_at c n, cnt)) = of_nat (Suc n)"
proof -
  have w: "cm * 1 = of_nat c" "cm * 2 = of_nat (2 * c)" "cm * 3 = of_nat (3 * c)" using assms(4) by simp_all
  have e: "(of_nat n :: u32) = of_nat c \<longleftrightarrow> n = c" "(of_nat n :: u32) = of_nat (2 * c) \<longleftrightarrow> n = 2 * c" "(of_nat n :: u32) = of_nat (3 * c) \<longleftrightarrow> n = 3 * c" if "n \<le> 3 * c"
    using that assms(1,2) by (intro of_nat_eq_u32; linarith)+
  have cn: "cnt = of_nat n" if "n \<le> 3 * c" using assms(3) that by simp
  consider "n \<le> c" | "c < n" "n \<le> 2 * c" | "2 * c < n" "n \<le> 3 * c" | "3 * c < n" by linarith
  then show "fst (polar_next cm (polar_at c n, cnt)) = polar_at c (Suc n)"
    using assms(1) e cn unfolding polar_next_def w by cases (auto simp: polar_at_def)
  show "snd (polar_next cm (polar_at c n, cnt)) = of_nat (Suc n)" if "n < 3 * c"
    using that cn by (auto simp: polar_next_def polar_at_def add.commute)
qed

lemma polar_run:
  assumes h: "polar_view h = (HFI_POLAR_IDF_READY, 0, off, i, cfg)" and c: "hc_polar_cnt_max cfg = of_nat c" "0 < c" "3 * c < 2 ^ 32"
  shows "\<exists>cnt off' i'. polar_view (foldl (hfi_exec_in L) h xs) = (polar_at c (length xs), cnt, off', i', cfg) \<and>
    (length xs \<le> 3 * c \<longrightarrow> cnt = of_nat (length xs)) \<and> (3 * c < length xs \<longrightarrow> off' = 0 \<or> off' = PI) \<and>
    i' = (if xs = [] then i else polar_id cfg i (polar_at c (length xs - 1)))"
proof (induction xs rule: rev_induct)
  case Nil
  then show ?case using h by (simp add: polar_at_def)
next
  case (snoc x xs)
  let ?n = "length xs" and ?h = "foldl (hfi_exec_in L) h xs"
  obtain cnt off' i' where v: "polar_view ?h = (polar_at c ?n, cnt, off', i', cfg)" "?n \<le> 3 * c \<longrightarrow> cnt = of_nat ?n" "3 * c < ?n \<longrightarrow> off' = 0 \<or> off' = PI"
    "i' = (if xs = [] then i else polar_id cfg i (polar_at c (?n - 1)))" using snoc by blast
  have cn: "cnt = (if ?n \<le> 3 * c then of_nat ?n else cnt)" using v(2) by simp
  note nx = polar_next_at [OF c(2,3) cn c(1)]
  obtain off2 where s: "polar_view (hfi_exec_in L ?h x) = (polar_at c (Suc ?n), snd (polar_next (hc_polar_cnt_max cfg) (polar_at c ?n, cnt)), off2, polar_id cfg i' (polar_at c ?n), cfg)"
    "polar_at c (Suc ?n) = HFI_POALR_IDF_FINISH \<longrightarrow> off2 = 0 \<or> off2 = PI \<or> (polar_at c ?n = HFI_POALR_IDF_FINISH \<and> off2 = off')"
    using polar_view_step [OF v(1), of L x] nx(1) by auto
  have o: "off2 = 0 \<or> off2 = PI" if "3 * c < Suc ?n"
  proof -
    have "polar_at c (Suc ?n) = HFI_POALR_IDF_FINISH" using that c(2) by (auto simp: polar_at_def)
    moreover have "3 * c < ?n" if "polar_at c ?n = HFI_POALR_IDF_FINISH" using that by (auto simp: polar_at_def split: if_splits)
    ultimately show ?thesis using s(2) v(3) by blast
  qed
  have d: "polar_id cfg i' (polar_at c ?n) = polar_id cfg i (polar_at c ?n)"
  proof (cases "polar_at c ?n = HFI_POLAR_IDF_READY")
    case True
    then have "?n \<le> c" by (auto simp: polar_at_def split: if_splits)
    then have "?n - 1 \<le> c" by linarith
    then have "polar_at c (?n - 1) = HFI_POLAR_IDF_READY" by (simp add: polar_at_def)
    then have "i' = i" using v(4) by (simp add: polar_id_def)
    then show ?thesis by simp
  next
    case False
    then show ?thesis by (cases "polar_at c ?n") (simp_all add: polar_id_def)
  qed
  show ?case using s(1) o d nx(2) by auto
qed

subsection \<open>Properties\<close>

text \<open>C22: The polarity identification ends: from the start it waits for as many samples as configured and one more,
  injects the positive current for as many samples as configured, the negative one for as many, and is
  finished from then on, with the current off and the angle offset 0 or \<open>PI\<close>, whatever is measured.\<close>

theorem hfi_polarity_schedule:
  assumes "hl_polar_idf (hfi_lo h) = HFI_POLAR_IDF_READY" "hl_polar_cnt (hfi_lo h) = 0" "c = unat (hc_polar_cnt_max (hfi_cfg h))" "0 < c" "3 * c < 2 ^ 32"
  shows "let r = foldl (hfi_exec_in L) h xs; n = length xs in hl_polar_idf (hfi_lo r) = polar_at c n \<and>
    (0 < n \<longrightarrow> ho_id (hfi_out r) = polar_id (hfi_cfg h) (ho_id (hfi_out h)) (polar_at c (n - 1))) \<and>
    (3 * c < n \<longrightarrow> hl_polar_offset (hfi_lo r) = 0 \<or> hl_polar_offset (hfi_lo r) = PI)"
proof -
  have v: "polar_view h = (HFI_POLAR_IDF_READY, 0, hl_polar_offset (hfi_lo h), ho_id (hfi_out h), hfi_cfg h)"
    using assms(1,2) by (simp add: polar_view_def)
  have c: "hc_polar_cnt_max (hfi_cfg h) = of_nat c" using assms(3) by simp
  from polar_run [OF v c assms(4,5), of L xs] show ?thesis by (auto simp: polar_view_def Let_def)
qed

definition demo_pll :: pll_filter_t where
  "demo_pll = (let cfg = \<lparr>pll_fs = f32_of_int 1000, pll_wc = f32_of_int 50, pll_damp = 1, pll_lpf_fc = f32_of_int 10, pll_ffd_lpf_fc = 0, pll_kp = 0, pll_ki = 0\<rparr> in
     \<lparr>pll_cfg = cfg, pll_in = \<lparr>pll_ab = \<lparr>ab_a = 0, ab_b = 0\<rparr>, pll_in_theta = 0\<rparr>, pll_out = \<lparr>pll_theta = 0, pll_omega = 0, pll_lpf_omega = 0\<rparr>,
       pll_lo = \<lparr>pll_lo_cfg = cfg, pll_ki_out = 0, pll_prev_theta = 0, pll_theta_err = 0, pll_ffd_omega = 0, pll_lpf_ffd_omega = 0\<rparr>\<rparr>)"

definition demo_hfi :: hfi_obs_t where
  "demo_hfi = \<lparr>hfi_cfg = \<lparr>hc_fs = f32_of_int 6, hc_fh = 1, hc_hfi_vd = 1, hc_hfi_id = 1, hc_id_lpf_fc = 1, hc_iq_lpf_fc = 1, hc_polar_cnt_max = 2\<rparr>,
     hfi_i_dq = \<lparr>dq_d = 0, dq_q = 0\<rparr>, hfi_out = \<lparr>ho_est_theta = 0, ho_est_omega = 0, ho_id = 0, ho_vd = 0\<rparr>,
     hfi_lo = \<lparr>hl_hfi_theta = 0, hl_hfi_id = 0, hl_hfi_iq = 0, hl_lpf_id = 0, hl_lpf_iq = 0, hl_polar_idf = HFI_POLAR_IDF_READY, hl_polar_cnt = 0,
       hl_id_pos = 0, hl_id_neg = 0, hl_polar_offset = 0, hl_id_bpf = demo_iir, hl_iq_bpf = demo_iir, hl_pll = demo_pll\<rparr>\<rparr>"

theorem hfi_polarity_schedule_witness:
  "let r = foldl (hfi_exec_in flat_libm) demo_hfi (replicate 7 \<lparr>dq_d = 1, dq_q = 0\<rparr>) in
     hl_polar_idf (hfi_lo r) = HFI_POALR_IDF_FINISH \<and> ho_id (hfi_out r) = - 1"
proof -
  have h: "hl_polar_idf (hfi_lo demo_hfi) = HFI_POLAR_IDF_READY" "hl_polar_cnt (hfi_lo demo_hfi) = 0" "2 = unat (hc_polar_cnt_max (hfi_cfg demo_hfi))"
    "hc_hfi_id (hfi_cfg demo_hfi) = 1" by (simp_all add: demo_hfi_def)
  show ?thesis using hfi_polarity_schedule [OF h(1-3), of flat_libm "replicate 7 \<lparr>dq_d = 1, dq_q = 0\<rparr>"] h(4)
    by (simp add: Let_def polar_at_def polar_id_def)
qed

end
