(* ===== verification/Pid.thy ===== *)
theory Pid
  imports Mathdef
begin

section \<open>PID controller (ctl/pid.h)\<close>

text \<open>The controller with its limits on the integral part and on the output; one call is one sample.\<close>

record pid_cfg_t =
  pc_fs :: f32
  pc_kp :: f32
  pc_ki :: f32
  pc_kd :: f32
  pc_ki_out_max :: f32
  pc_out_max :: f32

record pid_in_t =
  pi_ref :: f32
  pi_fdb :: f32
  pi_ffd :: f32

record pid_out_t =
  po_val :: f32

record pid_lo_t =
  pl_err :: f32
  pl_prev_err :: f32
  pl_kp_out :: f32
  pl_ki_out :: f32
  pl_kd_out :: f32

record pid_ctl_t =
  pid_cfg :: pid_cfg_t
  pid_in :: pid_in_t
  pid_out :: pid_out_t
  pid_lo :: pid_lo_t

definition pid_init :: "pid_ctl_t \<Rightarrow> pid_cfg_t \<Rightarrow> pid_ctl_t" where
  "pid_init pid cfg = pid\<lparr>pid_cfg := cfg\<rparr>"

definition pid_exec :: "pid_ctl_t \<Rightarrow> pid_ctl_t" where
  "pid_exec pid = (let
     cfg = pid_cfg pid; inp = pid_in pid; lo = pid_lo pid;
     err = pi_ref inp - pi_fdb inp;
     kp_out = pc_kp cfg * err;
     ki_out = CLAMP (INTEGRATOR (pl_ki_out lo) err (pc_ki cfg) (pc_fs cfg)) (- pc_ki_out_max cfg) (pc_ki_out_max cfg);
     kd_out = DERIVATIVE err (pl_prev_err lo) (pc_kd cfg) (pc_fs cfg);
     val = CLAMP (kp_out + ki_out + kd_out + pi_ffd inp) (- pc_out_max cfg) (pc_out_max cfg)
   in pid\<lparr>pid_lo := \<lparr>pl_err = err, pl_prev_err = err, pl_kp_out = kp_out, pl_ki_out = ki_out, pl_kd_out = kd_out\<rparr>,
          pid_out := \<lparr>po_val = val\<rparr>\<rparr>)"

definition pid_exec_in :: "pid_ctl_t \<Rightarrow> f32 \<Rightarrow> f32 \<Rightarrow> f32 \<Rightarrow> pid_ctl_t" where
  "pid_exec_in pid ref fdb ffd = pid_exec (pid\<lparr>pid_in := \<lparr>pi_ref = ref, pi_fdb = fdb, pi_ffd = ffd\<rparr>\<rparr>)"

lemma neg_le_self: "0 \<le> m \<Longrightarrow> - m \<le> m" for m :: f32
  by (simp add: less_eq_f32_def)

lemma pid_cfg_exec_in [simp]: "pid_cfg (pid_exec_in pid r f d) = pid_cfg pid"
  by (simp add: pid_exec_in_def pid_exec_def Let_def)

lemma pid_out_exec_in: "po_val (pid_out (pid_exec_in pid r f d)) = CLAMP (pl_kp_out (pid_lo (pid_exec_in pid r f d)) +
    pl_ki_out (pid_lo (pid_exec_in pid r f d)) + pl_kd_out (pid_lo (pid_exec_in pid r f d)) + d) (- pc_out_max (pid_cfg pid)) (pc_out_max (pid_cfg pid))"
  by (simp add: pid_exec_in_def pid_exec_def Let_def)

lemma pid_bounds:
  assumes "0 \<le> pc_out_max (pid_cfg pid)" "0 \<le> pc_ki_out_max (pid_cfg pid)"
  shows "- pc_out_max (pid_cfg pid) \<le> po_val (pid_out (pid_exec_in pid r f d))" "po_val (pid_out (pid_exec_in pid r f d)) \<le> pc_out_max (pid_cfg pid)"
    "- pc_ki_out_max (pid_cfg pid) \<le> pl_ki_out (pid_lo (pid_exec_in pid r f d))" "pl_ki_out (pid_lo (pid_exec_in pid r f d)) \<le> pc_ki_out_max (pid_cfg pid)"
  using CLAMP_range [OF neg_le_self [OF assms(1)]] CLAMP_range [OF neg_le_self [OF assms(2)]]
  by (simp_all add: pid_exec_in_def pid_exec_def Let_def)

lemma add_nan: "is_nan x \<or> is_nan y \<Longrightarrow> is_nan (x + y)" for x y :: f32
proof -
  have "is_nan F32_NAN" by code_simp
  then show "is_nan x \<or> is_nan y \<Longrightarrow> is_nan (x + y)" by (auto simp: plus_f32_def f32_add_def)
qed

lemma sub_nan: "is_nan x \<or> is_nan y \<Longrightarrow> is_nan (x - y)" for x y :: f32
  unfolding f32_sub_add by (rule add_nan) simp

lemma mul_nan: "is_nan x \<or> is_nan y \<Longrightarrow> is_nan (x * y)" for x y :: f32
proof -
  have "is_nan F32_NAN" by code_simp
  then show "is_nan x \<or> is_nan y \<Longrightarrow> is_nan (x * y)" by (auto simp: times_f32_def f32_mul_def)
qed

lemma CLAMP_nan: "is_nan x \<Longrightarrow> CLAMP x lo hi = hi"
  by (simp add: CLAMP_def F_MIN_def less_eq_f32_def less_f32_def)

text \<open>A controller at rest, with gains 2, 1/2 and 0, limits 10 and 3, sampled at 10 Hz.\<close>

definition demo_pid :: pid_ctl_t where
  "demo_pid = \<lparr>pid_cfg = \<lparr>pc_fs = f32_of_int 10, pc_kp = f32_of_int 2, pc_ki = f32_lit 1 2, pc_kd = 0, pc_ki_out_max = f32_of_int 3, pc_out_max = f32_of_int 10\<rparr>,
     pid_in = \<lparr>pi_ref = 0, pi_fdb = 0, pi_ffd = 0\<rparr>, pid_out = \<lparr>po_val = 0\<rparr>,
     pid_lo = \<lparr>pl_err = 0, pl_prev_err = 0, pl_kp_out = 0, pl_ki_out = 0, pl_kd_out = 0\<rparr>\<rparr>"

text \<open>C24: From every state and for all inputs, infinities and NaN included, the output stays within the output
  limit and the integral part within its own, for limits that are not negative; an input that is no
  number gives the positive limit.\<close>

theorem pid_output_bounded:
  assumes "0 \<le> pc_out_max (pid_cfg pid)" "0 \<le> pc_ki_out_max (pid_cfg pid)"
  shows "- pc_out_max (pid_cfg pid) \<le> po_val (pid_out (pid_exec_in pid ref fdb ffd)) \<and>
    po_val (pid_out (pid_exec_in pid ref fdb ffd)) \<le> pc_out_max (pid_cfg pid) \<and>
    - pc_ki_out_max (pid_cfg pid) \<le> pl_ki_out (pid_lo (pid_exec_in pid ref fdb ffd)) \<and>
    pl_ki_out (pid_lo (pid_exec_in pid ref fdb ffd)) \<le> pc_ki_out_max (pid_cfg pid) \<and>
    (is_nan ref \<or> is_nan fdb \<or> is_nan ffd \<longrightarrow> po_val (pid_out (pid_exec_in pid ref fdb ffd)) = pc_out_max (pid_cfg pid))"
proof -
  have "is_nan (pc_kp (pid_cfg pid) * (ref - fdb) + x + y + ffd)" if "is_nan ref \<or> is_nan fdb \<or> is_nan ffd" for x y
    using that by (intro add_nan) (auto intro!: add_nan mul_nan sub_nan)
  then have "po_val (pid_out (pid_exec_in pid ref fdb ffd)) = pc_out_max (pid_cfg pid)" if "is_nan ref \<or> is_nan fdb \<or> is_nan ffd"
    using that by (simp add: pid_exec_in_def pid_exec_def Let_def CLAMP_nan)
  then show ?thesis using pid_bounds [OF assms] by blast
qed

theorem pid_output_bounded_witness:
  "po_val (pid_out (pid_exec_in demo_pid (f32_of_int 100) 0 0)) \<le> f32_of_int 10 \<and> po_val (pid_out (pid_exec_in demo_pid F32_NAN 0 0)) = f32_of_int 10"
proof -
  have l: "0 \<le> pc_out_max (pid_cfg demo_pid)" "0 \<le> pc_ki_out_max (pid_cfg demo_pid)" "is_nan F32_NAN" "pc_out_max (pid_cfg demo_pid) = f32_of_int 10"
    unfolding demo_pid_def by code_simp+
  then show ?thesis
    using pid_output_bounded [OF l(1,2), of "f32_of_int 100" 0 0] pid_output_bounded [OF l(1,2), of F32_NAN 0 0] by simp
qed

end
