(* ===== verification/Clarke_Park.thy ===== *)
theory Clarke_Park
  imports Mathdef
begin

section \<open>Clarke and Park transforms (trans/clarkepark.h)\<close>

text \<open>The sine and the cosine are those of the math library.\<close>

definition clarke :: "f32_uvw_t \<Rightarrow> f32 \<Rightarrow> f32_ab_t" where
  "clarke abc mi = \<lparr>ab_a = mi * (uvw_u abc - F_HALF * (uvw_v abc + uvw_w abc)), ab_b = mi * (uvw_v abc - uvw_w abc) * DIV_SQRT_3_BY_2\<rparr>"

definition inv_clarke :: "f32_ab_t \<Rightarrow> f32_uvw_t" where
  "inv_clarke ab = (let a = - (ab_a ab * F_HALF); b = ab_b ab * DIV_SQRT_3_BY_2 in
     \<lparr>uvw_u = ab_a ab, uvw_v = a + b, uvw_w = a - b\<rparr>)"

definition park :: "libm \<Rightarrow> f32_ab_t \<Rightarrow> f32 \<Rightarrow> f32_dq_t" where
  "park L ab theta = \<lparr>dq_d = lm_cos L theta * ab_a ab + lm_sin L theta * ab_b ab, dq_q = lm_cos L theta * ab_b ab - lm_sin L theta * ab_a ab\<rparr>"

definition inv_park :: "libm \<Rightarrow> f32_dq_t \<Rightarrow> f32 \<Rightarrow> f32_ab_t" where
  "inv_park L dq theta = \<lparr>ab_a = lm_cos L theta * dq_d dq - lm_sin L theta * dq_q dq, ab_b = lm_sin L theta * dq_d dq + lm_cos L theta * dq_q dq\<rparr>"

end
