(* ===== verification/Foc_Types.thy ===== *)
theory Foc_Types
  imports Observers Pid Clarke_Park
begin

section \<open>Field-oriented control: state (foc/focdef.h)\<close>

text \<open>
  The configuration without its four function pointers: what the position sensor and the converter
  return is an argument of the step that reads them, and what the step tells the driver and the PWM
  unit is a list of events.
\<close>

record adc_raw_t =
  ar_i :: i32_uvw_t
  ar_v_bus :: int

record svpwm_t =
  sv_v_max :: f32
  sv_v_min :: f32
  sv_v_avg :: f32
  sv_f32_pwm_duty :: f32_uvw_t
  sv_u32_pwm_duty :: u32_uvw_t

datatype foc_state_e = FOC_STATE_NULL | FOC_STATE_CALI | FOC_STATE_READY | FOC_STATE_DISABLE | FOC_STATE_ENABLE

datatype foc_theta_e = FOC_THETA_NULL | FOC_THETA_FORCE | FOC_THETA_SENSOR | FOC_THETA_SENSORLESS | FOC_THETA_SENSORFUSION

datatype foc_obs_e = FOC_OBS_NULL | FOC_OBS_SMO | FOC_OBS_HFI | FOC_OBS_LBG

text \<open>Any other value of the integer type is the last constructor; of the other enumerations, the one whose
  name ends in \<open>NULL\<close>.\<close>

datatype foc_cali_e = FOC_CALI_INIT | FOC_CALI_CW | FOC_CALI_CCW | FOC_CALI_FINISH | FOC_CALI_OTHER

datatype foc_mode_e = FOC_MODE_NULL | FOC_MODE_VOL | FOC_MODE_CUR | FOC_MODE_VEL | FOC_MODE_POS | FOC_MODE_PD | FOC_MODE_ASC

record foc_ref_pvct_t =
  rp_pos :: f32
  rp_ffd_vel :: f32
  rp_vel :: f32
  rp_ffd_cur :: f32
  rp_cur :: f32
  rp_elec_tor :: f32

record foc_fdb_pvct_t =
  fp_pos :: f32
  fp_vel :: f32
  fp_cur :: f32
  fp_elec_tor :: f32
  fp_load_tor :: f32

record rotor_t =
  rt_theta :: f32
  rt_comp_theta :: f32
  rt_omega :: f32
  rt_force_theta :: f32
  rt_force_omega :: f32
  rt_sensor_theta :: f32
  rt_sensor_comp_theta :: f32
  rt_sensor_omega :: f32
  rt_obs_theta :: f32
  rt_obs_omega :: f32
  rt_fusion_theta_err :: f32
  rt_mech_cycle_cnt :: int
  rt_mech_theta :: f32
  rt_mech_prev_theta :: f32
  rt_mech_total_theta :: f32
  rt_mech_omega :: f32

record foc_cfg_t =
  fc_exec_freq :: f32
  fc_motor :: motor_cfg_t
  fc_periph :: periph_cfg_t
  fc_adc_offset :: adc_raw_t
  fc_theta_offset :: f32
  fc_ref_theta_cali_id :: f32
  fc_ref_theta_cali_omega :: f32
  fc_sensor_theta_comp_gain :: f32
  fc_theta_comp_gain :: f32
  fc_vel_cfg :: pid_cfg_t
  fc_pos_cfg :: pid_cfg_t
  fc_pd_cfg :: pid_cfg_t
  fc_cur_div :: u32
  fc_vel_div :: u32
  fc_pos_div :: u32
  fc_pd_div :: u32

record foc_in_t =
  fi_adc_raw :: adc_raw_t
  fi_v_bus :: f32
  fi_rotor :: rotor_t
  fi_f32_i_uvw :: f32_uvw_t
  fi_i_ab :: f32_ab_t
  fi_i_dq :: f32_dq_t

record foc_out_t =
  fo_v_dq :: f32_dq_t
  fo_v_ab :: f32_ab_t
  fo_v_ab_sv :: f32_ab_t
  fo_f32_v_uvw :: f32_uvw_t
  fo_svpwm :: svpwm_t

record foc_fault_t =
  ff_NULL_FUNC_PTR :: bool

record foc_lo_t =
  fl_elapsed_us :: f32
  fl_exec_cnt :: u32
  fl_adc_cali_cnt :: u32
  fl_theta_cali_cnt :: u32
  fl_theta_cali_hold_cnt :: u32
  fl_theta_offset_sum :: f32
  fl_ref_pvct :: foc_ref_pvct_t
  fl_fdb_pvct :: foc_fdb_pvct_t
  fl_ref_i_dq :: f32_dq_t
  fl_comp_i_dq :: f32_dq_t
  fl_ffd_v_dq :: f32_dq_t
  fl_fault :: foc_fault_t
  fl_e_state :: foc_state_e
  fl_e_theta :: foc_theta_e
  fl_e_mode :: foc_mode_e
  fl_e_last_mode :: foc_mode_e
  fl_e_obs :: foc_obs_e
  fl_e_cali :: foc_cali_e
  fl_id_pid :: pid_ctl_t
  fl_iq_pid :: pid_ctl_t
  fl_vel_pid :: pid_ctl_t
  fl_pos_pid :: pid_ctl_t
  fl_pd_pid :: pid_ctl_t
  fl_cur_div_cnt :: u32
  fl_vel_div_cnt :: u32
  fl_pos_div_cnt :: u32
  fl_pd_div_cnt :: u32
  fl_pll :: pll_filter_t
  fl_smo :: smo_obs_t
  fl_hfi :: hfi_obs_t
  fl_lbg :: lbg_obs_t

record foc_t =
  foc_cfg :: foc_cfg_t
  foc_in :: foc_in_t
  foc_out :: foc_out_t
  foc_lo :: foc_lo_t

text \<open>What the code tells the hardware through \<open>f_set_drv\<close> and \<open>f_set_pwm\<close>.\<close>

datatype foc_event = SetDrv bool | SetPwm u32 u32_uvw_t

end
