(* ===== verification/Foc_Ctl.thy ===== *)
theory Foc_Ctl
  imports Foc_Types
begin

section \<open>Field-oriented control: loops, observers and modulation (foc/focctl.h, foc/focobs.h, foc/focstate.h)\<close>

text \<open>The control loops run at their own divisions of the sampling rate. The parts that write the
  configuration, the inputs, the outputs or the local state are functions of the whole state.\<close>

subsection \<open>Control loops\<close>

definition foc_select_mode :: "foc_t \<Rightarrow> foc_t" where
  "foc_select_mode foc = (let lo = foc_lo foc; ref = fl_ref_pvct lo in
     if fl_e_mode lo = fl_e_last_mode lo then foc
     else foc\<lparr>foc_lo := lo\<lparr>fl_ref_pvct := (case fl_e_mode lo of
         FOC_MODE_CUR \<Rightarrow> ref\<lparr>rp_cur := 0\<rparr>
       | FOC_MODE_VEL \<Rightarrow> ref\<lparr>rp_vel := 0\<rparr>
       | FOC_MODE_POS \<Rightarrow> ref\<lparr>rp_pos := fp_pos (fl_fdb_pvct lo)\<rparr>
       | FOC_MODE_PD \<Rightarrow> ref\<lparr>rp_pos := fp_pos (fl_fdb_pvct lo)\<rparr>
       | _ \<Rightarrow> ref), fl_e_last_mode := fl_e_mode lo\<rparr>\<rparr>)"

definition foc_vol_ctl :: "foc_t \<Rightarrow> foc_t" where
  "foc_vol_ctl foc = foc"

definition pid_set_max :: "pid_ctl_t \<Rightarrow> f32 \<Rightarrow> pid_ctl_t" where
  "pid_set_max pid m = pid\<lparr>pid_cfg := (pid_cfg pid)\<lparr>pc_ki_out_max := m, pc_out_max := m\<rparr>\<rparr>"

definition foc_cur_ctl :: "foc_t \<Rightarrow> foc_t" where
  "foc_cur_ctl foc = (let cfg = foc_cfg foc; inp = foc_in foc; out = foc_out foc; lo = foc_lo foc; cnt = fl_cur_div_cnt lo + 1 in
     if cnt < fc_cur_div cfg then foc\<lparr>foc_lo := lo\<lparr>fl_cur_div_cnt := cnt\<rparr>\<rparr>
     else (let
       ref_q = rp_cur (fl_ref_pvct lo) + dq_q (fl_comp_i_dq lo);
       vmax = fi_v_bus inp / SQRT_3 * pf_f32_pwm_max (fc_periph cfg);
       omega = rt_omega (fi_rotor inp);
       ffd_q = omega * mc_psi (fc_motor cfg) * f32_lit 7 10;
       iq_pid = pid_exec_in (pid_set_max (fl_iq_pid lo) vmax) ref_q (dq_q (fi_i_dq inp)) ffd_q;
       ffd_d = - omega * mc_lq (fc_motor cfg) * dq_q (fi_i_dq inp) * f32_lit 7 10;
       id_pid = pid_exec_in (pid_set_max (fl_id_pid lo) vmax) (dq_d (fl_ref_i_dq lo)) (dq_d (fi_i_dq inp)) ffd_d
     in foc\<lparr>foc_lo := lo\<lparr>fl_cur_div_cnt := 0, fl_ref_i_dq := (fl_ref_i_dq lo)\<lparr>dq_q := ref_q\<rparr>, fl_ffd_v_dq := \<lparr>dq_d = ffd_d, dq_q = ffd_q\<rparr>,
              fl_iq_pid := iq_pid, fl_id_pid := id_pid\<rparr>,
            foc_out := out\<lparr>fo_v_dq := \<lparr>dq_d = po_val (pid_out id_pid), dq_q = po_val (pid_out iq_pid)\<rparr>\<rparr>\<rparr>))"

definition foc_vel_ctl :: "foc_t \<Rightarrow> foc_t" where
  "foc_vel_ctl foc = (let lo = foc_lo foc; cnt = fl_vel_div_cnt lo + 1; ref = fl_ref_pvct lo in
     if cnt < fc_vel_div (foc_cfg foc) then foc\<lparr>foc_lo := lo\<lparr>fl_vel_div_cnt := cnt\<rparr>\<rparr>
     else (let pid = pid_exec_in (fl_vel_pid lo) (rp_vel ref) (fp_vel (fl_fdb_pvct lo)) (rp_ffd_cur ref) in
       foc\<lparr>foc_lo := lo\<lparr>fl_vel_div_cnt := 0, fl_vel_pid := pid, fl_ref_pvct := ref\<lparr>rp_cur := po_val (pid_out pid)\<rparr>\<rparr>\<rparr>))"

definition foc_pos_ctl :: "foc_t \<Rightarrow> foc_t" where
  "foc_pos_ctl foc = (let lo = foc_lo foc; cnt = fl_pos_div_cnt lo + 1; ref = fl_ref_pvct lo in
     if cnt < fc_pos_div (foc_cfg foc) then foc\<lparr>foc_lo := lo\<lparr>fl_pos_div_cnt := cnt\<rparr>\<rparr>
     else (let pid = pid_exec_in (fl_pos_pid lo) (rp_pos ref) (fp_pos (fl_fdb_pvct lo)) (rp_ffd_vel ref) in
       foc\<lparr>foc_lo := lo\<lparr>fl_pos_div_cnt := 0, fl_pos_pid := pid, fl_ref_pvct := ref\<lparr>rp_vel := po_val (pid_out pid)\<rparr>\<rparr>\<rparr>))"

definition foc_pd_ctl :: "foc_t \<Rightarrow> foc_t" where
  "foc_pd_ctl foc = (let lo = foc_lo foc; cnt = fl_pd_div_cnt lo + 1; ref = fl_ref_pvct lo; fdb = fl_fdb_pvct lo; cfg = pid_cfg (fl_pd_pid lo) in
     if cnt < fc_pd_div (foc_cfg foc) then foc\<lparr>foc_lo := lo\<lparr>fl_pd_div_cnt := cnt\<rparr>\<rparr>
     else foc\<lparr>foc_lo := lo\<lparr>fl_pd_div_cnt := 0, fl_ref_pvct := ref\<lparr>rp_cur :=
       pc_kp cfg * (rp_pos ref - fp_pos fdb) + pc_kd cfg * (rp_vel ref - fp_vel fdb) + rp_elec_tor ref\<rparr>\<rparr>\<rparr>)"

subsection \<open>Observers\<close>

definition foc_obs_i_ab :: "libm \<Rightarrow> foc_t \<Rightarrow> foc_t" where
  "foc_obs_i_ab L foc = (let inp = foc_in foc; lo = foc_lo foc in
     case fl_e_obs lo of
       FOC_OBS_SMO \<Rightarrow> (let smo = smo_exec_in L (fl_smo lo) (fi_i_ab inp) (fo_v_ab (foc_out foc)) in
         foc\<lparr>foc_lo := lo\<lparr>fl_smo := smo\<rparr>,
             foc_in := inp\<lparr>fi_rotor := (fi_rotor inp)\<lparr>rt_obs_theta := so_est_theta (smo_out smo), rt_obs_omega := so_est_omega (smo_out smo)\<rparr>\<rparr>\<rparr>)
     | _ \<Rightarrow> foc)"

definition foc_obs_i_dq :: "libm \<Rightarrow> foc_t \<Rightarrow> foc_t option" where
  "foc_obs_i_dq L foc = (let cfg = foc_cfg foc; inp = foc_in foc; lo = foc_lo foc in
     case fl_e_obs lo of
       FOC_OBS_HFI \<Rightarrow>
         (if fl_e_state lo \<noteq> FOC_STATE_ENABLE then Some foc
          else (let hfi = hfi_exec_in L (fl_hfi lo) (fi_i_dq inp) in
            Some (foc\<lparr>foc_lo := lo\<lparr>fl_hfi := hfi, fl_ref_i_dq := (fl_ref_i_dq lo)\<lparr>dq_d := ho_id (hfi_out hfi)\<rparr>\<rparr>,
              foc_in := inp\<lparr>fi_rotor := (fi_rotor inp)\<lparr>rt_obs_theta := ho_est_theta (hfi_out hfi), rt_obs_omega := ho_est_omega (hfi_out hfi)\<rparr>\<rparr>\<rparr>)))
     | FOC_OBS_LBG \<Rightarrow> do {
         let lbg = lbg_exec_in (fl_lbg lo) (rt_theta (fi_rotor inp)) (fp_elec_tor (fl_fdb_pvct lo));
         let load = lo_est_load_tor (lbg_out lbg);
         cur \<leftarrow> poly_eval (mc_tor2cur (fc_motor cfg)) 3 \<bar>load\<bar>;
         Some (foc\<lparr>foc_lo := lo\<lparr>fl_lbg := lbg, fl_fdb_pvct := (fl_fdb_pvct lo)\<lparr>fp_load_tor := load\<rparr>,
             fl_comp_i_dq := (fl_comp_i_dq lo)\<lparr>dq_q := f32_copysign cur load\<rparr>\<rparr>,
           foc_in := inp\<lparr>fi_rotor := (fi_rotor inp)\<lparr>rt_obs_theta := lo_est_theta (lbg_out lbg), rt_obs_omega := lo_est_omega (lbg_out lbg)\<rparr>\<rparr>\<rparr>) }
     | _ \<Rightarrow> Some foc)"

definition foc_obs_v_dq :: "foc_t \<Rightarrow> foc_t" where
  "foc_obs_v_dq foc = (let out = foc_out foc; lo = foc_lo foc in
     case fl_e_obs lo of
       FOC_OBS_HFI \<Rightarrow> foc\<lparr>foc_out := out\<lparr>fo_v_dq := (fo_v_dq out)\<lparr>dq_d := dq_d (fo_v_dq out) + ho_vd (hfi_out (fl_hfi lo))\<rparr>\<rparr>\<rparr>
     | _ \<Rightarrow> foc)"

subsection \<open>Modulation\<close>

definition svpwm_extremes :: "f32_uvw_t \<Rightarrow> f32 \<times> f32" where
  "svpwm_extremes x = (let
     (v_max, v_min) = (if uvw_v x < uvw_u x then (uvw_u x, uvw_v x) else (uvw_v x, uvw_u x))
   in if uvw_w x < v_min then (v_max, uvw_w x) else if v_max < uvw_w x then (uvw_w x, v_min) else (v_max, v_min))"

text \<open>The duty of one phase in steps of the timer. \<open>None\<close>: the conversion to a 32-bit number is undefined.\<close>

definition duty_cnt :: "f32 \<Rightarrow> u32 \<Rightarrow> u32 option" where
  "duty_cnt duty full = f32_to_u32 (duty * f32_of_u32 full)"

definition foc_svpwm :: "foc_t \<Rightarrow> foc_t option" where
  "foc_svpwm foc = do {
     let out = foc_out foc; let p = fc_periph (foc_cfg foc);
     let uvw = inv_clarke (fo_v_ab_sv out);
     let (v_max, v_min) = svpwm_extremes uvw;
     let v_avg = F_HALF * (v_max + v_min);
     let duty = UVW_CLAMP (UVW_ADD_IP (UVW_ADD uvw (- v_avg)) F_HALF) (pf_f32_pwm_min p) (pf_f32_pwm_max p);
     u \<leftarrow> duty_cnt (uvw_u duty) (pf_pwm_full_cnt p);
     v \<leftarrow> duty_cnt (uvw_v duty) (pf_pwm_full_cnt p);
     w \<leftarrow> duty_cnt (uvw_w duty) (pf_pwm_full_cnt p);
     Some (foc\<lparr>foc_out := out\<lparr>fo_f32_v_uvw := uvw, fo_svpwm := \<lparr>sv_v_max = v_max, sv_v_min = v_min, sv_v_avg = v_avg,
       sv_f32_pwm_duty = duty, sv_u32_pwm_duty = \<lparr>uuvw_u = u, uuvw_v = v, uuvw_w = w\<rparr>\<rparr>\<rparr>\<rparr>) }"

subsection \<open>States\<close>

definition foc_select_theta :: "foc_t \<Rightarrow> foc_t" where
  "foc_select_theta foc = (let inp = foc_in foc; r = fi_rotor inp in
     foc\<lparr>foc_in := inp\<lparr>fi_rotor := (case fl_e_theta (foc_lo foc) of
         FOC_THETA_FORCE \<Rightarrow> r\<lparr>rt_theta := rt_force_theta r, rt_omega := rt_force_omega r\<rparr>
       | FOC_THETA_SENSOR \<Rightarrow> r\<lparr>rt_theta := rt_sensor_theta r, rt_omega := rt_sensor_omega r\<rparr>
       | FOC_THETA_SENSORLESS \<Rightarrow> r\<lparr>rt_theta := rt_obs_theta r, rt_omega := rt_obs_omega r\<rparr>
       | _ \<Rightarrow> r)\<rparr>\<rparr>)"

definition foc_ready :: "foc_t \<Rightarrow> foc_t" where
  "foc_ready foc = foc"

definition out_zero :: foc_out_t where
  "out_zero = \<lparr>fo_v_dq = \<lparr>dq_d = 0, dq_q = 0\<rparr>, fo_v_ab = \<lparr>ab_a = 0, ab_b = 0\<rparr>, fo_v_ab_sv = \<lparr>ab_a = 0, ab_b = 0\<rparr>,
     fo_f32_v_uvw = \<lparr>uvw_u = 0, uvw_v = 0, uvw_w = 0\<rparr>,
     fo_svpwm = \<lparr>sv_v_max = 0, sv_v_min = 0, sv_v_avg = 0, sv_f32_pwm_duty = \<lparr>uvw_u = 0, uvw_v = 0, uvw_w = 0\<rparr>, sv_u32_pwm_duty = \<lparr>uuvw_u = 0, uuvw_v = 0, uuvw_w = 0\<rparr>\<rparr>\<rparr>"

definition foc_disable :: "foc_t \<Rightarrow> foc_t \<times> foc_event list" where
  "foc_disable foc = (let inp = foc_in foc; lo = foc_lo foc in
     (foc\<lparr>foc_in := inp\<lparr>fi_i_ab := \<lparr>ab_a = 0, ab_b = 0\<rparr>, fi_i_dq := \<lparr>dq_d = 0, dq_q = 0\<rparr>, fi_f32_i_uvw := \<lparr>uvw_u = 0, uvw_v = 0, uvw_w = 0\<rparr>\<rparr>,
          foc_out := out_zero,
          foc_lo := lo\<lparr>fl_id_pid := (fl_id_pid lo)\<lparr>pid_out := \<lparr>po_val = 0\<rparr>\<rparr>, fl_iq_pid := (fl_iq_pid lo)\<lparr>pid_out := \<lparr>po_val = 0\<rparr>\<rparr>,
            fl_smo := (fl_smo lo)\<lparr>smo_out := \<lparr>so_est_theta = 0, so_est_omega = 0\<rparr>\<rparr>,
            fl_hfi := (fl_hfi lo)\<lparr>hfi_out := \<lparr>ho_est_theta = 0, ho_est_omega = 0, ho_id = 0, ho_vd = 0\<rparr>\<rparr>\<rparr>\<rparr>,
      [SetDrv False]))"

text \<open>Sampling: the offset is subtracted from the reading. \<open>None\<close>: a signed difference overflows.\<close>

definition foc_sample :: "foc_t \<Rightarrow> adc_raw_t \<Rightarrow> foc_t option" where
  "foc_sample foc adc = do {
     let cfg = foc_cfg foc; let inp = foc_in foc; let off = ar_i (fc_adc_offset cfg); let p = fc_periph cfg;
     u \<leftarrow> i32_ok (iuvw_u (ar_i adc) - iuvw_u off);
     v \<leftarrow> i32_ok (iuvw_v (ar_i adc) - iuvw_v off);
     w \<leftarrow> i32_ok (iuvw_w (ar_i adc) - iuvw_w off);
     let i_uvw = \<lparr>uvw_u = f32_of_int u * pf_adc2cur p, uvw_v = f32_of_int v * pf_adc2cur p, uvw_w = f32_of_int w * pf_adc2cur p\<rparr>;
     Some (foc\<lparr>foc_in := inp\<lparr>fi_adc_raw := adc\<lparr>ar_i := \<lparr>iuvw_u = u, iuvw_v = v, iuvw_w = w\<rparr>\<rparr>, fi_f32_i_uvw := i_uvw,
       fi_v_bus := f32_of_int (ar_v_bus adc) * pf_adc2vbus p, fi_i_ab := clarke i_uvw (pf_mi p)\<rparr>\<rparr>) }"

definition foc_elec_tor :: "foc_t \<Rightarrow> foc_t option" where
  "foc_elec_tor foc = do {
     let q = dq_q (fi_i_dq (foc_in foc)); let lo = foc_lo foc;
     tor \<leftarrow> poly_eval (mc_cur2tor (fc_motor (foc_cfg foc))) 3 \<bar>q\<bar>;
     Some (foc\<lparr>foc_lo := lo\<lparr>fl_fdb_pvct := (fl_fdb_pvct lo)\<lparr>fp_elec_tor := f32_copysign tor q\<rparr>\<rparr>\<rparr>) }"

definition foc_run_mode :: "foc_t \<Rightarrow> foc_t" where
  "foc_run_mode foc = (case fl_e_mode (foc_lo foc) of
       FOC_MODE_VOL \<Rightarrow> foc_vol_ctl foc
     | FOC_MODE_CUR \<Rightarrow> foc_vol_ctl (foc_cur_ctl foc)
     | FOC_MODE_VEL \<Rightarrow> foc_vol_ctl (foc_cur_ctl (foc_vel_ctl foc))
     | FOC_MODE_POS \<Rightarrow> foc_vol_ctl (foc_cur_ctl (foc_vel_ctl (foc_pos_ctl foc)))
     | FOC_MODE_PD \<Rightarrow> foc_vol_ctl (foc_cur_ctl (foc_pd_ctl foc))
     | FOC_MODE_ASC \<Rightarrow> foc_vol_ctl (foc_cur_ctl foc)
     | FOC_MODE_NULL \<Rightarrow> foc)"

definition foc_park :: "libm \<Rightarrow> foc_t \<Rightarrow> foc_t" where
  "foc_park L foc = (let inp = foc_in foc in foc\<lparr>foc_in := inp\<lparr>fi_i_dq := park L (fi_i_ab inp) (rt_theta (fi_rotor inp))\<rparr>\<rparr>)"

definition foc_fusion_err :: "foc_t \<Rightarrow> foc_t" where
  "foc_fusion_err foc = (let inp = foc_in foc; r = fi_rotor inp in
     foc\<lparr>foc_in := inp\<lparr>fi_rotor := r\<lparr>rt_fusion_theta_err := WARP_PI (rt_sensor_theta r - rt_obs_theta r)\<rparr>\<rparr>\<rparr>)"

definition foc_inv_park :: "libm \<Rightarrow> foc_t \<Rightarrow> foc_t" where
  "foc_inv_park L foc = (let cfg = foc_cfg foc; inp = foc_in foc; out = foc_out foc; r = fi_rotor inp;
     comp = fc_theta_comp_gain cfg * rt_omega r / fc_exec_freq cfg;
     ab = inv_park L (fo_v_dq out) (rt_theta r + comp)
   in foc\<lparr>foc_in := inp\<lparr>fi_rotor := r\<lparr>rt_comp_theta := comp\<rparr>\<rparr>,
          foc_out := out\<lparr>fo_v_ab := ab, fo_v_ab_sv := \<lparr>ab_a = ab_a ab / fi_v_bus inp, ab_b = ab_b ab / fi_v_bus inp\<rparr>\<rparr>\<rparr>)"

definition foc_enable :: "libm \<Rightarrow> foc_t \<Rightarrow> adc_raw_t \<Rightarrow> (foc_t \<times> foc_event list) option" where
  "foc_enable L foc adc = do {
     foc \<leftarrow> foc_sample foc adc;
     let foc = foc_park L (foc_select_theta (foc_obs_i_ab L foc));
     foc \<leftarrow> foc_elec_tor foc;
     foc \<leftarrow> foc_obs_i_dq L foc;
     let foc = foc_obs_v_dq (foc_run_mode (foc_select_mode (foc_fusion_err foc)));
     foc \<leftarrow> foc_svpwm (foc_inv_park L foc);
     Some (foc, [SetDrv True, SetPwm (pf_pwm_full_cnt (fc_periph (foc_cfg foc))) (sv_u32_pwm_duty (fo_svpwm (foc_out foc)))]) }"

end
