(* ===== verification/Foc.thy ===== *)
theory Foc
  imports Foc_Ctl Bitops
begin

section \<open>Field-oriented control: calibration and the step (foc/foccali.h, foc/foc.h)\<close>

text \<open>
  Calibration averages the current converters at rest, then turns the rotor forward and back by force
  and averages the angle sensor. One step reads the position sensor once and the converters at most
  once. \<open>None\<close> is undefined behaviour: a signed overflow, a division by zero, a conversion out of
  range.
\<close>

subsection \<open>Calibration\<close>

definition foc_adc_cali :: "foc_t \<Rightarrow> adc_raw_t \<Rightarrow> (foc_t \<times> foc_event list \<times> int) option" where
  "foc_adc_cali foc adc = do {
     let cfg = foc_cfg foc; let off = ar_i (fc_adc_offset cfg); let k = pf_adc_cali_cnt_max (fc_periph cfg);
     u \<leftarrow> i32_ok (iuvw_u off + iuvw_u (ar_i adc));
     v \<leftarrow> i32_ok (iuvw_v off + iuvw_v (ar_i adc));
     w \<leftarrow> i32_ok (iuvw_w off + iuvw_w (ar_i adc));
     lim \<leftarrow> LF k;
     let cnt = fl_adc_cali_cnt (foc_lo foc) + 1;
     let foc = foc\<lparr>foc_in := (foc_in foc)\<lparr>fi_adc_raw := adc\<rparr>, foc_lo := (foc_lo foc)\<lparr>fl_adc_cali_cnt := cnt\<rparr>\<rparr>;
     if lim \<le> cnt
     then Some (foc\<lparr>foc_cfg := cfg\<lparr>fc_adc_offset := (fc_adc_offset cfg)\<lparr>ar_i :=
         \<lparr>iuvw_u = u div 2 ^ unat k, iuvw_v = v div 2 ^ unat k, iuvw_w = w div 2 ^ unat k\<rparr>\<rparr>\<rparr>\<rparr>, [SetDrv True, SetDrv False], 0)
     else Some (foc\<lparr>foc_cfg := cfg\<lparr>fc_adc_offset := (fc_adc_offset cfg)\<lparr>ar_i := \<lparr>iuvw_u = u, iuvw_v = v, iuvw_w = w\<rparr>\<rparr>\<rparr>\<rparr>,
       [SetDrv True], - errcode MEBUSY) }"

text \<open>The forward and the backward turn after the sample: at the end of a turn the angle is held for a number
  of samples, added up, and the next turn starts.\<close>

definition foc_turn_cw :: "foc_t \<Rightarrow> foc_t" where
  "foc_turn_cw foc = (let cfg = foc_cfg foc; inp = foc_in foc; lo = foc_lo foc; r = fi_rotor inp in
     if TAU \<le> rt_force_theta r
     then (let hold = fl_theta_cali_hold_cnt lo + 1 in
       if pf_theta_cali_cnt_max (fc_periph cfg) \<le> hold
       then (let cnt = fl_theta_cali_cnt lo + 1; lo = lo\<lparr>fl_theta_offset_sum := fl_theta_offset_sum lo + rt_sensor_theta r, fl_theta_cali_hold_cnt := 0, fl_theta_cali_cnt := cnt\<rparr> in
         if mc_npp (fc_motor cfg) \<le> cnt
         then foc\<lparr>foc_in := inp\<lparr>fi_rotor := r\<lparr>rt_force_theta := TAU\<rparr>\<rparr>, foc_lo := lo\<lparr>fl_e_cali := FOC_CALI_CCW\<rparr>\<rparr>
         else foc\<lparr>foc_in := inp\<lparr>fi_rotor := r\<lparr>rt_force_theta := 0\<rparr>\<rparr>, foc_lo := lo\<rparr>)
       else foc\<lparr>foc_in := inp\<lparr>fi_rotor := r\<lparr>rt_force_theta := TAU\<rparr>\<rparr>, foc_lo := lo\<lparr>fl_theta_cali_hold_cnt := hold\<rparr>\<rparr>)
     else if fl_theta_cali_hold_cnt lo = 0
     then foc\<lparr>foc_in := inp\<lparr>fi_rotor := r\<lparr>rt_force_theta := rt_force_theta r + rt_force_omega r / fc_exec_freq cfg\<rparr>\<rparr>\<rparr>
     else foc)"

definition foc_turn_ccw :: "foc_t \<Rightarrow> foc_t" where
  "foc_turn_ccw foc = (let cfg = foc_cfg foc; inp = foc_in foc; lo = foc_lo foc; r = fi_rotor inp in
     if rt_force_theta r \<le> 0
     then (let hold = fl_theta_cali_hold_cnt lo + 1 in
       if pf_theta_cali_cnt_max (fc_periph cfg) \<le> hold
       then (let cnt = fl_theta_cali_cnt lo + 1; lo = lo\<lparr>fl_theta_offset_sum := fl_theta_offset_sum lo + rt_sensor_theta r, fl_theta_cali_hold_cnt := 0, fl_theta_cali_cnt := cnt\<rparr> in
         if mc_npp (fc_motor cfg) * 2 \<le> cnt
         then foc\<lparr>foc_in := inp\<lparr>fi_rotor := r\<lparr>rt_force_theta := 0\<rparr>\<rparr>, foc_lo := lo\<lparr>fl_e_cali := FOC_CALI_FINISH\<rparr>\<rparr>
         else foc\<lparr>foc_in := inp\<lparr>fi_rotor := r\<lparr>rt_force_theta := TAU\<rparr>\<rparr>, foc_lo := lo\<rparr>)
       else foc\<lparr>foc_in := inp\<lparr>fi_rotor := r\<lparr>rt_force_theta := 0\<rparr>\<rparr>, foc_lo := lo\<lparr>fl_theta_cali_hold_cnt := hold\<rparr>\<rparr>)
     else if fl_theta_cali_hold_cnt lo = 0
     then foc\<lparr>foc_in := inp\<lparr>fi_rotor := r\<lparr>rt_force_theta := rt_force_theta r - rt_force_omega r / fc_exec_freq cfg\<rparr>\<rparr>\<rparr>
     else foc)"

definition foc_cali_finish :: "foc_t \<Rightarrow> foc_t" where
  "foc_cali_finish foc = (let cfg = foc_cfg foc; inp = foc_in foc; lo = foc_lo foc in
     foc\<lparr>foc_cfg := cfg\<lparr>fc_theta_offset := fl_theta_offset_sum lo / f32_of_u32 (fl_theta_cali_cnt lo)\<rparr>,
       foc_in := inp\<lparr>fi_rotor := (fi_rotor inp)\<lparr>rt_force_theta := 0, rt_force_omega := 0\<rparr>\<rparr>,
       foc_lo := lo\<lparr>fl_adc_cali_cnt := 0, fl_theta_cali_cnt := 0, fl_ref_i_dq := (fl_ref_i_dq lo)\<lparr>dq_d := 0\<rparr>,
         fl_e_mode := FOC_MODE_NULL, fl_e_theta := FOC_THETA_NULL, fl_e_state := FOC_STATE_READY\<rparr>\<rparr>)"

definition foc_cali_start :: "foc_t \<Rightarrow> foc_t" where
  "foc_cali_start foc = (let cfg = foc_cfg foc; inp = foc_in foc; lo = foc_lo foc in
     foc\<lparr>foc_in := inp\<lparr>fi_rotor := (fi_rotor inp)\<lparr>rt_force_omega := fc_ref_theta_cali_omega cfg\<rparr>\<rparr>,
       foc_lo := lo\<lparr>fl_ref_i_dq := (fl_ref_i_dq lo)\<lparr>dq_d := fc_ref_theta_cali_id cfg\<rparr>, fl_e_mode := FOC_MODE_CUR,
         fl_e_theta := FOC_THETA_FORCE, fl_e_cali := FOC_CALI_CW\<rparr>\<rparr>)"

definition foc_cali :: "libm \<Rightarrow> foc_t \<Rightarrow> adc_raw_t \<Rightarrow> (foc_t \<times> foc_event list) option" where
  "foc_cali L foc adc = (case fl_e_cali (foc_lo foc) of
       FOC_CALI_INIT \<Rightarrow> do {
         (foc, evs, ret) \<leftarrow> foc_adc_cali foc adc;
         Some (if ret < 0 then foc else foc_cali_start foc, evs) }
     | FOC_CALI_CW \<Rightarrow> do { (foc, evs) \<leftarrow> foc_enable L foc adc; Some (foc_turn_cw foc, evs) }
     | FOC_CALI_CCW \<Rightarrow> do { (foc, evs) \<leftarrow> foc_enable L foc adc; Some (foc_turn_ccw foc, evs) }
     | FOC_CALI_FINISH \<Rightarrow> (let (foc, evs) = foc_disable foc in Some (foc_cali_finish foc, evs))
     | FOC_CALI_OTHER \<Rightarrow> Some (foc\<lparr>foc_lo := (foc_lo foc)\<lparr>fl_e_state := FOC_STATE_DISABLE\<rparr>\<rparr>, []))"

subsection \<open>Initialisation\<close>

definition foc_init :: "libm \<Rightarrow> foc_t \<Rightarrow> foc_cfg_t \<Rightarrow> foc_t option" where
  "foc_init L foc c = do {
     let p = fc_periph c; let lo = foc_lo foc; let motor = fc_motor c; let f = fc_exec_freq c;
     full \<leftarrow> (if pf_pwm_freq p = 0 then None else Some (pf_timer_freq p div pf_pwm_freq p));
     let p = p\<lparr>pf_adc2cur := pf_cur_range p / f32_of_u32 (pf_adc_full_cnt p), pf_adc2vbus := pf_vbus_range p / f32_of_u32 (pf_adc_full_cnt p), pf_pwm_full_cnt := full\<rparr>;
     let pll_c = (pll_cfg (fl_pll lo))\<lparr>pll_fs := f\<rparr>;
     let smo_c = (smo_cfg (fl_smo lo))\<lparr>sc_fs := f, sc_motor_cfg := motor\<rparr>;
     let hfi_c = (hfi_cfg (fl_hfi lo))\<lparr>hc_fs := f\<rparr>;
     let lbg_c = (lbg_cfg (fl_lbg lo))\<lparr>lb_fs := f, lb_motor := motor\<rparr>;
     let cur_c = \<lparr>pc_fs = f / f32_of_u32 (fc_cur_div c), pc_kp = mc_wc motor * mc_ld motor, pc_ki = mc_wc motor * mc_rs motor, pc_kd = 0, pc_ki_out_max = 0, pc_out_max = 0\<rparr>;
     let c = c\<lparr>fc_periph := p, fc_vel_cfg := (fc_vel_cfg c)\<lparr>pc_fs := f / f32_of_u32 (fc_vel_div c)\<rparr>,
       fc_pos_cfg := (fc_pos_cfg c)\<lparr>pc_fs := f / f32_of_u32 (fc_pos_div c)\<rparr>, fc_pd_cfg := (fc_pd_cfg c)\<lparr>pc_fs := f / f32_of_u32 (fc_pd_div c)\<rparr>\<rparr>;
     hfi \<leftarrow> hfi_init L (fl_hfi lo) hfi_c;
     Some (foc\<lparr>foc_cfg := c, foc_lo := lo\<lparr>
       fl_pd_pid := pid_init (fl_pd_pid lo) (fc_pd_cfg c), fl_vel_pid := pid_init (fl_vel_pid lo) (fc_vel_cfg c),
       fl_pos_pid := pid_init (fl_pos_pid lo) (fc_pos_cfg c), fl_id_pid := pid_init (fl_id_pid lo) cur_c, fl_iq_pid := pid_init (fl_iq_pid lo) cur_c,
       fl_pll := pll_init (fl_pll lo) pll_c, fl_smo := smo_init (fl_smo lo) smo_c, fl_hfi := hfi, fl_lbg := lbg_init (fl_lbg lo) lbg_c\<rparr>\<rparr>) }"

subsection \<open>The step\<close>

definition foc_cycles :: "rotor_t \<Rightarrow> f32 \<Rightarrow> int option" where
  "foc_cycles r theta = (let d = theta - rt_mech_prev_theta r in
     if d < - TAU * F_HALF then i32_ok (rt_mech_cycle_cnt r + 1)
     else if TAU * F_HALF < d then i32_ok (rt_mech_cycle_cnt r - 1)
     else Some (rt_mech_cycle_cnt r))"

definition foc_rotor_cal :: "foc_t \<Rightarrow> f32 \<Rightarrow> foc_t option" where
  "foc_rotor_cal foc theta = do {
     let cfg = foc_cfg foc; let inp = foc_in foc; let lo = foc_lo foc; let r = fi_rotor inp; let npp = mc_npp (fc_motor cfg);
     cnt \<leftarrow> foc_cycles r theta;
     let comp = fc_sensor_theta_comp_gain cfg * rt_sensor_omega r / fc_exec_freq cfg;
     let sensor = WARP_TAU (MECH2ELEC theta npp - fc_theta_offset cfg + comp);
     let pll = pll_exec_theta_in (fl_pll lo) sensor;
     let omega = pll_lpf_omega (pll_out pll);
     let r = r\<lparr>rt_mech_theta := theta, rt_mech_cycle_cnt := cnt, rt_mech_total_theta := f32_of_int cnt * TAU + theta, rt_mech_prev_theta := theta,
       rt_sensor_comp_theta := comp, rt_sensor_theta := sensor, rt_sensor_omega := omega, rt_mech_omega := ELEC2MECH omega npp\<rparr>;
     let r = (if fl_e_theta lo = FOC_THETA_SENSOR then r\<lparr>rt_theta := sensor, rt_omega := omega\<rparr> else r);
     Some (foc\<lparr>foc_in := inp\<lparr>fi_rotor := r\<rparr>, foc_lo := lo\<lparr>fl_pll := pll\<rparr>\<rparr>) }"

definition foc_get_fdb :: "foc_t \<Rightarrow> foc_t" where
  "foc_get_fdb foc = (let inp = foc_in foc; lo = foc_lo foc in
     foc\<lparr>foc_lo := lo\<lparr>fl_fdb_pvct := (fl_fdb_pvct lo)\<lparr>fp_pos := rt_mech_total_theta (fi_rotor inp), fp_vel := rt_mech_omega (fi_rotor inp), fp_cur := dq_q (fi_i_dq inp)\<rparr>\<rparr>\<rparr>)"

definition foc_state_step :: "libm \<Rightarrow> foc_t \<Rightarrow> adc_raw_t \<Rightarrow> (foc_t \<times> foc_event list) option" where
  "foc_state_step L foc adc = (case fl_e_state (foc_lo foc) of
       FOC_STATE_CALI \<Rightarrow> foc_cali L foc adc
     | FOC_STATE_READY \<Rightarrow> Some (foc_ready foc, [])
     | FOC_STATE_DISABLE \<Rightarrow> Some (foc_disable foc)
     | FOC_STATE_ENABLE \<Rightarrow> foc_enable L foc adc
     | FOC_STATE_NULL \<Rightarrow> Some (foc, []))"

definition foc_exec :: "libm \<Rightarrow> foc_t \<Rightarrow> f32 \<Rightarrow> adc_raw_t \<Rightarrow> (foc_t \<times> foc_event list) option" where
  "foc_exec L foc theta adc = do {
     let lo = foc_lo foc;
     foc \<leftarrow> foc_rotor_cal (foc\<lparr>foc_lo := lo\<lparr>fl_exec_cnt := fl_exec_cnt lo + 1\<rparr>\<rparr>) theta;
     (foc, evs) \<leftarrow> foc_state_step L foc adc;
     Some (foc_get_fdb foc, evs) }"

end
