(* ===== verification/Wavegen.thy ===== *)
theory Wavegen
  imports Mathdef
begin

section \<open>Wave generators (wavegen/sine.h, wavegen/square.h)\<close>

text \<open>The generators keep the phase in their configuration and advance it at each sample.\<close>

record sine_cfg_t =
  sn_fs :: f32
  sn_wave_freq :: f32
  sn_amp :: f32
  sn_phase :: f32
  sn_off :: f32

record sine_t =
  sine_cfg :: sine_cfg_t
  sine_val :: f32
  sine_phase_incr :: f32

definition sine_init :: "sine_t \<Rightarrow> sine_cfg_t \<Rightarrow> sine_t" where
  "sine_init s cfg = s\<lparr>sine_cfg := cfg\<rparr>"

definition sine_exec :: "libm \<Rightarrow> sine_t \<Rightarrow> sine_t" where
  "sine_exec L s = (let cfg = sine_cfg s;
     phase_incr = TAU * sn_wave_freq cfg / sn_fs cfg;
     val = sn_amp cfg * lm_sin L (sn_phase cfg) + sn_off cfg
   in s\<lparr>sine_phase_incr := phase_incr, sine_val := val, sine_cfg := cfg\<lparr>sn_phase := WARP_TAU (sn_phase cfg + phase_incr)\<rparr>\<rparr>)"

record square_cfg_t =
  sq_fs :: f32
  sq_wave_freq :: f32
  sq_amp :: f32
  sq_phase :: f32
  sq_off :: f32
  sq_duty_cycle :: f32

record square_t =
  square_cfg :: square_cfg_t
  square_val :: f32
  square_phase_incr :: f32

definition square_init :: "square_t \<Rightarrow> square_cfg_t \<Rightarrow> square_t" where
  "square_init s cfg = s\<lparr>square_cfg := cfg\<rparr>"

definition square_exec :: "square_t \<Rightarrow> square_t" where
  "square_exec s = (let cfg = square_cfg s;
     phase_incr = TAU * sq_wave_freq cfg / sq_fs cfg;
     val = (if sq_phase cfg < sq_duty_cycle cfg * TAU then sq_amp cfg + sq_off cfg else - sq_amp cfg + sq_off cfg)
   in s\<lparr>square_phase_incr := phase_incr, square_val := val, square_cfg := cfg\<lparr>sq_phase := WARP_TAU (sq_phase cfg + phase_incr)\<rparr>\<rparr>)"

lemma sine_phase_ok: "angle_ok (sn_phase (sine_cfg (sine_exec L s)))"
  by (simp add: sine_exec_def Let_def)

lemma square_phase_ok: "angle_ok (sq_phase (square_cfg (square_exec s)))"
  by (simp add: square_exec_def Let_def)

end
