(* ===== verification/Foc_Props.thy ===== *)
theory Foc_Props
  imports Foc Wavegen
begin

section \<open>Field-oriented control: what every step keeps\<close>

text \<open>
  Duties within the timer, a driver that is on exactly in the states that drive, the order of the
  calibration, and the angles.
\<close>

subsection \<open>What the parts of a step leave alone\<close>

definition foc_sense :: "foc_t \<Rightarrow> f32 \<times> pll_filter_t" where
  "foc_sense f = (rt_sensor_theta (fi_rotor (foc_in f)), fl_pll (foc_lo f))"

definition foc_tag :: "foc_t \<Rightarrow> foc_cfg_t \<times> foc_state_e \<times> foc_cali_e \<times> f32 \<times> pll_filter_t" where
  "foc_tag f = (foc_cfg f, fl_e_state (foc_lo f), fl_e_cali (foc_lo f), rt_sensor_theta (fi_rotor (foc_in f)), fl_pll (foc_lo f))"

named_theorems tag_simps \<open>parts of a step that keep configuration, state and calibration\<close>

lemma tag_ctl [tag_simps]:
  "foc_tag (foc_select_mode f) = foc_tag f" "foc_tag (foc_cur_ctl f) = foc_tag f" "foc_tag (foc_vel_ctl f) = foc_tag f"
  "foc_tag (foc_pos_ctl f) = foc_tag f" "foc_tag (foc_pd_ctl f) = foc_tag f" "foc_tag (foc_vol_ctl f) = foc_tag f"
  by (simp_all add: foc_tag_def foc_select_mode_def foc_cur_ctl_def foc_vel_ctl_def foc_pos_ctl_def foc_pd_ctl_def foc_vol_ctl_def Let_def)

lemma tag_run_mode [tag_simps]: "foc_tag (foc_run_mode f) = foc_tag f"
  by (cases "fl_e_mode (foc_lo f)") (simp_all add: foc_run_mode_def tag_ctl)

lemma tag_obs [tag_simps]:
  "foc_tag (foc_obs_i_ab L f) = foc_tag f" "foc_tag (foc_obs_v_dq f) = foc_tag f"
  by (cases "fl_e_obs (foc_lo f)"; simp add: foc_tag_def foc_obs_i_ab_def foc_obs_v_dq_def Let_def)+

lemma tag_theta [tag_simps]: "foc_tag (foc_select_theta f) = foc_tag f"
  by (cases "fl_e_theta (foc_lo f)"; simp add: foc_tag_def foc_select_theta_def Let_def)

lemma tag_stages [tag_simps]:
  "foc_tag (foc_park L f) = foc_tag f" "foc_tag (foc_fusion_err f) = foc_tag f" "foc_tag (foc_inv_park L f) = foc_tag f"
  "foc_tag (fst (foc_disable f)) = foc_tag f" "foc_tag (foc_get_fdb f) = foc_tag f"
  by (simp_all add: foc_tag_def foc_park_def foc_fusion_err_def foc_inv_park_def foc_disable_def foc_get_fdb_def Let_def)

lemma tag_sample [tag_simps]: "foc_sample f adc = Some f' \<Longrightarrow> foc_tag f' = foc_tag f"
  by (auto simp: foc_sample_def foc_tag_def Let_def split: bind_splits)

lemma tag_elec_tor [tag_simps]: "foc_elec_tor f = Some f' \<Longrightarrow> foc_tag f' = foc_tag f"
  by (auto simp: foc_elec_tor_def foc_tag_def Let_def split: bind_splits)

lemma tag_obs_i_dq [tag_simps]: "foc_obs_i_dq L f = Some f' \<Longrightarrow> foc_tag f' = foc_tag f"
  by (cases "fl_e_obs (foc_lo f)") (auto simp: foc_obs_i_dq_def foc_tag_def Let_def split: bind_splits if_splits)

lemma tag_svpwm [tag_simps]: "foc_svpwm f = Some f' \<Longrightarrow> foc_tag f' = foc_tag f"
  by (auto simp: foc_svpwm_def foc_tag_def Let_def split: bind_splits prod.splits)

lemma tag_rotor_cal:
  assumes "foc_rotor_cal f theta = Some f'"
  shows "foc_cfg f' = foc_cfg f" "fl_e_state (foc_lo f') = fl_e_state (foc_lo f)" "fl_e_cali (foc_lo f') = fl_e_cali (foc_lo f)"
    "angle_ok (rt_sensor_theta (fi_rotor (foc_in f')))" "angle_ok (pll_theta (pll_out (fl_pll (foc_lo f'))))"
  using assms by (auto simp: foc_rotor_cal_def Let_def split: bind_splits)

subsection \<open>Duties\<close>

definition duty_limits :: "periph_cfg_t \<Rightarrow> bool" where
  "duty_limits p \<longleftrightarrow> 0 \<le> pf_f32_pwm_min p \<and> pf_f32_pwm_min p \<le> pf_f32_pwm_max p \<and> pf_f32_pwm_max p \<le> 1 \<and> unat (pf_pwm_full_cnt p) < 2 ^ 24"

lemma f32_of_u32_exact:
  assumes "unat n < 2 ^ 24"
  shows "f32_int (f32_of_u32 n) = uint n * F32_ONE" "is_fin (f32_of_u32 n)"
proof -
  have "int (unat n) < int (2 ^ 24)" using assms by (simp only: of_nat_less_iff)
  then have u: "0 \<le> uint n" "uint n < 2 ^ 24" by (simp_all only: uint_nat of_nat_power of_nat_numeral of_nat_0_le_iff)
  have "uint n * 2 ^ 149 \<le> 2 ^ 24 * 2 ^ 149" using u by (intro mult_right_mono) auto
  then have lim: "uint n * 2 ^ 149 < 2 ^ 277" by (rule order_le_less_trans) simp
  show i: "f32_int (f32_of_u32 n) = uint n * F32_ONE"
    unfolding f32_of_u32_def f32_of_int_def F32_ONE_def by (rule f32_exact(1) [OF u lim])
  have "\<not> is_nan (f32_of_u32 n)" unfolding f32_of_u32_def f32_of_int_def by (rule f32_rnd_int(2)) simp
  then show "is_fin (f32_of_u32 n)"
  proof (rule is_fin_between)
    show "- (2 ^ 277) < f32_int (f32_of_u32 n)" unfolding i F32_ONE_def by (rule order_less_le_trans [of _ 0]) (use u(1) in simp_all)
    show "f32_int (f32_of_u32 n) < 2 ^ 277" unfolding i F32_ONE_def by (rule lim)
  qed
qed

lemma duty_cnt_ok:
  assumes "0 \<le> d" "d \<le> 1" "unat full < 2 ^ 24"
  shows "\<exists>n. duty_cnt d full = Some n \<and> n \<le> full"
proof -
  note F = f32_of_u32_exact [OF assms(3)]
  have n: "\<not> is_nan d" "0 \<le> f32_int d" "f32_int d \<le> F32_ONE" using assms(1,2) by (auto simp: less_eq_f32_def)
  have "F32_ONE < 2 ^ 277" unfolding F32_ONE_def by simp
  then have fd: "is_fin d" using n by (intro is_fin_between) linarith+
  have nF: "\<not> is_nan (f32_of_u32 full)" using F(2) is_fin_imp by blast
  let ?r = "d * f32_of_u32 full"
  have F0: "0 \<le> f32_int (f32_of_u32 full)" unfolding F(1) by (simp add: F32_ONE_def)
  have "f32_int d * f32_int (f32_of_u32 full) \<le> f32_int (f32_of_u32 full) * F32_ONE"
    using mult_right_mono [OF n(3) F0] by (simp add: mult.commute)
  then have up: "?r \<le> f32_of_u32 full" by (rule f32_mul_bounds(1) [OF fd F(2) nF])
  have "0 \<le> f32_int d * f32_int (f32_of_u32 full)" using n(2) F0 by simp
  then have lo: "0 \<le> ?r" by (intro f32_mul_bounds(2) [OF fd F(2)]) simp_all
  have r: "0 \<le> f32_int ?r" "f32_int ?r \<le> uint full * F32_ONE" "\<not> is_nan ?r" using up lo F(1) by (auto simp: less_eq_f32_def)
  let ?t = "f32_int ?r div F32_ONE"
  have t0: "0 \<le> ?t" by (rule iffD2 [OF pos_imp_zdiv_nonneg_iff [OF F32_ONE_pos] r(1)])
  have "?t \<le> uint full * F32_ONE div F32_ONE" by (rule zdiv_mono1 [OF r(2) F32_ONE_pos])
  moreover have "uint full * F32_ONE div F32_ONE = uint full" using F32_ONE_pos by (intro nonzero_mult_div_cancel_right) linarith
  ultimately have t: "0 \<le> ?t" "?t \<le> uint full" using t0 by (simp_all only:)
  have u: "uint full < 2 ^ 32" using uint_lt2p [of full] by simp
  have fin: "is_fin ?r"
  proof (rule is_fin_between [OF r(3)])
    show "- (2 ^ 277) < f32_int ?r" by (rule order_less_le_trans [of _ 0]) (use r(1) in simp_all)
    have "f32_int (f32_of_u32 full) < 2 ^ 277" using F(2) F0 by (simp add: is_fin_iff fp_mag_inf f32_mag_int)
    then show "f32_int ?r < 2 ^ 277" using r(2) unfolding F(1) by linarith
  qed
  have "f32_trunc ?r = ?t" by (rule f32_trunc_pos [OF r(1)])
  then have "duty_cnt d full = Some (word_of_int ?t)" using fin t u by (simp add: duty_cnt_def f32_to_u32_def f32_to_int_def)
  moreover have "uint (word_of_int ?t :: u32) = ?t" using t u by (simp add: uint_word_of_int)
  then have "word_of_int ?t \<le> full" using t(2) by (simp add: word_le_def)
  ultimately show ?thesis by blast
qed

definition duties_ok :: "u32 \<Rightarrow> u32_uvw_t \<Rightarrow> bool" where
  "duties_ok full d \<longleftrightarrow> uuvw_u d \<le> full \<and> uuvw_v d \<le> full \<and> uuvw_w d \<le> full"

lemma foc_svpwm_ok:
  assumes "duty_limits (fc_periph (foc_cfg f))"
  shows "\<exists>f'. foc_svpwm f = Some f' \<and> duties_ok (pf_pwm_full_cnt (fc_periph (foc_cfg f))) (sv_u32_pwm_duty (fo_svpwm (foc_out f')))"
proof -
  let ?p = "fc_periph (foc_cfg f)"
  note lim = assms [unfolded duty_limits_def]
  have c: "0 \<le> CLAMP x (pf_f32_pwm_min ?p) (pf_f32_pwm_max ?p)" "CLAMP x (pf_f32_pwm_min ?p) (pf_f32_pwm_max ?p) \<le> 1" for x
    using CLAMP_range [of "pf_f32_pwm_min ?p" "pf_f32_pwm_max ?p" x] lim f32_le_trans by blast+
  have d: "\<exists>n. duty_cnt (CLAMP x (pf_f32_pwm_min ?p) (pf_f32_pwm_max ?p)) (pf_pwm_full_cnt ?p) = Some n \<and> n \<le> pf_pwm_full_cnt ?p" for x
    using lim by (intro duty_cnt_ok c) simp
  obtain v_max v_min where e: "svpwm_extremes (inv_clarke (fo_v_ab_sv (foc_out f))) = (v_max, v_min)" by fastforce
  let ?x = "UVW_ADD_IP (UVW_ADD (inv_clarke (fo_v_ab_sv (foc_out f))) (- (F_HALF * (v_max + v_min)))) F_HALF"
  obtain u v w where n: "duty_cnt (CLAMP (uvw_u ?x) (pf_f32_pwm_min ?p) (pf_f32_pwm_max ?p)) (pf_pwm_full_cnt ?p) = Some u" "u \<le> pf_pwm_full_cnt ?p"
    "duty_cnt (CLAMP (uvw_v ?x) (pf_f32_pwm_min ?p) (pf_f32_pwm_max ?p)) (pf_pwm_full_cnt ?p) = Some v" "v \<le> pf_pwm_full_cnt ?p"
    "duty_cnt (CLAMP (uvw_w ?x) (pf_f32_pwm_min ?p) (pf_f32_pwm_max ?p)) (pf_pwm_full_cnt ?p) = Some w" "w \<le> pf_pwm_full_cnt ?p"
    using d [of "uvw_u ?x"] d [of "uvw_v ?x"] d [of "uvw_w ?x"] by blast
  then show ?thesis by (simp add: foc_svpwm_def Let_def e UVW_CLAMP_def uvw_map_def duties_ok_def)
qed

subsection \<open>The driving states\<close>

text \<open>Readings, offsets and turns far from the ends of their types, tables of four coefficients, and limits of the duty.\<close>

definition i32_half :: "i32_uvw_t \<Rightarrow> bool" where
  "i32_half x \<longleftrightarrow> \<bar>iuvw_u x\<bar> < 2 ^ 30 \<and> \<bar>iuvw_v x\<bar> < 2 ^ 30 \<and> \<bar>iuvw_w x\<bar> < 2 ^ 30"

definition foc_cfg_ok :: "foc_cfg_t \<Rightarrow> adc_raw_t \<Rightarrow> bool" where
  "foc_cfg_ok cfg adc \<longleftrightarrow> duty_limits (fc_periph cfg) \<and> length (mc_cur2tor (fc_motor cfg)) = 4 \<and> length (mc_tor2cur (fc_motor cfg)) = 4 \<and>
     i32_half (ar_i (fc_adc_offset cfg)) \<and> i32_half (ar_i adc) \<and> pf_adc_cali_cnt_max (fc_periph cfg) < 32"

definition foc_inputs_ok :: "foc_t \<Rightarrow> adc_raw_t \<Rightarrow> bool" where
  "foc_inputs_ok f adc \<longleftrightarrow> foc_cfg_ok (foc_cfg f) adc \<and> \<bar>rt_mech_cycle_cnt (fi_rotor (foc_in f))\<bar> < 2 ^ 31 - 1"

lemma i32_ok_half: "\<bar>a\<bar> < 2 ^ 30 \<Longrightarrow> \<bar>b\<bar> < 2 ^ 30 \<Longrightarrow> i32_ok (a - b) = Some (a - b) \<and> i32_ok (a + b) = Some (a + b)"
  by (auto simp: i32_ok_def)

lemma foc_sample_ok: "i32_half (ar_i (fc_adc_offset (foc_cfg f))) \<Longrightarrow> i32_half (ar_i adc) \<Longrightarrow> \<exists>f'. foc_sample f adc = Some f'"
  by (simp add: foc_sample_def i32_half_def i32_ok_half Let_def)

lemma foc_elec_tor_ok: "length (mc_cur2tor (fc_motor (foc_cfg f))) = 4 \<Longrightarrow> \<exists>f'. foc_elec_tor f = Some f'"
  by (simp add: foc_elec_tor_def poly_eval_def Let_def)

lemma foc_obs_i_dq_ok: "length (mc_tor2cur (fc_motor (foc_cfg f))) = 4 \<Longrightarrow> \<exists>f'. foc_obs_i_dq L f = Some f'"
  by (cases "fl_e_obs (foc_lo f)") (auto simp: foc_obs_i_dq_def poly_eval_def Let_def)

lemma tag_cfg: "foc_tag f = foc_tag g \<Longrightarrow> foc_cfg f = foc_cfg g \<and> fl_e_state (foc_lo f) = fl_e_state (foc_lo g) \<and> fl_e_cali (foc_lo f) = fl_e_cali (foc_lo g) \<and> foc_sense f = foc_sense g"
  by (simp add: foc_tag_def foc_sense_def)

lemma foc_enable_ok:
  assumes "foc_cfg_ok (foc_cfg f) adc"
  shows "\<exists>f' d. foc_enable L f adc = Some (f', [SetDrv True, SetPwm (pf_pwm_full_cnt (fc_periph (foc_cfg f))) d]) \<and>
    duties_ok (pf_pwm_full_cnt (fc_periph (foc_cfg f))) d \<and> foc_tag f' = foc_tag f"
proof -
  note a = assms [unfolded foc_cfg_ok_def]
  obtain f1 where f1: "foc_sample f adc = Some f1" using foc_sample_ok a by blast
  define f2 where "f2 = foc_park L (foc_select_theta (foc_obs_i_ab L f1))"
  have t2: "foc_tag f2 = foc_tag f" by (simp add: f2_def tag_obs tag_theta tag_stages tag_sample [OF f1])
  obtain f3 where f3: "foc_elec_tor f2 = Some f3" using foc_elec_tor_ok [of f2] a tag_cfg [OF t2] by auto
  have t3: "foc_tag f3 = foc_tag f" using tag_elec_tor [OF f3] t2 by simp
  obtain f4 where f4: "foc_obs_i_dq L f3 = Some f4" using foc_obs_i_dq_ok [of f3] a tag_cfg [OF t3] by auto
  have t4: "foc_tag f4 = foc_tag f" using tag_obs_i_dq [OF f4] t3 by simp
  define f5 where "f5 = foc_inv_park L (foc_obs_v_dq (foc_run_mode (foc_select_mode (foc_fusion_err f4))))"
  have t5: "foc_tag f5 = foc_tag f" by (simp add: f5_def tag_obs tag_stages tag_ctl tag_run_mode t4)
  have lim: "duty_limits (fc_periph (foc_cfg f5))" using a tag_cfg [OF t5] by simp
  obtain f6 where f6: "foc_svpwm f5 = Some f6" "duties_ok (pf_pwm_full_cnt (fc_periph (foc_cfg f5))) (sv_u32_pwm_duty (fo_svpwm (foc_out f6)))"
    using foc_svpwm_ok [OF lim] by blast
  have t6: "foc_tag f6 = foc_tag f" using tag_svpwm [OF f6(1)] t5 by simp
  have "foc_enable L f adc = Some (f6, [SetDrv True, SetPwm (pf_pwm_full_cnt (fc_periph (foc_cfg f6))) (sv_u32_pwm_duty (fo_svpwm (foc_out f6)))])"
    using f1 f3 f4 f6(1) by (simp add: foc_enable_def Let_def f2_def f5_def)
  then show ?thesis using f6(2) t6 tag_cfg [OF t5] tag_cfg [OF t6] by simp
qed

lemma foc_rotor_cal_ok:
  assumes "\<bar>rt_mech_cycle_cnt (fi_rotor (foc_in f))\<bar> < 2 ^ 31 - 1"
  shows "\<exists>f'. foc_rotor_cal f theta = Some f'"
proof -
  have "\<exists>n. foc_cycles (fi_rotor (foc_in f)) theta = Some n" using assms by (auto simp: foc_cycles_def i32_ok_def Let_def)
  then show ?thesis by (auto simp: foc_rotor_cal_def Let_def)
qed

subsection \<open>Calibration\<close>

text \<open>The successors of a calibration state.\<close>

fun cali_next :: "foc_cali_e \<Rightarrow> foc_cali_e \<Rightarrow> bool" where
  "cali_next FOC_CALI_INIT e \<longleftrightarrow> e = FOC_CALI_INIT \<or> e = FOC_CALI_CW"
| "cali_next FOC_CALI_CW e \<longleftrightarrow> e = FOC_CALI_CW \<or> e = FOC_CALI_CCW"
| "cali_next FOC_CALI_CCW e \<longleftrightarrow> e = FOC_CALI_CCW \<or> e = FOC_CALI_FINISH"
| "cali_next FOC_CALI_FINISH e \<longleftrightarrow> e = FOC_CALI_FINISH"
| "cali_next FOC_CALI_OTHER e \<longleftrightarrow> e = FOC_CALI_OTHER"

text \<open>The state after a step: it changes only while calibrating, at the end to ready, at an invalid stage to disabled.\<close>

fun foc_state_next :: "foc_state_e \<Rightarrow> foc_cali_e \<Rightarrow> foc_state_e" where
  "foc_state_next FOC_STATE_CALI FOC_CALI_FINISH = FOC_STATE_READY"
| "foc_state_next FOC_STATE_CALI FOC_CALI_OTHER = FOC_STATE_DISABLE"
| "foc_state_next st ca = st"

lemma turn_tags:
  "foc_cfg (foc_turn_cw f) = foc_cfg f" "fl_e_state (foc_lo (foc_turn_cw f)) = fl_e_state (foc_lo f)"
  "fl_e_cali (foc_lo f) = FOC_CALI_CW \<Longrightarrow> cali_next FOC_CALI_CW (fl_e_cali (foc_lo (foc_turn_cw f)))"
  "foc_cfg (foc_turn_ccw f) = foc_cfg f" "fl_e_state (foc_lo (foc_turn_ccw f)) = fl_e_state (foc_lo f)"
  "fl_e_cali (foc_lo f) = FOC_CALI_CCW \<Longrightarrow> cali_next FOC_CALI_CCW (fl_e_cali (foc_lo (foc_turn_ccw f)))"
  "foc_sense (foc_turn_cw f) = foc_sense f" "foc_sense (foc_turn_ccw f) = foc_sense f"
  by (simp_all add: foc_turn_cw_def foc_turn_ccw_def foc_sense_def Let_def)

lemma foc_adc_cali_ok:
  assumes "i32_half (ar_i (fc_adc_offset (foc_cfg f)))" "i32_half (ar_i adc)" "pf_adc_cali_cnt_max (fc_periph (foc_cfg f)) < 32"
  shows "\<exists>f' evs r. foc_adc_cali f adc = Some (f', evs, r) \<and> fl_e_state (foc_lo f') = fl_e_state (foc_lo f) \<and> fl_e_cali (foc_lo f') = fl_e_cali (foc_lo f) \<and>
    foc_sense f' = foc_sense f \<and> (if r < 0 then evs = [SetDrv True] else evs = [SetDrv True, SetDrv False])"
proof -
  let ?k = "pf_adc_cali_cnt_max (fc_periph (foc_cfg f))"
  obtain lim where lim: "LF ?k = Some lim" using assms(3) by (simp add: LF_def c_shl_def word_less_nat_alt)
  show ?thesis using assms(1,2) by (simp add: foc_adc_cali_def Let_def i32_half_def i32_ok_half lim foc_sense_def)
qed

text \<open>The events of a step.\<close>

definition drives :: "u32 \<Rightarrow> foc_event list \<Rightarrow> bool" where
  "drives full evs \<longleftrightarrow> (\<exists>d. evs = [SetDrv True, SetPwm full d] \<and> duties_ok full d)"

definition foc_events_ok :: "u32 \<Rightarrow> foc_state_e \<Rightarrow> foc_cali_e \<Rightarrow> foc_event list \<Rightarrow> bool" where
  "foc_events_ok full st cali evs \<longleftrightarrow> (case st of
       FOC_STATE_NULL \<Rightarrow> evs = [] | FOC_STATE_READY \<Rightarrow> evs = [] | FOC_STATE_DISABLE \<Rightarrow> evs = [SetDrv False]
     | FOC_STATE_ENABLE \<Rightarrow> drives full evs
     | FOC_STATE_CALI \<Rightarrow> (case cali of FOC_CALI_INIT \<Rightarrow> evs = [SetDrv True] \<or> evs = [SetDrv True, SetDrv False]
         | FOC_CALI_FINISH \<Rightarrow> evs = [SetDrv False] | FOC_CALI_OTHER \<Rightarrow> evs = [] | _ \<Rightarrow> drives full evs))"

lemma cali_start_tags: "fl_e_state (foc_lo (foc_cali_start f)) = fl_e_state (foc_lo f)" "fl_e_cali (foc_lo (foc_cali_start f)) = FOC_CALI_CW"
  "foc_sense (foc_cali_start f) = foc_sense f" "foc_sense (foc_cali_finish f) = foc_sense f"
  by (simp_all add: foc_cali_start_def foc_cali_finish_def foc_sense_def Let_def)

lemma foc_state_step_ok:
  assumes "foc_cfg_ok (foc_cfg f) adc"
  defines "st \<equiv> fl_e_state (foc_lo f)" and "ca \<equiv> fl_e_cali (foc_lo f)"
  shows "\<exists>f' evs. foc_state_step L f adc = Some (f', evs) \<and> foc_events_ok (pf_pwm_full_cnt (fc_periph (foc_cfg f))) st ca evs \<and>
    fl_e_state (foc_lo f') = foc_state_next st ca \<and>
    (if st = FOC_STATE_CALI then cali_next ca (fl_e_cali (foc_lo f')) else fl_e_cali (foc_lo f') = ca) \<and> foc_sense f' = foc_sense f"
proof -
  note a = assms(1) [unfolded foc_cfg_ok_def]
  let ?full = "pf_pwm_full_cnt (fc_periph (foc_cfg f))"
  obtain f1 d where en: "foc_enable L f adc = Some (f1, [SetDrv True, SetPwm ?full d])" "duties_ok ?full d" "foc_tag f1 = foc_tag f"
    using foc_enable_ok [OF assms(1)] by blast
  note t1 = tag_cfg [OF en(3)]
  have dis: "foc_tag (fst (foc_disable f)) = foc_tag f" "snd (foc_disable f) = [SetDrv False]" by (simp_all add: tag_stages) (simp add: foc_disable_def Let_def)
  note td = tag_cfg [OF dis(1)]
  show ?thesis
  proof (cases st)
    case FOC_STATE_NULL
    then show ?thesis by (simp add: foc_state_step_def st_def ca_def foc_events_ok_def)
  next
    case FOC_STATE_READY
    then show ?thesis by (simp add: foc_state_step_def st_def ca_def foc_events_ok_def foc_ready_def)
  next
    case FOC_STATE_DISABLE
    then show ?thesis using dis td by (cases "foc_disable f") (simp add: foc_state_step_def st_def ca_def foc_events_ok_def)
  next
    case FOC_STATE_ENABLE
    then show ?thesis using en t1 by (simp add: foc_state_step_def st_def ca_def foc_events_ok_def drives_def)
  next
    case s: FOC_STATE_CALI
    have step: "foc_state_step L f adc = foc_cali L f adc" using s by (simp add: foc_state_step_def st_def)
    show ?thesis
    proof (cases ca)
      case FOC_CALI_INIT
      obtain f2 evs r where "foc_adc_cali f adc = Some (f2, evs, r)" "fl_e_state (foc_lo f2) = fl_e_state (foc_lo f)" "fl_e_cali (foc_lo f2) = fl_e_cali (foc_lo f)" "foc_sense f2 = foc_sense f"
        "if r < 0 then evs = [SetDrv True] else evs = [SetDrv True, SetDrv False]" using foc_adc_cali_ok a by blast
      then show ?thesis using s FOC_CALI_INIT unfolding step
        by (cases "r < 0") (simp_all add: foc_cali_def st_def ca_def foc_events_ok_def cali_start_tags)
    next
      case FOC_CALI_CW
      then show ?thesis using s en t1 turn_tags [of f1] unfolding step
        by (simp add: foc_cali_def st_def ca_def foc_events_ok_def drives_def)
    next
      case FOC_CALI_CCW
      then show ?thesis using s en t1 turn_tags [of f1] unfolding step
        by (simp add: foc_cali_def st_def ca_def foc_events_ok_def drives_def)
    next
      case FOC_CALI_FINISH
      then show ?thesis using s dis td cali_start_tags(4) [of "fst (foc_disable f)"] unfolding step
        by (cases "foc_disable f") (simp add: foc_cali_def st_def ca_def foc_events_ok_def, simp add: foc_cali_finish_def Let_def)
    next
      case FOC_CALI_OTHER
      then show ?thesis using s unfolding step by (simp add: foc_cali_def st_def ca_def foc_events_ok_def foc_sense_def)
    qed
  qed
qed

lemma foc_exec_ok:
  assumes "foc_inputs_ok f adc"
  defines "st \<equiv> fl_e_state (foc_lo f)" and "ca \<equiv> fl_e_cali (foc_lo f)"
  shows "\<exists>f' evs. foc_exec L f theta adc = Some (f', evs) \<and> foc_events_ok (pf_pwm_full_cnt (fc_periph (foc_cfg f))) st ca evs \<and>
    fl_e_state (foc_lo f') = foc_state_next st ca \<and>
    (if st = FOC_STATE_CALI then cali_next ca (fl_e_cali (foc_lo f')) else fl_e_cali (foc_lo f') = ca) \<and>
    angle_ok (rt_sensor_theta (fi_rotor (foc_in f'))) \<and> angle_ok (pll_theta (pll_out (fl_pll (foc_lo f'))))"
proof -
  let ?f0 = "f\<lparr>foc_lo := (foc_lo f)\<lparr>fl_exec_cnt := fl_exec_cnt (foc_lo f) + 1\<rparr>\<rparr>"
  have "\<bar>rt_mech_cycle_cnt (fi_rotor (foc_in ?f0))\<bar> < 2 ^ 31 - 1" using assms(1) by (simp add: foc_inputs_ok_def)
  then obtain f1 where f1: "foc_rotor_cal ?f0 theta = Some f1" using foc_rotor_cal_ok by blast
  have c: "foc_cfg f1 = foc_cfg f" "fl_e_state (foc_lo f1) = fl_e_state (foc_lo f)" "fl_e_cali (foc_lo f1) = fl_e_cali (foc_lo f)"
    using tag_rotor_cal(1-3) [OF f1] by simp_all
  have "foc_cfg_ok (foc_cfg f1) adc" using assms(1) c by (simp add: foc_inputs_ok_def)
  from foc_state_step_ok [OF this, of L, unfolded c, folded st_def ca_def] obtain f2 evs where f2: "foc_state_step L f1 adc = Some (f2, evs)"
    "foc_events_ok (pf_pwm_full_cnt (fc_periph (foc_cfg f))) st ca evs"
    "fl_e_state (foc_lo f2) = foc_state_next st ca"
    "if st = FOC_STATE_CALI then cali_next ca (fl_e_cali (foc_lo f2)) else fl_e_cali (foc_lo f2) = ca" "foc_sense f2 = foc_sense f1"
    by blast
  have "foc_exec L f theta adc = Some (foc_get_fdb f2, evs)" using f1 f2(1) by (simp add: foc_exec_def Let_def)
  moreover have "foc_tag (foc_get_fdb f2) = foc_tag f2" by (rule tag_stages(5))
  ultimately show ?thesis using f2(2-5) tag_cfg [of "foc_get_fdb f2" f2] tag_rotor_cal(4,5) [OF f1] by (simp add: foc_sense_def)
qed

lemma div_zero_inf: "\<not> is_fin (x / f32_of_u32 0)"
proof -
  have z: "f32_mag (f32_of_u32 0) = 0" "\<not> is_inf (f32_of_u32 0)" by code_simp+
  have n: "\<not> is_fin F32_NAN" "\<not> is_fin (f32_mk False F32_INF)" "\<not> is_fin (f32_mk True F32_INF)" by code_simp+
  show ?thesis
  proof (cases "f32_sgn x \<noteq> f32_sgn (f32_of_u32 0)")
    case True
    then show ?thesis using n unfolding divide_f32_def f32_div_def by (simp add: z Let_def)
  next
    case False
    then show ?thesis using n unfolding divide_f32_def f32_div_def by (simp add: z Let_def)
  qed
qed

text \<open>A number that is not finite stays so through sums and differences.\<close>

lemma add_not_fin: "\<not> is_fin x \<or> \<not> is_fin y \<Longrightarrow> \<not> is_fin (x + y)" for x y :: f32
proof -
  have n: "\<not> is_fin F32_NAN" by code_simp
  assume "\<not> is_fin x \<or> \<not> is_fin y"
  then have "is_nan x \<or> is_nan y \<or> is_inf x \<or> is_inf y" using f32_kinds(1) by blast
  then show ?thesis using n f32_kinds(2) by (auto simp: plus_f32_def f32_add_def)
qed

lemma sub_not_fin: "\<not> is_fin x \<or> \<not> is_fin y \<Longrightarrow> \<not> is_fin (x - y)" for x y :: f32
  unfolding f32_sub_add by (rule add_not_fin) simp

lemma rotor_cal_lost:
  assumes "foc_rotor_cal f theta = Some f'" "\<not> is_fin (fc_theta_offset (foc_cfg f))"
  shows "is_nan (rt_sensor_theta (fi_rotor (foc_in f')))"
proof -
  have "\<not> is_fin (x - fc_theta_offset (foc_cfg f) + y)" for x y using assms(2) add_not_fin sub_not_fin by blast
  then show ?thesis using assms(1) by (auto simp: foc_rotor_cal_def Let_def WARP_TAU_nan split: bind_splits)
qed

lemma foc_exec_finish:
  assumes "fl_e_state (foc_lo f) = FOC_STATE_CALI" "fl_e_cali (foc_lo f) = FOC_CALI_FINISH" "foc_exec L f theta adc = Some (f', evs)"
  shows "fc_theta_offset (foc_cfg f') = fl_theta_offset_sum (foc_lo f) / f32_of_u32 (fl_theta_cali_cnt (foc_lo f))"
    "fl_theta_cali_cnt (foc_lo f') = 0" "fl_e_cali (foc_lo f') = FOC_CALI_FINISH" "fl_e_state (foc_lo f') = FOC_STATE_READY"
    "\<bar>rt_mech_cycle_cnt (fi_rotor (foc_in f'))\<bar> \<le> \<bar>rt_mech_cycle_cnt (fi_rotor (foc_in f))\<bar> + 1"
proof -
  let ?f0 = "f\<lparr>foc_lo := (foc_lo f)\<lparr>fl_exec_cnt := fl_exec_cnt (foc_lo f) + 1\<rparr>\<rparr>"
  obtain f1 where f1: "foc_rotor_cal ?f0 theta = Some f1" using assms(3) by (auto simp: foc_exec_def Let_def split: bind_splits)
  have k: "fl_theta_offset_sum (foc_lo f1) = fl_theta_offset_sum (foc_lo f)" "fl_theta_cali_cnt (foc_lo f1) = fl_theta_cali_cnt (foc_lo f)"
    using f1 by (auto simp: foc_rotor_cal_def Let_def split: bind_splits)
  note t = tag_rotor_cal(2,3) [OF f1]
  have "f' = foc_get_fdb (foc_cali_finish (fst (foc_disable f1)))"
    using assms f1 t by (simp add: foc_exec_def Let_def foc_state_step_def foc_cali_def split: prod.splits)
  moreover have "fl_theta_offset_sum (foc_lo (fst (foc_disable f1))) = fl_theta_offset_sum (foc_lo f1)"
    "fl_theta_cali_cnt (foc_lo (fst (foc_disable f1))) = fl_theta_cali_cnt (foc_lo f1)" "fl_e_cali (foc_lo (fst (foc_disable f1))) = fl_e_cali (foc_lo f1)"
    by (simp_all add: foc_disable_def Let_def)
  moreover have "\<bar>rt_mech_cycle_cnt (fi_rotor (foc_in f1))\<bar> \<le> \<bar>rt_mech_cycle_cnt (fi_rotor (foc_in f))\<bar> + 1"
    using f1 by (auto simp: foc_rotor_cal_def foc_cycles_def i32_ok_def Let_def split: bind_splits if_splits)
  moreover have "rt_mech_cycle_cnt (fi_rotor (foc_in (fst (foc_disable f1)))) = rt_mech_cycle_cnt (fi_rotor (foc_in f1))"
    by (simp add: foc_disable_def Let_def)
  ultimately show "fc_theta_offset (foc_cfg f') = fl_theta_offset_sum (foc_lo f) / f32_of_u32 (fl_theta_cali_cnt (foc_lo f))"
    "fl_theta_cali_cnt (foc_lo f') = 0" "fl_e_cali (foc_lo f') = FOC_CALI_FINISH" "fl_e_state (foc_lo f') = FOC_STATE_READY"
    "\<bar>rt_mech_cycle_cnt (fi_rotor (foc_in f'))\<bar> \<le> \<bar>rt_mech_cycle_cnt (fi_rotor (foc_in f))\<bar> + 1"
    using k t assms(2) by (simp_all add: foc_get_fdb_def foc_cali_finish_def Let_def)
qed

lemma foc_finish_defined:
  assumes "fl_e_state (foc_lo f) = FOC_STATE_CALI" "fl_e_cali (foc_lo f) = FOC_CALI_FINISH" "\<bar>rt_mech_cycle_cnt (fi_rotor (foc_in f))\<bar> < 2 ^ 31 - 1"
  shows "\<exists>f' evs. foc_exec L f theta adc = Some (f', evs)"
proof -
  let ?f0 = "f\<lparr>foc_lo := (foc_lo f)\<lparr>fl_exec_cnt := fl_exec_cnt (foc_lo f) + 1\<rparr>\<rparr>"
  obtain f1 where f1: "foc_rotor_cal ?f0 theta = Some f1" using foc_rotor_cal_ok [of ?f0] assms(3) by auto
  then show ?thesis using tag_rotor_cal(2,3) [OF f1] assms(1,2)
    by (simp add: foc_exec_def Let_def foc_state_step_def foc_cali_def split: prod.splits)
qed

text \<open>The output voltage after a round of the current loop.\<close>

definition foc_vmax :: "foc_t \<Rightarrow> f32" where
  "foc_vmax f = fi_v_bus (foc_in f) / SQRT_3 * pf_f32_pwm_max (fc_periph (foc_cfg f))"

lemma foc_cur_ctl_bounds:
  assumes "0 \<le> foc_vmax f" "fc_cur_div (foc_cfg f) \<le> fl_cur_div_cnt (foc_lo f) + 1"
  shows "- foc_vmax f \<le> dq_d (fo_v_dq (foc_out (foc_cur_ctl f)))" "dq_d (fo_v_dq (foc_out (foc_cur_ctl f))) \<le> foc_vmax f"
    "- foc_vmax f \<le> dq_q (fo_v_dq (foc_out (foc_cur_ctl f)))" "dq_q (fo_v_dq (foc_out (foc_cur_ctl f))) \<le> foc_vmax f"
proof -
  have c: "\<not> fl_cur_div_cnt (foc_lo f) + 1 < fc_cur_div (foc_cfg f)" using assms(2) by (simp add: linorder_not_less)
  have b: "- foc_vmax f \<le> po_val (pid_out (pid_exec_in (pid_set_max p (foc_vmax f)) r g h)) \<and>
      po_val (pid_out (pid_exec_in (pid_set_max p (foc_vmax f)) r g h)) \<le> foc_vmax f" for p r g h
    using pid_bounds(1,2) [of "pid_set_max p (foc_vmax f)" r g h] assms(1) by (simp add: pid_set_max_def)
  show "- foc_vmax f \<le> dq_d (fo_v_dq (foc_out (foc_cur_ctl f)))" "dq_d (fo_v_dq (foc_out (foc_cur_ctl f))) \<le> foc_vmax f"
    "- foc_vmax f \<le> dq_q (fo_v_dq (foc_out (foc_cur_ctl f)))" "dq_q (fo_v_dq (foc_out (foc_cur_ctl f))) \<le> foc_vmax f"
    using b unfolding foc_vmax_def by (simp_all add: foc_cur_ctl_def Let_def c)
qed

subsection \<open>An example\<close>

definition demo_motor :: motor_cfg_t where
  "demo_motor = \<lparr>mc_npp = 7, mc_ld = 1, mc_lq = 1, mc_rs = 1, mc_psi = 1, mc_wc = 1, mc_j = 1, mc_cur2tor = [0, 0, 1, 0], mc_tor2cur = [0, 0, 1, 0], mc_max_tor = 1\<rparr>"

definition demo_foc :: "foc_state_e \<Rightarrow> foc_cali_e \<Rightarrow> foc_t" where
  "demo_foc st ca = (let z = \<lparr>iuvw_u = 0, iuvw_v = 0, iuvw_w = 0\<rparr>; pc = pid_cfg demo_pid; dq = \<lparr>dq_d = 0, dq_q = 0\<rparr>; ab = \<lparr>ab_a = 0, ab_b = 0\<rparr> in
     \<lparr>foc_cfg = \<lparr>fc_exec_freq = f32_of_int 1000, fc_motor = demo_motor,
       fc_periph = \<lparr>pf_adc_full_cnt = 4096, pf_adc_cali_cnt_max = 4, pf_theta_cali_cnt_max = 10, pf_cur_range = 1, pf_vbus_range = 1, pf_adc2cur = 1,
         pf_adc2vbus = 1, pf_cur_gain = 1, pf_cur_offset = 0, pf_timer_freq = 100000, pf_pwm_freq = 100, pf_pwm_full_cnt = 1000, pf_mi = 1, pf_f32_pwm_min = 0, pf_f32_pwm_max = 1\<rparr>,
       fc_adc_offset = \<lparr>ar_i = z, ar_v_bus = 0\<rparr>, fc_theta_offset = 0, fc_ref_theta_cali_id = 1, fc_ref_theta_cali_omega = 1,
       fc_sensor_theta_comp_gain = 1, fc_theta_comp_gain = 1, fc_vel_cfg = pc, fc_pos_cfg = pc, fc_pd_cfg = pc, fc_cur_div = 1, fc_vel_div = 1, fc_pos_div = 1, fc_pd_div = 1\<rparr>,
      foc_in = \<lparr>fi_adc_raw = \<lparr>ar_i = z, ar_v_bus = 0\<rparr>, fi_v_bus = f32_of_int 24,
        fi_rotor = \<lparr>rt_theta = 0, rt_comp_theta = 0, rt_omega = 0, rt_force_theta = 0, rt_force_omega = 0, rt_sensor_theta = 0, rt_sensor_comp_theta = 0, rt_sensor_omega = 0,
          rt_obs_theta = 0, rt_obs_omega = 0, rt_fusion_theta_err = 0, rt_mech_cycle_cnt = 0, rt_mech_theta = 0, rt_mech_prev_theta = 0, rt_mech_total_theta = 0, rt_mech_omega = 0\<rparr>,
        fi_f32_i_uvw = \<lparr>uvw_u = 0, uvw_v = 0, uvw_w = 0\<rparr>, fi_i_ab = ab, fi_i_dq = dq\<rparr>,
      foc_out = out_zero,
      foc_lo = \<lparr>fl_elapsed_us = 0, fl_exec_cnt = 0, fl_adc_cali_cnt = 0, fl_theta_cali_cnt = 14, fl_theta_cali_hold_cnt = 0, fl_theta_offset_sum = 1,
        fl_ref_pvct = \<lparr>rp_pos = 0, rp_ffd_vel = 0, rp_vel = 0, rp_ffd_cur = 0, rp_cur = 0, rp_elec_tor = 0\<rparr>,
        fl_fdb_pvct = \<lparr>fp_pos = 0, fp_vel = 0, fp_cur = 0, fp_elec_tor = 0, fp_load_tor = 0\<rparr>, fl_ref_i_dq = dq, fl_comp_i_dq = dq, fl_ffd_v_dq = dq,
        fl_fault = \<lparr>ff_NULL_FUNC_PTR = False\<rparr>, fl_e_state = st, fl_e_theta = FOC_THETA_SENSOR, fl_e_mode = FOC_MODE_CUR, fl_e_last_mode = FOC_MODE_NULL, fl_e_obs = FOC_OBS_NULL, fl_e_cali = ca,
        fl_id_pid = demo_pid, fl_iq_pid = demo_pid, fl_vel_pid = demo_pid, fl_pos_pid = demo_pid, fl_pd_pid = demo_pid,
        fl_cur_div_cnt = 0, fl_vel_div_cnt = 0, fl_pos_div_cnt = 0, fl_pd_div_cnt = 0, fl_pll = demo_pll,
        fl_smo = \<lparr>smo_cfg = \<lparr>sc_fs = 1, sc_ks = 1, sc_es0 = 1, sc_motor_cfg = demo_motor\<rparr>, smo_in = \<lparr>si_i_ab = ab, si_v_ab = ab\<rparr>,
          smo_out = \<lparr>so_est_theta = 0, so_est_omega = 0\<rparr>, smo_lo = \<lparr>sl_est_i_ab = ab, sl_est_i_ab_err = ab, sl_est_emf_v_ab = ab, sl_pll = demo_pll\<rparr>\<rparr>,
        fl_hfi = demo_hfi,
        fl_lbg = (let c = \<lparr>lb_fs = 1, lb_motor = demo_motor, lb_wc = 1, lb_damp = 1\<rparr> in
          \<lparr>lbg_cfg = c, lbg_in = \<lparr>li_theta = 0, li_elec_tor = 0\<rparr>, lbg_out = \<lparr>lo_est_theta = 0, lo_est_omega = 0, lo_est_load_tor = 0, lo_sum_tor = 0\<rparr>,
           lbg_lo = \<lparr>ll_cfg = c, ll_g1 = 0, ll_kp = 0, ll_ki = 0, ll_theta_err = 0, ll_mech_theta_err = 0, ll_ki_out = 0, ll_est_omega = 0\<rparr>\<rparr>)\<rparr>\<rparr>)"

definition demo_adc :: adc_raw_t where
  "demo_adc = \<lparr>ar_i = \<lparr>iuvw_u = 10, iuvw_v = -4, iuvw_w = -6\<rparr>, ar_v_bus = 24\<rparr>"

lemma demo_foc_ok: "foc_inputs_ok (demo_foc st ca) demo_adc" "fl_e_state (foc_lo (demo_foc st ca)) = st" "fl_e_cali (foc_lo (demo_foc st ca)) = ca"
  "pf_pwm_full_cnt (fc_periph (foc_cfg (demo_foc st ca))) = 1000"
proof -
  have "duty_limits (fc_periph (foc_cfg (demo_foc st ca)))"
    by (simp add: demo_foc_def Let_def duty_limits_def f32_le_refl) (simp add: less_eq_f32_def F32_ONE_def)
  then show "foc_inputs_ok (demo_foc st ca) demo_adc"
    by (simp add: foc_inputs_ok_def foc_cfg_ok_def) (simp add: demo_foc_def Let_def demo_motor_def i32_half_def demo_adc_def)
  show "fl_e_state (foc_lo (demo_foc st ca)) = st" "fl_e_cali (foc_lo (demo_foc st ca)) = ca" "pf_pwm_full_cnt (fc_periph (foc_cfg (demo_foc st ca))) = 1000"
    by (simp_all add: demo_foc_def Let_def)
qed

subsection \<open>Properties\<close>



text \<open>C23: The step changes the state only while calibrating, at the end of the calibration to ready and at an invalid
  stage to disabled; the
  calibration advances from its start over the forward and the backward turn to its end, one at a time,
  only while calibrating, and never goes back.\<close>

theorem foc_state_machine:
  assumes "foc_inputs_ok f adc" "foc_exec L f theta adc = Some (f', evs)"
  shows "fl_e_state (foc_lo f') = foc_state_next (fl_e_state (foc_lo f)) (fl_e_cali (foc_lo f)) \<and>
    (if fl_e_state (foc_lo f) = FOC_STATE_CALI then cali_next (fl_e_cali (foc_lo f)) (fl_e_cali (foc_lo f')) else fl_e_cali (foc_lo f') = fl_e_cali (foc_lo f))"
  using foc_exec_ok [OF assms(1), of L theta] assms(2) by auto

theorem foc_state_machine_witness:
  "\<exists>f' evs. foc_exec flat_libm (demo_foc FOC_STATE_CALI FOC_CALI_FINISH) 1 demo_adc = Some (f', evs) \<and> fl_e_state (foc_lo f') = FOC_STATE_READY"
proof -
  obtain f' evs where e: "foc_exec flat_libm (demo_foc FOC_STATE_CALI FOC_CALI_FINISH) 1 demo_adc = Some (f', evs)"
    using foc_exec_ok [OF demo_foc_ok(1)] by blast
  show ?thesis using e foc_state_machine [OF demo_foc_ok(1) e] unfolding demo_foc_ok(2-4) by auto
qed

text \<open>A second calibration loses the angle: the end of the first one leaves the calibration at its end with the
  count at 0, so that calibrating again divides by zero, stores an offset that is no finite number, and the
  angle of the sensor is NaN at the next step.\<close>

theorem foc_recalibration_loses_angle:
  assumes "fl_e_state (foc_lo f) = FOC_STATE_CALI" "fl_e_cali (foc_lo f) = FOC_CALI_FINISH" "foc_exec L f theta adc = Some (f1, evs)"
    "f1' = f1\<lparr>foc_lo := (foc_lo f1)\<lparr>fl_e_state := FOC_STATE_CALI\<rparr>\<rparr>" "foc_exec L f1' theta' adc' = Some (f2, evs')"
  shows "\<not> is_fin (fc_theta_offset (foc_cfg f2)) \<and> (foc_rotor_cal f2 theta'' = Some f3 \<longrightarrow> is_nan (rt_sensor_theta (fi_rotor (foc_in f3))))"
proof -
  note e1 = foc_exec_finish [OF assms(1-3)]
  have s: "fl_e_state (foc_lo f1') = FOC_STATE_CALI" "fl_e_cali (foc_lo f1') = FOC_CALI_FINISH" "fl_theta_cali_cnt (foc_lo f1') = 0"
    using e1 assms(4) by simp_all
  have "\<not> is_fin (fc_theta_offset (foc_cfg f2))" unfolding foc_exec_finish(1) [OF s(1,2) assms(5)] s(3) by (rule div_zero_inf)
  then show ?thesis using rotor_cal_lost by blast
qed

theorem foc_recalibration_loses_angle_witness:
  "\<exists>f1 evs f2 evs'. foc_exec flat_libm (demo_foc FOC_STATE_CALI FOC_CALI_FINISH) 1 demo_adc = Some (f1, evs) \<and>
     foc_exec flat_libm (f1\<lparr>foc_lo := (foc_lo f1)\<lparr>fl_e_state := FOC_STATE_CALI\<rparr>\<rparr>) 1 demo_adc = Some (f2, evs') \<and> \<not> is_fin (fc_theta_offset (foc_cfg f2))"
proof -
  let ?f = "demo_foc FOC_STATE_CALI FOC_CALI_FINISH"
  obtain f1 evs where e: "foc_exec flat_libm ?f 1 demo_adc = Some (f1, evs)" using foc_exec_ok [OF demo_foc_ok(1)] by blast
  let ?f1 = "f1\<lparr>foc_lo := (foc_lo f1)\<lparr>fl_e_state := FOC_STATE_CALI\<rparr>\<rparr>"
  note e1 = foc_exec_finish [OF demo_foc_ok(2,3) e]
  have "rt_mech_cycle_cnt (fi_rotor (foc_in ?f)) = 0" by (simp add: demo_foc_def Let_def)
  then have "\<bar>rt_mech_cycle_cnt (fi_rotor (foc_in ?f1))\<bar> < 2 ^ 31 - 1" using e1(5) by simp
  then have "\<exists>f2 evs'. foc_exec flat_libm ?f1 1 demo_adc = Some (f2, evs')" using e1(3) by (intro foc_finish_defined) simp_all
  then obtain f2 evs' where e2: "foc_exec flat_libm ?f1 1 demo_adc = Some (f2, evs')" by blast
  have "\<not> is_fin (fc_theta_offset (foc_cfg f2))"
    using foc_recalibration_loses_angle [OF demo_foc_ok(2,3) e refl e2] by blast
  then show ?thesis using e e2 by blast
qed

text \<open>The current loop asks for a voltage within what the bus gives: after each of its rounds both components lie
  within the bus voltage over the square root of 3, scaled by the greatest duty, when that is not negative,
  whatever the references and the measured currents are.\<close>

theorem foc_voltage_bounded:
  assumes "0 \<le> foc_vmax f" "fc_cur_div (foc_cfg f) \<le> fl_cur_div_cnt (foc_lo f) + 1"
  shows "- foc_vmax f \<le> dq_d (fo_v_dq (foc_out (foc_cur_ctl f))) \<and> dq_d (fo_v_dq (foc_out (foc_cur_ctl f))) \<le> foc_vmax f \<and>
    - foc_vmax f \<le> dq_q (fo_v_dq (foc_out (foc_cur_ctl f))) \<and> dq_q (fo_v_dq (foc_out (foc_cur_ctl f))) \<le> foc_vmax f"
  using foc_cur_ctl_bounds [OF assms] by blast

theorem foc_voltage_bounded_witness:
  "dq_q (fo_v_dq (foc_out (foc_cur_ctl (demo_foc FOC_STATE_ENABLE FOC_CALI_INIT)))) \<le> f32_of_int 24 / SQRT_3 * 1"
proof -
  let ?f = "demo_foc FOC_STATE_ENABLE FOC_CALI_INIT"
  have v: "foc_vmax ?f = f32_of_int 24 / SQRT_3 * 1" by (simp add: foc_vmax_def demo_foc_def Let_def)
  have "0 \<le> f32_of_int 24 / SQRT_3 * 1" by code_simp
  moreover have "fc_cur_div (foc_cfg ?f) \<le> fl_cur_div_cnt (foc_lo ?f) + 1" by (simp add: demo_foc_def Let_def)
  ultimately show ?thesis using foc_voltage_bounded [of ?f] unfolding v by simp
qed

text \<open>C39: The angles the code wraps: the phases of the wave generators, the loop's angle however it is fed, the
  estimates of the three observers, and the sensor's electrical angle and the loop's angle after a step of the control
  are NaN or between 0 and \<open>TAU\<close>, both included; the difference between sensor and observer is NaN or
  between minus and plus half of \<open>TAU\<close>. The angles that the code takes as they come are not covered: the mechanical
  one, which is the sensor's reading, and the forced one of the calibration.\<close>

theorem angles_in_range:
  "angle_ok (sn_phase (sine_cfg (sine_exec L sine))) \<and> angle_ok (sq_phase (square_cfg (square_exec square))) \<and>
   angle_ok (pll_theta (pll_out (pll_exec_ab_in L pll ab))) \<and> angle_ok (pll_theta (pll_out (pll_exec_theta_in pll x))) \<and>
   angle_ok (pll_theta (pll_out (pll_exec_theta_err_in pll x))) \<and> angle_ok (so_est_theta (smo_out (smo_exec_in L smo ab v))) \<and>
   angle_ok (lo_est_theta (lbg_out (lbg_exec_in lbg x y))) \<and> angle_ok (ho_est_theta (hfi_out (hfi_exec_in L hfi dq))) \<and>
   angle_diff_ok (rt_fusion_theta_err (fi_rotor (foc_in (foc_fusion_err f)))) \<and>
   (foc_inputs_ok f adc \<longrightarrow> (\<exists>f' evs. foc_exec L f x adc = Some (f', evs) \<and>
      angle_ok (rt_sensor_theta (fi_rotor (foc_in f'))) \<and> angle_ok (pll_theta (pll_out (fl_pll (foc_lo f'))))))"
proof -
  have "angle_diff_ok (rt_fusion_theta_err (fi_rotor (foc_in (foc_fusion_err f))))" by (simp add: foc_fusion_err_def Let_def)
  then show ?thesis using foc_exec_ok [of f adc L x] by (auto simp: sine_phase_ok square_phase_ok smo_angle lbg_angle hfi_angle)
qed

theorem angles_in_range_witness:
  "\<exists>f' evs. foc_exec flat_libm (demo_foc FOC_STATE_READY FOC_CALI_INIT) 1 demo_adc = Some (f', evs) \<and> angle_ok (rt_sensor_theta (fi_rotor (foc_in f')))"
  using angles_in_range [where f = "demo_foc FOC_STATE_READY FOC_CALI_INIT" and adc = demo_adc and L = flat_libm and x = 1] demo_foc_ok(1) by blast

end
