(* ===== verification/Timeops.thy ===== *)
theory Timeops
  imports Ava_Prelude Float32
begin

section \<open>Time units, clocks and delays (util/timeops.h)\<close>

text \<open>
  The unit macros at the types they are used with: the ones that multiply keep the type of their
  argument and wrap around, the ones that divide give a single-precision number. A reading of the
  clock is the pair of seconds and nanoseconds that \<open>clock_gettime\<close> stores; a delay takes the
  readings it makes, in order, and is \<open>None\<close> while it has not returned. Linux build.
\<close>

subsection \<open>Units\<close>

definition NANO_PER_SEC :: u64 where
  "NANO_PER_SEC = 1000000000"

definition MICRO_PER_SEC :: u64 where
  "MICRO_PER_SEC = 1000000"

definition MILLI_PER_SEC :: u64 where
  "MILLI_PER_SEC = 1000"

definition NS2US :: "u64 \<Rightarrow> f32" where
  "NS2US ns = f32_of_u64 ns / f32_lit 1000 1"

definition NS2MS :: "u64 \<Rightarrow> f32" where
  "NS2MS ns = f32_of_u64 ns / f32_lit 1000000 1"

definition NS2S :: "u64 \<Rightarrow> f32" where
  "NS2S ns = f32_of_u64 ns / f32_lit 1000000000 1"

definition US2NS :: "'a::len word \<Rightarrow> 'a word" where
  "US2NS us = us * 1000"

definition US2MS :: "u32 \<Rightarrow> f32" where
  "US2MS us = f32_of_u32 us / f32_lit 1000 1"

definition US2S :: "u32 \<Rightarrow> f32" where
  "US2S us = f32_of_u32 us / f32_lit 1000000 1"

definition MS2NS :: "'a::len word \<Rightarrow> 'a word" where
  "MS2NS ms = ms * 1000000"

definition MS2US :: "'a::len word \<Rightarrow> 'a word" where
  "MS2US ms = ms * 1000"

definition MS2S :: "u32 \<Rightarrow> f32" where
  "MS2S ms = f32_of_u32 ms / f32_lit 1000 1"

definition S2NS :: "'a::len word \<Rightarrow> 'a word" where
  "S2NS s = s * 1000000000"

definition S2US :: "'a::len word \<Rightarrow> 'a word" where
  "S2US s = s * 1000000"

definition S2MS :: "'a::len word \<Rightarrow> 'a word" where
  "S2MS s = s * 1000"

definition HZ2S :: "f32 \<Rightarrow> f32" where
  "HZ2S hz = 1 / hz"

subsection \<open>Clocks\<close>

record timespec =
  tv_sec :: int
  tv_nsec :: int

definition get_mono_ts_ns :: "timespec \<Rightarrow> u64" where
  "get_mono_ts_ns ts = word_of_int (tv_sec ts) * NANO_PER_SEC + word_of_int (tv_nsec ts)"

definition get_mono_ts_us :: "timespec \<Rightarrow> u64" where
  "get_mono_ts_us ts = get_mono_ts_ns ts div 1000"

definition get_mono_ts_ms :: "timespec \<Rightarrow> u64" where
  "get_mono_ts_ms ts = get_mono_ts_ns ts div 1000000"

definition get_mono_ts_s :: "timespec \<Rightarrow> u64" where
  "get_mono_ts_s ts = get_mono_ts_ns ts div 1000000000"

definition get_real_ts_ns :: "timespec \<Rightarrow> u64" where
  "get_real_ts_ns ts = word_of_int (tv_sec ts) * NANO_PER_SEC + word_of_int (tv_nsec ts)"

definition get_real_ts_us :: "timespec \<Rightarrow> u64" where
  "get_real_ts_us ts = get_real_ts_ns ts div 1000"

definition get_real_ts_ms :: "timespec \<Rightarrow> u64" where
  "get_real_ts_ms ts = get_real_ts_ns ts div 1000000"

definition get_real_ts_s :: "timespec \<Rightarrow> u64" where
  "get_real_ts_s ts = get_real_ts_ns ts div 1000000000"

subsection \<open>Delays\<close>

text \<open>Any other value of the integer type is the last constructor.\<close>

datatype delay_e = SPIN | YIELD | DELAY_OTHER

text \<open>What a delay does: readings made while spinning, or a call of \<open>usleep\<close>.\<close>

datatype delay_act = Spun nat | Usleep u32 | NoDelay

fun spin_loop :: "u32 \<Rightarrow> u64 \<Rightarrow> timespec list \<Rightarrow> nat option" where
  "spin_loop us start [] = None"
| "spin_loop us start (t # ts) =
     (if get_mono_ts_us t - start < ucast us then map_option Suc (spin_loop us start ts) else Some 1)"

definition spin :: "u32 \<Rightarrow> timespec list \<Rightarrow> delay_act option" where
  "spin us ts = (case ts of [] \<Rightarrow> None | t # ts \<Rightarrow> map_option Spun (spin_loop us (get_mono_ts_us t) ts))"

definition yield_ms :: "u32 \<Rightarrow> delay_act option" where
  "yield_ms ms = Some (Usleep (1000 * ms))"

definition delay_us :: "u64 \<Rightarrow> timespec list \<Rightarrow> delay_act option" where
  "delay_us us ts = spin (ucast us) ts"

definition delay_ms :: "u64 \<Rightarrow> delay_e \<Rightarrow> timespec list \<Rightarrow> delay_act option" where
  "delay_ms ms e ts = (case e of SPIN \<Rightarrow> spin (ucast (MS2US ms)) ts | YIELD \<Rightarrow> yield_ms (ucast ms) | DELAY_OTHER \<Rightarrow> Some NoDelay)"

definition delay_s :: "u64 \<Rightarrow> delay_e \<Rightarrow> timespec list \<Rightarrow> delay_act option" where
  "delay_s s e ts = (case e of SPIN \<Rightarrow> spin (ucast (S2US s)) ts | YIELD \<Rightarrow> yield_ms (ucast (S2MS s)) | DELAY_OTHER \<Rightarrow> Some NoDelay)"

subsection \<open>How long a delay lasts\<close>

text \<open>The first reading at least \<open>n\<close> microseconds after the first one.\<close>

definition spun_until :: "nat \<Rightarrow> timespec list \<Rightarrow> nat \<Rightarrow> bool" where
  "spun_until n ts k \<longleftrightarrow> 0 < k \<and> k < length ts \<and> n \<le> unat (get_mono_ts_us (ts ! k) - get_mono_ts_us (ts ! 0)) \<and>
     (\<forall>i. 0 < i \<and> i < k \<longrightarrow> unat (get_mono_ts_us (ts ! i) - get_mono_ts_us (ts ! 0)) < n)"

lemma u32_in_u64: "x < ucast (us :: u32) \<longleftrightarrow> unat (x :: u64) < unat us"
  by (simp add: word_less_nat_alt unsigned_ucast_eq take_bit_nat_eq_self order_less_trans [OF unsigned_less])

lemma spin_loop_first:
  "spin_loop us start ts = (let n = length (takeWhile (\<lambda>t. get_mono_ts_us t - start < ucast us) ts) in
     if n < length ts then Some (Suc n) else None)"
  by (induction ts) (auto simp: Let_def)

lemma spin_ok:
  assumes "spin us ts = Some (Spun k)"
  shows "spun_until (unat us) ts k"
proof -
  let ?P = "\<lambda>t. get_mono_ts_us t - get_mono_ts_us (ts ! 0) < ucast us"
  obtain t us' where ts: "ts = t # us'" and k: "spin_loop us (get_mono_ts_us t) us' = Some k"
    using assms by (auto simp: spin_def split: list.splits)
  define n where "n = length (takeWhile ?P us')"
  have n: "n < length us'" "k = Suc n"
    using k by (simp_all add: spin_loop_first Let_def ts n_def split: if_splits)
  have "\<not> ?P (us' ! n)" using nth_length_takeWhile [of ?P us'] n(1) by (simp add: n_def)
  moreover have "?P (us' ! i)" if "i < n" for i
    using that takeWhile_nth [of i ?P us'] nth_mem [of i "takeWhile ?P us'"] set_takeWhileD [of _ ?P us'] unfolding n_def by metis
  ultimately show ?thesis
    using n by (auto simp: spun_until_def ts u32_in_u64 not_less nth_Cons' less_Suc_eq_0_disj)
qed

lemma spin_returns:
  assumes "0 < k" "k < length ts" "unat us \<le> unat (get_mono_ts_us (ts ! k) - get_mono_ts_us (ts ! 0))"
  shows "\<exists>j \<le> k. spin us ts = Some (Spun j)"
proof -
  let ?P = "\<lambda>t. get_mono_ts_us t - get_mono_ts_us (ts ! 0) < ucast us"
  obtain t us' where ts: "ts = t # us'" using assms(2) by (cases ts) auto
  obtain i where k: "k = Suc i" using assms(1) by (cases k) auto
  have "\<not> ?P (us' ! i)" "i < length us'" using assms(2,3) by (simp_all add: ts k u32_in_u64)
  then have "length (takeWhile ?P us') \<le> i"
    using takeWhile_nth [of i ?P us'] nth_mem [of i "takeWhile ?P us'"] set_takeWhileD [of _ ?P us'] by (metis linorder_not_less)
  then show ?thesis using \<open>i < length us'\<close> by (auto simp: spin_def ts spin_loop_first Let_def k)
qed

subsection \<open>Properties\<close>

text \<open>A spinning delay returns at the first reading of the clock that lies at least the delay after
  its first reading, and returns as soon as there is one; but the delay it waits for is the one
  asked for modulo \<open>2 ^ 32\<close> microseconds, so a delay of 4295 seconds lasts 33 ms.\<close>

theorem delay_spins:
  assumes "d = unat us mod 2 ^ 32 \<and> r = delay_us us ts \<or> d = unat ms * 1000 mod 2 ^ 32 \<and> r = delay_ms ms SPIN ts \<or>
    d = unat s * 1000000 mod 2 ^ 32 \<and> r = delay_s s SPIN ts"
  shows "(\<forall>a. r = Some a \<longrightarrow> (\<exists>k. a = Spun k \<and> spun_until d ts k)) \<and>
    (\<forall>k. 0 < k \<and> k < length ts \<and> d \<le> unat (get_mono_ts_us (ts ! k) - get_mono_ts_us (ts ! 0)) \<longrightarrow> (\<exists>j \<le> k. r = Some (Spun j)))"
proof -
  have m: "unat (ucast (x * c) :: u32) = unat x * unat c mod 2 ^ 32" for x c :: u64
    by (simp add: unsigned_ucast_eq unat_word_ariths take_bit_eq_mod mod_mod_cancel)
  obtain u where u: "r = spin u ts" "d = unat u"
    using assms m [of ms 1000] m [of s 1000000]
    by (auto simp: delay_us_def delay_ms_def delay_s_def MS2US_def S2US_def unsigned_ucast_eq take_bit_eq_mod)
  have "\<exists>k. a = Spun k" if "r = Some a" for a using that by (auto simp: u spin_def split: list.splits)
  then show ?thesis using spin_ok [of u ts] spin_returns [of _ ts u] by (auto simp: u)
qed

theorem delay_spins_witness:
  "delay_s 4295 SPIN [\<lparr>tv_sec = 1, tv_nsec = 0\<rparr>, \<lparr>tv_sec = 1, tv_nsec = 40000000\<rparr>] = Some (Spun 1) \<and>
   spun_until 32704 [\<lparr>tv_sec = 1, tv_nsec = 0\<rparr>, \<lparr>tv_sec = 1, tv_nsec = 40000000\<rparr>] 1"
proof -
  let ?ts = "[\<lparr>tv_sec = 1, tv_nsec = 0\<rparr>, \<lparr>tv_sec = 1, tv_nsec = 40000000\<rparr>]"
  have v: "delay_s 4295 SPIN ?ts = Some (Spun 1)" by code_simp
  show ?thesis
    using delay_spins [of 32704 0 "delay_s 4295 SPIN ?ts" ?ts 0 4295] v by auto
qed

end
