(* ===== verification/Net.thy ===== *)
theory Net
  imports Timeops Mem_Pool Log
begin

section \<open>Network channels (comm/net.h)\<close>

text \<open>
  Sockets and \<open>io_uring\<close> are outside the program: each call to them is an event with its arguments,
  and what it gives back is an argument of the operation here. A \<open>recv\<close> gives \<open>None\<close> for an error and
  otherwise the bytes it stores. The address parser of the C library is the parameter \<open>inet_addr\<close>.
  Pointers are numbers: a channel lies at the address of its list node (its first member), a request
  at the address the pool gave; the memory of a released request keeps its last content, as the pool
  does not touch it. A callback is a number, 0 for NULL; what a callback does to the network is the
  list of asynchronous calls it makes. Linux build.
\<close>

subsection \<open>Types\<close>

definition MAX_IP_SIZE :: nat where "MAX_IP_SIZE = 16"
definition MAX_RESP_BUF_SIZE :: nat where "MAX_RESP_BUF_SIZE = 1024"
definition MAX_IP_NUM :: nat where "MAX_IP_NUM = 255"

datatype net_type_e = NET_TYPE_NULL | NET_TYPE_UDP | NET_TYPE_TCP

text \<open>Any other value of the integer type is the last constructor; of \<open>net_type_e\<close>, \<open>NET_TYPE_NULL\<close>.\<close>

datatype net_mode_e = NET_MODE_SYNC_YIELD | NET_MODE_SYNC_SPIN | NET_MODE_ASYNC | NET_MODE_OTHER

datatype net_op_e = NET_OP_SEND | NET_OP_RECV

fun net_op_num :: "net_op_e \<Rightarrow> nat" where
  "net_op_num NET_OP_SEND = 0"
| "net_op_num NET_OP_RECV = 1"

record net_log_meta_t =
  lm_ts :: u64
  lm_e_op :: net_op_e
  lm_dst_ip :: u32
  lm_dst_port :: u16
  lm_size :: u32

text \<open>The packed record as bytes.\<close>

definition net_log_meta_bytes :: "net_log_meta_t \<Rightarrow> u8 list" where
  "net_log_meta_bytes m = le_bytes 8 (unat (lm_ts m)) @ le_bytes 4 (net_op_num (lm_e_op m)) @ le_bytes 4 (unat (lm_dst_ip m)) @
     le_bytes 2 (unat (lm_dst_port m)) @ le_bytes 4 (unat (lm_size m))"

record net_resp_t =
  rs_ip :: string
  rs_buf :: "u8 list"

record net_ch_t =
  ch_e_mode :: net_mode_e
  ch_dst_ip :: string
  ch_src_ip :: string
  ch_dst_port :: u16
  ch_src_port :: u16
  ch_fd :: int
  ch_f_send_cb :: nat
  ch_f_recv_cb :: nat

record net_async_req_t =
  rq_ch :: lptr
  rq_buf :: lptr
  rq_size :: usz
  rq_f_cb :: nat
  rq_processed :: bool

text \<open>\<open>sizeof(net_async_req_t)\<close>: four words and a flag, padded.\<close>

definition NET_REQ_SIZE :: usz where
  "NET_REQ_SIZE = 40"

record 'w net_cfg_t =
  nc_e_type :: net_type_e
  nc_ring_len :: u32
  nc_log_cfg :: "'w log_cfg_t option"

text \<open>\<open>nl_flush\<close>: the log has a flush callback (it has none before it is initialised).\<close>

record 'w net_lo_t =
  nl_ch_root :: lptr
  nl_log :: "'w log_t"
  nl_flush :: bool

record 'w net_t =
  net_cfg :: "'w net_cfg_t"
  net_lo :: "'w net_lo_t"
  net_mp :: mp_t
  net_nodes :: lheap
  net_chs :: "lptr \<Rightarrow> net_ch_t option"
  net_reqs :: "lptr \<Rightarrow> net_async_req_t option"

datatype net_ev =
    RingInit u32 | RingExit | Socket net_type_e | Bind int u32 u16 | Connect int u32 u16 | Close int
  | GetFl int | SetNonblock int | SetRcvTimeo int int int | Send int "u8 list" | Recv int usz | RecvNow int usz
  | GetSqe | LeftSqe lptr | PrepSend int lptr usz lptr | PrepRecv int lptr usz lptr | PrepTimeout int int lptr | Submit
  | Called nat lptr lptr int | SeenCqe | SetBroadcast int | SendTo int u32 u16 "u8 list"

subsection \<open>Opening and closing\<close>

text \<open>The port in network order, on a little-endian machine.\<close>

definition htons :: "u16 \<Rightarrow> u16" where
  "htons p = push_bit 8 p OR drop_bit 8 p"

text \<open>\<open>ret\<close> is what the set-up of the ring returns.\<close>

definition net_init :: "'w net_t \<Rightarrow> 'w net_cfg_t \<Rightarrow> int \<Rightarrow> ('w net_t \<times> int \<times> net_ev list) option" where
  "net_init net cfg ret = do {
     let net = net\<lparr>net_cfg := cfg\<rparr>; let lo = net_lo net;
     h \<leftarrow> list_init (net_nodes net) (nl_ch_root lo);
     let lo = (case nc_log_cfg cfg of None \<Rightarrow> lo | Some c \<Rightarrow> lo\<lparr>nl_log := log_init (nl_log lo) c, nl_flush := True\<rparr>);
     Some (net\<lparr>net_lo := lo, net_nodes := h\<rparr>, ret, [RingInit (nc_ring_len cfg)]) }"

text \<open>The sockets of the channels in the list, from the newest; \<open>fuel\<close> bounds the walk.\<close>

definition net_destroy :: "nat \<Rightarrow> 'w net_t \<Rightarrow> net_ev list option" where
  "net_destroy fuel net = do {
     nodes \<leftarrow> list_for_each (net_nodes net) fuel (nl_ch_root (net_lo net));
     chs \<leftarrow> those (map (net_chs net) nodes);
     Some (map (\<lambda>ch. Close (ch_fd ch)) chs @ [RingExit]) }"

text \<open>\<open>flags\<close> and \<open>ret\<close> are the results of the two calls of \<open>fcntl\<close>.\<close>

definition net_set_nonblock :: "int \<Rightarrow> int \<Rightarrow> int \<Rightarrow> int \<times> net_ev list" where
  "net_set_nonblock fd flags ret = (if flags < 0 then (flags, [GetFl fd]) else (ret, [GetFl fd, SetNonblock fd]))"

text \<open>\<open>fd\<close>, \<open>bound\<close> and \<open>conn\<close> are the results of \<open>socket\<close>, \<open>bind\<close> and \<open>connect\<close>.\<close>

definition net_add_ch :: "(string \<Rightarrow> u32) \<Rightarrow> 'w net_t \<Rightarrow> lptr \<Rightarrow> int \<Rightarrow> int \<Rightarrow> int \<Rightarrow> ('w net_t \<times> int \<times> net_ev list) option" where
  "net_add_ch inet_addr net p fd bound conn = (
     if nc_e_type (net_cfg net) = NET_TYPE_NULL then Some (net, - errcode MEINVAL, [])
     else do {
       ch \<leftarrow> net_chs net p;
       let net = net\<lparr>net_chs := (net_chs net)(p \<mapsto> ch\<lparr>ch_fd := fd\<rparr>)\<rparr>;
       let src = length (ch_src_ip ch) \<noteq> 0 \<and> ch_src_port ch \<noteq> 0;
       let ev = Socket (nc_e_type (net_cfg net)) # (if src then [Bind fd (inet_addr (ch_src_ip ch)) (htons (ch_src_port ch))] else []);
       if src \<and> bound < 0 then Some (net, bound, ev @ [Close fd])
       else do {
         let ev = ev @ [Connect fd (inet_addr (ch_dst_ip ch)) (htons (ch_dst_port ch))];
         if conn < 0 then Some (net, conn, ev @ [Close fd])
         else do {
           h \<leftarrow> list_add (net_nodes net) p (nl_ch_root (net_lo net));
           Some (net\<lparr>net_nodes := h\<rparr>, 0, ev) } } })"

subsection \<open>Synchronous calls\<close>

text \<open>The calls return what \<open>send\<close> returned, \<open>n\<close>.\<close>

definition net_sync_send :: "net_ch_t \<Rightarrow> u8 list \<Rightarrow> usz \<Rightarrow> int \<Rightarrow> (int \<times> net_ev list) option" where
  "net_sync_send ch tx sz n = do { d \<leftarrow> mem_get tx 0 (unat sz); Some (n, [Send (ch_fd ch) d]) }"

definition recv_ret :: "u8 list option \<Rightarrow> int" where
  "recv_ret r = (case r of None \<Rightarrow> - 1 | Some d \<Rightarrow> int (length d))"

definition recv_store :: "u8 list \<Rightarrow> u8 list option \<Rightarrow> u8 list option" where
  "recv_store rx r = (case r of None \<Rightarrow> Some rx | Some d \<Rightarrow> mem_put rx 0 d)"

text \<open>The time limit as seconds and microseconds.\<close>

definition rcv_timeval :: "u32 \<Rightarrow> (int \<times> int) option" where
  "rcv_timeval us = do { s \<leftarrow> f32_to_int (- (2 ^ 31)) (2 ^ 31 - 1) (US2S us); Some (s, uint (us mod 1000000)) }"

definition net_sync_recv_yield :: "net_ch_t \<Rightarrow> u8 list \<Rightarrow> usz \<Rightarrow> u32 \<Rightarrow> u8 list option \<Rightarrow> (u8 list \<times> int \<times> net_ev list) option" where
  "net_sync_recv_yield ch rx cap timeout_us r = do {
     (s, us) \<leftarrow> rcv_timeval timeout_us;
     rx \<leftarrow> recv_store rx r;
     Some (rx, recv_ret r, [SetRcvTimeo (ch_fd ch) s us, Recv (ch_fd ch) cap]) }"

text \<open>The rounds of the spinning receiver: what each \<open>recv\<close> gives and the reading of the clock after it;
  \<open>None\<close> also while it has not returned. The result of \<open>recv\<close> is cut to an \<open>int\<close>.\<close>

fun recv_spin_loop :: "u64 \<Rightarrow> u64 \<Rightarrow> u8 list \<Rightarrow> (u8 list option \<times> timespec) list \<Rightarrow> (u8 list \<times> int \<times> nat) option" where
  "recv_spin_loop limit now rx rs = (if now < limit
     then (case rs of [] \<Rightarrow> None
       | (r, t) # rs \<Rightarrow> do {
           rx \<leftarrow> recv_store rx r;
           let ret = sint (word_of_int (recv_ret r) :: u32);
           if 0 < ret then Some (rx, ret, 1)
           else do { (rx, ret, k) \<leftarrow> recv_spin_loop limit (get_mono_ts_ns t) rx rs; Some (rx, ret, Suc k) } })
     else Some (rx, - errcode METIMEOUT, 0))"

declare recv_spin_loop.simps [simp del]

definition net_sync_recv_spin :: "net_ch_t \<Rightarrow> u8 list \<Rightarrow> usz \<Rightarrow> u32 \<Rightarrow> timespec \<Rightarrow> (u8 list option \<times> timespec) list \<Rightarrow> (u8 list \<times> int \<times> net_ev list) option" where
  "net_sync_recv_spin ch rx cap timeout_us begin_ts rs = do {
     (rx, ret, k) \<leftarrow> recv_spin_loop (get_mono_ts_ns begin_ts + ucast (US2NS timeout_us)) 0 rx rs;
     Some (rx, ret, replicate k (RecvNow (ch_fd ch) cap)) }"

subsection \<open>Asynchronous calls\<close>

text \<open>\<open>sqe\<close> is the submission entry the ring gives: \<open>None\<close> when none is left, and otherwise the user data
  that its last use left in it (0 if it is new), which an entry keeps until it is prepared. When the
  pool has no room the entry has been taken and stays as it is: \<open>LeftSqe\<close>, which goes out with the
  next submission.\<close>

definition net_async_send :: "'w net_t \<Rightarrow> lptr \<Rightarrow> lptr \<Rightarrow> usz \<Rightarrow> lptr option \<Rightarrow> ('w net_t \<times> int \<times> net_ev list) option" where
  "net_async_send net p tx sz sqe = (case sqe of
     None \<Rightarrow> Some (net, - 1, [])
   | Some old \<Rightarrow> do {
       (mp, req) \<leftarrow> mp_calloc (net_mp net) NET_REQ_SIZE;
       let net = net\<lparr>net_mp := mp\<rparr>;
       if req = 0 then Some (net, - errcode MEALLOC, [GetSqe, LeftSqe old])
       else do {
         ch \<leftarrow> net_chs net p;
         let r = \<lparr>rq_ch = p, rq_buf = tx, rq_size = sz, rq_f_cb = ch_f_send_cb ch, rq_processed = False\<rparr>;
         Some (net\<lparr>net_reqs := (net_reqs net)(req \<mapsto> r)\<rparr>, sint sz, [GetSqe, PrepSend (ch_fd ch) tx sz req, Submit]) } })"

text \<open>\<open>sqe\<close> and \<open>sqe2\<close> say whether the ring has an entry left; both entries are prepared when they are
  taken. The second is used without a look at whether there is one. \<open>sub\<close> is what the submission returns.\<close>

definition net_async_recv :: "'w net_t \<Rightarrow> lptr \<Rightarrow> lptr \<Rightarrow> usz \<Rightarrow> u32 \<Rightarrow> bool \<Rightarrow> bool \<Rightarrow> int \<Rightarrow> ('w net_t \<times> int \<times> net_ev list) option" where
  "net_async_recv net p rx cap timeout_us sqe sqe2 sub = do {
     (mp, req) \<leftarrow> mp_calloc (net_mp net) NET_REQ_SIZE;
     let net = net\<lparr>net_mp := mp\<rparr>;
     if req = 0 then Some (net, - errcode MEALLOC, [])
     else do {
       ch \<leftarrow> net_chs net p;
       let r = \<lparr>rq_ch = p, rq_buf = rx, rq_size = cap, rq_f_cb = ch_f_recv_cb ch, rq_processed = False\<rparr>;
       let net = net\<lparr>net_reqs := (net_reqs net)(req \<mapsto> r)\<rparr>;
       if \<not> sqe then Some (net, - 1, [])
       else if \<not> sqe2 then None
       else do {
         (s, us) \<leftarrow> rcv_timeval timeout_us;
         Some (net, sub, [GetSqe, PrepRecv (ch_fd ch) rx cap req, GetSqe, PrepTimeout s (uint (US2NS (timeout_us mod 1000000))) req, Submit]) } } }"

text \<open>What a callback may do, and the handling of one completion: the data of the entry, its result and
  the calls the callback makes.\<close>

datatype async_call = CallSend lptr lptr usz "lptr option" | CallRecv lptr lptr usz u32 bool bool int

fun net_call :: "'w net_t \<Rightarrow> async_call \<Rightarrow> ('w net_t \<times> int \<times> net_ev list) option" where
  "net_call net (CallSend p tx sz sqe) = net_async_send net p tx sz sqe"
| "net_call net (CallRecv p rx cap t sqe sqe2 sub) = net_async_recv net p rx cap t sqe sqe2 sub"

fun net_calls :: "'w net_t \<Rightarrow> async_call list \<Rightarrow> ('w net_t \<times> net_ev list) option" where
  "net_calls net [] = Some (net, [])"
| "net_calls net (c # cs) = do {
     (net, _, ev) \<leftarrow> net_call net c;
     (net, ev') \<leftarrow> net_calls net cs;
     Some (net, ev @ ev') }"

definition net_cqe :: "'w net_t \<Rightarrow> lptr \<Rightarrow> int \<Rightarrow> async_call list \<Rightarrow> ('w net_t \<times> net_ev list) option" where
  "net_cqe net req res calls = (
     if req = 0 then Some (net, [SeenCqe])
     else do {
       r \<leftarrow> net_reqs net req;
       if rq_processed r then Some (net, [SeenCqe])
       else if rq_f_cb r = 0 then None
       else do {
         (net, ev) \<leftarrow> net_calls (net\<lparr>net_reqs := (net_reqs net)(req \<mapsto> r\<lparr>rq_processed := True\<rparr>)\<rparr>) calls;
         mp \<leftarrow> mp_free (net_mp net) req;
         Some (net\<lparr>net_mp := mp\<rparr>, Called (rq_f_cb r) (rq_ch r) (rq_buf r) res # ev @ [SeenCqe]) } })"

fun net_poll_loop :: "'w net_t \<Rightarrow> (lptr \<times> int \<times> async_call list) list \<Rightarrow> ('w net_t \<times> net_ev list) option" where
  "net_poll_loop net [] = Some (net, [])"
| "net_poll_loop net ((req, res, calls) # cs) = do {
     (net, ev) \<leftarrow> net_cqe net req res calls;
     (net, ev') \<leftarrow> net_poll_loop net cs;
     Some (net, ev @ ev') }"

definition net_poll :: "'w net_t \<Rightarrow> (lptr \<times> int \<times> async_call list) list \<Rightarrow> ('w net_t \<times> int \<times> net_ev list) option" where
  "net_poll net cqes = do { (net, ev) \<leftarrow> net_poll_loop net cqes; Some (net, 0, ev) }"

subsection \<open>Calls by the mode of the channel\<close>

text \<open>A call of the log's flush callback with \<open>n\<close> bytes of an object; the count is read as a size.\<close>

definition net_flush :: "'w net_t \<Rightarrow> u8 list \<Rightarrow> int \<Rightarrow> 'w net_t option" where
  "net_flush net buf n = (let lo = net_lo net; l = nl_log lo; c = lg_cfg l in
     if nl_flush lo then do {
       out \<leftarrow> mem_get buf 0 (unat (word_of_int n :: usz));
       Some (net\<lparr>net_lo := lo\<lparr>nl_log := l\<lparr>lg_cfg := c\<lparr>lc_fp := lc_flush c (lc_fp c) out\<rparr>\<rparr>\<rparr>\<rparr>) }
     else None)"

definition net_log :: "(string \<Rightarrow> u32) \<Rightarrow> 'w net_t \<Rightarrow> net_ch_t \<Rightarrow> net_op_e \<Rightarrow> timespec \<Rightarrow> u8 list \<Rightarrow> int \<Rightarrow> 'w net_t option" where
  "net_log inet_addr net ch oper now buf n = do {
     let m = \<lparr>lm_ts = get_real_ts_ms now, lm_e_op = oper, lm_dst_ip = inet_addr (ch_dst_ip ch), lm_dst_port = ch_dst_port ch, lm_size = word_of_int n\<rparr>;
     net \<leftarrow> net_flush net (net_log_meta_bytes m) (int (length (net_log_meta_bytes m)));
     net_flush net buf n }"

text \<open>What the system gives to a call: the result of a send, the bytes of a receive, the rounds of a
  spinning receive, the two clocks and the state of the submission ring.\<close>

record net_env =
  ne_sent :: int
  ne_recv :: "u8 list option"
  ne_rounds :: "(u8 list option \<times> timespec) list"
  ne_begin :: timespec
  ne_now :: timespec
  ne_sqe :: "lptr option"
  ne_sqe2 :: bool
  ne_submit :: int

text \<open>The buffers: address and content.\<close>

definition net_send :: "(string \<Rightarrow> u32) \<Rightarrow> net_env \<Rightarrow> 'w net_t \<Rightarrow> lptr \<Rightarrow> lptr \<Rightarrow> u8 list \<Rightarrow> usz \<Rightarrow> ('w net_t \<times> int \<times> net_ev list) option" where
  "net_send inet_addr env net p txp tx sz = do {
     ch \<leftarrow> net_chs net p;
     case ch_e_mode ch of
       NET_MODE_ASYNC \<Rightarrow> net_async_send net p txp sz (ne_sqe env)
     | NET_MODE_OTHER \<Rightarrow> Some (net, - errcode MEINVAL, [])
     | _ \<Rightarrow> do {
         (n, ev) \<leftarrow> net_sync_send ch tx sz (ne_sent env);
         net \<leftarrow> net_log inet_addr net ch NET_OP_SEND (ne_now env) tx n;
         Some (net, n, ev) } }"

definition net_recv :: "(string \<Rightarrow> u32) \<Rightarrow> net_env \<Rightarrow> 'w net_t \<Rightarrow> lptr \<Rightarrow> lptr \<Rightarrow> u8 list \<Rightarrow> usz \<Rightarrow> u32 \<Rightarrow> ('w net_t \<times> u8 list \<times> int \<times> net_ev list) option" where
  "net_recv inet_addr env net p rxp rx cap timeout_us = do {
     ch \<leftarrow> net_chs net p;
     case ch_e_mode ch of
       NET_MODE_SYNC_YIELD \<Rightarrow> do {
         (rx, n, ev) \<leftarrow> net_sync_recv_yield ch rx cap timeout_us (ne_recv env);
         net \<leftarrow> net_log inet_addr net ch NET_OP_RECV (ne_now env) rx n;
         Some (net, rx, n, ev) }
     | NET_MODE_SYNC_SPIN \<Rightarrow> do {
         (rx, n, ev) \<leftarrow> net_sync_recv_spin ch rx cap timeout_us (ne_begin env) (ne_rounds env);
         net \<leftarrow> net_log inet_addr net ch NET_OP_RECV (ne_now env) rx n;
         Some (net, rx, n, ev) }
     | NET_MODE_ASYNC \<Rightarrow> do {
         (net, n, ev) \<leftarrow> net_async_recv net p rxp cap timeout_us (ne_sqe env \<noteq> None) (ne_sqe2 env) (ne_submit env);
         Some (net, rx, n, ev) }
     | NET_MODE_OTHER \<Rightarrow> Some (net, rx, - errcode MEINVAL, []) }"

definition net_send_recv :: "(string \<Rightarrow> u32) \<Rightarrow> net_env \<Rightarrow> net_env \<Rightarrow> 'w net_t \<Rightarrow> lptr \<Rightarrow> lptr \<Rightarrow> u8 list \<Rightarrow> usz \<Rightarrow> lptr \<Rightarrow> u8 list \<Rightarrow> usz \<Rightarrow> u32 \<Rightarrow>
    ('w net_t \<times> u8 list \<times> int \<times> net_ev list) option" where
  "net_send_recv inet_addr env env' net p txp tx sz rxp rx cap timeout_us = do {
     (net, ret, ev) \<leftarrow> net_send inet_addr env net p txp tx sz;
     if ret \<le> 0 then Some (net, rx, ret, ev)
     else do {
       (net, rx, n, ev') \<leftarrow> net_recv inet_addr env' net p rxp rx cap timeout_us;
       Some (net, rx, n, ev @ ev') } }"

subsection \<open>Broadcast\<close>

text \<open>The collection of answers: in each round what \<open>recvfrom\<close> gives with the sender's address as text,
  and the reading of the clock. The array of answers is not checked against its length.\<close>

fun broadcast_loop :: "u64 \<Rightarrow> u32 \<Rightarrow> net_resp_t list \<Rightarrow> nat \<Rightarrow> ((u8 list option \<times> string) \<times> timespec) list \<Rightarrow> (net_resp_t list \<times> nat) option" where
  "broadcast_loop begin_us timeout_us resps cnt [] = None"
| "broadcast_loop begin_us timeout_us resps cnt (((r, ip), t) # rs) = do {
     (resps, cnt) \<leftarrow> (if cnt < length resps
       then do {
         buf \<leftarrow> recv_store (rs_buf (resps ! cnt)) r;
         if 0 < recv_ret r then Some (resps[cnt := \<lparr>rs_ip = ip, rs_buf = buf\<rparr>], Suc cnt)
         else Some (resps[cnt := (resps ! cnt)\<lparr>rs_buf := buf\<rparr>], cnt) }
       else if recv_ret r \<le> 0 then Some (resps, cnt) else None);
     if get_mono_ts_us t - begin_us < ucast timeout_us then broadcast_loop begin_us timeout_us resps cnt rs
     else Some (resps, cnt) }"

text \<open>\<open>fd\<close>, \<open>flags\<close>, \<open>fl\<close> and \<open>sent\<close> are the results of the calls before the first answer.\<close>

definition net_broadcast :: "(string \<Rightarrow> u32) \<Rightarrow> string \<Rightarrow> u16 \<Rightarrow> u8 list \<Rightarrow> net_resp_t list \<Rightarrow> u32 \<Rightarrow> int \<Rightarrow> int \<Rightarrow> int \<Rightarrow> int \<Rightarrow>
    timespec \<Rightarrow> ((u8 list option \<times> string) \<times> timespec) list \<Rightarrow> (net_resp_t list \<times> int \<times> net_ev list) option" where
  "net_broadcast inet_addr ip port tx resps timeout_us fd flags fl sent begin_ts rs = do {
     let ev = [Socket NET_TYPE_UDP, SetBroadcast fd] @ snd (net_set_nonblock fd flags fl) @ [SendTo fd (inet_addr ip) (htons port) tx];
     if sent \<le> 0 then Some (resps, sent, ev @ [Close fd])
     else do {
       (resps, cnt) \<leftarrow> broadcast_loop (get_mono_ts_us begin_ts) timeout_us resps 0 rs;
       Some (resps, int cnt, ev @ [Close fd]) } }"

end
