(* ===== verification/Net_Props.thy ===== *)
theory Net_Props
  imports Net "HOL-Library.Multiset"
begin

section \<open>Requests and their completions\<close>

text \<open>
  The invariant of the asynchronous calls. Every operation that the ring has accepted and not yet
  completed carries the address of its request; a receive has a second entry, its time limit, with the
  same address. An entry left unprepared carries what it held before and completes too. The request
  lives in a block of the pool until its callback has run.
\<close>

lemma req_size_ok: "mp_req_ok NET_REQ_SIZE" "unat NET_REQ_SIZE = 40"
  by (simp_all add: mp_req_ok_def NET_REQ_SIZE_def)

lemma net_pool_calloc:
  assumes "mp_client m (H \<times> {40})"
  shows "mp_calloc m NET_REQ_SIZE = Some (m, 0) \<or>
    (\<exists>m' p. mp_calloc m NET_REQ_SIZE = Some (m', p) \<and> p \<noteq> 0 \<and> p \<notin> H \<and> mp_client m' (insert p H \<times> {40}))"
proof -
  have "insert (p, unat NET_REQ_SIZE) (H \<times> {40}) = insert p H \<times> {40}" for p by (auto simp: req_size_ok)
  then show ?thesis using mp_client_calloc [OF assms req_size_ok(1)] by fastforce
qed

lemma net_pool_free:
  assumes "mp_client m (H \<times> {40})" "p \<in> H"
  shows "\<exists>m'. mp_free m p = Some m' \<and> mp_client m' ((H - {p}) \<times> {40})"
proof -
  have "(H - {p}) \<times> {40 :: nat} = H \<times> {40} - {(p, 40)}" by blast
  then show ?thesis using mp_client_free [OF assms(1), of p 40] assms(2) by simp
qed

subsection \<open>Sessions\<close>

text \<open>The requests a trace submits, the completions it will bring, and the callbacks it shows.\<close>

fun prep_of :: "net_ev \<Rightarrow> lptr list" where
  "prep_of (PrepSend fd b n p) = [p]"
| "prep_of (PrepRecv fd b n p) = [p]"
| "prep_of _ = []"

fun due_of :: "net_ev \<Rightarrow> lptr list" where
  "due_of (PrepTimeout s n p) = [p]"
| "due_of (LeftSqe p) = [p]"
| "due_of e = prep_of e"

fun called_of :: "net_ev \<Rightarrow> (nat \<times> lptr \<times> lptr) list" where
  "called_of (Called cb ch b res) = [(cb, ch, b)]"
| "called_of _ = []"

definition prepared :: "net_ev list \<Rightarrow> lptr list" where
  "prepared ev = concat (map prep_of ev)"

definition dues :: "net_ev list \<Rightarrow> lptr multiset" where
  "dues ev = mset (concat (map due_of ev))"

definition called :: "net_ev list \<Rightarrow> (nat \<times> lptr \<times> lptr) multiset" where
  "called ev = mset (concat (map called_of ev))"

lemma ev_simps [simp]: "prepared [] = []" "dues [] = {#}" "called [] = {#}"
  "prepared (a @ b) = prepared a @ prepared b" "dues (a @ b) = dues a + dues b" "called (a @ b) = called a + called b"
  "prepared (e # b) = prep_of e @ prepared b" "dues (e # b) = mset (due_of e) + dues b" "called (e # b) = mset (called_of e) + called b"
  by (simp_all add: prepared_def dues_def called_def)

text \<open>A request as its owner sees it: callback, channel and buffer.\<close>

definition req_key :: "'w net_t \<Rightarrow> lptr \<Rightarrow> nat \<times> lptr \<times> lptr" where
  "req_key net p = (let r = the (net_reqs net p) in (rq_f_cb r, rq_ch r, rq_buf r))"

definition accepted :: "'w net_t \<Rightarrow> net_ev list \<Rightarrow> (nat \<times> lptr \<times> lptr) multiset" where
  "accepted net ev = image_mset (req_key net) (mset (prepared ev))"

text \<open>Two kinds of session. With sends only, the pool must have room for each. Otherwise the pool must not
  give the block of a request that still has a completion to come, and an entry left unprepared must
  carry nothing, or a request that has been answered or has a completion to come. What is ruled out
  is the address of a receive that was refused for want of an entry: its request is never answered.\<close>

fun is_send :: "async_call \<Rightarrow> bool" where
  "is_send (CallSend p b n s) = True"
| "is_send (CallRecv p b n t s s2 r) = False"

definition new_block :: "'w net_t \<Rightarrow> lptr" where
  "new_block net = (case mp_calloc (net_mp net) NET_REQ_SIZE of None \<Rightarrow> 0 | Some (m, p) \<Rightarrow> p)"

definition left_ok :: "'w net_t \<Rightarrow> lptr multiset \<Rightarrow> lptr \<Rightarrow> bool" where
  "left_ok net P old \<longleftrightarrow> old = 0 \<or> old \<in># P \<or> (case net_reqs net old of None \<Rightarrow> False | Some r \<Rightarrow> rq_processed r)"

fun sent_ok :: "bool \<Rightarrow> 'w net_t \<Rightarrow> lptr multiset \<Rightarrow> async_call \<Rightarrow> bool" where
  "sent_ok rx net P (CallSend p b n (Some old)) = (new_block net \<noteq> 0 \<or> rx \<and> left_ok net P old)"
| "sent_ok rx net P c = True"

definition call_ok :: "bool \<Rightarrow> 'w net_t \<Rightarrow> lptr multiset \<Rightarrow> async_call \<Rightarrow> bool" where
  "call_ok rx net P c = ((if rx then new_block net = 0 \<or> new_block net \<notin># P else is_send c) \<and> sent_ok rx net P c)"

fun calls_ok :: "bool \<Rightarrow> 'w net_t \<Rightarrow> lptr multiset \<Rightarrow> async_call list \<Rightarrow> bool" where
  "calls_ok rx net P [] = True"
| "calls_ok rx net P (c # cs) = (call_ok rx net P c \<and>
     (case net_call net c of None \<Rightarrow> False | Some (net', ret, ev) \<Rightarrow> calls_ok rx net' (P + dues ev) cs))"

definition cbs_ok :: "'w net_t \<Rightarrow> bool" where
  "cbs_ok net \<longleftrightarrow> (\<forall>p ch. net_chs net p = Some ch \<longrightarrow> ch_f_send_cb ch \<noteq> 0 \<and> ch_f_recv_cb ch \<noteq> 0)"

text \<open>The state in which a callback runs: its request is marked as processed.\<close>

definition net_mark :: "'w net_t \<Rightarrow> lptr \<Rightarrow> 'w net_t" where
  "net_mark net p = net\<lparr>net_reqs := (net_reqs net)(p \<mapsto> (the (net_reqs net p))\<lparr>rq_processed := True\<rparr>)\<rparr>"

text \<open>\<open>P\<close> holds the completions to come, \<open>A\<close> the requests accepted and \<open>C\<close> those whose callback ran. The
  system completes any outstanding operation at any time with any result; an entry left unprepared
  counts from the call that left it.\<close>

inductive net_sess :: "bool \<Rightarrow> 'w net_t \<Rightarrow> lptr multiset \<Rightarrow> (nat \<times> lptr \<times> lptr) multiset \<Rightarrow> (nat \<times> lptr \<times> lptr) multiset \<Rightarrow> bool" for rx where
  start: "mp_client (net_mp net) {} \<Longrightarrow> cbs_ok net \<Longrightarrow> net_sess rx net {#} {#} {#}"
| calls: "\<lbrakk>net_sess rx net P A C; calls_ok rx net P cs; net_calls net cs = Some (net', ev)\<rbrakk> \<Longrightarrow>
    net_sess rx net' (P + dues ev) (A + accepted net' ev) C"
| poll: "\<lbrakk>net_sess rx net P A C; p \<in># P; calls_ok rx (net_mark net p) (P - {#p#}) cs; net_poll net [(p, res, cs)] = Some (net', ret, ev)\<rbrakk> \<Longrightarrow>
    net_sess rx net' (P - {#p#} + dues ev) (A + accepted net' ev) (C + called ev)"

subsection \<open>The invariant\<close>

text \<open>\<open>L\<close>: requests waiting; \<open>B\<close>: the request whose callback runs; \<open>H\<close>: blocks held.\<close>

definition net_inv :: "bool \<Rightarrow> 'w net_t \<Rightarrow> lptr multiset \<Rightarrow> (nat \<times> lptr \<times> lptr) multiset \<Rightarrow> (nat \<times> lptr \<times> lptr) multiset \<Rightarrow> lptr set \<Rightarrow> lptr set \<Rightarrow> lptr set \<Rightarrow> bool" where
  "net_inv rx net P A C L B H \<longleftrightarrow> mp_client (net_mp net) (H \<times> {40}) \<and> cbs_ok net \<and> finite L \<and> L \<union> B \<subseteq> H \<and> L \<inter> B = {} \<and>
     (\<forall>p \<in> L. p \<in># P \<and> (\<exists>r. net_reqs net p = Some r \<and> \<not> rq_processed r \<and> rq_f_cb r \<noteq> 0)) \<and>
     0 \<notin> L \<and> (\<forall>p \<in># P. p = 0 \<or> p \<in> L \<or> (\<exists>r. net_reqs net p = Some r \<and> rq_processed r)) \<and>
     A = C + image_mset (req_key net) (mset_set L) \<and> (\<not> rx \<longrightarrow> P = mset_set L \<and> H = L \<union> B)"

text \<open>A new request enters.\<close>

lemma net_inv_new:
  assumes i: "net_inv rx net P A C L B H" and m: "mp_client mp (insert p H \<times> {40})" and p: "p \<notin> H" "p \<noteq> 0" "p \<notin># P"
    and r: "\<not> rq_processed r" "rq_f_cb r \<noteq> 0" and D: "set_mset D = {p}" "\<not> rx \<Longrightarrow> D = {#p#}"
    and n: "net' = net\<lparr>net_mp := mp, net_reqs := (net_reqs net)(p \<mapsto> r)\<rparr>"
  shows "net_inv rx net' (P + D) (A + {#req_key net' p#}) C (insert p L) B (insert p H)"
proof -
  have l: "p \<notin> L" "p \<notin> B" "finite L" using i p by (auto simp: net_inv_def)
  have "image_mset (req_key net') (mset_set L) = image_mset (req_key net) (mset_set L)"
    using l by (intro image_mset_cong) (auto simp: n req_key_def)
  moreover have "mset_set (insert p L) = add_mset p (mset_set L)" using l by simp
  moreover have "cbs_ok net'" using i by (simp add: net_inv_def cbs_ok_def n)
  ultimately show ?thesis using i m p r D l unfolding net_inv_def by (auto simp: n)
qed

lemma net_inv_leak:
  assumes i: "net_inv rx net P A C L B H" and m: "mp_client mp (insert p H \<times> {40})" and p: "p \<notin> H" "p \<notin># P"
    and n: "net' = net\<lparr>net_mp := mp, net_reqs := (net_reqs net)(p \<mapsto> r)\<rparr>" and rx
  shows "net_inv rx net' P A C L B (insert p H)"
proof -
  have l: "p \<notin> L" "p \<notin> B" "finite L" using i p by (auto simp: net_inv_def)
  have "image_mset (req_key net') (mset_set L) = image_mset (req_key net) (mset_set L)"
    using l by (intro image_mset_cong) (auto simp: n req_key_def)
  moreover have "cbs_ok net'" using i by (simp add: net_inv_def cbs_ok_def n)
  ultimately show ?thesis using i m p l \<open>rx\<close> unfolding net_inv_def by (auto simp: n)
qed

text \<open>What a call leaves of the rest of the state.\<close>

definition net_ext :: "'w net_t \<Rightarrow> 'w net_t \<Rightarrow> net_ev list \<Rightarrow> lptr set \<Rightarrow> lptr set \<Rightarrow> lptr set \<Rightarrow> bool" where
  "net_ext net net' ev L L' B \<longleftrightarrow> L \<subseteq> L' \<and> set (prepared ev) \<subseteq> L' \<and> (\<forall>q \<in> L \<union> B. net_reqs net' q = net_reqs net q) \<and> called ev = {#}"

lemma mp_same [simp]: "net\<lparr>net_mp := net_mp net\<rparr> = net"
  by (cases net) simp

lemma calloc_cases:
  assumes i: "net_inv rx net P A C L B H" and c: "call_ok rx net P c"
  obtains (full) "mp_calloc (net_mp net) NET_REQ_SIZE = Some (net_mp net, 0)"
    | (new) mp p where "mp_calloc (net_mp net) NET_REQ_SIZE = Some (mp, p)" "p \<noteq> 0" "p \<notin> H" "p \<notin># P" "mp_client mp (insert p H \<times> {40})"
proof -
  have "p \<notin># P" if "mp_calloc (net_mp net) NET_REQ_SIZE = Some (mp, p)" "p \<noteq> 0" "p \<notin> H" for mp p
    using i c that by (cases rx) (auto simp: call_ok_def new_block_def net_inv_def)
  moreover have "mp_client (net_mp net) (H \<times> {40})" using i by (simp add: net_inv_def)
  ultimately show thesis using net_pool_calloc [of "net_mp net" H] that by blast
qed

lemma net_stay:
  assumes "net_inv rx net P A C L B H" "prepared ev = []" "dues ev = {#}" "called ev = {#}"
  shows "\<exists>L' H'. net_inv rx net (P + dues ev) (A + accepted net ev) C L' B H' \<and> net_ext net net ev L L' B"
  using assms by (intro exI [of _ L] exI [of _ H]) (simp add: accepted_def net_ext_def)

lemma net_send_inv:
  assumes i: "net_inv rx net P A C L B H" and k: "call_ok rx net P (CallSend ch tx sz sqe)"
    and e: "net_async_send net ch tx sz sqe = Some (net', ret, ev)"
  shows "\<exists>L' H'. net_inv rx net' (P + dues ev) (A + accepted net' ev) C L' B H' \<and> net_ext net net' ev L L' B"
proof (cases sqe)
  case None
  then show ?thesis using net_stay [OF i, of ev] e by (auto simp: net_async_send_def)
next
  case (Some old)
  from i k show ?thesis
  proof (cases rule: calloc_cases)
    case full
    then have n: "net' = net" "ev = [GetSqe, LeftSqe old]" using e Some by (auto simp: net_async_send_def)
    have "rx" "left_ok net P old" using full k Some by (auto simp: call_ok_def new_block_def)
    then have "net_inv rx net (P + {#old#}) A C L B H" using i by (auto simp: net_inv_def left_ok_def split: option.splits)
    then show ?thesis by (intro exI [of _ L] exI [of _ H]) (simp add: n accepted_def net_ext_def)
  next
    case (new mp p)
    then obtain c where c: "net_chs net ch = Some c" using e Some by (auto simp: net_async_send_def Let_def split: bind_split_asm)
    let ?r = "\<lparr>rq_ch = ch, rq_buf = tx, rq_size = sz, rq_f_cb = ch_f_send_cb c, rq_processed = False\<rparr>"
    have n: "net' = net\<lparr>net_mp := mp, net_reqs := (net_reqs net)(p \<mapsto> ?r)\<rparr>" "ev = [GetSqe, PrepSend (ch_fd c) tx sz p, Submit]"
      using e Some new(1,2) c by (auto simp: net_async_send_def Let_def)
    have "rq_f_cb ?r \<noteq> 0" using i c by (auto simp: net_inv_def cbs_ok_def)
    then have "net_inv rx net' (P + {#p#}) (A + {#req_key net' p#}) C (insert p L) B (insert p H)"
      using net_inv_new [OF i new(5,3,2,4), of ?r "{#p#}" net'] n(1) by simp
    moreover have "net_ext net net' ev L (insert p L) B"
      using i new(3) by (auto simp: net_ext_def n net_inv_def)
    ultimately show ?thesis by (auto simp: accepted_def n(2))
  qed
qed

lemma net_recv_inv:
  assumes i: "net_inv rx net P A C L B H" and k: "call_ok rx net P (CallRecv ch b cap t sqe sqe2 sub)"
    and e: "net_async_recv net ch b cap t sqe sqe2 sub = Some (net', ret, ev)"
  shows "\<exists>L' H'. net_inv rx net' (P + dues ev) (A + accepted net' ev) C L' B H' \<and> net_ext net net' ev L L' B"
proof -
  have rx using k by (simp add: call_ok_def split: if_splits)
  from i k show ?thesis
  proof (cases rule: calloc_cases)
    case full
    then show ?thesis using net_stay [OF i, of ev] e by (auto simp: net_async_recv_def)
  next
    case (new mp p)
    then obtain c where c: "net_chs net ch = Some c" using e by (auto simp: net_async_recv_def Let_def split: bind_split_asm)
    let ?r = "\<lparr>rq_ch = ch, rq_buf = b, rq_size = cap, rq_f_cb = ch_f_recv_cb c, rq_processed = False\<rparr>"
    have n: "net' = net\<lparr>net_mp := mp, net_reqs := (net_reqs net)(p \<mapsto> ?r)\<rparr>"
      using e new(1,2) c by (auto simp: net_async_recv_def Let_def split: if_splits bind_split_asm)
    show ?thesis
    proof (cases sqe)
      case False
      then have "ev = []" using e new(1,2) c by (auto simp: net_async_recv_def)
      moreover have "net_ext net net' [] L L B" using i new(3) by (auto simp: net_ext_def n net_inv_def)
      ultimately show ?thesis using net_inv_leak [OF i new(5,3,4) n \<open>rx\<close>] by (auto simp: accepted_def)
    next
      case True
      then obtain s ns where ev: "ev = [GetSqe, PrepRecv (ch_fd c) b cap p, GetSqe, PrepTimeout s ns p, Submit]"
        using e new(1,2) c by (auto simp: net_async_recv_def Let_def split: if_splits bind_split_asm)
      have "rq_f_cb ?r \<noteq> 0" using i c by (auto simp: net_inv_def cbs_ok_def)
      then have "net_inv rx net' (P + {#p, p#}) (A + {#req_key net' p#}) C (insert p L) B (insert p H)"
        using net_inv_new [OF i new(5,3,2,4), of ?r "{#p, p#}" net'] n(1) \<open>rx\<close> by simp
      moreover have "net_ext net net' ev L (insert p L) B"
        using i new(3) by (auto simp: net_ext_def n ev net_inv_def)
      ultimately show ?thesis by (auto simp: accepted_def ev)
    qed
  qed
qed

lemma net_call_inv:
  assumes "net_inv rx net P A C L B H" "call_ok rx net P c" "net_call net c = Some (net', ret, ev)"
  shows "\<exists>L' H'. net_inv rx net' (P + dues ev) (A + accepted net' ev) C L' B H' \<and> net_ext net net' ev L L' B"
  using assms net_send_inv net_recv_inv by (cases c) (simp_all, blast+)

lemma net_calls_inv:
  "net_inv rx net P A C L B H \<Longrightarrow> calls_ok rx net P cs \<Longrightarrow> net_calls net cs = Some (net', ev) \<Longrightarrow>
   \<exists>L' H'. net_inv rx net' (P + dues ev) (A + accepted net' ev) C L' B H' \<and> net_ext net net' ev L L' B"
proof (induction cs arbitrary: net P A L H ev)
  case Nil
  then show ?case using net_stay [of rx net P A C L B H "[]"] by simp
next
  case (Cons c cs)
  obtain n1 ret e1 e2 where n1: "net_call net c = Some (n1, ret, e1)" "net_calls n1 cs = Some (net', e2)" "ev = e1 @ e2"
    using Cons.prems(3) by (auto split: bind_split_asm)
  then have k: "call_ok rx net P c" "calls_ok rx n1 (P + dues e1) cs" using Cons.prems(2) by auto
  obtain L1 H1 where 1: "net_inv rx n1 (P + dues e1) (A + accepted n1 e1) C L1 B H1" "net_ext net n1 e1 L L1 B"
    using net_call_inv [OF Cons.prems(1) k(1) n1(1)] by blast
  obtain L2 H2 where 2: "net_inv rx net' (P + dues e1 + dues e2) (A + accepted n1 e1 + accepted net' e2) C L2 B H2" "net_ext n1 net' e2 L1 L2 B"
    using Cons.IH [OF 1(1) k(2) n1(2)] by blast
  have "accepted net' e1 = accepted n1 e1"
    unfolding accepted_def using 1(2) 2(2) by (intro image_mset_cong) (auto simp: net_ext_def req_key_def subset_iff)
  moreover have "net_ext net net' ev L L2 B" using 1(2) 2(2) unfolding net_ext_def n1(3) by auto
  ultimately show ?case using 2(1) by (auto simp: n1(3) accepted_def add.assoc)
qed

lemma net_mark_inv:
  assumes i: "net_inv rx net P A C L {} H" and p: "p \<in> L"
  shows "net_inv rx (net_mark net p) (P - {#p#}) A (C + {#req_key net p#}) (L - {p}) {p} H"
proof -
  have f: "finite L" and P: "p \<in># P" using i p by (auto simp: net_inv_def)
  have "image_mset (req_key (net_mark net p)) (mset_set (L - {p})) = image_mset (req_key net) (mset_set (L - {p}))"
    using f by (intro image_mset_cong) (auto simp: net_mark_def req_key_def)
  moreover have "mset_set L = add_mset p (mset_set (L - {p}))" using mset_set.remove [OF f p] by simp
  moreover have "q \<in># P - {#p#}" if "q \<in> L - {p}" for q using i that by (auto simp: net_inv_def in_diff_count)
  moreover have "q = 0 \<or> q \<in> L - {p} \<or> (\<exists>r. net_reqs (net_mark net p) q = Some r \<and> rq_processed r)" if "q \<in># P - {#p#}" for q
  proof (cases "q = p")
    case True
    then show ?thesis using i P by (auto simp: net_inv_def net_mark_def)
  next
    case False
    then have "q \<in># P" using that by (auto dest: in_diffD)
    then show ?thesis using i False by (auto simp: net_inv_def net_mark_def)
  qed
  moreover have "cbs_ok (net_mark net p)" using i by (simp add: net_inv_def cbs_ok_def net_mark_def)
  ultimately show ?thesis using i p unfolding net_inv_def by (auto simp: net_mark_def)
qed

lemma net_free_inv:
  assumes i: "net_inv rx net P A C L {p} H"
  shows "\<exists>mp. mp_free (net_mp net) p = Some mp \<and> net_inv rx (net\<lparr>net_mp := mp\<rparr>) P A C L {} (H - {p})"
proof -
  have p: "p \<in> H" "p \<notin> L" using i by (auto simp: net_inv_def)
  have "mp_client (net_mp net) (H \<times> {40})" using i by (simp add: net_inv_def)
  then obtain mp where m: "mp_free (net_mp net) p = Some mp" "mp_client mp ((H - {p}) \<times> {40})"
    using net_pool_free [OF _ p(1)] by blast
  have "req_key (net\<lparr>net_mp := mp\<rparr>) = req_key net" by (simp add: fun_eq_iff req_key_def)
  then have "net_inv rx (net\<lparr>net_mp := mp\<rparr>) P A C L {} (H - {p})"
    using i m(2) p unfolding net_inv_def by (auto simp: cbs_ok_def)
  then show ?thesis using m(1) by blast
qed

text \<open>A completion of a waiting request: its callback runs and its block is released.\<close>

lemma net_cqe_live:
  assumes i: "net_inv rx net P A C L {} H" and p: "p \<in> L" and k: "calls_ok rx (net_mark net p) (P - {#p#}) cs"
    and e: "net_calls (net_mark net p) cs = Some (n1, e1)"
  shows "\<exists>net' L' H' k. k = req_key net p \<and> net_cqe net p res cs = Some (net', Called (fst k) (fst (snd k)) (snd (snd k)) res # e1 @ [SeenCqe]) \<and>
    called e1 = {#} \<and> net_inv rx net' (P - {#p#} + dues e1) (A + accepted net' e1) (C + {#k#}) L' {} H'"
proof -
  obtain L1 H1 where 1: "net_inv rx n1 (P - {#p#} + dues e1) (A + accepted n1 e1) (C + {#req_key net p#}) L1 {p} H1"
      "net_ext (net_mark net p) n1 e1 (L - {p}) L1 {p}"
    using net_calls_inv [OF net_mark_inv [OF i p] k e] by blast
  obtain mp where mp: "mp_free (net_mp n1) p = Some mp"
      "net_inv rx (n1\<lparr>net_mp := mp\<rparr>) (P - {#p#} + dues e1) (A + accepted n1 e1) (C + {#req_key net p#}) L1 {} (H1 - {p})"
    using net_free_inv [OF 1(1)] by blast
  obtain r where r: "net_reqs net p = Some r" "\<not> rq_processed r" "rq_f_cb r \<noteq> 0" using i p by (auto simp: net_inv_def)
  have "p \<noteq> 0" using i p by (cases "p = 0") (simp_all add: net_inv_def)
  then have "net_cqe net p res cs = Some (n1\<lparr>net_mp := mp\<rparr>, Called (rq_f_cb r) (rq_ch r) (rq_buf r) res # e1 @ [SeenCqe])"
    using r e mp(1) by (simp add: net_cqe_def net_mark_def)
  moreover have "req_key (n1\<lparr>net_mp := mp\<rparr>) = req_key n1" by (simp add: fun_eq_iff req_key_def)
  then have "accepted (n1\<lparr>net_mp := mp\<rparr>) e1 = accepted n1 e1" by (simp add: accepted_def)
  ultimately show ?thesis using mp(2) 1(2) r by (auto simp: net_ext_def req_key_def)
qed

text \<open>A completion of a request that was answered before has no effect.\<close>

lemma net_cqe_done:
  assumes i: "net_inv rx net P A C L {} H" and p: "p \<in># P" "p \<notin> L"
  shows "net_cqe net p res cs = Some (net, [SeenCqe]) \<and> net_inv rx net (P - {#p#}) A C L {} H"
proof -
  have "q \<in># P - {#p#}" if "q \<in> L" for q using i that p(2) by (auto simp: net_inv_def in_diff_count)
  moreover have "q \<in># P" if "q \<in># P - {#p#}" for q using that by (rule in_diffD)
  moreover have "rx" using i p by (cases rx) (auto simp: net_inv_def)
  ultimately have "net_inv rx net (P - {#p#}) A C L {} H" using i unfolding net_inv_def by blast
  then show ?thesis using i p by (auto simp: net_inv_def net_cqe_def)
qed

lemma net_sess_inv: "net_sess rx net P A C \<Longrightarrow> \<exists>L H. net_inv rx net P A C L {} H"
proof (induction rule: net_sess.induct)
  case (start net)
  then show ?case by (intro exI [of _ "{}"]) (simp add: net_inv_def)
next
  case (calls net P A C cs net' ev)
  then show ?case using net_calls_inv by blast
next
  case (poll net P A C p cs res net' ret ev)
  then obtain L H where i: "net_inv rx net P A C L {} H" by blast
  have e: "net_cqe net p res cs = Some (net', ev)" using poll.hyps(4) by (auto simp: net_poll_def split: bind_split_asm)
  show ?case
  proof (cases "p \<in> L")
    case True
    then obtain n1 e1 where "net_calls (net_mark net p) cs = Some (n1, e1)"
      using i e by (auto simp: net_inv_def net_cqe_def net_mark_def split: bind_split_asm if_splits)
    from net_cqe_live [OF i True poll.hyps(3) this, of res] show ?thesis using e by (auto simp: accepted_def)
  next
    case False
    then show ?thesis using net_cqe_done [OF i poll.hyps(2) False, of res cs] e i by (auto simp: accepted_def)
  qed
qed

subsection \<open>Channels\<close>

text \<open>Adding channels one after another, with what the system answers: channel, socket, results of
  \<open>bind\<close> and \<open>connect\<close>.\<close>

fun net_adds :: "(string \<Rightarrow> u32) \<Rightarrow> 'w net_t \<Rightarrow> (lptr \<times> int \<times> int \<times> int) list \<Rightarrow> ('w net_t \<times> net_ev list) option" where
  "net_adds inet_addr net [] = Some (net, [])"
| "net_adds inet_addr net ((p, fd, bound, conn) # as) = do {
     (net, _, ev) \<leftarrow> net_add_ch inet_addr net p fd bound conn;
     (net, ev') \<leftarrow> net_adds inet_addr net as;
     Some (net, ev @ ev') }"

fun closed_of :: "net_ev \<Rightarrow> int list" where
  "closed_of (Close fd) = [fd]"
| "closed_of _ = []"

definition closes :: "net_ev list \<Rightarrow> int multiset" where
  "closes ev = mset (concat (map closed_of ev))"

lemma closes_simps [simp]: "closes [] = {#}" "closes (a @ b) = closes a + closes b" "closes (e # b) = mset (closed_of e) + closes b"
  by (simp_all add: closes_def)

lemma closes_map: "closes (map (\<lambda>x. Close (f x)) xs) = image_mset f (mset xs)"
  by (induction xs) simp_all

text \<open>The list of channels and their sockets.\<close>

definition ch_list :: "'w net_t \<Rightarrow> lptr list \<Rightarrow> bool" where
  "ch_list net xs \<longleftrightarrow> ring (net_nodes net) (nl_ch_root (net_lo net) # xs) \<and> (\<forall>p \<in> set xs. net_chs net p \<noteq> None)"

definition ch_fds :: "'w net_t \<Rightarrow> lptr list \<Rightarrow> int multiset" where
  "ch_fds net xs = image_mset (\<lambda>p. ch_fd (the (net_chs net p))) (mset xs)"

definition ch_free :: "'w net_t \<Rightarrow> lptr list \<Rightarrow> lptr \<Rightarrow> bool" where
  "ch_free net xs p \<longleftrightarrow> p \<in> live (net_nodes net) \<and> p \<notin> set xs \<and> p \<noteq> nl_ch_root (net_lo net) \<and> net_chs net p \<noteq> None"

lemma ch_fds_other:
  "p \<notin> set xs \<Longrightarrow> ch_fds (net\<lparr>net_chs := (net_chs net)(p \<mapsto> c)\<rparr>) xs = ch_fds net xs"
  "ch_fds (net\<lparr>net_nodes := h\<rparr>) xs = ch_fds net xs"
  unfolding ch_fds_def by (auto intro: image_mset_cong)

lemma net_add_ch_list:
  assumes l: "ch_list net xs" and p: "ch_free net xs p" and t: "nc_e_type (net_cfg net) \<noteq> NET_TYPE_NULL"
  shows "\<exists>net' ret ev xs'. net_add_ch inet_addr net p fd bound conn = Some (net', ret, ev) \<and> net_cfg net' = net_cfg net \<and>
    ch_list net' xs' \<and> set xs' \<subseteq> insert p (set xs) \<and> (\<forall>q. q \<noteq> p \<longrightarrow> ch_free net xs q \<longrightarrow> ch_free net' xs' q) \<and>
    length xs' \<le> Suc (length xs) \<and> ch_fds net' xs' + closes ev = add_mset fd (ch_fds net xs)"
proof -
  obtain ch where ch: "net_chs net p = Some ch" using p by (auto simp: ch_free_def)
  let ?n = "net\<lparr>net_chs := (net_chs net)(p \<mapsto> ch\<lparr>ch_fd := fd\<rparr>)\<rparr>"
  have r: "ring (net_nodes net) (nl_ch_root (net_lo net) # xs)" using l by (simp add: ch_list_def)
  have pf: "p \<in> live (net_nodes net)" "p \<notin> set (nl_ch_root (net_lo net) # xs)" "p \<notin> set xs" using p by (auto simp: ch_free_def)
  obtain h where h: "list_add (net_nodes net) p (nl_ch_root (net_lo net)) = Some h"
      "ring h (nl_ch_root (net_lo net) # p # xs)" "live h = live (net_nodes net)"
    using list_add_ring [OF r pf(1,2)] by (auto simp: touched_def)
  have fail: "ch_list ?n xs \<and> (\<forall>q. q \<noteq> p \<longrightarrow> ch_free net xs q \<longrightarrow> ch_free ?n xs q) \<and> ch_fds ?n xs = ch_fds net xs"
    using l pf(3) ch_fds_other(1) [OF pf(3), of net] by (auto simp: ch_list_def ch_free_def)
  have "ch_fds ?n (p # xs) = add_mset fd (ch_fds net xs)"
    using ch_fds_other(1) [OF pf(3), of net] by (simp add: ch_fds_def)
  then have good: "ch_list (?n\<lparr>net_nodes := h\<rparr>) (p # xs) \<and> (\<forall>q. q \<noteq> p \<longrightarrow> ch_free net xs q \<longrightarrow> ch_free (?n\<lparr>net_nodes := h\<rparr>) (p # xs) q) \<and>
      ch_fds (?n\<lparr>net_nodes := h\<rparr>) (p # xs) = add_mset fd (ch_fds net xs)"
    using l h ch_fds_other(2) [where net = ?n and h = h and xs = "p # xs"] by (auto simp: ch_list_def ch_free_def)
  let ?src = "length (ch_src_ip ch) \<noteq> 0 \<and> ch_src_port ch \<noteq> 0"
  show ?thesis
  proof (cases "\<not> (?src \<and> bound < 0) \<and> 0 \<le> conn")
    case True
    then obtain ev where "net_add_ch inet_addr net p fd bound conn = Some (?n\<lparr>net_nodes := h\<rparr>, 0, ev)" "closes ev = {#}"
      using t ch h(1) by (auto simp: net_add_ch_def Let_def)
    then show ?thesis using good by (intro exI [of _ "?n\<lparr>net_nodes := h\<rparr>"] exI [of _ 0] exI [of _ ev] exI [of _ "p # xs"]) auto
  next
    case False
    then obtain ret ev where "net_add_ch inet_addr net p fd bound conn = Some (?n, ret, ev)" "closes ev = {#fd#}"
      using t ch by (cases "?src \<and> bound < 0") (auto simp: net_add_ch_def Let_def)
    then show ?thesis using fail by (intro exI [of _ ?n] exI [of _ ret] exI [of _ ev] exI [of _ xs]) auto
  qed
qed

lemma net_adds_list:
  "ch_list net xs \<Longrightarrow> \<forall>a \<in> set as. ch_free net xs (fst a) \<Longrightarrow> distinct (map fst as) \<Longrightarrow> nc_e_type (net_cfg net) \<noteq> NET_TYPE_NULL \<Longrightarrow>
   \<exists>net' ev xs'. net_adds inet_addr net as = Some (net', ev) \<and> ch_list net' xs' \<and> length xs' \<le> length xs + length as \<and>
     ch_fds net' xs' + closes ev = ch_fds net xs + image_mset (\<lambda>a. fst (snd a)) (mset as)"
proof (induction as arbitrary: net xs)
  case Nil
  then show ?case by auto
next
  case (Cons a as)
  obtain p fd bound conn where a: "a = (p, fd, bound, conn)" by (cases a)
  obtain n1 ret e1 x1 where 1: "net_add_ch inet_addr net p fd bound conn = Some (n1, ret, e1)" "net_cfg n1 = net_cfg net"
      "ch_list n1 x1" "\<forall>q. q \<noteq> p \<longrightarrow> ch_free net xs q \<longrightarrow> ch_free n1 x1 q" "length x1 \<le> Suc (length xs)"
      "ch_fds n1 x1 + closes e1 = add_mset fd (ch_fds net xs)"
    using net_add_ch_list [OF Cons.prems(1) _ Cons.prems(4), of p inet_addr fd bound conn] Cons.prems(2) by (auto simp: a)
  have "\<forall>b \<in> set as. ch_free n1 x1 (fst b)" using 1(4) Cons.prems(2,3) by (force simp: a)
  then obtain net' e2 xs' where 2: "net_adds inet_addr n1 as = Some (net', e2)" "ch_list net' xs'" "length xs' \<le> length x1 + length as"
      "ch_fds net' xs' + closes e2 = ch_fds n1 x1 + image_mset (\<lambda>a. fst (snd a)) (mset as)"
    using Cons.IH [OF 1(3)] Cons.prems(3,4) 1(2) by auto
  have "ch_fds net' xs' + closes (e1 @ e2) = ch_fds net xs + image_mset (\<lambda>a. fst (snd a)) (mset (a # as))"
    using 1(6) 2(4) by (simp add: a ac_simps)
  then show ?case using 1(1,5) 2(1-3) by (intro exI [of _ net'] exI [of _ "e1 @ e2"] exI [of _ xs']) (auto simp: a)
qed

lemma those_map: "\<forall>x \<in> set xs. f x \<noteq> None \<Longrightarrow> those (map f xs) = Some (map (\<lambda>x. the (f x)) xs)"
  by (induction xs) auto

lemma net_destroy_list:
  assumes "ch_list net xs" "length xs < fuel"
  shows "\<exists>ev. net_destroy fuel net = Some ev \<and> closes ev = ch_fds net xs"
proof -
  have "list_for_each (net_nodes net) fuel (nl_ch_root (net_lo net)) = Some xs"
    using list_for_each_ring(1) assms by (auto simp: ch_list_def)
  moreover have "those (map (net_chs net) xs) = Some (map (\<lambda>p. the (net_chs net p)) xs)"
    using assms(1) by (intro those_map) (simp add: ch_list_def)
  ultimately show ?thesis by (simp add: net_destroy_def closes_map ch_fds_def multiset.map_comp comp_def)
qed

subsection \<open>Example\<close>

text \<open>A network with its list head at 4 and two channels at 8 and 16, over the pool of the example.\<close>

definition demo_log_cfg :: "u8 list log_cfg_t" where
  "demo_log_cfg = \<lparr>lc_mode = LOG_MODE_SYNC, lc_level = LOG_LEVEL_DATA, lc_fp = [], lc_buf = [], lc_cap = 0, lc_flush_buf = [],
     lc_flush_cap = 0, lc_producers = [], lc_flush = (\<lambda>w out. w @ out)\<rparr>"

definition demo_ch :: net_ch_t where
  "demo_ch = \<lparr>ch_e_mode = NET_MODE_SYNC_YIELD, ch_dst_ip = ''10.0.0.1'', ch_src_ip = [], ch_dst_port = 80, ch_src_port = 0,
     ch_fd = 3, ch_f_send_cb = 1, ch_f_recv_cb = 2\<rparr>"

definition demo_net :: "mp_t \<Rightarrow> u8 list net_t" where
  "demo_net mp = \<lparr>net_cfg = \<lparr>nc_e_type = NET_TYPE_UDP, nc_ring_len = 8, nc_log_cfg = Some demo_log_cfg\<rparr>,
    net_lo = \<lparr>nl_ch_root = 4, nl_log = \<lparr>lg_cfg = demo_log_cfg, lg_mpsc = \<lparr>mq_buf = [], mq_cap = 0, mq_warp_end = 0, mq_wp = 0, mq_rp = 0, mq_producers = []\<rparr>, lg_busy = False\<rparr>, nl_flush = True\<rparr>,
    net_mp = mp, net_nodes = (\<lambda>p. if p = 4 then Some \<lparr>lh_prev = 4, lh_next = 4\<rparr> else if p = 8 \<or> p = 16 then Some \<lparr>lh_prev = 0, lh_next = 0\<rparr> else None),
    net_chs = (\<lambda>p. if p = 8 \<or> p = 16 then Some demo_ch else None), net_reqs = (\<lambda>p. None)\<rparr>"

lemma calloc_alloc: "mp_client m (H \<times> {40}) \<Longrightarrow> mp_alloc m NET_REQ_SIZE = Some (m', p) \<Longrightarrow> mp_calloc m NET_REQ_SIZE = Some (m', p)"
  using net_pool_calloc [of m H] by (auto simp: mp_calloc_def split: if_splits bind_split_asm)

text \<open>A pool with room for one request: it gives the block and has no other.\<close>

lemma demo_full:
  "\<exists>m0 m1 m2 p. mp_calloc m0 NET_REQ_SIZE = Some (m1, p) \<and> p \<noteq> 0 \<and> mp_calloc m1 NET_REQ_SIZE = Some (m1, 0) \<and> mp_free m1 p = Some m2"
proof -
  obtain m where m: "mp_ready m []" using demo_init by blast
  have q: "mp_req_ok 65448" "blk_size (unat (65448 :: usz)) = 65472" "blk_size (unat NET_REQ_SIZE) = 64"
    by (simp_all add: mp_req_ok_def blk_size_def req_size_ok)
  have o: "unat (mp_off m) = 0" using m by (simp add: mp_ready_def mp_inv_def)
  obtain m0 where m0: "mp_alloc m 65448 = Some (m0, mp_buf m + 24)" "mp_ready m0 [(mp_buf m, 65472, False)]" "mp_root m0 = mp_root m"
    using mp_alloc_fresh [OF m q(1)] q(2) o by auto
  have o0: "unat (mp_off m0) = 65472" "mp_buf m0 = mp_buf m" using m0(2,3) by (auto simp: mp_ready_def mp_inv_def mp_buf_def)
  obtain m1 where m1: "mp_alloc m0 NET_REQ_SIZE = Some (m1, mp_buf m + 65472 + 24)"
      "mp_ready m1 ([(mp_buf m, 65472, False)] @ (mp_buf m + 65472, 64, False) # [])" "mp_root m1 = mp_root m0"
    using mp_alloc_fresh [OF m0(2) req_size_ok(1)] q(3) o0 by auto
  have o1: "unat (mp_off m1) = 65536" "mp_buf m1 = mp_buf m" using m1(2,3) m0(3) by (auto simp: mp_ready_def mp_inv_def mp_buf_def)
  have n: "mp_alloc m1 NET_REQ_SIZE = Some (m1, 0)"
    using mp_alloc_none [OF m1(2) req_size_ok(1)] q(3) o1(1) by simp
  obtain m2 where "mp_free m1 (mp_buf m + 65472 + 24) = Some m2" using mp_free_block [OF m1(2)] by blast
  then show ?thesis using m1(1) n mp_calloc_alloc [OF m0(2) req_size_ok(1)] mp_calloc_alloc [OF m1(2) req_size_ok(1)] by fastforce
qed

text \<open>The pool gives the block that was just released.\<close>

lemma demo_reuse:
  "\<exists>m0 m1 m2 m3 p. mp_client m0 {} \<and> mp_calloc m0 NET_REQ_SIZE = Some (m1, p) \<and> p \<noteq> 0 \<and> mp_free m1 p = Some m2 \<and>
     mp_calloc m2 NET_REQ_SIZE = Some (m3, p)"
proof -
  obtain m0 where m0: "mp_ready m0 []" "mp_client m0 {}" using demo_init by blast
  have b: "blk_size (unat NET_REQ_SIZE) = 64" by (simp add: blk_size_def req_size_ok)
  have o0: "mp_off m0 = 0" using m0(1) by (simp add: mp_ready_def mp_inv_def unsigned_eq_0_iff)
  obtain m1 where m1: "mp_alloc m0 NET_REQ_SIZE = Some (m1, mp_buf m0 + 24)" "mp_ready m1 ([] @ (mp_buf m0, 64, False) # [])" "mp_root m1 = mp_root m0"
    using mp_alloc_fresh [OF m0(1) req_size_ok(1)] b o0 by auto
  obtain m2 where m2: "mp_free m1 (mp_buf m0 + 24) = Some m2" "mp_ready m2 [(mp_buf m0, 64, True)]"
    using mp_free_block [OF m1(2)] by auto
  let ?P = "\<lambda>x. MP_BLOCK_HEADER_SIZE + MP_ALIGN_UP NET_REQ_SIZE \<le> mp_sz m2 x"
  have "find ?P (free_addrs [(mp_buf m0, 64, True)]) \<noteq> None"
    using mp_fits_iff [of m2 "[(mp_buf m0, 64, True)]" NET_REQ_SIZE] m2(2) req_size_ok(1) b by (simp add: mp_ready_def)
  then have "find ?P (free_addrs [(mp_buf m0, 64, True)]) = Some (mp_buf m0)" by (simp split: if_splits)
  then obtain m3 where m3: "mp_alloc m2 NET_REQ_SIZE = Some (m3, mp_buf m0 + 24)"
    using mp_alloc_found [OF m2(2) req_size_ok(1)] by blast
  have c1: "mp_client m1 ({mp_buf m0 + 24} \<times> {40})"
    using mp_client.alloc [OF m0(2) req_size_ok(1) m1(1)] by (simp add: req_size_ok)
  then have "mp_client m2 ({} \<times> {40})" using net_pool_free [OF c1, of "mp_buf m0 + 24"] m2(1) by simp
  then show ?thesis using m0(2) m1(1) m2(1) m3 calloc_alloc [of m0 "{}"] calloc_alloc [of m2 "{}"] by fastforce
qed

subsection \<open>Properties\<close>

text \<open>C8: Over a pool of the network's own and channels with both callbacks set, every accepted request has its callback run exactly once, with its
  own channel and buffer, whatever the order of the completions and whatever calls the callbacks
  make: the accepted requests are those answered and those with an operation outstanding, every
  completion can be handled and runs the callback of the waiting request or nothing. This holds
  for the sessions in which no call is given the block of a request that has a completion still to
  come, and no entry that a failed allocation leaves unprepared carries the address of a receive that
  was refused; completions of such entries are among those that may come at any time. It also holds for
  the sessions with sends only in which the pool has room for each send that is given an entry,
  and there the pool holds exactly the requests still outstanding.\<close>

theorem net_requests_answered:
  assumes "net_sess rx net P A C"
  shows "\<exists>L. finite L \<and> L \<subseteq> set_mset P \<and> A = C + image_mset (req_key net) (mset_set L) \<and>
    (\<forall>p \<in># P. \<forall>res. \<exists>net' ev. net_poll net [(p, res, [])] = Some (net', 0, ev) \<and> called ev = (if p \<in> L then {#req_key net p#} else {#})) \<and>
    (\<not> rx \<longrightarrow> P = mset_set L \<and> mp_client (net_mp net) (L \<times> {40}))"
proof -
  obtain L H where i: "net_inv rx net P A C L {} H" using net_sess_inv [OF assms] by blast
  have "\<exists>net' ev. net_poll net [(p, res, [])] = Some (net', 0, ev) \<and> called ev = (if p \<in> L then {#req_key net p#} else {#})" if "p \<in># P" for p res
  proof (cases "p \<in> L")
    case True
    from net_cqe_live [OF i True, of "[]" _ _ res] show ?thesis using True by (fastforce simp: net_poll_def)
  next
    case False
    from net_cqe_done [OF i that False, of res "[]"] show ?thesis using False by (simp add: net_poll_def)
  qed
  then show ?thesis using i by (intro exI [of _ L]) (auto simp: net_inv_def)
qed

theorem net_requests_answered_witness:
  "\<exists>(net :: u8 list net_t) P p. net_sess False net P {#(1, 8, 2000)#} {#} \<and> p \<in># P \<and>
     (\<exists>net' ev. net_poll net [(p, 5, [])] = Some (net', 0, ev) \<and> called ev = {#(1, 8, 2000)#})"
proof -
  obtain m0 m1 p where m: "mp_client m0 {}" "mp_calloc m0 NET_REQ_SIZE = Some (m1, p)" "p \<noteq> 0" using demo_reuse by blast
  let ?r = "\<lparr>rq_ch = 8, rq_buf = 2000, rq_size = 5, rq_f_cb = 1, rq_processed = False\<rparr>"
  let ?n = "(demo_net m0)\<lparr>net_mp := m1, net_reqs := (\<lambda>q. None)(p \<mapsto> ?r)\<rparr>" and ?ev = "[GetSqe, PrepSend 3 2000 5 p, Submit]"
  have d: "net_mp (demo_net m0) = m0" "net_chs (demo_net m0) 8 = Some demo_ch" "net_reqs (demo_net m0) = (\<lambda>q. None)" "cbs_ok (demo_net m0)"
    by (simp_all add: demo_net_def cbs_ok_def demo_ch_def)
  then have c: "net_calls (demo_net m0) [CallSend 8 2000 5 (Some 0)] = Some (?n, ?ev)"
    using m(2,3) by (simp add: net_async_send_def demo_ch_def)
  then have k: "calls_ok False (demo_net m0) {#} [CallSend 8 2000 5 (Some 0)]" using m(2,3) d(1) by (simp add: call_ok_def new_block_def split: bind_split_asm)
  have "mp_client (net_mp (demo_net m0)) {}" using d(1) m(1) by simp
  from net_sess.calls [OF net_sess.start [OF this d(4)] k c]
  have "net_sess False ?n ({#} + dues ?ev) ({#} + accepted ?n ?ev) {#}" .
  then have s: "net_sess False ?n {#p#} {#(1, 8, 2000)#} {#}" by (simp add: accepted_def req_key_def)
  from net_requests_answered [OF s] obtain L where L: "{#p#} = mset_set L" "finite L"
      "\<forall>q \<in># {#p#}. \<forall>res. \<exists>net' ev. net_poll ?n [(q, res, [])] = Some (net', 0, ev) \<and> called ev = (if q \<in> L then {#req_key ?n q#} else {#})"
    by auto
  have "p \<in># mset_set L" using L(1) by (metis multi_member_last)
  then have "p \<in> L" using L(2) by simp
  then have "\<exists>net' ev. net_poll ?n [(p, 5, [])] = Some (net', 0, ev) \<and> called ev = {#(1, 8, 2000)#}"
    using L(3) [rule_format, of p 5] by (simp add: req_key_def)
  then show ?thesis using s by - (rule exI [of _ ?n], rule exI [of _ "{#p#}"], rule exI [of _ p], simp)
qed

text \<open>C26: A receive has two completions to come, its own and that of its time limit, both with the address
  of its request, and the first one releases the request. If the next call is given the same
  block, the late completion is taken for that of the new request: the new callback runs with the
  foreign result, its block is released while its operation is still going on, and its own
  completion is dropped.\<close>

theorem net_stale_completion:
  assumes c: "mp_client (net_mp net) (H \<times> {40})" "net_chs net ch = Some c" "ch_f_send_cb c \<noteq> 0" "ch_f_recv_cb c \<noteq> 0"
    and r: "net_async_recv net ch rx cap t True True sub = Some (n1, ret, [GetSqe, PrepRecv (ch_fd c) rx cap p, GetSqe, PrepTimeout s ns p, Submit])"
    and p: "net_poll n1 [(p, res, [])] = Some (n2, 0, ev2)"
    and a: "mp_calloc (net_mp n2) NET_REQ_SIZE = Some (mp, p)"
  shows "ev2 = [Called (ch_f_recv_cb c) ch rx res, SeenCqe] \<and>
    (\<exists>n3 n4. net_async_send n2 ch tx sz (Some old) = Some (n3, sint sz, [GetSqe, PrepSend (ch_fd c) tx sz p, Submit]) \<and>
      net_poll n3 [(p, late, [])] = Some (n4, 0, [Called (ch_f_send_cb c) ch tx late, SeenCqe]) \<and>
      mp_client (net_mp n4) (H \<times> {40}) \<and> net_poll n4 [(p, own, [])] = Some (n4, 0, [SeenCqe]))"
proof -
  obtain m1 where m1: "mp_calloc (net_mp net) NET_REQ_SIZE = Some (m1, p)" "p \<noteq> 0"
    using r c(2) by (auto simp: net_async_recv_def Let_def split: if_splits bind_split_asm)
  then have h1: "p \<notin> H" "mp_client m1 (insert p H \<times> {40})" using net_pool_calloc [OF c(1)] by auto
  let ?r = "\<lparr>rq_ch = ch, rq_buf = rx, rq_size = cap, rq_f_cb = ch_f_recv_cb c, rq_processed = False\<rparr>"
  have n1: "n1 = net\<lparr>net_mp := m1, net_reqs := (net_reqs net)(p \<mapsto> ?r)\<rparr>"
    using r m1 c(2) by (auto simp: net_async_recv_def Let_def split: bind_split_asm)
  obtain m2 where m2: "mp_free m1 p = Some m2" "mp_client m2 (H \<times> {40})"
    using net_pool_free [OF h1(2), of p] h1(1) by (auto simp: insert_Diff_if)
  have n2: "n2 = n1\<lparr>net_mp := m2, net_reqs := (net_reqs net)(p \<mapsto> ?r\<lparr>rq_processed := True\<rparr>)\<rparr>" "ev2 = [Called (ch_f_recv_cb c) ch rx res, SeenCqe]"
    using p m2(1) m1(2) c(4) by (auto simp: n1 net_poll_def net_cqe_def)
  have a2: "mp_calloc m2 NET_REQ_SIZE = Some (mp, p)" using a by (simp add: n2)
  then have h3: "mp_client mp (insert p H \<times> {40})" using net_pool_calloc [OF m2(2)] m1(2) by auto
  obtain m4 where m4: "mp_free mp p = Some m4" "mp_client m4 (H \<times> {40})"
    using net_pool_free [OF h3, of p] h1(1) by (auto simp: insert_Diff_if)
  let ?q = "\<lparr>rq_ch = ch, rq_buf = tx, rq_size = sz, rq_f_cb = ch_f_send_cb c, rq_processed = False\<rparr>"
  let ?n3 = "n2\<lparr>net_mp := mp, net_reqs := (net_reqs n2)(p \<mapsto> ?q)\<rparr>"
  let ?n4 = "?n3\<lparr>net_mp := m4, net_reqs := (net_reqs n2)(p \<mapsto> ?q\<lparr>rq_processed := True\<rparr>)\<rparr>"
  have "net_async_send n2 ch tx sz (Some old) = Some (?n3, sint sz, [GetSqe, PrepSend (ch_fd c) tx sz p, Submit])"
    using a2 m1(2) c(2) by (simp add: net_async_send_def n2 n1)
  moreover have "net_poll ?n3 [(p, late, [])] = Some (?n4, 0, [Called (ch_f_send_cb c) ch tx late, SeenCqe])"
    using m1(2) c(3) m4(1) by (simp add: net_poll_def net_cqe_def)
  moreover have "net_poll ?n4 [(p, own, [])] = Some (?n4, 0, [SeenCqe])"
    using m1(2) by (simp add: net_poll_def net_cqe_def)
  ultimately show ?thesis using n2(2) m4(2) by (intro conjI exI [of _ ?n3] exI [of _ ?n4]) simp_all
qed

text \<open>The entry left by a send for which the pool has no room still carries what it held before. When that is
  a request still waiting, the completion of the entry answers it: the callback runs with a result
  that is not of its operation, the block is released while the operation is going on, and the
  operation's own completion is dropped.\<close>

theorem net_unprepared_entry:
  "\<exists>n0 n1 n2 p. net_async_send n0 8 2000 5 (Some 0) = Some (n1, 5, [GetSqe, PrepSend 3 2000 5 p, Submit]) \<and>
     net_async_send n1 8 3000 7 (Some p) = Some (n1, - 6, [GetSqe, LeftSqe p]) \<and>
     net_poll n1 [(p, 0, [])] = Some (n2, 0, [Called 1 8 2000 0, SeenCqe]) \<and> net_poll (n2 :: u8 list net_t) [(p, 5, [])] = Some (n2, 0, [SeenCqe])"
proof -
  obtain m0 m1 m2 p where m: "mp_calloc m0 NET_REQ_SIZE = Some (m1, p)" "p \<noteq> 0" "mp_calloc m1 NET_REQ_SIZE = Some (m1, 0)" "mp_free m1 p = Some m2"
    using demo_full by blast
  let ?r = "\<lparr>rq_ch = 8, rq_buf = 2000, rq_size = 5, rq_f_cb = 1, rq_processed = False\<rparr>"
  let ?n1 = "(demo_net m0)\<lparr>net_mp := m1, net_reqs := (\<lambda>q. None)(p \<mapsto> ?r)\<rparr>"
  let ?n2 = "?n1\<lparr>net_mp := m2, net_reqs := (\<lambda>q. None)(p \<mapsto> ?r\<lparr>rq_processed := True\<rparr>)\<rparr>"
  have d: "net_mp (demo_net m0) = m0" "net_chs (demo_net m0) 8 = Some demo_ch" "net_reqs (demo_net m0) = (\<lambda>q. None)"
    by (simp_all add: demo_net_def)
  have "net_async_send (demo_net m0) 8 2000 5 (Some 0) = Some (?n1, 5, [GetSqe, PrepSend 3 2000 5 p, Submit])"
    using m(1,2) d by (simp add: net_async_send_def demo_ch_def)
  moreover have "net_async_send ?n1 8 3000 7 (Some p) = Some (?n1, - 6, [GetSqe, LeftSqe p])"
    using m(3) by (simp add: net_async_send_def)
  moreover have "net_poll ?n1 [(p, 0, [])] = Some (?n2, 0, [Called 1 8 2000 0, SeenCqe])" using m(2,4) by (simp add: net_poll_def net_cqe_def)
  moreover have "net_poll ?n2 [(p, 5, [])] = Some (?n2, 0, [SeenCqe])" using m(2) by (simp add: net_poll_def net_cqe_def)
  ultimately show ?thesis by blast
qed

lemma rcv_timeval_demo: "rcv_timeval 1000 = Some (0, 1000)"
  by code_simp

theorem net_stale_completion_witness:
  "\<exists>n2 n3 n4 (p :: lptr). net_async_send n2 8 3000 7 (Some 0) = Some (n3, 7, [GetSqe, PrepSend 3 3000 7 p, Submit]) \<and>
     net_poll n3 [(p, - 125, [])] = Some (n4, 0, [Called 1 8 3000 (- 125), SeenCqe]) \<and> net_poll (n4 :: u8 list net_t) [(p, 7, [])] = Some (n4, 0, [SeenCqe])"
proof -
  obtain m0 m1 m2 m3 p where m: "mp_client m0 {}" "mp_calloc m0 NET_REQ_SIZE = Some (m1, p)" "p \<noteq> 0" "mp_free m1 p = Some m2"
      "mp_calloc m2 NET_REQ_SIZE = Some (m3, p)" using demo_reuse by blast
  let ?r = "\<lparr>rq_ch = 8, rq_buf = 2000, rq_size = 64, rq_f_cb = 2, rq_processed = False\<rparr>"
  let ?n1 = "(demo_net m0)\<lparr>net_mp := m1, net_reqs := (\<lambda>q. None)(p \<mapsto> ?r)\<rparr>"
  let ?n2 = "?n1\<lparr>net_mp := m2, net_reqs := (\<lambda>q. None)(p \<mapsto> ?r\<lparr>rq_processed := True\<rparr>)\<rparr>"
  have d: "net_mp (demo_net m0) = m0" "net_chs (demo_net m0) 8 = Some demo_ch" "net_reqs (demo_net m0) = (\<lambda>q. None)"
    by (simp_all add: demo_net_def)
  have c: "ch_fd demo_ch = 3" "ch_f_send_cb demo_ch = 1" "ch_f_recv_cb demo_ch = 2" by (simp_all add: demo_ch_def)
  have r: "net_async_recv (demo_net m0) 8 2000 64 1000 True True 2 =
      Some (?n1, 2, [GetSqe, PrepRecv (ch_fd demo_ch) 2000 64 p, GetSqe, PrepTimeout 0 1000000 p, Submit])"
    using m(2,3) d c by (simp add: net_async_recv_def rcv_timeval_demo US2NS_def)
  have p: "net_poll ?n1 [(p, 5, [])] = Some (?n2, 0, [Called 2 8 2000 5, SeenCqe])"
    using m(3,4) by (simp add: net_poll_def net_cqe_def)
  have a: "mp_calloc (net_mp ?n2) NET_REQ_SIZE = Some (m3, p)" using m(5) by simp
  have h: "mp_client (net_mp (demo_net m0)) ({} \<times> {40})" using m(1) d(1) by simp
  show ?thesis
    using net_stale_completion [OF h d(2) _ _ r p a, where late = "- 125" and own = 7 and old = 0 and tx = 3000 and sz = 7] c by auto
qed

text \<open>C29: Every socket is closed exactly once: whatever \<open>bind\<close> and \<open>connect\<close> answer for each channel added,
  its socket is closed at once when one of them fails, and otherwise by the final tear-down, which
  ends and visits every channel once; a socket that could not be opened (\<open>-1\<close>) is treated the same.\<close>

theorem net_sockets_closed:
  assumes "ring (net_nodes net) [nl_ch_root (net_lo net)]" "nc_e_type (net_cfg net) \<noteq> NET_TYPE_NULL"
    and "distinct (map fst as)" "\<forall>a \<in> set as. ch_free net [] (fst a)" "length as < fuel"
  shows "\<exists>net' ev ev'. net_adds inet_addr net as = Some (net', ev) \<and> net_destroy fuel net' = Some ev' \<and>
    closes (ev @ ev') = image_mset (\<lambda>a. fst (snd a)) (mset as)"
proof -
  have "ch_list net []" using assms(1) by (simp add: ch_list_def)
  from net_adds_list [OF this assms(4,3,2), of inet_addr]
  obtain net' ev xs' where a: "net_adds inet_addr net as = Some (net', ev)" "ch_list net' xs'" "length xs' \<le> length as"
      "ch_fds net' xs' + closes ev = image_mset (\<lambda>a. fst (snd a)) (mset as)" by (auto simp: ch_fds_def)
  moreover obtain ev' where "net_destroy fuel net' = Some ev'" "closes ev' = ch_fds net' xs'"
    using net_destroy_list [OF a(2), of fuel] a(3) assms(5) by auto
  ultimately show ?thesis by (intro exI [of _ net'] exI [of _ ev] exI [of _ ev']) (simp add: add.commute)
qed

theorem net_sockets_closed_witness:
  "\<exists>net' ev ev'. net_adds (\<lambda>s. 0) (demo_net demo_pool) [(8, 5, 0, 0), (16, 6, 0, - 1)] = Some (net', ev) \<and> net_destroy 3 net' = Some ev' \<and>
     closes (ev @ ev') = {#5, 6#}"
proof -
  have "net_nodes (demo_net demo_pool) = (\<lambda>p. if p = 4 then Some \<lparr>lh_prev = 4, lh_next = 4\<rparr> else if p = 8 \<or> p = 16 then Some \<lparr>lh_prev = 0, lh_next = 0\<rparr> else None)"
    "nl_ch_root (net_lo (demo_net demo_pool)) = 4" "nc_e_type (net_cfg (demo_net demo_pool)) = NET_TYPE_UDP"
    "net_chs (demo_net demo_pool) 8 \<noteq> None" "net_chs (demo_net demo_pool) 16 \<noteq> None" by (simp_all add: demo_net_def)
  then show ?thesis
    using net_sockets_closed [of "demo_net demo_pool" "[(8, 5, 0, 0), (16, 6, 0, - 1)]" 3 "\<lambda>s. 0"]
    by (simp add: ch_free_def live_def ring_def cyc_def linked_def nx_def pv_def)
qed

subsubsection \<open>Logged calls\<close>

lemma mem_get_int:
  assumes "length buf < 2 ^ 63" "- (2 ^ 63) \<le> n" "n < 2 ^ 63"
  shows "mem_get buf 0 (unat (word_of_int n :: usz)) = (if 0 \<le> n \<and> n \<le> int (length buf) then Some (take (nat n) buf) else None)"
proof (cases "0 \<le> n")
  case True
  then have "uint (word_of_int n :: usz) = n" using assms by (simp add: unsigned_of_int take_bit_int_eq_self)
  then have "unat (word_of_int n :: usz) = nat n" by (simp add: unat_eq_nat_uint)
  then show ?thesis using True by (auto simp: mem_get_def)
next
  case False
  have "take_bit 64 n = take_bit 64 (n + 2 ^ 64)" by (simp add: take_bit_eq_mod)
  also have "\<dots> = n + 2 ^ 64" using False assms by (intro take_bit_int_eq_self) simp_all
  finally have "uint (word_of_int n :: usz) = n + 2 ^ 64" using False assms by (simp add: unsigned_of_int)
  then have "unat (word_of_int n :: usz) = nat (n + 2 ^ 64)" by (simp add: unat_eq_nat_uint)
  then show ?thesis using False assms by (auto simp: mem_get_def)
qed

lemma net_flush_cases:
  assumes "length buf < 2 ^ 63" "- (2 ^ 63) \<le> n" "n < 2 ^ 63"
  shows "net_flush net buf n = None \<and> \<not> (nl_flush (net_lo net) \<and> 0 \<le> n \<and> n \<le> int (length buf)) \<or>
    nl_flush (net_lo net) \<and> 0 \<le> n \<and> n \<le> int (length buf) \<and> (\<exists>net'. net_flush net buf n = Some net' \<and> nl_flush (net_lo net') = nl_flush (net_lo net))"
  using mem_get_int [OF assms] by (auto simp: net_flush_def Let_def)

lemma net_log_cases:
  assumes "length buf < 2 ^ 63" "- (2 ^ 63) \<le> n" "n < 2 ^ 63"
  shows "(net_log inet_addr net ch oper now buf n \<noteq> None) = (nl_flush (net_lo net) \<and> 0 \<le> n \<and> n \<le> int (length buf))"
proof -
  let ?m = "net_log_meta_bytes \<lparr>lm_ts = get_real_ts_ms now, lm_e_op = oper, lm_dst_ip = inet_addr (ch_dst_ip ch), lm_dst_port = ch_dst_port ch, lm_size = word_of_int n\<rparr>"
  have "length ?m = 22" by (simp add: net_log_meta_bytes_def)
  then consider "net_flush net ?m (int (length ?m)) = None" "\<not> nl_flush (net_lo net)"
    | net' where "net_flush net ?m (int (length ?m)) = Some net'" "nl_flush (net_lo net)" "nl_flush (net_lo net')"
    using net_flush_cases [of ?m "int (length ?m)" net] by auto
  then show ?thesis
  proof cases
    case 1
    then show ?thesis by (simp add: net_log_def)
  next
    case 2
    then show ?thesis using net_flush_cases [OF assms, of net'] by (auto simp: net_log_def)
  qed
qed

lemma recv_spin_length: "recv_spin_loop limit now rx rs = Some (rx', ret, k) \<Longrightarrow> length rx' = length rx"
proof (induction limit now rx rs arbitrary: k rule: recv_spin_loop.induct)
  case (1 limit now rx rs)
  have st: "recv_store b r = Some b' \<Longrightarrow> length b' = length b" for b r b'
    by (auto simp: recv_store_def mem_put_length split: option.splits)
  show ?case
  proof (cases "now < limit")
    case True
    then obtain r t rs' b where "rs = (r, t) # rs'" "recv_store rx r = Some b"
      using "1.prems" by (auto simp: recv_spin_loop.simps [of limit now] split: list.splits bind_split_asm)
    then show ?thesis using "1.prems" "1.IH" [OF True _ refl] st True
      by (auto simp: recv_spin_loop.simps [of limit now] Let_def split: if_splits bind_split_asm)
  next
    case False
    then show ?thesis using "1.prems" by (simp add: recv_spin_loop.simps [of limit now])
  qed
qed

text \<open>C30: The length that a synchronous call hands to the log is its result read as a size: a send is defined
  exactly when the log is set up and the result is no error and within the buffer, and a receive
  that fails, or whose time limit passes, always reads outside the buffer.\<close>

theorem net_logged_calls:
  assumes ch: "net_chs net p = Some ch" "ch_e_mode ch \<in> {NET_MODE_SYNC_YIELD, NET_MODE_SYNC_SPIN}"
    and len: "length tx < 2 ^ 63" "length rx < 2 ^ 63" "unat sz \<le> length tx" "- (2 ^ 63) \<le> ne_sent env" "ne_sent env < 2 ^ 63"
  shows "(net_send inet_addr env net p txp tx sz \<noteq> None) = (nl_flush (net_lo net) \<and> 0 \<le> ne_sent env \<and> ne_sent env \<le> int (length tx)) \<and>
    (ch_e_mode ch = NET_MODE_SYNC_YIELD \<and> ne_recv env = None \<longrightarrow> net_recv inet_addr env net p rxp rx cap t = None) \<and>
    (ch_e_mode ch = NET_MODE_SYNC_SPIN \<and> net_sync_recv_spin ch rx cap t (ne_begin env) (ne_rounds env) = Some (rx', - errcode METIMEOUT, ev) \<longrightarrow>
      net_recv inet_addr env net p rxp rx cap t = None)"
proof (intro conjI impI)
  have "net_sync_send ch tx sz (ne_sent env) = Some (ne_sent env, [Send (ch_fd ch) (take (unat sz) tx)])"
    using len(3) by (simp add: net_sync_send_def mem_get_def)
  then show "(net_send inet_addr env net p txp tx sz \<noteq> None) = (nl_flush (net_lo net) \<and> 0 \<le> ne_sent env \<and> ne_sent env \<le> int (length tx))"
    using net_log_cases [OF len(1,4,5), of inet_addr net ch NET_OP_SEND "ne_now env"] ch
    by (cases "ch_e_mode ch") (auto simp: net_send_def)
  have fail: "net_log inet_addr net ch oper now b n = None" if "length b < 2 ^ 63" "n < 0" "- 10 \<le> n" for oper now b n
    using net_log_cases [OF that(1), of n inet_addr net ch oper now] that by auto
  assume "ch_e_mode ch = NET_MODE_SYNC_YIELD \<and> ne_recv env = None"
  then show "net_recv inet_addr env net p rxp rx cap t = None"
    using ch(1) fail [OF len(2), of "- 1"] by (auto simp: net_recv_def net_sync_recv_yield_def recv_store_def recv_ret_def intro!: bind_eq_None_conv [THEN iffD2])
next
  have fail: "net_log inet_addr net ch oper now b n = None" if "length b < 2 ^ 63" "n < 0" "- 10 \<le> n" for oper now b n
    using net_log_cases [OF that(1), of n inet_addr net ch oper now] that by auto
  assume a: "ch_e_mode ch = NET_MODE_SYNC_SPIN \<and> net_sync_recv_spin ch rx cap t (ne_begin env) (ne_rounds env) = Some (rx', - errcode METIMEOUT, ev)"
  then have "length rx' = length rx" using recv_spin_length by (fastforce simp: net_sync_recv_spin_def split: bind_split_asm)
  then have "net_log inet_addr net ch NET_OP_RECV (ne_now env) rx' (- 4) = None" using fail [of rx' "- 4"] len(2) by simp
  then show "net_recv inet_addr env net p rxp rx cap t = None" using a ch(1) by (simp add: net_recv_def)
qed

definition demo_env :: net_env where
  "demo_env = \<lparr>ne_sent = - 1, ne_recv = None, ne_rounds = [], ne_begin = \<lparr>tv_sec = 0, tv_nsec = 0\<rparr>, ne_now = \<lparr>tv_sec = 0, tv_nsec = 0\<rparr>,
     ne_sqe = Some 0, ne_sqe2 = True, ne_submit = 0\<rparr>"

theorem net_logged_calls_witness:
  "net_send (\<lambda>s. 0) demo_env (demo_net demo_pool) 8 1000 [1, 2, 3] 3 = None \<and> net_recv (\<lambda>s. 0) demo_env (demo_net demo_pool) 8 2000 [0, 0] 2 100 = None"
proof -
  have "net_chs (demo_net demo_pool) 8 = Some demo_ch" "ch_e_mode demo_ch = NET_MODE_SYNC_YIELD" by (simp_all add: demo_net_def demo_ch_def)
  then show ?thesis
    using net_logged_calls [of "demo_net demo_pool" 8 demo_ch "[1, 2, 3]" "[0, 0]" 3 demo_env "\<lambda>s. 0" 1000 2000 2 100] by (simp add: demo_env_def del: not_None_eq)
qed

lemma recv_idle: "recv_ret r \<le> 0 \<Longrightarrow> recv_store rx r = Some rx \<and> sint (word_of_int (recv_ret r) :: u32) \<le> 0"
  by (cases r) (simp_all add: recv_ret_def recv_store_def mem_put_def)

lemma recv_spin_idle:
  "\<forall>x \<in> set rs. recv_ret (fst x) \<le> 0 \<Longrightarrow> k < length rs \<Longrightarrow> limit \<le> get_mono_ts_ns (snd (rs ! k)) \<Longrightarrow>
   \<exists>j \<le> Suc k. recv_spin_loop limit now rx rs = Some (rx, - 4, j)"
proof (induction rs arbitrary: k now)
  case (Cons x rs)
  obtain r t where x: "x = (r, t)" by (cases x)
  have r: "recv_store rx r = Some rx" "\<not> 0 < sint (word_of_int (recv_ret r) :: u32)" using recv_idle [of r rx] Cons.prems(1) by (auto simp: x not_less)
  show ?case
  proof (cases "now < limit")
    case False
    then show ?thesis by (simp add: recv_spin_loop.simps [of limit now])
  next
    case True
    have "\<exists>j \<le> k. recv_spin_loop limit (get_mono_ts_ns t) rx rs = Some (rx, - 4, j)"
    proof (cases k)
      case 0
      then have "\<not> get_mono_ts_ns t < limit" using Cons.prems(3) by (simp add: x not_less)
      then show ?thesis by (simp add: recv_spin_loop.simps [of limit "get_mono_ts_ns t"])
    next
      case (Suc i)
      then show ?thesis using Cons.IH [of i "get_mono_ts_ns t"] Cons.prems by simp
    qed
    then show ?thesis using True r by (auto simp: recv_spin_loop.simps [of limit now] x)
  qed
qed simp

text \<open>A spinning receive to which nothing comes ends: it returns the time-out code by the first reading of
  the clock past its limit. But the limit in nanoseconds is computed in 32 bits, so it is the time
  asked for modulo about 4.29 seconds: a wait of 5 seconds ends after 0.71.\<close>

theorem net_spin_limit:
  assumes "\<forall>x \<in> set rs. recv_ret (fst x) \<le> 0" "k < length rs" "unat (get_mono_ts_ns b) + 2 ^ 32 < 2 ^ 64"
    and "unat (get_mono_ts_ns b) + unat t * 1000 mod 2 ^ 32 \<le> unat (get_mono_ts_ns (snd (rs ! k)))"
  shows "\<exists>j \<le> Suc k. net_sync_recv_spin ch rx cap t b rs = Some (rx, - errcode METIMEOUT, replicate j (RecvNow (ch_fd ch) cap))"
proof -
  let ?d = "unat t * 1000 mod 2 ^ 32"
  have "unat (US2NS t) = ?d" by (simp add: US2NS_def unat_word_ariths)
  moreover have "unat (ucast (US2NS t) :: u64) = unat (US2NS t)" by (simp add: unsigned_ucast_eq take_bit_nat_eq_self order_less_trans [OF unsigned_less])
  ultimately have u: "unat (ucast (US2NS t) :: u64) = ?d" by simp
  have "?d < 2 ^ 32" by simp
  then have "unat (get_mono_ts_ns b + ucast (US2NS t)) = unat (get_mono_ts_ns b) + ?d"
    unfolding unat_word_ariths u using assms(3) by (intro mod_less) simp
  then have "get_mono_ts_ns b + ucast (US2NS t) \<le> get_mono_ts_ns (snd (rs ! k))" using assms(4) by (simp only: word_le_nat_alt)
  from recv_spin_idle [OF assms(1,2) this, of 0 rx] show ?thesis by (auto simp: net_sync_recv_spin_def)
qed

theorem net_spin_limit_witness:
  "\<exists>j \<le> 1. net_sync_recv_spin demo_ch [] 0 5000000 \<lparr>tv_sec = 100, tv_nsec = 0\<rparr> [(None, \<lparr>tv_sec = 100, tv_nsec = 710000000\<rparr>)] =
     Some ([], - 4, replicate j (RecvNow 3 0))"
  using net_spin_limit [of "[(None, \<lparr>tv_sec = 100, tv_nsec = 710000000\<rparr>)]" 0 "\<lparr>tv_sec = 100, tv_nsec = 0\<rparr>" 5000000 demo_ch "[]" 0]
  by (simp add: recv_ret_def get_mono_ts_ns_def NANO_PER_SEC_def demo_ch_def)

text \<open>The conversion of a time limit to seconds is rounded before it is cut, so the limit can be a second long.\<close>

lemma rcv_timeval_rounds: "rcv_timeval 16999999 = Some (17, 999999)"
  by code_simp

end
