(* ===== verification/Net_Windows.thy ===== *)
theory Net_Windows
  imports Net_Props
begin

section \<open>The Windows build of the clocks and of the network channels\<close>

text \<open>
  The branches of util/timeops.h and comm/net.h for Windows, where they differ from the Linux ones. The
  performance counter, its frequency, the file time and the results of Winsock are arguments; a call of
  the system is an event. A request carries an \<open>OVERLAPPED\<close>, whose pointer field is to lead back to the
  request; the completion port gives the address of the \<open>OVERLAPPED\<close>, which is named by its request. An
  asynchronous call has two halves, up to the call of Winsock and after it: \<open>net_poll\<close> waits for ever, so
  it has a thread of its own and a completion can come between them.
\<close>

subsection \<open>Clocks\<close>

definition WIN_TO_UNIX_EPOCH :: u64 where
  "WIN_TO_UNIX_EPOCH = 116444736000000000"

text \<open>The two \<open>QuadPart\<close>s are signed, the product is not. A frequency of 0 divides by zero.\<close>

definition get_mono_ts_ns_win :: "int \<Rightarrow> int \<Rightarrow> u64 option" where
  "get_mono_ts_ns_win counter frequency = (let f = word_of_int frequency in
     if f = 0 then None else Some (word_of_int counter * 1000000000 div f))"

text \<open>The two halves of the file time.\<close>

definition get_real_ts_ns_win :: "u32 \<Rightarrow> u32 \<Rightarrow> u64" where
  "get_real_ts_ns_win low high = (word_of_int (uint high * 2 ^ 32 + uint low) - WIN_TO_UNIX_EPOCH) * 100"

datatype delay_win = Sleep u32

definition yield_win :: "u32 \<Rightarrow> delay_win" where
  "yield_win ms = Sleep ms"

text \<open>The build for neither system.\<close>

definition yield_other :: "u32 \<Rightarrow> timespec list \<Rightarrow> delay_act option" where
  "yield_other ms ts = spin (MS2US ms) ts"

subsection \<open>Opening, closing and synchronous calls\<close>

datatype win_ev =
    Sys net_ev | WsaStartup | CreatePort | PortAssoc int lptr | WsaCleanup | IoctlNonblock int | SetRcvTimeoMs int u32
  | SendInt int int "u8 list" | RecvInt int int | WsaSend int lptr u32 lptr | WsaRecv int lptr u32 lptr

definition net_init_win :: "'w net_t \<Rightarrow> 'w net_cfg_t \<Rightarrow> ('w net_t \<times> int \<times> win_ev list) option" where
  "net_init_win net cfg = do { (net, ret, _) \<leftarrow> net_init net cfg 0; Some (net, ret, [WsaStartup, CreatePort]) }"

definition net_destroy_win :: "nat \<Rightarrow> 'w net_t \<Rightarrow> win_ev list option" where
  "net_destroy_win fuel net = do {
     nodes \<leftarrow> list_for_each (net_nodes net) fuel (nl_ch_root (net_lo net));
     chs \<leftarrow> those (map (net_chs net) nodes);
     Some (map (\<lambda>ch. Sys (Close (ch_fd ch))) chs @ [WsaCleanup]) }"

definition net_set_nonblock_win :: "int \<Rightarrow> int \<Rightarrow> int \<times> win_ev list" where
  "net_set_nonblock_win fd ret = (ret, [IoctlNonblock fd])"

text \<open>A channel that is added is also tied to the port.\<close>

definition net_add_ch_win :: "(string \<Rightarrow> u32) \<Rightarrow> 'w net_t \<Rightarrow> lptr \<Rightarrow> int \<Rightarrow> int \<Rightarrow> int \<Rightarrow> ('w net_t \<times> int \<times> win_ev list) option" where
  "net_add_ch_win inet_addr net p fd bound conn = do {
     (net, ret, ev) \<leftarrow> net_add_ch inet_addr net p fd bound conn;
     Some (net, ret, map Sys ev @ (if ret = 0 then [PortAssoc fd p] else [])) }"

text \<open>A size cut to an \<open>int\<close>.\<close>

definition size_int :: "usz \<Rightarrow> int" where
  "size_int sz = sint (ucast sz :: u32)"

definition net_sync_send_win :: "net_ch_t \<Rightarrow> u8 list \<Rightarrow> usz \<Rightarrow> int \<Rightarrow> (int \<times> win_ev list) option" where
  "net_sync_send_win ch tx sz n = do {
     d \<leftarrow> mem_get tx 0 (nat (size_int sz));
     Some (n, [SendInt (ch_fd ch) (size_int sz) d]) }"

definition net_sync_recv_yield_win :: "net_ch_t \<Rightarrow> u8 list \<Rightarrow> usz \<Rightarrow> u32 \<Rightarrow> u8 list option \<Rightarrow> (u8 list \<times> int \<times> win_ev list) option" where
  "net_sync_recv_yield_win ch rx cap timeout_us r = do {
     ms \<leftarrow> f32_to_int 0 (2 ^ 32 - 1) (US2MS timeout_us);
     let tv_ms = (if ms = 0 \<and> 0 < timeout_us then 1 else word_of_int ms);
     rx \<leftarrow> recv_store rx r;
     Some (rx, recv_ret r, [SetRcvTimeoMs (ch_fd ch) tv_ms, RecvInt (ch_fd ch) (size_int cap)]) }"

text \<open>The rounds of the spinning receiver; the clock readings are the values of the clock.\<close>

fun recv_spin_loop_win :: "u64 \<Rightarrow> u64 \<Rightarrow> u8 list \<Rightarrow> (u8 list option \<times> u64) list \<Rightarrow> (u8 list \<times> int \<times> nat) option" where
  "recv_spin_loop_win limit now rx rs = (if now < limit
     then (case rs of [] \<Rightarrow> None
       | (r, t) # rs \<Rightarrow> do {
           rx \<leftarrow> recv_store rx r;
           let ret = sint (word_of_int (recv_ret r) :: u32);
           if 0 < ret then Some (rx, ret, 1)
           else do { (rx, ret, k) \<leftarrow> recv_spin_loop_win limit t rx rs; Some (rx, ret, Suc k) } })
     else Some (rx, - errcode METIMEOUT, 0))"

declare recv_spin_loop_win.simps [simp del]

definition net_sync_recv_spin_win :: "net_ch_t \<Rightarrow> u8 list \<Rightarrow> usz \<Rightarrow> u32 \<Rightarrow> u64 \<Rightarrow> (u8 list option \<times> u64) list \<Rightarrow> (u8 list \<times> int \<times> win_ev list) option" where
  "net_sync_recv_spin_win ch rx cap timeout_us begin_ns rs = do {
     (rx, ret, k) \<leftarrow> recv_spin_loop_win (begin_ns + ucast (US2NS timeout_us)) 0 rx rs;
     Some (rx, ret, replicate k (RecvInt (ch_fd ch) (size_int cap))) }"

subsection \<open>Asynchronous calls\<close>

record net_async_req_win = net_async_req_t +
  rq_ov_pointer :: lptr

text \<open>The request of the Linux build and the 32 bytes of an \<open>OVERLAPPED\<close>.\<close>

definition NET_REQ_SIZE_WIN :: usz where
  "NET_REQ_SIZE_WIN = 72"

text \<open>What the asynchronous calls touch: the pool, the channels, the requests.\<close>

record net_win_t =
  nw_mp :: mp_t
  nw_chs :: "lptr \<Rightarrow> net_ch_t option"
  nw_reqs :: "lptr \<Rightarrow> net_async_req_win option"

text \<open>Up to the call of Winsock: the code of an error, or the request. \<open>rcv\<close> tells a receive from a send;
  \<open>err\<close> is an error other than that the operation is pending.\<close>

definition net_async_start :: "bool \<Rightarrow> net_win_t \<Rightarrow> lptr \<Rightarrow> lptr \<Rightarrow> usz \<Rightarrow> bool \<Rightarrow> (net_win_t \<times> (int + lptr) \<times> win_ev list) option" where
  "net_async_start rcv net p buf sz err = do {
     (mp, req) \<leftarrow> mp_calloc (nw_mp net) NET_REQ_SIZE_WIN;
     let net = net\<lparr>nw_mp := mp\<rparr>;
     if req = 0 then Some (net, Inl (- errcode MEALLOC), [])
     else do {
       ch \<leftarrow> nw_chs net p;
       let r = \<lparr>rq_ch = p, rq_buf = buf, rq_size = sz, rq_f_cb = (if rcv then ch_f_recv_cb ch else ch_f_send_cb ch),
         rq_processed = False, rq_ov_pointer = 0\<rparr>;
       let net = net\<lparr>nw_reqs := (nw_reqs net)(req \<mapsto> r)\<rparr>;
       let ev = [(if rcv then WsaRecv else WsaSend) (ch_fd ch) buf (ucast sz) req];
       if err then do { mp \<leftarrow> mp_free (nw_mp net) req; Some (net\<lparr>nw_mp := mp\<rparr>, Inl (- 1), ev) }
       else Some (net, Inr req, ev) } }"

text \<open>After it: the pointer, and as result the number of bytes, which Winsock stores only when the operation
  is done at once; \<open>n\<close> is what the variable holds.\<close>

definition net_async_finish :: "net_win_t \<Rightarrow> lptr \<Rightarrow> u32 \<Rightarrow> (net_win_t \<times> int) option" where
  "net_async_finish net req n = do {
     r \<leftarrow> nw_reqs net req;
     Some (net\<lparr>nw_reqs := (nw_reqs net)(req \<mapsto> r\<lparr>rq_ov_pointer := req\<rparr>)\<rparr>, uint n) }"

definition net_async_win :: "bool \<Rightarrow> net_win_t \<Rightarrow> lptr \<Rightarrow> lptr \<Rightarrow> usz \<Rightarrow> bool \<Rightarrow> u32 \<Rightarrow> (net_win_t \<times> int \<times> win_ev list) option" where
  "net_async_win rcv net p buf sz err n = do {
     (net, res, ev) \<leftarrow> net_async_start rcv net p buf sz err;
     case res of Inl e \<Rightarrow> Some (net, e, ev)
     | Inr req \<Rightarrow> do { (net, ret) \<leftarrow> net_async_finish net req n; Some (net, ret, ev) } }"

definition net_async_send_win :: "net_win_t \<Rightarrow> lptr \<Rightarrow> lptr \<Rightarrow> usz \<Rightarrow> bool \<Rightarrow> u32 \<Rightarrow> (net_win_t \<times> int \<times> win_ev list) option" where
  "net_async_send_win net p tx sz err n = net_async_win False net p tx sz err n"

text \<open>The time limit is not used.\<close>

definition net_async_recv_win :: "net_win_t \<Rightarrow> lptr \<Rightarrow> lptr \<Rightarrow> usz \<Rightarrow> u32 \<Rightarrow> bool \<Rightarrow> u32 \<Rightarrow> (net_win_t \<times> int \<times> win_ev list) option" where
  "net_async_recv_win net p rx cap timeout_us err n = net_async_win True net p rx cap err n"

subsection \<open>The completion port\<close>

text \<open>A completion: the request whose \<open>OVERLAPPED\<close> it names, success and number of bytes, and the asynchronous
  calls the callback makes; or the port fails.\<close>

type_synonym win_call = "bool \<times> lptr \<times> lptr \<times> usz \<times> bool \<times> u32"

datatype port_ev = Completed lptr bool u32 "win_call list" | PortFails

fun net_calls_win :: "net_win_t \<Rightarrow> win_call list \<Rightarrow> (net_win_t \<times> win_ev list) option" where
  "net_calls_win net [] = Some (net, [])"
| "net_calls_win net ((rcv, p, buf, sz, err, n) # cs) = do {
     (net, _, ev) \<leftarrow> net_async_win rcv net p buf sz err n;
     (net, ev') \<leftarrow> net_calls_win net cs;
     Some (net, ev @ ev') }"

definition net_completed :: "net_win_t \<Rightarrow> lptr \<Rightarrow> bool \<Rightarrow> u32 \<Rightarrow> win_call list \<Rightarrow> (net_win_t \<times> win_ev list) option" where
  "net_completed net ov ok sz calls = do {
     o1 \<leftarrow> nw_reqs net ov;
     let req = rq_ov_pointer o1;
     if req = 0 then Some (net, [])
     else do {
       r \<leftarrow> nw_reqs net req;
       if rq_processed r then Some (net, [])
       else if rq_f_cb r = 0 then None
       else do {
         (net, ev) \<leftarrow> net_calls_win (net\<lparr>nw_reqs := (nw_reqs net)(req \<mapsto> r\<lparr>rq_processed := True\<rparr>)\<rparr>) calls;
         mp \<leftarrow> mp_free (nw_mp net) req;
         Some (net\<lparr>nw_mp := mp\<rparr>, Sys (Called (rq_f_cb r) (rq_ch r) (rq_buf r) (if ok then sint sz else - 1)) # ev) } } }"

text \<open>The loop ends when the port fails; \<open>None\<close> also while it waits.\<close>

fun net_poll_win :: "net_win_t \<Rightarrow> port_ev list \<Rightarrow> (net_win_t \<times> int \<times> win_ev list) option" where
  "net_poll_win net [] = None"
| "net_poll_win net (PortFails # es) = Some (net, 0, [])"
| "net_poll_win net (Completed ov ok sz calls # es) = do {
     (net, ev) \<leftarrow> net_completed net ov ok sz calls;
     (net, ret, ev') \<leftarrow> net_poll_win net es;
     Some (net, ret, ev @ ev') }"

subsection \<open>Properties\<close>

lemma start_inr:
  assumes "net_async_start rcv net p buf sz err = Some (net1, Inr req, ev)"
  shows "req \<noteq> 0 \<and> \<not> err \<and> (\<exists>ch r. nw_chs net1 p = Some ch \<and> nw_reqs net1 req = Some r \<and> rq_ov_pointer r = 0 \<and> \<not> rq_processed r \<and>
    rq_f_cb r = (if rcv then ch_f_recv_cb ch else ch_f_send_cb ch) \<and> rq_ch r = p \<and> rq_buf r = buf)"
  using assms by (auto simp: net_async_start_def Let_def split: if_splits bind_split_asm)

text \<open>C27: A completion that the polling thread takes between the two halves of an asynchronous call is dropped: no
  callback runs and the block of the request stays allocated, and it is the only completion there is.
  Taken after the second half it runs the callback of the channel once, with the channel, the buffer and the
  number of bytes, and releases the block.\<close>

theorem net_win_lost_completion:
  assumes "net_async_start rcv net p buf sz err = Some (net1, Inr req, ev)" "nw_chs net1 p = Some ch"
    "cb = (if rcv then ch_f_recv_cb ch else ch_f_send_cb ch)" "cb \<noteq> 0" "mp_free (nw_mp net1) req = Some mp"
  shows "net_poll_win net1 (Completed req ok n calls # es) = net_poll_win net1 es \<and>
    (\<exists>net2 net3. net_async_finish net1 req k = Some (net2, uint k) \<and> nw_mp net3 = mp \<and>
      net_completed net2 req ok n [] = Some (net3, [Sys (Called cb p buf (if ok then sint n else - 1))]) \<and>
      net_completed net3 req ok n [] = Some (net3, []))"
proof -
  obtain r where r: "req \<noteq> 0" "nw_reqs net1 req = Some r" "rq_ov_pointer r = 0" "\<not> rq_processed r" "rq_f_cb r = cb" "rq_ch r = p" "rq_buf r = buf"
    using start_inr [OF assms(1)] assms(2,3) by auto
  have "net_poll_win net1 (Completed req ok n calls # es) = net_poll_win net1 es"
    using r(2,3) by (cases "net_poll_win net1 es") (auto simp: net_completed_def)
  moreover define net2 where "net2 = net1\<lparr>nw_reqs := (nw_reqs net1)(req \<mapsto> r\<lparr>rq_ov_pointer := req\<rparr>)\<rparr>"
  moreover have "net_async_finish net1 req k = Some (net2, uint k)" using r(2) by (simp add: net_async_finish_def net2_def)
  moreover define net3 where "net3 = net2\<lparr>nw_mp := mp, nw_reqs := (nw_reqs net2)(req \<mapsto> r\<lparr>rq_ov_pointer := req, rq_processed := True\<rparr>)\<rparr>"
  moreover have "net_completed net2 req ok n [] = Some (net3, [Sys (Called cb p buf (if ok then sint n else - 1))])"
    using r assms(4,5) by (simp add: net_completed_def net2_def net3_def)
  moreover have "net_completed net3 req ok n [] = Some (net3, [])" by (simp add: net_completed_def net3_def)
  moreover have "nw_mp net3 = mp" by (simp add: net3_def)
  ultimately show ?thesis by blast
qed

theorem net_win_lost_completion_witness:
  "\<exists>net req. req \<noteq> 0 \<and> nw_reqs net req \<noteq> None \<and> (\<exists>mp. mp_free (nw_mp net) req = Some mp) \<and>
    net_poll_win net [Completed req True 5 [], PortFails] = Some (net, 0, [])"
proof -
  obtain m0 where m0: "mp_ready m0 []" using demo_init by blast
  have o0: "mp_off m0 = 0" using m0 by (simp add: mp_ready_def mp_inv_def unsigned_eq_0_iff)
  have q: "mp_req_ok NET_REQ_SIZE_WIN" "blk_size (unat NET_REQ_SIZE_WIN) = 96" by (simp_all add: mp_req_ok_def NET_REQ_SIZE_WIN_def blk_size_def)
  obtain m1 where m1: "mp_alloc m0 NET_REQ_SIZE_WIN = Some (m1, mp_buf m0 + 24)" "mp_ready m1 ([] @ (mp_buf m0, 96, False) # [])"
    using mp_alloc_fresh [OF m0 q(1)] q(2) o0 by auto
  have b: "mp_buf m1 = mp_buf m0" using m1(2) by (simp add: mp_ready_def mp_inv_def)
  have c: "mp_calloc m0 NET_REQ_SIZE_WIN = Some (m1, mp_buf m0 + 24)"
    unfolding mp_calloc_def m1(1) by (simp add: b MP_SIZE_nat) (simp add: NET_REQ_SIZE_WIN_def)
  obtain m2 where m2: "mp_free m1 (mp_buf m0 + 24) = Some m2" using mp_free_block [OF m1(2)] by auto
  define net where "net = \<lparr>nw_mp = m0, nw_chs = [8 \<mapsto> demo_ch], nw_reqs = (\<lambda>p. None)\<rparr>"
  obtain net1 where s: "net_async_start False net 8 2000 5 False = Some (net1, Inr (mp_buf m0 + 24), [WsaSend 3 2000 5 (mp_buf m0 + 24)])" and
    n: "nw_chs net1 8 = Some demo_ch" "nw_mp net1 = m1" "nw_reqs net1 (mp_buf m0 + 24) \<noteq> None"
    by (simp add: net_async_start_def net_def c demo_ch_def)
  have "net_poll_win net1 (Completed (mp_buf m0 + 24) True 5 [] # [PortFails]) = net_poll_win net1 [PortFails]"
    using net_win_lost_completion [OF s n(1) refl, of m2 True 5 "[]" "[PortFails]" 0] m2 n(2) by (simp add: demo_ch_def)
  then show ?thesis using m2 n by (intro exI [of _ net1] exI [of _ "mp_buf m0 + 24"]) simp
qed

text \<open>C31: The monotonic clock is the counter in nanoseconds as long as the product fits 64 bits, which holds below
  18446744074 counts. There it goes back nearly to 0, at every frequency up to a gigahertz: with the usual counter
  of ten megahertz half an hour after the start of the machine.\<close>

theorem win_clock_goes_back:
  "(0 \<le> c \<and> c < 18446744074 \<and> 0 < f \<and> f < 2 ^ 63 \<longrightarrow> get_mono_ts_ns_win c f = Some (word_of_int (c * 1000000000 div f))) \<and>
   (0 < f \<and> f \<le> 1000000000 \<longrightarrow> (\<exists>a b. get_mono_ts_ns_win 18446744073 f = Some a \<and> get_mono_ts_ns_win 18446744074 f = Some b \<and>
     b < a \<and> uint b = 290448384 div f))"
proof -
  have val: "get_mono_ts_ns_win c f = Some (word_of_int (c * 1000000000 mod 2 ^ 64 div f))" and
    u: "uint (word_of_int (c * 1000000000 mod 2 ^ 64 div f) :: u64) = c * 1000000000 mod 2 ^ 64 div f" if f: "0 < f" "f < 2 ^ 63" for c f :: int
  proof -
    have m: "0 \<le> c * 1000000000 mod 2 ^ 64" "c * 1000000000 mod 2 ^ 64 < 2 ^ 64" by simp_all
    then have d: "0 \<le> c * 1000000000 mod 2 ^ 64 div f" "c * 1000000000 mod 2 ^ 64 div f < 2 ^ 64"
      using f pos_imp_zdiv_nonneg_iff [of f] zdiv_mono2 [of "c * 1000000000 mod 2 ^ 64" 1 f] by auto
    show u: "uint (word_of_int (c * 1000000000 mod 2 ^ 64 div f) :: u64) = c * 1000000000 mod 2 ^ 64 div f"
      using d by (simp add: uint_word_of_int)
    have wf: "uint (word_of_int f :: u64) = f" using f by (simp add: uint_word_of_int)
    have wc: "uint (word_of_int c * 1000000000 :: u64) = c * 1000000000 mod 2 ^ 64" by (simp add: uint_word_of_int uint_word_ariths mod_mult_left_eq)
    have "word_of_int c * 1000000000 div (word_of_int f :: u64) = word_of_int (c * 1000000000 mod 2 ^ 64 div f)"
      unfolding word_uint_eq_iff uint_div_distrib u by (simp add: wf wc)
    moreover have "(word_of_int f :: u64) \<noteq> 0" using wf f by auto
    ultimately show "get_mono_ts_ns_win c f = Some (word_of_int (c * 1000000000 mod 2 ^ 64 div f))"
      by (simp add: get_mono_ts_ns_win_def Let_def)
  qed
  have a: "290448384 div f < 18446744073000000000 div f" if "0 < f" "f \<le> 1000000000" for f :: int
  proof -
    have "290448384 div f + 1 = (290448384 + f) div f" using that div_add_self2 [of f 290448384] by linarith
    also have "\<dots> \<le> 18446744073000000000 div f" using that by (intro zdiv_mono1) auto
    finally show ?thesis by simp
  qed
  have "get_mono_ts_ns_win c f = Some (word_of_int (c * 1000000000 div f))" if "0 \<le> c" "c < 18446744074" "0 < f" "f < 2 ^ 63"
    using val [OF that(3,4), of c] that(1,2) by simp
  moreover have "\<exists>a b. get_mono_ts_ns_win 18446744073 f = Some a \<and> get_mono_ts_ns_win 18446744074 f = Some b \<and> b < a \<and> uint b = 290448384 div f"
    if f: "0 < f" "f \<le> 1000000000"
  proof -
    have "f < 2 ^ 63" using f by simp
    note v = val [OF f(1) this] and w = u [OF f(1) this]
    show ?thesis using v [of 18446744073] v [of 18446744074] w [of 18446744073] w [of 18446744074] a [OF f] by (simp add: word_less_def)
  qed
  ultimately show ?thesis by blast
qed

theorem win_clock_goes_back_witness:
  "get_mono_ts_ns_win 18446744073 10000000 = Some 1844674407300 \<and> (\<exists>b. get_mono_ts_ns_win 18446744074 10000000 = Some b \<and> uint b = 29)"
  using win_clock_goes_back [of 18446744073 10000000] by auto

end
