(* ===== verification/Float64.thy ===== *)
theory Float64
  imports Float32
begin

section \<open>Double precision numbers (\<open>f64\<close> of util/typedef.h)\<close>

text \<open>
  C's \<open>double\<close> in the same way as \<open>float\<close>: IEEE binary64, rounding to nearest, ties to even. A number
  is its 64 bits; \<open>2 ^ 1074\<close> units are 1. Only what the sources use of it: addition, subtraction,
  division and the conversion from \<open>float\<close>, which is exact. The bytes of a \<open>float\<close> in memory are
  here too.
\<close>

datatype f64 = F64 (f64_bits: u64)

definition F64_INF :: int where
  "F64_INF = 0x7FF0000000000000"

definition F64_NAN :: f64 where
  "F64_NAN = F64 0x7FF8000000000000"

definition F64_ONE :: int where
  "F64_ONE = 2 ^ 1074"

definition f64_sgn :: "f64 \<Rightarrow> bool" where
  "f64_sgn x \<longleftrightarrow> 2 ^ 63 \<le> uint (f64_bits x)"

definition f64_mbits :: "f64 \<Rightarrow> int" where
  "f64_mbits x = uint (f64_bits x) mod 2 ^ 63"

definition f64_mk :: "bool \<Rightarrow> int \<Rightarrow> f64" where
  "f64_mk s b = F64 (word_of_int ((if s then 2 ^ 63 else 0) + b))"

definition f64_nan :: "f64 \<Rightarrow> bool" where
  "f64_nan x \<longleftrightarrow> F64_INF < f64_mbits x"

definition f64_inf :: "f64 \<Rightarrow> bool" where
  "f64_inf x \<longleftrightarrow> f64_mbits x = F64_INF"

definition f64_mag :: "f64 \<Rightarrow> int" where
  "f64_mag x = fp_mag 52 (f64_mbits x)"

definition f64_int :: "f64 \<Rightarrow> int" where
  "f64_int x = (if f64_sgn x then - f64_mag x else f64_mag x)"

definition f64_round :: "bool \<Rightarrow> int \<Rightarrow> int \<Rightarrow> f64" where
  "f64_round s n d = f64_mk s (min F64_INF (fp_up 52 n d))"

definition f64_rnd :: "int \<Rightarrow> int \<Rightarrow> f64" where
  "f64_rnd n d = (if n < 0 then f64_round True (- n) d else f64_round False n d)"

definition f64_neg :: "f64 \<Rightarrow> f64" where
  "f64_neg x = f64_mk (\<not> f64_sgn x) (f64_mbits x)"

definition f64_add :: "f64 \<Rightarrow> f64 \<Rightarrow> f64" where
  "f64_add x y =
     (if f64_nan x \<or> f64_nan y \<or> (f64_inf x \<and> f64_inf y \<and> f64_sgn x \<noteq> f64_sgn y) then F64_NAN
      else if f64_inf x then x
      else if f64_inf y then y
      else let z = f64_int x + f64_int y in
        if z = 0 then f64_mk (f64_sgn x \<and> f64_sgn y) 0 else f64_rnd z 1)"

definition f64_div :: "f64 \<Rightarrow> f64 \<Rightarrow> f64" where
  "f64_div x y = (let s = (f64_sgn x \<noteq> f64_sgn y) in
     if f64_nan x \<or> f64_nan y \<or> (f64_mag x = 0 \<and> f64_mag y = 0) \<or> (f64_inf x \<and> f64_inf y) then F64_NAN
     else if f64_inf x \<or> f64_mag y = 0 then f64_mk s F64_INF
     else if f64_inf y then f64_mk s 0
     else f64_round s (f64_mag x * F64_ONE) (f64_mag y))"

instantiation f64 :: plus
begin
definition plus_f64 :: "f64 \<Rightarrow> f64 \<Rightarrow> f64" where "x + y = f64_add x y"
instance ..
end

instantiation f64 :: minus
begin
definition minus_f64 :: "f64 \<Rightarrow> f64 \<Rightarrow> f64" where "x - y = f64_add x (f64_neg y)"
instance ..
end

instantiation f64 :: inverse
begin
definition divide_f64 :: "f64 \<Rightarrow> f64 \<Rightarrow> f64" where "divide_f64 x y = f64_div x y"
definition inverse_f64 :: "f64 \<Rightarrow> f64" where "inverse_f64 x = f64_div (F64 0x3FF0000000000000) x"
instance ..
end

text \<open>One unit of \<open>float\<close> is \<open>2 ^ 925\<close> units of \<open>double\<close>.\<close>

definition f64_of_f32 :: "f32 \<Rightarrow> f64" where
  "f64_of_f32 x = (if is_nan x then F64_NAN else if is_inf x then f64_mk (f32_sgn x) F64_INF
     else f64_round (f32_sgn x) (f32_mag x * 2 ^ 925) 1)"

subsection \<open>A \<open>float\<close> in memory\<close>

definition f32_mem :: "f32 \<Rightarrow> u8 list" where
  "f32_mem x = le_bytes 4 (unat (f32_bits x))"

definition f32_of_mem :: "u8 list \<Rightarrow> f32" where
  "f32_of_mem bs = F32 (of_nat (le_val (take 4 bs)))"

lemma length_f32_mem [simp]: "length (f32_mem x) = 4"
  by (simp add: f32_mem_def)

lemma f32_mem_roundtrip [simp]: "f32_of_mem (f32_mem x @ bs) = x"
proof -
  have "unat (f32_bits x) < 2 ^ LENGTH(32)" by (rule unsigned_less)
  then have "unat (f32_bits x) < 256 ^ 4" by simp
  then have "le_val (f32_mem x) = unat (f32_bits x)" unfolding f32_mem_def by (simp only: le_val_bytes mod_less)
  then show ?thesis by (simp add: f32_of_mem_def)
qed

text \<open>An array of them.\<close>

fun f32s_of_mem :: "u8 list \<Rightarrow> f32 list" where
  "f32s_of_mem (a # b # c # d # bs) = f32_of_mem [a, b, c, d] # f32s_of_mem bs"
| "f32s_of_mem bs = []"

lemma f32s_of_mem_cons: "f32s_of_mem (f32_mem x @ bs) = x # f32s_of_mem bs"
proof -
  obtain a b c d where m: "f32_mem x = [a, b, c, d]" using length_f32_mem [of x]
    by (auto simp: length_Suc_conv eval_nat_numeral simp del: length_f32_mem)
  then have "f32_of_mem [a, b, c, d] = x" using f32_mem_roundtrip [of x "[]"] by simp
  then show ?thesis by (simp add: m)
qed

lemma f32s_of_mem_concat [simp]: "f32s_of_mem (concat (map f32_mem xs)) = xs"
  by (induction xs) (simp_all add: f32s_of_mem_cons)

lemma length_f32s_concat [simp]: "length (concat (map f32_mem xs)) = 4 * length xs"
  by (induction xs) simp_all

end
