(* ===== verification/Maf.thy ===== *)
theory Maf
  imports Spsc_Ring Float64
begin

section \<open>The moving-average filter (filter/maf.h)\<close>

text \<open>
  The filter keeps its samples in a single-producer ring of bytes. A step takes four bytes out of the
  ring, subtracts them from the sum, puts the new sample in, adds it and divides the sum. The four
  bytes are read into a variable that has no value before: \<open>junk\<close> is what its memory holds.
\<close>

record maf_cfg_t =
  mac_buf :: "u8 list"
  mac_cap :: u32

record maf_lo_t =
  mal_spsc :: spsc_t
  mal_sum :: f64

record maf_filter_t =
  maf_cfg :: maf_cfg_t
  maf_in :: f32
  maf_out :: f32
  maf_lo :: maf_lo_t

text \<open>The result of \<open>spsc_init\<close> is not looked at.\<close>

definition maf_init :: "maf_filter_t \<Rightarrow> maf_cfg_t \<Rightarrow> maf_filter_t" where
  "maf_init maf cfg = maf\<lparr>maf_cfg := cfg, maf_lo := (maf_lo maf)\<lparr>mal_spsc :=
     fst (spsc_init (mal_spsc (maf_lo maf)) (mac_buf cfg) (ucast (mac_cap cfg)) SPSC_POLICY_REJECT)\<rparr>\<rparr>"

definition maf_exec :: "u8 list \<Rightarrow> maf_filter_t \<Rightarrow> maf_filter_t option" where
  "maf_exec junk maf = do {
     let cfg = maf_cfg maf; let lo = maf_lo maf;
     (s, prev_x, _) \<leftarrow> spsc_read (mal_spsc lo) junk 4;
     let sum = mal_sum lo - f64_of_f32 (f32_of_mem prev_x);
     (s, _) \<leftarrow> spsc_write s (f32_mem (maf_in maf)) 4;
     let sum = sum + f64_of_f32 (maf_in maf);
     let sum = sum / f64_of_f32 (f32_of_u32 (mac_cap cfg));
     Some (maf\<lparr>maf_lo := lo\<lparr>mal_spsc := s, mal_sum := sum\<rparr>\<rparr>) }"

definition maf_exec_in :: "u8 list \<Rightarrow> maf_filter_t \<Rightarrow> f32 \<Rightarrow> maf_filter_t option" where
  "maf_exec_in junk maf x = maf_exec junk (maf\<lparr>maf_in := x\<rparr>)"

subsection \<open>What it computes\<close>

text \<open>Samples one after another, each with what is on the stack at the time.\<close>

fun maf_run :: "maf_filter_t \<Rightarrow> (u8 list \<times> f32) list \<Rightarrow> maf_filter_t option" where
  "maf_run maf [] = Some maf"
| "maf_run maf ((junk, x) # xs) = do { maf \<leftarrow> maf_exec_in junk maf x; maf_run maf xs }"

text \<open>The sum as a recurrence over the samples, from the sample before.\<close>

fun maf_sums :: "f64 \<Rightarrow> f64 \<Rightarrow> f32 \<Rightarrow> f32 list \<Rightarrow> f64" where
  "maf_sums c s prev [] = s"
| "maf_sums c s prev (x # xs) = maf_sums c ((s - f64_of_f32 prev + f64_of_f32 x) / c) x xs"

text \<open>The ring holds nothing or the sample before.\<close>

definition maf_ok :: "maf_filter_t \<Rightarrow> bool" where
  "maf_ok maf \<longleftrightarrow> (let s = mal_spsc (maf_lo maf) in spsc_ok s (sp_buf s) \<and> sp_policy s = SPSC_POLICY_REJECT \<and> 4 \<le> unat (sp_cap s))"

lemma maf_exec_step:
  assumes ok: "maf_ok maf" and j: "length junk = 4" and q: "spsc_bytes (mal_spsc (maf_lo maf)) \<in> {[], f32_mem p}"
  shows "\<exists>s. maf_exec_in junk maf x = Some (maf\<lparr>maf_in := x, maf_lo := \<lparr>mal_spsc = s,
      mal_sum = (mal_sum (maf_lo maf) - f64_of_f32 (if spsc_bytes (mal_spsc (maf_lo maf)) = [] then f32_of_mem junk else p) + f64_of_f32 x)
        / f64_of_f32 (f32_of_u32 (mac_cap (maf_cfg maf)))\<rparr>\<rparr>) \<and>
    maf_ok (maf\<lparr>maf_lo := \<lparr>mal_spsc = s, mal_sum = t\<rparr>\<rparr>) \<and> spsc_bytes s = f32_mem x"
proof -
  let ?s = "mal_spsc (maf_lo maf)"
  let ?q = "spsc_queue ?s (sp_buf ?s)"
  have o: "spsc_ok ?s (sp_buf ?s)" "sp_policy ?s = SPSC_POLICY_REJECT" "4 \<le> unat (sp_cap ?s)"
    using ok by (simp_all add: maf_ok_def Let_def)
  have l: "length ?q \<in> {0, 4}" using q by (auto simp: spsc_bytes_def)
  obtain s1 where r: "spsc_read_buf ?s (sp_buf ?s) junk 4 = Some (s1, take (length ?q) ?q @ drop (length ?q) junk, of_nat (length ?q))"
      "spsc_ok s1 (sp_buf ?s)" "sp_cap s1 = sp_cap ?s" "sp_policy s1 = SPSC_POLICY_REJECT" "sp_buf s1 = sp_buf ?s" "spsc_queue s1 (sp_buf ?s) = []"
    using spsc_read_buf_refines [OF o(1), of 4 junk] j l o(2) by (auto simp: min_def)
  have v: "f32_of_mem (take (length ?q) ?q @ drop (length ?q) junk) = (if spsc_bytes ?s = [] then f32_of_mem junk else p)"
    using q j f32_mem_roundtrip [of p "[]"] by (auto simp: spsc_bytes_def)
  have "length (spsc_queue s1 (sp_buf ?s)) = unat (spsc_avail s1)" by (simp add: spsc_queue_def)
  then have a: "unat (spsc_avail s1) = 0" using r(6) by simp
  then have "unat (spsc_free s1) = unat (sp_cap ?s)" using spsc_okE [OF r(2)] r(3) by (metis diff_zero)
  then have acc: "spsc_accept (sp_policy s1) (unat (spsc_free s1)) (unat (4 :: usz)) = (4, 0)" using o(3) r(4) by simp
  have pw: "spsc_policy_e.SPSC_POLICY_REJECT \<noteq> SPSC_POLICY_OVERWRITE" by simp
  obtain s2 b n where w: "spsc_write_buf s1 (sp_buf ?s) (f32_mem x) 4 = Some (s2, b, n)" "spsc_ok s2 b" "sp_cap s2 = sp_cap ?s"
      "sp_policy s2 = SPSC_POLICY_REJECT" "spsc_queue s2 b = f32_mem x"
    using spsc_write_buf_refines [OF r(2) _ _ acc, of "f32_mem x"] r(3,4,6) by auto
  have "maf_exec_in junk maf x = Some (maf\<lparr>maf_in := x, maf_lo := \<lparr>mal_spsc = s2\<lparr>sp_buf := b\<rparr>,
      mal_sum = (mal_sum (maf_lo maf) - f64_of_f32 (if spsc_bytes ?s = [] then f32_of_mem junk else p) + f64_of_f32 x)
        / f64_of_f32 (f32_of_u32 (mac_cap (maf_cfg maf)))\<rparr>\<rparr>)"
    using r(1,5) w(1) v by (simp add: maf_exec_in_def maf_exec_def spsc_read_def spsc_write_def Let_def)
  then show ?thesis using w o(3) by (intro exI [of _ "s2\<lparr>sp_buf := b\<rparr>"]) (simp add: maf_ok_def Let_def spsc_bytes_def)
qed

lemma maf_run_step:
  "maf_ok maf \<Longrightarrow> \<forall>a \<in> set xs. length (fst a) = 4 \<Longrightarrow> spsc_bytes (mal_spsc (maf_lo maf)) = f32_mem p \<Longrightarrow>
   \<exists>maf'. maf_run maf xs = Some maf' \<and> maf_out maf' = maf_out maf \<and> spsc_bytes (mal_spsc (maf_lo maf')) = f32_mem (last (p # map snd xs)) \<and>
     mal_sum (maf_lo maf') = maf_sums (f64_of_f32 (f32_of_u32 (mac_cap (maf_cfg maf)))) (mal_sum (maf_lo maf)) p (map snd xs)"
proof (induction xs arbitrary: maf p)
  case (Cons a xs)
  obtain junk x where a: "a = (junk, x)" by (cases a)
  have ne: "f32_mem p \<noteq> []" using length_f32_mem [of p] by (metis list.size(3) zero_neq_numeral)
  let ?sum = "(mal_sum (maf_lo maf) - f64_of_f32 p + f64_of_f32 x) / f64_of_f32 (f32_of_u32 (mac_cap (maf_cfg maf)))"
  obtain s where s: "maf_exec_in junk maf x = Some (maf\<lparr>maf_in := x, maf_lo := \<lparr>mal_spsc = s, mal_sum = ?sum\<rparr>\<rparr>)"
      "maf_ok (maf\<lparr>maf_lo := \<lparr>mal_spsc = s, mal_sum = ?sum\<rparr>\<rparr>)" "spsc_bytes s = f32_mem x"
    using maf_exec_step [OF Cons.prems(1), of junk p x ?sum] Cons.prems(2,3) ne by (auto simp: a)
  have "maf_ok (maf\<lparr>maf_in := x, maf_lo := \<lparr>mal_spsc = s, mal_sum = ?sum\<rparr>\<rparr>)" using s(2) by (simp add: maf_ok_def)
  from Cons.IH [OF this, of x] Cons.prems(2) s(1,3) show ?case by (auto simp: a)
qed simp

text \<open>The window of the moving average is one sample long: on a ring of any power-of-two size the filter
  always takes out the sample it put in last, so after any samples the ring holds the newest one
  only and the sum follows \<open>s' = (s - previous + new) / cap\<close>, started from an uninitialised
  previous sample; the output is never written.\<close>

theorem maf_window:
  assumes "IS_POWER_OF_2 (ucast (mac_cap cfg))" "4 \<le> unat (mac_cap cfg)" "unat (mac_cap cfg) \<le> length (mac_buf cfg)"
    and "\<forall>a \<in> set xs. length (fst a) = 4" "length junk = 4"
  shows "\<exists>maf'. maf_run (maf_init maf cfg) ((junk, x) # xs) = Some maf' \<and> maf_out maf' = maf_out maf \<and>
    spsc_bytes (mal_spsc (maf_lo maf')) = f32_mem (last (x # map snd xs)) \<and>
    mal_sum (maf_lo maf') = maf_sums (f64_of_f32 (f32_of_u32 (mac_cap cfg))) (mal_sum (maf_lo maf)) (f32_of_mem junk) (x # map snd xs)"
proof -
  let ?m = "maf_init maf cfg" and ?c = "f64_of_f32 (f32_of_u32 (mac_cap cfg))"
  have u: "unat (ucast (mac_cap cfg) :: usz) = unat (mac_cap cfg)"
    by (simp add: unsigned_ucast_eq take_bit_nat_eq_self order_less_trans [OF unsigned_less])
  obtain s ret where s: "spsc_init (mal_spsc (maf_lo maf)) (mac_buf cfg) (ucast (mac_cap cfg)) SPSC_POLICY_REJECT = (s, ret)" by fastforce
  have i: "spsc_ready s" "spsc_bytes s = []" "sp_policy s = SPSC_POLICY_REJECT" "sp_cap s = ucast (mac_cap cfg)"
    using spsc_init_ready [OF assms(1) _ _ s] assms(3) s assms(1) by (auto simp: u spsc_init_def spsc_init_buf_def)
  have m: "mal_spsc (maf_lo ?m) = s" "mal_sum (maf_lo ?m) = mal_sum (maf_lo maf)" "maf_out ?m = maf_out maf" "maf_cfg ?m = cfg"
    using s by (simp_all add: maf_init_def)
  have ok: "maf_ok ?m" using i assms(2) by (simp add: maf_ok_def m spsc_ready_def Let_def u)
  let ?sum = "(mal_sum (maf_lo maf) - f64_of_f32 (f32_of_mem junk) + f64_of_f32 x) / ?c"
  obtain s1 where s1: "maf_exec_in junk ?m x = Some (?m\<lparr>maf_in := x, maf_lo := \<lparr>mal_spsc = s1, mal_sum = ?sum\<rparr>\<rparr>)"
      "maf_ok (?m\<lparr>maf_lo := \<lparr>mal_spsc = s1, mal_sum = ?sum\<rparr>\<rparr>)" "spsc_bytes s1 = f32_mem x"
    using maf_exec_step [OF ok assms(5), of x x ?sum] i(2) by (auto simp: m)
  have "maf_ok (?m\<lparr>maf_in := x, maf_lo := \<lparr>mal_spsc = s1, mal_sum = ?sum\<rparr>\<rparr>)" using s1(2) by (simp add: maf_ok_def)
  from maf_run_step [OF this assms(4), of x] s1(1,3) show ?thesis by (auto simp: m)
qed

definition demo_maf :: maf_filter_t where
  "demo_maf = \<lparr>maf_cfg = \<lparr>mac_buf = [], mac_cap = 0\<rparr>, maf_in = 0, maf_out = 0,
     maf_lo = \<lparr>mal_spsc = \<lparr>sp_policy = SPSC_POLICY_REJECT, sp_buf = [], sp_cap = 0, sp_wp = 0, sp_rp = 0\<rparr>, mal_sum = F64 0\<rparr>\<rparr>"

theorem maf_window_witness:
  "\<exists>maf'. maf_run (maf_init demo_maf \<lparr>mac_buf = replicate 16 0, mac_cap = 16\<rparr>) [([0, 0, 0, 0], f32_of_int 3), ([9, 9, 9, 9], f32_of_int 5)] = Some maf' \<and>
     maf_out maf' = 0 \<and> spsc_bytes (mal_spsc (maf_lo maf')) = f32_mem (f32_of_int 5)"
  using maf_window [of "\<lparr>mac_buf = replicate 16 0, mac_cap = 16\<rparr>" "[([9, 9, 9, 9], f32_of_int 5)]" "[0, 0, 0, 0]" demo_maf "f32_of_int 3"]
  by (auto simp: IS_POWER_OF_2_def demo_maf_def)

end
