(* ===== verification/Fft.thy ===== *)
theory Fft
  imports Mathdef Spsc_Ring Float64 Timeops
begin

section \<open>The spectrum (trans/fft.h)\<close>

text \<open>
  Samples go into a ring; a transform copies the memory of the ring, calls the FFTW library on it and
  looks for the greatest magnitude. The library is the parameter \<open>fftw\<close>: the plan made for \<open>n\<close> points
  turns an input array into the output array (for the real transform \<open>n / 2 + 1\<close> complex numbers).
  Host build (not the ARM one); \<open>mx\<close> and \<open>l\<close> are the vector unit of \<open>find_max\<close>.
\<close>

datatype fft_size_e = FFT_POINT_32 | FFT_POINT_64 | FFT_POINT_128 | FFT_POINT_256 | FFT_POINT_512 | FFT_POINT_1024 | FFT_POINT_2048
  | FFT_POINT_4096 | FFT_POINT_8192 | FFT_POINT_16384 | FFT_POINT_32768 | FFT_POINT_65536 | FFT_POINT_131072 | FFT_POINT_262144
  | FFT_POINT_524288 | FFT_POINT_1048576

fun fft_size_num :: "fft_size_e \<Rightarrow> usz" where
  "fft_size_num FFT_POINT_32 = 32"
| "fft_size_num FFT_POINT_64 = 64"
| "fft_size_num FFT_POINT_128 = 128"
| "fft_size_num FFT_POINT_256 = 256"
| "fft_size_num FFT_POINT_512 = 512"
| "fft_size_num FFT_POINT_1024 = 1024"
| "fft_size_num FFT_POINT_2048 = 2048"
| "fft_size_num FFT_POINT_4096 = 4096"
| "fft_size_num FFT_POINT_8192 = 8192"
| "fft_size_num FFT_POINT_16384 = 16384"
| "fft_size_num FFT_POINT_32768 = 32768"
| "fft_size_num FFT_POINT_65536 = 65536"
| "fft_size_num FFT_POINT_131072 = 131072"
| "fft_size_num FFT_POINT_262144 = 262144"
| "fft_size_num FFT_POINT_524288 = 524288"
| "fft_size_num FFT_POINT_1048576 = 1048576"

record fft_cfg_t =
  ffc_fs :: f32
  ffc_flag :: u8
  ffc_points_num :: usz
  ffc_buf :: "u8 list"
  ffc_in_buf :: "f32 list"
  ffc_out_buf :: "(f32 \<times> f32) list"
  ffc_mag_buf :: "f32 list"

record fft_out_t =
  ffo_fr :: f32
  ffo_ft :: f32
  ffo_out_idx :: usz
  ffo_mag_buf :: "f32 list"
  ffo_max_mag :: f32

record fft_lo_t =
  ffl_elapsed_us :: u32
  ffl_spsc :: spsc_t
  ffl_neet_exec :: bool
  ffl_buf :: "(f32 \<times> f32) list"

record fft_t =
  fft_cfg :: fft_cfg_t
  fft_in :: "f32 list"
  fft_out :: fft_out_t
  fft_lo :: fft_lo_t

definition fft_init :: "fft_t \<Rightarrow> fft_cfg_t \<Rightarrow> fft_t" where
  "fft_init fft cfg = (let lo = fft_lo fft; out = fft_out fft in
     fft\<lparr>fft_cfg := cfg, fft_in := ffc_in_buf cfg,
       fft_out := out\<lparr>ffo_mag_buf := ffc_mag_buf cfg, ffo_fr := ffc_fs cfg / f32_of_u64 (ffc_points_num cfg)\<rparr>,
       fft_lo := lo\<lparr>ffl_spsc := fst (spsc_init (ffl_spsc lo) (ffc_buf cfg) (ffc_points_num cfg * 4) SPSC_POLICY_REJECT), ffl_buf := ffc_out_buf cfg\<rparr>\<rparr>)"

text \<open>The copy of the ring's memory to the input array, and the magnitudes; each stays in its arrays.\<close>

definition fft_load :: "spsc_t \<Rightarrow> f32 list \<Rightarrow> f32 list option" where
  "fft_load s dst = (let n = unat (sp_cap s) in
     if n \<le> length (sp_buf s) \<and> n \<le> 4 * length dst then Some (f32s_of_mem (take n (sp_buf s)) @ drop (n div 4) dst) else None)"

definition fft_mags :: "libm \<Rightarrow> nat \<Rightarrow> (f32 \<times> f32) list \<Rightarrow> f32 list \<Rightarrow> f32 list option" where
  "fft_mags L k z mag = (if k \<le> length z \<and> k \<le> length mag
     then Some (map (\<lambda>(re, im). lm_sqrt L (re * re + im * im)) (take k z) @ drop k mag) else None)"

text \<open>\<open>t0\<close> and \<open>t1\<close> are the readings of the clock at the start and the end.\<close>

definition fft_exec :: "libm \<Rightarrow> (f32 \<Rightarrow> f32 \<Rightarrow> f32) \<Rightarrow> nat \<Rightarrow> (nat \<Rightarrow> f32 list \<Rightarrow> (f32 \<times> f32) list) \<Rightarrow> timespec \<Rightarrow> timespec \<Rightarrow> fft_t \<Rightarrow> fft_t option" where
  "fft_exec L mx l fftw t0 t1 fft = (let cfg = fft_cfg fft; lo = fft_lo fft; n = unat (ffc_points_num cfg) in
     if \<not> ffl_neet_exec lo then Some fft
     else do {
       inp \<leftarrow> fft_load (ffl_spsc lo) (fft_in fft);
       let z = fftw n inp;
       mag \<leftarrow> fft_mags L (n div 2 + 1) z (ffo_mag_buf (fft_out fft));
       let (max_mag, idx) = find_max mx l (take (n div 2) (drop 1 mag));
       let ft = f32_of_u64 (of_nat idx) * ffc_fs cfg / f32_of_u64 (ffc_points_num cfg);
       Some (fft\<lparr>fft_in := inp,
         fft_out := (fft_out fft)\<lparr>ffo_mag_buf := mag, ffo_max_mag := max_mag, ffo_out_idx := of_nat idx, ffo_ft := ft\<rparr>,
         fft_lo := lo\<lparr>ffl_buf := z, ffl_neet_exec := False, ffl_elapsed_us := ucast (get_mono_ts_us t1 - get_mono_ts_us t0)\<rparr>\<rparr>) })"

definition fft_exec_in :: "fft_t \<Rightarrow> f32 \<Rightarrow> fft_t option" where
  "fft_exec_in fft val = do {
     (s, n) \<leftarrow> spsc_write (ffl_spsc (fft_lo fft)) (f32_mem val) 4;
     Some (fft\<lparr>fft_lo := (fft_lo fft)\<lparr>ffl_spsc := s, ffl_neet_exec := (n = 0 \<or> ffl_neet_exec (fft_lo fft))\<rparr>\<rparr>) }"

subsection \<open>What is transformed\<close>

datatype fft_op = Feed f32 | Transform timespec timespec

fun fft_run :: "libm \<Rightarrow> (f32 \<Rightarrow> f32 \<Rightarrow> f32) \<Rightarrow> nat \<Rightarrow> (nat \<Rightarrow> f32 list \<Rightarrow> (f32 \<times> f32) list) \<Rightarrow> fft_t \<Rightarrow> fft_op list \<Rightarrow> fft_t option" where
  "fft_run L mx l fftw fft [] = Some fft"
| "fft_run L mx l fftw fft (Feed x # ops) = do { fft \<leftarrow> fft_exec_in fft x; fft_run L mx l fftw fft ops }"
| "fft_run L mx l fftw fft (Transform t0 t1 # ops) = do { fft \<leftarrow> fft_exec L mx l fftw t0 t1 fft; fft_run L mx l fftw fft ops }"

fun fed :: "fft_op list \<Rightarrow> f32 list" where
  "fed [] = []"
| "fed (Feed x # ops) = x # fed ops"
| "fed (Transform t0 t1 # ops) = fed ops"

text \<open>A ring that was never read, with the samples \<open>xs\<close> in it.\<close>

definition fft_ring :: "spsc_t \<Rightarrow> nat \<Rightarrow> f32 list \<Rightarrow> bool" where
  "fft_ring s N xs \<longleftrightarrow> spsc_ok s (sp_buf s) \<and> sp_policy s = SPSC_POLICY_REJECT \<and> sp_rp s = 0 \<and> unat (sp_cap s) = 4 * N \<and>
     spsc_bytes s = concat (map f32_mem xs)"

lemma fft_ring_length:
  assumes "fft_ring s N xs"
  shows "unat (spsc_avail s) = 4 * length xs" "length xs \<le> N" "unat (spsc_free s) = 4 * (N - length xs)"
proof -
  have "length (spsc_bytes s) = unat (spsc_avail s)" by (simp add: spsc_bytes_def spsc_queue_def)
  then show a: "unat (spsc_avail s) = 4 * length xs" using assms by (simp add: fft_ring_def)
  show "length xs \<le> N" "unat (spsc_free s) = 4 * (N - length xs)"
    using spsc_ok_bounds [of s "sp_buf s"] assms a by (auto simp: fft_ring_def)
qed

lemma fft_ring_write:
  assumes r: "fft_ring s N xs"
  shows "if length xs < N then \<exists>s' n. spsc_write s (f32_mem x) 4 = Some (s', n) \<and> n \<noteq> 0 \<and> fft_ring s' N (xs @ [x])
    else spsc_write s (f32_mem x) 4 = Some (s, 0)"
proof -
  note l = fft_ring_length [OF r]
  have o: "spsc_ok s (sp_buf s)" "sp_policy s = SPSC_POLICY_REJECT" using r by (simp_all add: fft_ring_def)
  have free: "sp_cap s - (sp_wp s - sp_rp s) = spsc_free s" by (simp add: spsc_free_def spsc_avail_def)
  show ?thesis
  proof (cases "length xs < N")
    case True
    have "4 \<le> unat (spsc_free s)" using l(3) True by simp
    then have fit: "unat (4 :: usz) \<le> unat (spsc_free s)" "4 \<le> spsc_free s" by (simp_all add: word_le_nat_alt)
    have pol: "spsc_policy s (sp_wp s) (sp_rp s) 4 = (s, 4)" using fit(2) by (simp add: spsc_policy_def free)
    obtain b where b: "ring_store (unat (sp_cap s)) (sp_buf s) (unat (sp_wp s) mod unat (sp_cap s)) (take (unat (4 :: usz)) (f32_mem x)) = Some b"
        "spsc_ok (s\<lparr>sp_wp := sp_wp s + 4\<rparr>) b" "spsc_queue (s\<lparr>sp_wp := sp_wp s + 4\<rparr>) b = spsc_queue s (sp_buf s) @ take (unat (4 :: usz)) (f32_mem x)"
      using spsc_store_fits [OF o(1) fit(1), of "f32_mem x"] by auto
    have "unat (4 :: usz) \<le> unat (sp_cap s)" using r True by (simp add: fft_ring_def)
    then have "spsc_write_buf s (sp_buf s) (f32_mem x) 4 = Some (s\<lparr>sp_wp := sp_wp s + 4\<rparr>, b, 4)"
      using spsc_write_buf_eq [OF o(1) pol, of "f32_mem x"] b(1) by simp
    then have "spsc_write s (f32_mem x) 4 = Some (s\<lparr>sp_wp := sp_wp s + 4, sp_buf := b\<rparr>, 4)" by (simp add: spsc_write_def)
    moreover have "fft_ring (s\<lparr>sp_wp := sp_wp s + 4, sp_buf := b\<rparr>) N (xs @ [x])"
      using r b(2,3) by (simp add: fft_ring_def spsc_bytes_def)
    ultimately show ?thesis using True by auto
  next
    case False
    then have "\<not> 4 \<le> spsc_free s" using l(3) by (simp add: word_le_nat_alt)
    then have "spsc_write_buf s (sp_buf s) (f32_mem x) 4 = Some (s, sp_buf s, 0)"
      using o(2) by (simp add: spsc_write_buf_def spsc_policy_def free Let_def)
    then show ?thesis using False by (simp add: spsc_write_def)
  qed
qed

text \<open>When it is full, its memory is the samples.\<close>

lemma ring_slice_start: "n \<le> c \<Longrightarrow> c \<le> length buf \<Longrightarrow> ring_slice c buf 0 n = take n buf"
  by (rule nth_equalityI) simp_all

lemma fft_ring_load:
  assumes r: "fft_ring s N xs" and f: "length xs = N" and d: "length dst = N"
  shows "fft_load s dst = Some xs"
proof -
  have n: "unat (sp_cap s) = 4 * N" "unat (sp_cap s) \<le> length (sp_buf s)" using r by (auto simp: fft_ring_def spsc_ok_def)
  have "spsc_bytes s = take (4 * N) (sp_buf s)"
    using fft_ring_length(1) [OF r] r f n ring_slice_start [of "4 * N" "4 * N" "sp_buf s"]
    by (simp add: spsc_bytes_def spsc_queue_def fft_ring_def)
  then have "f32s_of_mem (take (4 * N) (sp_buf s)) = xs" using r by (simp add: fft_ring_def)
  then show ?thesis using n d by (simp add: fft_load_def Let_def)
qed

text \<open>The invariant: \<open>ws\<close> are the samples fed so far.\<close>

definition fft_ok :: "fft_t \<Rightarrow> nat \<Rightarrow> f32 list \<Rightarrow> bool" where
  "fft_ok fft N ws \<longleftrightarrow> fft_ring (ffl_spsc (fft_lo fft)) N (take N ws) \<and> (ffl_neet_exec (fft_lo fft) \<longrightarrow> N < length ws) \<and>
     unat (ffc_points_num (fft_cfg fft)) = N \<and> length (fft_in fft) = N \<and> N div 2 + 1 \<le> length (ffo_mag_buf (fft_out fft))"

lemma fft_feed_ok:
  assumes "fft_ok fft N ws"
  shows "\<exists>fft'. fft_exec_in fft x = Some fft' \<and> fft_ok fft' N (ws @ [x]) \<and> fft_in fft' = fft_in fft \<and> fft_out fft' = fft_out fft"
proof -
  have r: "fft_ring (ffl_spsc (fft_lo fft)) N (take N ws)" using assms by (simp add: fft_ok_def)
  show ?thesis
  proof (cases "length ws < N")
    case True
    then have t: "take N ws = ws" "take N (ws @ [x]) = ws @ [x]" by simp_all
    with fft_ring_write [OF r, of x] True obtain s n where "spsc_write (ffl_spsc (fft_lo fft)) (f32_mem x) 4 = Some (s, n)" "n \<noteq> 0"
        "fft_ring s N (take N (ws @ [x]))" by auto
    then show ?thesis using assms True by (simp add: fft_exec_in_def fft_ok_def)
  next
    case False
    then have "\<not> length (take N ws) < N" by simp
    with fft_ring_write [OF r, of x] have "spsc_write (ffl_spsc (fft_lo fft)) (f32_mem x) 4 = Some (ffl_spsc (fft_lo fft), 0)" by simp
    then show ?thesis using assms False by (simp add: fft_exec_in_def fft_ok_def)
  qed
qed

lemma fft_exec_ok:
  assumes ok: "fft_ok fft N ws" and w: "\<And>xs. N div 2 + 1 \<le> length (fftw N xs)"
  shows "\<exists>fft'. fft_exec L mx l fftw t0 t1 fft = Some fft' \<and> fft_ok fft' N ws \<and>
    (if ffl_neet_exec (fft_lo fft) then fft_in fft' = take N ws \<and> N < length ws \<and> ffl_buf (fft_lo fft') = fftw N (take N ws) else fft' = fft)"
proof (cases "ffl_neet_exec (fft_lo fft)")
  case False
  then show ?thesis using ok by (simp add: fft_exec_def)
next
  case True
  have n: "unat (ffc_points_num (fft_cfg fft)) = N" "length (fft_in fft) = N" "N div 2 + 1 \<le> length (ffo_mag_buf (fft_out fft))"
    and r: "fft_ring (ffl_spsc (fft_lo fft)) N (take N ws)" and g: "N < length ws" using ok True by (simp_all add: fft_ok_def)
  have ld: "fft_load (ffl_spsc (fft_lo fft)) (fft_in fft) = Some (take N ws)" using fft_ring_load [OF r _ n(2)] g by simp
  obtain mag where m: "fft_mags L (N div 2 + 1) (fftw N (take N ws)) (ffo_mag_buf (fft_out fft)) = Some mag" "length mag = length (ffo_mag_buf (fft_out fft))"
    using w [of "take N ws"] n(3) by (simp add: fft_mags_def)
  obtain v i where f: "find_max mx l (take (N div 2) (drop 1 mag)) = (v, i)" by fastforce
  show ?thesis using True ld m f n r g by (simp add: fft_exec_def fft_ok_def Let_def)
qed

lemma fft_run_ok:
  "fft_ok fft N ws \<Longrightarrow> (\<And>xs. N div 2 + 1 \<le> length (fftw N xs)) \<Longrightarrow>
   \<exists>fft'. fft_run L mx l fftw fft ops = Some fft' \<and> fft_ok fft' N (ws @ fed ops) \<and>
     (fft_in fft' = fft_in fft \<or> fft_in fft' = take N (ws @ fed ops) \<and> N < length (ws @ fed ops))"
proof (induction ops arbitrary: fft ws)
  case (Cons a ops)
  show ?case
  proof (cases a)
    case (Feed x)
    obtain f1 where 1: "fft_exec_in fft x = Some f1" "fft_ok f1 N (ws @ [x])" "fft_in f1 = fft_in fft" using fft_feed_ok [OF Cons.prems(1)] by blast
    from Cons.IH [OF 1(2) Cons.prems(2)] 1(1,3) Feed show ?thesis by auto
  next
    case (Transform t0 t1)
    from fft_exec_ok [OF Cons.prems(1), of fftw L mx l t0 t1] Cons.prems(2) obtain f1 where
      1: "fft_exec L mx l fftw t0 t1 fft = Some f1" "fft_ok f1 N ws" "fft_in f1 = fft_in fft \<or> fft_in f1 = take N ws \<and> N < length ws"
      by (auto split: if_splits)
    obtain f2 where 2: "fft_run L mx l fftw f1 ops = Some f2" "fft_ok f2 N (ws @ fed ops)"
        "fft_in f2 = fft_in f1 \<or> fft_in f2 = take N (ws @ fed ops) \<and> N < length (ws @ fed ops)"
      using Cons.IH [OF 1(2) Cons.prems(2)] by blast
    have "take N (ws @ fed ops) = take N ws" if "N < length ws" using that by simp
    then show ?thesis using 1(1,3) 2 by (intro exI [of _ f2]) (auto simp: Transform)
  qed
qed simp

text \<open>C37: The spectrum stays that of the first samples: however samples and transforms follow each other, the
  ring keeps the first \<open>N\<close> samples ever given and drops all later ones, because nothing empties
  it; no transform is made before sample \<open>N + 1\<close>, and every one that is made reads those same
  first \<open>N\<close> samples. No step leaves its arrays.\<close>

theorem fft_frozen:
  assumes "ffc_points_num cfg = fft_size_num e" "unat (ffc_points_num cfg) = N" "4 * N \<le> length (ffc_buf cfg)" "length (ffc_in_buf cfg) = N"
    and "N div 2 + 1 \<le> length (ffc_mag_buf cfg)" "\<And>xs. N div 2 + 1 \<le> length (fftw N xs)" "\<not> ffl_neet_exec (fft_lo fft)"
  shows "\<exists>fft'. fft_run L mx l fftw (fft_init fft cfg) ops = Some fft' \<and>
    spsc_bytes (ffl_spsc (fft_lo fft')) = concat (map f32_mem (take N (fed ops))) \<and> (ffl_neet_exec (fft_lo fft') \<longrightarrow> N < length (fed ops)) \<and>
    (fft_in fft' = ffc_in_buf cfg \<or> fft_in fft' = take N (fed ops) \<and> N < length (fed ops))"
proof -
  let ?f = "fft_init fft cfg"
  have u: "unat (ffc_points_num cfg * 4) = 4 * N" "IS_POWER_OF_2 (ffc_points_num cfg * 4)" "4 * N < 2 ^ 64"
    using assms(1,2) by (cases e; simp add: IS_POWER_OF_2_def; fail)+
  obtain s ret where s: "spsc_init (ffl_spsc (fft_lo fft)) (ffc_buf cfg) (ffc_points_num cfg * 4) SPSC_POLICY_REJECT = (s, ret)" by fastforce
  have i: "spsc_ready s" "spsc_bytes s = []" "sp_policy s = SPSC_POLICY_REJECT" "sp_cap s = ffc_points_num cfg * 4" "sp_rp s = 0"
    using spsc_init_ready [OF u(2) _ _ s] assms(3) s u(1,2) by (auto simp: spsc_init_def spsc_init_buf_def)
  have "fft_ok ?f N []"
    using i u(1) s assms(2,4,5,7) by (simp add: fft_ok_def fft_init_def Let_def fft_ring_def spsc_ready_def)
  from fft_run_ok [where fftw = fftw and L = L and mx = mx and l = l and ops = ops, OF this assms(6)]
  show ?thesis by (auto simp: fft_ok_def fft_ring_def fft_init_def Let_def)
qed

definition demo_fft_cfg :: fft_cfg_t where
  "demo_fft_cfg = \<lparr>ffc_fs = 1, ffc_flag = 0, ffc_points_num = 32, ffc_buf = replicate 128 0, ffc_in_buf = replicate 32 0,
     ffc_out_buf = replicate 17 (0, 0), ffc_mag_buf = replicate 17 0\<rparr>"

definition demo_fft :: fft_t where
  "demo_fft = \<lparr>fft_cfg = demo_fft_cfg, fft_in = [], fft_out = \<lparr>ffo_fr = 0, ffo_ft = 0, ffo_out_idx = 0, ffo_mag_buf = [], ffo_max_mag = 0\<rparr>,
     fft_lo = \<lparr>ffl_elapsed_us = 0, ffl_spsc = \<lparr>sp_policy = SPSC_POLICY_REJECT, sp_buf = [], sp_cap = 0, sp_wp = 0, sp_rp = 0\<rparr>, ffl_neet_exec = False, ffl_buf = []\<rparr>\<rparr>"

theorem fft_frozen_witness:
  "\<exists>fft'. fft_run flat_libm F_MAX 3 (\<lambda>n xs. replicate 17 (0, 0)) (fft_init demo_fft demo_fft_cfg) (map Feed (replicate 32 1 @ replicate 40 0)) = Some fft' \<and>
     spsc_bytes (ffl_spsc (fft_lo fft')) = concat (map f32_mem (replicate 32 1))"
proof -
  let ?ops = "map Feed (replicate 32 1 @ replicate 40 0)"
  have "fed (map Feed xs) = xs" for xs by (induction xs) simp_all
  then have f: "take 32 (fed ?ops) = replicate 32 1" by (simp del: map_append)
  have "ffc_points_num demo_fft_cfg = fft_size_num FFT_POINT_32" "unat (ffc_points_num demo_fft_cfg) = 32" "4 * 32 \<le> length (ffc_buf demo_fft_cfg)"
    "length (ffc_in_buf demo_fft_cfg) = 32" "32 div 2 + 1 \<le> length (ffc_mag_buf demo_fft_cfg)" "\<not> ffl_neet_exec (fft_lo demo_fft)"
    by (simp_all add: demo_fft_cfg_def demo_fft_def)
  from fft_frozen [OF this(1-5) _ this(6), of "\<lambda>n xs. replicate 17 (0, 0)" flat_libm F_MAX 3 ?ops]
  show ?thesis unfolding f by auto
qed

end
