(* ===== verification/Shm.thy ===== *)
theory Shm
  imports Spsc_Ring
begin

section \<open>A ring in shared memory (shm/shm.h)\<close>

text \<open>
  The first process to open the name creates the object, sizes it and sets up a ring in it; the others
  map what is there. The object is the ring's control block and the bytes behind it. The calls of the
  system are events, their results inputs: descriptors with \<open>-1\<close> for a failure, and the object mapped
  or none. Every process maps as many bytes of the object as its own configuration says, with the
  access it asks for, and its calls are bounded by that: a call is undefined when it would leave the
  mapping, change one that may only be read, or read one that may only be written. The rest of the
  last page behind a mapping, which the system may leave accessible, is not relied on. Linux build.
\<close>

datatype shm_access_e = SHM_READONLY | SHM_WRITEONLY | SHM_READWRITE

record shm_cfg_t =
  shc_name :: string
  shc_access :: shm_access_e
  shc_cap :: usz

record shm_lo_t =
  shl_fd :: int
  shl_is_creator :: bool

record shm_t =
  shm_cfg :: shm_cfg_t
  shm_lo :: shm_lo_t

text \<open>The mapped object: the \<open>spsc_t\<close> at its start, 40 bytes long, and the rest.\<close>

record shm_region =
  sr_spsc :: spsc_t
  sr_data :: "u8 list"

definition SPSC_SIZE :: nat where
  "SPSC_SIZE = 40"

datatype shm_ev = ShmOpen bool | Ftruncate int usz | Mmap int usz shm_access_e | CloseFd int | ShmUnlink

definition can_write :: "shm_access_e \<Rightarrow> bool" where
  "can_write a \<longleftrightarrow> a \<noteq> SHM_READONLY"

definition can_read :: "shm_access_e \<Rightarrow> bool" where
  "can_read a \<longleftrightarrow> a \<noteq> SHM_WRITEONLY"

text \<open>\<open>mapped\<close> is the object that was mapped, which may be longer or shorter than \<open>cap\<close>. The result of
  \<open>spsc_init_buf\<close> is not looked at; it writes to the control block only for a power of two.\<close>

definition shm_init :: "shm_t \<Rightarrow> shm_cfg_t \<Rightarrow> int \<Rightarrow> int \<Rightarrow> int \<Rightarrow> shm_region option \<Rightarrow> (shm_t \<times> shm_region option \<times> int \<times> shm_ev list) option" where
  "shm_init shm cfg fd1 fd2 trunc mapped = (
     let shm = shm\<lparr>shm_cfg := cfg\<rparr>; creator = (fd1 = - 1); fd = (if creator then fd2 else fd1);
         ev = ShmOpen False # (if creator then [ShmOpen True] else []) in
     if fd = - 1 then Some (shm\<lparr>shm_lo := (shm_lo shm)\<lparr>shl_fd := - 1\<rparr>\<rparr>, None, - errcode MEACCES, ev)
     else let shm = shm\<lparr>shm_lo := \<lparr>shl_fd = fd, shl_is_creator = creator\<rparr>\<rparr>;
              ev = ev @ (if creator then [Ftruncate fd (shc_cap cfg)] else []) in
     if creator \<and> trunc = - 1 then Some (shm, None, - errcode MEACCES, ev @ [CloseFd fd])
     else let ev = ev @ [Mmap fd (shc_cap cfg) (shc_access cfg)] in
     case mapped of
       None \<Rightarrow> Some (shm, None, - errcode MEACCES, ev @ [CloseFd fd] @ (if creator then [ShmUnlink] else []))
     | Some r \<Rightarrow>
         if creator then
           (if \<not> IS_POWER_OF_2 (drop_bit 1 (shc_cap cfg)) \<or> can_write (shc_access cfg) \<and> SPSC_SIZE \<le> unat (shc_cap cfg)
            then Some (shm, Some (r\<lparr>sr_spsc := fst (spsc_init_buf (sr_spsc r) (drop_bit 1 (shc_cap cfg)) SPSC_POLICY_REJECT)\<rparr>), 0, ev)
            else None)
         else Some (shm, Some r, 0, ev))"

text \<open>The bytes behind the control block that the process has mapped.\<close>

definition shm_mapped :: "shm_t \<Rightarrow> shm_region \<Rightarrow> u8 list" where
  "shm_mapped shm r = take (unat (shc_cap (shm_cfg shm)) - SPSC_SIZE) (sr_data r)"

text \<open>The count is not returned; moving a position of the ring is a write.\<close>

definition shm_read :: "shm_t \<Rightarrow> shm_region \<Rightarrow> u8 list \<Rightarrow> usz \<Rightarrow> (shm_region \<times> u8 list) option" where
  "shm_read shm r dst sz = (let cfg = shm_cfg shm in
     if \<not> can_read (shc_access cfg) \<or> unat (shc_cap cfg) < SPSC_SIZE then None
     else do {
       (s, dst, n) \<leftarrow> spsc_read_buf (sr_spsc r) (shm_mapped shm r) dst sz;
       if n \<noteq> 0 \<and> \<not> can_write (shc_access cfg) then None else Some (r\<lparr>sr_spsc := s\<rparr>, dst) })"

definition shm_write :: "shm_t \<Rightarrow> shm_region \<Rightarrow> u8 list \<Rightarrow> usz \<Rightarrow> shm_region option" where
  "shm_write shm r src sz = (let cfg = shm_cfg shm in
     if \<not> can_read (shc_access cfg) \<or> unat (shc_cap cfg) < SPSC_SIZE then None
     else do {
       (s, d, n) \<leftarrow> spsc_write_buf (sr_spsc r) (shm_mapped shm r) src sz;
       if n \<noteq> 0 \<and> \<not> can_write (shc_access cfg) then None
       else Some (r\<lparr>sr_spsc := s, sr_data := d @ drop (length d) (sr_data r)\<rparr>) })"

subsection \<open>Two processes and one object\<close>

text \<open>A writer's and a reader's handle over the same object; the lengths are read off the ring.\<close>

type_synonym shm_sys = "shm_t \<times> shm_t \<times> shm_region"

text \<open>A process that may read and write and has mapped the whole ring.\<close>

definition shm_covers :: "shm_t \<Rightarrow> shm_region \<Rightarrow> bool" where
  "shm_covers p r \<longleftrightarrow> shc_access (shm_cfg p) = SHM_READWRITE \<and> SPSC_SIZE + unat (sp_cap (sr_spsc r)) \<le> unat (shc_cap (shm_cfg p))"

definition shm_ready :: "shm_sys \<Rightarrow> bool" where
  "shm_ready S \<longleftrightarrow> (case S of (w, rd, r) \<Rightarrow> shm_covers w r \<and> shm_covers rd r \<and>
     spsc_ok (sr_spsc r) (sr_data r) \<and> sp_policy (sr_spsc r) = SPSC_POLICY_REJECT)"

definition shm_bytes :: "shm_sys \<Rightarrow> u8 list" where
  "shm_bytes S = (case S of (w, rd, r) \<Rightarrow> spsc_queue (sr_spsc r) (sr_data r))"

definition shm_put :: "shm_sys \<Rightarrow> u8 list \<Rightarrow> (shm_sys \<times> nat) option" where
  "shm_put S xs = (case S of (w, rd, r) \<Rightarrow> do {
     r' \<leftarrow> shm_write w r xs (of_nat (length xs));
     Some ((w, rd, r'), unat (spsc_avail (sr_spsc r')) - unat (spsc_avail (sr_spsc r))) })"

definition shm_get :: "shm_sys \<Rightarrow> nat \<Rightarrow> (shm_sys \<times> u8 list) option" where
  "shm_get S n = (case S of (w, rd, r) \<Rightarrow> do {
     (r', dst) \<leftarrow> shm_read rd r (replicate n 0) (of_nat n);
     Some ((w, rd, r'), take (unat (spsc_avail (sr_spsc r)) - unat (spsc_avail (sr_spsc r'))) dst) })"

lemma queue_length [simp]: "length (spsc_queue s b) = unat (spsc_avail s)"
  by (simp add: spsc_queue_def)

text \<open>A process that covers the ring sees the whole of it.\<close>

lemma ring_slice_prefix:
  assumes "0 < c" "c \<le> length a" "c \<le> length b" "take c a = take c b"
  shows "ring_slice c a i n = ring_slice c b i n"
proof -
  have "a ! j = b ! j" if "j < c" for j using assms that by (metis nth_take)
  then show ?thesis using assms(1) by (simp add: ring_slice_def)
qed

lemma spsc_prefix:
  assumes "spsc_ok s a" "unat (sp_cap s) \<le> length b" "take (unat (sp_cap s)) a = take (unat (sp_cap s)) b"
  shows "spsc_ok s b" "spsc_queue s b = spsc_queue s a"
proof -
  have "0 < unat (sp_cap s)" using assms(1) by (auto simp: spsc_ok_def IS_POWER_OF_2_iff)
  then show "spsc_queue s b = spsc_queue s a"
    using ring_slice_prefix [of "unat (sp_cap s)" b a] assms by (simp add: spsc_queue_def spsc_ok_def)
  show "spsc_ok s b" using assms by (simp add: spsc_ok_def)
qed

lemma shm_covers_le: "shm_covers p r \<Longrightarrow> unat (sp_cap (sr_spsc r)) \<le> unat (shc_cap (shm_cfg p)) - SPSC_SIZE"
  unfolding shm_covers_def by linarith

lemma shm_covers_sees:
  assumes "shm_covers p r" "spsc_ok (sr_spsc r) (sr_data r)"
  shows "can_read (shc_access (shm_cfg p))" "can_write (shc_access (shm_cfg p))" "SPSC_SIZE \<le> unat (shc_cap (shm_cfg p))"
    and "spsc_ok (sr_spsc r) (shm_mapped p r)" "spsc_queue (sr_spsc r) (shm_mapped p r) = spsc_queue (sr_spsc r) (sr_data r)"
proof -
  have "unat (sp_cap (sr_spsc r)) \<le> length (shm_mapped p r)" "take (unat (sp_cap (sr_spsc r))) (sr_data r) = take (unat (sp_cap (sr_spsc r))) (shm_mapped p r)"
    using assms(2) shm_covers_le [OF assms(1)] by (simp_all add: shm_mapped_def spsc_ok_def min_def)
  then show "spsc_ok (sr_spsc r) (shm_mapped p r)" "spsc_queue (sr_spsc r) (shm_mapped p r) = spsc_queue (sr_spsc r) (sr_data r)"
    using spsc_prefix [OF assms(2)] by blast+
qed (use assms(1) in \<open>simp_all add: shm_covers_def can_read_def can_write_def\<close>)

lemma shm_put_law:
  assumes "shm_ready S" "length xs < 2 ^ 64"
  shows "\<exists>S' n. shm_put S xs = Some (S', n) \<and> shm_ready S' \<and> n \<le> length xs \<and> shm_bytes S' = shm_bytes S @ take n xs"
proof -
  obtain w rd r where S: "S = (w, rd, r)" by (cases S)
  have ok: "shm_covers w r" "shm_covers rd r" "spsc_ok (sr_spsc r) (sr_data r)" "sp_policy (sr_spsc r) = SPSC_POLICY_REJECT"
    using assms(1) by (simp_all add: shm_ready_def S)
  note c = shm_covers_sees [OF ok(1,3)]
  have le: "unat (of_nat (length xs) :: usz) \<le> length xs" using assms(2) by (simp add: unat_of_nat_usz)
  obtain t e where acc: "spsc_accept (sp_policy (sr_spsc r)) (unat (spsc_free (sr_spsc r))) (unat (of_nat (length xs) :: usz)) = (t, e)" by fastforce
  have te: "t \<le> length xs" "e = 0" using spsc_accept_bound [OF acc] ok(4) assms(2) by (simp_all add: unat_of_nat_usz)
  obtain s d n where w: "spsc_write_buf (sr_spsc r) (shm_mapped w r) xs (of_nat (length xs)) = Some (s, d, n)" "spsc_ok s d"
      "sp_policy s = SPSC_POLICY_REJECT" "sp_cap s = sp_cap (sr_spsc r)" "spsc_queue s d = spsc_queue (sr_spsc r) (sr_data r) @ take t xs"
    using spsc_write_buf_refines [OF c(4) le _ acc] ok(4) te(2) c(5) by auto
  let ?r = "r\<lparr>sr_spsc := s, sr_data := d @ drop (length d) (sr_data r)\<rparr>"
  have "unat (sp_cap s) \<le> length d" using w(2) by (simp add: spsc_ok_def)
  then have d: "spsc_ok s (sr_data ?r)" "spsc_queue s (sr_data ?r) = spsc_queue s d"
    using spsc_prefix [OF w(2), of "sr_data ?r"] by simp_all
  have "unat (spsc_avail s) = unat (spsc_avail (sr_spsc r)) + t"
    using arg_cong [where f = length, OF w(5)] te(1) by simp
  moreover have "shm_ready (w, rd, ?r)" using ok w(3,4) d(1) by (simp add: shm_ready_def shm_covers_def)
  ultimately show ?thesis using w(1,5) c(1-3) d(2) te(1)
    by (intro exI [of _ "(w, rd, ?r)"] exI [of _ t]) (simp add: shm_put_def shm_write_def S shm_bytes_def)
qed

lemma shm_get_law:
  assumes "shm_ready S" "n < 2 ^ 64"
  shows "\<exists>S' ys. shm_get S n = Some (S', ys) \<and> shm_ready S' \<and> length ys \<le> n \<and> shm_bytes S = ys @ shm_bytes S'"
proof -
  obtain w rd r where S: "S = (w, rd, r)" by (cases S)
  have ok: "shm_covers w r" "shm_covers rd r" "spsc_ok (sr_spsc r) (sr_data r)" "sp_policy (sr_spsc r) = SPSC_POLICY_REJECT"
    using assms(1) by (simp_all add: shm_ready_def S)
  note c = shm_covers_sees [OF ok(2,3)]
  let ?q = "spsc_queue (sr_spsc r) (sr_data r)"
  have un: "unat (of_nat n :: usz) = n" using assms(2) by (rule unat_of_nat_usz)
  obtain s k where k: "spsc_read_buf (sr_spsc r) (shm_mapped rd r) (replicate n 0) (of_nat n) = Some (s, take k ?q @ drop k (replicate n 0), of_nat k)"
      "k = min n (length ?q)" "spsc_ok s (shm_mapped rd r)" "sp_policy s = SPSC_POLICY_REJECT" "sp_cap s = sp_cap (sr_spsc r)"
      "spsc_queue s (shm_mapped rd r) = drop k ?q"
    using spsc_read_buf_refines [OF c(4), of "of_nat n" "replicate n 0"] un ok(4) c(5) by auto
  let ?r = "r\<lparr>sr_spsc := s\<rparr>"
  have m: "take (unat (sp_cap s)) (shm_mapped rd r) = take (unat (sp_cap s)) (sr_data r)" "unat (sp_cap s) \<le> length (sr_data r)"
    using ok(3) k(5) shm_covers_le [OF ok(2)] by (simp_all add: shm_mapped_def spsc_ok_def min_def)
  note d = spsc_prefix [OF k(3) m(2,1)]
  have "unat (spsc_avail s) = unat (spsc_avail (sr_spsc r)) - k" using arg_cong [where f = length, OF k(6)] by simp
  then have "unat (spsc_avail (sr_spsc r)) - unat (spsc_avail s) = k" using k(2) by simp
  moreover have "shm_ready (w, rd, ?r)" using ok k(4,5) d(1) by (simp add: shm_ready_def shm_covers_def)
  ultimately show ?thesis using k(1,2,6) c(1-3) d(2)
    by (intro exI [of _ "(w, rd, ?r)"] exI [of _ "take k ?q"]) (simp add: shm_get_def shm_read_def S shm_bytes_def)
qed

interpretation shm_fifo: byte_fifo shm_ready shm_bytes shm_put shm_get "\<lambda>xs. length xs < 2 ^ 64" "\<lambda>n. n < 2 ^ 64"
  by unfold_locales (blast intro: shm_put_law shm_get_law)+

subsection \<open>Properties\<close>

lemma half_power:
  assumes "IS_POWER_OF_2 c" "80 \<le> unat c"
  shows "IS_POWER_OF_2 (drop_bit 1 c)" "unat (drop_bit 1 c) = unat c div 2"
proof -
  have "unat c < 2 ^ 64" using unsigned_less [of c] by simp
  then show h: "unat (drop_bit 1 c) = unat c div 2" by (simp only: unsigned_drop_bit_eq) (simp add: drop_bit_eq_div take_bit_nat_eq_self)
  obtain k where k: "unat c = 2 ^ k" using assms(1) by (auto simp: IS_POWER_OF_2_iff)
  then obtain j where "k = Suc j" using assms(2) by (cases k) auto
  then have "unat (drop_bit 1 c) = 2 ^ j" using h k by simp
  then show "IS_POWER_OF_2 (drop_bit 1 c)" by (auto simp: IS_POWER_OF_2_iff)
qed

text \<open>A mapping that ends inside the ring: filling the ring from the writer's side and reading it from the
  other leaves the mapping.\<close>

lemma shm_get_short:
  assumes c: "sp_cap (sr_spsc r) = c" "c \<noteq> 0" "sp_rp (sr_spsc r) = 0" "sp_wp (sr_spsc r) = c"
    and m: "unat (shc_cap (shm_cfg rd)) < SPSC_SIZE + unat c"
  shows "shm_get (w, rd, r) (unat c) = None"
proof -
  have "mem_get (shm_mapped rd r) 0 (unat c) = None" if "SPSC_SIZE \<le> unat (shc_cap (shm_cfg rd))"
    using m that by (simp add: mem_get_def shm_mapped_def) linarith
  then show ?thesis using c by (simp add: shm_get_def shm_read_def Let_def spsc_read_buf_def)
qed

lemma shm_put_fill:
  assumes w: "shm_covers w r" and ok: "spsc_ok (sr_spsc r) (sr_data r)" and c: "sp_cap (sr_spsc r) = c" "sp_rp (sr_spsc r) = 0" "sp_wp (sr_spsc r) = 0"
  shows "\<exists>r' n. shm_put (w, rd, r) (replicate (unat c) 0) = Some ((w, rd, r'), n) \<and>
    sp_cap (sr_spsc r') = c \<and> sp_rp (sr_spsc r') = 0 \<and> sp_wp (sr_spsc r') = c"
proof -
  note s = shm_covers_sees [OF w ok]
  have c0: "c \<noteq> 0" "unat c \<le> length (shm_mapped w r)" using s(4) c(1) by (auto simp: spsc_ok_def IS_POWER_OF_2_def)
  then show ?thesis using s(1-3) c
    by (simp add: shm_put_def shm_write_def Let_def spsc_write_buf_def spsc_policy_def mem_get_def mem_put_def not_less)
qed

lemma shm_no_access:
  assumes "shc_access (shm_cfg p) = SHM_WRITEONLY \<or> unat (shc_cap (shm_cfg p)) < SPSC_SIZE"
  shows "shm_read p r dst sz = None" "shm_write p r src sz = None"
  using assms by (auto simp: shm_read_def shm_write_def can_read_def)

lemma shm_readonly:
  assumes a: "shc_access (shm_cfg p) = SHM_READONLY" "spsc_ok (sr_spsc r) (shm_mapped p r)" "spsc_queue (sr_spsc r) (shm_mapped p r) \<noteq> []"
    and n: "0 < unat sz" "unat sz \<le> length dst"
  shows "shm_read p r dst sz = None"
proof -
  let ?q = "spsc_queue (sr_spsc r) (shm_mapped p r)"
  obtain s k where k: "spsc_read_buf (sr_spsc r) (shm_mapped p r) dst sz = Some (s, take k ?q @ drop k dst, of_nat k)" "k = min (unat sz) (length ?q)"
    using spsc_read_buf_refines [OF a(2) n(2)] by auto
  have "0 < k" using k(2) a(3) n(1) by (simp del: queue_length)
  moreover have "k < 2 ^ 64" using k(2) order_le_less_trans [OF min.cobounded1 unsigned_less [of sz]] by simp
  ultimately have "(of_nat k :: usz) \<noteq> 0" using unat_of_nat_usz [of k] by auto
  then show ?thesis using k(1) a(1) by (simp add: shm_read_def Let_def can_write_def)
qed

text \<open>C36: A process that creates the object and one that opens it, both with mappings that may be read and
  written, share a byte queue, the creator writing and the other reading: when the creator's size
  is a power of two of at least 80 bytes (so that half of it fits behind the control block) and
  the opener maps at least the control block and the ring, any sequence of writes and reads is
  defined, and the bytes read and those still in the ring are the accepted ones in order. The
  opener's size is its own choice: when it is smaller than that, filling the ring and reading it
  leaves the mapping. No call is defined with a mapping that is shorter than the control block or
  may only be written, and none that reads a byte with a read-only one.\<close>

theorem shm_shared_queue:
  assumes "shm_init w0 cfg (- 1) fd trunc (Some r0) = Some (w, Some r, 0, ev)" "fd \<noteq> - 1" "trunc \<noteq> - 1"
    and "shm_init rd0 cfg' fd' fd2 trunc' (Some r) = Some (rd, Some r', 0, ev')" "fd' \<noteq> - 1"
    and "shc_access cfg = SHM_READWRITE" "shc_access cfg' = SHM_READWRITE"
    and "IS_POWER_OF_2 (shc_cap cfg)" "80 \<le> unat (shc_cap cfg)" "length (sr_data r0) + SPSC_SIZE = unat (shc_cap cfg)"
  shows "(SPSC_SIZE + unat (shc_cap cfg) div 2 \<le> unat (shc_cap cfg') \<longrightarrow>
      (\<forall>ops. fifo_ops_ok (\<lambda>xs. length xs < 2 ^ 64) (\<lambda>n. n < 2 ^ 64) ops \<longrightarrow>
        (\<exists>S ins outs. fifo_run shm_put shm_get (w, rd, r') ops = Some (S, ins, outs) \<and> ins = outs @ shm_bytes S))) \<and>
    (unat (shc_cap cfg') < SPSC_SIZE + unat (shc_cap cfg) div 2 \<longrightarrow>
      fifo_run shm_put shm_get (w, rd, r') [Put (replicate (unat (shc_cap cfg) div 2) 0), Get (unat (shc_cap cfg) div 2)] = None) \<and>
    (\<forall>p q dst src sz. shc_access (shm_cfg p) = SHM_WRITEONLY \<or> unat (shc_cap (shm_cfg p)) < SPSC_SIZE \<longrightarrow>
      shm_read p q dst sz = None \<and> shm_write p q src sz = None) \<and>
    (\<forall>p q dst sz. shc_access (shm_cfg p) = SHM_READONLY \<and> spsc_ok (sr_spsc q) (shm_mapped p q) \<and> spsc_queue (sr_spsc q) (shm_mapped p q) \<noteq> [] \<and>
      0 < unat sz \<and> unat sz \<le> length dst \<longrightarrow> shm_read p q dst sz = None)"
proof (intro conjI impI allI)
  let ?c = "drop_bit 1 (shc_cap cfg)"
  note h = half_power [OF assms(8,9)]
  have r: "r = r0\<lparr>sr_spsc := fst (spsc_init_buf (sr_spsc r0) ?c SPSC_POLICY_REJECT)\<rparr>" "shm_cfg w = cfg"
    using assms(1-3) by (auto simp: shm_init_def Let_def split: if_splits)
  have r': "r' = r" "shm_cfg rd = cfg'" using assms(4,5) by (auto simp: shm_init_def Let_def)
  have q: "sp_cap (sr_spsc r) = ?c" "sp_rp (sr_spsc r) = 0" "sp_wp (sr_spsc r) = 0" "sp_policy (sr_spsc r) = SPSC_POLICY_REJECT" "sr_data r = sr_data r0"
    using r(1) h(1) by (simp_all add: spsc_init_buf_def)
  have "SPSC_SIZE + unat (shc_cap cfg) div 2 \<le> unat (shc_cap cfg)" "unat (shc_cap cfg) div 2 \<le> length (sr_data r0)"
    using assms(9,10) by (simp_all add: SPSC_SIZE_def)
  then have ok: "shm_covers w r" "spsc_ok (sr_spsc r) (sr_data r)"
    using q h assms(6) r(2) by (simp_all add: shm_covers_def spsc_ok_def spsc_avail_def)
  {
    assume "SPSC_SIZE + unat (shc_cap cfg) div 2 \<le> unat (shc_cap cfg')"
    then have "shm_ready (w, rd, r')" using q(1,4) h(2) ok r' assms(7) by (simp add: shm_ready_def shm_covers_def)
    moreover have "shm_bytes (w, rd, r') = []" using q r'(1) by (simp add: shm_bytes_def spsc_queue_def spsc_avail_def)
    moreover fix ops :: "fifo_op list"
    assume "fifo_ops_ok (\<lambda>xs. length xs < 2 ^ 64) (\<lambda>n. n < 2 ^ 64) ops"
    ultimately show "\<exists>S ins outs. fifo_run shm_put shm_get (w, rd, r') ops = Some (S, ins, outs) \<and> ins = outs @ shm_bytes S"
      using shm_fifo.run_fifo [of "(w, rd, r')" ops] by auto
  next
    assume s: "unat (shc_cap cfg') < SPSC_SIZE + unat (shc_cap cfg) div 2"
    obtain r2 n where p: "shm_put (w, rd, r) (replicate (unat ?c) 0) = Some ((w, rd, r2), n)"
        "sp_cap (sr_spsc r2) = ?c" "sp_rp (sr_spsc r2) = 0" "sp_wp (sr_spsc r2) = ?c"
      using shm_put_fill [OF ok q(1-3)] by blast
    have "?c \<noteq> 0" using h(1) by (simp add: IS_POWER_OF_2_def)
    then have "shm_get (w, rd, r2) (unat ?c) = None" using shm_get_short [OF p(2) _ p(3,4)] s h(2) r'(2) by simp
    then show "fifo_run shm_put shm_get (w, rd, r') [Put (replicate (unat (shc_cap cfg) div 2) 0), Get (unat (shc_cap cfg) div 2)] = None"
      using p(1) h(2) r'(1) by simp
  }
qed (use shm_no_access shm_readonly in blast)+

definition demo_shm :: shm_t where
  "demo_shm = \<lparr>shm_cfg = \<lparr>shc_name = ''a'', shc_access = SHM_READWRITE, shc_cap = 128\<rparr>, shm_lo = \<lparr>shl_fd = 0, shl_is_creator = False\<rparr>\<rparr>"

definition demo_opener :: shm_cfg_t where
  "demo_opener = \<lparr>shc_name = ''a'', shc_access = SHM_READWRITE, shc_cap = 104\<rparr>"

definition demo_region :: shm_region where
  "demo_region = \<lparr>sr_spsc = \<lparr>sp_policy = SPSC_POLICY_TRUNCATE, sp_buf = [], sp_cap = 0, sp_wp = 0, sp_rp = 0\<rparr>, sr_data = replicate 88 0\<rparr>"

theorem shm_shared_queue_witness:
  "\<exists>w rd r S ins outs. fifo_run shm_put shm_get (w, rd, r) [Put [1, 2, 3], Get 2] = Some (S, ins, outs) \<and> ins = outs @ shm_bytes S \<and>
     shm_init demo_shm (shm_cfg demo_shm) (- 1) 3 0 (Some demo_region) = Some (w, Some r, 0, [ShmOpen False, ShmOpen True, Ftruncate 3 128, Mmap 3 128 SHM_READWRITE]) \<and>
     shm_init demo_shm demo_opener 4 0 0 (Some r) = Some (rd, Some r, 0, [ShmOpen False, Mmap 4 104 SHM_READWRITE])"
proof -
  let ?c = "shm_cfg demo_shm"
  obtain w r where w: "shm_init demo_shm ?c (- 1) 3 0 (Some demo_region) = Some (w, Some r, 0, [ShmOpen False, ShmOpen True, Ftruncate 3 128, Mmap 3 128 SHM_READWRITE])"
    by (simp add: shm_init_def demo_shm_def can_write_def SPSC_SIZE_def)
  obtain rd where rd: "shm_init demo_shm demo_opener 4 0 0 (Some r) = Some (rd, Some r, 0, [ShmOpen False, Mmap 4 104 SHM_READWRITE])"
    by (simp add: shm_init_def demo_opener_def)
  have "shc_access ?c = SHM_READWRITE" "shc_access demo_opener = SHM_READWRITE" "IS_POWER_OF_2 (shc_cap ?c)" "80 \<le> unat (shc_cap ?c)"
      "length (sr_data demo_region) + SPSC_SIZE = unat (shc_cap ?c)"
    by (simp_all add: demo_shm_def demo_opener_def demo_region_def IS_POWER_OF_2_def SPSC_SIZE_def)
  moreover have "(3 :: int) \<noteq> - 1" "(0 :: int) \<noteq> - 1" "(4 :: int) \<noteq> - 1" by simp_all
  ultimately have q: "SPSC_SIZE + unat (shc_cap ?c) div 2 \<le> unat (shc_cap demo_opener) \<longrightarrow>
      (\<forall>ops. fifo_ops_ok (\<lambda>xs. length xs < 2 ^ 64) (\<lambda>n. n < 2 ^ 64) ops \<longrightarrow>
        (\<exists>S ins outs. fifo_run shm_put shm_get (w, rd, r) ops = Some (S, ins, outs) \<and> ins = outs @ shm_bytes S))"
    using shm_shared_queue [OF w _ _ rd] by blast
  have "SPSC_SIZE + unat (shc_cap ?c) div 2 \<le> unat (shc_cap demo_opener)" by (simp add: demo_shm_def demo_opener_def SPSC_SIZE_def)
  moreover have "fifo_ops_ok (\<lambda>xs. length xs < 2 ^ 64) (\<lambda>n. n < 2 ^ 64) [Put [1, 2, 3], Get 2]" by simp
  ultimately obtain S ins outs where "fifo_run shm_put shm_get (w, rd, r) [Put [1, 2, 3], Get 2] = Some (S, ins, outs)" "ins = outs @ shm_bytes S"
    using q by blast
  then show ?thesis using w rd by blast
qed

text \<open>Every way through the set-up: it answers 0 exactly when the object is mapped, closes the descriptor
  it got whenever it fails, and removes a created object only when the mapping fails; when sizing it
  fails the empty object stays, and the next process opens it as if it were ready.\<close>

theorem shm_init_paths:
  assumes "shm_init shm cfg fd1 fd2 trunc mapped = Some (shm', r, ret, ev)"
  shows "ret = (if r \<noteq> None then 0 else - errcode MEACCES) \<and>
    (r \<noteq> None) = (mapped \<noteq> None \<and> (fd1 \<noteq> - 1 \<or> fd2 \<noteq> - 1 \<and> trunc \<noteq> - 1)) \<and>
    (\<forall>fd. CloseFd fd \<in> set ev \<longleftrightarrow> r = None \<and> fd = shl_fd (shm_lo shm') \<and> fd \<noteq> - 1) \<and>
    (ShmUnlink \<in> set ev) = (fd1 = - 1 \<and> fd2 \<noteq> - 1 \<and> trunc \<noteq> - 1 \<and> mapped = None)"
  using assms by (cases mapped; cases "fd1 = - 1"; cases "fd2 = - 1"; cases "trunc = - 1")
    (auto simp: shm_init_def Let_def split: if_splits)

theorem shm_init_paths_witness:
  "\<exists>shm' ev. shm_init demo_shm (shm_cfg demo_shm) (- 1) 3 (- 1) None = Some (shm', None, - 3, ev) \<and> CloseFd 3 \<in> set ev \<and> ShmUnlink \<notin> set ev"
proof -
  obtain shm' ev where i: "shm_init demo_shm (shm_cfg demo_shm) (- 1) 3 (- 1) None = Some (shm', None, - 3, ev)" "shl_fd (shm_lo shm') = 3"
    by (simp add: shm_init_def demo_shm_def)
  show ?thesis using shm_init_paths [OF i(1)] i by auto
qed

end
