(* ===== verification/Fastmath.thy ===== *)
theory Fastmath
  imports Mathdef
begin

section \<open>Fast approximations (util/fastmath.h)\<close>

text \<open>
  The sine by table: the angle in degrees is brought to the first quadrant by two loops and two
  reflections, and read off a table of sines at tens of degrees, corrected by the cosine and the sine
  of the rest. A loop that does not end and an index outside a table are \<open>None\<close>.
\<close>

definition f32_HOLLYST :: f32 where
  "f32_HOLLYST = f32_lit 17453292519943295769236907684886 (10 ^ 33)"

definition SIN_TABLE :: "f32 list" where
  "SIN_TABLE = [0, f32_lit 17364817766693034885171662676931 (10 ^ 32), f32_lit 34202014332566873304409961468226 (10 ^ 32), f32_lit 5 10,
     f32_lit 64278760968653932632264340990726 (10 ^ 32), f32_lit 76604444311897803520239265055542 (10 ^ 32),
     f32_lit 86602540378443864676372317075294 (10 ^ 32), f32_lit 93969262078590838405410927732473 (10 ^ 32),
     f32_lit 98480775301220805936674302458952 (10 ^ 32), 1]"

definition COS_TABLE :: "f32 list" where
  "COS_TABLE = [1, f32_lit 99984769515639123915701155881391 (10 ^ 32), f32_lit 99939082701909573000624344004393 (10 ^ 32),
     f32_lit 99862953475457387378449205843944 (10 ^ 32), f32_lit 99756405025982424761316268064426 (10 ^ 32),
     f32_lit 99619469809174553229501040247389 (10 ^ 32), f32_lit 99452189536827333692269194498057 (10 ^ 32),
     f32_lit 99254615164132203498006158933058 (10 ^ 32), f32_lit 99026806874157031508377486734485 (10 ^ 32),
     f32_lit 98768834059513772619004024769344 (10 ^ 32)]"

definition F360 :: f32 where "F360 = f32_of_int 360"
definition F180 :: f32 where "F180 = f32_of_int 180"
definition F90 :: f32 where "F90 = f32_of_int 90"
definition F10 :: f32 where "F10 = f32_of_int 10"
definition F_TENTH :: f32 where "F_TENTH = f32_lit 1 10"
definition F_DEGREES :: f32 where "F_DEGREES = f32_lit 57295779513082320876798154814105 (10 ^ 30)"

partial_function (option) turn_down :: "f32 \<Rightarrow> f32 option" where
  "turn_down x = (if F360 \<le> x then turn_down (x - F360) else Some x)"

partial_function (option) turn_up :: "f32 \<Rightarrow> f32 option" where
  "turn_up x = (if x < 0 then turn_up (x + F360) else Some x)"

text \<open>An index that was converted from a number; the last index is computed with unsigned numbers.\<close>

definition table_at :: "f32 list \<Rightarrow> int \<Rightarrow> f32 option" where
  "table_at t i = (if 0 \<le> i \<and> i < int (length t) then Some (t ! nat i) else None)"

definition f32_to_idx :: "f32 \<Rightarrow> int option" where
  "f32_to_idx x = f32_to_int (- (2 ^ 31)) (2 ^ 31 - 1) x"

text \<open>The part behind the reduction to the first quadrant.\<close>

definition sin_quadrant :: "f32 \<Rightarrow> f32 option" where
  "sin_quadrant x = do {
     a \<leftarrow> f32_to_idx (x * F_TENTH);
     let b = x - F10 * f32_of_int a;
     i \<leftarrow> f32_to_idx b;
     s \<leftarrow> table_at SIN_TABLE a;
     c \<leftarrow> table_at COS_TABLE i;
     r \<leftarrow> table_at SIN_TABLE ((9 - a) mod 2 ^ 32);
     Some (s * c + b * f32_HOLLYST * r) }"

definition fast_sinf :: "f32 \<Rightarrow> f32 option" where
  "fast_sinf x = do {
     let x = x * F_DEGREES;
     x \<leftarrow> (if 0 < x then turn_down x else turn_up x);
     let sig = (F180 \<le> x);
     let x = (if F180 \<le> x then x - F180 else x);
     let x = (if F90 < x then F180 - x else x);
     y \<leftarrow> sin_quadrant x;
     Some (if sig then - y else y) }"

definition fast_cosf :: "f32 \<Rightarrow> f32 option" where
  "fast_cosf x = fast_sinf (x + f32_lit 15707963267948966192313216916398 (10 ^ 31))"

definition fast_tanf :: "f32 \<Rightarrow> f32 option" where
  "fast_tanf x = do { s \<leftarrow> fast_sinf x; c \<leftarrow> fast_cosf x; Some (s / c) }"

text \<open>The bits of the result are a converted number.\<close>

definition fast_expf :: "f32 \<Rightarrow> f32 option" where
  "fast_expf x = do {
     i \<leftarrow> f32_to_u32 (f32_of_u32 (push_bit 23 1) * (f32_lit 14426950409 (10 ^ 10) * x + f32_lit 12693490512 (10 ^ 8)));
     Some (F32 i) }"

definition fast_absf :: "f32 \<Rightarrow> f32" where
  "fast_absf x = (if x < 0 then - x else x)"

definition fast_sqrtf :: "libm \<Rightarrow> f32 \<Rightarrow> f32" where
  "fast_sqrtf L x = lm_sqrt L x"

definition fast_modf :: "f32 \<Rightarrow> f32 \<Rightarrow> f32" where
  "fast_modf x y = f32_fmod x y"

lemma sin_eval_demo: "sin_quadrant (f32_lit 5 10 * F_DEGREES) = Some (F32 0x3EF60728)" "fast_expf 1 = Some (F32 0x40305500)"
  by code_simp+

subsection \<open>The reduction to a full turn\<close>

lemma F_consts: "f32_int F360 = 45 * 2 ^ 152"  "f32_int F180 = 45 * 2 ^ 151" "f32_int F90 = 45 * 2 ^ 150"
    "is_fin F360" "is_fin F180" "is_fin F90" "is_fin F10" "is_fin F_TENTH" "0 < f32_int F_TENTH"
  by code_simp+

lemma F_kinds [simp]: "is_fin F360" "is_fin F180" "is_fin F90" "is_fin F10" "is_fin F_TENTH"
    "\<not> is_nan F360" "\<not> is_nan F180" "\<not> is_nan F90" "\<not> is_nan F_TENTH"
  using F_consts is_fin_imp by auto

text \<open>A full turn in units.\<close>

definition TURN :: int where
  "TURN = 45 * 2 ^ 152"

lemma TURN: "0 < TURN" "f32_int F360 = TURN" "2 ^ 152 dvd TURN" "TURN < 2 ^ 176"
  using F_consts(1) by (simp_all add: TURN_def)

lemma turn_exact:
  assumes "is_fin x" "TURN \<le> f32_mag x" "f32_mag x < 2 ^ 176"
  shows "f32_int (f32_rnd (f32_mag x - TURN) 1) = f32_mag x - TURN"
    "f32_int (f32_rnd (- (f32_mag x - TURN)) 1) = - (f32_mag x - TURN)"
proof -
  let ?d = "f32_mag x - TURN"
  obtain m e where f: "f32_mag x = m * 2 ^ e" "0 \<le> m" "m < 2 ^ 24"
    using fp_mag_form [OF f32_mbits_bounds(1), of 23 x] by (auto simp: f32_mag_def)
  define q where "q = min e 152"
  have "(2 :: int) ^ q dvd 2 ^ e" "(2 :: int) ^ q dvd 2 ^ 152" unfolding q_def by (rule le_imp_power_dvd, simp)+
  then have "2 ^ q dvd m * 2 ^ e" "2 ^ q dvd TURN" using TURN(3) dvd_trans by (simp_all add: dvd_mult) blast
  then have "2 ^ q dvd ?d" unfolding f(1) by (rule dvd_diff)
  then obtain k where k: "?d = k * 2 ^ q" by (auto simp: dvd_def mult.commute)
  have "0 \<le> k * 2 ^ q" using assms(2) k by simp
  then have kp: "0 \<le> k" by (simp add: zero_le_mult_iff)
  have "k < 2 ^ 24"
  proof (cases "e \<le> 152")
    case True
    then have "k * 2 ^ e = m * 2 ^ e - TURN" using f(1) k by (simp add: q_def min_absorb1)
    then have "k * 2 ^ e \<le> m * 2 ^ e" using TURN(1) by linarith
    then have "k \<le> m" by simp
    then show ?thesis using f(3) by simp
  next
    case False
    then have "k * 2 ^ 152 < 2 ^ 24 * 2 ^ 152" using k assms(3) TURN(1) by (simp add: q_def min_absorb2)
    then show ?thesis by simp
  qed
  moreover have "k * 2 ^ q < 2 ^ 277" using k assms(3) TURN(1) by simp
  ultimately show "f32_int (f32_rnd ?d 1) = ?d" "f32_int (f32_rnd (- ?d) 1) = - ?d"
    using f32_exact [OF kp, of q] unfolding k by simp_all
qed

lemma turn_down_step:
  assumes "is_fin x" "TURN \<le> f32_int x" "f32_int x < 2 ^ 176"
  shows "f32_int (x - F360) = f32_int x - TURN" "is_fin (x - F360)"
proof -
  have m: "f32_mag x = f32_int x" using assms(2) TURN(1) by (simp add: f32_mag_int)
  show i: "f32_int (x - F360) = f32_int x - TURN"
    using turn_exact(1) [of x] assms by (simp add: f32_sub_int TURN m)
  then show "is_fin (x - F360)" using assms TURN f32_sub_int(2) [OF assms(1), of F360] by (intro is_fin_between) simp_all
qed

lemma turn_down_mod:
  assumes "is_fin x" "0 \<le> f32_int x" "f32_int x < 2 ^ 176"
  shows "\<exists>y. turn_down x = Some y \<and> is_fin y \<and> f32_int y = f32_int x mod TURN"
  using assms
proof (induction "nat (f32_int x div TURN)" arbitrary: x)
  case 0
  then have "f32_int x < TURN" using TURN(1) pos_imp_zdiv_pos_iff [of TURN "f32_int x"] by linarith
  moreover from this have "\<not> F360 \<le> x" by (simp add: less_eq_f32_def TURN)
  ultimately show ?case using 0 by (subst turn_down.simps) simp
next
  case (Suc n)
  have ge: "TURN \<le> f32_int x"
  proof (rule ccontr)
    assume "\<not> TURN \<le> f32_int x"
    then have "f32_int x div TURN = 0" using Suc.prems by (intro div_pos_pos_trivial) simp_all
    then show False using Suc.hyps(2) by simp
  qed
  note st = turn_down_step [OF Suc.prems(1) ge Suc.prems(3)]
  have e: "f32_int x = f32_int (x - F360) + TURN" using st(1) by simp
  have "f32_int x div TURN = f32_int (x - F360) div TURN + 1" "f32_int x mod TURN = f32_int (x - F360) mod TURN"
    unfolding e using TURN(1) by (simp_all add: div_add_self2)
  moreover have "F360 \<le> x" using ge Suc.prems(1) is_fin_imp by (simp add: less_eq_f32_def TURN)
  moreover have "n = nat (f32_int (x - F360) div TURN)" using Suc.hyps(2) calculation(1) by simp
  ultimately show ?case using Suc.hyps(1) [of "x - F360"] st ge Suc.prems(3) TURN(1) by (subst turn_down.simps) simp
qed

text \<open>Upwards the last step may round.\<close>

lemma turn_up_step:
  assumes "is_fin x" "f32_int x < 0" "- (2 ^ 176) < f32_int x"
  shows "is_fin (x + F360)" "f32_int x + TURN \<le> 0 \<Longrightarrow> f32_int (x + F360) = f32_int x + TURN"
    "0 \<le> f32_int x + TURN \<Longrightarrow> 0 \<le> f32_int (x + F360) \<and> f32_int (x + F360) \<le> TURN"
proof -
  have m: "f32_mag x = - f32_int x" using assms(2) by (simp add: f32_mag_int)
  have s: "f32_int (x + F360) = f32_int (f32_rnd (f32_int x + TURN) 1)" "\<not> is_nan (x + F360)"
    using f32_add_int [OF assms(1), of F360] by (simp_all add: TURN)
  show l: "f32_int (x + F360) = f32_int x + TURN" if "f32_int x + TURN \<le> 0"
    using turn_exact(2) [of x] assms that by (simp add: s m add.commute)
  show u: "0 \<le> f32_int (x + F360) \<and> f32_int (x + F360) \<le> TURN" if "0 \<le> f32_int x + TURN"
    using f32_add_bounds [OF assms(1) F_kinds(1) f32_int_const(5)] f32_add_bounds [OF assms(1) F_kinds(1) F_kinds(6)] assms(2) that
    by (simp add: less_eq_f32_def TURN)
  show "is_fin (x + F360)"
    using l u s(2) assms TURN(1,4) by (intro is_fin_between) (cases "f32_int x + TURN \<le> 0"; simp)+
qed

lemma turn_up_range:
  assumes "is_fin x" "- (2 ^ 176) < f32_int x" "f32_int x \<le> TURN"
  shows "\<exists>y. turn_up x = Some y \<and> is_fin y \<and> 0 \<le> f32_int y \<and> f32_int y \<le> TURN"
  using assms
proof (induction "nat (- f32_int x div TURN)" arbitrary: x rule: less_induct)
  case less
  show ?case
  proof (cases "f32_int x < 0")
    case False
    then have "\<not> x < 0" by (simp add: less_f32_def)
    then show ?thesis using less.prems False by (subst turn_up.simps) simp
  next
    case True
    note st = turn_up_step [OF less.prems(1) True less.prems(2)]
    have lt: "x < 0" using True less.prems(1) is_fin_imp by (simp add: less_f32_def)
    show ?thesis
    proof (cases "f32_int x + TURN \<le> 0")
      case True
      have "- f32_int x div TURN = - f32_int (x + F360) div TURN + 1"
      proof -
        have e: "- f32_int x = - f32_int (x + F360) + TURN" using st(2) True by simp
        show ?thesis unfolding e using TURN(1) by (intro div_add_self2) simp
      qed
      moreover have "0 \<le> - f32_int (x + F360) div TURN" using st(2) True TURN(1) by (simp add: pos_imp_zdiv_nonneg_iff)
      ultimately have "nat (- f32_int (x + F360) div TURN) < nat (- f32_int x div TURN)" by simp
      from less.hyps [OF this st(1)] show ?thesis using st(2) True less.prems(2) TURN(1) lt by (subst turn_up.simps) simp
    next
      case False
      then have r: "0 \<le> f32_int (x + F360)" "f32_int (x + F360) \<le> TURN" using st(3) by simp_all
      then have "\<not> x + F360 < 0" by (simp add: less_f32_def)
      then have "turn_up (x + F360) = Some (x + F360)" by (subst turn_up.simps) simp
      then show ?thesis using lt st(1) r by (subst turn_up.simps) simp
    qed
  qed
qed

subsection \<open>The first quadrant\<close>

text \<open>A number below another is at most its predecessor.\<close>

lemma f32_below_pred:
  assumes "f32_mbits z = f32_mbits w + 1" "\<not> f32_sgn z" "\<not> f32_sgn w" "f32_int x < f32_int z" "0 \<le> f32_int x"
  shows "f32_int x \<le> f32_int w"
proof -
  have "f32_mag x = f32_int x" using assms(5) by (simp add: f32_mag_int)
  then have "f32_mag x < f32_mag z" using assms(2,4) by (simp add: f32_int_def)
  then have "f32_mbits x \<le> f32_mbits w" using assms(1) by (simp add: f32_mag_def fp_mag_less_iff f32_mbits_bounds)
  then have "f32_mag x \<le> f32_mag w" by (simp add: f32_mag_def fp_mag_le_iff f32_mbits_bounds)
  then show ?thesis using assms(3) \<open>f32_mag x = f32_int x\<close> by (simp add: f32_int_def)
qed

text \<open>
  The ends of the ten degrees that the index \<open>a\<close> stands for: half a degree below them and the last
  number in front of the next ten degrees.
\<close>

definition deg_lo :: "int \<Rightarrow> f32" where
  "deg_lo a = f32_of_int (10 * a) - f32_lit 5 10"

definition deg_up :: "int \<Rightarrow> f32" where
  "deg_up a = f32_of_int (10 * (a + 1))"

definition deg_pred :: "int \<Rightarrow> f32" where
  "deg_pred a = F32 (f32_bits (deg_up a) - 1)"

definition deg_ok :: "int \<Rightarrow> bool" where
  "deg_ok a \<longleftrightarrow> is_fin (deg_lo a) \<and> is_fin (deg_up a) \<and> is_fin (f32_of_int a) \<and> is_fin (F10 * f32_of_int a)
     \<and> f32_int (deg_lo a * F_TENTH) < a * F32_ONE
     \<and> (a + 1) * F32_ONE \<le> f32_int (deg_up a * F_TENTH)
     \<and> f32_mbits (deg_up a) = f32_mbits (deg_pred a) + 1 \<and> \<not> f32_sgn (deg_up a) \<and> \<not> f32_sgn (deg_pred a)
     \<and> f32_int (deg_pred a) - f32_int (F10 * f32_of_int a) \<le> f32_int (deg_pred 0)
     \<and> - f32_int (f32_lit 5 10) \<le> f32_int (deg_lo a) - f32_int (F10 * f32_of_int a)"

lemma deg_each: "deg_ok 0" "deg_ok 1" "deg_ok 2" "deg_ok 3" "deg_ok 4"
  by code_simp+

lemma deg_each': "deg_ok 5" "deg_ok 6" "deg_ok 7" "deg_ok 8" "deg_ok 9"
  by code_simp+

lemma deg_ok: "0 \<le> a \<Longrightarrow> a \<le> 9 \<Longrightarrow> deg_ok a"
proof -
  assume "0 \<le> a" "a \<le> 9"
  then have "a = 0 \<or> a = 1 \<or> a = 2 \<or> a = 3 \<or> a = 4 \<or> a = 5 \<or> a = 6 \<or> a = 7 \<or> a = 8 \<or> a = 9" by presburger
  then show "deg_ok a" using deg_each deg_each' by blast
qed

lemma deg_ends: "f32_int (deg_pred 0) < 10 * F32_ONE" "- F32_ONE < - f32_int (f32_lit 5 10)"
    "is_fin (deg_pred 0)" "is_fin (- f32_lit 5 10)" "f32_int (- f32_lit 5 10) = - f32_int (f32_lit 5 10)" "f32_int (F90 * F_TENTH) = 9 * F32_ONE"
  by code_simp+

lemma f32_mul_tenth_mono:
  assumes "is_fin x" "is_fin y" "f32_int x \<le> f32_int y"
  shows "f32_int (x * F_TENTH) \<le> f32_int (y * F_TENTH)"
  using assms F_consts(9) by (simp add: f32_mul_int f32_rnd_mono F32_ONE_pos)

lemma quadrant_index:
  assumes "is_fin x" "0 \<le> f32_int x" "f32_int x \<le> f32_int F90"
  shows "\<exists>a. f32_to_idx (x * F_TENTH) = Some a \<and> 0 \<le> a \<and> a \<le> 9
    \<and> a * F32_ONE \<le> f32_int (x * F_TENTH) \<and> f32_int (x * F_TENTH) < (a + 1) * F32_ONE"
proof -
  let ?p = "x * F_TENTH" and ?a = "f32_int (x * F_TENTH) div F32_ONE"
  have lo: "0 \<le> f32_int ?p" using assms(2) F_consts(9) by (simp add: f32_mul_int assms(1) f32_rnd_sign F32_ONE_pos)
  have hi: "f32_int ?p \<le> 9 * F32_ONE" using f32_mul_tenth_mono [OF assms(1) F_kinds(3) assms(3)] by (simp add: deg_ends)
  have fin: "is_fin ?p" using lo hi f32_mul_int(2) [OF assms(1) F_kinds(5)] by (intro is_fin_between) (simp_all add: F32_ONE_def)
  have a: "0 \<le> ?a" "?a \<le> 9" "?a * F32_ONE \<le> f32_int ?p" "f32_int ?p < (?a + 1) * F32_ONE"
    using lo hi by (simp_all add: F32_ONE_def)
  have "f32_trunc ?p = ?a" by (rule f32_trunc_pos [OF lo])
  then have "f32_to_idx ?p = Some ?a" using fin a by (simp add: f32_to_idx_def f32_to_int_def)
  with a show ?thesis by blast
qed

lemma quadrant_rest:
  assumes "is_fin x" "0 \<le> f32_int x" "0 \<le> a" "a \<le> 9"
    "a * F32_ONE \<le> f32_int (x * F_TENTH)" "f32_int (x * F_TENTH) < (a + 1) * F32_ONE"
  defines "b \<equiv> x - F10 * f32_of_int a"
  shows "is_fin b" "- f32_int (f32_lit 5 10) \<le> f32_int b" "f32_int b \<le> f32_int (deg_pred 0)" "\<exists>i. f32_to_idx b = Some i \<and> 0 \<le> i \<and> i \<le> 9"
proof -
  let ?t = "F10 * f32_of_int a"
  note d = deg_ok [OF assms(3,4), unfolded deg_ok_def]
  have ft: "is_fin ?t" using d by blast
  have "f32_int (deg_lo a) < f32_int x"
    using f32_mul_tenth_mono [OF assms(1), of "deg_lo a"] d assms(5) by (rule_tac ccontr) (simp add: linorder_not_less)
  then have lo: "- f32_int (f32_lit 5 10) \<le> f32_int x - f32_int ?t" using d by linarith
  have "f32_int x < f32_int (deg_up a)"
    using f32_mul_tenth_mono [OF _ assms(1), of "deg_up a"] d assms(6) by (rule_tac ccontr) (simp add: linorder_not_less)
  then have "f32_int x \<le> f32_int (deg_pred a)" using d assms(2) by (intro f32_below_pred [of "deg_up a"]) blast+
  then have hi: "f32_int x - f32_int ?t \<le> f32_int (deg_pred 0)" using d by linarith
  have nn: "\<not> is_nan (- f32_lit 5 10)" "\<not> is_nan (deg_pred 0)" using deg_ends is_fin_imp by blast+
  show b1: "- f32_int (f32_lit 5 10) \<le> f32_int b"
    using f32_sub_bounds(2) [OF assms(1) ft nn(1)] lo unfolding b_def less_eq_f32_def deg_ends(5) by blast
  show b2: "f32_int b \<le> f32_int (deg_pred 0)"
    using f32_sub_bounds(1) [OF assms(1) ft nn(2)] hi unfolding b_def less_eq_f32_def by blast
  have r: "- F32_ONE < f32_int b" "f32_int b < 10 * F32_ONE" using b1 b2 deg_ends(1,2) by linarith+
  show fin: "is_fin b" using r f32_sub_int(2) [OF assms(1) ft] unfolding b_def by (intro is_fin_between) (simp_all add: F32_ONE_def)
  have m: "0 \<le> f32_trunc b \<and> f32_trunc b \<le> 9"
  proof (cases "0 \<le> f32_int b")
    case True
    have "f32_int b div F32_ONE * F32_ONE \<le> f32_int b" using F32_ONE_pos by (simp add: minus_mod_eq_div_mult [symmetric])
    then have "f32_int b div F32_ONE * F32_ONE < 10 * F32_ONE" using r(2) by linarith
    then have "f32_int b div F32_ONE < 10" using F32_ONE_pos by (simp add: mult_less_cancel_right)
    moreover have "0 \<le> f32_int b div F32_ONE" using True F32_ONE_pos by (simp add: pos_imp_zdiv_nonneg_iff)
    ultimately show ?thesis unfolding f32_trunc_pos [OF True] by simp
  next
    case False
    then have "f32_mag b div F32_ONE = 0" using r(1) f32_mag_nonneg by (intro div_pos_pos_trivial) (simp_all add: f32_mag_int)
    then show ?thesis by (simp add: f32_trunc_def)
  qed
  then show "\<exists>i. f32_to_idx b = Some i \<and> 0 \<le> i \<and> i \<le> 9" using fin by (simp add: f32_to_idx_def f32_to_int_def)
qed

subsection \<open>Every table read is in range, and the result is a sine's size\<close>

definition is_ratio :: "f32 \<Rightarrow> bool" where
  "is_ratio x \<longleftrightarrow> is_fin x \<and> 0 \<le> f32_int x \<and> f32_int x \<le> F32_ONE"

lemma tables: "list_all is_ratio SIN_TABLE" "list_all is_ratio COS_TABLE" "length SIN_TABLE = 10" "length COS_TABLE = 10"
  by code_simp+

lemma table_at_ratio:
  assumes "list_all is_ratio t" "0 \<le> i" "i < int (length t)"
  shows "\<exists>y. table_at t i = Some y \<and> is_ratio y"
proof -
  have "nat i < length t" using assms(2,3) by (simp add: nat_less_iff)
  then have "is_ratio (t ! nat i)" using assms(1) by (simp add: list_all_length)
  then show ?thesis using assms(2,3) by (simp add: table_at_def)
qed

text \<open>One quarter more than one, and the correction for less than ten degrees.\<close>

definition FIVE_QUARTERS :: f32 where "FIVE_QUARTERS = f32_lit 125 100"
definition FIFTH :: f32 where "FIFTH = f32_lit 2 10"

lemma sin_consts: "is_fin FIVE_QUARTERS" "is_fin FIFTH" "is_fin (- FIFTH)" "is_fin f32_HOLLYST" "0 < f32_int f32_HOLLYST" "0 < f32_int FIFTH" "f32_int (- FIFTH) = - f32_int FIFTH"
    "10 * f32_int f32_HOLLYST \<le> f32_int FIFTH" "f32_int FIFTH + F32_ONE \<le> f32_int FIVE_QUARTERS"
    "f32_int FIVE_QUARTERS < 2 ^ 150"
  by code_simp+

lemma f32_mul_range:
  assumes "is_fin x" "is_fin y" "is_fin u" "is_fin l" "f32_int l * F32_ONE \<le> f32_int x * f32_int y" "f32_int x * f32_int y \<le> f32_int u * F32_ONE"
  shows "is_fin (x * y)" "f32_int l \<le> f32_int (x * y)" "f32_int (x * y) \<le> f32_int u"
proof -
  have n: "\<not> is_nan u" "\<not> is_nan l" using assms(3,4) is_fin_imp by blast+
  show l: "f32_int l \<le> f32_int (x * y)" using f32_mul_bounds(2) [OF assms(1,2) n(2)] assms(5) by (simp add: less_eq_f32_def)
  show u: "f32_int (x * y) \<le> f32_int u" using f32_mul_bounds(1) [OF assms(1,2) n(1)] assms(6) by (simp add: less_eq_f32_def)
  have "f32_int u < 2 ^ 277" "- (2 ^ 277) < f32_int l"
    using assms(3,4) unfolding is_fin_iff fp_mag_inf f32_mag_int by linarith+
  then show "is_fin (x * y)" using l u f32_mul_int(2) [OF assms(1,2)] by (intro is_fin_between) linarith+
qed

lemma ratio_mult:
  assumes "is_ratio x" "is_ratio y"
  shows "is_ratio (x * y)"
  using assms f32_mul_range [of x y 1 0] mult_mono [of "f32_int x" F32_ONE "f32_int y" F32_ONE]
  by (simp add: is_ratio_def)

lemma correction:
  assumes "is_fin b" "- F32_ONE < f32_int b" "f32_int b < 10 * F32_ONE" "is_ratio r"
  shows "is_fin (b * f32_HOLLYST * r)" "- f32_int FIFTH \<le> f32_int (b * f32_HOLLYST * r)" "f32_int (b * f32_HOLLYST * r) \<le> f32_int FIFTH"
proof -
  let ?h = "f32_int f32_HOLLYST"
  have "\<bar>f32_int b\<bar> * ?h \<le> 10 * F32_ONE * ?h"
    using assms(2,3) sin_consts(5) by (intro mult_right_mono) simp_all
  also have "\<dots> = 10 * ?h * F32_ONE" by simp
  also have "\<dots> \<le> f32_int FIFTH * F32_ONE" using sin_consts(8) by (intro mult_right_mono) (simp_all add: order_less_imp_le)
  finally have "\<bar>f32_int b * ?h\<bar> \<le> f32_int FIFTH * F32_ONE" using sin_consts(5) by (simp add: abs_mult)
  then have m: "is_fin (b * f32_HOLLYST)" "- f32_int FIFTH \<le> f32_int (b * f32_HOLLYST)" "f32_int (b * f32_HOLLYST) \<le> f32_int FIFTH"
    using f32_mul_range [OF assms(1) sin_consts(4,2,3)] sin_consts(7) by (simp_all add: abs_le_iff)
  have "\<bar>f32_int (b * f32_HOLLYST) * f32_int r\<bar> \<le> f32_int FIFTH * F32_ONE"
    using m(2,3) assms(4) unfolding abs_mult is_ratio_def by (intro mult_mono) simp_all
  then show "is_fin (b * f32_HOLLYST * r)" "- f32_int FIFTH \<le> f32_int (b * f32_HOLLYST * r)" "f32_int (b * f32_HOLLYST * r) \<le> f32_int FIFTH"
    using f32_mul_range [OF m(1) _ sin_consts(2,3), of r] assms(4) sin_consts(7) by (simp_all add: is_ratio_def abs_le_iff)
qed

text \<open>What a result is: a number between minus and plus one and a quarter.\<close>

definition sine_sized :: "f32 \<Rightarrow> bool" where
  "sine_sized y \<longleftrightarrow> is_fin y \<and> \<bar>f32_int y\<bar> \<le> f32_int FIVE_QUARTERS"

lemma sin_quadrant_total:
  assumes "is_fin x" "0 \<le> f32_int x" "f32_int x \<le> f32_int F90"
  shows "\<exists>y. sin_quadrant x = Some y \<and> sine_sized y"
proof -
  obtain a where a: "f32_to_idx (x * F_TENTH) = Some a" "0 \<le> a" "a \<le> 9" "a * F32_ONE \<le> f32_int (x * F_TENTH)" "f32_int (x * F_TENTH) < (a + 1) * F32_ONE"
    using quadrant_index [OF assms] by blast
  let ?b = "x - F10 * f32_of_int a"
  note b = quadrant_rest [OF assms(1,2) a(2-5)]
  obtain i where i: "f32_to_idx ?b = Some i" "0 \<le> i" "i \<le> 9" using b(4) by blast
  obtain s where s: "table_at SIN_TABLE a = Some s" "is_ratio s" using table_at_ratio [OF tables(1), of a] a(2,3) tables(3) by auto
  obtain c where c: "table_at COS_TABLE i = Some c" "is_ratio c" using table_at_ratio [OF tables(2), of i] i(2,3) tables(4) by auto
  have "(9 - a) mod 2 ^ 32 = 9 - a" using a(2,3) by (intro mod_pos_pos_trivial) simp_all
  then obtain r where r: "table_at SIN_TABLE ((9 - a) mod 2 ^ 32) = Some r" "is_ratio r"
    using table_at_ratio [OF tables(1), of "9 - a"] a(2,3) tables(3) by auto
  let ?y = "s * c + ?b * f32_HOLLYST * r"
  have bb: "- F32_ONE < f32_int ?b" "f32_int ?b < 10 * F32_ONE" using b(2,3) deg_ends(1,2) by linarith+
  note co = correction [OF b(1) bb r(2)]
  have sc: "is_fin (s * c)" "0 \<le> f32_int (s * c)" "f32_int (s * c) \<le> F32_ONE" using ratio_mult [OF s(2) c(2)] by (simp_all add: is_ratio_def)
  have nn: "\<not> is_nan FIVE_QUARTERS" "\<not> is_nan (- FIFTH)" using sin_consts is_fin_imp by blast+
  have up: "f32_int ?y \<le> f32_int FIVE_QUARTERS" "- f32_int FIFTH \<le> f32_int ?y"
    using f32_add_bounds(1) [OF sc(1) co(1) nn(1)] f32_add_bounds(2) [OF sc(1) co(1) nn(2)] sc co sin_consts(7,9)
    by (simp_all add: less_eq_f32_def)
  then have "\<bar>f32_int ?y\<bar> \<le> f32_int FIVE_QUARTERS" using sin_consts(6,9) F32_ONE_pos by linarith
  moreover from this have "is_fin ?y" using f32_add_int(2) [OF sc(1) co(1)] sin_consts(10) by (intro is_fin_between) simp_all
  ultimately show ?thesis using a(1) i(1) s(1) c(1) r(1) by (simp add: sin_quadrant_def Let_def sine_sized_def)
qed

lemma reflect_range:
  assumes "is_fin x" "0 \<le> f32_int x" "f32_int x \<le> TURN"
  defines "y \<equiv> (if F180 \<le> x then x - F180 else x)"
  defines "z \<equiv> (if F90 < y then F180 - y else y)"
  shows "is_fin z \<and> 0 \<le> f32_int z \<and> f32_int z \<le> f32_int F90"
proof -
  have c: "f32_int F180 = 45 * 2 ^ 151" "f32_int F90 = 45 * 2 ^ 150" "TURN = 45 * 2 ^ 152" using F_consts TURN_def by simp_all
  have k: "\<not> is_nan x" using assms(1) is_fin_imp by blast
  have y: "is_fin y \<and> 0 \<le> f32_int y \<and> f32_int y \<le> f32_int F180"
  proof (cases "F180 \<le> x")
    case True
    then have "f32_int F180 \<le> f32_int x" by (simp add: less_eq_f32_def)
    then have "0 \<le> f32_int (x - F180)" "f32_int (x - F180) \<le> f32_int F180"
      using f32_sub_bounds [OF assms(1) F_kinds(2) f32_int_const(5)] f32_sub_bounds [OF assms(1) F_kinds(2) F_kinds(7)] assms(3) c
      by (simp_all add: less_eq_f32_def)
    moreover from this have "is_fin (x - F180)" using f32_sub_int(2) [OF assms(1) F_kinds(2)] c by (intro is_fin_between) simp_all
    ultimately show ?thesis using True by (simp add: y_def)
  next
    case False
    then show ?thesis using assms k by (simp add: y_def less_eq_f32_def linorder_not_le)
  qed
  show ?thesis
  proof (cases "F90 < y")
    case True
    then have "f32_int F90 < f32_int y" by (simp add: less_f32_def)
    then have "0 \<le> f32_int (F180 - y)" "f32_int (F180 - y) \<le> f32_int F90"
      using f32_sub_bounds [of F180 y 0] f32_sub_bounds [of F180 y F90] y c by (simp_all add: less_eq_f32_def)
    moreover from this have "is_fin (F180 - y)" using f32_sub_int(2) [of F180 y] y c by (intro is_fin_between) simp_all
    ultimately show ?thesis using True by (simp add: z_def)
  next
    case False
    then show ?thesis using y is_fin_imp by (simp add: z_def less_f32_def linorder_not_less)
  qed
qed

lemma turn_reduce:
  assumes "is_fin x" "\<bar>f32_int x\<bar> < 2 ^ 176"
  shows "\<exists>y. (if 0 < x then turn_down x else turn_up x) = Some y \<and> is_fin y \<and> 0 \<le> f32_int y \<and> f32_int y \<le> TURN"
proof (cases "0 < x")
  case True
  then have "0 \<le> f32_int x" by (simp add: less_f32_def)
  then obtain y where "turn_down x = Some y" "is_fin y" "f32_int y = f32_int x mod TURN"
    using turn_down_mod [OF assms(1)] assms(2) by auto
  moreover have "0 \<le> f32_int x mod TURN" "f32_int x mod TURN \<le> TURN"
    using TURN(1) pos_mod_bound [of TURN "f32_int x"] by (simp_all add: order_less_imp_le)
  ultimately show ?thesis using True by simp
next
  case False
  then have "f32_int x \<le> 0" using assms(1) is_fin_imp by (simp add: less_f32_def)
  then show ?thesis using turn_up_range [OF assms(1)] assms(2) TURN(1) False by (simp add: abs_less_iff)
qed

text \<open>For a large number a full turn less is the same number, and the loop goes on for ever.\<close>

lemma turn_down_stuck:
  assumes "F360 \<le> p" "p - F360 = p"
  shows "turn_down p = None"
proof (rule ccontr)
  assume "turn_down p \<noteq> None"
  then obtain y where y: "turn_down p = Some y" by blast
  have "x \<noteq> p" if "turn_down x = Some y" for x y
  proof (rule turn_down.raw_induct [OF _ that])
    fix turn x z
    assume ih: "\<And>x z. turn x = Some z \<Longrightarrow> x \<noteq> p" and st: "(if F360 \<le> x then turn (x - F360) else Some x) = Some z"
    show "x \<noteq> p"
    proof
      assume "x = p"
      then have "turn p = Some z" using st assms by simp
      then show False using ih by blast
    qed
  qed
  then show False using y by blast
qed

lemma large_demo: "F360 \<le> f32_of_int 1000000000 * F_DEGREES" "f32_of_int 1000000000 * F_DEGREES - F360 = f32_of_int 1000000000 * F_DEGREES"
    "0 < f32_of_int 1000000000 * F_DEGREES"
  by code_simp+

text \<open>C38: below two to the 27 degrees in magnitude the reduction of \<open>fast_sinf\<close> ends, every read of a table is
  at an index of the table, and the result is a number of at most one and a quarter in magnitude; the
  reduction does not end for the angle of a thousand million.
\<close>

theorem fast_sin_total:
  assumes "is_fin (x * F_DEGREES)" "\<bar>f32_int (x * F_DEGREES)\<bar> < 2 ^ 176"
  shows "(\<exists>y. fast_sinf x = Some y \<and> sine_sized y) \<and> fast_sinf (f32_of_int 1000000000) = None"
proof
  obtain y where y: "(if 0 < x * F_DEGREES then turn_down (x * F_DEGREES) else turn_up (x * F_DEGREES)) = Some y"
      "is_fin y" "0 \<le> f32_int y" "f32_int y \<le> TURN"
    using turn_reduce [OF assms] by blast
  obtain z where z: "sin_quadrant (let q = (if F180 \<le> y then y - F180 else y) in if F90 < q then F180 - q else q) = Some z" "sine_sized z"
    using sin_quadrant_total reflect_range [OF y(2-4)] by (metis (no_types, lifting))
  have "sine_sized (- z)" using z(2) by (simp add: sine_sized_def f32_int_neg)
  then show "\<exists>y. fast_sinf x = Some y \<and> sine_sized y" using y(1) z by (simp add: fast_sinf_def Let_def)
  show "fast_sinf (f32_of_int 1000000000) = None"
    using turn_down_stuck [OF large_demo(1,2)] large_demo(3) by (simp add: fast_sinf_def Let_def)
qed

lemma fast_sin_total_witness:
  "\<exists>y. fast_sinf (f32_of_int 7) = Some y \<and> sine_sized y"
proof -
  have "is_fin (f32_of_int 7 * F_DEGREES)" "\<bar>f32_int (f32_of_int 7 * F_DEGREES)\<bar> < 2 ^ 176" by code_simp+
  then show ?thesis using fast_sin_total by blast
qed

end
