(* ===== verification/Benchmark.thy ===== *)
theory Benchmark
  imports Fastmath "HOL-Library.Signed_Division"
begin

section \<open>Cycles of arithmetic (util/benchmark.h)\<close>

text \<open>
  Each test repeats one operation and stores, in the next entry of an array, its name, the cycles by the
  processor's counter and the result. The readings of the counter and the mathematical libraries are
  inputs. This header is for the ARM build (\<open>RUN_MATH_BENCHMARKS\<close> uses the tests that exist with
  \<open>ARM_MATH\<close> only).
\<close>

record bench_lib =
  bl_sin :: "f32 \<Rightarrow> f32"
  bl_cos :: "f32 \<Rightarrow> f32"
  bl_tan :: "f32 \<Rightarrow> f32"
  bl_arm_sin :: "f32 \<Rightarrow> f32"
  bl_arm_cos :: "f32 \<Rightarrow> f32"
  bl_atan2 :: "f32 \<Rightarrow> f32 \<Rightarrow> f32"
  bl_sqrt :: "f32 \<Rightarrow> f32"
  bl_log :: "f32 \<Rightarrow> f32"
  bl_exp :: "f32 \<Rightarrow> f32"

record benchmark_t =
  bm_name :: string
  bm_cycles_total :: u32
  bm_cycles_per_op :: u32
  bm_ret :: f32

text \<open>The variables \<open>cnt\<close> and \<open>r\<close> of \<open>RUN_MATH_BENCHMARKS\<close>, and the array.\<close>

record bench_st =
  bs_cnt :: u32
  bs_r :: f32
  bs_results :: "benchmark_t list"

fun measure_loop :: "nat \<Rightarrow> (f32 \<Rightarrow> f32 option) \<Rightarrow> f32 \<Rightarrow> f32 option" where
  "measure_loop 0 code r = Some r"
| "measure_loop (Suc n) code r = do { r \<leftarrow> code r; measure_loop n code r }"

text \<open>\<open>tot\<close> is what the entry held; the sum for a counter that has wrapped around is overwritten.\<close>

definition MEASURE_TIME :: "u32 \<Rightarrow> u32 \<Rightarrow> u32 \<times> u32 \<Rightarrow> (f32 \<Rightarrow> f32 option) \<Rightarrow> f32 \<Rightarrow> (u32 \<times> f32) option" where
  "MEASURE_TIME tot iterations clk code r = (case clk of (st, en) \<Rightarrow> do {
     r \<leftarrow> measure_loop (unat iterations) code r;
     let tot = (if en < st then 0xFFFFFFFF - st + en else tot);
     let tot = en - st;
     Some (tot, r) })"

text \<open>What every test does with the entry \<open>results[cnt]\<close>.\<close>

definition bench_one :: "string \<Rightarrow> (f32 \<Rightarrow> f32 option) \<Rightarrow> u32 \<Rightarrow> u32 \<times> u32 \<Rightarrow> bench_st \<Rightarrow> bench_st option" where
  "bench_one name code iterations clk s = (let i = unat (bs_cnt s) in
     if i < length (bs_results s) then do {
       (tot, r) \<leftarrow> MEASURE_TIME (bm_cycles_total (bs_results s ! i)) iterations clk code (bs_r s);
       if iterations = 0 then None
       else Some \<lparr>bs_cnt = bs_cnt s + 1, bs_r = r, bs_results = (bs_results s)[i :=
         \<lparr>bm_name = name, bm_cycles_total = tot, bm_cycles_per_op = tot div iterations, bm_ret = r\<rparr>]\<rparr> }
     else None)"

definition i32_ok :: "int \<Rightarrow> bool" where
  "i32_ok i \<longleftrightarrow> - (2 ^ 31) \<le> i \<and> i < 2 ^ 31"

definition BM_FLOAT_A :: f32 where "BM_FLOAT_A = f32_lit 123456 1000"
definition BM_FLOAT_B :: f32 where "BM_FLOAT_B = f32_lit 789 100"
definition BM_ANGLE :: f32 where "BM_ANGLE = f32_lit 785398 1000000"

text \<open>The integer tests declare an \<open>r\<close> of their own in the loop: the outer one, which is stored, does not change.\<close>

definition TEST_INT_ADD :: "bench_lib \<Rightarrow> u32 \<Rightarrow> u32 \<times> u32 \<Rightarrow> bench_st \<Rightarrow> bench_st option" where
  "TEST_INT_ADD L = bench_one ''int_add'' (\<lambda>r. if i32_ok (123456 + 789) then Some r else None)"

definition TEST_INT_MUL :: "bench_lib \<Rightarrow> u32 \<Rightarrow> u32 \<times> u32 \<Rightarrow> bench_st \<Rightarrow> bench_st option" where
  "TEST_INT_MUL L = bench_one ''int_mul'' (\<lambda>r. if i32_ok (123456 * 789) then Some r else None)"

definition TEST_INT_DIV :: "bench_lib \<Rightarrow> u32 \<Rightarrow> u32 \<times> u32 \<Rightarrow> bench_st \<Rightarrow> bench_st option" where
  "TEST_INT_DIV L = bench_one ''int_div'' (\<lambda>r. if i32_ok (123456 sdiv 789) then Some r else None)"

definition TEST_FLOAT_ADD :: "bench_lib \<Rightarrow> u32 \<Rightarrow> u32 \<times> u32 \<Rightarrow> bench_st \<Rightarrow> bench_st option" where
  "TEST_FLOAT_ADD L = bench_one ''float_add'' (\<lambda>r. Some (BM_FLOAT_A + BM_FLOAT_B))"

definition TEST_FLOAT_MUL :: "bench_lib \<Rightarrow> u32 \<Rightarrow> u32 \<times> u32 \<Rightarrow> bench_st \<Rightarrow> bench_st option" where
  "TEST_FLOAT_MUL L = bench_one ''float_mul'' (\<lambda>r. Some (BM_FLOAT_A * BM_FLOAT_B))"

definition TEST_FLOAT_DIV :: "bench_lib \<Rightarrow> u32 \<Rightarrow> u32 \<times> u32 \<Rightarrow> bench_st \<Rightarrow> bench_st option" where
  "TEST_FLOAT_DIV L = bench_one ''float_div'' (\<lambda>r. Some (BM_FLOAT_A / BM_FLOAT_B))"

definition TEST_SINF :: "bench_lib \<Rightarrow> u32 \<Rightarrow> u32 \<times> u32 \<Rightarrow> bench_st \<Rightarrow> bench_st option" where
  "TEST_SINF L = bench_one ''sinf'' (\<lambda>r. Some (bl_sin L BM_ANGLE))"

definition TEST_COSF :: "bench_lib \<Rightarrow> u32 \<Rightarrow> u32 \<times> u32 \<Rightarrow> bench_st \<Rightarrow> bench_st option" where
  "TEST_COSF L = bench_one ''cosf'' (\<lambda>r. Some (bl_cos L BM_ANGLE))"

definition TEST_TANF :: "bench_lib \<Rightarrow> u32 \<Rightarrow> u32 \<times> u32 \<Rightarrow> bench_st \<Rightarrow> bench_st option" where
  "TEST_TANF L = bench_one ''tanf'' (\<lambda>r. Some (bl_tan L BM_ANGLE))"

definition TEST_ARM_SINF :: "bench_lib \<Rightarrow> u32 \<Rightarrow> u32 \<times> u32 \<Rightarrow> bench_st \<Rightarrow> bench_st option" where
  "TEST_ARM_SINF L = bench_one ''arm_sinf'' (\<lambda>r. Some (bl_arm_sin L BM_ANGLE))"

definition TEST_ARM_COSF :: "bench_lib \<Rightarrow> u32 \<Rightarrow> u32 \<times> u32 \<Rightarrow> bench_st \<Rightarrow> bench_st option" where
  "TEST_ARM_COSF L = bench_one ''arm_cosf'' (\<lambda>r. Some (bl_arm_cos L BM_ANGLE))"

definition TEST_FAST_SINF :: "bench_lib \<Rightarrow> u32 \<Rightarrow> u32 \<times> u32 \<Rightarrow> bench_st \<Rightarrow> bench_st option" where
  "TEST_FAST_SINF L = bench_one ''fast_sinf'' (\<lambda>r. fast_sinf BM_ANGLE)"

definition TEST_FAST_COSF :: "bench_lib \<Rightarrow> u32 \<Rightarrow> u32 \<times> u32 \<Rightarrow> bench_st \<Rightarrow> bench_st option" where
  "TEST_FAST_COSF L = bench_one ''fast_cosf'' (\<lambda>r. fast_cosf BM_ANGLE)"

definition TEST_FAST_TANF :: "bench_lib \<Rightarrow> u32 \<Rightarrow> u32 \<times> u32 \<Rightarrow> bench_st \<Rightarrow> bench_st option" where
  "TEST_FAST_TANF L = bench_one ''fast_tanf'' (\<lambda>r. fast_tanf BM_ANGLE)"

definition TEST_ATAN2F_QUAD1 :: "bench_lib \<Rightarrow> u32 \<Rightarrow> u32 \<times> u32 \<Rightarrow> bench_st \<Rightarrow> bench_st option" where
  "TEST_ATAN2F_QUAD1 L = bench_one ''atan2f_quad1'' (\<lambda>r. Some (bl_atan2 L 1 1))"

definition TEST_ATAN2F_QUAD2 :: "bench_lib \<Rightarrow> u32 \<Rightarrow> u32 \<times> u32 \<Rightarrow> bench_st \<Rightarrow> bench_st option" where
  "TEST_ATAN2F_QUAD2 L = bench_one ''atan2f_quad2'' (\<lambda>r. Some (bl_atan2 L 1 (- 1)))"

definition TEST_ATAN2F_QUAD3 :: "bench_lib \<Rightarrow> u32 \<Rightarrow> u32 \<times> u32 \<Rightarrow> bench_st \<Rightarrow> bench_st option" where
  "TEST_ATAN2F_QUAD3 L = bench_one ''atan2f_quad3'' (\<lambda>r. Some (bl_atan2 L (- 1) (- 1)))"

definition TEST_ATAN2F_QUAD4 :: "bench_lib \<Rightarrow> u32 \<Rightarrow> u32 \<times> u32 \<Rightarrow> bench_st \<Rightarrow> bench_st option" where
  "TEST_ATAN2F_QUAD4 L = bench_one ''atan2f_quad4'' (\<lambda>r. Some (bl_atan2 L (- 1) 1))"

definition TEST_SQRTF :: "bench_lib \<Rightarrow> u32 \<Rightarrow> u32 \<times> u32 \<Rightarrow> bench_st \<Rightarrow> bench_st option" where
  "TEST_SQRTF L = bench_one ''sqrtf'' (\<lambda>r. Some (bl_sqrt L F_TWO))"

definition TEST_LOGF :: "bench_lib \<Rightarrow> u32 \<Rightarrow> u32 \<times> u32 \<Rightarrow> bench_st \<Rightarrow> bench_st option" where
  "TEST_LOGF L = bench_one ''logf'' (\<lambda>r. Some (bl_log L F_TWO))"

definition TEST_EXPF :: "bench_lib \<Rightarrow> u32 \<Rightarrow> u32 \<times> u32 \<Rightarrow> bench_st \<Rightarrow> bench_st option" where
  "TEST_EXPF L = bench_one ''expf'' (\<lambda>r. Some (bl_exp L F_TWO))"

definition TEST_FAST_EXPF :: "bench_lib \<Rightarrow> u32 \<Rightarrow> u32 \<times> u32 \<Rightarrow> bench_st \<Rightarrow> bench_st option" where
  "TEST_FAST_EXPF L = bench_one ''fast_expf'' (\<lambda>r. fast_expf F_TWO)"

definition bench_tests :: "(bench_lib \<Rightarrow> u32 \<Rightarrow> u32 \<times> u32 \<Rightarrow> bench_st \<Rightarrow> bench_st option) list" where
  "bench_tests = [TEST_INT_ADD, TEST_INT_MUL, TEST_INT_DIV, TEST_FLOAT_ADD, TEST_FLOAT_MUL, TEST_FLOAT_DIV, TEST_SINF, TEST_COSF, TEST_TANF, TEST_ARM_SINF, TEST_ARM_COSF,
     TEST_FAST_SINF, TEST_FAST_COSF, TEST_FAST_TANF, TEST_ATAN2F_QUAD1, TEST_ATAN2F_QUAD2, TEST_ATAN2F_QUAD3, TEST_ATAN2F_QUAD4, TEST_SQRTF, TEST_LOGF, TEST_EXPF, TEST_FAST_EXPF]"

text \<open>One test after another, each with its readings of the counter.\<close>

fun bench_all :: "bench_lib \<Rightarrow> u32 \<Rightarrow> (bench_lib \<Rightarrow> u32 \<Rightarrow> u32 \<times> u32 \<Rightarrow> bench_st \<Rightarrow> bench_st option) list \<Rightarrow> (u32 \<times> u32) list \<Rightarrow> bench_st \<Rightarrow> bench_st option" where
  "bench_all L iterations (t # ts) (c # cs) s = do { s \<leftarrow> t L iterations c s; bench_all L iterations ts cs s }"
| "bench_all L iterations ts cs s = Some s"

definition RUN_MATH_BENCHMARKS :: "bench_lib \<Rightarrow> benchmark_t list \<Rightarrow> u32 \<Rightarrow> (u32 \<times> u32) list \<Rightarrow> bench_st option" where
  "RUN_MATH_BENCHMARKS L results iterations clks = bench_all L iterations bench_tests clks \<lparr>bs_cnt = 0, bs_r = 0, bs_results = results\<rparr>"

subsection \<open>What is stored\<close>

text \<open>The operations of the tests as functions of \<open>r\<close>, the variable before the loop.\<close>

definition bench_codes :: "bench_lib \<Rightarrow> (string \<times> (f32 \<Rightarrow> f32 option)) list" where
  "bench_codes L = [(''int_add'', (\<lambda>r. if i32_ok (123456 + 789) then Some r else None)),
     (''int_mul'', (\<lambda>r. if i32_ok (123456 * 789) then Some r else None)),
     (''int_div'', (\<lambda>r. if i32_ok (123456 sdiv 789) then Some r else None)),
     (''float_add'', (\<lambda>r. Some (BM_FLOAT_A + BM_FLOAT_B))),
     (''float_mul'', (\<lambda>r. Some (BM_FLOAT_A * BM_FLOAT_B))),
     (''float_div'', (\<lambda>r. Some (BM_FLOAT_A / BM_FLOAT_B))),
     (''sinf'', (\<lambda>r. Some (bl_sin L BM_ANGLE))),
     (''cosf'', (\<lambda>r. Some (bl_cos L BM_ANGLE))),
     (''tanf'', (\<lambda>r. Some (bl_tan L BM_ANGLE))),
     (''arm_sinf'', (\<lambda>r. Some (bl_arm_sin L BM_ANGLE))),
     (''arm_cosf'', (\<lambda>r. Some (bl_arm_cos L BM_ANGLE))),
     (''fast_sinf'', (\<lambda>r. fast_sinf BM_ANGLE)),
     (''fast_cosf'', (\<lambda>r. fast_cosf BM_ANGLE)),
     (''fast_tanf'', (\<lambda>r. fast_tanf BM_ANGLE)),
     (''atan2f_quad1'', (\<lambda>r. Some (bl_atan2 L 1 1))),
     (''atan2f_quad2'', (\<lambda>r. Some (bl_atan2 L 1 (- 1)))),
     (''atan2f_quad3'', (\<lambda>r. Some (bl_atan2 L (- 1) (- 1)))),
     (''atan2f_quad4'', (\<lambda>r. Some (bl_atan2 L (- 1) 1))),
     (''sqrtf'', (\<lambda>r. Some (bl_sqrt L F_TWO))),
     (''logf'', (\<lambda>r. Some (bl_log L F_TWO))),
     (''expf'', (\<lambda>r. Some (bl_exp L F_TWO))),
     (''fast_expf'', (\<lambda>r. fast_expf F_TWO))]"

lemma bench_tests_eq: "map (\<lambda>t. t L) bench_tests = map (\<lambda>(name, code). bench_one name code) (bench_codes L)"
  by (simp add: bench_tests_def bench_codes_def TEST_INT_ADD_def TEST_INT_MUL_def TEST_INT_DIV_def TEST_FLOAT_ADD_def TEST_FLOAT_MUL_def TEST_FLOAT_DIV_def TEST_SINF_def TEST_COSF_def TEST_TANF_def TEST_ARM_SINF_def TEST_ARM_COSF_def TEST_FAST_SINF_def TEST_FAST_COSF_def TEST_FAST_TANF_def TEST_ATAN2F_QUAD1_def TEST_ATAN2F_QUAD2_def TEST_ATAN2F_QUAD3_def TEST_ATAN2F_QUAD4_def TEST_SQRTF_def TEST_LOGF_def TEST_EXPF_def TEST_FAST_EXPF_def)

text \<open>The entries the tests leave, from the value of \<open>r\<close> before them on.\<close>

fun bench_entries :: "u32 \<Rightarrow> (string \<times> (f32 \<Rightarrow> f32 option)) list \<Rightarrow> (u32 \<times> u32) list \<Rightarrow> f32 \<Rightarrow> benchmark_t list" where
  "bench_entries n ((name, code) # cs) ((st, en) # clks) r =
     \<lparr>bm_name = name, bm_cycles_total = en - st, bm_cycles_per_op = (en - st) div n, bm_ret = the (code r)\<rparr> # bench_entries n cs clks (the (code r))"
| "bench_entries n cs clks r = []"

text \<open>An operation that gives a result, and the same one when it is repeated.\<close>

definition repeats :: "(f32 \<Rightarrow> f32 option) \<Rightarrow> bool" where
  "repeats code \<longleftrightarrow> (\<forall>r. \<exists>x. code r = Some x \<and> code x = Some x)"

lemma measure_loop_repeats: "code r = Some x \<Longrightarrow> code x = Some x \<Longrightarrow> 0 < n \<Longrightarrow> measure_loop n code r = Some x"
proof (induction n arbitrary: r)
  case (Suc n)
  then show ?case by (cases n) simp_all
qed simp

lemma bench_one_step:
  assumes "n \<noteq> 0" "i < length res" "length res < 2 ^ 32" "repeats code"
  shows "bench_one name code n (st, en) \<lparr>bs_cnt = of_nat i, bs_r = r, bs_results = res\<rparr> =
    Some \<lparr>bs_cnt = of_nat (Suc i), bs_r = the (code r), bs_results = res[i :=
      \<lparr>bm_name = name, bm_cycles_total = en - st, bm_cycles_per_op = (en - st) div n, bm_ret = the (code r)\<rparr>]\<rparr>"
proof -
  obtain x where x: "code r = Some x" "code x = Some x" using assms(4) by (auto simp: repeats_def)
  have "measure_loop (unat n) code r = Some x" using measure_loop_repeats [OF x] assms(1) by (simp add: unat_gt_0)
  moreover have "unat (of_nat i :: u32) = i" using assms(2,3) by (simp add: unat_of_nat)
  ultimately show ?thesis using assms(1,2) x(1) by (simp add: bench_one_def MEASURE_TIME_def Let_def)
qed

lemma bench_all_entries:
  assumes "n \<noteq> 0" "length res < 2 ^ 32"
  shows "\<lbrakk>i + length cs \<le> length res; length clks = length cs; list_all (\<lambda>c. repeats (snd c)) cs;
      map (\<lambda>t. t L) ts = map (\<lambda>(name, code). bench_one name code) cs\<rbrakk> \<Longrightarrow>
    \<exists>r'. bench_all L n ts clks \<lparr>bs_cnt = of_nat i, bs_r = r, bs_results = res\<rparr> =
      Some \<lparr>bs_cnt = of_nat (i + length cs), bs_r = r', bs_results = take i res @ bench_entries n cs clks r @ drop (i + length cs) res\<rparr>"
  using assms(2)
proof (induction cs arbitrary: ts clks i r res)
  case (Cons c cs)
  obtain name code where c: "c = (name, code)" by (cases c)
  obtain t ts' where ts: "ts = t # ts'" "t L = bench_one name code" "map (\<lambda>t. t L) ts' = map (\<lambda>(name, code). bench_one name code) cs"
    using Cons.prems(4) by (cases ts) (auto simp: c)
  obtain st en clks' where k: "clks = (st, en) # clks'" "length clks' = length cs" using Cons.prems(2) by (cases clks) auto
  let ?e = "\<lparr>bm_name = name, bm_cycles_total = en - st, bm_cycles_per_op = (en - st) div n, bm_ret = the (code r)\<rparr>"
  let ?res = "res[i := ?e]"
  have i: "i < length res" using Cons.prems(1) by simp
  have s: "t L n (st, en) \<lparr>bs_cnt = of_nat i, bs_r = r, bs_results = res\<rparr> = Some \<lparr>bs_cnt = of_nat (Suc i), bs_r = the (code r), bs_results = ?res\<rparr>"
    unfolding ts(2) using Cons.prems(3) by (intro bench_one_step assms(1) i Cons.prems(5)) (simp add: c)
  obtain r' where "bench_all L n ts' clks' \<lparr>bs_cnt = of_nat (Suc i), bs_r = the (code r), bs_results = ?res\<rparr> =
      Some \<lparr>bs_cnt = of_nat (Suc i + length cs), bs_r = r', bs_results = take (Suc i) ?res @ bench_entries n cs clks' (the (code r)) @ drop (Suc i + length cs) ?res\<rparr>"
    using Cons.IH [of "Suc i" ?res clks' ts' "the (code r)"] Cons.prems k(2) ts(3) by auto
  moreover have "take (Suc i) ?res = take i res @ [?e]" using i by (simp add: take_Suc_conv_app_nth)
  moreover have "drop (Suc i + length cs) ?res = drop (Suc i + length cs) res" by (simp add: drop_update_cancel)
  ultimately show ?case using s by (simp add: ts(1) k(1) c)
qed simp

declare turn_down.simps [code] turn_up.simps [code]

lemma fast_total: "repeats (\<lambda>r. fast_sinf BM_ANGLE)" "repeats (\<lambda>r. fast_cosf BM_ANGLE)" "repeats (\<lambda>r. fast_tanf BM_ANGLE)" "repeats (\<lambda>r. fast_expf F_TWO)"
proof -
  have "fast_sinf BM_ANGLE \<noteq> None" by code_simp
  moreover have "fast_cosf BM_ANGLE \<noteq> None" by code_simp
  moreover have "fast_expf F_TWO \<noteq> None" by code_simp
  ultimately show "repeats (\<lambda>r. fast_sinf BM_ANGLE)" "repeats (\<lambda>r. fast_cosf BM_ANGLE)" "repeats (\<lambda>r. fast_tanf BM_ANGLE)" "repeats (\<lambda>r. fast_expf F_TWO)"
    by (auto simp: repeats_def fast_tanf_def)
qed

lemma bench_codes_repeat: "list_all (\<lambda>c. repeats (snd c)) (bench_codes L)"
  by (simp add: bench_codes_def fast_total) (simp add: repeats_def i32_ok_def)

text \<open>With at least one iteration and an array of at least 22 entries the benchmark fills the first 22 in
  order: the names, the cycles modulo two to the 32, the results; but the integer tests store what \<open>r\<close> was
  before, 0, and not the result of the operation. No iteration at all is a division by zero.\<close>

theorem run_benchmarks:
  assumes "22 \<le> length results" "length results < 2 ^ 32" "length clks = 22" "n \<noteq> 0"
  shows "\<exists>s. RUN_MATH_BENCHMARKS L results n clks = Some s \<and> bs_cnt s = 22 \<and>
    bs_results s = bench_entries n (bench_codes L) clks 0 @ drop 22 results \<and>
    map bm_ret (take 4 (bs_results s)) = [0, 0, 0, BM_FLOAT_A + BM_FLOAT_B]"
proof -
  have l: "length (bench_codes L) = 22" by (simp add: bench_codes_def)
  obtain r' where "RUN_MATH_BENCHMARKS L results n clks = Some \<lparr>bs_cnt = 22, bs_r = r', bs_results = bench_entries n (bench_codes L) clks 0 @ drop 22 results\<rparr>"
    using bench_all_entries [OF assms(4,2), of 0 "bench_codes L" clks L bench_tests 0] l assms(1,3) bench_codes_repeat bench_tests_eq
    by (auto simp: RUN_MATH_BENCHMARKS_def)
  moreover obtain c1 c2 c3 c4 cs where "clks = c1 # c2 # c3 # c4 # cs"
    using assms(3) by (auto simp: numeral_eq_Suc length_Suc_conv)
  then have "map bm_ret (take 4 (bench_entries n (bench_codes L) clks 0 @ drop 22 results)) = [0, 0, 0, BM_FLOAT_A + BM_FLOAT_B]"
    by (cases c1; cases c2; cases c3; cases c4) (simp add: bench_codes_def i32_ok_def numeral_eq_Suc)
  ultimately show ?thesis by auto
qed

lemma no_iteration: "bench_one name code 0 clk s = None"
  by (simp add: bench_one_def MEASURE_TIME_def Let_def split: prod.splits)

end
