(* ===== verification/Printops.thy ===== *)
theory Printops
  imports Ava_Prelude "HOL-Library.Signed_Division"
begin

section \<open>Printing to the terminal (util/printops.h)\<close>

text \<open>
  A printing function is the text it sends to the terminal, \<open>None\<close> where the standard leaves the call
  undefined. An argument of a variadic call is a value with its kind; a \<open>va_list\<close> handed on as an argument
  is an argument of its own kind. Of the conversions of \<open>printf\<close> the model has the decimal number, the
  text, the character and the percent sign, without flags and widths; any other one is \<open>None\<close> as well.
\<close>

datatype parg = PInt int | PStr string | PChr char | PVaList "parg list"

fun dec_digits :: "nat \<Rightarrow> string" where
  "dec_digits n = (if n < 10 then [''0123456789'' ! n] else dec_digits (n div 10) @ [''0123456789'' ! (n mod 10)])"

declare dec_digits.simps [simp del]

definition dec_int :: "int \<Rightarrow> string" where
  "dec_int i = (if i < 0 then CHR ''-'' # dec_digits (nat (- i)) else dec_digits (nat i))"

fun conv :: "char \<Rightarrow> parg \<Rightarrow> string option" where
  "conv k (PInt i) = (if k = CHR ''d'' then Some (dec_int i) else None)"
| "conv k (PStr s) = (if k = CHR ''s'' then Some s else None)"
| "conv k (PChr c) = (if k = CHR ''c'' then Some [c] else None)"
| "conv k (PVaList xs) = None"

text \<open>Arguments too many are ignored, one too few is undefined.\<close>

fun vprintf :: "string \<Rightarrow> parg list \<Rightarrow> string option" where
  "vprintf [] xs = Some []"
| "vprintf [c] xs = (if c = CHR ''%'' then None else Some [c])"
| "vprintf (c # k # cs) xs =
     (if c \<noteq> CHR ''%'' then map_option ((#) c) (vprintf (k # cs) xs)
      else if k = CHR ''%'' then map_option ((#) k) (vprintf cs xs)
      else case xs of [] \<Rightarrow> None | x # xs \<Rightarrow> do { s \<leftarrow> conv k x; r \<leftarrow> vprintf cs xs; Some (s @ r) })"

definition ESC :: char where
  "ESC = CHR 0x1B"

definition COLOR_RESET :: string where "COLOR_RESET = ESC # ''[0m''"
definition COLOR_BLACK :: string where "COLOR_BLACK = ESC # ''[30m''"
definition COLOR_RED :: string where "COLOR_RED = ESC # ''[31m''"
definition COLOR_GREEN :: string where "COLOR_GREEN = ESC # ''[32m''"
definition COLOR_YELLOW :: string where "COLOR_YELLOW = ESC # ''[33m''"
definition COLOR_BLUE :: string where "COLOR_BLUE = ESC # ''[34m''"
definition COLOR_MAGENTA :: string where "COLOR_MAGENTA = ESC # ''[35m''"
definition COLOR_CYAN :: string where "COLOR_CYAN = ESC # ''[36m''"
definition COLOR_WHITE :: string where "COLOR_WHITE = ESC # ''[37m''"
definition BG_BLACK :: string where "BG_BLACK = ESC # ''[40m''"
definition BG_RED :: string where "BG_RED = ESC # ''[41m''"
definition BG_GREEN :: string where "BG_GREEN = ESC # ''[42m''"
definition BG_YELLOW :: string where "BG_YELLOW = ESC # ''[43m''"
definition BG_BLUE :: string where "BG_BLUE = ESC # ''[44m''"
definition BG_MAGENTA :: string where "BG_MAGENTA = ESC # ''[45m''"
definition BG_CYAN :: string where "BG_CYAN = ESC # ''[46m''"
definition BG_WHITE :: string where "BG_WHITE = ESC # ''[47m''"
definition STYLE_BOLD :: string where "STYLE_BOLD = ESC # ''[1m''"
definition STYLE_DIM :: string where "STYLE_DIM = ESC # ''[2m''"
definition STYLE_ITALIC :: string where "STYLE_ITALIC = ESC # ''[3m''"
definition STYLE_UNDERLINE :: string where "STYLE_UNDERLINE = ESC # ''[4m''"
definition STYLE_BLINK :: string where "STYLE_BLINK = ESC # ''[5m''"
definition STYLE_REVERSE :: string where "STYLE_REVERSE = ESC # ''[7m''"
definition STYLE_HIDDEN :: string where "STYLE_HIDDEN = ESC # ''[8m''"

definition supports_color :: bool where
  "supports_color \<longleftrightarrow> True"

definition cprintf :: "string \<Rightarrow> string \<Rightarrow> parg list \<Rightarrow> string option" where
  "cprintf color fmt args =
     (if supports_color then do {
        a \<leftarrow> vprintf ''%s'' [PStr color];
        b \<leftarrow> vprintf fmt args;
        c \<leftarrow> vprintf ''%s'' [PStr COLOR_RESET];
        Some (a @ b @ c) }
      else vprintf fmt args)"

text \<open>These hand their \<open>va_list\<close> to \<open>cprintf\<close>, which takes it for its first argument.\<close>

definition print_red :: "string \<Rightarrow> parg list \<Rightarrow> string option" where
  "print_red fmt args = cprintf COLOR_RED fmt [PVaList args]"

definition print_green :: "string \<Rightarrow> parg list \<Rightarrow> string option" where
  "print_green fmt args = cprintf COLOR_GREEN fmt [PVaList args]"

definition print_yellow :: "string \<Rightarrow> parg list \<Rightarrow> string option" where
  "print_yellow fmt args = cprintf COLOR_YELLOW fmt [PVaList args]"

definition print_blue :: "string \<Rightarrow> parg list \<Rightarrow> string option" where
  "print_blue fmt args = cprintf COLOR_BLUE fmt [PVaList args]"

definition print_magenta :: "string \<Rightarrow> parg list \<Rightarrow> string option" where
  "print_magenta fmt args = cprintf COLOR_MAGENTA fmt [PVaList args]"

definition print_cyan :: "string \<Rightarrow> parg list \<Rightarrow> string option" where
  "print_cyan fmt args = cprintf COLOR_CYAN fmt [PVaList args]"

definition print_bold :: "string \<Rightarrow> parg list \<Rightarrow> string option" where
  "print_bold fmt args = cprintf STYLE_BOLD fmt [PVaList args]"

definition NL :: string where
  "NL = [CHR 0x0A]"

definition print_info :: "string \<Rightarrow> parg list \<Rightarrow> string option" where
  "print_info fmt args = do { a \<leftarrow> cprintf COLOR_BLUE ''[INFO] '' []; b \<leftarrow> vprintf fmt args; c \<leftarrow> vprintf NL []; Some (a @ b @ c) }"

definition print_success :: "string \<Rightarrow> parg list \<Rightarrow> string option" where
  "print_success fmt args = do { a \<leftarrow> cprintf COLOR_GREEN ''[SUCCESS] '' []; b \<leftarrow> vprintf fmt args; c \<leftarrow> vprintf NL []; Some (a @ b @ c) }"

definition print_warn :: "string \<Rightarrow> parg list \<Rightarrow> string option" where
  "print_warn fmt args = do { a \<leftarrow> cprintf COLOR_YELLOW ''[WARNING] '' []; b \<leftarrow> vprintf fmt args; c \<leftarrow> vprintf NL []; Some (a @ b @ c) }"

definition print_err :: "string \<Rightarrow> parg list \<Rightarrow> string option" where
  "print_err fmt args = do { a \<leftarrow> cprintf COLOR_RED ''[ERROR] '' []; b \<leftarrow> vprintf fmt args; c \<leftarrow> vprintf NL []; Some (a @ b @ c) }"

definition print_debug :: "string \<Rightarrow> parg list \<Rightarrow> string option" where
  "print_debug fmt args = do { a \<leftarrow> cprintf COLOR_CYAN ''[DEBUG] '' []; b \<leftarrow> vprintf fmt args; c \<leftarrow> vprintf NL []; Some (a @ b @ c) }"

definition print_info_ts :: "string \<Rightarrow> parg list \<Rightarrow> string option" where
  "print_info_ts fmt args = do { a \<leftarrow> cprintf COLOR_BLUE ''[INFO] '' []; b \<leftarrow> vprintf fmt args; c \<leftarrow> vprintf NL []; Some (a @ b @ c) }"

definition print_error_ts :: "string \<Rightarrow> parg list \<Rightarrow> string option" where
  "print_error_ts fmt args = do { a \<leftarrow> cprintf COLOR_RED ''[ERROR] '' []; b \<leftarrow> vprintf fmt args; c \<leftarrow> vprintf NL []; Some (a @ b @ c) }"

text \<open>The cells of the bar from cell \<open>i\<close> on, \<open>n\<close> of them.\<close>

fun bar_cells :: "nat \<Rightarrow> int \<Rightarrow> int \<Rightarrow> string option" where
  "bar_cells 0 i pos = Some []"
| "bar_cells (Suc n) i pos = do {
     a \<leftarrow> (if i < pos then cprintf COLOR_GREEN ''='' [] else if i = pos then cprintf COLOR_YELLOW ''>'' [] else vprintf '' '' []);
     r \<leftarrow> bar_cells n (i + 1) pos;
     Some (a @ r) }"

text \<open>\<open>percent\<close> is a 32-bit number; the product may overflow, which is undefined.\<close>

definition print_progress :: "int \<Rightarrow> string \<Rightarrow> string option" where
  "print_progress percent label = (let bar_width = 50 in
     if bar_width * percent < - (2 ^ 31) \<or> 2 ^ 31 \<le> bar_width * percent then None
     else do {
       let pos = bar_width * percent sdiv 100;
       a \<leftarrow> vprintf (CHR 0x0D # ''%s['') [PStr label];
       b \<leftarrow> bar_cells (nat bar_width) 0 pos;
       c \<leftarrow> vprintf ''] %d%%'' [PInt percent];
       Some (a @ b @ c) })"

definition print_table_header :: "string \<Rightarrow> parg list \<Rightarrow> string option" where
  "print_table_header fmt args = do { a \<leftarrow> cprintf (STYLE_BOLD @ COLOR_BLUE) fmt [PVaList args]; b \<leftarrow> vprintf NL []; Some (a @ b) }"

definition print_table_row :: "string \<Rightarrow> parg list \<Rightarrow> string option" where
  "print_table_row fmt args = do { a \<leftarrow> vprintf ''  '' []; b \<leftarrow> vprintf fmt args; c \<leftarrow> vprintf NL []; Some (a @ b @ c) }"

subsection \<open>The coloured printers cannot take arguments\<close>

text \<open>A format is plain when it has no conversion but the percent sign; then its text is fixed.\<close>

definition plain :: "string \<Rightarrow> bool" where
  "plain fmt \<longleftrightarrow> vprintf fmt [] \<noteq> None"

lemma vprintf_plain: "vprintf fmt [] = Some s \<Longrightarrow> vprintf fmt xs = Some s"
  by (induction fmt xs arbitrary: s rule: vprintf.induct) (auto split: if_splits option.splits)

lemma vprintf_va_list: "vprintf fmt [PVaList args] = vprintf fmt []"
  by (induction fmt "[PVaList args]" rule: vprintf.induct) auto

lemma cprintf_eq: "cprintf color fmt args = map_option (\<lambda>s. color @ s @ COLOR_RESET) (vprintf fmt args)"
  by (cases "vprintf fmt args") (simp_all add: cprintf_def supports_color_def)

text \<open>the coloured printers print a plain format in their colour, and are undefined for every format
  with a conversion, whatever arguments are given; the printers of a level and of a table row print their
  prefix and the formatted arguments.\<close>

theorem coloured_printers:
  "map (\<lambda>f. f fmt args) [print_red, print_green, print_yellow, print_blue, print_magenta, print_cyan, print_bold] =
     map (\<lambda>c. if plain fmt then Some (c @ the (vprintf fmt []) @ COLOR_RESET) else None)
       [COLOR_RED, COLOR_GREEN, COLOR_YELLOW, COLOR_BLUE, COLOR_MAGENTA, COLOR_CYAN, STYLE_BOLD] \<and>
   print_table_header fmt args = (if plain fmt then Some (STYLE_BOLD @ COLOR_BLUE @ the (vprintf fmt []) @ COLOR_RESET @ NL) else None) \<and>
   map (\<lambda>f. f fmt args) [print_info, print_success, print_warn, print_err, print_debug, print_info_ts, print_error_ts, print_table_row] =
     map (\<lambda>p. map_option (\<lambda>s. p @ s @ NL) (vprintf fmt args))
       [COLOR_BLUE @ ''[INFO] '' @ COLOR_RESET, COLOR_GREEN @ ''[SUCCESS] '' @ COLOR_RESET, COLOR_YELLOW @ ''[WARNING] '' @ COLOR_RESET,
        COLOR_RED @ ''[ERROR] '' @ COLOR_RESET, COLOR_CYAN @ ''[DEBUG] '' @ COLOR_RESET, COLOR_BLUE @ ''[INFO] '' @ COLOR_RESET,
        COLOR_RED @ ''[ERROR] '' @ COLOR_RESET, ''  '']"
proof -
  note defs = print_red_def print_green_def print_yellow_def print_blue_def print_magenta_def print_cyan_def print_bold_def print_table_header_def
    print_info_def print_success_def print_warn_def print_err_def print_debug_def print_info_ts_def print_error_ts_def print_table_row_def
  show ?thesis by (cases "vprintf fmt []"; cases "vprintf fmt args") (simp_all add: defs cprintf_eq vprintf_va_list plain_def NL_def)
qed

subsection \<open>The progress bar\<close>

definition cell_done :: string where "cell_done = COLOR_GREEN @ ''='' @ COLOR_RESET"
definition cell_head :: string where "cell_head = COLOR_YELLOW @ ''>'' @ COLOR_RESET"

lemma bar_cells_eq:
  "bar_cells n i pos = Some (concat (map (\<lambda>j. if i + int j < pos then cell_done else if i + int j = pos then cell_head else '' '') [0 ..< n]))"
proof (induction n arbitrary: i)
  case (Suc n)
  have "[0 ..< Suc n] = 0 # map Suc [0 ..< n]" by (simp add: upt_conv_Cons map_Suc_upt del: upt_Suc)
  then show ?case using Suc [of "i + 1"]
    by (simp add: cprintf_eq cell_done_def cell_head_def o_def add.assoc del: upt_Suc cong: if_cong)
qed simp

text \<open>for a percentage between 0 and 100 the bar has fifty cells, half the percentage of them done,
  then the head unless all are done, then blanks, and the percentage behind it; a number whose product with
  fifty leaves the 32-bit range is undefined.\<close>

theorem progress_bar:
  "(0 \<le> p \<and> p \<le> 100 \<longrightarrow> print_progress p label =
      Some (CHR 0x0D # label @ ''['' @ concat (replicate (nat (p div 2)) cell_done @ (if p < 100 then [cell_head] else []) @ replicate (49 - nat (p div 2)) '' '')
        @ ''] '' @ dec_int p @ ''%'')) \<and>
   (print_progress p label = None \<longleftrightarrow> p \<notin> {- 42949672 .. 42949672})"
proof
  have cells: "map (\<lambda>j. if 0 + int j < int k then cell_done else if 0 + int j = int k then cell_head else '' '') [0 ..< 50]
      = replicate k cell_done @ (if k < 50 then [cell_head] else []) @ replicate (49 - k) '' ''" if "k \<le> 50" for k
    using that by (intro nth_equalityI) (auto simp: nth_append)
  show "0 \<le> p \<and> p \<le> 100 \<longrightarrow> print_progress p label =
      Some (CHR 0x0D # label @ ''['' @ concat (replicate (nat (p div 2)) cell_done @ (if p < 100 then [cell_head] else []) @ replicate (49 - nat (p div 2)) '' '')
        @ ''] '' @ dec_int p @ ''%'')"
  proof
    assume p: "0 \<le> p \<and> p \<le> 100"
    then have "50 * p sdiv 100 = sgn (50 * p) * (50 * p div 100)" by (simp add: signed_divide_int_def)
    also have "\<dots> = int (nat (p div 2))" using p by (cases "p = 0") simp_all
    finally have "50 * p sdiv 100 = int (nat (p div 2))" .
    then have e: "50 * p sdiv 100 = int (nat (p div 2))" "nat (p div 2) \<le> 50" "nat (p div 2) < 50 \<longleftrightarrow> p < 100" using p by linarith+
    show "print_progress p label =
      Some (CHR 0x0D # label @ ''['' @ concat (replicate (nat (p div 2)) cell_done @ (if p < 100 then [cell_head] else []) @ replicate (49 - nat (p div 2)) '' '')
        @ ''] '' @ dec_int p @ ''%'')"
      using p cells [OF e(2)] unfolding print_progress_def Let_def e(1) 
      by (simp only: bar_cells_eq e(3)) simp
  qed
  show "print_progress p label = None \<longleftrightarrow> p \<notin> {- 42949672 .. 42949672}"
    by (auto simp: print_progress_def bar_cells_eq Let_def)
qed

lemma progress_bar_witness:
  "print_progress 50 ''x'' = Some (CHR 0x0D # ''x'' @ ''['' @ concat (replicate 25 cell_done @ [cell_head] @ replicate 24 '' '') @ ''] 50%'')"
  using progress_bar [of 50 "''x''"] by (simp add: dec_int_def dec_digits.simps)

end
