(* ===== verification/Spec2Isabelle.thy ===== *)
theory Spec2Isabelle
  imports Bitops_Variants Crc Spsc_Conc Mpsc_Atomic_Props Mem_Pool Sched_Thread Log_Props Rls Foc_Props Net_Windows Maf Fft Shm Benchmark Printops
begin

text \<open>
  A verification library for ava_module, a collection of header-only C modules for motor control and the
  services around it. A program includes the headers it needs; the headers under one directory belong to
  one subject, and every operation is a function over a structure of configuration (\<open>cfg\<close>), input (\<open>in\<close>),
  output (\<open>out\<close>) and local state (\<open>lo\<close>).

  \<^bold>\<open>Parts and how they interact.\<close>
  \<^item> Containers: the byte rings ds/spsc.h and ds/mpsc.h, the circular list ds/list.h, the red-black tree
    ds/rbtree.h and the memory pool ds/mp.h, which keeps its blocks in the list behind a spin lock of
    util/macrodef.h.
  \<^item> Services on the containers: the scheduler sched/sched.h keeps its tasks in the tree and, in the Linux
    build, starts the thread of sched/thread.h; the logger log/log.h passes records through the
    multi-producer ring; the shared-memory ring shm/shm.h is the single-producer ring in a mapped object;
    comm/net.h keeps channels in the list, asynchronous requests in the pool, and logs its traffic.
  \<^item> Control: foc/*.h is the control step of a motor. It uses ctl/pid.h, trans/clarkepark.h, filter/pll.h,
    the observers obs/*.h (with filter/iir.h and filter/pll.h) and the macros of util/mathdef.h. The other
    filters filter/maf.h and filter/rls.h, the spectrum trans/fft.h and the generators wavegen/*.h stand alone.
  \<^item> Utilities: bit operations, CRC-32, time and delays, fast approximations, terminal output.

  \<^bold>\<open>Conventions.\<close> A structure is a record, its fields prefixed; an enumeration is a datatype; an integer is a
  word of its width, so that sums wrap around where they do in C. \<open>None\<close> is undefined behaviour: an access
  outside an object, an invalid shift, a conversion out of range, a NULL call, a loop that does not end.
  An error code is a value of the result. Memory is modelled where aliasing matters: list, tree and pool
  are heaps from addresses to nodes. A call of the system is an event in the result, what it gives back
  an input. The build is, where no other is named, the default one on Linux with GCC (no \<open>FAST_MATH\<close>, no \<open>ARM_MATH\<close>).
  \<open>f32\<close> and \<open>f64\<close> are IEEE numbers, computed bit for bit: round to nearest, ties to even, no contraction;
  the functions of the math library other than \<open>fmodf\<close> are the record \<open>libm\<close>, an argument.

  \<^bold>\<open>Theories.\<close>
  \<^item> \<open>Ava_Prelude\<close>: machine types, error codes, copies of bytes and the lemmas the components share.
  \<^item> \<open>Bitops\<close>, \<open>Bitops_Variants\<close> (util/bitops.h), \<open>Crc\<close> (crypto/crc.h): the portable loops and the
    other compilers' intrinsics against the builtins, the table against the shift register of the polynomial.
  \<^item> \<open>Ring_Copy\<close> (copies around the end of a ring, the contract \<open>byte_fifo\<close>), \<open>Spsc_Ring\<close> (ds/spsc.h, one
    caller), \<open>Spsc_Conc\<close> (one producer and one consumer, byte by byte), \<open>Shm\<close> (shm/shm.h: two processes, each
    bounded by its own mapping).
  \<^item> \<open>Mpsc\<close>, \<open>Mpsc_Inv\<close>, \<open>Mpsc_Regions\<close>, \<open>Mpsc_Fifo\<close> (ds/mpsc.h): operations, the invariant of reservations,
    exclusive regions, order, for whole calls. \<open>Mpsc_Atomic\<close>, \<open>Mpsc_Atomic_Inv\<close>, \<open>Mpsc_Atomic_Props\<close>: the same
    calls one atomic operation at a time, interleaved, refined to whole calls. \<open>Log\<close> and \<open>Log_Props\<close>
    (log/log.h) build on the whole calls.
  \<^item> \<open>Link_List\<close> (ds/list.h), \<open>Spin_Lock\<close> (util/macrodef.h), \<open>Mem_Pool\<close> (ds/mp.h): the tiling of the pool by
    blocks, and clients that hold regions of it.
  \<^item> \<open>Rb_Heap\<close>, \<open>Rb_Tree\<close>, \<open>Rb_Insert\<close>, \<open>Rb_Erase\<close> (ds/rbtree.h): operations on the heap of nodes, the tree a
    heap represents (a tree and the path to it), insertion, removal and traversal.
  \<^item> \<open>Run_Queue\<close> (the contract), \<open>Sched\<close>, \<open>Sched_Queue\<close>, \<open>Sched_Exec\<close>, \<open>Sched_Inv\<close> (sched/sched.h),
    \<open>Sched_Thread\<close> (sched/thread.h): operations, the tree as a queue, one round, reachable schedulers, the
    thread and its race with the caller.
  \<^item> \<open>Timeops\<close> (util/timeops.h), \<open>Net\<close> and \<open>Net_Props\<close> (comm/net.h): channels, requests and completions.
    \<open>Net_Windows\<close>: the branches of both for Windows.
  \<^item> \<open>Float_Round\<close>, \<open>Float32\<close>, \<open>Float_Exact\<close>, \<open>Float64\<close>: the numbers; \<open>Mathdef\<close> (util/mathdef.h), \<open>Fastmath\<close>
    (util/fastmath.h), \<open>Motor_Types\<close> (util/typedef.h).
  \<^item> \<open>Pid\<close>, \<open>Wavegen\<close>, \<open>Clarke_Park\<close>, \<open>Pll\<close>, \<open>Iir\<close>, \<open>Rls\<close>, \<open>Maf\<close>, \<open>Fft\<close>, \<open>Observers\<close>: one header each (\<open>Wavegen\<close>
    and \<open>Observers\<close> the headers of their directory). \<open>Foc_Types\<close>, \<open>Foc_Ctl\<close>, \<open>Foc\<close>, \<open>Foc_Props\<close>: the control step.
  \<^item> \<open>Printops\<close> (util/printops.h), \<open>Benchmark\<close> (util/benchmark.h, the ARM build).

  \<^bold>\<open>Contracts.\<close> \<open>byte_fifo\<close> says that what goes in comes out, in order; its run lemma is proved once and
  interpreted by \<open>spsc_fifo\<close>, \<open>shm_fifo\<close> and \<open>mpsc_fifo\<close>. \<open>run_queue\<close> says that inserting keeps the order by key,
  behind equals; \<open>cfs\<close> interprets it on the scheduler's tree. \<open>log_rounds\<close> says that one round of a flush takes
  the oldest record; \<open>log_bin\<close> and \<open>log_txt\<close> interpret it on the two flushes.

  \<^bold>\<open>What the lemmas show.\<close> Containers: every operation keeps the invariant and refines its abstract
  counterpart (queue of bytes, cyclic list, ordered sequence, disjoint regions), single-threaded and, for
  the rings and the lock, for every interleaving of atomic steps under sequential consistency. Where that
  has a condition it is in the statement: the interleaved single-producer ring must not be the overwriting
  one, pool requests stay 128 KiB below the end of the number range, a mapping covers the ring. Scheduler:
  rounds run the first task by due time and priority, reachable states are safe, FCFS serves every task;
  insertions from two threads lose a task. Logger: what is written is delivered, in order and unchanged, when every
  line fits the flush buffer; a line that does not is written past its end.
  Network: every accepted request is answered once, unless a stale completion meets a reused block or an
  entry left unprepared by a failed allocation carries the address of a refused receive; sockets are closed once. Control: the step is defined for every input, duties stay in the period, the state
  machine moves as drawn, outputs and the wrapped angles stay in closed ranges, the filters are their difference equations.
  Error properties say for which inputs an operation is undefined or wrong; each is a finding of the
  manifest with the line it is about.

  \<^bold>\<open>Bounds.\<close> \<open>RB_FUEL\<close> is 200 rounds: a tree of nonzero 64-bit addresses has black height at most 64 and
  height at most 128. \<open>MP_FUEL\<close> is 4096: a block has at least 24 bytes, so the 65536 bytes hold at most 2730.
  A compare-and-swap of the multi-producer ring compares a 31-bit lap number: the interleaved steps exclude
  a producer that sleeps for two to the 31 laps between its load and its swap.
  \<open>mpsc_acquire\<close> gets its number of failing compare-and-swaps as an argument, and one that does not fail
  follows; the search for a producer's region needs two rounds. Walks over a list get a fuel that the
  lemmas require to exceed its length. The loops of \<open>fast_sinf\<close> are partial functions, their end is proved
  below two to the 27 degrees.

  \<^bold>\<open>Not modelled.\<close>
  \<^item> trans/fftw3.h and driver/jlink/jlink.h are declarations of other people's libraries; FFTW is a parameter of \<open>Fft\<close>.
  \<^item> foc/cogcomp.h and ctl/adrc.h are empty; comm.h, crypto.h, ctl.h, ds.h, filter.h, obs.h, trans.h,
    wavegen.h, util.h, def.h, module.h and version.h only include others or name constants of the build.
  \<^item> The microcontroller branches, the socket of \<open>net_broadcast\<close> on Windows, the tests and the scripts.
  \<^item> Of util/macrodef.h the attributes, array-length checks and aliases of atomic operations; weak memory
    orders: the atomic steps are interleaved.
\<close>

end
